(* ===== verification/Zc_Prelude.thy ===== *)
theory Zc_Prelude
  imports Main "HOL-Library.Word"
begin

unbundle bit_operations_syntax

text \<open>
  Vocabulary shared by every component: bytes and machine words, \<open>size_t\<close> arithmetic,
  the library's result codes (\<open>include/zcio/types.h\<close>, \<open>src/util.c\<close>), block copies and the
  list facts the component proofs use. Collections of facts: \<open>zc_defs\<close> holds definitions that
  are safe to unfold everywhere, \<open>mem_simps\<close> the rules about block copies.
\<close>

named_theorems zc_defs \<open>definitions that may be unfolded in every component\<close>
named_theorems mem_simps \<open>block copies, slices and their lengths\<close>

subsection \<open>Machine integers\<close>

type_synonym byte = "8 word"
type_synonym bytes = "8 word list"
type_synonym u16 = "16 word"
type_synonym u32 = "32 word"
type_synonym u64 = "64 word"

text \<open>
  A C object's size is a \<open>size_t\<close>; sizes are natural numbers here and \<open>SIZE_MAX\<close> is the
  64-bit bound. Subtraction of sizes wraps in C, unlike subtraction of natural numbers, so it is
  written \<open>szsub\<close>; \<open>to_i64\<close> is the cast of a size to \<open>int64_t\<close> (two's complement).
\<close>

definition SIZE_MAX :: nat where
  "SIZE_MAX = 2 ^ 64 - 1"

definition szsub :: "nat \<Rightarrow> nat \<Rightarrow> nat" where
  "szsub a b = (if b \<le> a then a - b else 2 ^ 64 + a - b)"

definition to_i64 :: "nat \<Rightarrow> int" where
  "to_i64 n = sint (word_of_nat n :: u64)"

lemma min_diff3:
  fixes r a b c :: nat
  shows "r \<le> a \<Longrightarrow> r \<le> b \<Longrightarrow> r \<le> c \<Longrightarrow> r + min (a - r) (min (b - r) (c - r)) = min a (min b c)"
  by linarith

lemma szsub_le [simp]: "b \<le> a \<Longrightarrow> szsub a b = a - b"
  by (simp add: szsub_def)

lemma to_i64_signed_take_bit: "to_i64 n = signed_take_bit 63 (int n)"
  using sint_sbintrunc' [where 'a = 64, of "int n"] by (simp add: to_i64_def)

lemma to_i64_small:
  assumes "n < 2 ^ 63"
  shows "to_i64 n = int n"
  unfolding to_i64_signed_take_bit using assms
  by (intro signed_take_bit_int_eq_self) auto

lemma to_i64_big:
  assumes "2 ^ 63 \<le> n" "n < 2 ^ 64"
  shows "to_i64 n = int n - 2 ^ 64"
proof -
  have "take_bit 64 (int n - 2 ^ 64) = take_bit 64 (int n)"
    by (simp add: take_bit_eq_mod)
  then have "signed_take_bit 63 (int n) = signed_take_bit 63 (int n - 2 ^ 64)"
    by (simp add: signed_take_bit_eq_iff_take_bit_eq)
  also have "\<dots> = int n - 2 ^ 64"
    using assms by (intro signed_take_bit_int_eq_self) auto
  finally show ?thesis by (simp only: to_i64_signed_take_bit)
qed

text \<open>Seven-bit groups: the low bits of a byte and its top bit.\<close>

lemma and_7F: "(b AND 0x7F :: 'a :: len word) = take_bit 7 b"
  by (simp add: take_bit_eq_mask mask_eq_exp_minus_1)

lemma bit_128: "bit (0x80 :: nat) n \<longleftrightarrow> n = 7" "bit (0x80 :: int) n \<longleftrightarrow> n = 7"
  using bit_exp_iff [where 'a = nat, of 7 n] bit_exp_iff [where 'a = int, of 7 n] by (auto simp: possible_bit_def)

lemma and_80_of_nat: "b < 256 \<Longrightarrow> (of_nat b AND 0x80 :: byte) = 0 \<longleftrightarrow> b < 128"
proof -
  have "(of_nat b AND 0x80 :: byte) = 0 \<longleftrightarrow> \<not> bit (of_nat b :: byte) 7"
  proof
    assume "(of_nat b AND 0x80 :: byte) = 0"
    then have "\<not> bit (of_nat b AND 0x80 :: byte) 7" by simp
    then show "\<not> bit (of_nat b :: byte) 7" by (simp add: bit_and_iff bit_numeral_word_iff bit_128)
  next
    assume "\<not> bit (of_nat b :: byte) 7"
    then show "(of_nat b AND 0x80 :: byte) = 0" by (intro bit_word_eqI) (auto simp: bit_simps bit_128)
  qed
  moreover have "bit (of_nat b :: byte) 7 \<longleftrightarrow> odd (b div 128)"
    using bit_iff_odd [of b 7] by (simp add: bit_simps)
  moreover assume "b < 256"
  then have "b div 128 = (if b < 128 then 0 else 1)" by (auto intro: div_nat_eqI)
  ultimately show ?thesis by simp
qed

lemma ucast_and_7F: "ucast (of_nat b AND 0x7F :: byte) = (of_nat (b mod 128) :: u64)"
proof -
  have "(of_nat b AND 0x7F :: byte) = of_nat (take_bit 7 b)" by (simp add: and_7F take_bit_of_nat)
  also have "take_bit 7 b = b mod 128" by (simp add: take_bit_eq_mod)
  finally show ?thesis by (simp add: unsigned_of_nat take_bit_nat_eq_self)
qed

lemma or_80_ucast: "0x80 OR ucast (v AND 0x7F :: u64) = (of_nat (128 + unat v mod 128) :: byte)"
proof -
  have "0x80 OR ucast (v AND 0x7F :: u64) = (0x80 + ucast (take_bit 7 v) :: byte)"
    unfolding and_7F by (rule disjunctive_add_eq_or [symmetric], rule bit_word_eqI) (auto simp: bit_simps bit_128)
  also have "(ucast (take_bit 7 v) :: byte) = of_nat (unat v mod 128)"
  proof -
    have "(ucast (take_bit 7 v) :: byte) = of_nat (unat (take_bit 7 v))" by simp
    also have "unat (take_bit 7 v) = unat v mod 128" by (simp add: take_bit_eq_mod unat_mod_distrib)
    finally show ?thesis .
  qed
  finally show ?thesis by simp
qed

subsection \<open>Result codes (types.h, util.c)\<close>

datatype zcio_result =
    ZCIO_OK | ZCIO_ERR | ZCIO_ERR_INVALID_ARG | ZCIO_ERR_CONNECT | ZCIO_ERR_TIMEOUT
  | ZCIO_ERR_EOF | ZCIO_ERR_TLS | ZCIO_ERR_ARCHIVE | ZCIO_ERR_NOMEM | ZCIO_ERR_UNSUPPORTED
  | ZCIO_ERR_WOULDBLOCK | ZCIO_ERR_DNS | ZCIO_ERR_PROTOCOL

text \<open>The numeric value of the enumerator, as a byte-count function returns it.\<close>

primrec zcode :: "zcio_result \<Rightarrow> int" where
  "zcode ZCIO_OK = 0"
| "zcode ZCIO_ERR = -1"
| "zcode ZCIO_ERR_INVALID_ARG = -2"
| "zcode ZCIO_ERR_CONNECT = -3"
| "zcode ZCIO_ERR_TIMEOUT = -4"
| "zcode ZCIO_ERR_EOF = -5"
| "zcode ZCIO_ERR_TLS = -6"
| "zcode ZCIO_ERR_ARCHIVE = -7"
| "zcode ZCIO_ERR_NOMEM = -8"
| "zcode ZCIO_ERR_UNSUPPORTED = -9"
| "zcode ZCIO_ERR_WOULDBLOCK = -10"
| "zcode ZCIO_ERR_DNS = -11"
| "zcode ZCIO_ERR_PROTOCOL = -12"

primrec zcio_result_str :: "zcio_result \<Rightarrow> string" where
  "zcio_result_str ZCIO_OK = ''ok''"
| "zcio_result_str ZCIO_ERR = ''error''"
| "zcio_result_str ZCIO_ERR_INVALID_ARG = ''invalid argument''"
| "zcio_result_str ZCIO_ERR_CONNECT = ''connection failed''"
| "zcio_result_str ZCIO_ERR_TIMEOUT = ''timed out''"
| "zcio_result_str ZCIO_ERR_EOF = ''end of stream''"
| "zcio_result_str ZCIO_ERR_TLS = ''tls error''"
| "zcio_result_str ZCIO_ERR_ARCHIVE = ''archive error''"
| "zcio_result_str ZCIO_ERR_NOMEM = ''out of memory''"
| "zcio_result_str ZCIO_ERR_UNSUPPORTED = ''unsupported''"
| "zcio_result_str ZCIO_ERR_WOULDBLOCK = ''would block''"
| "zcio_result_str ZCIO_ERR_DNS = ''dns failure''"
| "zcio_result_str ZCIO_ERR_PROTOCOL = ''protocol error''"

lemma zcode_nonpos [simp]: "zcode r \<le> 0"
  by (cases r) simp_all

lemma zcode_neg_iff: "zcode r < 0 \<longleftrightarrow> r \<noteq> ZCIO_OK"
  by (cases r) simp_all

lemma zcode_inj: "zcode r = zcode r' \<Longrightarrow> r = r'"
  by (cases r; cases r') simp_all

subsection \<open>Strings and block copies\<close>

text \<open>
  A C string is the list of its bytes without the terminating NUL; \<open>asc\<close> turns a literal into
  bytes.
\<close>

definition asc :: "string \<Rightarrow> bytes" where
  "asc s = map of_char s"

lemma asc_Nil [simp]: "asc [] = []"
  by (simp add: asc_def)

lemma asc_Cons [simp]: "asc (c # s) = of_char c # asc s"
  by (simp add: asc_def)

lemma asc_append: "asc (s @ t) = asc s @ asc t"
  by (simp add: asc_def)

lemma length_asc [simp]: "length (asc s) = length s"
  by (simp add: asc_def)

text \<open>\<open>memcpy m off src\<close>: the block \<open>m\<close> after \<open>memcpy(m + off, src, length src)\<close>.\<close>

definition memcpy :: "'a list \<Rightarrow> nat \<Rightarrow> 'a list \<Rightarrow> 'a list" where
  "memcpy m off src = take off m @ src @ drop (off + length src) m"

text \<open>The \<open>n\<close> bytes of the block \<open>m\<close> that start at \<open>off\<close>.\<close>

definition mslice :: "'a list \<Rightarrow> nat \<Rightarrow> nat \<Rightarrow> 'a list" where
  "mslice m off n = take n (drop off m)"

lemma length_memcpy [simp, mem_simps]:
  "off + length src \<le> length m \<Longrightarrow> length (memcpy m off src) = length m"
  by (simp add: memcpy_def)

lemma memcpy_Nil [simp, mem_simps]: "memcpy m off [] = m"
  by (simp add: memcpy_def)

lemma length_mslice [simp, mem_simps]: "length (mslice m off n) = min n (length m - off)"
  by (simp add: mslice_def)

lemma mslice_0 [simp, mem_simps]: "mslice m off 0 = []"
  by (simp add: mslice_def)

lemma nth_memcpy:
  assumes "off + length src \<le> length m" "i < length m"
  shows "memcpy m off src ! i =
    (if off \<le> i \<and> i < off + length src then src ! (i - off) else m ! i)"
  using assms by (auto simp: memcpy_def nth_append)

lemma nth_mslice: "i < n \<Longrightarrow> off + i < length m \<Longrightarrow> mslice m off n ! i = m ! (off + i)"
  by (simp add: mslice_def)

lemma mslice_memcpy_same:
  "off + length src \<le> length m \<Longrightarrow> mslice (memcpy m off src) off (length src) = src"
  by (simp add: mslice_def memcpy_def)

lemma mslice_memcpy_before:
  assumes "a + n \<le> off" "off + length src \<le> length m"
  shows "mslice (memcpy m off src) a n = mslice m a n"
proof -
  have "take n (drop a (take off m)) = take n (drop a m)"
    using assms(1) by (simp add: drop_take min_def)
  with assms show ?thesis by (simp add: mslice_def memcpy_def)
qed

lemma mslice_append:
  "mslice m off a @ mslice m (off + a) b = mslice m off (a + b)"
  by (simp add: mslice_def take_add add.commute)

lemma memcpy_memcpy_adjacent:
  assumes "off + length a + length b \<le> length m"
  shows "memcpy (memcpy m off a) (off + length a) b = memcpy m off (a @ b)"
  using assms by (simp add: memcpy_def ac_simps)

end
