(* ===== verification/Zc_Stream.thy ===== *)
theory Zc_Stream
  imports Zc_Prelude "HOL-Library.Monad_Syntax"
begin

text \<open>
  The stream abstraction (\<open>include/zcio/stream.h\<close>, \<open>src/stream.c\<close>): a table of operations
  over an opaque context, the dispatching verbs and the loops \<open>zcio_read_full\<close>,
  \<open>zcio_write_full\<close> and \<open>zcio_copy\<close> built on them. The operations a backend supplies are
  \<open>option\<close>-valued twice over: an absent operation is a NULL function pointer, and a call whose
  result is \<open>None\<close> does not return (a blocking backend whose peer never acts). Two interfaces,
  \<open>byte_source\<close> and \<open>byte_sink\<close>, say what the loops rely on; the memory and ring
  backends provide them.
\<close>

subsection \<open>Operation tables and stream values\<close>

datatype zcio_seek_origin = ZCIO_SEEK_SET | ZCIO_SEEK_CUR | ZCIO_SEEK_END

definition ZCIO_SEEK_READ :: u32 where "ZCIO_SEEK_READ = 1"
definition ZCIO_SEEK_WRITE :: u32 where "ZCIO_SEEK_WRITE = 2"
definition ZCIO_SEEK_BOTH :: u32 where "ZCIO_SEEK_BOTH = ZCIO_SEEK_READ OR ZCIO_SEEK_WRITE"

record 'c zcio_stream_vtable =
  vt_name :: string
  vt_read :: "('c \<Rightarrow> nat \<Rightarrow> (int \<times> bytes \<times> 'c) option) option"
  vt_write :: "('c \<Rightarrow> bytes \<Rightarrow> (int \<times> 'c) option) option"
  vt_seek :: "('c \<Rightarrow> int \<Rightarrow> zcio_seek_origin \<Rightarrow> u32 \<Rightarrow> int \<times> 'c) option"
  vt_flush :: "('c \<Rightarrow> int \<times> 'c) option"
  vt_close :: "('c \<Rightarrow> int \<times> 'c) option"
  vt_destroy :: "('c \<Rightarrow> unit) option"
  vt_available :: "('c \<Rightarrow> int) option"
  vt_eof :: "('c \<Rightarrow> bool) option"

record 'c zcio_stream =
  vt :: "'c zcio_stream_vtable"
  ctx :: 'c
  flags :: u32

definition ZCIO_STREAM_OWNS_CTX :: u32 where "ZCIO_STREAM_OWNS_CTX = 1"
definition ZCIO_STREAM_READABLE :: u32 where "ZCIO_STREAM_READABLE = 2"
definition ZCIO_STREAM_WRITABLE :: u32 where "ZCIO_STREAM_WRITABLE = 4"

text \<open>
  Pointers that may be NULL are \<open>option\<close> values: a stream argument, a source buffer. For a
  destination buffer only its being NULL matters (\<open>dst\<close>): the bytes stored there are returned.
  \<open>alloc\<close> says whether the allocator grants the request.
\<close>

definition zcio_stream_new ::
  "bool \<Rightarrow> 'c zcio_stream_vtable option \<Rightarrow> 'c \<Rightarrow> u32 \<Rightarrow> 'c zcio_stream option" where
  "zcio_stream_new alloc v c f =
     (case v of None \<Rightarrow> None
      | Some v' \<Rightarrow> if alloc then Some \<lparr>vt = v', ctx = c, flags = f\<rparr> else None)"

text \<open>The contexts that freeing the stream hands to \<open>vt->destroy\<close>.\<close>

definition zcio_stream_free :: "'c zcio_stream option \<Rightarrow> 'c list" where
  "zcio_stream_free s =
     (case s of None \<Rightarrow> []
      | Some s' \<Rightarrow> if flags s' AND ZCIO_STREAM_OWNS_CTX \<noteq> 0 \<and> \<not> Option.is_none (vt_destroy (vt s'))
                  then [ctx s'] else [])"

subsection \<open>Dispatch\<close>

definition zcio_read ::
  "'c zcio_stream option \<Rightarrow> bool \<Rightarrow> nat \<Rightarrow> (int \<times> bytes \<times> 'c zcio_stream option) option" where
  "zcio_read s dst n =
     (case s of
        None \<Rightarrow> Some (zcode ZCIO_ERR_INVALID_ARG, [], s)
      | Some s' \<Rightarrow>
          if \<not> dst then Some (zcode ZCIO_ERR_INVALID_ARG, [], s)
          else (case vt_read (vt s') of
                  None \<Rightarrow> Some (zcode ZCIO_ERR_UNSUPPORTED, [], s)
                | Some f \<Rightarrow>
                    if n = 0 then Some (0, [], s)
                    else do { (r, d, c) \<leftarrow> f (ctx s') n; Some (r, d, Some (s'\<lparr>ctx := c\<rparr>)) }))"

definition zcio_write ::
  "'c zcio_stream option \<Rightarrow> bytes option \<Rightarrow> (int \<times> 'c zcio_stream option) option" where
  "zcio_write s src =
     (case (s, src) of
        (Some s', Some p) \<Rightarrow>
          (case vt_write (vt s') of
             None \<Rightarrow> Some (zcode ZCIO_ERR_UNSUPPORTED, s)
           | Some f \<Rightarrow>
               if length p = 0 then Some (0, s)
               else do { (r, c) \<leftarrow> f (ctx s') p; Some (r, Some (s'\<lparr>ctx := c\<rparr>)) })
      | _ \<Rightarrow> Some (zcode ZCIO_ERR_INVALID_ARG, s))"

definition zcio_seek ::
  "'c zcio_stream option \<Rightarrow> int \<Rightarrow> zcio_seek_origin \<Rightarrow> u32 \<Rightarrow> int \<times> 'c zcio_stream option" where
  "zcio_seek s off origin which =
     (case s of
        None \<Rightarrow> (zcode ZCIO_ERR_INVALID_ARG, s)
      | Some s' \<Rightarrow>
          (case vt_seek (vt s') of
             None \<Rightarrow> (zcode ZCIO_ERR_UNSUPPORTED, s)
           | Some f \<Rightarrow> (case f (ctx s') off origin which of (r, c) \<Rightarrow> (r, Some (s'\<lparr>ctx := c\<rparr>)))))"

definition zcio_flush :: "'c zcio_stream option \<Rightarrow> int \<times> 'c zcio_stream option" where
  "zcio_flush s =
     (case s of
        None \<Rightarrow> (zcode ZCIO_ERR_INVALID_ARG, s)
      | Some s' \<Rightarrow>
          (case vt_flush (vt s') of
             None \<Rightarrow> (zcode ZCIO_OK, s)
           | Some f \<Rightarrow> (case f (ctx s') of (r, c) \<Rightarrow> (r, Some (s'\<lparr>ctx := c\<rparr>)))))"

definition zcio_close :: "'c zcio_stream option \<Rightarrow> int \<times> 'c zcio_stream option" where
  "zcio_close s =
     (case s of
        None \<Rightarrow> (zcode ZCIO_ERR_INVALID_ARG, s)
      | Some s' \<Rightarrow>
          (case vt_close (vt s') of
             None \<Rightarrow> (zcode ZCIO_OK, s)
           | Some f \<Rightarrow> (case f (ctx s') of (r, c) \<Rightarrow> (r, Some (s'\<lparr>ctx := c\<rparr>)))))"

definition zcio_available :: "'c zcio_stream option \<Rightarrow> int" where
  "zcio_available s =
     (case s of
        None \<Rightarrow> zcode ZCIO_ERR_INVALID_ARG
      | Some s' \<Rightarrow> (case vt_available (vt s') of None \<Rightarrow> 0 | Some f \<Rightarrow> f (ctx s')))"

definition zcio_stream_eof :: "'c zcio_stream option \<Rightarrow> bool" where
  "zcio_stream_eof s =
     (case s of
        None \<Rightarrow> True
      | Some s' \<Rightarrow> (case vt_eof (vt s') of None \<Rightarrow> False | Some f \<Rightarrow> f (ctx s')))"

definition zcio_stream_name :: "'c zcio_stream option \<Rightarrow> string" where
  "zcio_stream_name s = (case s of None \<Rightarrow> ''(null)'' | Some s' \<Rightarrow> vt_name (vt s'))"

subsection \<open>The transfer loops\<close>

text \<open>
  Every iteration that continues has transferred at least one byte, so both loops end whatever
  the backend returns: \<open>n - got\<close> decreases.
\<close>

function read_full_loop ::
  "'c zcio_stream option \<Rightarrow> bool \<Rightarrow> nat \<Rightarrow> nat \<Rightarrow> bytes
     \<Rightarrow> (int \<times> bytes \<times> 'c zcio_stream option) option" where
  "read_full_loop s dst n got acc =
     (if got < n then
        (case zcio_read s dst (n - got) of
           None \<Rightarrow> None
         | Some (r, d, s') \<Rightarrow>
             if r < 0 then Some (if got \<noteq> 0 then int got else r, acc, s')
             else if r = 0 then Some (int got, acc, s')
             else read_full_loop s' dst n (got + nat r) (acc @ d))
      else Some (int got, acc, s))"
  by pat_completeness auto
termination
  by (relation "measure (\<lambda>(s, dst, n, got, acc). n - got)") auto

definition zcio_read_full ::
  "'c zcio_stream option \<Rightarrow> bool \<Rightarrow> nat \<Rightarrow> (int \<times> bytes \<times> 'c zcio_stream option) option" where
  "zcio_read_full s dst n = read_full_loop s dst n 0 []"

function write_full_loop ::
  "'c zcio_stream option \<Rightarrow> bytes option \<Rightarrow> nat \<Rightarrow> nat
     \<Rightarrow> (int \<times> 'c zcio_stream option) option" where
  "write_full_loop s src n put =
     (if put < n then
        (case zcio_write s (map_option (\<lambda>p. mslice p put (n - put)) src) of
           None \<Rightarrow> None
         | Some (r, s') \<Rightarrow>
             if r < 0 then Some (if put \<noteq> 0 then int put else r, s')
             else if r = 0 then Some (int put, s')
             else write_full_loop s' src n (put + nat r))
      else Some (int put, s))"
  by pat_completeness auto
termination
  by (relation "measure (\<lambda>(s, src, n, put). n - put)") auto

definition zcio_write_full ::
  "'c zcio_stream option \<Rightarrow> bytes option \<Rightarrow> nat \<Rightarrow> (int \<times> 'c zcio_stream option) option" where
  "zcio_write_full s src n = write_full_loop s src n 0"

declare read_full_loop.simps [simp del] write_full_loop.simps [simp del]

text \<open>
  \<open>zcio_copy\<close> with \<open>limit = SIZE_MAX\<close> runs until the source ends, which an endless source
  never does. \<open>dst\<close> and \<open>src\<close> are different streams here.
\<close>

partial_function (option) copy_loop ::
  "'d zcio_stream option \<Rightarrow> 'c zcio_stream option \<Rightarrow> nat \<Rightarrow> bool \<Rightarrow> int
     \<Rightarrow> (int \<times> 'd zcio_stream option \<times> 'c zcio_stream option) option" where
  "copy_loop dst src limit unbounded tot =
     (if unbounded \<or> tot < to_i64 limit then
        (let left = szsub limit (nat tot);
             want = (if \<not> unbounded \<and> left < 16384 then left else 16384)
         in Option.bind (zcio_read src True want) (\<lambda>(r, d, src').
              if r < 0 then Some (if tot \<noteq> 0 then tot else r, dst, src')
              else if r = 0 then Some (tot, dst, src')
              else Option.bind (zcio_write_full dst (Some (take (nat r) d)) (nat r)) (\<lambda>(w, dst').
                     if w < 0 then Some (if tot \<noteq> 0 then tot else w, dst', src')
                     else if w < r then Some (tot + w, dst', src')
                     else copy_loop dst' src' limit unbounded (tot + w))))
      else Some (tot, dst, src))"

definition zcio_copy ::
  "'d zcio_stream option \<Rightarrow> 'c zcio_stream option \<Rightarrow> nat
     \<Rightarrow> (int \<times> 'd zcio_stream option \<times> 'c zcio_stream option) option" where
  "zcio_copy dst src limit =
     (if Option.is_none dst \<or> Option.is_none src then Some (zcode ZCIO_ERR_INVALID_ARG, dst, src)
      else copy_loop dst src limit (limit = SIZE_MAX) 0)"

subsection \<open>What the loops rely on\<close>

text \<open>
  A source whose unread bytes are \<open>pending\<close>: a read of at least one byte returns a non-empty
  prefix of them, and 0 only at their end.
\<close>

locale byte_source =
  fixes tab :: "'c zcio_stream_vtable"
    and rd :: "'c \<Rightarrow> nat \<Rightarrow> (int \<times> bytes \<times> 'c) option"
    and src_invar :: "'c \<Rightarrow> bool"
    and pending :: "'c \<Rightarrow> bytes"
  assumes src_table: "vt_read tab = Some rd"
    and rd_prefix: "src_invar c \<Longrightarrow> 0 < n \<Longrightarrow>
      \<exists>k c'. rd c n = Some (int k, take k (pending c), c') \<and> k \<le> n \<and> k \<le> length (pending c) \<and>
        (k = 0 \<longrightarrow> pending c = []) \<and> pending c' = drop k (pending c) \<and> src_invar c'"
begin

lemma read_step:
  assumes "vt s = tab" "src_invar (ctx s)" "0 < n"
  obtains k s' where "zcio_read (Some s) True n = Some (int k, take k (pending (ctx s)), Some s')"
    "k \<le> n" "k \<le> length (pending (ctx s))" "k = 0 \<longrightarrow> pending (ctx s) = []"
    "pending (ctx s') = drop k (pending (ctx s))" "src_invar (ctx s')" "vt s' = tab"
    "flags s' = flags s"
proof -
  from rd_prefix [OF assms(2,3)] obtain k c' where
    "rd (ctx s) n = Some (int k, take k (pending (ctx s)), c')" "k \<le> n"
    "k \<le> length (pending (ctx s))" "k = 0 \<longrightarrow> pending (ctx s) = []"
    "pending c' = drop k (pending (ctx s))" "src_invar c'"
    by blast
  then show ?thesis
    using assms by (intro that [of k "s\<lparr>ctx := c'\<rparr>"]) (simp_all add: zcio_read_def src_table)
qed

lemma read_full_loop_prefix:
  assumes "vt s = tab" "src_invar (ctx s)" "got \<le> n"
  shows "\<exists>s'. read_full_loop (Some s) True n got acc =
      Some (int (min n (got + length (pending (ctx s)))), acc @ take (n - got) (pending (ctx s)), Some s')
    \<and> vt s' = tab \<and> flags s' = flags s \<and> src_invar (ctx s')
    \<and> pending (ctx s') = drop (n - got) (pending (ctx s))"
  using assms
proof (induction "n - got" arbitrary: s got acc rule: less_induct)
  case less
  note unfold = read_full_loop.simps [of "Some s" True n got acc]
  show ?case
  proof (cases "got < n")
    case False
    with less.prems show ?thesis by (simp add: read_full_loop.simps)
  next
    case True
    then obtain k s' where
      rd: "zcio_read (Some s) True (n - got) = Some (int k, take k (pending (ctx s)), Some s')"
      and k: "k \<le> n - got" "k \<le> length (pending (ctx s))" "k = 0 \<longrightarrow> pending (ctx s) = []"
      and s': "pending (ctx s') = drop k (pending (ctx s))" "src_invar (ctx s')" "vt s' = tab"
        "flags s' = flags s"
      using less.prems by (metis read_step zero_less_diff)
    show ?thesis
    proof (cases "k = 0")
      case True
      with rd k s' \<open>got < n\<close> show ?thesis by (simp add: unfold)
    next
      case False
      have "\<exists>s''. read_full_loop (Some s') True n (got + k) (acc @ take k (pending (ctx s))) =
          Some (int (min n (got + k + length (pending (ctx s')))),
            (acc @ take k (pending (ctx s))) @ take (n - (got + k)) (pending (ctx s')), Some s'')
        \<and> vt s'' = tab \<and> flags s'' = flags s' \<and> src_invar (ctx s'')
        \<and> pending (ctx s'') = drop (n - (got + k)) (pending (ctx s'))"
        using False True k s' by (intro less.hyps) auto
      then obtain s'' where
        loop: "read_full_loop (Some s') True n (got + k) (acc @ take k (pending (ctx s))) =
          Some (int (min n (got + k + length (pending (ctx s')))),
            (acc @ take k (pending (ctx s))) @ take (n - (got + k)) (pending (ctx s')), Some s'')"
        and s'': "vt s'' = tab" "flags s'' = flags s'" "src_invar (ctx s'')"
          "pending (ctx s'') = drop (n - (got + k)) (pending (ctx s'))"
        by blast
      have n_k: "k + (n - (got + k)) = n - got" "n - (got + k) + k = n - got"
        using k(1) \<open>got < n\<close> by simp_all
      have split: "take k (pending (ctx s)) @ take (n - (got + k)) (drop k (pending (ctx s)))
          = take (n - got) (pending (ctx s))"
        by (metis n_k(1) take_add)
      show ?thesis
        using False True rd k s' s'' loop split n_k by (simp add: unfold)
    qed
  qed
qed

lemma read_full_prefix:
  assumes "vt s = tab" "src_invar (ctx s)"
  shows "\<exists>s'. zcio_read_full (Some s) True n =
      Some (int (min n (length (pending (ctx s)))), take n (pending (ctx s)), Some s')
    \<and> vt s' = tab \<and> flags s' = flags s \<and> src_invar (ctx s')
    \<and> pending (ctx s') = drop n (pending (ctx s))"
  using read_full_loop_prefix [OF assms, of 0 n "[]"] by (simp add: zcio_read_full_def)

end

text \<open>
  A sink with \<open>room\<close> for so many more bytes that appends what fits to its \<open>content\<close>.
\<close>

locale byte_sink =
  fixes tab :: "'d zcio_stream_vtable"
    and wr :: "'d \<Rightarrow> bytes \<Rightarrow> (int \<times> 'd) option"
    and snk_invar :: "'d \<Rightarrow> bool"
    and room :: "'d \<Rightarrow> nat"
    and content :: "'d \<Rightarrow> bytes"
  assumes snk_table: "vt_write tab = Some wr"
    and wr_fits: "snk_invar c \<Longrightarrow> p \<noteq> [] \<Longrightarrow> k = min (length p) (room c) \<Longrightarrow>
      \<exists>c'. wr c p = Some (int k, c') \<and> snk_invar c' \<and> room c' = room c - k \<and>
        content c' = content c @ take k p"
begin

lemma write_full_loop_fits:
  assumes "vt s = tab" "snk_invar (ctx s)" "put \<le> length p"
  shows "\<exists>s'. write_full_loop (Some s) (Some p) (length p) put =
      Some (int (min (length p) (put + room (ctx s))), Some s')
    \<and> vt s' = tab \<and> flags s' = flags s \<and> snk_invar (ctx s')
    \<and> room (ctx s') = room (ctx s) - (length p - put)
    \<and> content (ctx s') = content (ctx s) @ take (room (ctx s)) (drop put p)"
  using assms
proof (induction "length p - put" arbitrary: s put rule: less_induct)
  case less
  note unfold = write_full_loop.simps [of "Some s" "Some p" "length p" put]
  show ?case
  proof (cases "put < length p")
    case False
    with less.prems show ?thesis by (simp add: write_full_loop.simps)
  next
    case True
    define k where "k = min (length p - put) (room (ctx s))"
    have sl: "mslice p put (length p - put) = drop put p" by (simp add: mslice_def)
    obtain c' where wr: "wr (ctx s) (drop put p) = Some (int k, c')" and c': "snk_invar c'"
        "room c' = room (ctx s) - k" "content c' = content (ctx s) @ take k (drop put p)"
      using wr_fits [of "ctx s" "drop put p" k] less.prems True by (auto simp: k_def)
    have zw: "zcio_write (Some s) (Some (drop put p)) = Some (int k, Some (s\<lparr>ctx := c'\<rparr>))"
      using True less.prems wr by (simp add: zcio_write_def snk_table)
    show ?thesis
    proof (cases "k = 0")
      case True
      then have "room (ctx s) = 0" using \<open>put < length p\<close> by (simp add: k_def)
      with True zw c' \<open>put < length p\<close> less.prems show ?thesis by (simp add: unfold sl)
    next
      case False
      let ?s = "s\<lparr>ctx := c'\<rparr>"
      have "\<exists>s'. write_full_loop (Some ?s) (Some p) (length p) (put + k) =
          Some (int (min (length p) (put + k + room (ctx ?s))), Some s')
        \<and> vt s' = tab \<and> flags s' = flags ?s \<and> snk_invar (ctx s')
        \<and> room (ctx s') = room (ctx ?s) - (length p - (put + k))
        \<and> content (ctx s') = content (ctx ?s) @ take (room (ctx ?s)) (drop (put + k) p)"
        using False True less.prems c' by (intro less.hyps) (auto simp: k_def)
      then obtain s' where
        loop: "write_full_loop (Some ?s) (Some p) (length p) (put + k) =
          Some (int (min (length p) (put + k + room c')), Some s')"
        and s': "vt s' = tab" "flags s' = flags s" "snk_invar (ctx s')"
          "room (ctx s') = room c' - (length p - (put + k))"
          "content (ctx s') = content c' @ take (room c') (drop (put + k) p)"
        by auto
      have "take k (drop put p) @ take (room (ctx s) - k) (drop (put + k) p)
          = take (room (ctx s)) (drop put p)"
        by (simp add: k_def add.commute min_def flip: drop_drop take_add)
      moreover have "put + k + (room (ctx s) - k) = put + room (ctx s)" by (simp add: k_def)
      moreover have "room (ctx s) - k - (length p - (put + k)) = room (ctx s) - (length p - put)"
        by (simp add: k_def)
      ultimately show ?thesis
        using False True zw c' s' loop by (simp add: unfold sl)
    qed
  qed
qed

lemma write_full_fits:
  assumes "vt s = tab" "snk_invar (ctx s)"
  shows "\<exists>s'. zcio_write_full (Some s) (Some p) (length p) =
      Some (int (min (length p) (room (ctx s))), Some s')
    \<and> vt s' = tab \<and> flags s' = flags s \<and> snk_invar (ctx s')
    \<and> room (ctx s') = room (ctx s) - length p
    \<and> content (ctx s') = content (ctx s) @ take (room (ctx s)) p"
  using write_full_loop_fits [OF assms, of 0 p] by (simp add: zcio_write_full_def)

end

subsection \<open>Copying from a source to a sink\<close>

text \<open>
  The copy loop ends on every source and sink of this kind; it delivers the first bytes of the
  source, as many as the limit, the source and the sink allow. What was read from the source but
  did not fit into the sink is gone from both: \<open>lost\<close> bytes, at most one bounce buffer.
\<close>

locale stream_copy =
  src: byte_source stab rd src_invar pending + snk: byte_sink dtab wr snk_invar room content
  for stab :: "'c zcio_stream_vtable" and rd src_invar pending
    and dtab :: "'d zcio_stream_vtable" and wr snk_invar room content
begin

lemma copy_loop_prefix:
  assumes "vt s = stab" "src_invar (ctx s)" "vt d = dtab" "snk_invar (ctx d)"
    and "\<not> unb \<Longrightarrow> limit < 2 ^ 63" and "\<not> unb \<Longrightarrow> t \<le> limit"
  shows "\<exists>d' s' k lost. copy_loop (Some d) (Some s) limit unb (int t) = Some (int (t + k), Some d', Some s')
    \<and> k = min (if unb then length (pending (ctx s)) else limit - t)
            (min (length (pending (ctx s))) (room (ctx d)))
    \<and> vt d' = dtab \<and> vt s' = stab \<and> snk_invar (ctx d') \<and> src_invar (ctx s')
    \<and> content (ctx d') = content (ctx d) @ take k (pending (ctx s))
    \<and> room (ctx d') = room (ctx d) - k
    \<and> pending (ctx s') = drop (k + lost) (pending (ctx s))
    \<and> lost \<le> 16384 \<and> (lost = 0 \<or> k = room (ctx d))"
  using assms
proof (induction "length (pending (ctx s))" arbitrary: s d t rule: less_induct)
  case less
  let ?c = "copy_loop (Some d) (Some s) limit unb (int t)"
  let ?p = "pending (ctx s)"
  define left where "left = (if unb then 16384 else limit - t)"
  have go: "(unb \<or> int t < to_i64 limit) \<longleftrightarrow> 0 < left"
    using less.prems by (auto simp: left_def to_i64_small)
  note unfold = copy_loop.simps [of "Some d" "Some s" limit unb "int t"]
  show ?case
  proof (cases "0 < left")
    case False
    then have stop: "\<not> unb" "limit \<le> t" "\<not> (unb \<or> int t < to_i64 limit)"
      using go by (auto simp: left_def split: if_splits)
    then have c: "?c = Some (int t, Some d, Some s)"
      by (subst unfold) simp
    with stop less.prems show ?thesis by (intro exI [of _ d] exI [of _ s] exI [of _ 0]) simp
  next
    case True
    define want where "want = (if \<not> unb \<and> szsub limit t < 16384 then szsub limit t else 16384)"
    have want: "want = min left 16384" "0 < want"
      using True less.prems by (auto simp: want_def left_def split: if_splits)
    obtain r s' where
      rd: "zcio_read (Some s) True want = Some (int r, take r ?p, Some s')"
      and r: "r \<le> want" "r \<le> length ?p" "r = 0 \<longrightarrow> ?p = []"
      and s': "pending (ctx s') = drop r ?p" "src_invar (ctx s')" "vt s' = stab"
      using src.read_step [OF less.prems(1,2) want(2)] by metis
    have len: "length (take r ?p) = r" using r by simp
    obtain d' where
      wr: "zcio_write_full (Some d) (Some (take r ?p)) r = Some (int (min r (room (ctx d))), Some d')"
      and d': "vt d' = dtab" "snk_invar (ctx d')" "room (ctx d') = room (ctx d) - r"
        "content (ctx d') = content (ctx d) @ take (room (ctx d)) (take r ?p)"
      using snk.write_full_fits [OF less.prems(3,4), of "take r ?p"] unfolding len by blast
    have c: "?c = (if r = 0 then Some (int t, Some d, Some s')
        else if room (ctx d) < r then Some (int (t + room (ctx d)), Some d', Some s')
        else copy_loop (Some d') (Some s') limit unb (int (t + r)))"
      using True go rd wr by (simp add: unfold want_def [symmetric] Let_def min_def)
    consider (eof) "r = 0" | (full) "0 < r" "room (ctx d) < r" | (go) "0 < r" "r \<le> room (ctx d)"
      by linarith
    then show ?thesis
    proof cases
      case eof
      with c r s' less.prems show ?thesis
        by (intro exI [of _ d] exI [of _ s'] exI [of _ 0]) simp
    next
      case full
      moreover have "room (ctx d) \<le> left" using full r want by simp
      ultimately show ?thesis
        by - (rule exI [of _ d'], rule exI [of _ s'], rule exI [of _ "room (ctx d)"],
          rule exI [of _ "r - room (ctx d)"], insert c r s' d' want less.prems(5,6),
          auto simp: left_def min_def split: if_splits)
    next
      case go
      then have rest: "\<exists>d'' s'' k lost. copy_loop (Some d') (Some s') limit unb (int (t + r))
            = Some (int (t + r + k), Some d'', Some s'')
        \<and> k = min (if unb then length (pending (ctx s')) else limit - (t + r))
                (min (length (pending (ctx s'))) (room (ctx d')))
        \<and> vt d'' = dtab \<and> vt s'' = stab \<and> snk_invar (ctx d'') \<and> src_invar (ctx s'')
        \<and> content (ctx d'') = content (ctx d') @ take k (pending (ctx s'))
        \<and> room (ctx d'') = room (ctx d') - k
        \<and> pending (ctx s'') = drop (k + lost) (pending (ctx s'))
        \<and> lost \<le> 16384 \<and> (lost = 0 \<or> k = room (ctx d'))"
        using r s' d' want less.prems(5,6)
        by (intro less.hyps) (auto simp: left_def split: if_splits)
      then obtain d'' s'' k lost where
        loop: "copy_loop (Some d') (Some s') limit unb (int (t + r)) = Some (int (t + r + k), Some d'', Some s'')"
        and k: "k = min (if unb then length (pending (ctx s')) else limit - (t + r))
                (min (length (pending (ctx s'))) (room (ctx d')))"
        and rest': "vt d'' = dtab" "vt s'' = stab" "snk_invar (ctx d'')" "src_invar (ctx s'')"
          "content (ctx d'') = content (ctx d') @ take k (pending (ctx s'))"
          "room (ctx d'') = room (ctx d') - k"
          "pending (ctx s'') = drop (k + lost) (pending (ctx s'))"
          "lost \<le> 16384" "lost = 0 \<or> k = room (ctx d')"
        by blast
      have "content (ctx d'') = content (ctx d) @ take (r + k) ?p"
        using rest'(5) d'(4) s'(1) go by (simp add: take_add min_def)
      moreover have "r + k = min (if unb then length ?p else limit - t) (min (length ?p) (room (ctx d)))"
      proof -
        let ?a = "if unb then length ?p else limit - t"
        have "r \<le> ?a" using r want less.prems(5,6) by (auto simp: left_def split: if_splits)
        moreover have "k = min (?a - r) (min (length ?p - r) (room (ctx d) - r))"
          using k s'(1) d'(3) by simp
        ultimately show ?thesis using r go by (simp add: min_diff3)
      qed
      moreover have "?c = Some (int (t + (r + k)), Some d'', Some s'')"
        using c loop go by (simp add: add.assoc)
      moreover have "lost = 0 \<or> r + k = room (ctx d)" using rest'(9) d'(3) go by auto
      moreover have "pending (ctx s'') = drop (r + k + lost) ?p"
        using rest'(7) s'(1) by (simp add: ac_simps)
      moreover have "room (ctx d'') = room (ctx d) - (r + k)"
        using rest'(6) d'(3) by simp
      ultimately show ?thesis using rest'(1-4,8) by blast
    qed
  qed
qed

end

end
