(* ===== verification/Zc_Membuf.thy ===== *)
theory Zc_Membuf
  imports Zc_Stream
begin

text \<open>
  The memory and counting streams (\<open>include/zcio/membuf.h\<close>, \<open>src/membuf.c\<close>): a view over a
  caller-owned block with independent read and write cursors, or a pure sizer when the block is
  NULL. The memory view is a \<open>byte_source\<close> and a \<open>byte_sink\<close>, so the transfer loops of
  \<open>Zc_Stream\<close> deliver exactly its bytes.
\<close>

record membuf =
  mb_data :: "bytes option"  \<comment> \<open>the caller's block; None is NULL (pure counting)\<close>
  mb_size :: nat
  mb_rpos :: nat
  mb_wpos :: nat
  mb_total_read :: int
  mb_total_written :: int
  mb_counting :: bool

definition mb_read :: "membuf \<Rightarrow> nat \<Rightarrow> int \<times> bytes \<times> membuf" where
  "mb_read m n =
     (case mb_data m of
        Some d \<Rightarrow>
          (let avail = szsub (mb_size m) (mb_rpos m);
               k = (if n < avail then n else avail)
           in (int k, mslice d (mb_rpos m) k,
               m\<lparr>mb_rpos := mb_rpos m + k, mb_total_read := mb_total_read m + int k\<rparr>))
      | None \<Rightarrow> (0, [], m))"

definition mb_write :: "membuf \<Rightarrow> bytes \<Rightarrow> int \<times> membuf" where
  "mb_write m src =
     (case mb_data m of
        Some d \<Rightarrow>
          (let n = length src;
               avail = szsub (mb_size m) (mb_wpos m);
               k = (if n < avail then n else avail)
           in (int k, m\<lparr>mb_data := Some (memcpy d (mb_wpos m) (take k src)),
                        mb_wpos := mb_wpos m + k,
                        mb_total_written := mb_total_written m + int k\<rparr>))
      | None \<Rightarrow> (int (length src), m\<lparr>mb_total_written := mb_total_written m + int (length src)\<rparr>))"

text \<open>The clamp \<open>if (p < 0) p = 0; if (p > size) p = size\<close>.\<close>

definition mb_clamp :: "membuf \<Rightarrow> int \<Rightarrow> int" where
  "mb_clamp m p = (let p1 = (if p < 0 then 0 else p) in if p1 > int (mb_size m) then int (mb_size m) else p1)"

definition mb_base :: "membuf \<Rightarrow> nat \<Rightarrow> zcio_seek_origin \<Rightarrow> int" where
  "mb_base m pos origin =
     (case origin of ZCIO_SEEK_CUR \<Rightarrow> int pos | ZCIO_SEEK_END \<Rightarrow> int (mb_size m) | ZCIO_SEEK_SET \<Rightarrow> 0)"

definition mb_seek :: "membuf \<Rightarrow> int \<Rightarrow> zcio_seek_origin \<Rightarrow> u32 \<Rightarrow> int \<times> membuf" where
  "mb_seek m off origin which =
     (let base_r = mb_base m (mb_rpos m) origin;
          base_w = mb_base m (mb_wpos m) origin;
          (ret1, m1) = (if which AND ZCIO_SEEK_READ \<noteq> 0
                        then (let p = mb_clamp m (base_r + off) in (p, m\<lparr>mb_rpos := nat p\<rparr>))
                        else (-1, m))
      in if which AND ZCIO_SEEK_WRITE \<noteq> 0
         then (let p = mb_clamp m (base_w + off) in (p, m1\<lparr>mb_wpos := nat p\<rparr>))
         else (ret1, m1))"

definition mb_avail :: "membuf \<Rightarrow> int" where
  "mb_avail m = (case mb_data m of Some _ \<Rightarrow> to_i64 (szsub (mb_size m) (mb_rpos m)) | None \<Rightarrow> 0)"

definition mb_destroy :: "membuf \<Rightarrow> unit" where
  "mb_destroy m = ()"

definition MEM_VT :: "membuf zcio_stream_vtable" where
  "MEM_VT = \<lparr>vt_name = ''memory'', vt_read = Some (\<lambda>m n. Some (mb_read m n)),
     vt_write = Some (\<lambda>m p. Some (mb_write m p)), vt_seek = Some mb_seek, vt_flush = None,
     vt_close = None, vt_destroy = Some mb_destroy, vt_available = Some mb_avail, vt_eof = None\<rparr>"

definition COUNT_VT :: "membuf zcio_stream_vtable" where
  "COUNT_VT = \<lparr>vt_name = ''counting'', vt_read = Some (\<lambda>m n. Some (mb_read m n)),
     vt_write = Some (\<lambda>m p. Some (mb_write m p)), vt_seek = Some mb_seek, vt_flush = None,
     vt_close = None, vt_destroy = Some mb_destroy, vt_available = Some mb_avail, vt_eof = None\<rparr>"

definition mb_new :: "bool \<Rightarrow> bytes option \<Rightarrow> nat \<Rightarrow> bool \<Rightarrow> membuf option" where
  "mb_new alloc d n cnt =
     (if alloc
      then Some \<lparr>mb_data = d, mb_size = n, mb_rpos = 0, mb_wpos = 0, mb_total_read = 0,
                 mb_total_written = 0, mb_counting = cnt\<rparr>
      else None)"

definition zcio_memory_stream :: "bool \<Rightarrow> bool \<Rightarrow> bytes option \<Rightarrow> nat \<Rightarrow> membuf zcio_stream option" where
  "zcio_memory_stream alloc1 alloc2 d n =
     (case d of
        None \<Rightarrow> None
      | Some _ \<Rightarrow> do { m \<leftarrow> mb_new alloc1 d n False;
                      zcio_stream_new alloc2 (Some MEM_VT) m
                        (ZCIO_STREAM_OWNS_CTX OR ZCIO_STREAM_READABLE OR ZCIO_STREAM_WRITABLE) })"

definition zcio_counting_stream :: "bool \<Rightarrow> bool \<Rightarrow> bytes option \<Rightarrow> nat \<Rightarrow> membuf zcio_stream option" where
  "zcio_counting_stream alloc1 alloc2 d n =
     do { m \<leftarrow> mb_new alloc1 d (if Option.is_none d then 0 else n) True;
          zcio_stream_new alloc2 (Some COUNT_VT) m
            (ZCIO_STREAM_OWNS_CTX OR ZCIO_STREAM_READABLE OR ZCIO_STREAM_WRITABLE) }"

text \<open>
  \<open>s->vt != &COUNT_VT\<close> compares table addresses; the two tables of this file differ in their
  name only, which identifies the table here.
\<close>

definition zcio_counting_bytes_written :: "membuf zcio_stream option \<Rightarrow> int" where
  "zcio_counting_bytes_written s =
     (case s of
        None \<Rightarrow> zcode ZCIO_ERR_INVALID_ARG
      | Some s' \<Rightarrow> if vt_name (vt s') \<noteq> vt_name COUNT_VT then zcode ZCIO_ERR_INVALID_ARG
                  else mb_total_written (ctx s'))"

definition zcio_counting_bytes_read :: "membuf zcio_stream option \<Rightarrow> int" where
  "zcio_counting_bytes_read s =
     (case s of
        None \<Rightarrow> zcode ZCIO_ERR_INVALID_ARG
      | Some s' \<Rightarrow> if vt_name (vt s') \<noteq> vt_name COUNT_VT then zcode ZCIO_ERR_INVALID_ARG
                  else mb_total_read (ctx s'))"

subsection \<open>The invariant: both cursors stay inside the block\<close>

definition mb_wf :: "membuf \<Rightarrow> bool" where
  "mb_wf m \<longleftrightarrow> mb_rpos m \<le> mb_size m \<and> mb_wpos m \<le> mb_size m \<and>
     (case mb_data m of Some d \<Rightarrow> length d = mb_size m | None \<Rightarrow> mb_size m = 0)"

lemma mb_clamp_range: "0 \<le> mb_clamp m p \<and> mb_clamp m p \<le> int (mb_size m)"
  by (simp add: mb_clamp_def Let_def)

lemma mb_wf_new:
  "mb_new a d n c = Some m \<Longrightarrow> (case d of Some x \<Rightarrow> length x = n | None \<Rightarrow> n = 0) \<Longrightarrow> mb_wf m"
  by (auto simp: mb_new_def mb_wf_def split: if_splits option.splits)

lemma mb_wf_read: "mb_wf m \<Longrightarrow> mb_read m n = (r, d, m') \<Longrightarrow> mb_wf m'"
  by (auto simp: mb_wf_def mb_read_def Let_def split: option.splits if_splits)

lemma mb_wf_write: "mb_wf m \<Longrightarrow> mb_write m p = (r, m') \<Longrightarrow> mb_wf m'"
  by (auto simp: mb_wf_def mb_write_def Let_def split: option.splits if_splits)

lemma mb_wf_seek: "mb_wf m \<Longrightarrow> mb_seek m off origin which = (r, m') \<Longrightarrow> mb_wf m'"
  using mb_clamp_range [of m]
  by (auto simp: mb_wf_def mb_seek_def Let_def nat_le_iff split: if_splits option.splits)

lemmas mb_wf_ops = mb_wf_new mb_wf_read mb_wf_write mb_wf_seek

subsection \<open>The memory view as a source and as a sink\<close>

definition mb_pending :: "membuf \<Rightarrow> bytes" where
  "mb_pending m = (case mb_data m of Some d \<Rightarrow> drop (mb_rpos m) d | None \<Rightarrow> [])"

definition mb_content :: "membuf \<Rightarrow> bytes" where
  "mb_content m = (case mb_data m of Some d \<Rightarrow> take (mb_wpos m) d | None \<Rightarrow> [])"

definition mb_room :: "membuf \<Rightarrow> nat" where
  "mb_room m = mb_size m - mb_wpos m"

abbreviation mb_backed :: "membuf \<Rightarrow> bool" where
  "mb_backed m \<equiv> mb_wf m \<and> mb_data m \<noteq> None"

lemma mb_read_pending:
  assumes "mb_wf m"
  shows "\<exists>k m'. mb_read m n = (int k, take k (mb_pending m), m') \<and> k = min n (length (mb_pending m)) \<and>
    mb_pending m' = drop k (mb_pending m) \<and> mb_wf m'"
  using assms mb_wf_read [OF assms]
  by (cases "mb_data m")
    (auto simp: mb_read_def mb_pending_def mb_wf_def mslice_def Let_def min_def add.commute)

lemma mb_write_content:
  assumes "mb_backed m"
  shows "\<exists>k m'. mb_write m p = (int k, m') \<and> k = min (length p) (mb_room m) \<and> mb_backed m' \<and>
    mb_room m' = mb_room m - k \<and> mb_content m' = mb_content m @ take k p"
proof -
  from assms obtain d where d: "mb_data m = Some d" "length d = mb_size m" "mb_wpos m \<le> mb_size m"
    by (auto simp: mb_wf_def)
  then show ?thesis
    using mb_wf_write [of m p] assms
    by (auto simp: mb_write_def mb_room_def mb_content_def memcpy_def Let_def min_def)
qed

interpretation mem: byte_source MEM_VT "\<lambda>m n. Some (mb_read m n)" mb_wf mb_pending
proof
  fix m and n :: nat assume "mb_wf m" "0 < n"
  then show "\<exists>k m'. Some (mb_read m n) = Some (int k, take k (mb_pending m), m') \<and> k \<le> n \<and>
      k \<le> length (mb_pending m) \<and> (k = 0 \<longrightarrow> mb_pending m = []) \<and>
      mb_pending m' = drop k (mb_pending m) \<and> mb_wf m'"
    using mb_read_pending [of m n] by (auto simp: min_def split: if_splits)
qed (simp add: MEM_VT_def)

interpretation mem: byte_sink MEM_VT "\<lambda>m p. Some (mb_write m p)" mb_backed mb_room mb_content
proof
  fix m and p :: bytes and k assume "mb_backed m" "k = min (length p) (mb_room m)"
  then show "\<exists>m'. Some (mb_write m p) = Some (int k, m') \<and> mb_backed m' \<and> mb_room m' = mb_room m - k \<and>
      mb_content m' = mb_content m @ take k p"
    using mb_write_content [of m p] by auto
qed (simp add: MEM_VT_def)

interpretation mem: stream_copy MEM_VT "\<lambda>m n. Some (mb_read m n)" mb_wf mb_pending
  MEM_VT "\<lambda>m p. Some (mb_write m p)" mb_backed mb_room mb_content
  ..

subsection \<open>Properties\<close>

text \<open>A sequence of operations on one view, as a client issues them.\<close>

datatype mb_op = MbRead nat | MbWrite bytes | MbSeek int zcio_seek_origin u32

fun mb_step :: "membuf \<Rightarrow> mb_op \<Rightarrow> membuf" where
  "mb_step m (MbRead n) = snd (snd (mb_read m n))"
| "mb_step m (MbWrite p) = snd (mb_write m p)"
| "mb_step m (MbSeek off origin which) = snd (mb_seek m off origin which)"

lemma mb_wf_step: "mb_wf m \<Longrightarrow> mb_wf (mb_step m x)"
  by (cases x) (auto intro: mb_wf_ops simp: prod_eq_iff)

text \<open>
  Whatever sequence of reads, writes and seeks a client performs on a memory or counting
  stream that was created over a block of the stated size, both cursors stay inside the block, so
  no operation ever touches memory outside it.
\<close>

theorem membuf_cursors_in_block:
  assumes "mb_new True d n c = Some m" "case d of Some x \<Rightarrow> length x = n | None \<Rightarrow> n = 0"
  shows "mb_rpos (foldl mb_step m ops) \<le> n \<and> mb_wpos (foldl mb_step m ops) \<le> n"
proof -
  have size_step: "mb_size (mb_step m' x) = mb_size m'" for m' x
    by (cases x) (auto simp: mb_read_def mb_write_def mb_seek_def Let_def split: option.splits)
  have "mb_size (foldl mb_step m' ops) = mb_size m'" for m'
    by (induction ops arbitrary: m') (simp_all add: size_step)
  moreover have "mb_wf m' \<Longrightarrow> mb_wf (foldl mb_step m' ops)" for m'
    by (induction ops arbitrary: m') (simp_all add: mb_wf_step)
  moreover have "mb_wf m" using assms by (rule mb_wf_new)
  moreover have "mb_size m = n" using assms(1) by (auto simp: mb_new_def)
  ultimately show ?thesis by (metis mb_wf_def)
qed

text \<open>
  What is written to a memory stream is what is read back: after writing bytes that fit and
  seeking the read cursor to where the write began, a read of that length returns exactly those
  bytes.
\<close>

theorem membuf_write_read_roundtrip:
  assumes "mb_backed m" "length p \<le> mb_size m - mb_wpos m"
    and "mb_write m p = (r, m1)"
    and "mb_seek m1 (int (mb_wpos m)) ZCIO_SEEK_SET ZCIO_SEEK_READ = (q, m2)"
  shows "r = int (length p) \<and> q = int (mb_wpos m) \<and> (\<exists>m3. mb_read m2 (length p) = (int (length p), p, m3))"
proof -
  from assms(1) obtain d where d: "mb_data m = Some d" "length d = mb_size m" "mb_wpos m \<le> mb_size m"
    by (auto simp: mb_wf_def)
  with assms(2,3) have m1: "m1 = m\<lparr>mb_data := Some (memcpy d (mb_wpos m) p),
      mb_wpos := mb_wpos m + length p, mb_total_written := mb_total_written m + int (length p)\<rparr>"
    and r: "r = int (length p)"
    by (auto simp: mb_write_def Let_def split: if_splits)
  have m2: "m2 = m1\<lparr>mb_rpos := mb_wpos m\<rparr>" "q = int (mb_wpos m)"
    using assms(4) d m1
    by (auto simp: mb_seek_def mb_clamp_def mb_base_def ZCIO_SEEK_READ_def ZCIO_SEEK_WRITE_def Let_def)
  have "mslice (memcpy d (mb_wpos m) p) (mb_wpos m) (length p) = p"
    using d assms(2) by (intro mslice_memcpy_same) simp
  moreover have "length p < mb_size m - mb_wpos m \<or> mb_size m - mb_wpos m = length p"
    using assms(2) by linarith
  ultimately show ?thesis
    using d m1 m2 r by (elim disjE) (simp_all add: mb_read_def Let_def)
qed

text \<open>
  Copying from one memory stream to another ends and delivers the longest prefix of the unread
  source bytes that the limit and the destination's room allow, appended to what the destination
  already holds, for every limit below \<open>2^63\<close> and for \<open>SIZE_MAX\<close> ("until EOF").
\<close>

theorem memory_copy_delivers_prefix:
  assumes "vt s = MEM_VT" "mb_wf (ctx s)" "vt d = MEM_VT" "mb_backed (ctx d)"
    and "limit < 2 ^ 63 \<or> limit = SIZE_MAX \<and> length (mb_pending (ctx s)) < SIZE_MAX"
    and "k = min limit (min (length (mb_pending (ctx s))) (mb_room (ctx d)))"
  shows "\<exists>d' s'. zcio_copy (Some d) (Some s) limit = Some (int k, Some d', Some s') \<and>
    mb_content (ctx d') = mb_content (ctx d) @ take k (mb_pending (ctx s))"
proof -
  have "limit \<noteq> SIZE_MAX \<Longrightarrow> limit < 2 ^ 63" using assms(5) by blast
  from mem.copy_loop_prefix [OF assms(1-4) this, of "limit = SIZE_MAX" 0]
  obtain d' s' j where loop:
    "copy_loop (Some d) (Some s) limit (limit = SIZE_MAX) (int 0) = Some (int (0 + j), Some d', Some s')"
    "j = min (if limit = SIZE_MAX then length (mb_pending (ctx s)) else limit - 0)
           (min (length (mb_pending (ctx s))) (mb_room (ctx d)))"
    "mb_content (ctx d') = mb_content (ctx d) @ take j (mb_pending (ctx s))"
    by auto
  moreover have "\<not> SIZE_MAX < 2 ^ 63" by (simp add: SIZE_MAX_def)
  ultimately have "j = k" using assms(5,6) by (auto simp: min_def)
  with loop show ?thesis by (simp add: zcio_copy_def)
qed

text \<open>
  A copy limit of \<open>2^63\<close> or more that is not \<open>SIZE_MAX\<close> turns negative in the loop's
  comparison with the \<open>int64_t\<close> total: nothing is copied, however much the source holds.
\<close>

theorem copy_huge_limit_copies_nothing:
  assumes "2 ^ 63 \<le> limit" "limit < SIZE_MAX"
  shows "zcio_copy (Some d) (Some s) limit = Some (0, Some d, Some s)"
proof -
  have "to_i64 limit < 0" using assms by (subst to_i64_big) (auto simp: SIZE_MAX_def)
  then show ?thesis using assms by (subst zcio_copy_def, subst copy_loop.simps) simp
qed

end
