(* ===== verification/Zc_Ring.thy ===== *)
theory Zc_Ring
  imports Zc_Stream
begin

text \<open>
  The single-producer/single-consumer ring buffer (\<open>include/zcio/ring.h\<close>, \<open>src/ring.c\<close>).
  First the operations of one thread as functions, with the queue they implement (\<open>ring_list\<close>);
  then the two threads as a step relation whose steps are the loads and stores of the two
  cursors and the single bytes of the block copies, interleaved arbitrarily. The acquire/release
  contract of the source makes the cursor updates the only synchronisation; the relation is the
  sequentially consistent interleaving of exactly those accesses.
\<close>

subsection \<open>State and construction\<close>

record zcio_ring =
  rg_owned :: bool       \<comment> \<open>\<open>block != NULL\<close>\<close>
  rg_head :: nat         \<comment> \<open>producer cursor\<close>
  rg_tail :: nat         \<comment> \<open>consumer cursor\<close>
  rg_data :: bytes
  rg_capacity :: nat
  rg_non_blocking :: bool

definition ring_header_size :: nat where
  "ring_header_size = 16"  \<comment> \<open>two \<open>_Atomic size_t\<close>\<close>

text \<open>\<open>mem\<close> is the whole block, header included; its old contents are arbitrary.\<close>

definition ring_init :: "bool \<Rightarrow> bytes \<Rightarrow> nat \<Rightarrow> bool \<Rightarrow> bool \<Rightarrow> zcio_ring option" where
  "ring_init alloc mem tot own nb =
     (if tot \<le> ring_header_size then None
      else if \<not> alloc then None
      else Some \<lparr>rg_owned = own, rg_head = 0, rg_tail = 0, rg_data = drop ring_header_size mem,
                 rg_capacity = tot - ring_header_size, rg_non_blocking = nb\<rparr>)"

text \<open>\<open>xmalloc n\<close> is the block the allocator returns for \<open>n\<close> bytes (\<open>None\<close>: NULL).\<close>

definition zcio_ring_new :: "(nat \<Rightarrow> bytes option) \<Rightarrow> bool \<Rightarrow> nat \<Rightarrow> bool \<Rightarrow> zcio_ring option" where
  "zcio_ring_new xmalloc alloc capacity nb =
     (if capacity > SIZE_MAX - ring_header_size - 1 then None
      else let tot = capacity + ring_header_size + 1
           in case xmalloc tot of
                None \<Rightarrow> None
              | Some mem \<Rightarrow> ring_init alloc mem tot True nb)"

definition zcio_ring_attach :: "bool \<Rightarrow> bytes option \<Rightarrow> nat \<Rightarrow> bool \<Rightarrow> zcio_ring option" where
  "zcio_ring_attach alloc mem tot nb =
     (case mem of None \<Rightarrow> None | Some m \<Rightarrow> ring_init alloc m tot False nb)"

subsection \<open>Cursor arithmetic and the two block copies\<close>

text \<open>
  A block is at most \<open>PTRDIFF_MAX\<close> bytes, so the sums of two cursors below do not wrap; the
  differences are \<open>size_t\<close> differences.
\<close>

definition zcio_ring_available_read :: "zcio_ring \<Rightarrow> nat" where
  "zcio_ring_available_read r = szsub (rg_head r + rg_capacity r) (rg_tail r) mod rg_capacity r"

definition zcio_ring_available_write :: "zcio_ring \<Rightarrow> nat" where
  "zcio_ring_available_write r =
     szsub (szsub (rg_capacity r) 1 + rg_tail r) (rg_head r) mod rg_capacity r"

text \<open>The body of the write loop: copy a chunk to the head, at most two copies, then publish.\<close>

definition ring_put :: "zcio_ring \<Rightarrow> bytes \<Rightarrow> zcio_ring" where
  "ring_put r s =
     (let chunk = length s; h = rg_head r; room = szsub (rg_capacity r) h;
          en = (if chunk < room then chunk else room);
          d1 = memcpy (rg_data r) h (take en s);
          d2 = (if chunk > en then memcpy d1 0 (drop en s) else d1)
      in r\<lparr>rg_data := d2, rg_head := (h + chunk) mod rg_capacity r\<rparr>)"

text \<open>The body of the read loop: the bytes copied out and the ring after publishing the tail.\<close>

definition ring_get :: "zcio_ring \<Rightarrow> nat \<Rightarrow> bytes \<times> zcio_ring" where
  "ring_get r chunk =
     (let t = rg_tail r; room = szsub (rg_capacity r) t;
          en = (if chunk < room then chunk else room);
          b1 = mslice (rg_data r) t en;
          b2 = (if chunk > en then mslice (rg_data r) 0 (chunk - en) else [])
      in (b1 @ b2, r\<lparr>rg_tail := (t + chunk) mod rg_capacity r\<rparr>))"

subsection \<open>The transfer loops, with no other thread running\<close>

text \<open>
  A blocking ring that is full (or empty) spins until its peer moves; with no peer the call does
  not return: \<open>None\<close>. A non-blocking ring gives up after a bounded number of spins.
\<close>

function ring_write_loop :: "zcio_ring \<Rightarrow> bytes \<Rightarrow> nat \<Rightarrow> nat \<Rightarrow> (int \<times> zcio_ring) option" where
  "ring_write_loop r s written full_spins =
     (if written < length s then
        (let avail = zcio_ring_available_write r in
         if avail = 0 then
           (if rg_non_blocking r
            then (if written > 0 \<or> full_spins > 100 then Some (int written, r)
                  else ring_write_loop r s written (Suc full_spins))
            else None)
         else
           (let chunk = (if avail < length s - written then avail else length s - written)
            in ring_write_loop (ring_put r (mslice s written chunk)) s (written + chunk) full_spins))
      else Some (int written, r))"
  by pat_completeness auto
termination
  by (relation "measures [\<lambda>(r, s, written, spins). length s - written, \<lambda>(r, s, written, spins). 101 - spins]")
    (auto simp: Let_def)

definition zcio_ring_write ::
  "zcio_ring option \<Rightarrow> bytes option \<Rightarrow> (int \<times> zcio_ring option) option" where
  "zcio_ring_write r src =
     (case (r, src) of
        (Some r', Some s) \<Rightarrow> map_option (apsnd Some) (ring_write_loop r' s 0 0)
      | _ \<Rightarrow> Some (zcode ZCIO_ERR_INVALID_ARG, r))"

function ring_read_loop ::
  "zcio_ring \<Rightarrow> nat \<Rightarrow> nat \<Rightarrow> bytes \<Rightarrow> nat \<Rightarrow> (int \<times> bytes \<times> zcio_ring) option" where
  "ring_read_loop r n got acc empty_spins =
     (if got < n then
        (let avail = zcio_ring_available_read r in
         if avail = 0 then
           (if rg_non_blocking r
            then (if got > 0 \<or> empty_spins > 1000000 then Some (int got, acc, r)
                  else ring_read_loop r n got acc (Suc empty_spins))
            else None)
         else
           (let chunk = (if avail < n - got then avail else n - got);
                g = ring_get r chunk
            in ring_read_loop (snd g) n (got + chunk) (acc @ fst g) empty_spins))
      else Some (int got, acc, r))"
  by pat_completeness auto
termination
  by (relation "measures [\<lambda>(r, n, got, acc, spins). n - got, \<lambda>(r, n, got, acc, spins). 1000001 - spins]")
    (auto simp: Let_def)

definition zcio_ring_read ::
  "zcio_ring option \<Rightarrow> bool \<Rightarrow> nat \<Rightarrow> (int \<times> bytes \<times> zcio_ring option) option" where
  "zcio_ring_read r dst n =
     (case r of
        None \<Rightarrow> Some (zcode ZCIO_ERR_INVALID_ARG, [], r)
      | Some r' \<Rightarrow> if \<not> dst then Some (zcode ZCIO_ERR_INVALID_ARG, [], r)
                  else map_option (apsnd (apsnd Some)) (ring_read_loop r' n 0 [] 0))"

declare ring_write_loop.simps [simp del] ring_read_loop.simps [simp del]

subsection \<open>The stream adapter\<close>

definition ring_s_read :: "zcio_ring \<Rightarrow> nat \<Rightarrow> (int \<times> bytes \<times> zcio_ring) option" where
  "ring_s_read c n = map_option (\<lambda>(k, b, r). (k, b, the r)) (zcio_ring_read (Some c) True n)"

definition ring_s_write :: "zcio_ring \<Rightarrow> bytes \<Rightarrow> (int \<times> zcio_ring) option" where
  "ring_s_write c s = map_option (\<lambda>(k, r). (k, the r)) (zcio_ring_write (Some c) (Some s))"

definition ring_s_avail :: "zcio_ring \<Rightarrow> int" where
  "ring_s_avail c = to_i64 (zcio_ring_available_read c)"

definition RING_VT :: "zcio_ring zcio_stream_vtable" where
  "RING_VT = \<lparr>vt_name = ''ring'', vt_read = Some ring_s_read, vt_write = Some ring_s_write,
     vt_seek = None, vt_flush = None, vt_close = None, vt_destroy = Some (\<lambda>_. ()),
     vt_available = Some ring_s_avail, vt_eof = None\<rparr>"

definition zcio_ring_as_stream :: "bool \<Rightarrow> zcio_ring option \<Rightarrow> bool \<Rightarrow> zcio_ring zcio_stream option" where
  "zcio_ring_as_stream alloc r take_ownership =
     (case r of
        None \<Rightarrow> None
      | Some r' \<Rightarrow>
          (let fl = ZCIO_STREAM_READABLE OR ZCIO_STREAM_WRITABLE;
               fl' = (if take_ownership then fl OR ZCIO_STREAM_OWNS_CTX else fl)
           in zcio_stream_new alloc (Some RING_VT) r' fl'))"

subsection \<open>The queue a ring implements\<close>

definition ring_wf :: "zcio_ring \<Rightarrow> bool" where
  "ring_wf r \<longleftrightarrow> rg_head r < rg_capacity r \<and> rg_tail r < rg_capacity r \<and>
     length (rg_data r) = rg_capacity r"

definition ring_list :: "zcio_ring \<Rightarrow> bytes" where
  "ring_list r = map (\<lambda>i. rg_data r ! ((rg_tail r + i) mod rg_capacity r))
     [0 ..< zcio_ring_available_read r]"

lemma mod_wrap:
  fixes a c :: nat
  assumes "a < 2 * c"
  shows "a mod c = (if a < c then a else a - c)"
  using assms by (simp add: mod_if)

lemma available_read_eq:
  "ring_wf r \<Longrightarrow> zcio_ring_available_read r =
     (if rg_tail r \<le> rg_head r then rg_head r - rg_tail r else rg_head r + rg_capacity r - rg_tail r)"
  by (auto simp: ring_wf_def zcio_ring_available_read_def mod_wrap)

lemma available_write_eq:
  "ring_wf r \<Longrightarrow> zcio_ring_available_write r = rg_capacity r - 1 - zcio_ring_available_read r"
  by (auto simp: available_read_eq) (auto simp: ring_wf_def zcio_ring_available_write_def mod_wrap)

lemma available_read_lt: "ring_wf r \<Longrightarrow> zcio_ring_available_read r < rg_capacity r"
  by (auto simp: available_read_eq ring_wf_def)

lemma length_ring_list [simp]: "length (ring_list r) = zcio_ring_available_read r"
  by (simp add: ring_list_def)

text \<open>Both block copies together write byte \<open>i\<close> of the chunk at \<open>(head + i) mod capacity\<close>.\<close>

lemma ring_put_data:
  assumes "ring_wf r" "length s \<le> rg_capacity r" "j < rg_capacity r"
  shows "rg_data (ring_put r s) ! j =
    (let i = (j + rg_capacity r - rg_head r) mod rg_capacity r
     in if i < length s then s ! i else rg_data r ! j)"
proof -
  let ?c = "rg_capacity r" and ?h = "rg_head r" and ?d = "rg_data r"
  have h: "?h < ?c" "length ?d = ?c" using assms(1) by (auto simp: ring_wf_def)
  have i: "(j + ?c - ?h) mod ?c = (if ?h \<le> j then j - ?h else j + ?c - ?h)"
    using h assms(3) by (simp add: mod_wrap)
  show ?thesis
  proof (cases "length s < ?c - ?h")
    case True
    then show ?thesis
      using h assms(3) by (auto simp: ring_put_def Let_def nth_memcpy i)
  next
    case False
    then have "length (take (?c - ?h) s) = ?c - ?h" by simp
    with False h assms(2,3) show ?thesis
      by (auto simp: ring_put_def Let_def nth_memcpy i add.commute)
  qed
qed

lemma ring_put_wf: "ring_wf r \<Longrightarrow> length s \<le> rg_capacity r \<Longrightarrow> ring_wf (ring_put r s)"
  by (auto simp: ring_put_def ring_wf_def Let_def)

lemma ring_get_bytes:
  assumes "ring_wf r" "n \<le> rg_capacity r"
  shows "fst (ring_get r n) = map (\<lambda>i. rg_data r ! ((rg_tail r + i) mod rg_capacity r)) [0 ..< n]"
proof (rule nth_equalityI)
  let ?c = "rg_capacity r" and ?t = "rg_tail r"
  have t: "?t < ?c" "length (rg_data r) = ?c" using assms(1) by (auto simp: ring_wf_def)
  then show len: "length (fst (ring_get r n)) =
      length (map (\<lambda>i. rg_data r ! ((?t + i) mod ?c)) [0 ..< n])"
    using assms(2) by (auto simp: ring_get_def Let_def)
  fix i assume "i < length (fst (ring_get r n))"
  then have "i < n" using len by simp
  moreover have "(?t + i) mod ?c = (if ?t + i < ?c then ?t + i else ?t + i - ?c)"
    using \<open>i < n\<close> t assms(2) by (simp add: mod_wrap)
  ultimately show "fst (ring_get r n) ! i = map (\<lambda>i. rg_data r ! ((?t + i) mod ?c)) [0 ..< n] ! i"
    using t assms(2) by (auto simp: ring_get_def Let_def nth_append nth_mslice add.commute)
qed

lemma ring_put_fields [simp]:
  "rg_capacity (ring_put r s) = rg_capacity r" "rg_tail (ring_put r s) = rg_tail r"
  "rg_non_blocking (ring_put r s) = rg_non_blocking r"
  "rg_head (ring_put r s) = (rg_head r + length s) mod rg_capacity r"
  by (simp_all add: ring_put_def Let_def)

lemma ring_get_fields [simp]:
  "rg_capacity (snd (ring_get r n)) = rg_capacity r" "rg_head (snd (ring_get r n)) = rg_head r"
  "rg_data (snd (ring_get r n)) = rg_data r" "rg_non_blocking (snd (ring_get r n)) = rg_non_blocking r"
  "rg_tail (snd (ring_get r n)) = (rg_tail r + n) mod rg_capacity r"
  by (simp_all add: ring_get_def Let_def)

lemma ring_get_wf: "ring_wf r \<Longrightarrow> ring_wf (snd (ring_get r n))"
  by (auto simp: ring_wf_def)

lemma available_read_put:
  assumes "ring_wf r" "length s \<le> zcio_ring_available_write r"
  shows "zcio_ring_available_read (ring_put r s) = zcio_ring_available_read r + length s"
proof -
  have "ring_wf (ring_put r s)"
    using assms by (intro ring_put_wf) (auto simp: available_write_eq)
  with assms show ?thesis
    by (auto simp: available_read_eq available_write_eq mod_wrap ring_wf_def split: if_splits)
qed

lemma available_read_get:
  assumes "ring_wf r" "n \<le> zcio_ring_available_read r"
  shows "zcio_ring_available_read (snd (ring_get r n)) = zcio_ring_available_read r - n"
  using assms ring_get_wf [OF assms(1), of n]
  by (auto simp: available_read_eq mod_wrap ring_wf_def)

lemma ring_list_nth:
  "i < zcio_ring_available_read r \<Longrightarrow>
     ring_list r ! i = rg_data r ! ((rg_tail r + i) mod rg_capacity r)"
  by (simp add: ring_list_def)

text \<open>Where slot \<open>i\<close> of the queue lies, seen from the head.\<close>

lemma slot_from_head:
  assumes "ring_wf r" "i < rg_capacity r"
  shows "((rg_tail r + i) mod rg_capacity r + rg_capacity r - rg_head r) mod rg_capacity r =
    (if i < zcio_ring_available_read r then rg_capacity r - zcio_ring_available_read r + i
     else i - zcio_ring_available_read r)"
  using assms by (auto simp: available_read_eq mod_wrap ring_wf_def)

lemma ring_list_put:
  assumes "ring_wf r" "length s \<le> zcio_ring_available_write r"
  shows "ring_list (ring_put r s) = ring_list r @ s"
proof (rule nth_equalityI)
  show "length (ring_list (ring_put r s)) = length (ring_list r @ s)"
    using assms by (simp add: available_read_put)
  fix i assume "i < length (ring_list (ring_put r s))"
  then have i: "i < zcio_ring_available_read r + length s"
    using assms by (simp add: available_read_put)
  have c: "zcio_ring_available_read r + length s < rg_capacity r"
    using assms available_read_lt [OF assms(1)] by (simp add: available_write_eq)
  let ?j = "(rg_tail r + i) mod rg_capacity r"
  have "ring_list (ring_put r s) ! i = rg_data (ring_put r s) ! ?j"
    using i assms by (simp add: ring_list_nth available_read_put)
  also have "\<dots> = (if i < zcio_ring_available_read r then rg_data r ! ?j
      else s ! (i - zcio_ring_available_read r))"
    using i c assms slot_from_head [OF assms(1), of i]
    by (subst ring_put_data) (auto simp: Let_def available_write_eq)
  also have "\<dots> = (ring_list r @ s) ! i"
    by (simp add: ring_list_nth nth_append)
  finally show "ring_list (ring_put r s) ! i = (ring_list r @ s) ! i" .
qed

lemma ring_list_get:
  assumes "ring_wf r" "n \<le> zcio_ring_available_read r"
  shows "fst (ring_get r n) = take n (ring_list r)"
    and "ring_list (snd (ring_get r n)) = drop n (ring_list r)"
proof -
  have "n \<le> rg_capacity r" using assms available_read_lt [OF assms(1)] by simp
  then show "fst (ring_get r n) = take n (ring_list r)"
    using assms by (simp add: ring_get_bytes ring_list_def take_map)
  show "ring_list (snd (ring_get r n)) = drop n (ring_list r)"
  proof (rule nth_equalityI)
    show "length (ring_list (snd (ring_get r n))) = length (drop n (ring_list r))"
      using assms by (simp add: available_read_get)
    fix i assume "i < length (ring_list (snd (ring_get r n)))"
    then have "i < zcio_ring_available_read r - n" using assms by (simp add: available_read_get)
    then show "ring_list (snd (ring_get r n)) ! i = drop n (ring_list r) ! i"
      using assms by (simp add: ring_list_nth available_read_get mod_add_left_eq add.assoc)
  qed
qed

subsection \<open>A non-blocking transfer moves exactly what fits\<close>

lemma ring_write_loop_full:
  assumes "zcio_ring_available_write r = 0" "rg_non_blocking r"
  shows "ring_write_loop r s written spins = Some (int written, r)"
proof (induction "101 - spins" arbitrary: spins rule: less_induct)
  case less
  show ?case
    using less [of "Suc spins"] assms by (subst ring_write_loop.simps) (auto simp: Let_def)
qed

lemma ring_read_loop_empty:
  assumes "zcio_ring_available_read r = 0" "rg_non_blocking r"
  shows "ring_read_loop r n got acc spins = Some (int got, acc, r)"
proof (induction "1000001 - spins" arbitrary: spins rule: less_induct)
  case less
  show ?case
    using less [of "Suc spins"] assms by (subst ring_read_loop.simps) (auto simp: Let_def)
qed

lemma ring_write_loop_done: "length s \<le> written \<Longrightarrow> ring_write_loop r s written spins = Some (int written, r)"
  by (subst ring_write_loop.simps) simp

lemma ring_read_loop_done: "n \<le> got \<Longrightarrow> ring_read_loop r n got acc spins = Some (int got, acc, r)"
  by (subst ring_read_loop.simps) simp

lemma ring_write_nonblocking:
  assumes "ring_wf r" "rg_non_blocking r" "k = min (length s) (zcio_ring_available_write r)"
  shows "\<exists>r'. ring_write_loop r s 0 0 = Some (int k, r') \<and> ring_wf r' \<and> rg_non_blocking r' \<and>
    rg_capacity r' = rg_capacity r \<and> ring_list r' = ring_list r @ take k s \<and>
    zcio_ring_available_write r' = zcio_ring_available_write r - k"
proof (cases "length s = 0 \<or> zcio_ring_available_write r = 0")
  case True
  with assms show ?thesis
    by (auto simp: ring_write_loop_done ring_write_loop_full)
next
  case False
  let ?r = "ring_put r (take k s)"
  have k: "length (take k s) = k" "k \<le> zcio_ring_available_write r" using assms(3) by simp_all
  have wf: "ring_wf ?r"
    using assms(1) k by (intro ring_put_wf) (auto simp: available_write_eq)
  have av: "zcio_ring_available_write ?r = zcio_ring_available_write r - k"
    using assms(1) k wf by (simp add: available_write_eq available_read_put)
  have chunk: "(if zcio_ring_available_write r < length s then zcio_ring_available_write r else length s) = k"
    using assms(3) by simp
  have "ring_write_loop r s 0 0 = ring_write_loop ?r s k 0"
    using False chunk by (subst ring_write_loop.simps) (auto simp: Let_def mslice_def split: if_splits)
  also have "\<dots> = Some (int k, ?r)"
    using assms(2,3) av by (cases "length s \<le> k") (auto simp: ring_write_loop_done ring_write_loop_full)
  finally show ?thesis
    using wf av assms(1,2) k by (simp add: ring_list_put)
qed

lemma ring_read_nonblocking:
  assumes "ring_wf r" "rg_non_blocking r" "k = min n (zcio_ring_available_read r)"
  shows "\<exists>r'. ring_read_loop r n 0 [] 0 = Some (int k, take k (ring_list r), r') \<and> ring_wf r' \<and>
    rg_non_blocking r' \<and> rg_capacity r' = rg_capacity r \<and> ring_list r' = drop k (ring_list r)"
proof (cases "n = 0 \<or> zcio_ring_available_read r = 0")
  case True
  with assms show ?thesis
    by (auto simp: ring_read_loop_done ring_read_loop_empty)
next
  case False
  let ?r = "snd (ring_get r k)"
  have k: "k \<le> zcio_ring_available_read r" using assms(3) by simp
  have chunk: "(if zcio_ring_available_read r < n then zcio_ring_available_read r else n) = k"
    using assms(3) by simp
  have "ring_read_loop r n 0 [] 0 = ring_read_loop ?r n k (fst (ring_get r k)) 0"
    using False chunk by (subst ring_read_loop.simps) (auto simp: Let_def split: if_splits)
  also have "\<dots> = Some (int k, fst (ring_get r k), ?r)"
    using assms available_read_get [OF assms(1) k]
    by (cases "n \<le> k") (auto simp: ring_read_loop_done ring_read_loop_empty)
  finally show ?thesis
    using assms(1,2) k by (simp add: ring_list_get ring_get_wf)
qed

abbreviation ring_nb :: "zcio_ring \<Rightarrow> bool" where
  "ring_nb r \<equiv> ring_wf r \<and> rg_non_blocking r"

lemma ring_s_read_eq: "ring_s_read r n = ring_read_loop r n 0 [] 0"
  by (simp add: ring_s_read_def zcio_ring_read_def option.map_comp option.map_ident comp_def case_prod_beta)

lemma ring_s_write_eq: "ring_s_write r s = ring_write_loop r s 0 0"
  by (simp add: ring_s_write_def zcio_ring_write_def option.map_comp option.map_ident comp_def case_prod_beta)

interpretation ring: byte_source RING_VT ring_s_read ring_nb ring_list
proof
  fix r and n :: nat assume "ring_nb r" "0 < n"
  then show "\<exists>k r'. ring_s_read r n = Some (int k, take k (ring_list r), r') \<and> k \<le> n \<and>
      k \<le> length (ring_list r) \<and> (k = 0 \<longrightarrow> ring_list r = []) \<and>
      ring_list r' = drop k (ring_list r) \<and> ring_nb r'"
    using ring_read_nonblocking [of r _ n]
    by (force simp: ring_s_read_eq min_def simp flip: length_0_conv)
qed (simp add: RING_VT_def)

interpretation ring: byte_sink RING_VT ring_s_write ring_nb zcio_ring_available_write ring_list
proof
  fix r and s :: bytes and k assume "ring_nb r" "k = min (length s) (zcio_ring_available_write r)"
  then show "\<exists>r'. ring_s_write r s = Some (int k, r') \<and> ring_nb r' \<and>
      zcio_ring_available_write r' = zcio_ring_available_write r - k \<and>
      ring_list r' = ring_list r @ take k s"
    using ring_write_nonblocking [of r k s] by (auto simp: ring_s_write_eq)
qed (simp add: RING_VT_def)

subsection \<open>One producer and one consumer\<close>

text \<open>
  The producer runs \<open>zcio_ring_write\<close> over its input, the consumer runs \<open>zcio_ring_read\<close>.
  Between the load that tells a thread how much it may copy and the store that publishes its
  cursor, the copy proceeds byte by byte, and the other thread may take any number of steps in
  between. A full (empty) ring makes the thread yield and retry, which changes nothing.
\<close>

datatype producer_pc = PLoop | PCopy nat nat  \<comment> \<open>chunk, bytes copied so far\<close>
datatype consumer_pc = CLoop | CCopy nat bytes  \<comment> \<open>chunk, bytes copied so far\<close>

record spsc =
  sp_ring :: zcio_ring
  sp_ppc :: producer_pc
  sp_cpc :: consumer_pc
  sp_todo :: bytes   \<comment> \<open>input not yet published\<close>
  sp_rcvd :: bytes   \<comment> \<open>bytes the consumer has taken\<close>

definition spsc_init :: "zcio_ring \<Rightarrow> bytes \<Rightarrow> spsc" where
  "spsc_init r input = \<lparr>sp_ring = r, sp_ppc = PLoop, sp_cpc = CLoop, sp_todo = input, sp_rcvd = []\<rparr>"

definition head_slot :: "zcio_ring \<Rightarrow> nat \<Rightarrow> nat" where
  "head_slot r i = (rg_head r + i) mod rg_capacity r"

definition tail_slot :: "zcio_ring \<Rightarrow> nat \<Rightarrow> nat" where
  "tail_slot r i = (rg_tail r + i) mod rg_capacity r"

inductive spsc_step :: "spsc \<Rightarrow> spsc \<Rightarrow> bool" where
  p_load: "sp_ppc s = PLoop \<Longrightarrow> sp_todo s \<noteq> [] \<Longrightarrow>
     avail = zcio_ring_available_write (sp_ring s) \<Longrightarrow> avail \<noteq> 0 \<Longrightarrow>
     chunk = (if avail < length (sp_todo s) then avail else length (sp_todo s)) \<Longrightarrow>
     spsc_step s (s\<lparr>sp_ppc := PCopy chunk 0\<rparr>)"
| p_byte: "sp_ppc s = PCopy chunk i \<Longrightarrow> i < chunk \<Longrightarrow> r = sp_ring s \<Longrightarrow>
     spsc_step s (s\<lparr>sp_ring := r\<lparr>rg_data := (rg_data r)[head_slot r i := sp_todo s ! i]\<rparr>,
                    sp_ppc := PCopy chunk (Suc i)\<rparr>)"
| p_publish: "sp_ppc s = PCopy chunk chunk \<Longrightarrow> r = sp_ring s \<Longrightarrow>
     spsc_step s (s\<lparr>sp_ring := r\<lparr>rg_head := head_slot r chunk\<rparr>, sp_ppc := PLoop,
                    sp_todo := drop chunk (sp_todo s)\<rparr>)"
| c_load: "sp_cpc s = CLoop \<Longrightarrow> avail = zcio_ring_available_read (sp_ring s) \<Longrightarrow> avail \<noteq> 0 \<Longrightarrow>
     0 < want \<Longrightarrow> chunk = (if avail < want then avail else want) \<Longrightarrow>
     spsc_step s (s\<lparr>sp_cpc := CCopy chunk []\<rparr>)"
| c_byte: "sp_cpc s = CCopy chunk b \<Longrightarrow> length b < chunk \<Longrightarrow> r = sp_ring s \<Longrightarrow>
     spsc_step s (s\<lparr>sp_cpc := CCopy chunk (b @ [rg_data r ! tail_slot r (length b)])\<rparr>)"
| c_publish: "sp_cpc s = CCopy chunk b \<Longrightarrow> length b = chunk \<Longrightarrow> r = sp_ring s \<Longrightarrow>
     spsc_step s (s\<lparr>sp_ring := r\<lparr>rg_tail := tail_slot r chunk\<rparr>, sp_cpc := CLoop,
                    sp_rcvd := sp_rcvd s @ b\<rparr>)"

definition spsc_inv :: "bytes \<Rightarrow> spsc \<Rightarrow> bool" where
  "spsc_inv input s \<longleftrightarrow>
     ring_wf (sp_ring s) \<and>
     input = sp_rcvd s @ ring_list (sp_ring s) @ sp_todo s \<and>
     (case sp_ppc s of PLoop \<Rightarrow> True
      | PCopy chunk i \<Rightarrow> 0 < chunk \<and> chunk \<le> zcio_ring_available_write (sp_ring s) \<and>
          chunk \<le> length (sp_todo s) \<and> i \<le> chunk \<and>
          (\<forall>j<i. rg_data (sp_ring s) ! head_slot (sp_ring s) j = sp_todo s ! j)) \<and>
     (case sp_cpc s of CLoop \<Rightarrow> True
      | CCopy chunk b \<Rightarrow> 0 < chunk \<and> chunk \<le> zcio_ring_available_read (sp_ring s) \<and>
          length b \<le> chunk \<and> b = take (length b) (ring_list (sp_ring s)))"

lemma spsc_inv_init:
  assumes "ring_wf r" "ring_list r = []"
  shows "spsc_inv input (spsc_init r input)"
  using assms by (simp add: spsc_inv_def spsc_init_def)

lemma slots_distinct:
  assumes "ring_wf r" "i < zcio_ring_available_write r"
  shows "a < zcio_ring_available_read r \<Longrightarrow> tail_slot r a \<noteq> head_slot r i"
    and "j < i \<Longrightarrow> head_slot r j \<noteq> head_slot r i"
    and "head_slot r i < length (rg_data r)"
  using assms
  by (auto simp: available_write_eq available_read_eq ring_wf_def tail_slot_def head_slot_def mod_wrap
      split: if_splits)

lemma ring_data_update [simp]:
  "zcio_ring_available_read (r\<lparr>rg_data := d\<rparr>) = zcio_ring_available_read r"
  "zcio_ring_available_write (r\<lparr>rg_data := d\<rparr>) = zcio_ring_available_write r"
  "head_slot (r\<lparr>rg_data := d\<rparr>) i = head_slot r i"
  "ring_wf (r\<lparr>rg_data := (rg_data r)[k := x]\<rparr>) = ring_wf r"
  by (simp_all add: zcio_ring_available_read_def zcio_ring_available_write_def head_slot_def ring_wf_def)

lemma ring_list_free_slot:
  assumes "ring_wf r" "i < zcio_ring_available_write r"
  shows "ring_list (r\<lparr>rg_data := (rg_data r)[head_slot r i := x]\<rparr>) = ring_list r"
  using slots_distinct(1) [OF assms, THEN not_sym]
  by (intro nth_equalityI) (auto simp: ring_list_nth tail_slot_def)

lemma publish_head_is_put:
  assumes "ring_wf r" "length s \<le> zcio_ring_available_write r"
    and "\<forall>j<length s. rg_data r ! head_slot r j = s ! j"
  shows "r\<lparr>rg_head := head_slot r (length s)\<rparr> = ring_put r s"
proof -
  let ?c = "rg_capacity r"
  have c: "length s \<le> ?c" "rg_head r < ?c" "length (rg_data r) = ?c"
    using assms(1,2) by (auto simp: available_write_eq ring_wf_def)
  have "rg_data (ring_put r s) ! j = rg_data r ! j" if j: "j < ?c" for j
  proof -
    let ?i = "(j + ?c - rg_head r) mod ?c"
    have "head_slot r ?i = j" using j c by (auto simp: head_slot_def mod_wrap)
    then show ?thesis using assms(3) c j ring_put_data [OF assms(1) c(1) j] by (auto simp: Let_def)
  qed
  moreover have "length (rg_data (ring_put r s)) = ?c"
    using ring_put_wf [OF assms(1) c(1)] by (simp add: ring_wf_def)
  ultimately have "rg_data (ring_put r s) = rg_data r"
    using c by (intro nth_equalityI) auto
  then show ?thesis by (simp add: ring_put_def Let_def head_slot_def)
qed

lemma publish_tail_is_get: "r\<lparr>rg_tail := tail_slot r n\<rparr> = snd (ring_get r n)"
  by (simp add: ring_get_def Let_def tail_slot_def)

lemma available_write_put:
  "ring_wf r \<Longrightarrow> length s \<le> zcio_ring_available_write r \<Longrightarrow>
     zcio_ring_available_write (ring_put r s) = zcio_ring_available_write r - length s"
  by (simp add: available_write_eq available_read_put ring_put_wf)

lemma available_write_get:
  "ring_wf r \<Longrightarrow> n \<le> zcio_ring_available_read r \<Longrightarrow>
     zcio_ring_available_write (snd (ring_get r n)) = zcio_ring_available_write r + n"
  using available_read_lt [of r] by (simp add: available_write_eq available_read_get ring_get_wf)

lemma head_slot_get [simp]: "head_slot (snd (ring_get r n)) i = head_slot r i"
  by (simp add: head_slot_def)

inductive_cases spsc_stepE: "spsc_step s t"

lemma spsc_step_inv: "spsc_step s t \<Longrightarrow> spsc_inv input s \<Longrightarrow> spsc_inv input t"
proof (induction rule: spsc_step.induct)
  case (p_load s avail chunk)
  then show ?case by (auto simp: spsc_inv_def split: consumer_pc.splits)
next
  case (p_byte s chunk i r)
  then have i: "ring_wf r" "i < zcio_ring_available_write r" by (auto simp: spsc_inv_def)
  with p_byte show ?case
    using slots_distinct(2) [OF i, THEN not_sym] slots_distinct(3) [OF i]
    by (auto simp: spsc_inv_def ring_list_free_slot less_Suc_eq split: consumer_pc.splits)
next
  case (p_publish s chunk r)
  let ?s = "take chunk (sp_todo s)"
  have r: "ring_wf r" "length ?s \<le> zcio_ring_available_write r" "length ?s = chunk"
    "\<forall>j<length ?s. rg_data r ! head_slot r j = ?s ! j"
    using p_publish by (auto simp: spsc_inv_def)
  then have eq: "r\<lparr>rg_head := head_slot r chunk\<rparr> = ring_put r ?s"
    using publish_head_is_put [OF r(1,2,4)] by simp
  have "ring_wf (ring_put r ?s)"
    using r by (intro ring_put_wf) (auto simp: available_write_eq)
  with p_publish r eq show ?case
    by (auto simp: spsc_inv_def ring_list_put available_read_put split: consumer_pc.splits)
next
  case (c_load s avail want chunk)
  then show ?case by (auto simp: spsc_inv_def split: producer_pc.splits)
next
  case (c_byte s chunk b r)
  then show ?case
    by (auto simp: spsc_inv_def ring_list_nth tail_slot_def take_Suc_conv_app_nth
        split: producer_pc.splits)
next
  case (c_publish s chunk b r)
  then have r: "ring_wf r" "chunk \<le> zcio_ring_available_read r" "b = take chunk (ring_list r)"
    by (auto simp: spsc_inv_def)
  with c_publish show ?case
    by (auto simp: spsc_inv_def publish_tail_is_get ring_get_wf ring_list_get available_write_get
        split: producer_pc.splits)
qed

lemma spsc_reach_inv:
  "spsc_step\<^sup>*\<^sup>* s t \<Longrightarrow> spsc_inv input s \<Longrightarrow> spsc_inv input t"
  by (induction rule: rtranclp_induct) (auto intro: spsc_step_inv)

lemma spsc_stuck:
  assumes "spsc_inv input s" "2 \<le> rg_capacity (sp_ring s)" "\<nexists>t. spsc_step s t"
  shows "sp_ppc s = PLoop" "sp_cpc s = CLoop" "sp_todo s = []" "ring_list (sp_ring s) = []"
proof -
  have inv: "ring_wf (sp_ring s)" using assms(1) by (simp add: spsc_inv_def)
  show p: "sp_ppc s = PLoop"
  proof (cases "sp_ppc s")
    case (PCopy chunk i)
    then have "i < chunk \<or> i = chunk" using assms(1) by (auto simp: spsc_inv_def)
    with PCopy assms(3) show ?thesis by (metis p_byte p_publish)
  qed
  show c: "sp_cpc s = CLoop"
  proof (cases "sp_cpc s")
    case (CCopy chunk b)
    then have "length b < chunk \<or> length b = chunk" using assms(1) by (auto simp: spsc_inv_def)
    with CCopy assms(3) show ?thesis by (metis c_byte c_publish)
  qed
  have empty: "zcio_ring_available_read (sp_ring s) = 0"
    using c_load [OF c refl _ zero_less_one refl] assms(3) by blast
  then show "ring_list (sp_ring s) = []"
    by (metis length_0_conv length_ring_list)
  have "zcio_ring_available_write (sp_ring s) \<noteq> 0"
    using empty assms(2) inv by (simp add: available_write_eq)
  then show "sp_todo s = []" using p_load [OF p _ refl _ refl] assms(3) by blast
qed

text \<open>
  The work left: a byte still to be sent costs a load, its copy, the publication and the same again
  on the consumer's side. Every step spends some of it.
\<close>

definition spsc_work :: "spsc \<Rightarrow> nat" where
  "spsc_work s = 7 * length (sp_todo s) + 3 * zcio_ring_available_read (sp_ring s)
     - (case sp_ppc s of PLoop \<Rightarrow> 0 | PCopy chunk i \<Rightarrow> i + 1)
     - (case sp_cpc s of CLoop \<Rightarrow> 0 | CCopy chunk b \<Rightarrow> length b + 1)"

lemma spsc_step_work: "spsc_step s t \<Longrightarrow> spsc_inv input s \<Longrightarrow> spsc_work t < spsc_work s"
proof (induction rule: spsc_step.induct)
  case (p_publish s chunk r)
  let ?s = "take chunk (sp_todo s)"
  have r: "ring_wf r" "length ?s \<le> zcio_ring_available_write r" "length ?s = chunk"
    "\<forall>j<length ?s. rg_data r ! head_slot r j = ?s ! j"
    using p_publish by (auto simp: spsc_inv_def)
  then have "zcio_ring_available_read (r\<lparr>rg_head := head_slot r chunk\<rparr>) = zcio_ring_available_read r + chunk"
    using publish_head_is_put [OF r(1,2,4)] available_read_put [OF r(1,2)] by simp
  with p_publish show ?case
    by (auto simp: spsc_inv_def spsc_work_def split: consumer_pc.splits)
next
  case (c_publish s chunk b r)
  then have "zcio_ring_available_read (r\<lparr>rg_tail := tail_slot r chunk\<rparr>) = zcio_ring_available_read r - chunk"
    by (auto simp: spsc_inv_def publish_tail_is_get available_read_get)
  with c_publish show ?case
    by (auto simp: spsc_inv_def spsc_work_def split: producer_pc.splits)
qed (auto simp: spsc_inv_def spsc_work_def split: producer_pc.splits consumer_pc.splits)

subsection \<open>Properties\<close>

lemma ring_new_empty:
  assumes "zcio_ring_new xmalloc alloc cap nb = Some r" "\<And>n b. xmalloc n = Some b \<Longrightarrow> length b = n"
  shows "ring_wf r" "ring_list r = []" "rg_capacity r = cap + 1" "rg_non_blocking r = nb"
  using assms
  by (auto simp: zcio_ring_new_def ring_init_def ring_wf_def ring_list_def zcio_ring_available_read_def
      ring_header_size_def Let_def split: if_splits option.splits)

text \<open>
  C9. First in, first out, whatever the interleaving of the two threads: from a ring that
  \<open>zcio_ring_new\<close> returned, at every reachable state the bytes the consumer took, followed by the
  bytes the ring holds, followed by the bytes not yet published, are the producer's input. Nothing
  is lost, duplicated, reordered or read before it is published. The allocator's contract (a block
  of the size asked for) is the hypothesis.
\<close>

theorem ring_concurrent_fifo:
  assumes "\<And>n b. xmalloc n = Some b \<Longrightarrow> length b = n"
    and "zcio_ring_new xmalloc alloc cap nb = Some r"
    and "spsc_step\<^sup>*\<^sup>* (spsc_init r input) s"
  shows "input = sp_rcvd s @ ring_list (sp_ring s) @ sp_todo s"
  using spsc_reach_inv [OF assms(3) spsc_inv_init] ring_new_empty [OF assms(2,1)]
  by (simp add: spsc_inv_def)

theorem ring_concurrent_fifo_witness:
  "\<exists>r s. zcio_ring_new (\<lambda>n. Some (replicate n 0)) True 2 False = Some r \<and>
     spsc_step\<^sup>*\<^sup>* (spsc_init r [7, 8]) s \<and> sp_ppc s = PCopy 2 0 \<and>
     [7, 8] = sp_rcvd s @ ring_list (sp_ring s) @ sp_todo s"
proof -
  let ?a = "\<lambda>n. Some (replicate n (0 :: byte))"
  obtain r where r: "zcio_ring_new ?a True 2 False = Some r"
    by (simp add: zcio_ring_new_def ring_init_def ring_header_size_def SIZE_MAX_def)
  then have "zcio_ring_available_write r = 2"
    by (auto simp: zcio_ring_new_def ring_init_def ring_header_size_def SIZE_MAX_def
        zcio_ring_available_write_def)
  then have "spsc_step (spsc_init r [7, 8]) ((spsc_init r [7, 8])\<lparr>sp_ppc := PCopy 2 0\<rparr>)"
    by (intro p_load [where avail = 2]) (auto simp: spsc_init_def)
  then have step: "spsc_step\<^sup>*\<^sup>* (spsc_init r [7, 8]) ((spsc_init r [7, 8])\<lparr>sp_ppc := PCopy 2 0\<rparr>)"
    by blast
  have "length b = n" if "?a n = Some b" for n b using that by auto
  from ring_concurrent_fifo [OF this r step] show ?thesis using r step by auto
qed



text \<open>
  C34. A non-blocking ring refines a bounded queue: a write appends the longest prefix that fits and
  returns its length, a read removes and returns the longest prefix of the queue up to the size
  asked for, and both return (the spin counters bound the retries).
\<close>

theorem ring_nonblocking_queue:
  assumes "ring_wf r" "rg_non_blocking r"
    and "k = min (length p) (rg_capacity r - 1 - length (ring_list r))"
    and "j = min n (length (ring_list r))"
  shows "(\<exists>r'. zcio_ring_write (Some r) (Some p) = Some (int k, Some r') \<and>
      ring_wf r' \<and> ring_list r' = ring_list r @ take k p) \<and>
    (\<exists>r'. zcio_ring_read (Some r) True n = Some (int j, take j (ring_list r), Some r') \<and>
      ring_wf r' \<and> ring_list r' = drop j (ring_list r))"
  using ring_write_nonblocking [OF assms(1,2), of k p] ring_read_nonblocking [OF assms(1,2), of j n]
    assms by (auto simp: zcio_ring_write_def zcio_ring_read_def available_write_eq)

theorem ring_nonblocking_queue_witness:
  "\<exists>r r'. zcio_ring_new (\<lambda>n. Some (replicate n 0)) True 2 True = Some r \<and>
     zcio_ring_write (Some r) (Some [1, 2, 3]) = Some (2, Some r') \<and> ring_list r' = [1, 2]"
proof -
  let ?a = "\<lambda>n. Some (replicate n (0 :: byte))"
  obtain r where r: "zcio_ring_new ?a True 2 True = Some r"
    by (simp add: zcio_ring_new_def ring_init_def ring_header_size_def SIZE_MAX_def)
  have "length b = n" if "?a n = Some b" for n b using that by auto
  note new = ring_new_empty [OF r this]
  then have "2 = min (length [1, 2, 3 :: byte]) (rg_capacity r - 1 - length (ring_list r))" by simp
  from ring_nonblocking_queue [OF new(1) _ this refl] show ?thesis
    using r new(2,4) by (auto simp: numeral_2_eq_2)
qed

end
