(* ===== verification/Zc_Serial.thy ===== *)
theory Zc_Serial
  imports Zc_Membuf
begin

text \<open>
  The bit and byte serializer (\<open>include/zcio/serial.h\<close>, \<open>src/serial.c\<close>) in its three modes.
  An operation returns \<open>None\<close> where the C program has no defined outcome: the backing stream
  never returns, or a block copy would leave the caller's buffer.
\<close>

subsection \<open>State\<close>

datatype serial_mode = MODE_STREAM | MODE_COUNT | MODE_BUFFER

record 'c zcio_serial =
  sr_mode :: serial_mode
  sr_stream :: "'c zcio_stream option"
  sr_owns_stream :: bool
  sr_bit_stream :: bool
  sr_cur_read_byte :: byte
  sr_bits_read :: nat        \<comment> \<open>0..8, 8 means "need a fresh byte"\<close>
  sr_cur_write_byte :: byte
  sr_bits_written :: nat     \<comment> \<open>0..8\<close>
  sr_count_total :: u64
  sr_count_wpos :: u64
  sr_count_rpos :: u64
  sr_buf :: bytes
  sr_buf_size :: int
  sr_buf_rpos :: int
  sr_buf_wpos :: int
  sr_read_eof :: bool
  sr_read_empty :: bool
  sr_short_read :: bool
  sr_last_read :: nat

text \<open>What \<open>zcio_xcalloc\<close> returns: every field zero.\<close>

definition serial_zero :: "'c zcio_serial" where
  "serial_zero = \<lparr>sr_mode = MODE_STREAM, sr_stream = None, sr_owns_stream = False,
     sr_bit_stream = False, sr_cur_read_byte = 0, sr_bits_read = 0, sr_cur_write_byte = 0,
     sr_bits_written = 0, sr_count_total = 0, sr_count_wpos = 0, sr_count_rpos = 0, sr_buf = [],
     sr_buf_size = 0, sr_buf_rpos = 0, sr_buf_wpos = 0, sr_read_eof = False,
     sr_read_empty = False, sr_short_read = False, sr_last_read = 0\<rparr>"

definition zcio_serial_new ::
  "bool \<Rightarrow> 'c zcio_stream option \<Rightarrow> bool \<Rightarrow> bool \<Rightarrow> 'c zcio_serial option" where
  "zcio_serial_new alloc s bit_stream take_ownership =
     (if Option.is_none s then None
      else if \<not> alloc then None
      else Some (serial_zero\<lparr>sr_mode := MODE_STREAM, sr_stream := s, sr_owns_stream := take_ownership,
                   sr_bit_stream := bit_stream, sr_bits_read := 8\<rparr>))"

definition zcio_serial_new_count :: "bool \<Rightarrow> 'c zcio_serial option" where
  "zcio_serial_new_count alloc =
     (if \<not> alloc then None else Some (serial_zero\<lparr>sr_mode := MODE_COUNT, sr_bits_read := 8\<rparr>))"

definition zcio_serial_new_buffer ::
  "bool \<Rightarrow> bytes option \<Rightarrow> int \<Rightarrow> bool \<Rightarrow> 'c zcio_serial option" where
  "zcio_serial_new_buffer alloc buffer sz bit_stream =
     (case buffer of
        None \<Rightarrow> None
      | Some b \<Rightarrow>
          if sz < 0 then None
          else if \<not> alloc then None
          else Some (serial_zero\<lparr>sr_mode := MODE_BUFFER, sr_buf := b, sr_buf_size := sz,
                       sr_bit_stream := bit_stream, sr_bits_read := 8\<rparr>))"

text \<open>The contexts that freeing the serializer destroys.\<close>

definition zcio_serial_free :: "'c zcio_serial option \<Rightarrow> 'c list" where
  "zcio_serial_free z =
     (case z of None \<Rightarrow> []
      | Some z' \<Rightarrow> if sr_owns_stream z' then zcio_stream_free (sr_stream z') else [])"

subsection \<open>The raw byte path\<close>

text \<open>The copy of \<open>n\<close> bytes at offset \<open>pos\<close> stays inside the caller's block.\<close>

definition serial_in_block :: "'c zcio_serial \<Rightarrow> int \<Rightarrow> nat \<Rightarrow> bool" where
  "serial_in_block z pos n \<longleftrightarrow> 0 \<le> pos \<and> pos + int n \<le> int (length (sr_buf z))"

text \<open>\<open>(uint64_t)buf_size - (uint64_t)pos\<close>, which wraps.\<close>

definition serial_cap :: "'c zcio_serial \<Rightarrow> int \<Rightarrow> nat" where
  "serial_cap z pos = unat (word_of_int (sr_buf_size z) - word_of_int pos :: u64)"

definition raw_write :: "'c zcio_serial \<Rightarrow> bytes \<Rightarrow> (int \<times> 'c zcio_serial) option" where
  "raw_write z src =
     (let sz = length src in
      case sr_mode z of
        MODE_COUNT \<Rightarrow>
          Some (int sz, z\<lparr>sr_count_total := sr_count_total z + of_nat sz,
                            sr_count_wpos := sr_count_wpos z + of_nat sz\<rparr>)
      | MODE_BUFFER \<Rightarrow>
          if sz > serial_cap z (sr_buf_wpos z) then Some (0, z)
          else if \<not> serial_in_block z (sr_buf_wpos z) sz then None
          else Some (int sz, z\<lparr>sr_buf := memcpy (sr_buf z) (nat (sr_buf_wpos z)) src,
                                 sr_buf_wpos := sr_buf_wpos z + int sz\<rparr>)
      | MODE_STREAM \<Rightarrow>
          do { (r, s) \<leftarrow> zcio_write_full (sr_stream z) (Some src) sz;
               Some (r, z\<lparr>sr_stream := s\<rparr>) })"

text \<open>The middle component is what is stored at the destination, from its start.\<close>

definition raw_read :: "'c zcio_serial \<Rightarrow> nat \<Rightarrow> (int \<times> bytes \<times> 'c zcio_serial) option" where
  "raw_read z sz =
     (case sr_mode z of
        MODE_COUNT \<Rightarrow>
          Some (int sz, [], z\<lparr>sr_count_rpos := sr_count_rpos z + of_nat sz, sr_last_read := sz\<rparr>)
      | MODE_BUFFER \<Rightarrow>
          if sz \<le> serial_cap z (sr_buf_rpos z) then
            (if \<not> serial_in_block z (sr_buf_rpos z) sz then None
             else Some (int sz, mslice (sr_buf z) (nat (sr_buf_rpos z)) sz,
                        z\<lparr>sr_buf_rpos := sr_buf_rpos z + int sz, sr_last_read := sz\<rparr>))
          else Some (0, [], z\<lparr>sr_last_read := 0, sr_read_eof := True\<rparr>)
      | MODE_STREAM \<Rightarrow>
          do { (r, d, s) \<leftarrow> zcio_read_full (sr_stream z) True sz;
               let z1 = z\<lparr>sr_stream := s\<rparr>;
               if r < 0
               then Some (0, d, z1\<lparr>sr_last_read := 0, sr_short_read := True, sr_read_eof := True\<rparr>)
               else (let z2 = z1\<lparr>sr_last_read := nat r\<rparr> in
                     if nat r \<noteq> sz then
                       (let z3 = z2\<lparr>sr_short_read := True\<rparr> in
                        Some (r, d, if zcio_stream_eof s then z3\<lparr>sr_read_eof := True\<rparr>
                                    else z3\<lparr>sr_read_empty := True\<rparr>))
                     else Some (r, d, z2\<lparr>sr_read_empty := False, sr_read_eof := False\<rparr>)) })"

subsection \<open>Single bits and bytes\<close>

text \<open>
  \<open>zcio_serial_write_bit\<close> and \<open>zcio_serial_write_byte\<close> call each other. The call from
  \<open>write_bit\<close> happens with eight bits pending, where \<open>write_byte\<close> takes its raw path, which is
  \<open>serial_emit\<close> here; \<open>write_bit_eq\<close> below restores the call of the source.
\<close>

definition serial_emit :: "'c zcio_serial \<Rightarrow> byte \<Rightarrow> 'c zcio_serial option" where
  "serial_emit z byte =
     do { (_, z1) \<leftarrow> raw_write z [byte];
          Some (z1\<lparr>sr_cur_write_byte := 0, sr_bits_written := 0\<rparr>) }"

definition zcio_serial_write_bit :: "'c zcio_serial \<Rightarrow> bool \<Rightarrow> 'c zcio_serial option" where
  "zcio_serial_write_bit z b =
     (let z1 = z\<lparr>sr_cur_write_byte := sr_cur_write_byte z OR push_bit (sr_bits_written z) (of_bool b),
                 sr_bits_written := sr_bits_written z + 1\<rparr>
      in if sr_bits_written z1 = 8 then serial_emit z1 (sr_cur_write_byte z1) else Some z1)"

primrec write_bit_list :: "'c zcio_serial \<Rightarrow> bool list \<Rightarrow> 'c zcio_serial option" where
  "write_bit_list z [] = Some z"
| "write_bit_list z (b # bs) = do { z1 \<leftarrow> zcio_serial_write_bit z b; write_bit_list z1 bs }"

text \<open>The bits of a byte, least significant first: \<open>(byte >> e) & 1\<close> for \<open>e\<close> from 0 to 7.\<close>

definition byte_bits :: "byte \<Rightarrow> bool list" where
  "byte_bits w = map (\<lambda>e. bit w e) [0 ..< 8]"

definition zcio_serial_write_byte :: "'c zcio_serial \<Rightarrow> byte \<Rightarrow> 'c zcio_serial option" where
  "zcio_serial_write_byte z byte =
     (if sr_bit_stream z \<and> sr_bits_written z > 0 \<and> sr_bits_written z < 8
      then write_bit_list z (byte_bits byte)
      else serial_emit z byte)"

text \<open>A one-byte read into \<open>char b = 0\<close>.\<close>

definition serial_fetch :: "'c zcio_serial \<Rightarrow> 'c zcio_serial option" where
  "serial_fetch z =
     do { (_, d, z1) \<leftarrow> raw_read z 1;
          Some (z1\<lparr>sr_cur_read_byte := (case d of [] \<Rightarrow> 0 | b # _ \<Rightarrow> b), sr_bits_read := 0\<rparr>) }"

definition zcio_serial_read_bit :: "'c zcio_serial \<Rightarrow> (bool \<times> 'c zcio_serial) option" where
  "zcio_serial_read_bit z =
     do { z1 \<leftarrow> (if sr_bits_read z = 0 \<or> sr_bits_read z = 8 then serial_fetch z else Some z);
          Some (bit (sr_cur_read_byte z1) (sr_bits_read z1),
                z1\<lparr>sr_bits_read := sr_bits_read z1 + 1\<rparr>) }"

primrec read_bit_list :: "'c zcio_serial \<Rightarrow> nat \<Rightarrow> (bool list \<times> 'c zcio_serial) option" where
  "read_bit_list z 0 = Some ([], z)"
| "read_bit_list z (Suc n) =
     do { (b, z1) \<leftarrow> zcio_serial_read_bit z;
          (bs, z2) \<leftarrow> read_bit_list z1 n;
          Some (b # bs, z2) }"

text \<open>\<open>byte |= (uint8_t)(bit << e)\<close> over the bits read.\<close>

primrec or_bits :: "byte \<Rightarrow> nat \<Rightarrow> bool list \<Rightarrow> byte" where
  "or_bits acc e [] = acc"
| "or_bits acc e (b # bs) = or_bits (acc OR push_bit e (of_bool b)) (Suc e) bs"

definition zcio_serial_read_byte :: "'c zcio_serial \<Rightarrow> (byte \<times> 'c zcio_serial) option" where
  "zcio_serial_read_byte z =
     (if sr_bit_stream z \<and> sr_bits_read z > 0 \<and> sr_bits_read z < 8
      then do { (bs, z1) \<leftarrow> read_bit_list z 8; Some (or_bits 0 0 bs, z1) }
      else do { z1 \<leftarrow> serial_fetch z; Some (sr_cur_read_byte z1, z1) })"

subsection \<open>Bulk bytes and bit arrays\<close>

primrec write_byte_list :: "'c zcio_serial \<Rightarrow> bytes \<Rightarrow> 'c zcio_serial option" where
  "write_byte_list z [] = Some z"
| "write_byte_list z (b # bs) = do { z1 \<leftarrow> zcio_serial_write_byte z b; write_byte_list z1 bs }"

primrec read_byte_list :: "'c zcio_serial \<Rightarrow> nat \<Rightarrow> (bytes \<times> 'c zcio_serial) option" where
  "read_byte_list z 0 = Some ([], z)"
| "read_byte_list z (Suc n) =
     do { (b, z1) \<leftarrow> zcio_serial_read_byte z;
          (bs, z2) \<leftarrow> read_byte_list z1 n;
          Some (b # bs, z2) }"

text \<open>The bodies of the two bulk operations, past the NULL checks.\<close>

definition serial_write :: "'c zcio_serial \<Rightarrow> bytes \<Rightarrow> (int \<times> 'c zcio_serial) option" where
  "serial_write z src =
     (if sr_bit_stream z \<and> sr_mode z = MODE_STREAM
      then do { z1 \<leftarrow> write_byte_list z src; Some (int (length src), z1) }
      else raw_write z src)"

definition serial_read :: "'c zcio_serial \<Rightarrow> nat \<Rightarrow> (int \<times> bytes \<times> 'c zcio_serial) option" where
  "serial_read z sz =
     (if sr_bit_stream z \<and> sr_mode z = MODE_STREAM
      then do { (d, z1) \<leftarrow> read_byte_list z sz; Some (int sz, d, z1\<lparr>sr_last_read := sz\<rparr>) }
      else raw_read z sz)"

definition zcio_serial_write_bytes ::
  "'c zcio_serial option \<Rightarrow> bytes option \<Rightarrow> (int \<times> 'c zcio_serial option) option" where
  "zcio_serial_write_bytes z src =
     (case (z, src) of
        (Some z', Some p) \<Rightarrow> map_option (apsnd Some) (serial_write z' p)
      | _ \<Rightarrow> Some (zcode ZCIO_ERR_INVALID_ARG, z))"

definition zcio_serial_read_bytes ::
  "'c zcio_serial option \<Rightarrow> bool \<Rightarrow> nat \<Rightarrow> (int \<times> bytes \<times> 'c zcio_serial option) option" where
  "zcio_serial_read_bytes z dst sz =
     (case z of
        None \<Rightarrow> Some (zcode ZCIO_ERR_INVALID_ARG, [], z)
      | Some z' \<Rightarrow> if \<not> dst then Some (zcode ZCIO_ERR_INVALID_ARG, [], z)
                  else map_option (apsnd (apsnd Some)) (serial_read z' sz))"

text \<open>Each element of \<open>bits\<close> holds one bit in its lowest position.\<close>

definition zcio_serial_write_bits ::
  "'c zcio_serial \<Rightarrow> bytes \<Rightarrow> nat \<Rightarrow> nat \<Rightarrow> 'c zcio_serial option" where
  "zcio_serial_write_bits z bits index count =
     (if \<not> sr_bit_stream z then Some z
      else write_bit_list z (map (\<lambda>b. bit b 0) (mslice bits index count)))"

definition zcio_serial_read_bits ::
  "'c zcio_serial \<Rightarrow> bytes \<Rightarrow> nat \<Rightarrow> nat \<Rightarrow> (bytes \<times> 'c zcio_serial) option" where
  "zcio_serial_read_bits z bits index count =
     (if \<not> sr_bit_stream z then Some (bits, z)
      else do { (bs, z1) \<leftarrow> read_bit_list z count;
                Some (memcpy bits index (map of_bool bs), z1) })"

subsection \<open>Scalars and strings\<close>

text \<open>
  The object representation of an integer: its bytes, least significant first on a little-endian
  host (\<open>le\<close>). One definition serves every width of the source's macro, and the floating-point
  helpers at 32 and 64 bits, whose values are their bit patterns here.
\<close>

definition word_bytes :: "bool \<Rightarrow> 'a :: len word \<Rightarrow> bytes" where
  "word_bytes le w =
     (let b = map (\<lambda>i. ucast (drop_bit (8 * i) w) :: byte) [0 ..< LENGTH('a) div 8]
      in if le then b else rev b)"

primrec word_le_val :: "bytes \<Rightarrow> 'a :: len word" where
  "word_le_val [] = 0"
| "word_le_val (b # bs) = ucast b OR push_bit 8 (word_le_val bs)"

definition word_of_bytes :: "bool \<Rightarrow> bytes \<Rightarrow> 'a :: len word" where
  "word_of_bytes le b = word_le_val (if le then b else rev b)"

definition zcio_serial_write_scalar ::
  "bool \<Rightarrow> 'c zcio_serial \<Rightarrow> 'a :: len word \<Rightarrow> 'c zcio_serial option" where
  "zcio_serial_write_scalar le z v =
     do { (_, z1) \<leftarrow> serial_write z (word_bytes le v); Some z1 }"

text \<open>\<open>T v = 0; read_bytes(z, &v, sizeof v); return v;\<close> with the code \<open>read_bytes\<close> returned.\<close>

definition serial_read_obj ::
  "bool \<Rightarrow> 'c zcio_serial \<Rightarrow> (int \<times> 'a :: len word \<times> 'c zcio_serial) option" where
  "serial_read_obj le z =
     do { (r, d, z1) \<leftarrow> serial_read z (LENGTH('a) div 8);
          Some (r, word_of_bytes le (memcpy (replicate (LENGTH('a) div 8) 0) 0 d), z1) }"

definition zcio_serial_read_scalar ::
  "bool \<Rightarrow> 'c zcio_serial \<Rightarrow> ('a :: len word \<times> 'c zcio_serial) option" where
  "zcio_serial_read_scalar le z = do { (_, v, z1) \<leftarrow> serial_read_obj le z; Some (v, z1) }"

definition zcio_serial_write_str ::
  "bool \<Rightarrow> 'c zcio_serial \<Rightarrow> bytes \<Rightarrow> 'c zcio_serial option" where
  "zcio_serial_write_str le z s =
     do { (_, z1) \<leftarrow> serial_write z (word_bytes le (of_nat (length s) :: u64));
          if length s \<noteq> 0 then do { (_, z2) \<leftarrow> serial_write z1 s; Some z2 } else Some z1 }"

subsection \<open>Positions and status\<close>

definition zcio_serial_write_pos :: "'c zcio_serial \<Rightarrow> int \<times> 'c zcio_serial" where
  "zcio_serial_write_pos z =
     (case sr_mode z of
        MODE_COUNT \<Rightarrow> (sint (sr_count_wpos z), z)
      | MODE_BUFFER \<Rightarrow> (sr_buf_wpos z, z)
      | MODE_STREAM \<Rightarrow> (case zcio_seek (sr_stream z) 0 ZCIO_SEEK_CUR ZCIO_SEEK_WRITE of
                          (r, s) \<Rightarrow> (r, z\<lparr>sr_stream := s\<rparr>)))"

definition zcio_serial_read_pos :: "'c zcio_serial \<Rightarrow> int \<times> 'c zcio_serial" where
  "zcio_serial_read_pos z =
     (case sr_mode z of
        MODE_COUNT \<Rightarrow> (sint (sr_count_rpos z), z)
      | MODE_BUFFER \<Rightarrow> (sr_buf_rpos z, z)
      | MODE_STREAM \<Rightarrow> (case zcio_seek (sr_stream z) 0 ZCIO_SEEK_CUR ZCIO_SEEK_READ of
                          (r, s) \<Rightarrow> (r, z\<lparr>sr_stream := s\<rparr>)))"

definition zcio_serial_set_write_pos :: "'c zcio_serial \<Rightarrow> nat \<Rightarrow> 'c zcio_serial" where
  "zcio_serial_set_write_pos z i =
     (case sr_mode z of
        MODE_COUNT \<Rightarrow> z\<lparr>sr_count_wpos := of_nat i\<rparr>
      | MODE_BUFFER \<Rightarrow> z\<lparr>sr_buf_wpos := to_i64 i\<rparr>
      | MODE_STREAM \<Rightarrow> (case zcio_seek (sr_stream z) (to_i64 i) ZCIO_SEEK_SET ZCIO_SEEK_WRITE of
                          (r, s) \<Rightarrow> z\<lparr>sr_stream := s\<rparr>))"

definition zcio_serial_set_read_pos :: "'c zcio_serial \<Rightarrow> nat \<Rightarrow> 'c zcio_serial" where
  "zcio_serial_set_read_pos z i =
     (case sr_mode z of
        MODE_COUNT \<Rightarrow> z\<lparr>sr_count_rpos := of_nat i\<rparr>
      | MODE_BUFFER \<Rightarrow> z\<lparr>sr_buf_rpos := to_i64 i\<rparr>
      | MODE_STREAM \<Rightarrow> (case zcio_seek (sr_stream z) (to_i64 i) ZCIO_SEEK_SET ZCIO_SEEK_READ of
                          (r, s) \<Rightarrow> z\<lparr>sr_stream := s\<rparr>))"

definition zcio_serial_write_len :: "'c zcio_serial \<Rightarrow> int \<times> 'c zcio_serial" where
  "zcio_serial_write_len z =
     (if sr_mode z = MODE_COUNT then (sint (sr_count_total z), z)
      else if sr_mode z = MODE_BUFFER then (sr_buf_size z, z)
      else (case zcio_seek (sr_stream z) 0 ZCIO_SEEK_END ZCIO_SEEK_WRITE of
              (r, s) \<Rightarrow> (r, z\<lparr>sr_stream := s\<rparr>)))"

definition zcio_serial_read_len :: "'c zcio_serial \<Rightarrow> int" where
  "zcio_serial_read_len z =
     (if sr_mode z = MODE_COUNT then sint (sr_count_total z)
      else if sr_mode z = MODE_BUFFER then sr_buf_size z
      else zcio_available (sr_stream z))"

definition zcio_serial_synchronize :: "'c zcio_serial \<Rightarrow> 'c zcio_serial option" where
  "zcio_serial_synchronize z =
     do { z1 \<leftarrow> (if sr_bits_written z > 0 \<and> sr_bits_written z < 8
                 then zcio_serial_write_byte (z\<lparr>sr_bits_written := 8\<rparr>) (sr_cur_write_byte z)
                 else Some z);
          Some (if sr_mode z1 = MODE_STREAM then z1\<lparr>sr_stream := snd (zcio_flush (sr_stream z1))\<rparr>
                else z1) }"

definition zcio_serial_short_read :: "'c zcio_serial \<Rightarrow> bool \<times> 'c zcio_serial" where
  "zcio_serial_short_read z = (sr_short_read z, z\<lparr>sr_short_read := False\<rparr>)"

definition zcio_serial_clear_read :: "'c zcio_serial \<Rightarrow> 'c zcio_serial" where
  "zcio_serial_clear_read z = z\<lparr>sr_read_eof := False, sr_read_empty := False, sr_short_read := False\<rparr>"

text \<open>
  \<open>xmalloc n\<close>: the allocator grants \<open>n\<close> bytes. The result is NULL or the bytes stored before
  the terminating NUL; their number is what \<open>*out_len\<close> receives.
\<close>

definition STREAM_READ_CAP :: nat where
  "STREAM_READ_CAP = 256 * 1024 * 1024"

definition read_str_too_long :: "'c zcio_serial \<Rightarrow> nat \<Rightarrow> bool" where
  "read_str_too_long z n \<longleftrightarrow>
     (if sr_mode z = MODE_STREAM then n > STREAM_READ_CAP
      else (let tot = zcio_serial_read_len z; pos = fst (zcio_serial_read_pos z);
                avail = (if tot > pos then tot - pos else 0)
            in n > nat avail))"

definition zcio_serial_read_str ::
  "bool \<Rightarrow> (nat \<Rightarrow> bool) \<Rightarrow> 'c zcio_serial \<Rightarrow> (bytes option \<times> 'c zcio_serial) option" where
  "zcio_serial_read_str le xmalloc z =
     do { (r, n0, z1) \<leftarrow> (serial_read_obj le z :: (int \<times> u64 \<times> 'c zcio_serial) option);
          let n = unat n0;
          if r \<noteq> 8 then Some (None, z1)
          else if n = 2 ^ 64 - 1 then Some (None, z1)
          else if read_str_too_long z1 n then Some (None, z1)
          else if \<not> xmalloc (n + 1) then Some (None, z1)
          else if n = 0 then Some (Some [], z1)
          else do { (r2, d, z2) \<leftarrow> serial_read z1 n;
                    Some (if r2 < 0 then None else Some (take (nat r2) d), z2) } }"

subsection \<open>Buffer mode: the cursors stay inside the block\<close>

definition sr_wf :: "'c zcio_serial \<Rightarrow> bool" where
  "sr_wf z \<longleftrightarrow> sr_mode z = MODE_BUFFER \<and> sr_buf_size z = int (length (sr_buf z)) \<and>
     length (sr_buf z) < 2 ^ 63 \<and>
     0 \<le> sr_buf_rpos z \<and> sr_buf_rpos z \<le> sr_buf_size z \<and>
     0 \<le> sr_buf_wpos z \<and> sr_buf_wpos z \<le> sr_buf_size z \<and>
     sr_bits_written z < 8 \<and> sr_bits_read z \<le> 8 \<and>
     (\<forall>i\<ge>sr_bits_written z. \<not> bit (sr_cur_write_byte z) i)"

lemma serial_cap_eq:
  assumes "0 \<le> pos" "pos \<le> sr_buf_size z" "sr_buf_size z < 2 ^ 63"
  shows "serial_cap z pos = nat (sr_buf_size z - pos)"
proof -
  have "(word_of_int (sr_buf_size z) - word_of_int pos :: u64) = word_of_int (sr_buf_size z - pos)"
    by simp
  moreover have "uint (word_of_int (sr_buf_size z - pos) :: u64) = sr_buf_size z - pos"
    unfolding uint_word_of_int_eq using assms by (intro take_bit_int_eq_self) auto
  ultimately show ?thesis unfolding serial_cap_def by (simp only: unat_eq_nat_uint)
qed

lemma sr_wf_cap:
  assumes "sr_wf z"
  shows "serial_cap z (sr_buf_wpos z) = length (sr_buf z) - nat (sr_buf_wpos z)"
    and "serial_cap z (sr_buf_rpos z) = length (sr_buf z) - nat (sr_buf_rpos z)"
  using assms by (auto simp: sr_wf_def serial_cap_eq)

lemma raw_write_buffer:
  assumes "sr_wf z"
  shows "raw_write z p =
    (if length p > length (sr_buf z) - nat (sr_buf_wpos z) then Some (0, z)
     else Some (int (length p), z\<lparr>sr_buf := memcpy (sr_buf z) (nat (sr_buf_wpos z)) p,
                                 sr_buf_wpos := sr_buf_wpos z + int (length p)\<rparr>))"
  using assms by (auto simp: raw_write_def sr_wf_cap Let_def serial_in_block_def) (auto simp: sr_wf_def)

lemma raw_read_buffer:
  assumes "sr_wf z"
  shows "raw_read z n =
    (if n \<le> length (sr_buf z) - nat (sr_buf_rpos z)
     then Some (int n, mslice (sr_buf z) (nat (sr_buf_rpos z)) n,
                z\<lparr>sr_buf_rpos := sr_buf_rpos z + int n, sr_last_read := n\<rparr>)
     else Some (0, [], z\<lparr>sr_last_read := 0, sr_read_eof := True\<rparr>))"
  using assms by (auto simp: raw_read_def sr_wf_cap Let_def serial_in_block_def) (auto simp: sr_wf_def)

lemma raw_write_wf: "sr_wf z \<Longrightarrow> \<exists>r z'. raw_write z p = Some (r, z') \<and> sr_wf z'"
  by (subst raw_write_buffer) (auto simp: sr_wf_def)

lemma raw_read_wf: "sr_wf z \<Longrightarrow> \<exists>r d z'. raw_read z n = Some (r, d, z') \<and> sr_wf z'"
  by (subst raw_read_buffer) (auto simp: sr_wf_def)

lemma serial_new_buffer_wf:
  "zcio_serial_new_buffer a (Some buf) (int (length buf)) bs = Some z \<Longrightarrow> length buf < 2 ^ 63 \<Longrightarrow> sr_wf z"
  by (auto simp: zcio_serial_new_buffer_def sr_wf_def serial_zero_def split: if_splits)

subsection \<open>Bits and bytes interleave\<close>

lemma length_byte_bits [simp]: "length (byte_bits w) = 8"
  by (simp add: byte_bits_def)

lemma take_byte_bits: "k \<le> 8 \<Longrightarrow> take k (byte_bits w) = map (bit w) [0 ..< k]"
  by (simp add: byte_bits_def take_map)

lemma byte_bits_inj: "byte_bits v = byte_bits w \<Longrightarrow> v = w"
  by (rule bit_word_eqI) (auto simp: byte_bits_def list_eq_iff_nth_eq)

lemma bit_or_push:
  "bit (w OR push_bit k (of_bool b) :: byte) i \<longleftrightarrow> bit w i \<or> (i = k \<and> b \<and> k < 8)"
  by (auto simp: bit_simps possible_bit_def)

lemma bit_or_bits:
  "bit (or_bits w e bs) i \<longleftrightarrow> bit w i \<or> (e \<le> i \<and> i < e + length bs \<and> i < 8 \<and> bs ! (i - e))"
  by (induction bs arbitrary: w e) (auto simp: bit_or_push nth_Cons' Suc_diff_Suc)

lemma or_bits_byte_bits: "or_bits 0 0 (byte_bits w) = w"
  by (rule bit_word_eqI) (auto simp: bit_or_bits byte_bits_def)

lemma write_bit_eq:
  "zcio_serial_write_bit z b =
     (let z1 = z\<lparr>sr_cur_write_byte := sr_cur_write_byte z OR push_bit (sr_bits_written z) (of_bool b),
                 sr_bits_written := sr_bits_written z + 1\<rparr>
      in if sr_bits_written z1 = 8 then zcio_serial_write_byte z1 (sr_cur_write_byte z1) else Some z1)"
  by (simp add: zcio_serial_write_bit_def zcio_serial_write_byte_def Let_def)

text \<open>The bits written so far, and the bits still to be read.\<close>

definition written_bits :: "'c zcio_serial \<Rightarrow> bool list" where
  "written_bits z = concat (map byte_bits (take (nat (sr_buf_wpos z)) (sr_buf z))) @
     take (sr_bits_written z) (byte_bits (sr_cur_write_byte z))"

definition pending_bits :: "'c zcio_serial \<Rightarrow> bool list" where
  "pending_bits z =
     (if sr_bits_read z = 0 \<or> sr_bits_read z = 8 then []
      else drop (sr_bits_read z) (byte_bits (sr_cur_read_byte z))) @
     concat (map byte_bits (drop (nat (sr_buf_rpos z)) (sr_buf z)))"

text \<open>What a write leaves alone: the mode and everything on the reading side.\<close>

definition write_frame :: "'c zcio_serial \<Rightarrow> 'c zcio_serial \<Rightarrow> bool" where
  "write_frame z z' \<longleftrightarrow> sr_bit_stream z' = sr_bit_stream z \<and> sr_buf_rpos z' = sr_buf_rpos z \<and>
     sr_bits_read z' = sr_bits_read z \<and> length (sr_buf z') = length (sr_buf z)"

lemma write_frame_refl [simp]: "write_frame z z"
  by (simp add: write_frame_def)

lemma write_frame_trans: "write_frame x y \<Longrightarrow> write_frame y z \<Longrightarrow> write_frame x z"
  by (simp add: write_frame_def)

lemma length_concat_byte_bits [simp]: "length (concat (map byte_bits bs)) = 8 * length bs"
  by (induction bs) simp_all

lemma length_written_bits:
  "sr_wf z \<Longrightarrow> length (written_bits z) = 8 * nat (sr_buf_wpos z) + sr_bits_written z"
  by (auto simp: written_bits_def sr_wf_def)

lemma serial_emit_ok:
  assumes "sr_wf z" "nat (sr_buf_wpos z) < length (sr_buf z)"
    and "u = z\<lparr>sr_cur_write_byte := x, sr_bits_written := k\<rparr>"
  shows "\<exists>z'. serial_emit u w = Some z' \<and> sr_wf z' \<and> write_frame z z' \<and>
    written_bits z' = concat (map byte_bits (take (nat (sr_buf_wpos z)) (sr_buf z))) @ byte_bits w \<and>
    sr_bits_written z' = 0"
proof -
  have cap: "serial_cap u (sr_buf_wpos u) = length (sr_buf z) - nat (sr_buf_wpos z)"
    using sr_wf_cap(1) [OF assms(1)] assms(3) by (simp add: serial_cap_def)
  have pos: "nat (sr_buf_wpos z + 1) = Suc (nat (sr_buf_wpos z))" "0 \<le> sr_buf_wpos z"
    using assms(1) by (auto simp: sr_wf_def)
  have "take (Suc (nat (sr_buf_wpos z))) (memcpy (sr_buf z) (nat (sr_buf_wpos z)) [w]) =
      take (nat (sr_buf_wpos z)) (sr_buf z) @ [w]"
    using assms(2) by (simp add: memcpy_def)
  moreover have "raw_write u [w] = Some (1, u\<lparr>sr_buf := memcpy (sr_buf z) (nat (sr_buf_wpos z)) [w],
      sr_buf_wpos := sr_buf_wpos z + 1\<rparr>)"
    using assms cap by (auto simp: raw_write_def serial_in_block_def sr_wf_def)
  ultimately show ?thesis
    using assms pos by (auto simp: serial_emit_def sr_wf_def write_frame_def written_bits_def)
qed

lemma write_bit_ok:
  assumes "sr_wf z" "length (written_bits z) < 8 * length (sr_buf z)"
  shows "\<exists>z'. zcio_serial_write_bit z b = Some z' \<and> sr_wf z' \<and> write_frame z z' \<and>
    written_bits z' = written_bits z @ [b]"
proof -
  let ?w = "sr_cur_write_byte z OR push_bit (sr_bits_written z) (of_bool b)"
  have k: "sr_bits_written z < 8" using assms(1) by (simp add: sr_wf_def)
  have room: "nat (sr_buf_wpos z) < length (sr_buf z)"
    using assms by (simp add: length_written_bits)
  have bits: "take (Suc (sr_bits_written z)) (byte_bits ?w) =
      take (sr_bits_written z) (byte_bits (sr_cur_write_byte z)) @ [b]"
    using assms(1) k by (auto simp: take_byte_bits bit_or_push sr_wf_def)
  show ?thesis
  proof (cases "sr_bits_written z = 7")
    case True
    then have "byte_bits ?w = take 7 (byte_bits (sr_cur_write_byte z)) @ [b]" using bits by simp
    with serial_emit_ok [OF assms(1) room refl, where x = ?w and k = 8 and w = ?w] True show ?thesis
      by (auto simp: zcio_serial_write_bit_def written_bits_def Let_def)
  next
    case False
    with assms(1) bits k show ?thesis
      by (auto simp: zcio_serial_write_bit_def Let_def sr_wf_def write_frame_def written_bits_def
          bit_or_push)
  qed
qed

lemma write_bit_list_ok:
  "sr_wf z \<Longrightarrow> length (written_bits z) + length bs \<le> 8 * length (sr_buf z) \<Longrightarrow>
   \<exists>z'. write_bit_list z bs = Some z' \<and> sr_wf z' \<and> write_frame z z' \<and>
     written_bits z' = written_bits z @ bs"
proof (induction bs arbitrary: z)
  case (Cons b bs)
  obtain z1 where z1: "zcio_serial_write_bit z b = Some z1" "sr_wf z1" "write_frame z z1"
    "written_bits z1 = written_bits z @ [b]"
    using write_bit_ok [OF Cons.prems(1), of b] Cons.prems(2) by auto
  with Cons.IH [OF z1(2)] Cons.prems(2) show ?case
    by (auto simp: write_frame_def)
qed simp

lemma write_byte_ok:
  assumes "sr_wf z" "sr_bit_stream z" "length (written_bits z) + 8 \<le> 8 * length (sr_buf z)"
  shows "\<exists>z'. zcio_serial_write_byte z w = Some z' \<and> sr_wf z' \<and> write_frame z z' \<and>
    written_bits z' = written_bits z @ byte_bits w"
proof (cases "sr_bits_written z > 0")
  case True
  with assms write_bit_list_ok [OF assms(1), of "byte_bits w"] show ?thesis
    by (simp add: zcio_serial_write_byte_def sr_wf_def)
next
  case False
  have "nat (sr_buf_wpos z) < length (sr_buf z)"
    using assms by (simp add: length_written_bits)
  from serial_emit_ok [OF assms(1) this, of z "sr_bits_written z" "sr_cur_write_byte z" w] False
  show ?thesis by (simp add: zcio_serial_write_byte_def written_bits_def) blast
qed

lemma synchronize_ok:
  assumes "sr_wf z" "length (written_bits z) \<le> 8 * length (sr_buf z)"
  shows "\<exists>z' pad. zcio_serial_synchronize z = Some z' \<and> sr_wf z' \<and> write_frame z z' \<and>
    written_bits z' = written_bits z @ pad \<and> sr_bits_written z' = 0"
proof (cases "sr_bits_written z > 0")
  case True
  then have room: "nat (sr_buf_wpos z) < length (sr_buf z)"
    using assms by (simp add: length_written_bits)
  let ?u = "z\<lparr>sr_bits_written := 8\<rparr>"
  have "?u = z\<lparr>sr_cur_write_byte := sr_cur_write_byte z, sr_bits_written := 8\<rparr>" by simp
  from serial_emit_ok [OF assms(1) room this, where w = "sr_cur_write_byte z"]
  obtain z' where z': "serial_emit ?u (sr_cur_write_byte z) = Some z'" "sr_wf z'" "write_frame z z'"
    "written_bits z' = concat (map byte_bits (take (nat (sr_buf_wpos z)) (sr_buf z))) @
       byte_bits (sr_cur_write_byte z)" "sr_bits_written z' = 0"
    by blast
  have "written_bits z' = written_bits z @ drop (sr_bits_written z) (byte_bits (sr_cur_write_byte z))"
    unfolding z'(4) by (simp add: written_bits_def)
  moreover have "zcio_serial_synchronize z = Some z'"
    using z'(1,2) True assms(1)
    by (simp add: zcio_serial_synchronize_def zcio_serial_write_byte_def sr_wf_def)
  ultimately show ?thesis using z'(2,3,5) by blast
next
  case False
  with assms show ?thesis
    by (intro exI [of _ z] exI [of _ "[]"]) (auto simp: zcio_serial_synchronize_def sr_wf_def)
qed

lemma serial_fetch_ok:
  assumes "sr_wf z" "nat (sr_buf_rpos z) < length (sr_buf z)"
  shows "\<exists>z'. serial_fetch z = Some z' \<and> sr_wf z' \<and> sr_bit_stream z' = sr_bit_stream z \<and>
    sr_buf z' = sr_buf z \<and> nat (sr_buf_rpos z') = Suc (nat (sr_buf_rpos z)) \<and>
    sr_bits_read z' = 0 \<and> sr_cur_read_byte z' = sr_buf z ! nat (sr_buf_rpos z)"
proof -
  have "mslice (sr_buf z) (nat (sr_buf_rpos z)) 1 = [sr_buf z ! nat (sr_buf_rpos z)]"
    using assms(2) by (simp add: mslice_def take_Suc_conv_app_nth)
  with assms show ?thesis
    by (auto simp: serial_fetch_def raw_read_buffer sr_wf_def)
qed

lemma pending_fresh:
  assumes "sr_bits_read z = 0 \<or> sr_bits_read z = 8" "pending_bits z \<noteq> []"
  shows "nat (sr_buf_rpos z) < length (sr_buf z)"
    "pending_bits z = byte_bits (sr_buf z ! nat (sr_buf_rpos z)) @
       concat (map byte_bits (drop (Suc (nat (sr_buf_rpos z))) (sr_buf z)))"
proof -
  show r: "nat (sr_buf_rpos z) < length (sr_buf z)"
    using assms by (cases "nat (sr_buf_rpos z) < length (sr_buf z)") (auto simp: pending_bits_def)
  show "pending_bits z = byte_bits (sr_buf z ! nat (sr_buf_rpos z)) @
       concat (map byte_bits (drop (Suc (nat (sr_buf_rpos z))) (sr_buf z)))"
    using assms(1) Cons_nth_drop_Suc [OF r, symmetric] by (auto simp: pending_bits_def)
qed

lemma drop_byte_bits_Cons: "k < 8 \<Longrightarrow> drop k (byte_bits w) = bit w k # drop (Suc k) (byte_bits w)"
  by (subst Cons_nth_drop_Suc [symmetric]) (simp_all add: byte_bits_def)

lemma read_bit_ok:
  assumes "sr_wf z" "pending_bits z = b # rest"
  shows "\<exists>z'. zcio_serial_read_bit z = Some (b, z') \<and> sr_wf z' \<and> pending_bits z' = rest \<and>
    sr_bit_stream z' = sr_bit_stream z"
proof (cases "sr_bits_read z = 0 \<or> sr_bits_read z = 8")
  case True
  note p = pending_fresh [OF True]
  obtain z1 where z1: "serial_fetch z = Some z1" "sr_wf z1" "sr_bit_stream z1 = sr_bit_stream z"
    "sr_buf z1 = sr_buf z" "nat (sr_buf_rpos z1) = Suc (nat (sr_buf_rpos z))" "sr_bits_read z1 = 0"
    "sr_cur_read_byte z1 = sr_buf z ! nat (sr_buf_rpos z)"
    using serial_fetch_ok [OF assms(1)] p(1) assms(2) by auto
  have "b # rest = bit (sr_cur_read_byte z1) 0 # drop 1 (byte_bits (sr_cur_read_byte z1)) @
      concat (map byte_bits (drop (nat (sr_buf_rpos z1)) (sr_buf z1)))"
    using p(2) assms(2) z1 drop_byte_bits_Cons [of 0] by simp
  with True z1 show ?thesis
    by (simp add: zcio_serial_read_bit_def sr_wf_def pending_bits_def)
next
  case False
  then have k: "sr_bits_read z < 8" using assms(1) by (auto simp: sr_wf_def)
  have "b = bit (sr_cur_read_byte z) (sr_bits_read z)"
    "rest = drop (Suc (sr_bits_read z)) (byte_bits (sr_cur_read_byte z)) @
       concat (map byte_bits (drop (nat (sr_buf_rpos z)) (sr_buf z)))"
    using assms(2) False k drop_byte_bits_Cons [OF k] by (simp_all add: pending_bits_def)
  with False k assms(1) show ?thesis
    by (auto simp: zcio_serial_read_bit_def sr_wf_def pending_bits_def)
qed

lemma read_bit_list_ok:
  "sr_wf z \<Longrightarrow> pending_bits z = bs @ rest \<Longrightarrow>
   \<exists>z'. read_bit_list z (length bs) = Some (bs, z') \<and> sr_wf z' \<and> pending_bits z' = rest \<and>
     sr_bit_stream z' = sr_bit_stream z"
proof (induction bs arbitrary: z)
  case (Cons b bs)
  obtain z1 where z1: "zcio_serial_read_bit z = Some (b, z1)" "sr_wf z1" "pending_bits z1 = bs @ rest"
    "sr_bit_stream z1 = sr_bit_stream z"
    using read_bit_ok [OF Cons.prems(1), of b "bs @ rest"] Cons.prems(2) by auto
  with Cons.IH [OF z1(2,3)] show ?case by auto
qed simp

lemma read_byte_ok:
  assumes "sr_wf z" "sr_bit_stream z" "pending_bits z = byte_bits w @ rest"
  shows "\<exists>z'. zcio_serial_read_byte z = Some (w, z') \<and> sr_wf z' \<and> pending_bits z' = rest \<and>
    sr_bit_stream z'"
proof (cases "sr_bits_read z > 0 \<and> sr_bits_read z < 8")
  case True
  with read_bit_list_ok [OF assms(1,3)] assms(2) show ?thesis
    by (auto simp: zcio_serial_read_byte_def or_bits_byte_bits)
next
  case False
  then have fresh: "sr_bits_read z = 0 \<or> sr_bits_read z = 8" using assms(1) by (auto simp: sr_wf_def)
  have "pending_bits z \<noteq> []" using assms(3) by (metis append_is_Nil_conv length_byte_bits list.size(3) zero_neq_numeral)
  note p = pending_fresh [OF fresh this]
  then have w: "w = sr_buf z ! nat (sr_buf_rpos z)"
    "rest = concat (map byte_bits (drop (Suc (nat (sr_buf_rpos z))) (sr_buf z)))"
    using assms(3) byte_bits_inj by (auto simp: append_eq_append_conv)
  with serial_fetch_ok [OF assms(1) p(1)] assms(2) False show ?thesis
    by (auto simp: zcio_serial_read_byte_def pending_bits_def)
qed

text \<open>A caller's script: single bits and whole bytes in any order.\<close>

datatype serial_item = SBit bool | SByte byte

primrec item_bits :: "serial_item \<Rightarrow> bool list" where
  "item_bits (SBit b) = [b]"
| "item_bits (SByte w) = byte_bits w"

fun write_items :: "'c zcio_serial \<Rightarrow> serial_item list \<Rightarrow> 'c zcio_serial option" where
  "write_items z [] = Some z"
| "write_items z (SBit b # is) = do { z1 \<leftarrow> zcio_serial_write_bit z b; write_items z1 is }"
| "write_items z (SByte w # is) = do { z1 \<leftarrow> zcio_serial_write_byte z w; write_items z1 is }"

text \<open>Reading back: one operation per item, of the item's kind.\<close>

fun read_items :: "'c zcio_serial \<Rightarrow> serial_item list \<Rightarrow> (serial_item list \<times> 'c zcio_serial) option" where
  "read_items z [] = Some ([], z)"
| "read_items z (SBit _ # is) =
     do { (b, z1) \<leftarrow> zcio_serial_read_bit z; (rs, z2) \<leftarrow> read_items z1 is; Some (SBit b # rs, z2) }"
| "read_items z (SByte _ # is) =
     do { (w, z1) \<leftarrow> zcio_serial_read_byte z; (rs, z2) \<leftarrow> read_items z1 is; Some (SByte w # rs, z2) }"

lemma write_items_ok:
  "sr_wf z \<Longrightarrow> sr_bit_stream z \<Longrightarrow>
   length (written_bits z) + length (concat (map item_bits is)) \<le> 8 * length (sr_buf z) \<Longrightarrow>
   \<exists>z'. write_items z is = Some z' \<and> sr_wf z' \<and> write_frame z z' \<and>
     written_bits z' = written_bits z @ concat (map item_bits is)"
proof (induction z "is" rule: write_items.induct)
  case (2 z b "is")
  obtain z1 where z1: "zcio_serial_write_bit z b = Some z1" "sr_wf z1" "write_frame z z1"
    "written_bits z1 = written_bits z @ [b]"
    using write_bit_ok [OF 2(2), of b] 2(4) by auto
  with 2(1) [OF z1(1,2)] 2(3,4) show ?case by (auto simp: write_frame_def)
next
  case (3 z w "is")
  obtain z1 where z1: "zcio_serial_write_byte z w = Some z1" "sr_wf z1" "write_frame z z1"
    "written_bits z1 = written_bits z @ byte_bits w"
    using write_byte_ok [OF 3(2,3), of w] 3(4) by auto
  with 3(1) [OF z1(1,2)] 3(3,4) show ?case by (auto simp: write_frame_def)
qed simp

lemma read_items_ok:
  "sr_wf z \<Longrightarrow> sr_bit_stream z \<Longrightarrow> pending_bits z = concat (map item_bits is) @ rest \<Longrightarrow>
   \<exists>z'. read_items z is = Some (is, z') \<and> sr_wf z' \<and> pending_bits z' = rest"
proof (induction z "is" rule: read_items.induct)
  case (2 z b "is")
  obtain z1 where z1: "zcio_serial_read_bit z = Some (b, z1)" "sr_wf z1"
    "pending_bits z1 = concat (map item_bits is) @ rest" "sr_bit_stream z1"
    using read_bit_ok [OF 2(2), of b] 2(3,4) by auto
  with 2(1) [OF z1(1) refl z1(2)] show ?case by auto
next
  case (3 z w "is")
  obtain z1 where z1: "zcio_serial_read_byte z = Some (w, z1)" "sr_wf z1"
    "pending_bits z1 = concat (map item_bits is) @ rest" "sr_bit_stream z1"
    using read_byte_ok [OF 3(2,3), of w] 3(4) by auto
  with 3(1) [OF z1(1) refl z1(2)] show ?case by auto
qed simp

subsection \<open>Scalars and strings\<close>

lemma word_le_val_take:
  "word_le_val (map (\<lambda>i. ucast (drop_bit (8 * i) w) :: byte) [0 ..< n]) = take_bit (8 * n) (w :: 'a :: len word)"
proof (induction n arbitrary: w)
  case (Suc n)
  have "map (\<lambda>i. ucast (drop_bit (8 * i) w) :: byte) [0 ..< Suc n] =
      ucast w # map (\<lambda>i. ucast (drop_bit (8 * i) (drop_bit 8 w)) :: byte) [0 ..< n]"
    by (simp add: upt_conv_Cons map_Suc_upt [symmetric] comp_def drop_bit_drop_bit ac_simps del: upt_Suc)
  then have "word_le_val (map (\<lambda>i. ucast (drop_bit (8 * i) w) :: byte) [0 ..< Suc n]) =
      ucast (ucast w :: byte) OR push_bit 8 (take_bit (8 * n) (drop_bit 8 w))"
    using Suc [of "drop_bit 8 w"] by (simp only: word_le_val.simps)
  also have "\<dots> = take_bit (8 * Suc n) w"
    by (rule bit_word_eqI) (auto simp: bit_simps possible_bit_def)
  finally show ?case .
qed simp

lemma word_of_bytes_word_bytes [simp]:
  fixes w :: "'a :: len word"
  assumes "8 dvd LENGTH('a)"
  shows "word_of_bytes le (word_bytes le w) = w"
proof -
  have "8 * (LENGTH('a) div 8) = LENGTH('a)" using assms by simp
  then show ?thesis
    using word_le_val_take [of w "LENGTH('a) div 8"]
    by (simp add: word_of_bytes_def word_bytes_def Let_def)
qed

lemma length_word_bytes [simp]: "length (word_bytes le (w :: 'a :: len word)) = LENGTH('a) div 8"
  by (simp add: word_bytes_def Let_def)

lemma memcpy_whole: "length m = length d \<Longrightarrow> memcpy m 0 d = d"
  by (simp add: memcpy_def)

text \<open>The unread bytes of a buffer-mode serializer and the block behind its write cursor.\<close>

definition sr_pending :: "'c zcio_serial \<Rightarrow> bytes" where
  "sr_pending z = drop (nat (sr_buf_rpos z)) (sr_buf z)"

lemma serial_read_prefix:
  assumes "sr_wf z" "sr_pending z = p @ rest"
  shows "\<exists>z'. serial_read z (length p) = Some (int (length p), p, z') \<and> sr_wf z' \<and>
    sr_pending z' = rest \<and> sr_buf_wpos z' = sr_buf_wpos z"
proof -
  have len: "length p \<le> length (sr_buf z) - nat (sr_buf_rpos z)"
    using assms(2) by (metis sr_pending_def length_append length_drop le_add1)
  have pos: "nat (sr_buf_rpos z + int (length p)) = nat (sr_buf_rpos z) + length p"
    using assms(1) by (simp add: sr_wf_def nat_add_distrib)
  have "mslice (sr_buf z) (nat (sr_buf_rpos z)) (length p) = p"
    using assms(2) by (simp add: mslice_def sr_pending_def)
  moreover have "drop (nat (sr_buf_rpos z) + length p) (sr_buf z) = rest"
    using assms(2) by (metis sr_pending_def append_eq_conv_conj drop_drop add.commute)
  moreover have "sr_mode z \<noteq> MODE_STREAM" using assms(1) by (simp add: sr_wf_def)
  ultimately show ?thesis
    using assms(1) len pos
    by (auto simp: serial_read_def raw_read_buffer sr_pending_def) (auto simp: sr_wf_def)
qed

lemma serial_write_at:
  assumes "sr_wf z" "length p \<le> length (sr_buf z) - nat (sr_buf_wpos z)"
  shows "serial_write z p = Some (int (length p),
      z\<lparr>sr_buf := memcpy (sr_buf z) (nat (sr_buf_wpos z)) p, sr_buf_wpos := sr_buf_wpos z + int (length p)\<rparr>)"
    and "sr_wf (z\<lparr>sr_buf := memcpy (sr_buf z) (nat (sr_buf_wpos z)) p,
      sr_buf_wpos := sr_buf_wpos z + int (length p)\<rparr>)"
  using assms by (auto simp: serial_write_def raw_write_buffer sr_wf_def)

lemma read_obj_prefix:
  fixes w :: "'a :: len word"
  assumes "sr_wf z" "sr_pending z = word_bytes le w @ rest" "8 dvd LENGTH('a)"
  shows "\<exists>z'. serial_read_obj le z = Some (int (LENGTH('a) div 8), w, z') \<and> sr_wf z' \<and>
    sr_pending z' = rest \<and> sr_buf_wpos z' = sr_buf_wpos z"
  using serial_read_prefix [OF assms(1,2)] assms(3)
  by (auto simp: serial_read_obj_def memcpy_whole)

lemma read_str_prefix:
  assumes "sr_wf z" "sr_pending z = word_bytes le (of_nat (length s) :: u64) @ s @ rest"
    and "length s < 2 ^ 63" "xmalloc (length s + 1)"
  shows "\<exists>z'. zcio_serial_read_str le xmalloc z = Some (Some s, z') \<and> sr_wf z' \<and> sr_pending z' = rest"
proof -
  let ?n = "of_nat (length s) :: u64"
  have n: "unat ?n = length s" using assms(3) by (simp add: unat_of_nat)
  obtain z1 where z1: "serial_read_obj le z = Some (8, ?n, z1)" "sr_wf z1" "sr_pending z1 = s @ rest"
    using read_obj_prefix [OF assms(1,2)] by auto
  have "length s \<le> length (sr_buf z1) - nat (sr_buf_rpos z1)"
    using z1(3) by (metis sr_pending_def length_append length_drop le_add1)
  then have fits: "\<not> read_str_too_long z1 (length s)"
    using z1(2) by (auto simp: read_str_too_long_def zcio_serial_read_len_def zcio_serial_read_pos_def
        sr_wf_def Let_def)
  have "length s \<noteq> 2 ^ 64 - 1" using assms(3) by simp
  with z1(1) n fits assms(4) have "zcio_serial_read_str le xmalloc z =
      (if s = [] then Some (Some [], z1)
       else do { (r2, d, z2) \<leftarrow> serial_read z1 (length s);
                 Some (if r2 < 0 then None else Some (take (nat r2) d), z2) })"
    by (simp add: zcio_serial_read_str_def Let_def)
  with serial_read_prefix [OF z1(2,3)] z1(2,3) show ?thesis by (cases "s = []") auto
qed

lemma write_str_at:
  assumes "sr_wf z" "8 + length s \<le> length (sr_buf z) - nat (sr_buf_wpos z)"
  shows "\<exists>z'. zcio_serial_write_str le z s = Some z' \<and> sr_wf z' \<and>
    sr_buf z' = memcpy (sr_buf z) (nat (sr_buf_wpos z)) (word_bytes le (of_nat (length s) :: u64) @ s) \<and>
    sr_buf_wpos z' = sr_buf_wpos z + int (8 + length s) \<and> sr_buf_rpos z' = sr_buf_rpos z"
proof -
  let ?h = "word_bytes le (of_nat (length s) :: u64)"
  let ?z1 = "z\<lparr>sr_buf := memcpy (sr_buf z) (nat (sr_buf_wpos z)) ?h,
      sr_buf_wpos := sr_buf_wpos z + int (length ?h)\<rparr>"
  have pos: "nat (sr_buf_wpos z + 8) = nat (sr_buf_wpos z) + 8"
    using assms(1) by (simp add: sr_wf_def nat_add_distrib)
  have h: "length ?h \<le> length (sr_buf z) - nat (sr_buf_wpos z)" using assms(2) by simp
  note w1 = serial_write_at [OF assms(1) h]
  have len: "length s \<le> length (sr_buf ?z1) - nat (sr_buf_wpos ?z1)"
    using assms(2) pos by simp
  note w2 = serial_write_at [OF w1(2) len]
  have "memcpy (memcpy (sr_buf z) (nat (sr_buf_wpos z)) ?h) (nat (sr_buf_wpos z) + 8) s =
      memcpy (sr_buf z) (nat (sr_buf_wpos z)) (?h @ s)"
    using memcpy_memcpy_adjacent [of "nat (sr_buf_wpos z)" ?h s "sr_buf z"] assms(2) by simp
  with w1 w2 pos show ?thesis
    by (cases "s = []") (auto simp: zcio_serial_write_str_def)
qed

subsection \<open>The sizing pass\<close>

datatype serial_wr = WByte byte | WBytes bytes | WStr bytes

fun run_wr :: "bool \<Rightarrow> 'c zcio_serial \<Rightarrow> serial_wr list \<Rightarrow> 'c zcio_serial option" where
  "run_wr le z [] = Some z"
| "run_wr le z (WByte w # os) = do { z1 \<leftarrow> zcio_serial_write_byte z w; run_wr le z1 os }"
| "run_wr le z (WBytes p # os) = do { (_, z1) \<leftarrow> serial_write z p; run_wr le z1 os }"
| "run_wr le z (WStr s # os) = do { z1 \<leftarrow> zcio_serial_write_str le z s; run_wr le z1 os }"

primrec wr_bytes :: "bool \<Rightarrow> serial_wr \<Rightarrow> bytes" where
  "wr_bytes le (WByte w) = [w]"
| "wr_bytes le (WBytes p) = p"
| "wr_bytes le (WStr s) = word_bytes le (of_nat (length s) :: u64) @ s"

lemma wr_step_count:
  assumes "sr_mode z = MODE_COUNT" "\<not> sr_bit_stream z"
  shows "\<exists>z1. run_wr le z (x # os) = run_wr le z1 os \<and> sr_mode z1 = MODE_COUNT \<and>
    \<not> sr_bit_stream z1 \<and> sr_count_total z1 = sr_count_total z + of_nat (length (wr_bytes le x))"
  using assms
  by (cases x) (auto simp: zcio_serial_write_byte_def serial_emit_def zcio_serial_write_str_def
      serial_write_def raw_write_def Let_def)

lemma run_wr_count:
  "sr_mode z = MODE_COUNT \<Longrightarrow> \<not> sr_bit_stream z \<Longrightarrow>
   \<exists>z'. run_wr le z os = Some z' \<and>
     sr_count_total z' = sr_count_total z + of_nat (length (concat (map (wr_bytes le) os)))"
proof (induction os arbitrary: z)
  case (Cons x os)
  from wr_step_count [OF Cons.prems, of le x os] Cons.IH show ?case by (force simp: add.assoc)
qed simp

text \<open>No bits are pending: byte writes go straight to the block.\<close>

definition sr_aligned :: "'c zcio_serial \<Rightarrow> bool" where
  "sr_aligned z \<longleftrightarrow> sr_wf z \<and> sr_bits_written z = 0"

lemma memcpy_take_append:
  "off + length p \<le> length m \<Longrightarrow> take (off + length p) (memcpy m off p) = take off m @ p"
  by (simp add: memcpy_def)

lemma run_wr_block:
  assumes "sr_aligned z" "length p \<le> length (sr_buf z) - nat (sr_buf_wpos z)"
    and "z' = z\<lparr>sr_buf := memcpy (sr_buf z) (nat (sr_buf_wpos z)) p,
                sr_buf_wpos := sr_buf_wpos z + int (length p)\<rparr>"
  shows "sr_aligned z'" "length (sr_buf z') = length (sr_buf z)"
    "nat (sr_buf_wpos z') = nat (sr_buf_wpos z) + length p"
    "take (nat (sr_buf_wpos z')) (sr_buf z') = take (nat (sr_buf_wpos z)) (sr_buf z) @ p"
proof -
  have z: "sr_wf z" "0 \<le> sr_buf_wpos z" "nat (sr_buf_wpos z) \<le> length (sr_buf z)"
    using assms(1) by (auto simp: sr_aligned_def sr_wf_def)
  show "sr_aligned z'"
    using serial_write_at(2) [OF z(1) assms(2)] assms(1,3) by (simp add: sr_aligned_def)
  show "length (sr_buf z') = length (sr_buf z)" using assms z by simp
  show pos: "nat (sr_buf_wpos z') = nat (sr_buf_wpos z) + length p"
    using assms(3) z by (simp add: nat_add_distrib)
  show "take (nat (sr_buf_wpos z')) (sr_buf z') = take (nat (sr_buf_wpos z)) (sr_buf z) @ p"
    unfolding pos using assms(2,3) z by (simp add: memcpy_take_append)
qed

lemma wr_step_block:
  assumes "sr_aligned z" "length (wr_bytes le x) \<le> length (sr_buf z) - nat (sr_buf_wpos z)"
  shows "\<exists>z1. run_wr le z (x # os) = run_wr le z1 os \<and> sr_aligned z1 \<and>
    length (sr_buf z1) = length (sr_buf z) \<and>
    nat (sr_buf_wpos z1) = nat (sr_buf_wpos z) + length (wr_bytes le x) \<and>
    take (nat (sr_buf_wpos z1)) (sr_buf z1) = take (nat (sr_buf_wpos z)) (sr_buf z) @ wr_bytes le x"
proof (cases x)
  case (WByte w)
  have "sr_cur_write_byte z = 0" using assms(1) by (intro bit_word_eqI) (auto simp: sr_aligned_def sr_wf_def)
  then have clr: "z\<lparr>sr_buf := b, sr_buf_wpos := q, sr_cur_write_byte := 0, sr_bits_written := 0\<rparr> =
      z\<lparr>sr_buf := b, sr_buf_wpos := q\<rparr>" for b q
    using assms(1) by (simp add: sr_aligned_def)
  with WByte assms run_wr_block [OF assms refl] show ?thesis
    by (auto simp: zcio_serial_write_byte_def serial_emit_def raw_write_buffer sr_aligned_def clr)
next
  case (WBytes p)
  with assms run_wr_block [OF assms refl] serial_write_at [of z p] show ?thesis
    by (auto simp: sr_aligned_def)
next
  case (WStr s)
  let ?h = "word_bytes le (of_nat (length s) :: u64)"
  have z: "sr_wf z" using assms(1) by (simp add: sr_aligned_def)
  have h: "length ?h \<le> length (sr_buf z) - nat (sr_buf_wpos z)" using assms(2) WStr by simp
  note w1 = serial_write_at [OF z h] and b1 = run_wr_block [OF assms(1) h refl]
  let ?z1 = "z\<lparr>sr_buf := memcpy (sr_buf z) (nat (sr_buf_wpos z)) ?h,
      sr_buf_wpos := sr_buf_wpos z + int (length ?h)\<rparr>"
  have s: "length s \<le> length (sr_buf ?z1) - nat (sr_buf_wpos ?z1)"
    unfolding b1(2,3) using assms(2) WStr by simp
  note w2 = serial_write_at(1) [OF w1(2) s] and b2 = run_wr_block [OF b1(1) s refl]
  show ?thesis
  proof (cases "s = []")
    case True
    with w1 b1 WStr show ?thesis by (auto simp: zcio_serial_write_str_def)
  next
    case False
    let ?z2 = "?z1\<lparr>sr_buf := memcpy (sr_buf ?z1) (nat (sr_buf_wpos ?z1)) s,
      sr_buf_wpos := sr_buf_wpos ?z1 + int (length s)\<rparr>"
    have "run_wr le z (x # os) = run_wr le ?z2 os"
      using False w1(1) w2 WStr by (simp add: zcio_serial_write_str_def)
    moreover have "nat (sr_buf_wpos ?z2) = nat (sr_buf_wpos z) + length (wr_bytes le x)"
      using b1(3) b2(3) WStr by simp
    moreover have "take (nat (sr_buf_wpos ?z2)) (sr_buf ?z2) =
        take (nat (sr_buf_wpos z)) (sr_buf z) @ wr_bytes le x"
      using b1(4) b2(4) WStr by (simp only: wr_bytes.simps append_assoc)
    ultimately show ?thesis using b1(2) b2(1,2) by metis
  qed
qed

lemma run_wr_buffer:
  "sr_aligned z \<Longrightarrow>
   nat (sr_buf_wpos z) + length (concat (map (wr_bytes le) os)) \<le> length (sr_buf z) \<Longrightarrow>
   \<exists>z'. run_wr le z os = Some z' \<and> sr_aligned z' \<and>
     nat (sr_buf_wpos z') = nat (sr_buf_wpos z) + length (concat (map (wr_bytes le) os)) \<and>
     take (nat (sr_buf_wpos z')) (sr_buf z') =
       take (nat (sr_buf_wpos z)) (sr_buf z) @ concat (map (wr_bytes le) os)"
proof (induction os arbitrary: z)
  case (Cons x os)
  have "length (wr_bytes le x) \<le> length (sr_buf z) - nat (sr_buf_wpos z)" using Cons.prems(2) by simp
  from wr_step_block [OF Cons.prems(1) this, of os] obtain z1 where
    z1: "run_wr le z (x # os) = run_wr le z1 os" "sr_aligned z1" "length (sr_buf z1) = length (sr_buf z)"
    "nat (sr_buf_wpos z1) = nat (sr_buf_wpos z) + length (wr_bytes le x)"
    "take (nat (sr_buf_wpos z1)) (sr_buf z1) = take (nat (sr_buf_wpos z)) (sr_buf z) @ wr_bytes le x"
    by blast
  with Cons.IH [OF z1(2)] Cons.prems(2) show ?case by (simp add: add.assoc)
qed simp

subsection \<open>Every operation is defined on a buffer\<close>

lemma serial_emit_wf:
  assumes "sr_wf z"
  shows "\<exists>z'. serial_emit (z\<lparr>sr_cur_write_byte := x, sr_bits_written := k\<rparr>) w = Some z' \<and> sr_wf z'"
proof -
  let ?u = "z\<lparr>sr_cur_write_byte := x, sr_bits_written := k\<rparr>"
  have "serial_cap ?u (sr_buf_wpos ?u) = length (sr_buf z) - nat (sr_buf_wpos z)"
    using sr_wf_cap(1) [OF assms] by (simp add: serial_cap_def)
  then show ?thesis
    using assms by (auto simp: serial_emit_def raw_write_def serial_in_block_def sr_wf_def)
qed

lemma write_bit_wf: "sr_wf z \<Longrightarrow> \<exists>z'. zcio_serial_write_bit z b = Some z' \<and> sr_wf z'"
  using serial_emit_wf [of z]
  by (cases "sr_bits_written z = 7")
    (auto simp: zcio_serial_write_bit_def Let_def sr_wf_def bit_or_push)

lemma write_bit_list_wf: "sr_wf z \<Longrightarrow> \<exists>z'. write_bit_list z bs = Some z' \<and> sr_wf z'"
proof (induction bs arbitrary: z)
  case (Cons b bs)
  then show ?case using write_bit_wf [OF Cons.prems, of b] by auto
qed simp

lemma write_byte_wf: "sr_wf z \<Longrightarrow> \<exists>z'. zcio_serial_write_byte z w = Some z' \<and> sr_wf z'"
  using write_bit_list_wf serial_emit_wf [of z "sr_bits_written z" "sr_cur_write_byte z" w]
  by (auto simp: zcio_serial_write_byte_def)

lemma serial_fetch_wf: "sr_wf z \<Longrightarrow> \<exists>z'. serial_fetch z = Some z' \<and> sr_wf z' \<and> sr_bits_read z' = 0"
  using raw_read_wf [of z 1] by (auto simp: serial_fetch_def sr_wf_def)

lemma read_bit_wf: "sr_wf z \<Longrightarrow> \<exists>b z'. zcio_serial_read_bit z = Some (b, z') \<and> sr_wf z'"
  using serial_fetch_wf [of z]
  by (cases "sr_bits_read z = 0 \<or> sr_bits_read z = 8") (auto simp: zcio_serial_read_bit_def sr_wf_def)

lemma read_bit_list_wf: "sr_wf z \<Longrightarrow> \<exists>bs z'. read_bit_list z n = Some (bs, z') \<and> sr_wf z'"
proof (induction n arbitrary: z)
  case (Suc n)
  then show ?case using read_bit_wf [OF Suc.prems] by fastforce
qed simp

lemma read_byte_wf: "sr_wf z \<Longrightarrow> \<exists>w z'. zcio_serial_read_byte z = Some (w, z') \<and> sr_wf z'"
  using read_bit_list_wf [of z 8] serial_fetch_wf [of z] by (auto simp: zcio_serial_read_byte_def)

lemma serial_write_wf: "sr_wf z \<Longrightarrow> \<exists>r z'. serial_write z p = Some (r, z') \<and> sr_wf z'"
  using raw_write_wf [of z p] by (auto simp: serial_write_def sr_wf_def)

lemma serial_read_wf: "sr_wf z \<Longrightarrow> \<exists>r d z'. serial_read z n = Some (r, d, z') \<and> sr_wf z'"
  using raw_read_wf [of z n] by (auto simp: serial_read_def sr_wf_def)

lemma write_str_wf: "sr_wf z \<Longrightarrow> \<exists>z'. zcio_serial_write_str le z s = Some z' \<and> sr_wf z'"
  using serial_write_wf [of z "word_bytes le (of_nat (length s) :: u64)"] serial_write_wf [of _ s]
  by (fastforce simp: zcio_serial_write_str_def)

lemma read_str_wf:
  assumes "sr_wf z"
  shows "\<exists>s z'. zcio_serial_read_str le xmalloc z = Some (s, z') \<and> sr_wf z'"
proof -
  obtain r d z1 where z1: "serial_read z 8 = Some (r, d, z1)" "sr_wf z1"
    using serial_read_wf [OF assms] by blast
  let ?n = "unat (word_of_bytes le (memcpy (replicate 8 0) 0 d) :: u64)"
  obtain r2 d2 z2 where z2: "serial_read z1 ?n = Some (r2, d2, z2)" "sr_wf z2"
    using serial_read_wf [OF z1(2)] by blast
  have "\<exists>s. zcio_serial_read_str le xmalloc z = Some (s, z1) \<or> zcio_serial_read_str le xmalloc z = Some (s, z2)"
    using z1(1) z2(1) by (auto simp: zcio_serial_read_str_def serial_read_obj_def Let_def)
  then show ?thesis using z1(2) z2(2) by blast
qed

lemma synchronize_wf:
  assumes "sr_wf z"
  shows "\<exists>z'. zcio_serial_synchronize z = Some z' \<and> sr_wf z'"
  using serial_emit_wf [OF assms, of 8 "sr_cur_write_byte z" "sr_cur_write_byte z"] assms
  by (auto simp: zcio_serial_synchronize_def zcio_serial_write_byte_def sr_wf_def)

lemmas serial_ops_wf = write_bit_wf write_byte_wf serial_write_wf write_str_wf read_bit_wf read_byte_wf
  serial_read_wf read_str_wf synchronize_wf

datatype serial_op =
    OpWriteBit bool | OpWriteByte byte | OpWriteBytes bytes | OpWriteStr bytes | OpReadBit
  | OpReadByte | OpReadBytes nat | OpReadStr | OpSynchronize

text \<open>The state after an operation; its result is dropped.\<close>

primrec serial_run :: "bool \<Rightarrow> (nat \<Rightarrow> bool) \<Rightarrow> 'c zcio_serial \<Rightarrow> serial_op \<Rightarrow> 'c zcio_serial option" where
  "serial_run le m z (OpWriteBit b) = zcio_serial_write_bit z b"
| "serial_run le m z (OpWriteByte w) = zcio_serial_write_byte z w"
| "serial_run le m z (OpWriteBytes p) = map_option snd (serial_write z p)"
| "serial_run le m z (OpWriteStr s) = zcio_serial_write_str le z s"
| "serial_run le m z OpReadBit = map_option snd (zcio_serial_read_bit z)"
| "serial_run le m z OpReadByte = map_option snd (zcio_serial_read_byte z)"
| "serial_run le m z (OpReadBytes n) = map_option (snd \<circ> snd) (serial_read z n)"
| "serial_run le m z OpReadStr = map_option snd (zcio_serial_read_str le m z)"
| "serial_run le m z OpSynchronize = zcio_serial_synchronize z"

primrec serial_runs :: "bool \<Rightarrow> (nat \<Rightarrow> bool) \<Rightarrow> 'c zcio_serial \<Rightarrow> serial_op list \<Rightarrow> 'c zcio_serial option" where
  "serial_runs le m z [] = Some z"
| "serial_runs le m z (x # xs) = do { z1 \<leftarrow> serial_run le m z x; serial_runs le m z1 xs }"

lemma serial_run_wf: "sr_wf z \<Longrightarrow> \<exists>z'. serial_run le m z x = Some z' \<and> sr_wf z'"
  using serial_write_wf serial_read_wf [of z] read_str_wf [of z le m]
  by (cases x) (auto dest: read_bit_wf read_byte_wf
      simp: write_byte_wf write_bit_wf write_str_wf synchronize_wf, (meson | blast)+)

lemma serial_runs_wf: "sr_wf z \<Longrightarrow> \<exists>z'. serial_runs le m z xs = Some z' \<and> sr_wf z'"
proof (induction xs arbitrary: z)
  case (Cons x xs)
  then show ?case using serial_run_wf [OF Cons.prems, of le m x] by auto
qed simp

subsection \<open>Properties\<close>

text \<open>
  C31. Bits and bytes interleave: over a fresh bit-packed buffer, any script of single bits and whole
  bytes that fits is written, flushed by \<open>zcio_serial_synchronize\<close>, and read back unchanged by the
  same sequence of bit and byte reads, at whatever bit offset each byte falls.
\<close>

theorem serial_bits_bytes_roundtrip:
  assumes "zcio_serial_new_buffer True (Some buf) (int (length buf)) True = Some z"
    and "length buf < 2 ^ 63" "length (concat (map item_bits is)) \<le> 8 * length buf"
  shows "\<exists>z1 z2 z3. write_items z is = Some z1 \<and> zcio_serial_synchronize z1 = Some z2 \<and>
    read_items z2 is = Some (is, z3)"
proof -
  have z: "sr_wf z" "sr_bit_stream z" "written_bits z = []" "sr_buf z = buf" "sr_bits_read z = 8"
      "sr_buf_rpos z = 0"
    using assms(1) serial_new_buffer_wf [OF assms(1,2)]
    by (auto simp: zcio_serial_new_buffer_def serial_zero_def written_bits_def)
  obtain z1 where z1: "write_items z is = Some z1" "sr_wf z1" "write_frame z z1"
    "written_bits z1 = concat (map item_bits is)"
    using write_items_ok [OF z(1,2), of "is"] z assms(3) by auto
  have "length (written_bits z1) \<le> 8 * length (sr_buf z1)"
    using z1 z assms(3) by (simp add: write_frame_def)
  from synchronize_ok [OF z1(2) this] obtain z2 pad where
    z2: "zcio_serial_synchronize z1 = Some z2" "sr_wf z2" "write_frame z1 z2"
    "written_bits z2 = concat (map item_bits is) @ pad" "sr_bits_written z2 = 0"
    using z1(4) by auto
  have fr: "sr_bits_read z2 = 8" "sr_buf_rpos z2 = 0" "sr_bit_stream z2"
    using z1(3) z2(3) z by (auto simp: write_frame_def)
  have "pending_bits z2 = concat (map byte_bits (take (nat (sr_buf_wpos z2)) (sr_buf z2))) @
      concat (map byte_bits (drop (nat (sr_buf_wpos z2)) (sr_buf z2)))"
    using fr by (simp add: pending_bits_def flip: concat_append map_append)
  also have "concat (map byte_bits (take (nat (sr_buf_wpos z2)) (sr_buf z2))) = written_bits z2"
    using z2(5) by (simp add: written_bits_def)
  finally have "\<exists>rest. pending_bits z2 = concat (map item_bits is) @ rest" using z2(4) by auto
  then show ?thesis using read_items_ok [OF z2(2) fr(3)] z1(1) z2(1) by blast
qed

theorem serial_bits_bytes_roundtrip_witness:
  "\<exists>z z1 z2 z3. zcio_serial_new_buffer True (Some [0, 0]) 2 True = Some (z :: unit zcio_serial) \<and>
     write_items z [SBit True, SByte 200] = Some z1 \<and> zcio_serial_synchronize z1 = Some z2 \<and>
     read_items z2 [SBit True, SByte 200] = Some ([SBit True, SByte 200], z3)"
proof -
  obtain z :: "unit zcio_serial" where z: "zcio_serial_new_buffer True (Some [0, 0]) 2 True = Some z"
    by (simp add: zcio_serial_new_buffer_def)
  then have "zcio_serial_new_buffer True (Some [0, 0]) (int (length [0, 0 :: byte])) True = Some z" by simp
  from serial_bits_bytes_roundtrip [OF this, of "[SBit True, SByte 200]"] z show ?thesis by auto
qed

text \<open>
  Length-prefixed strings round trip: with room for the eight-byte prefix and the bytes, and the
  read cursor at the place written, \<open>zcio_serial_read_str\<close> returns exactly the string that
  \<open>zcio_serial_write_str\<close> stored, on either byte order, when the allocator grants its copy.
\<close>

theorem serial_str_roundtrip:
  assumes "sr_wf z" "sr_buf_rpos z = sr_buf_wpos z"
    and "8 + length s \<le> length (sr_buf z) - nat (sr_buf_wpos z)" "xmalloc (length s + 1)"
  shows "\<exists>z1 z2. zcio_serial_write_str le z s = Some z1 \<and>
    zcio_serial_read_str le xmalloc z1 = Some (Some s, z2)"
proof -
  let ?b = "word_bytes le (of_nat (length s) :: u64) @ s"
  obtain z1 where z1: "zcio_serial_write_str le z s = Some z1" "sr_wf z1"
    "sr_buf z1 = memcpy (sr_buf z) (nat (sr_buf_wpos z)) ?b" "sr_buf_rpos z1 = sr_buf_wpos z"
    using write_str_at [OF assms(1,3), of le] assms(2) by auto
  have "sr_pending z1 = ?b @ drop (nat (sr_buf_wpos z) + length ?b) (sr_buf z)"
    using z1(3,4) assms(3) by (simp add: sr_pending_def memcpy_def)
  moreover have "length (sr_buf z) < 2 ^ 63" using assms(1) by (simp add: sr_wf_def)
  then have "length s < 2 ^ 63" using assms(3) by linarith
  ultimately show ?thesis
    using read_str_prefix [where xmalloc = xmalloc and s = s and le = le, OF z1(2)] z1(1) assms(4) by auto
qed





text \<open>
  \<open>zcio_serial_set_write_pos\<close> does not check its argument, and past the end of the block the
  remaining capacity \<open>buf_size - buf_wpos\<close> wraps to a huge value: the next write passes the
  overflow check and copies outside the caller's block.
\<close>

lemma serial_set_write_pos_escapes:
  assumes "sr_wf z" "length (sr_buf z) < i" "i < 2 ^ 63" "0 < length p" "length p < 2 ^ 63"
  shows "serial_write (zcio_serial_set_write_pos z i) p = None"
proof -
  let ?z = "zcio_serial_set_write_pos z i"
  have z: "sr_mode ?z = MODE_BUFFER" "sr_buf ?z = sr_buf z" "sr_buf_wpos ?z = int i"
      "sr_buf_size ?z = int (length (sr_buf z))"
    using assms(1,3) by (auto simp: zcio_serial_set_write_pos_def sr_wf_def to_i64_small)
  let ?d = "int (length (sr_buf z)) - int i"
  have "(word_of_int (int (length (sr_buf z))) - word_of_int (int i) :: u64) = word_of_int ?d" by simp
  moreover have "uint (word_of_int ?d :: u64) = ?d mod 2 ^ 64"
    by (simp only: uint_word_of_int) simp
  moreover have "?d mod 2 ^ 64 = ?d + 2 ^ 64"
  proof -
    have "?d mod 2 ^ 64 = (?d + 2 ^ 64) mod 2 ^ 64" by simp
    also have "\<dots> = ?d + 2 ^ 64" using assms(2,3) by (intro mod_pos_pos_trivial) auto
    finally show ?thesis .
  qed
  ultimately have "serial_cap ?z (sr_buf_wpos ?z) = nat (?d + 2 ^ 64)"
    unfolding serial_cap_def z by (simp only: unat_eq_nat_uint)
  then have "\<not> length p > serial_cap ?z (sr_buf_wpos ?z)" using assms(3,5) by simp
  moreover have "\<not> serial_in_block ?z (sr_buf_wpos ?z) (length p)"
    using z assms(2) by (simp add: serial_in_block_def)
  ultimately show ?thesis using z by (simp add: serial_write_def raw_write_def Let_def)
qed

end
