(* ===== verification/Zc_HttpUtil.thy ===== *)
theory Zc_HttpUtil
  imports Zc_Prelude "HOL-Library.Monad_Syntax"
begin

text \<open>
  The plumbing shared by the HTTP modules (\<open>src/http_util.c\<close>, \<open>src/http_internal.h\<close>): the
  growable byte buffer, the resolved limits, the bounded header list, the token, value and UTF-8
  validators, the request-target decoder and the formatting tables.
\<close>

text \<open>
  \<open>allocator\<close>: whether a request for so many bytes is granted. A function that fails returns its
  code on the left.
\<close>

text \<open>The private functions of these modules end in an underscore in the source, which a name here cannot.\<close>

type_synonym allocator = "nat \<Rightarrow> bool"

subsection \<open>The growable byte buffer\<close>

text \<open>
  \<open>zb_data\<close> holds the first \<open>len\<close> bytes of the block; the bytes between \<open>len\<close> and \<open>cap\<close> are
  never read before they are written.
\<close>

record zhs_buf =
  zb_data :: bytes
  zb_off :: nat
  zb_cap :: nat

definition zhs_buf_zero :: zhs_buf where
  "zhs_buf_zero = \<lparr>zb_data = [], zb_off = 0, zb_cap = 0\<rparr>"

definition ZHS_AVAIL :: "zhs_buf \<Rightarrow> nat" where
  "ZHS_AVAIL b = szsub (length (zb_data b)) (zb_off b)"

text \<open>The readable region \<open>[off, len)\<close>.\<close>

definition ZHS_PTR :: "zhs_buf \<Rightarrow> bytes" where
  "ZHS_PTR b = drop (zb_off b) (zb_data b)"

text \<open>The doubling loop; it is entered with a positive capacity.\<close>

function grow_cap :: "nat \<Rightarrow> nat \<Rightarrow> nat" where
  "grow_cap cap need =
     (if cap < need \<and> 0 < cap
      then (if cap > SIZE_MAX div 2 then need else grow_cap (cap * 2) need)
      else cap)"
  by pat_completeness auto
termination
  by (relation "measure (\<lambda>(cap, need). need - cap)") auto

declare grow_cap.simps [simp del]

definition zhs_buf_reserve :: "allocator \<Rightarrow> zhs_buf \<Rightarrow> nat \<Rightarrow> zcio_result \<times> zhs_buf" where
  "zhs_buf_reserve alloc b extra =
     (if extra > SIZE_MAX - length (zb_data b) then (ZCIO_ERR_NOMEM, b)
      else let need = length (zb_data b) + extra in
        if need \<le> zb_cap b then (ZCIO_OK, b)
        else let cap = grow_cap (if zb_cap b \<noteq> 0 then zb_cap b else 256) need in
          if \<not> alloc cap then (ZCIO_ERR_NOMEM, b)
          else (ZCIO_OK, b\<lparr>zb_cap := cap\<rparr>))"

definition zhs_buf_append :: "allocator \<Rightarrow> zhs_buf \<Rightarrow> bytes \<Rightarrow> zcio_result \<times> zhs_buf" where
  "zhs_buf_append alloc b src =
     (if length src = 0 then (ZCIO_OK, b)
      else case zhs_buf_reserve alloc b (length src) of
        (r, b1) \<Rightarrow> if r \<noteq> ZCIO_OK then (r, b1)
                   else (ZCIO_OK, b1\<lparr>zb_data := zb_data b1 @ src\<rparr>))"

definition zhs_buf_append_str :: "allocator \<Rightarrow> zhs_buf \<Rightarrow> bytes \<Rightarrow> zcio_result \<times> zhs_buf" where
  "zhs_buf_append_str alloc b s = zhs_buf_append alloc b s"

definition zhs_buf_append_u8 :: "allocator \<Rightarrow> zhs_buf \<Rightarrow> byte \<Rightarrow> zcio_result \<times> zhs_buf" where
  "zhs_buf_append_u8 alloc b v = zhs_buf_append alloc b [v]"

definition zhs_buf_consume :: "zhs_buf \<Rightarrow> nat \<Rightarrow> zhs_buf" where
  "zhs_buf_consume b n0 =
     (let n = (if n0 > ZHS_AVAIL b then ZHS_AVAIL b else n0);
          b1 = b\<lparr>zb_off := zb_off b + n\<rparr>;
          off = zb_off b1; len = length (zb_data b1)
      in if off = len then b1\<lparr>zb_off := 0, zb_data := []\<rparr>
         else if off \<ge> 4096 \<and> off \<ge> szsub len off
         then b1\<lparr>zb_data := drop off (zb_data b1), zb_off := 0\<rparr>
         else b1)"

definition zhs_buf_reset :: "zhs_buf \<Rightarrow> zhs_buf" where
  "zhs_buf_reset b = b\<lparr>zb_off := 0, zb_data := []\<rparr>"

definition zhs_buf_free :: "zhs_buf \<Rightarrow> zhs_buf" where
  "zhs_buf_free b = zhs_buf_zero"

definition zb_wf :: "zhs_buf \<Rightarrow> bool" where
  "zb_wf b \<longleftrightarrow> zb_off b \<le> length (zb_data b) \<and> length (zb_data b) \<le> zb_cap b \<and> zb_cap b \<le> SIZE_MAX"

lemma grow_cap_ge: "0 < cap \<Longrightarrow> need \<le> grow_cap cap need"
  by (induction cap need rule: grow_cap.induct) (subst grow_cap.simps, auto)

lemma grow_cap_le: "need \<le> SIZE_MAX \<Longrightarrow> cap \<le> SIZE_MAX \<Longrightarrow> grow_cap cap need \<le> SIZE_MAX"
  by (induction cap need rule: grow_cap.induct) (subst grow_cap.simps, auto)

lemma grow_cap_double: "0 < cap \<Longrightarrow> cap < need \<Longrightarrow> grow_cap cap need < 2 * need"
  by (induction cap need rule: grow_cap.induct)
    (subst grow_cap.simps, auto, metis grow_cap.simps linorder_neqE_nat nat_mult_less_cancel_disj
      less_irrefl mult.commute zero_less_numeral)

lemma zb_avail_length: "zb_wf b \<Longrightarrow> ZHS_AVAIL b = length (ZHS_PTR b)"
  by (simp add: ZHS_AVAIL_def ZHS_PTR_def zb_wf_def)

lemma reserve_wf:
  assumes "zb_wf b" "zhs_buf_reserve alloc b n = (r, b')"
  shows "zb_wf b' \<and> zb_data b' = zb_data b \<and> zb_off b' = zb_off b \<and>
    (r = ZCIO_OK \<longrightarrow> length (zb_data b) + n \<le> zb_cap b')"
proof -
  let ?need = "length (zb_data b) + n" and ?c = "if zb_cap b \<noteq> 0 then zb_cap b else 256"
  have c: "0 < ?c" "?c \<le> SIZE_MAX" using assms(1) by (auto simp: zb_wf_def SIZE_MAX_def)
  have "?need \<le> grow_cap ?c ?need" using grow_cap_ge [OF c(1)] .
  moreover have "?need \<le> SIZE_MAX \<Longrightarrow> grow_cap ?c ?need \<le> SIZE_MAX" using grow_cap_le c(2) by blast
  ultimately show ?thesis
    using assms by (auto simp: zhs_buf_reserve_def zb_wf_def Let_def not_less split: if_splits)
qed

lemma append_ok:
  assumes "zb_wf b" "zhs_buf_append alloc b s = (r, b')"
  shows "zb_wf b' \<and> ZHS_PTR b' = (if r = ZCIO_OK then ZHS_PTR b @ s else ZHS_PTR b)"
proof (cases "s = []")
  case True
  with assms show ?thesis by (auto simp: zhs_buf_append_def)
next
  case False
  obtain r1 b1 where rs: "zhs_buf_reserve alloc b (length s) = (r1, b1)" by fastforce
  from reserve_wf [OF assms(1) rs] False assms show ?thesis
    by (auto simp: zhs_buf_append_def rs zb_wf_def ZHS_PTR_def split: if_splits)
qed

lemma consume_ok:
  assumes "zb_wf b"
  shows "zb_wf (zhs_buf_consume b n) \<and> ZHS_PTR (zhs_buf_consume b n) = drop n (ZHS_PTR b)"
proof -
  let ?n = "if n > ZHS_AVAIL b then ZHS_AVAIL b else n"
  have n: "zb_off b + ?n \<le> length (zb_data b)" "drop ?n (ZHS_PTR b) = drop n (ZHS_PTR b)"
    using assms by (auto simp: zb_avail_length) (auto simp: ZHS_PTR_def zb_wf_def)
  have "drop (zb_off b + ?n) (zb_data b) = drop n (ZHS_PTR b)"
    using n(2) by (simp add: ZHS_PTR_def add.commute)
  with n(1) assms show ?thesis
    unfolding zhs_buf_consume_def Let_def by (auto simp: zb_wf_def ZHS_PTR_def)
qed

text \<open>Compaction: what stays in front of the readable bytes is small or shorter than them.\<close>

lemma consume_dead_prefix:
  assumes "zb_wf b" "b' = zhs_buf_consume b n"
  shows "zb_off b' < 4096 \<or> zb_off b' < length (ZHS_PTR b')"
proof -
  let ?n = "if n > ZHS_AVAIL b then ZHS_AVAIL b else n"
  have "zb_off b + ?n \<le> length (zb_data b)"
    using assms(1) by (auto simp: zb_avail_length) (auto simp: ZHS_PTR_def zb_wf_def)
  then show ?thesis
    unfolding assms(2) zhs_buf_consume_def Let_def by (auto simp: ZHS_PTR_def)
qed

text \<open>
  What the protocol modules rely on: a buffer whose readable bytes are a queue. A failed append
  leaves the queue alone.
\<close>

locale byte_fifo =
  fixes fifo_invar :: "'b \<Rightarrow> bool"
    and view :: "'b \<Rightarrow> bytes"
    and push :: "'b \<Rightarrow> bytes \<Rightarrow> zcio_result \<times> 'b"
    and pop :: "'b \<Rightarrow> nat \<Rightarrow> 'b"
  assumes push_law: "fifo_invar b \<Longrightarrow> push b s = (r, b') \<Longrightarrow>
      fifo_invar b' \<and> view b' = (if r = ZCIO_OK then view b @ s else view b)"
    and pop_law: "fifo_invar b \<Longrightarrow> fifo_invar (pop b n) \<and> view (pop b n) = drop n (view b)"
begin

lemma push_pop:
  "fifo_invar b \<Longrightarrow> view b = [] \<Longrightarrow> push b s = (ZCIO_OK, b') \<Longrightarrow> n \<le> length s \<Longrightarrow>
     view (pop b' n) = drop n s"
  using push_law [of b s ZCIO_OK b'] pop_law [of b' n] by simp

end

interpretation zb: byte_fifo zb_wf ZHS_PTR "zhs_buf_append alloc" zhs_buf_consume
proof
  show "zb_wf b' \<and> ZHS_PTR b' = (if r = ZCIO_OK then ZHS_PTR b @ s else ZHS_PTR b)"
    if "zb_wf b" "zhs_buf_append alloc b s = (r, b')" for b s r b'
    using that by (rule append_ok)
  show "zb_wf (zhs_buf_consume b n) \<and> ZHS_PTR (zhs_buf_consume b n) = drop n (ZHS_PTR b)"
    if "zb_wf b" for b n
    using that by (rule consume_ok)
qed

text \<open>
  The idiom \<open>r = f(b); if (r != ZCIO_OK) return r; return g(b);\<close>, and what a writer composed
  this way puts at the back of its buffer when it succeeds.
\<close>

definition and_then ::
  "zcio_result \<times> zhs_buf \<Rightarrow> (zhs_buf \<Rightarrow> zcio_result \<times> zhs_buf) \<Rightarrow> zcio_result \<times> zhs_buf" where
  "and_then p f = (case p of (r, b) \<Rightarrow> if r \<noteq> ZCIO_OK then (r, b) else f b)"

definition writes :: "(zhs_buf \<Rightarrow> zcio_result \<times> zhs_buf) \<Rightarrow> bytes \<Rightarrow> bool" where
  "writes f s \<longleftrightarrow> (\<forall>b r b'. zb_wf b \<longrightarrow> f b = (r, b') \<longrightarrow>
     zb_wf b' \<and> (r = ZCIO_OK \<longrightarrow> ZHS_PTR b' = ZHS_PTR b @ s) \<and> (r = ZCIO_OK \<or> r = ZCIO_ERR_NOMEM))"

lemma reserve_code: "zhs_buf_reserve alloc b n = (r, b') \<Longrightarrow> r = ZCIO_OK \<or> r = ZCIO_ERR_NOMEM"
  by (auto simp: zhs_buf_reserve_def Let_def split: if_splits)

lemma append_code: "zhs_buf_append alloc b s = (r, b') \<Longrightarrow> r = ZCIO_OK \<or> r = ZCIO_ERR_NOMEM"
  by (auto simp: zhs_buf_append_def split: if_splits prod.splits dest: reserve_code)

lemma writes_append: "writes (\<lambda>b. zhs_buf_append alloc b s) s"
  using zb.push_law append_code by (auto simp: writes_def)

lemma writes_append_u8: "writes (\<lambda>b. zhs_buf_append_u8 alloc b v) [v]"
  using writes_append [of alloc "[v]"] by (simp add: zhs_buf_append_u8_def)

lemma writes_append_str: "writes (\<lambda>b. zhs_buf_append_str alloc b s) s"
  using writes_append [of alloc s] by (simp add: zhs_buf_append_str_def)

lemma writes_then: "writes f s \<Longrightarrow> writes g t \<Longrightarrow> writes (\<lambda>b. and_then (f b) g) (s @ t)"
  (is "_ \<Longrightarrow> _ \<Longrightarrow> writes ?h _")
proof -
  assume f: "writes f s" and g: "writes g t"
  have "zb_wf b' \<and> (r = ZCIO_OK \<longrightarrow> ZHS_PTR b' = ZHS_PTR b @ s @ t) \<and> (r = ZCIO_OK \<or> r = ZCIO_ERR_NOMEM)"
    if "zb_wf b" "?h b = (r, b')" for b r b'
  proof -
    obtain q c where fb: "f b = (q, c)" by fastforce
    have c: "zb_wf c" "q = ZCIO_OK \<Longrightarrow> ZHS_PTR c = ZHS_PTR b @ s" "q = ZCIO_OK \<or> q = ZCIO_ERR_NOMEM"
      using f that(1) fb by (auto simp: writes_def)
    show ?thesis
    proof (cases "q = ZCIO_OK")
      case True
      then have "g c = (r, b')" using that(2) fb by (simp add: and_then_def)
      then show ?thesis using g c True by (auto simp: writes_def)
    next
      case False
      then show ?thesis using that(2) fb c by (auto simp: and_then_def)
    qed
  qed
  then show "writes ?h (s @ t)" by (simp add: writes_def)
qed

lemma writes_done: "writes (\<lambda>b. (ZCIO_OK, b)) []"
  by (simp add: writes_def)

lemmas writes_intros = writes_then writes_append writes_append_u8 writes_append_str writes_done

lemma writesD:
  "writes f s \<Longrightarrow> zb_wf b \<Longrightarrow> f b = (r, b') \<Longrightarrow>
   zb_wf b' \<and> (r = ZCIO_OK \<longrightarrow> ZHS_PTR b' = ZHS_PTR b @ s) \<and> (r = ZCIO_OK \<or> r = ZCIO_ERR_NOMEM)"
  by (simp add: writes_def)

subsection \<open>Limits\<close>

record zhs_limits =
  max_header_bytes :: nat
  max_headers :: nat
  max_body_bytes :: nat
  max_url_bytes :: nat
  max_streams :: nat
  max_requests_per_conn :: nat
  max_connections :: nat
  max_out_bytes :: nat
  header_timeout_ms :: int
  idle_timeout_ms :: int
  write_timeout_ms :: int
  drain_timeout_ms :: int

text \<open>The configuration has the same fields (and others this function does not read).\<close>

definition zhs_limits_resolve :: "zhs_limits option \<Rightarrow> zhs_limits" where
  "zhs_limits_resolve cfg =
     (let szd = (\<lambda>f d. case cfg of None \<Rightarrow> d | Some c \<Rightarrow> if f c \<noteq> (0 :: nat) then f c else d);
          ms = (\<lambda>f d. case cfg of None \<Rightarrow> d | Some c \<Rightarrow> if f c \<noteq> (0 :: int) then f c else d)
      in \<lparr>max_header_bytes = szd max_header_bytes (32 * 1024),
          max_headers = szd max_headers 128,
          max_body_bytes = szd max_body_bytes (64 * 1024 * 1024),
          max_url_bytes = szd max_url_bytes 8192,
          max_streams = szd max_streams 128,
          max_requests_per_conn = szd max_requests_per_conn 1024,
          max_connections = szd max_connections 1024,
          max_out_bytes = szd max_out_bytes (4 * 1024 * 1024),
          header_timeout_ms = ms header_timeout_ms 10000,
          idle_timeout_ms = ms idle_timeout_ms 60000,
          write_timeout_ms = ms write_timeout_ms 30000,
          drain_timeout_ms = ms drain_timeout_ms 5000\<rparr>)"

subsection \<open>The bounded header list\<close>

definition tolower :: "byte \<Rightarrow> byte" where
  "tolower c = (if 0x41 \<le> c \<and> c \<le> 0x5A then c + 32 else c)"

record zhs_hdrs =
  hs_v :: "(bytes \<times> bytes) list"
  hs_cap :: nat
  hs_bytes :: nat

definition zhs_hdrs_zero :: zhs_hdrs where
  "zhs_hdrs_zero = \<lparr>hs_v = [], hs_cap = 0, hs_bytes = 0\<rparr>"

text \<open>\<open>nlen\<close> and \<open>vlen\<close> are lengths of ranges in memory, so their sum with 32 does not wrap.\<close>

definition zhs_hdrs_add ::
  "allocator \<Rightarrow> zhs_hdrs \<Rightarrow> bytes \<Rightarrow> bytes \<Rightarrow> zhs_limits \<Rightarrow> bool \<Rightarrow> zcio_result \<times> zhs_hdrs" where
  "zhs_hdrs_add alloc h name value lim lower_name =
     (let n = length (hs_v h); nlen = length name; vlen = length value in
      if n \<ge> max_headers lim then (ZCIO_ERR_PROTOCOL, h)
      else let cap = (if max_header_bytes lim > SIZE_MAX div 2 then SIZE_MAX else max_header_bytes lim * 2) in
        if nlen > max_header_bytes lim \<or> vlen > max_header_bytes lim \<or>
           nlen + vlen + 32 > szsub cap (hs_bytes h)
        then (ZCIO_ERR_PROTOCOL, h)
        else let ncap0 = (if hs_cap h \<noteq> 0 then hs_cap h * 2 else 8);
                 ncap = (if ncap0 > max_headers lim then max_headers lim else ncap0) in
          if n = hs_cap h \<and> \<not> alloc (ncap * 16) then (ZCIO_ERR_NOMEM, h)
          else let h1 = (if n = hs_cap h then h\<lparr>hs_cap := ncap\<rparr> else h) in
            if \<not> alloc (nlen + 1) \<or> \<not> alloc (vlen + 1) then (ZCIO_ERR_NOMEM, h1)
            else (ZCIO_OK, h1\<lparr>hs_v := hs_v h1 @ [(if lower_name then map tolower name else name, value)],
                              hs_bytes := hs_bytes h1 + (nlen + vlen + 32)\<rparr>))"

text \<open>Both arguments are C strings: the loop stops at the first NUL of either.\<close>

fun hdr_name_eq :: "bytes \<Rightarrow> bytes \<Rightarrow> bool" where
  "hdr_name_eq (s # ss) (q # qs) = (if s \<noteq> tolower q then False else hdr_name_eq ss qs)"
| "hdr_name_eq [] [] = True"
| "hdr_name_eq _ _ = False"

fun hdrs_scan :: "(bytes \<times> bytes) list \<Rightarrow> bytes \<Rightarrow> bytes option" where
  "hdrs_scan [] name = None"
| "hdrs_scan ((n, v) # hs) name = (if hdr_name_eq n name then Some v else hdrs_scan hs name)"

definition zhs_hdrs_get :: "zhs_hdrs \<Rightarrow> bytes \<Rightarrow> bytes option" where
  "zhs_hdrs_get h name = hdrs_scan (hs_v h) name"

definition zhs_hdrs_count :: "zhs_hdrs \<Rightarrow> bytes \<Rightarrow> nat" where
  "zhs_hdrs_count h name = length (filter (\<lambda>(n, v). hdr_name_eq n name) (hs_v h))"

definition zhs_hdrs_free :: "zhs_hdrs \<Rightarrow> zhs_hdrs" where
  "zhs_hdrs_free h = zhs_hdrs_zero"

lemma hdr_name_eq_iff: "hdr_name_eq s q \<longleftrightarrow> s = map tolower q"
  by (induction s q rule: hdr_name_eq.induct) auto

text \<open>
  The invariant: at most \<open>max_headers\<close> fields, and their list size (name, value and 32 each) is
  exactly \<open>bytes\<close>, which stays under twice the header budget.
\<close>

definition hdr_cost :: "bytes \<times> bytes \<Rightarrow> nat" where
  "hdr_cost nv = length (fst nv) + length (snd nv) + 32"

definition hdrs_wf :: "zhs_limits \<Rightarrow> zhs_hdrs \<Rightarrow> bool" where
  "hdrs_wf lim h \<longleftrightarrow> length (hs_v h) \<le> max_headers lim \<and> length (hs_v h) \<le> hs_cap h \<and>
     hs_bytes h = sum_list (map hdr_cost (hs_v h)) \<and>
     hs_bytes h \<le> (if max_header_bytes lim > SIZE_MAX div 2 then SIZE_MAX else max_header_bytes lim * 2)"

lemma hdrs_wf_zero: "hdrs_wf lim zhs_hdrs_zero"
  by (simp add: hdrs_wf_def zhs_hdrs_zero_def)

lemma hdrs_add_cases:
  assumes "zhs_hdrs_add alloc h name value lim lower = (r, h')"
  shows "hs_v h' = (if r = ZCIO_OK
      then hs_v h @ [(if lower then map tolower name else name, value)] else hs_v h)"
  using assms by (auto simp: zhs_hdrs_add_def Let_def split: if_splits)

lemma hdrs_add_wf:
  assumes "hdrs_wf lim h" "zhs_hdrs_add alloc h name value lim lower = (r, h')"
  shows "hdrs_wf lim h'"
  using assms unfolding zhs_hdrs_add_def Let_def
  by (auto simp: hdrs_wf_def hdr_cost_def split: if_splits)

subsection \<open>Tokens and values\<close>

definition is_tchar :: "byte \<Rightarrow> bool" where
  "is_tchar c =
     (if (0x61 \<le> c \<and> c \<le> 0x7A) \<or> (0x41 \<le> c \<and> c \<le> 0x5A) \<or> (0x30 \<le> c \<and> c \<le> 0x39) then True
      else c \<in> set (asc ''!#$%&'' @ [0x27] @ asc ''*+-.^_'' @ [0x60] @ asc ''|~''))"

definition zhs_token_ok :: "bytes option \<Rightarrow> bool" where
  "zhs_token_ok s =
     (case s of None \<Rightarrow> False | Some p \<Rightarrow> if length p = 0 then False else list_all is_tchar p)"

definition zhs_lower_token_ok :: "bytes option \<Rightarrow> bool" where
  "zhs_lower_token_ok s =
     (case s of None \<Rightarrow> False
      | Some p \<Rightarrow> if length p = 0 then False
                  else list_all (\<lambda>c. \<not> (0x41 \<le> c \<and> c \<le> 0x5A) \<and> is_tchar c) p)"

definition zhs_value_ok :: "bytes option \<Rightarrow> bool" where
  "zhs_value_ok s =
     (case s of None \<Rightarrow> False
      | Some p \<Rightarrow> list_all (\<lambda>c. \<not> ((c < 0x20 \<and> c \<noteq> 9) \<or> c = 0x7F)) p)"

subsection \<open>UTF-8\<close>

definition utf8_dfa :: "nat list" where
  "utf8_dfa = [
    0, 0, 0, 0, 0, 0, 0, 0, 0, 0, 0, 0, 0, 0, 0, 0, 0, 0, 0, 0, 0, 0, 0, 0, 0, 0, 0, 0, 0, 0, 0, 0,
    0, 0, 0, 0, 0, 0, 0, 0, 0, 0, 0, 0, 0, 0, 0, 0, 0, 0, 0, 0, 0, 0, 0, 0, 0, 0, 0, 0, 0, 0, 0, 0,
    0, 0, 0, 0, 0, 0, 0, 0, 0, 0, 0, 0, 0, 0, 0, 0, 0, 0, 0, 0, 0, 0, 0, 0, 0, 0, 0, 0, 0, 0, 0, 0,
    0, 0, 0, 0, 0, 0, 0, 0, 0, 0, 0, 0, 0, 0, 0, 0, 0, 0, 0, 0, 0, 0, 0, 0, 0, 0, 0, 0, 0, 0, 0, 0,
    1, 1, 1, 1, 1, 1, 1, 1, 1, 1, 1, 1, 1, 1, 1, 1, 9, 9, 9, 9, 9, 9, 9, 9, 9, 9, 9, 9, 9, 9, 9, 9,
    7, 7, 7, 7, 7, 7, 7, 7, 7, 7, 7, 7, 7, 7, 7, 7, 7, 7, 7, 7, 7, 7, 7, 7, 7, 7, 7, 7, 7, 7, 7, 7,
    8, 8, 2, 2, 2, 2, 2, 2, 2, 2, 2, 2, 2, 2, 2, 2, 2, 2, 2, 2, 2, 2, 2, 2, 2, 2, 2, 2, 2, 2, 2, 2,
    10, 3, 3, 3, 3, 3, 3, 3, 3, 3, 3, 3, 3, 4, 3, 3, 11, 6, 6, 6, 5, 8, 8, 8, 8, 8, 8, 8, 8, 8, 8, 8,
    0, 12, 24, 36, 60, 96, 84, 12, 12, 12, 48, 72, 12, 12, 12, 12, 12, 12, 12, 12, 12, 12, 12, 12,
    12, 0, 12, 12, 12, 12, 12, 0, 12, 0, 12, 12, 12, 24, 12, 12, 12, 12, 12, 24, 12, 24, 12, 12,
    12, 12, 12, 12, 12, 12, 12, 24, 12, 12, 12, 12, 12, 24, 12, 12, 12, 12, 12, 12, 12, 24, 12, 12,
    12, 12, 12, 12, 12, 12, 12, 36, 12, 36, 12, 12, 12, 36, 12, 12, 12, 12, 12, 36, 12, 36, 12, 12,
    12, 36, 12, 12, 12, 12, 12, 12, 12, 12, 12, 12]"

definition ZHS_UTF8_ACCEPT :: nat where "ZHS_UTF8_ACCEPT = 0"
definition ZHS_UTF8_REJECT :: nat where "ZHS_UTF8_REJECT = 12"

definition zhs_utf8_step :: "nat \<Rightarrow> byte \<Rightarrow> nat" where
  "zhs_utf8_step state b = utf8_dfa ! (256 + state + utf8_dfa ! unat b)"

fun utf8_run :: "nat \<Rightarrow> bytes \<Rightarrow> bool" where
  "utf8_run st [] = (st = ZHS_UTF8_ACCEPT)"
| "utf8_run st (b # bs) =
     (let st' = zhs_utf8_step st b in if st' = ZHS_UTF8_REJECT then False else utf8_run st' bs)"

definition zhs_utf8_valid :: "bytes \<Rightarrow> bool" where
  "zhs_utf8_valid s = utf8_run ZHS_UTF8_ACCEPT s"

subsection \<open>Request targets\<close>

definition hexval :: "byte \<Rightarrow> int" where
  "hexval c =
     (if 0x30 \<le> c \<and> c \<le> 0x39 then uint c - 0x30
      else if 0x61 \<le> c \<and> c \<le> 0x66 then uint c - 0x61 + 10
      else if 0x41 \<le> c \<and> c \<le> 0x46 then uint c - 0x41 + 10
      else -1)"

text \<open>\<open>out\<close> holds the decoded bytes so far; the rest of the input is the argument.\<close>

function pct_decode_loop :: "bytes \<Rightarrow> bytes \<Rightarrow> zcio_result + bytes" where
  "pct_decode_loop input out =
     (case input of
        [] \<Rightarrow> Inr out
      | c0 # rest \<Rightarrow>
          if c0 = 0x25 then
            (if length input < 3 then Inl ZCIO_ERR_PROTOCOL
             else let hi = hexval (input ! 1); lo = hexval (input ! 2) in
               if hi < 0 \<or> lo < 0 then Inl ZCIO_ERR_PROTOCOL
               else let c = (word_of_int (hi * 16 + lo) :: byte) in
                 if c < 0x20 \<or> c = 0x7F then Inl ZCIO_ERR_PROTOCOL
                 else pct_decode_loop (drop 3 input) (out @ [c]))
          else if c0 < 0x20 \<or> c0 = 0x7F then Inl ZCIO_ERR_PROTOCOL
          else pct_decode_loop rest (out @ [c0]))"
  by pat_completeness auto
termination
  by (relation "measure (\<lambda>(input, out). length input)") auto

definition pct_decode :: "bytes \<Rightarrow> zcio_result + bytes" where
  "pct_decode input = pct_decode_loop input []"

declare pct_decode_loop.simps [simp del]

text \<open>The two inner loops of \<open>remove_dot_segments\<close>: find the segment's end, pop a segment.\<close>

function seg_end :: "bytes \<Rightarrow> nat \<Rightarrow> nat \<Rightarrow> nat" where
  "seg_end path len e = (if e < len \<and> path ! e \<noteq> 0x2F then seg_end path len (e + 1) else e)"
  by pat_completeness auto
termination
  by (relation "measure (\<lambda>(path, len, e). len - e)") auto

fun pop_seg :: "bytes \<Rightarrow> nat \<Rightarrow> nat" where
  "pop_seg path 0 = 0"
| "pop_seg path (Suc k) = (if path ! k \<noteq> 0x2F then pop_seg path k else Suc k)"

declare seg_end.simps [simp del]

lemma seg_end_ge: "e \<le> seg_end path len e"
  by (induction path len e rule: seg_end.induct) (subst seg_end.simps, auto)

lemma seg_end_gt: "i < seg_end path len (i + 1)"
  using seg_end_ge [of "i + 1"] by (simp add: Suc_le_eq)

text \<open>
  In place, as in the source: \<open>path\<close> is the block, read at \<open>i\<close> and written at \<open>ou\<close>.
  \<open>rds_segment\<close> disposes of the segment of length \<open>slen\<close> at \<open>seg\<close>: skip, pop or keep.
\<close>

definition rds_segment :: "bytes \<Rightarrow> nat \<Rightarrow> nat \<Rightarrow> nat \<Rightarrow> zcio_result + (bytes \<times> nat)" where
  "rds_segment path ou seg slen =
     (if slen = 1 \<and> path ! seg = 0x2E then Inr (path, ou)
      else if slen = 2 \<and> path ! seg = 0x2E \<and> path ! (seg + 1) = 0x2E then
        (if ou = 0 then Inl ZCIO_ERR_PROTOCOL
         else let o1 = pop_seg path ou in Inr (path, if o1 > 0 then o1 - 1 else o1))
      else let path1 = path[ou := 0x2F]
           in Inr (memcpy path1 (ou + 1) (mslice path1 seg slen), ou + 1 + slen))"

function rds_loop :: "bytes \<Rightarrow> nat \<Rightarrow> nat \<Rightarrow> nat \<Rightarrow> zcio_result + (bytes \<times> nat)" where
  "rds_loop path len ou i =
     (if i < len then
        (let seg = i + 1; en = seg_end path len seg in
         case rds_segment path ou seg (en - seg) of
           Inl e \<Rightarrow> Inl e
         | Inr (path1, o1) \<Rightarrow>
             if en = len - 1 \<and> path1 ! en = 0x2F then Inr (path1[o1 := 0x2F], o1 + 1)
             else rds_loop path1 len o1 en)
      else Inr (path, ou))"
  by pat_completeness auto
termination
  using seg_end_gt
  by (relation "measure (\<lambda>(path, len, ou, i). len - i)") (auto intro!: diff_less_mono2)

definition remove_dot_segments :: "bytes \<Rightarrow> nat \<Rightarrow> zcio_result + (bytes \<times> nat)" where
  "remove_dot_segments path len =
     (case rds_loop path len 0 0 of
        Inl e \<Rightarrow> Inl e
      | Inr (path1, ou) \<Rightarrow> if ou = 0 then Inr (path1[ou := 0x2F], ou + 1) else Inr (path1, ou))"

declare rds_loop.simps [simp del]

text \<open>
  The target's path block is \<open>plen + 2\<close> bytes; \<open>junk\<close> is what the allocator left in it. The two
  results are \<open>*path_out\<close> and \<open>*query_out\<close>.
\<close>

definition zhs_decode_target ::
  "allocator \<Rightarrow> (nat \<Rightarrow> bytes) \<Rightarrow> bytes option \<Rightarrow> zhs_limits \<Rightarrow> zcio_result + (bytes \<times> bytes option)" where
  "zhs_decode_target alloc junk raw0 lim =
     (case raw0 of
        None \<Rightarrow> Inl ZCIO_ERR_PROTOCOL
      | Some raw \<Rightarrow>
          if length raw = 0 then Inl ZCIO_ERR_PROTOCOL
          else if length raw > max_url_bytes lim then Inl ZCIO_ERR_PROTOCOL
          else if raw = [0x2A] then (if alloc 2 then Inr ([0x2A], None) else Inl ZCIO_ERR_NOMEM)
          else if raw ! 0 \<noteq> 0x2F then Inl ZCIO_ERR_PROTOCOL
          else
            (let plen = length (takeWhile (\<lambda>c. c \<noteq> 0x3F) raw);
                 q = (if plen < length raw then Some (drop (plen + 1) raw) else None)
             in if \<not> alloc (plen + 2) then Inl ZCIO_ERR_NOMEM
                else case pct_decode (take plen raw) of
                  Inl e \<Rightarrow> Inl ZCIO_ERR_PROTOCOL
                | Inr dec \<Rightarrow>
                    (case remove_dot_segments (memcpy (junk (plen + 2)) 0 dec) (length dec) of
                       Inl e \<Rightarrow> Inl ZCIO_ERR_PROTOCOL
                     | Inr (path, norm_len) \<Rightarrow>
                         (case q of
                            None \<Rightarrow> Inr (take norm_len path, None)
                          | Some qs \<Rightarrow>
                              if \<not> zhs_value_ok (Some qs) then Inl ZCIO_ERR_PROTOCOL
                              else if \<not> alloc (length qs + 1) then Inl ZCIO_ERR_NOMEM
                              else Inr (take norm_len path, Some qs)))))"

subsection \<open>Formatting\<close>

text \<open>\<open>%02d\<close> and \<open>%04d\<close> of a natural number.\<close>

function dec_digits :: "nat \<Rightarrow> bytes" where
  "dec_digits n = (if n < 10 then [0x30 + of_nat n] else dec_digits (n div 10) @ [0x30 + of_nat (n mod 10)])"
  by pat_completeness auto
termination
  by (relation "measure id") auto

declare dec_digits.simps [simp del]

definition pad_dec :: "nat \<Rightarrow> nat \<Rightarrow> bytes" where
  "pad_dec w n = replicate (w - length (dec_digits n)) 0x30 @ dec_digits n"

text \<open>The broken-down time \<open>gmtime_r\<close> returns; the clock is not part of the program.\<close>

record tm =
  tm_sec :: nat
  tm_min :: nat
  tm_hour :: nat
  tm_mday :: nat
  tm_mon :: nat
  tm_year :: nat
  tm_wday :: nat

definition DAYS :: "string list" where
  "DAYS = [''Sun'', ''Mon'', ''Tue'', ''Wed'', ''Thu'', ''Fri'', ''Sat'']"

definition MONS :: "string list" where
  "MONS = [''Jan'', ''Feb'', ''Mar'', ''Apr'', ''May'', ''Jun'', ''Jul'', ''Aug'', ''Sep'', ''Oct'', ''Nov'', ''Dec'']"

definition zhs_http_date :: "tm \<Rightarrow> bytes" where
  "zhs_http_date t =
     take 31 (asc (DAYS ! tm_wday t) @ asc '', '' @ pad_dec 2 (tm_mday t) @ asc '' '' @ asc (MONS ! tm_mon t) @
       asc '' '' @ pad_dec 4 (tm_year t + 1900) @ asc '' '' @ pad_dec 2 (tm_hour t) @ asc '':'' @
       pad_dec 2 (tm_min t) @ asc '':'' @ pad_dec 2 (tm_sec t) @ asc '' GMT'')"

definition zhs_status_text :: "int \<Rightarrow> string" where
  "zhs_status_text status =
     (case map_of [
        (100, ''Continue''), (101, ''Switching Protocols''), (200, ''OK''), (201, ''Created''),
        (202, ''Accepted''), (204, ''No Content''), (206, ''Partial Content''),
        (301, ''Moved Permanently''), (302, ''Found''), (303, ''See Other''), (304, ''Not Modified''),
        (307, ''Temporary Redirect''), (308, ''Permanent Redirect''), (400, ''Bad Request''),
        (401, ''Unauthorized''), (403, ''Forbidden''), (404, ''Not Found''),
        (405, ''Method Not Allowed''), (408, ''Request Timeout''), (409, ''Conflict''),
        (411, ''Length Required''), (413, ''Content Too Large''), (414, ''URI Too Long''),
        (415, ''Unsupported Media Type''), (421, ''Misdirected Request''), (426, ''Upgrade Required''),
        (429, ''Too Many Requests''), (431, ''Request Header Fields Too Large''),
        (500, ''Internal Server Error''), (501, ''Not Implemented''), (502, ''Bad Gateway''),
        (503, ''Service Unavailable''), (505, ''HTTP Version Not Supported'')] status of
      None \<Rightarrow> [] | Some s \<Rightarrow> s)"


subsection \<open>The UTF-8 automaton accepts exactly the encodings\<close>

text \<open>The character class of a byte, as ranges.\<close>

definition u8_class :: "nat \<Rightarrow> nat" where
  "u8_class n =
     (if n < 0x80 then 0 else if n < 0x90 then 1 else if n < 0xA0 then 9 else if n < 0xC0 then 7
      else if n < 0xC2 then 8 else if n < 0xE0 then 2 else if n = 0xE0 then 10 else if n = 0xED then 4
      else if n < 0xF0 then 3 else if n = 0xF0 then 11 else if n < 0xF4 then 6 else if n = 0xF4 then 5
      else 8)"

lemma dfa_class_list: "take 256 utf8_dfa = map u8_class [0 ..< 256]"
  by code_simp

lemma dfa_class: "utf8_dfa ! unat (b :: byte) = u8_class (unat b)"
proof -
  have b: "unat b < 256" using unsigned_less [of b, where ?'a = nat] by simp
  then have "utf8_dfa ! unat b = take 256 utf8_dfa ! unat b" by simp
  also have "\<dots> = u8_class (unat b)" unfolding dfa_class_list using b by (simp del: upt_Suc)
  finally show ?thesis .
qed

text \<open>The transition rows of the states that can be reached.\<close>

lemma dfa_rows:
  "map (\<lambda>k. utf8_dfa ! (256 + 0 + k)) [0 ..< 12] = [0, 12, 24, 36, 60, 96, 84, 12, 12, 12, 48, 72]"
  "map (\<lambda>k. utf8_dfa ! (256 + 24 + k)) [0 ..< 12] = [12, 0, 12, 12, 12, 12, 12, 0, 12, 0, 12, 12]"
  "map (\<lambda>k. utf8_dfa ! (256 + 36 + k)) [0 ..< 12] = [12, 24, 12, 12, 12, 12, 12, 24, 12, 24, 12, 12]"
  "map (\<lambda>k. utf8_dfa ! (256 + 48 + k)) [0 ..< 12] = [12, 12, 12, 12, 12, 12, 12, 24, 12, 12, 12, 12]"
  "map (\<lambda>k. utf8_dfa ! (256 + 60 + k)) [0 ..< 12] = [12, 24, 12, 12, 12, 12, 12, 12, 12, 24, 12, 12]"
  "map (\<lambda>k. utf8_dfa ! (256 + 72 + k)) [0 ..< 12] = [12, 12, 12, 12, 12, 12, 12, 36, 12, 36, 12, 12]"
  "map (\<lambda>k. utf8_dfa ! (256 + 84 + k)) [0 ..< 12] = [12, 36, 12, 12, 12, 12, 12, 36, 12, 36, 12, 12]"
  "map (\<lambda>k. utf8_dfa ! (256 + 96 + k)) [0 ..< 12] = [12, 36, 12, 12, 12, 12, 12, 12, 12, 12, 12, 12]"
  by code_simp+

lemma u8_class_lt: "u8_class n < 12"
  by (simp add: u8_class_def)

lemma utf8_step_row:
  assumes "map (\<lambda>k. utf8_dfa ! (256 + s + k)) [0 ..< 12] = row"
  shows "zhs_utf8_step s b = row ! u8_class (unat b)"
proof -
  have "row ! u8_class (unat b) = utf8_dfa ! (256 + s + u8_class (unat b))"
    unfolding assms [symmetric] using u8_class_lt [of "unat b"] by (simp del: upt_Suc)
  then show ?thesis by (simp add: zhs_utf8_step_def dfa_class)
qed

lemma utf8_step_states:
  "zhs_utf8_step 0 b =
     (if unat b < 0x80 then 0 else if 0xC2 \<le> unat b \<and> unat b < 0xE0 then 24
      else if unat b = 0xE0 then 48 else if unat b = 0xED then 60
      else if 0xE0 < unat b \<and> unat b < 0xF0 then 36 else if unat b = 0xF0 then 72
      else if 0xF0 < unat b \<and> unat b < 0xF4 then 84 else if unat b = 0xF4 then 96 else 12)"
  "zhs_utf8_step 24 b = (if 0x80 \<le> unat b \<and> unat b < 0xC0 then 0 else 12)"
  "zhs_utf8_step 36 b = (if 0x80 \<le> unat b \<and> unat b < 0xC0 then 24 else 12)"
  "zhs_utf8_step 48 b = (if 0xA0 \<le> unat b \<and> unat b < 0xC0 then 24 else 12)"
  "zhs_utf8_step 60 b = (if 0x80 \<le> unat b \<and> unat b < 0xA0 then 24 else 12)"
  "zhs_utf8_step 72 b = (if 0x90 \<le> unat b \<and> unat b < 0xC0 then 36 else 12)"
  "zhs_utf8_step 84 b = (if 0x80 \<le> unat b \<and> unat b < 0xC0 then 36 else 12)"
  "zhs_utf8_step 96 b = (if 0x80 \<le> unat b \<and> unat b < 0x90 then 36 else 12)"
  by (simp_all add: dfa_rows [THEN utf8_step_row] u8_class_def)

text \<open>Unicode scalar values and their encoding (RFC 3629).\<close>

definition scalar_value :: "nat \<Rightarrow> bool" where
  "scalar_value c \<longleftrightarrow> c \<le> 0x10FFFF \<and> \<not> (0xD800 \<le> c \<and> c \<le> 0xDFFF)"

definition utf8_encode :: "nat \<Rightarrow> bytes" where
  "utf8_encode c =
     map of_nat
      (if c < 0x80 then [c]
       else if c < 0x800 then [0xC0 + c div 64, 0x80 + c mod 64]
       else if c < 0x10000 then [0xE0 + c div 4096, 0x80 + c div 64 mod 64, 0x80 + c mod 64]
       else [0xF0 + c div 262144, 0x80 + c div 4096 mod 64, 0x80 + c div 64 mod 64, 0x80 + c mod 64])"

lemma unat_of_nat_byte: "n < 256 \<Longrightarrow> unat (of_nat n :: byte) = n"
  by (simp add: unat_of_nat)

lemma utf8_encode_unat:
  assumes "scalar_value c"
  shows "map unat (utf8_encode c) =
    (if c < 0x80 then [c]
     else if c < 0x800 then [0xC0 + c div 64, 0x80 + c mod 64]
     else if c < 0x10000 then [0xE0 + c div 4096, 0x80 + c div 64 mod 64, 0x80 + c mod 64]
     else [0xF0 + c div 262144, 0x80 + c div 4096 mod 64, 0x80 + c div 64 mod 64, 0x80 + c mod 64])"
proof -
  have "c div 262144 < 5" using assms by (auto simp: scalar_value_def)
  moreover have "c < 0x800 \<Longrightarrow> c div 64 < 32" "c < 0x10000 \<Longrightarrow> c div 4096 < 16" by simp_all
  ultimately show ?thesis
    by (auto simp: utf8_encode_def unat_of_nat_byte simp del: of_nat_add of_nat_numeral)
qed

lemma utf8_run_Cons:
  "utf8_run st (b # bs) \<longleftrightarrow> zhs_utf8_step st b \<noteq> 12 \<and> utf8_run (zhs_utf8_step st b) bs"
  by (simp add: ZHS_UTF8_REJECT_def Let_def)

lemmas u8_simps = utf8_run_Cons utf8_step_states

lemma utf8_run_encode:
  assumes "scalar_value c"
  shows "utf8_run 0 (utf8_encode c @ rest) = utf8_run 0 rest"
proof -
  note enc = utf8_encode_unat [OF assms]
  consider "c < 0x80" | "0x80 \<le> c" "c < 0x800" | "0x800 \<le> c" "c < 0x10000"
    | "0x10000 \<le> c" "c \<le> 0x10FFFF"
    using assms by (force simp: scalar_value_def)
  then show ?thesis
  proof cases
    case 1
    then obtain b where "utf8_encode c = [b]" "unat b = c" using enc by (auto simp: map_eq_Cons_conv)
    with 1 show ?thesis by (simp add: u8_simps del: utf8_run.simps)
  next
    case 2
    then obtain b1 b2 where "utf8_encode c = [b1, b2]" "unat b1 = 0xC0 + c div 64"
      "unat b2 = 0x80 + c mod 64" using enc by (auto simp: map_eq_Cons_conv)
    moreover have "2 \<le> c div 64" "c div 64 < 32" using 2 by auto
    ultimately show ?thesis by (simp add: u8_simps del: utf8_run.simps)
  next
    case 3
    define h m where "h = c div 4096" and "m = c div 64 mod 64"
    obtain b1 b2 b3 where b: "utf8_encode c = [b1, b2, b3]" "unat b1 = 0xE0 + h"
      "unat b2 = 0x80 + m" "unat b3 = 0x80 + c mod 64"
      using enc 3 by (auto simp: map_eq_Cons_conv h_def m_def)
    have "m + 64 * h = c div 64" "m < 64"
      using div_mult_mod_eq [of "c div 64" 64] by (simp_all add: div_mult2_eq [symmetric] h_def m_def)
    then have "h < 16" "h = 0 \<Longrightarrow> 32 \<le> m" "h = 13 \<Longrightarrow> m < 32" "m < 64"
      using 3 assms by (auto simp: scalar_value_def)
    with b show ?thesis by (simp add: u8_simps del: utf8_run.simps)
  next
    case 4
    define h m where "h = c div 262144" and "m = c div 4096 mod 64"
    obtain b1 b2 b3 b4 where b: "utf8_encode c = [b1, b2, b3, b4]" "unat b1 = 0xF0 + h"
      "unat b2 = 0x80 + m" "unat b3 = 0x80 + c div 64 mod 64" "unat b4 = 0x80 + c mod 64"
      using enc 4 by (auto simp: map_eq_Cons_conv h_def m_def)
    have "m + 64 * h = c div 4096" "m < 64"
      using div_mult_mod_eq [of "c div 4096" 64] by (simp_all add: div_mult2_eq [symmetric] h_def m_def)
    then have "h \<le> 4" "h = 0 \<Longrightarrow> 16 \<le> m" "h = 4 \<Longrightarrow> m < 16" "m < 64"
      using 4 by auto
    with b show ?thesis by (simp add: u8_simps del: utf8_run.simps)
  qed
qed

text \<open>A sequence the automaton accepts starts with the encoding of a scalar value.\<close>

lemma utf8_run_end: "utf8_run st [] \<longleftrightarrow> st = 0"
  by (simp add: ZHS_UTF8_ACCEPT_def)

lemma utf8_run_cont:
  assumes "utf8_run st s" "st = 24 \<or> st = 36 \<or> st = 48 \<or> st = 60 \<or> st = 72 \<or> st = 84 \<or> st = 96"
  shows "\<exists>b bs. s = b # bs \<and> 0x80 \<le> unat b \<and> unat b < 0xC0 \<and> (st = 48 \<longrightarrow> 0xA0 \<le> unat b) \<and>
    (st = 60 \<longrightarrow> unat b < 0xA0) \<and> (st = 72 \<longrightarrow> 0x90 \<le> unat b) \<and> (st = 96 \<longrightarrow> unat b < 0x90) \<and>
    utf8_run (if st = 24 then 0 else if st = 36 \<or> st = 48 \<or> st = 60 then 24 else 36) bs"
proof (cases s)
  case Nil
  with assms show ?thesis by (auto simp: ZHS_UTF8_ACCEPT_def)
next
  case (Cons b bs)
  with assms show ?thesis
    by (intro exI [of _ b] exI [of _ bs]) (auto simp: u8_simps simp del: utf8_run.simps split: if_splits)
qed

lemma encode_eqI: "scalar_value c \<Longrightarrow> map unat (utf8_encode c) = map unat s \<Longrightarrow> s = utf8_encode c"
  by (metis map_injective word_unat_eq_iff injI)

lemma utf8_run_accept_Cons:
  assumes "utf8_run 0 (b # s)"
  shows "\<exists>c rest. scalar_value c \<and> b # s = utf8_encode c @ rest \<and> utf8_run 0 rest"
proof -
  let ?b = "unat b"
  consider (one) "?b < 0x80" "utf8_run 0 s" | (two) "0xC2 \<le> ?b" "?b < 0xE0" "utf8_run 24 s"
    | (three) st where "0xE0 \<le> ?b" "?b < 0xF0" "utf8_run st s" "st = 36 \<or> st = 48 \<or> st = 60"
        "?b = 0xE0 \<Longrightarrow> st = 48" "?b = 0xED \<Longrightarrow> st = 60"
    | (four) st where "0xF0 \<le> ?b" "?b < 0xF5" "utf8_run st s" "st = 72 \<or> st = 84 \<or> st = 96"
        "?b = 0xF0 \<Longrightarrow> st = 72" "?b = 0xF4 \<Longrightarrow> st = 96"
    using assms by (auto simp: u8_simps simp del: utf8_run.simps split: if_splits)
  then show ?thesis
  proof cases
    case one
    then have c: "scalar_value ?b" by (simp add: scalar_value_def)
    with one encode_eqI [OF c, of "[b]"] show ?thesis
      by (intro exI [of _ ?b] exI [of _ s]) (simp add: utf8_encode_unat)
  next
    case two
    obtain b2 s2 where s2: "s = b2 # s2" "0x80 \<le> unat b2" "unat b2 < 0xC0" "utf8_run 0 s2"
      using utf8_run_cont [OF two(3)] by auto
    define x y where "x = ?b - 0xC0" and "y = unat b2 - 0x80"
    have xy: "?b = 0xC0 + x" "unat b2 = 0x80 + y" "y < 64" "2 \<le> x" "x < 32"
      using two s2 by (auto simp: x_def y_def)
    let ?c = "x * 64 + y"
    have c: "scalar_value ?c" "?c div 64 = x" "?c mod 64 = y" "0x80 \<le> ?c" "?c < 0x800"
      using xy by (auto simp: scalar_value_def)
    have "[b, b2] = utf8_encode ?c" using c xy by (intro encode_eqI) (simp_all add: utf8_encode_unat)
    then show ?thesis using c(1) s2 by (intro exI [of _ ?c] exI [of _ s2]) simp
  next
    case three
    obtain b2 s2 where s2: "s = b2 # s2" "0x80 \<le> unat b2" "unat b2 < 0xC0" "st = 48 \<Longrightarrow> 0xA0 \<le> unat b2"
      "st = 60 \<Longrightarrow> unat b2 < 0xA0" "utf8_run 24 s2"
      using utf8_run_cont [OF three(3)] three(4) by auto
    obtain b3 s3 where s3: "s2 = b3 # s3" "0x80 \<le> unat b3" "unat b3 < 0xC0" "utf8_run 0 s3"
      using utf8_run_cont [OF s2(6)] by auto
    define x y z where "x = ?b - 0xE0" and "y = unat b2 - 0x80" and "z = unat b3 - 0x80"
    have xy: "?b = 0xE0 + x" "unat b2 = 0x80 + y" "unat b3 = 0x80 + z" "y < 64" "z < 64" "x < 16"
        "x = 0 \<Longrightarrow> 32 \<le> y" "x = 13 \<Longrightarrow> y < 32"
      using three(1,2,5,6) s2 s3 by (auto simp: x_def y_def z_def)
    let ?c = "x * 4096 + y * 64 + z"
    have "?c = (x * 64 + y) * 64 + z" by simp
    then have "?c mod 64 = z" using xy(5) by (simp only: mod_mult_self3 mod_less)
    moreover have "?c div 64 = x * 64 + y" "?c div 4096 = x" using xy(4,5) by auto
    moreover have "0x800 \<le> ?c" "?c < 0x10000" using xy by (cases "x = 0"; linarith)+
    moreover have "scalar_value ?c"
      using xy by (cases "x < 13"; cases "x = 13") (auto simp: scalar_value_def)
    ultimately have c: "scalar_value ?c" "?c div 4096 = x" "?c div 64 mod 64 = y" "?c mod 64 = z"
        "0x800 \<le> ?c" "?c < 0x10000"
      using xy by simp_all
    have "[b, b2, b3] = utf8_encode ?c" using c xy by (intro encode_eqI) (simp_all add: utf8_encode_unat)
    then show ?thesis using c(1) s2 s3 by (intro exI [of _ ?c] exI [of _ s3]) simp
  next
    case four
    obtain b2 s2 where s2: "s = b2 # s2" "0x80 \<le> unat b2" "unat b2 < 0xC0" "st = 72 \<Longrightarrow> 0x90 \<le> unat b2"
      "st = 96 \<Longrightarrow> unat b2 < 0x90" "utf8_run 36 s2"
      using utf8_run_cont [OF four(3)] four(4) by auto
    obtain b3 s3 where s3: "s2 = b3 # s3" "0x80 \<le> unat b3" "unat b3 < 0xC0" "utf8_run 24 s3"
      using utf8_run_cont [OF s2(6)] by auto
    obtain b4 s4 where s4: "s3 = b4 # s4" "0x80 \<le> unat b4" "unat b4 < 0xC0" "utf8_run 0 s4"
      using utf8_run_cont [OF s3(4)] by auto
    define x y z w where "x = ?b - 0xF0" and "y = unat b2 - 0x80" and "z = unat b3 - 0x80"
      and "w = unat b4 - 0x80"
    have xy: "?b = 0xF0 + x" "unat b2 = 0x80 + y" "unat b3 = 0x80 + z" "unat b4 = 0x80 + w"
        "y < 64" "z < 64" "w < 64" "x < 5" "x = 0 \<Longrightarrow> 16 \<le> y" "x = 4 \<Longrightarrow> y < 16"
      using four(1,2,5,6) s2 s3 s4 by (auto simp: x_def y_def z_def w_def)
    let ?c = "x * 262144 + y * 4096 + z * 64 + w"
    have "?c = ((x * 64 + y) * 64 + z) * 64 + w" by simp
    then have d: "?c mod 64 = w" using xy(7) by (simp only: mod_mult_self3 mod_less)
    have e: "?c div 64 = (x * 64 + y) * 64 + z" "?c div 4096 = x * 64 + y" "?c div 262144 = x"
      using xy(5-7) by auto
    have f: "?c div 64 mod 64 = z" "?c div 4096 mod 64 = y"
      unfolding e using xy(5-7) by (simp_all only: mod_mult_self3 mod_less)
    have "0x10000 \<le> ?c" "?c \<le> 0x10FFFF" using xy(5-10) by (cases "x = 0"; cases "x = 4"; simp; linarith)+
    then have c: "scalar_value ?c" "0x10000 \<le> ?c" by (simp_all add: scalar_value_def)
    note c = c d e(3) f
    have "[b, b2, b3, b4] = utf8_encode ?c" using c xy by (intro encode_eqI) (simp_all add: utf8_encode_unat)
    then show ?thesis using c(1) s2 s3 s4 by (intro exI [of _ ?c] exI [of _ s4]) simp
  qed
qed

lemma utf8_encode_nonempty: "utf8_encode c \<noteq> []"
  by (simp add: utf8_encode_def)

lemma utf8_run_decodes: "utf8_run 0 s \<Longrightarrow> \<exists>cs. list_all scalar_value cs \<and> s = concat (map utf8_encode cs)"
proof (induction s rule: length_induct)
  case (1 s)
  show ?case
  proof (cases s)
    case Nil
    then show ?thesis by (intro exI [of _ "[]"]) simp
  next
    case (Cons b bs)
    from utf8_run_accept_Cons [of b bs] 1(2) Cons obtain c rest where
      c: "scalar_value c" "s = utf8_encode c @ rest" "utf8_run 0 rest" by auto
    then have "length rest < length s" using utf8_encode_nonempty [of c] by simp
    with 1(1) c(3) obtain cs where "list_all scalar_value cs" "rest = concat (map utf8_encode cs)" by blast
    with c show ?thesis by (intro exI [of _ "c # cs"]) simp
  qed
qed

lemma utf8_run_encodes: "list_all scalar_value cs \<Longrightarrow> utf8_run 0 (concat (map utf8_encode cs))"
  by (induction cs) (simp_all add: utf8_run_encode ZHS_UTF8_ACCEPT_def)


subsection \<open>Dot segments: the in-place loop is a stack of segments\<close>

text \<open>A rooted path as the list of its segments, each rendered after a slash.\<close>

definition render_path :: "bytes list \<Rightarrow> bytes" where
  "render_path st = concat (map ((#) 0x2F) st)"

abbreviation no_slash :: "bytes \<Rightarrow> bool" where
  "no_slash s \<equiv> 0x2F \<notin> set s"

fun dot_norm :: "bytes list \<Rightarrow> bytes list \<Rightarrow> bytes list option" where
  "dot_norm st [] = Some st"
| "dot_norm st (s # ss) =
     (if s = [0x2E] then dot_norm st ss
      else if s = [0x2E, 0x2E] then (if st = [] then None else dot_norm (butlast st) ss)
      else dot_norm (st @ [s]) ss)"

lemma render_path_simps [simp]:
  "render_path [] = []" "render_path (s # ss) = 0x2F # s @ render_path ss"
  "render_path (st @ ss) = render_path st @ render_path ss"
  by (simp_all add: render_path_def)

lemma seg_end_scan:
  assumes "no_slash s" "path = a @ s @ b" "length a + length s \<le> len"
    and "length a + length s < len \<Longrightarrow> b \<noteq> [] \<and> hd b = 0x2F"
  shows "seg_end path len (length a) = length a + length s"
  using assms
proof (induction s arbitrary: a)
  case Nil
  then have "length a < len \<Longrightarrow> path ! length a = 0x2F" by (cases b) (auto simp: nth_append)
  then show ?case by (subst seg_end.simps) auto
next
  case (Cons c s)
  have "path ! length a = c" "c \<noteq> 0x2F" using Cons.prems by (auto simp: nth_append)
  moreover have "seg_end path len (length (a @ [c])) = length (a @ [c]) + length s"
    using Cons.prems by (intro Cons.IH) auto
  ultimately show ?case using Cons.prems(3) by (subst seg_end.simps) simp
qed

lemma pop_seg_scan:
  "no_slash s \<Longrightarrow> path = a @ 0x2F # s @ b \<Longrightarrow> pop_seg path (length a + 1 + length s) = length a + 1"
proof (induction s arbitrary: b rule: rev_induct)
  case (snoc c s)
  have "path ! (length a + 1 + length s) = c" using snoc.prems by (auto simp: nth_append)
  with snoc show ?case by simp
qed (simp add: nth_append)

lemma rds_segment_push:
  assumes "path = r @ mid @ 0x2F # s @ x" "\<not> (s = [0x2E])" "s \<noteq> [0x2E, 0x2E]"
  shows "\<exists>mid'. length mid' = length mid \<and>
    rds_segment path (length r) (length r + length mid + 1) (length s) =
      Inr (r @ 0x2F # s @ mid' @ x, length r + 1 + length s)"
proof -
  let ?seg = "length r + length mid + 1"
  let ?p = "path[length r := 0x2F]"
  have nth: "path ! (?seg + k) = s ! k" if "k < length s" for k
    using that assms(1) by (simp add: nth_append add.assoc)
  have dots: "\<not> (length s = 1 \<and> path ! ?seg = 0x2E)"
    "\<not> (length s = 2 \<and> path ! ?seg = 0x2E \<and> path ! (?seg + 1) = 0x2E)"
    using nth [of 0] nth [of 1] assms(2,3) by (auto simp: length_Suc_conv numeral_2_eq_2)
  have p: "?p = r @ (0x2F # tl (mid @ 0x2F # s @ x))"
    using assms(1) by (cases mid) (simp_all add: list_update_append)
  have "mslice ?p ?seg (length s) = s"
    using p assms(1) by (cases mid) (simp_all add: mslice_def)
  moreover have "memcpy ?p (length r + 1) s =
      r @ 0x2F # s @ drop (length s) (tl (mid @ 0x2F # s @ x))"
    using p by (simp add: memcpy_def)
  moreover have "drop (length s) (tl (mid @ 0x2F # s @ x)) = drop (1 + length s) ((mid @ 0x2F # s) @ x)"
    by (simp only: append_assoc append_Cons plus_1_eq_Suc drop_Suc)
  then have "drop (length s) (tl (mid @ 0x2F # s @ x)) = drop (1 + length s) (mid @ 0x2F # s) @ x"
    unfolding drop_append by simp
  moreover have "rds_segment path (length r) ?seg (length s) =
      Inr (memcpy ?p (length r + 1) (mslice ?p ?seg (length s)), length r + 1 + length s)"
    by (simp only: rds_segment_def dots if_False Let_def)
  moreover have "length (drop (1 + length s) (mid @ 0x2F # s)) = length mid" by simp
  ultimately show ?thesis by metis
qed

lemma rds_segment_skip:
  "path = r @ mid @ 0x2F # [0x2E] @ x \<Longrightarrow>
   rds_segment path ou (length r + length mid + 1) 1 = Inr (path, ou)"
  by (simp add: rds_segment_def nth_append)

lemma rds_segment_pop:
  assumes "path = render_path st @ mid @ 0x2F # [0x2E, 0x2E] @ x" "list_all no_slash st"
  shows "rds_segment path (length (render_path st)) (length (render_path st) + length mid + 1) 2 =
    (if st = [] then Inl ZCIO_ERR_PROTOCOL else Inr (path, length (render_path (butlast st))))"
proof -
  have dots: "path ! (length (render_path st) + length mid + 1) = 0x2E"
    "path ! (length (render_path st) + length mid + 1 + 1) = 0x2E"
    using assms(1) by (simp_all add: nth_append)
  show ?thesis
  proof (cases st rule: rev_cases)
    case Nil
    with dots show ?thesis by (simp add: rds_segment_def)
  next
    case (snoc ys l)
    then have "pop_seg path (length (render_path ys) + 1 + length l) = length (render_path ys) + 1"
      using assms by (intro pop_seg_scan) auto
    with dots snoc show ?thesis by (simp add: rds_segment_def Let_def)
  qed
qed

text \<open>
  The shortcut for a final slash does what one more turn of the loop would do on the empty last
  segment.
\<close>

lemma rds_loop_plain:
  assumes "i < len"
  shows "rds_loop path len ou i =
    (case rds_segment path ou (i + 1) (seg_end path len (i + 1) - (i + 1)) of
       Inl e \<Rightarrow> Inl e
     | Inr (path1, o1) \<Rightarrow> rds_loop path1 len o1 (seg_end path len (i + 1)))"
proof -
  have stop: "rds_loop p len q (len - 1) = Inr (p[q := 0x2F], q + 1)" if "p ! (len - 1) = 0x2F" for p q
  proof -
    have "seg_end p len (len - 1 + 1) = len" using assms by (subst seg_end.simps) simp
    moreover have "len - 1 < len" "len \<noteq> len - 1" using assms by auto
    moreover have "rds_segment p q len 0 = Inr (p[q := 0x2F], q + 1)" by (simp add: rds_segment_def)
    moreover have "rds_loop p' len q' len = Inr (p', q')" for p' q' by (subst rds_loop.simps) simp
    ultimately show ?thesis using assms by (subst rds_loop.simps) simp
  qed
  show ?thesis
    using assms stop by (subst rds_loop.simps) (auto simp: Let_def split: sum.splits prod.splits)
qed

text \<open>
  The loop invariant: the block is the rendered stack, a gap already read, and the segments to come.
\<close>

definition rds_refines :: "bytes list option \<Rightarrow> nat \<Rightarrow> zcio_result + (bytes \<times> nat) \<Rightarrow> bool" where
  "rds_refines spec n res =
     (case spec of
        None \<Rightarrow> res = Inl ZCIO_ERR_PROTOCOL
      | Some st \<Rightarrow> \<exists>p. res = Inr (p, length (render_path st)) \<and>
          take (length (render_path st)) p = render_path st \<and> length p = n)"

lemma rds_loop_refines:
  assumes "path = render_path st @ mid @ render_path segs @ junk"
    and "list_all no_slash st" "list_all no_slash segs"
    and "ou = length (render_path st)" "i = ou + length mid" "len = i + length (render_path segs)"
  shows "rds_refines (dot_norm st segs) (length path) (rds_loop path len ou i)"
  using assms
proof (induction segs arbitrary: path st mid ou i)
  case Nil
  then show ?case by (simp add: rds_loop.simps rds_refines_def)
next
  case (Cons s ss)
  let ?en = "i + 1 + length s"
  have en: "seg_end path len (i + 1) = ?en"
    using seg_end_scan [where a = "render_path st @ mid @ [0x2F]" and s = s and b = "render_path ss @ junk"
        and len = len and path = path] Cons.prems
    by (cases ss) (auto simp: add.assoc)
  have "i < len" using Cons.prems(6) by simp
  from rds_loop_plain [OF this, of path ou, unfolded en]
  have unfold: "rds_loop path len ou i = (case rds_segment path ou (i + 1) (length s) of
      Inl e \<Rightarrow> Inl e | Inr (path1, o1) \<Rightarrow> rds_loop path1 len o1 ?en)" by simp
  have path: "path = render_path st @ mid @ 0x2F # s @ render_path ss @ junk"
    using Cons.prems(1) by simp
  have IH: "rds_refines (dot_norm sk ss) (length pt) (rds_loop pt len (length (render_path sk)) ?en)"
    if "pt = render_path sk @ md @ render_path ss @ junk" "list_all no_slash sk"
      "?en = length (render_path sk) + length md" for pt sk md
    using that Cons.prems(3,6) by (intro Cons.IH [where mid = md]) auto
  consider (skip) "s = [0x2E]" | (pop) "s = [0x2E, 0x2E]" | (push) "s \<noteq> [0x2E]" "s \<noteq> [0x2E, 0x2E]"
    by blast
  then show ?case
  proof cases
    case skip
    have "rds_segment path ou (i + 1) (length s) = Inr (path, ou)"
      using rds_segment_skip [of path "render_path st" mid "render_path ss @ junk" ou] path skip
        Cons.prems(4,5) by simp
    with unfold have "rds_loop path len ou i = rds_loop path len (length (render_path st)) ?en"
      using Cons.prems(4) by simp
    moreover have "rds_refines (dot_norm st ss) (length path) (rds_loop path len (length (render_path st)) ?en)"
      using path Cons.prems by (intro IH [where md = "mid @ 0x2F # s"]) auto
    ultimately show ?thesis using skip by simp
  next
    case pop
    have seg: "rds_segment path ou (i + 1) (length s) =
        (if st = [] then Inl ZCIO_ERR_PROTOCOL else Inr (path, length (render_path (butlast st))))"
      using rds_segment_pop [of path st mid "render_path ss @ junk"] path pop Cons.prems(2,4,5)
      by (simp add: numeral_2_eq_2)
    show ?thesis
    proof (cases st rule: rev_cases)
      case Nil
      with seg unfold pop show ?thesis by (simp add: rds_refines_def)
    next
      case (snoc ys l)
      with seg unfold have "rds_loop path len ou i = rds_loop path len (length (render_path ys)) ?en" by simp
      moreover have "rds_refines (dot_norm ys ss) (length path) (rds_loop path len (length (render_path ys)) ?en)"
        using path Cons.prems snoc by (intro IH [where md = "0x2F # l @ mid @ 0x2F # s"]) auto
      ultimately show ?thesis using pop snoc by simp
    qed
  next
    case push
    obtain mid' where mid': "length mid' = length mid" "rds_segment path ou (i + 1) (length s) =
        Inr (render_path st @ 0x2F # s @ mid' @ render_path ss @ junk, ou + 1 + length s)"
      using rds_segment_push [OF path] push Cons.prems(4,5) by auto
    let ?p = "render_path (st @ [s]) @ mid' @ render_path ss @ junk"
    have "length ?p = length path" using mid'(1) path by simp
    moreover have "rds_loop path len ou i = rds_loop ?p len (length (render_path (st @ [s]))) ?en"
      using unfold mid' Cons.prems(4) by simp
    moreover have "rds_refines (dot_norm (st @ [s]) ss) (length ?p)
        (rds_loop ?p len (length (render_path (st @ [s]))) ?en)"
      using path Cons.prems mid'(1) by (intro IH [where md = mid']) auto
    ultimately show ?thesis using push by simp
  qed
qed

lemma split_segments: "\<exists>segs. segs \<noteq> [] \<and> list_all no_slash segs \<and> 0x2F # q = render_path segs"
proof (induction q)
  case Nil
  show ?case by (intro exI [of _ "[[]]"]) simp
next
  case (Cons c q)
  then obtain s ss where q: "list_all no_slash (s # ss)" "0x2F # q = render_path (s # ss)"
    by (metis neq_Nil_conv)
  show ?case
  proof (cases "c = 0x2F")
    case True
    with q show ?thesis by (intro exI [of _ "[] # s # ss"]) simp
  next
    case False
    with q show ?thesis by (intro exI [of _ "(c # s) # ss"]) simp
  qed
qed

lemma dot_norm_clean:
  assumes "dot_norm st segs = Some st'" "list_all no_slash st" "list_all no_slash segs"
    and "[0x2E] \<notin> set st" "[0x2E, 0x2E] \<notin> set st"
  shows "list_all no_slash st' \<and> [0x2E] \<notin> set st' \<and> [0x2E, 0x2E] \<notin> set st'"
  using assms
proof (induction st segs rule: dot_norm.induct)
  case (2 st s ss)
  have "set (butlast st) \<subseteq> set st" by (auto dest: in_set_butlastD)
  with 2 show ?case by (auto simp: list_all_iff split: if_splits)
qed simp

lemma remove_dot_segments_spec:
  assumes "list_all no_slash segs" "segs \<noteq> []"
  shows "remove_dot_segments (render_path segs @ junk) (length (render_path segs)) =
      Inl ZCIO_ERR_PROTOCOL \<and> dot_norm [] segs = None \<or>
    (\<exists>st p n. dot_norm [] segs = Some st \<and>
      remove_dot_segments (render_path segs @ junk) (length (render_path segs)) = Inr (p, n) \<and>
      take n p = (if st = [] then [0x2F] else render_path st))"
proof -
  note r = rds_loop_refines [of "render_path segs @ junk" "[]" "[]" segs junk 0 0 "length (render_path segs)"]
  show ?thesis
  proof (cases "dot_norm [] segs")
    case None
    with r assms show ?thesis by (simp add: remove_dot_segments_def rds_refines_def)
  next
    case (Some st)
    then obtain p where p: "rds_loop (render_path segs @ junk) (length (render_path segs)) 0 0 =
        Inr (p, length (render_path st))" "take (length (render_path st)) p = render_path st"
        "length p = length (render_path segs @ junk)"
      using r assms by (auto simp: rds_refines_def)
    have "p \<noteq> []" using p(3) assms(2) by (cases segs) auto
    then have "take 1 (p[0 := 0x2F]) = [0x2F]" by (cases p) auto
    then show ?thesis
      using p Some by (cases st) (auto simp: remove_dot_segments_def)
  qed
qed


subsection \<open>What a decoded target looks like\<close>

abbreviation no_ctl :: "byte \<Rightarrow> bool" where
  "no_ctl c \<equiv> \<not> (c < 0x20 \<or> c = 0x7F)"

lemma pct_decode_loop_ok:
  "pct_decode_loop input out = Inr r \<Longrightarrow>
   \<exists>d. r = out @ d \<and> length d \<le> length input \<and> list_all no_ctl d"
proof (induction input out rule: pct_decode_loop.induct)
  case (1 input out)
  show ?case
  proof (cases input)
    case Nil
    with 1(3) show ?thesis by (simp add: pct_decode_loop.simps)
  next
    case (Cons c0 rest)
    show ?thesis
    proof (cases "c0 = 0x25")
      case True
      let ?c = "word_of_int (hexval (input ! 1) * 16 + hexval (input ! 2)) :: byte"
      have ok: "3 \<le> length input" "\<not> (hexval (input ! 1) < 0 \<or> hexval (input ! 2) < 0)" "no_ctl ?c"
        "pct_decode_loop (drop 3 input) (out @ [?c]) = Inr r"
        using 1(3) Cons True
        by (subst (asm) pct_decode_loop.simps, simp add: Let_def split: if_splits)+
      from 1(1) [OF Cons True _ refl refl ok(2) refl] ok(1,3,4) obtain d where
        "r = (out @ [?c]) @ d" "length d \<le> length (drop 3 input)" "list_all no_ctl d" by auto
      with ok(1,3) show ?thesis by (intro exI [of _ "?c # d"]) simp
    next
      case False
      then have ok: "no_ctl c0" "pct_decode_loop rest (out @ [c0]) = Inr r"
        using 1(3) Cons by (subst (asm) pct_decode_loop.simps, simp split: if_splits)+
      from 1(2) [OF Cons False] ok obtain d where
        "r = (out @ [c0]) @ d" "length d \<le> length rest" "list_all no_ctl d" by auto
      with ok(1) Cons show ?thesis by (intro exI [of _ "c0 # d"]) simp
    qed
  qed
qed

lemma pct_decode_rooted:
  assumes "pct_decode (0x2F # rest) = Inr dec"
  shows "\<exists>d. dec = 0x2F # d \<and> length d \<le> length rest \<and> list_all no_ctl d"
  using assms pct_decode_loop_ok [of rest "[0x2F]" dec]
  by (auto simp: pct_decode_def pct_decode_loop.simps [of "0x2F # rest"])

lemma dot_norm_bounds:
  "dot_norm st segs = Some st' \<Longrightarrow>
   length (render_path st') \<le> length (render_path st) + length (render_path segs) \<and>
   set (render_path st') \<subseteq> set (render_path st) \<union> set (render_path segs)"
proof (induction st segs rule: dot_norm.induct)
  case (2 st s ss)
  have "length (render_path (butlast st)) \<le> length (render_path st)"
    "set (render_path (butlast st)) \<subseteq> set (render_path st)"
    by (cases st rule: rev_cases; auto)+
  with 2 show ?case by (auto split: if_splits)
qed simp

lemma takeWhile_rooted:
  "raw \<noteq> [] \<Longrightarrow> raw ! 0 = (0x2F :: byte) \<Longrightarrow>
   take (length (takeWhile (\<lambda>c. c \<noteq> 0x3F) raw)) raw = 0x2F # takeWhile (\<lambda>c. c \<noteq> 0x3F) (tl raw)"
  by (cases raw) (simp_all add: takeWhile_eq_take [symmetric] flip: takeWhile_eq_take)


subsection \<open>Properties\<close>

lemma decode_target_confined:
  assumes "\<And>n. length (junk n) = n" "zhs_decode_target alloc junk (Some raw) lim = Inr (path, query)"
  shows "length path \<le> length raw \<and> length raw \<le> max_url_bytes lim \<and> list_all no_ctl path \<and>
    (path = [0x2A] \<and> raw = [0x2A] \<or>
     (\<exists>segs. segs \<noteq> [] \<and> path = render_path segs \<and> list_all no_slash segs \<and>
       [0x2E] \<notin> set segs \<and> [0x2E, 0x2E] \<notin> set segs))"
proof (cases "raw = [0x2A]")
  case True
  with assms(2) show ?thesis by (auto simp: zhs_decode_target_def split: if_splits)
next
  case False
  let ?plen = "length (takeWhile (\<lambda>c. c \<noteq> 0x3F) raw)"
  have raw: "raw \<noteq> []" "length raw \<le> max_url_bytes lim" "raw ! 0 = 0x2F"
    using assms(2) False by (auto simp: zhs_decode_target_def split: if_splits)
  from assms(2) False raw obtain dec p n where
    dec: "pct_decode (take ?plen raw) = Inr dec"
    and rds: "remove_dot_segments (memcpy (junk (?plen + 2)) 0 dec) (length dec) = Inr (p, n)"
    and path: "path = take n p"
    by (auto simp: zhs_decode_target_def Let_def split: if_splits sum.splits prod.splits)
  obtain d where d: "dec = 0x2F # d" "length d \<le> length (takeWhile (\<lambda>c. c \<noteq> 0x3F) (tl raw))" "list_all no_ctl d"
    using pct_decode_rooted [of "takeWhile (\<lambda>c. c \<noteq> 0x3F) (tl raw)" dec] dec
    unfolding takeWhile_rooted [OF raw(1,3)] by blast
  have len: "length dec \<le> length raw"
    using d(1,2) raw(1) length_takeWhile_le [of "\<lambda>c. c \<noteq> 0x3F" "tl raw"] by (cases raw) auto
  obtain segs where segs: "segs \<noteq> []" "list_all no_slash segs" "dec = render_path segs"
    using split_segments [of d] d(1) by auto
  define jk where "jk = drop (length dec) (junk (?plen + 2))"
  have "memcpy (junk (?plen + 2)) 0 dec = render_path segs @ jk"
    using segs(3) by (simp add: memcpy_def jk_def)
  with rds have rds': "remove_dot_segments (render_path segs @ jk) (length (render_path segs)) = Inr (p, n)"
    using segs(3) by simp
  obtain st where st: "dot_norm [] segs = Some st" "take n p = (if st = [] then [0x2F] else render_path st)"
    using remove_dot_segments_spec [OF segs(2,1), of jk] rds' by auto
  note clean = dot_norm_clean [OF st(1)] and bounds = dot_norm_bounds [OF st(1)]
  have "list_all no_ctl dec" using d by simp
  then have "list_all no_ctl (render_path st)" using bounds segs(3) by (auto simp: list_all_iff)
  moreover have "length (render_path st) \<le> length raw" using bounds segs(3) len by simp
  moreover have "1 \<le> length raw" using raw(1) by (cases raw) auto
  ultimately show ?thesis
    using path st(2) clean segs(2) raw(2)
    by (cases "st = []") (auto intro: exI [of _ "[[]]"] exI [of _ st])
qed

text \<open>
  C11. The request path a handler sees cannot leave the document root: a decoded target is \<open>*\<close>,
  or a rooted path none of whose segments is \<open>.\<close> or \<open>..\<close> - percent-encoded dots and slashes
  included, because decoding comes first - free of control bytes and no longer than the target on
  the wire, itself within the configured limit. The hypothesis is the allocator's contract.
\<close>

theorem decoded_target_confined:
  assumes "\<And>n. length (junk n) = n" "zhs_decode_target alloc junk (Some raw) lim = Inr (path, query)"
  shows "length path \<le> length raw \<and> length raw \<le> max_url_bytes lim \<and> list_all no_ctl path \<and>
    (path = [0x2A] \<and> raw = [0x2A] \<or>
     (\<exists>segs. segs \<noteq> [] \<and> path = render_path segs \<and> list_all no_slash segs \<and>
       [0x2E] \<notin> set segs \<and> [0x2E, 0x2E] \<notin> set segs))"
  using decode_target_confined [OF assms] .

theorem decoded_target_confined_witness:
  "zhs_decode_target (\<lambda>n. True) (\<lambda>n. replicate n 0) (Some (asc ''/%2e'')) (zhs_limits_resolve None) =
     Inr (asc ''/'', None) \<and>
   (\<exists>segs. asc ''/'' = render_path segs \<and> [0x2E, 0x2E] \<notin> set segs)"
proof -
  have "pct_decode (asc ''/%2e'') = Inr [47, 46]"
    by (simp add: pct_decode_def pct_decode_loop.simps hexval_def)
  moreover have "remove_dot_segments [47, 46, 0, 0, 0, 0] (Suc (Suc 0)) = Inr ([47, 46, 0, 0, 0, 0], 1)"
    by (simp add: remove_dot_segments_def rds_loop.simps seg_end.simps rds_segment_def)
  ultimately have r: "zhs_decode_target (\<lambda>n. True) (\<lambda>n. replicate n 0) (Some (asc ''/%2e''))
      (zhs_limits_resolve None) = Inr (asc ''/'', None)"
    by (simp add: zhs_decode_target_def zhs_limits_resolve_def memcpy_def)
  from decoded_target_confined [OF _ r] have "asc ''/'' = [0x2A] \<or>
      (\<exists>segs. asc ''/'' = render_path segs \<and> [0x2E, 0x2E] \<notin> set segs)" by auto
  then show ?thesis using r by simp
qed



text \<open>
  C32. The table-driven UTF-8 automaton accepts a byte string exactly when it is the concatenated
  encoding of Unicode scalar values: no overlong form, no surrogate, nothing above U+10FFFF, no
  truncated sequence.
\<close>

theorem utf8_valid_iff_encoding:
  "zhs_utf8_valid s \<longleftrightarrow> (\<exists>cs. list_all scalar_value cs \<and> s = concat (map utf8_encode cs))"
  using utf8_run_decodes [of s] utf8_run_encodes
  by (auto simp: zhs_utf8_valid_def ZHS_UTF8_ACCEPT_def)

text \<open>
  The growable buffer is a byte queue: an append that succeeds adds its bytes at the back, a
  failed one changes nothing readable, consuming drops from the front, no operation breaks
  \<open>off \<le> len \<le> cap\<close>, and after a consume the dead prefix is below 4096 bytes or shorter than
  what is left to read.
\<close>

theorem zhs_buf_is_queue:
  assumes "zb_wf b"
  shows "(\<forall>r b'. zhs_buf_append alloc b s = (r, b') \<longrightarrow>
      zb_wf b' \<and> ZHS_PTR b' = (if r = ZCIO_OK then ZHS_PTR b @ s else ZHS_PTR b)) \<and>
    zb_wf (zhs_buf_consume b n) \<and> ZHS_PTR (zhs_buf_consume b n) = drop n (ZHS_PTR b) \<and>
    (zb_off (zhs_buf_consume b n) < 4096 \<or>
     zb_off (zhs_buf_consume b n) < length (ZHS_PTR (zhs_buf_consume b n)))"
  using zb.push_law [OF assms] zb.pop_law [OF assms] consume_dead_prefix [OF assms refl] by blast

text \<open>
  A header list never outgrows its budget: from an empty list, adding any fields in any order
  keeps at most \<open>max_headers\<close> of them, with names and values (plus 32 per field) within twice
  \<open>max_header_bytes\<close>; the byte count the list carries is exact.
\<close>

theorem header_list_bounded:
  assumes "hdrs_wf lim h" "zhs_hdrs_add alloc h name value lim lower = (r, h')" "max_header_bytes lim \<le> SIZE_MAX div 2"
  shows "hdrs_wf lim h' \<and> length (hs_v h') \<le> max_headers lim \<and>
    sum_list (map hdr_cost (hs_v h')) \<le> 2 * max_header_bytes lim \<and>
    hs_v h' = (if r = ZCIO_OK then hs_v h @ [(if lower then map tolower name else name, value)] else hs_v h)"
  using hdrs_add_wf [OF assms(1,2)] hdrs_add_cases [OF assms(2)] assms(3) by (auto simp: hdrs_wf_def)

end
