(* ===== verification/Zc_Hpack.thy ===== *)
theory Zc_Hpack
  imports Zc_HttpUtil
begin

text \<open>
  HPACK header compression (\<open>src/hpack.c\<close>): prefixed integers, the Huffman decoder over the
  canonical count/symbol tables, the static table, the decoder's dynamic table, the block decoder
  and the stateless encoder. A position in a block is the rest of the block: \<open>block + pos\<close> with
  \<open>len - pos\<close> bytes.
\<close>

subsection \<open>Prefixed integers\<close>

definition ZHP_INT_MAX :: u64 where
  "ZHP_INT_MAX = push_bit 24 1"

text \<open>The continuation octets: the number of bytes consumed and the value.\<close>

fun int_cont :: "bytes \<Rightarrow> nat \<Rightarrow> nat \<Rightarrow> u64 \<Rightarrow> zcio_result + (nat \<times> u64)" where
  "int_cont [] i shift v = Inl ZCIO_ERR_PROTOCOL"
| "int_cont (b # bs) i shift v =
     (let v1 = v + push_bit shift (ucast (b AND 0x7F)) in
      if v1 > ZHP_INT_MAX then Inl ZCIO_ERR_PROTOCOL
      else if b AND 0x80 = 0 then Inr (i + 1, v1)
      else if shift + 7 \<ge> 28 then Inl ZCIO_ERR_PROTOCOL
      else int_cont bs (i + 1) (shift + 7) v1)"

definition zhp_int_decode :: "bytes \<Rightarrow> nat \<Rightarrow> zcio_result + (nat \<times> u64)" where
  "zhp_int_decode p prefix_bits =
     (case p of
        [] \<Rightarrow> Inl ZCIO_ERR_PROTOCOL
      | b # bs \<Rightarrow>
          (let prefix_max = push_bit prefix_bits (1 :: u64) - 1;
               v = ucast b AND prefix_max
           in if v < prefix_max then Inr (1, v) else int_cont bs 1 0 v))"

function int_enc_loop :: "allocator \<Rightarrow> u64 \<Rightarrow> zhs_buf \<Rightarrow> zcio_result \<times> zhs_buf" where
  "int_enc_loop alloc v out =
     (if v \<ge> 128
      then and_then (zhs_buf_append_u8 alloc out (0x80 OR ucast (v AND 0x7F)))
             (int_enc_loop alloc (drop_bit 7 v))
      else zhs_buf_append_u8 alloc out (ucast v))"
  by pat_completeness auto
termination
proof (relation "measure (\<lambda>(alloc, v, out). unat v)")
  fix v :: u64
  assume "128 \<le> v"
  then have "0 < unat v" by (simp add: word_le_nat_alt)
  then show "((alloc, drop_bit 7 v, y), (alloc :: allocator), v, out :: zhs_buf) \<in> measure (\<lambda>(alloc, v, out). unat v)"
    for alloc out and y :: zhs_buf
    by (simp add: drop_bit_eq_div unat_div_distrib)
qed simp

declare int_enc_loop.simps [simp del]

definition zhp_int_encode :: "allocator \<Rightarrow> zhs_buf \<Rightarrow> nat \<Rightarrow> byte \<Rightarrow> u64 \<Rightarrow> zcio_result \<times> zhs_buf" where
  "zhp_int_encode alloc out prefix_bits fl v =
     (let prefix_max = (ucast (push_bit prefix_bits (1 :: u32) - 1) :: byte) in
      if v < ucast prefix_max then zhs_buf_append_u8 alloc out (fl OR ucast v)
      else and_then (zhs_buf_append_u8 alloc out (fl OR prefix_max))
             (int_enc_loop alloc (v - ucast prefix_max)))"

text \<open>The bytes the encoder appends.\<close>

function int_cont_bytes :: "nat \<Rightarrow> bytes" where
  "int_cont_bytes v = (if 128 \<le> v then of_nat (128 + v mod 128) # int_cont_bytes (v div 128) else [of_nat v])"
  by pat_completeness auto
termination
  by (relation "measure id") auto

declare int_cont_bytes.simps [simp del]

definition int_bytes :: "nat \<Rightarrow> byte \<Rightarrow> nat \<Rightarrow> bytes" where
  "int_bytes prefix_bits fl v =
     (if v < 2 ^ prefix_bits - 1 then [fl OR of_nat v]
      else (fl OR of_nat (2 ^ prefix_bits - 1)) # int_cont_bytes (v - (2 ^ prefix_bits - 1)))"

lemma int_enc_loop_writes: "writes (int_enc_loop alloc v) (int_cont_bytes (unat v))"
proof (induction "unat v" arbitrary: v rule: less_induct)
  case less
  show ?case
  proof (cases "v \<ge> 128")
    case True
    then have v: "128 \<le> unat v" by (simp add: word_le_nat_alt)
    have d: "unat (drop_bit 7 v) = unat v div 128" by (simp add: drop_bit_eq_div unat_div_distrib)
    with v have "writes (int_enc_loop alloc (drop_bit 7 v)) (int_cont_bytes (unat v div 128))"
      using less [of "drop_bit 7 v"] by simp
    from writes_then [OF writes_append_u8 this, of alloc "0x80 OR ucast (v AND 0x7F)"] show ?thesis
      using True v by (subst int_enc_loop.simps [abs_def], subst int_cont_bytes.simps) (simp add: or_80_ucast)
  next
    case False
    then have "unat v < 128" by (simp add: word_less_nat_alt not_le)
    with False show ?thesis
      using writes_append_u8 [of alloc "ucast v"]
      by (subst int_enc_loop.simps [abs_def], subst int_cont_bytes.simps) simp
  qed
qed

lemma prefix_max_unat:
  assumes "1 \<le> k" "k \<le> 8"
  shows "unat (ucast (push_bit k (1 :: u32) - 1) :: byte) = 2 ^ k - 1"
    and "unat (push_bit k (1 :: u64) - 1) = 2 ^ k - 1"
proof -
  have "k \<in> {1, 2, 3, 4, 5, 6, 7, 8}" using assms by auto
  then show "unat (ucast (push_bit k (1 :: u32) - 1) :: byte) = 2 ^ k - 1"
    "unat (push_bit k (1 :: u64) - 1) = 2 ^ k - 1"
    by (auto simp: push_bit_eq_mult)
qed


lemma int_encode_writes:
  assumes "1 \<le> k" "k \<le> 8"
  shows "writes (\<lambda>out. zhp_int_encode alloc out k fl v) (int_bytes k fl (unat v))"
proof -
  define m where "m = (ucast (push_bit k (1 :: u32) - 1) :: byte)"
  have m: "unat m = 2 ^ k - 1" unfolding m_def by (rule prefix_max_unat [OF assms])
  have um: "unat (ucast m :: u64) = 2 ^ k - 1" using m unsigned_less [of m, where ?'a = nat] by (simp add: unsigned_ucast_eq take_bit_nat_eq_self)
  have m': "(of_nat (2 ^ k - 1) :: byte) = m" using m by (metis of_nat_unat ucast_id)
  have enc: "zhp_int_encode alloc out k fl v =
      (if v < ucast m then zhs_buf_append_u8 alloc out (fl OR ucast v)
       else and_then (zhs_buf_append_u8 alloc out (fl OR m)) (int_enc_loop alloc (v - ucast m)))" for out
    by (simp only: zhp_int_encode_def Let_def m_def)
  show ?thesis
  proof (cases "v < ucast m")
    case True
    then have "unat v < 2 ^ k - 1" using um by (simp add: word_less_nat_alt)
    with True show ?thesis
      using writes_append_u8 [of alloc "fl OR ucast v"]
      by (simp add: enc int_bytes_def)
  next
    case False
    then have "unat (v - ucast m) = unat v - (2 ^ k - 1)" "\<not> unat v < 2 ^ k - 1"
      using um by (simp_all add: word_less_nat_alt unat_sub word_le_nat_alt)
    with False show ?thesis
      using writes_then [OF writes_append_u8 int_enc_loop_writes, of alloc "fl OR m" alloc "v - ucast m"] m'
      by (simp add: enc int_bytes_def)
  qed
qed

lemma int_max_unat: "unat ZHP_INT_MAX = 2 ^ 24"
  by (simp add: ZHP_INT_MAX_def push_bit_eq_mult)

lemma le_int_max: "n < 2 ^ 64 \<Longrightarrow> (of_nat n :: u64) > ZHP_INT_MAX \<longleftrightarrow> 2 ^ 24 < n"
  by (simp add: word_less_nat_alt int_max_unat unat_of_nat)

lemma push_bit_of_nat_u64: "push_bit s (of_nat m :: u64) = of_nat (m * 2 ^ s)"
  by (simp add: push_bit_eq_mult)

lemma int_cont_decodes:
  assumes "n + m * 2 ^ s \<le> 2 ^ 24" "s \<le> 21" "7 dvd s"
  shows "int_cont (int_cont_bytes m @ rest) i s (of_nat n) =
    Inr (i + length (int_cont_bytes m), of_nat (n + m * 2 ^ s))"
  using assms
proof (induction m arbitrary: i s n rule: int_cont_bytes.induct)
  case (1 m)
  show ?case
  proof (cases "128 \<le> m")
    case False
    then have "(of_nat m AND 0x80 :: byte) = 0" "ucast (of_nat m AND 0x7F :: byte) = (of_nat m :: u64)"
      using and_80_of_nat [of m] ucast_and_7F [of m] by simp_all
    moreover have "\<not> (of_nat (n + m * 2 ^ s) :: u64) > ZHP_INT_MAX"
      using 1(2) by (subst le_int_max) auto
    ultimately show ?thesis
      using False by (subst (1 2) int_cont_bytes.simps) (simp add: push_bit_of_nat_u64 Let_def)
  next
    case True
    let ?b = "of_nat (128 + m mod 128) :: byte" and ?n = "n + (m mod 128) * 2 ^ s"
    have b: "?b AND 0x80 \<noteq> 0" "ucast (?b AND 0x7F) = (of_nat (m mod 128) :: u64)"
      using and_80_of_nat [of "128 + m mod 128"] ucast_and_7F [of "128 + m mod 128"]
      by (simp_all del: of_nat_add)
    have sum: "?n + m div 128 * 2 ^ (s + 7) = n + m * 2 ^ s"
    proof -
      have "m * 2 ^ s = (m div 128 * 128 + m mod 128) * 2 ^ s" by simp
      also have "\<dots> = m div 128 * 128 * 2 ^ s + m mod 128 * 2 ^ s" by (rule distrib_right)
      finally show ?thesis by (simp add: power_add)
    qed
    have "2 ^ (s + 7) \<le> m * 2 ^ s" using True by (simp add: power_add)
    then have "2 ^ (s + 7) \<le> (2 :: nat) ^ 24" using 1(2) by linarith
    then have s: "s + 7 \<le> 24" by (rule power_le_imp_le_exp [rotated]) simp
    have "\<not> (of_nat ?n :: u64) > ZHP_INT_MAX" using 1(2) sum by (subst le_int_max) auto
    then have "int_cont (?b # int_cont_bytes (m div 128) @ rest) i s (of_nat n) =
        int_cont (int_cont_bytes (m div 128) @ rest) (i + 1) (s + 7) (of_nat ?n)"
      using b s by (simp add: push_bit_of_nat_u64 Let_def del: of_nat_add of_nat_mult) (simp add: algebra_simps)
    also have "\<dots> = Inr (i + 1 + length (int_cont_bytes (m div 128)), of_nat (?n + m div 128 * 2 ^ (s + 7)))"
    proof (rule 1(1) [OF True])
      show "s + 7 \<le> 21" using s 1(4) by presburger
    qed (use 1(2,4) sum in auto)
    finally show ?thesis
      using True unfolding sum by (subst (1 2) int_cont_bytes.simps) simp
  qed
qed


lemma take_bit_or_flags:
  assumes "take_bit k fl = 0" "m < 2 ^ k" "k \<le> 8"
  shows "take_bit k (ucast (fl OR of_nat m :: byte) :: u64) = of_nat m"
proof -
  have "take_bit k (fl OR of_nat m :: byte) = of_nat m"
    using assms by (simp add: take_bit_or take_bit_of_nat take_bit_nat_eq_self)
  then have "take_bit k (ucast (fl OR of_nat m :: byte) :: u64) = ucast (of_nat m :: byte)"
    by (metis unsigned_take_bit_eq)
  also have "\<dots> = of_nat m"
  proof -
    have "(2 :: nat) ^ k \<le> 2 ^ 8" using assms(3) by (rule power_increasing) simp
    then show ?thesis using assms(2) by (simp add: unsigned_of_nat take_bit_nat_eq_self)
  qed
  finally show ?thesis .
qed

lemma of_nat_less_u64: "a < 2 ^ 64 \<Longrightarrow> b < 2 ^ 64 \<Longrightarrow> (of_nat a :: u64) < of_nat b \<longleftrightarrow> a < b"
  by (simp add: word_less_nat_alt unat_of_nat)

lemma int_decode_bytes:
  assumes "1 \<le> k" "k \<le> 8" "take_bit k fl = 0" "n \<le> 2 ^ 24"
  shows "zhp_int_decode (int_bytes k fl n @ rest) k = Inr (length (int_bytes k fl n), of_nat n)"
proof -
  let ?m = "2 ^ k - 1 :: nat"
  have m: "push_bit k (1 :: u64) - 1 = of_nat ?m" "?m < 2 ^ 8"
  proof -
    show "push_bit k (1 :: u64) - 1 = of_nat ?m"
      using prefix_max_unat(2) [OF assms(1,2)] by (metis of_nat_unat ucast_id)
    have "(2 :: nat) ^ k \<le> 2 ^ 8" using assms(2) by (rule power_increasing) simp
    then show "?m < 2 ^ 8" by simp
  qed
  have v: "ucast (fl OR of_nat j :: byte) AND (push_bit k (1 :: u64) - 1) = of_nat j" if "j \<le> ?m" for j
  proof -
    have "push_bit k (1 :: u64) - 1 = mask k" by (simp add: mask_eq_exp_minus_1)
    moreover have "j < 2 ^ k" using that by (metis Suc_pred less_Suc_eq_le One_nat_def zero_less_power zero_less_numeral)
    ultimately show ?thesis using take_bit_or_flags [OF assms(3) _ assms(2), of j] by (simp add: take_bit_eq_mask)
  qed
  show ?thesis
  proof (cases "n < ?m")
    case True
    then have "(of_nat n :: u64) < of_nat ?m" using m(2) by (intro of_nat_less_u64 [THEN iffD2]) auto
    with True v [of n] show ?thesis
      unfolding zhp_int_decode_def int_bytes_def m(1) [symmetric]
      by (simp add: Let_def m(1))
  next
    case False
    have "int_cont (int_cont_bytes (n - ?m) @ rest) 1 0 (of_nat ?m) =
        Inr (1 + length (int_cont_bytes (n - ?m)), of_nat (?m + (n - ?m) * 2 ^ 0))"
      using False assms(4) by (intro int_cont_decodes) auto
    with False v [of ?m] show ?thesis
      by (simp add: zhp_int_decode_def int_bytes_def Let_def)
  qed
qed


lemma int_cont_bounds:
  "int_cont xs i s v = Inr (c, w) \<Longrightarrow> s < 28 \<Longrightarrow> i < c \<and> c \<le> i + length xs \<and> w \<le> ZHP_INT_MAX \<and> 7 * (c - i) < 35 - s"
proof (induction xs i s v rule: int_cont.induct)
  case (2 b bs i s v)
  let ?v = "v + push_bit s (ucast (b AND 0x7F))"
  note IH = 2(1) [OF refl]
  consider (last) "\<not> ?v > ZHP_INT_MAX" "c = i + 1" "w = ?v" "s < 28"
    | (more) "\<not> ?v > ZHP_INT_MAX" "b AND 0x80 \<noteq> 0" "\<not> s + 7 \<ge> 28" "int_cont bs (i + 1) (s + 7) ?v = Inr (c, w)"
    using 2(2,3) by (auto simp: Let_def split: if_splits)
  then show ?case
  proof cases
    case last
    then show ?thesis by (auto simp: not_less)
  next
    case more
    from IH [OF more] show ?thesis using more(3) by auto
  qed
qed simp

lemma int_decode_bounds:
  assumes "zhp_int_decode p k = Inr (c, w)" "k \<le> 8"
  shows "1 \<le> c" "c \<le> length p" "c \<le> 5" "unat w \<le> 2 ^ 24"
proof -
  have small: "unat (ucast (b :: byte) AND m :: u64) < 256" for b m
  proof -
    have "(ucast b AND m :: u64) = ucast (b AND ucast m)" by (rule bit_word_eqI) (auto simp: bit_simps dest: bit_imp_le_length)
    moreover have "unat (ucast x :: u64) < 256" for x :: byte
      using unsigned_less [of x, where ?'a = nat] by (simp add: unsigned_ucast_eq take_bit_nat_eq_self)
    ultimately show ?thesis by simp
  qed
  have "1 \<le> c \<and> c \<le> length p \<and> c \<le> 5 \<and> unat w \<le> 2 ^ 24"
  proof (cases p)
    case (Cons b bs)
    let ?m = "push_bit k (1 :: u64) - 1"
    show ?thesis
    proof (cases "ucast b AND ?m < ?m")
      case True
      with assms(1) Cons have "c = 1" "w = ucast b AND ?m" by (auto simp: zhp_int_decode_def Let_def)
      with small [of b ?m] Cons show ?thesis by simp
    next
      case False
      with assms(1) Cons have "int_cont bs 1 0 (ucast b AND ?m) = Inr (c, w)"
        by (simp add: zhp_int_decode_def Let_def)
      from int_cont_bounds [OF this] Cons show ?thesis
        using int_max_unat by (auto simp: word_le_nat_alt)
    qed
  qed (use assms(1) in \<open>simp add: zhp_int_decode_def\<close>)
  then show "1 \<le> c" "c \<le> length p" "c \<le> 5" "unat w \<le> 2 ^ 24" by simp_all
qed

subsection \<open>Huffman decoding\<close>

definition HUFF_COUNT :: "nat list" where
  "HUFF_COUNT = [
    0, 0, 0, 0, 0, 10, 26, 32, 6, 0, 5, 3, 2, 6, 2, 3, 0, 0, 0, 3,
    8, 13, 26, 29, 12, 4, 15, 19, 29, 0, 4]"

definition HUFF_SYMBOL :: "nat list" where
  "HUFF_SYMBOL = [
    48, 49, 50, 97, 99, 101, 105, 111, 115, 116, 32, 37, 45, 46, 47, 51, 52, 53, 54, 55,
    56, 57, 61, 65, 95, 98, 100, 102, 103, 104, 108, 109, 110, 112, 114, 117, 58, 66, 67, 68,
    69, 70, 71, 72, 73, 74, 75, 76, 77, 78, 79, 80, 81, 82, 83, 84, 85, 86, 87, 89,
    106, 107, 113, 118, 119, 120, 121, 122, 38, 42, 44, 59, 88, 90, 33, 34, 40, 41, 63, 39,
    43, 124, 35, 62, 0, 36, 64, 91, 93, 126, 94, 125, 60, 96, 123, 92, 195, 208, 128, 130,
    131, 162, 184, 194, 224, 226, 153, 161, 167, 172, 176, 177, 179, 209, 216, 217, 227, 229, 230, 129,
    132, 133, 134, 136, 146, 154, 156, 160, 163, 164, 169, 170, 173, 178, 181, 185, 186, 187, 189, 190,
    196, 198, 228, 232, 233, 1, 135, 137, 138, 139, 140, 141, 143, 147, 149, 150, 151, 152, 155, 157,
    158, 165, 166, 168, 174, 175, 180, 182, 183, 188, 191, 197, 231, 239, 9, 142, 144, 145, 148, 159,
    171, 206, 215, 225, 236, 237, 199, 207, 234, 235, 192, 193, 200, 201, 202, 205, 210, 213, 218, 219,
    238, 240, 242, 243, 255, 203, 204, 211, 212, 214, 221, 222, 223, 241, 244, 245, 246, 247, 248, 250,
    251, 252, 253, 254, 2, 3, 4, 5, 6, 7, 8, 11, 12, 14, 15, 16, 17, 18, 19, 20,
    21, 23, 24, 25, 26, 27, 28, 29, 30, 31, 127, 220, 249, 10, 13, 22, 256]"

text \<open>\<open>(in[pos >> 3] >> (7 - (pos & 7))) & 1\<close>\<close>

definition huff_bit :: "bytes \<Rightarrow> nat \<Rightarrow> bool" where
  "huff_bit inp pos = bit (inp ! (pos div 8)) (7 - pos mod 8)"

text \<open>
  The three results of \<open>huff_symbol\<close>: a symbol (0), out of input (1), no code (-1), the first with
  the bit position after it. The values of \<open>code\<close> and \<open>first\<close> stay below \<open>2^31\<close>.
\<close>

datatype huff_result = HuffSym nat nat | HuffPad | HuffBad

function huff_symbol_loop :: "bytes \<Rightarrow> nat \<Rightarrow> nat \<Rightarrow> nat \<Rightarrow> nat \<Rightarrow> nat \<Rightarrow> nat \<Rightarrow> huff_result" where
  "huff_symbol_loop inp total_bits len bitpos code fs index =
     (if len \<le> 30 then
        (if bitpos \<ge> total_bits then HuffPad
         else
           (let code1 = 2 * code + of_bool (huff_bit inp bitpos);
                cnt = HUFF_COUNT ! len
            in if code1 < fs + cnt then HuffSym (HUFF_SYMBOL ! (index + (code1 - fs))) (bitpos + 1)
               else huff_symbol_loop inp total_bits (len + 1) (bitpos + 1) code1 (2 * (fs + cnt)) (index + cnt)))
      else HuffBad)"
  by pat_completeness auto
termination
  by (relation "measure (\<lambda>(inp, total_bits, len, rest). 31 - len)") auto

definition huff_symbol :: "bytes \<Rightarrow> nat \<Rightarrow> nat \<Rightarrow> huff_result" where
  "huff_symbol inp total_bits bitpos = huff_symbol_loop inp total_bits 1 bitpos 0 0 0"

declare huff_symbol_loop.simps [simp del]

lemma huff_symbol_loop_advances:
  "huff_symbol_loop inp tb len bp code f i = HuffSym s bp' \<Longrightarrow> bp < bp' \<and> bp' \<le> tb"
proof (induction inp tb len bp code f i rule: huff_symbol_loop.induct)
  case (1 inp tb len bp code f i)
  show ?case
    using 1(2) 1(1) [OF _ _ refl refl]
    by (subst (asm) huff_symbol_loop.simps) (auto simp: Let_def not_le split: if_splits)
qed

function huff_decode_loop :: "allocator \<Rightarrow> bytes \<Rightarrow> nat \<Rightarrow> nat \<Rightarrow> nat \<Rightarrow> nat \<Rightarrow> zhs_buf \<Rightarrow> zcio_result \<times> zhs_buf" where
  "huff_decode_loop alloc inp total_bits max_out bitpos produced out =
     (if bitpos < total_bits then
        (case huff_symbol inp total_bits bitpos of
           HuffPad \<Rightarrow>
             if total_bits - bitpos > 7 then (ZCIO_ERR_PROTOCOL, out)
             else if \<not> list_all (huff_bit inp) [bitpos ..< total_bits] then (ZCIO_ERR_PROTOCOL, out)
             else (ZCIO_OK, out)
         | HuffBad \<Rightarrow> (ZCIO_ERR_PROTOCOL, out)
         | HuffSym sm bitpos1 \<Rightarrow>
             if sm = 256 then (ZCIO_ERR_PROTOCOL, out)
             else if produced \<ge> max_out then (ZCIO_ERR_PROTOCOL, out)
             else and_then (zhs_buf_append_u8 alloc out (of_nat sm))
                    (huff_decode_loop alloc inp total_bits max_out bitpos1 (produced + 1)))
      else (ZCIO_OK, out))"
  by pat_completeness auto
termination
  by (relation "measure (\<lambda>(alloc, inp, total_bits, max_out, bitpos, rest). total_bits - bitpos)")
    (auto simp: huff_symbol_def dest: huff_symbol_loop_advances)

definition zhp_huff_decode :: "allocator \<Rightarrow> bytes \<Rightarrow> zhs_buf \<Rightarrow> nat \<Rightarrow> zcio_result \<times> zhs_buf" where
  "zhp_huff_decode alloc inp out max_out =
     (if length inp > SIZE_MAX div 8 then (ZCIO_ERR_PROTOCOL, out)
      else huff_decode_loop alloc inp (length inp * 8) max_out 0 0 out)"

declare huff_decode_loop.simps [simp del]


subsection \<open>The canonical code behind the two tables\<close>

text \<open>
  The first code of each length and the number of shorter codes; a symbol's code is the first code
  of its length plus its rank there (RFC 7541, Appendix B, is canonical in this sense).
\<close>

primrec canon_first :: "nat \<Rightarrow> nat" where
  "canon_first 0 = 0"
| "canon_first (Suc l) = 2 * (canon_first l + HUFF_COUNT ! l)"

primrec canon_index :: "nat \<Rightarrow> nat" where
  "canon_index 0 = 0"
| "canon_index (Suc l) = canon_index l + HUFF_COUNT ! l"

fun code_bits :: "nat \<Rightarrow> nat \<Rightarrow> bool list" where
  "code_bits 0 c = []"
| "code_bits (Suc l) c = code_bits l (c div 2) @ [odd c]"

definition huff_rank :: "byte \<Rightarrow> nat" where
  "huff_rank b = length (takeWhile (\<lambda>s. s \<noteq> unat b) HUFF_SYMBOL)"

definition huff_len :: "nat \<Rightarrow> nat" where
  "huff_len k = length (takeWhile (\<lambda>l. canon_index (Suc l) \<le> k) [0 ..< 31])"

definition huff_code :: "byte \<Rightarrow> bool list" where
  "huff_code b = (let k = huff_rank b; l = huff_len k in code_bits l (canon_first l + (k - canon_index l)))"

definition huff_encode :: "bytes \<Rightarrow> bool list" where
  "huff_encode s = concat (map huff_code s)"

text \<open>Facts about the tables.\<close>

lemma huff_symbol_distinct: "distinct HUFF_SYMBOL"
  by (simp add: HUFF_SYMBOL_def)

lemma huff_symbol_length: "length HUFF_SYMBOL = 257"
  by (simp add: HUFF_SYMBOL_def)

lemma huff_symbol_le: "s \<in> set HUFF_SYMBOL \<Longrightarrow> s \<le> 256"
  by (auto simp: HUFF_SYMBOL_def)

lemma canon_numeral:
  "canon_first (numeral k) = 2 * (canon_first (pred_numeral k) + HUFF_COUNT ! pred_numeral k)"
  "canon_index (numeral k) = canon_index (pred_numeral k) + HUFF_COUNT ! pred_numeral k"
  by (simp_all add: numeral_eq_Suc)

lemma huff_total: "canon_index 31 = 257" "canon_first 30 + HUFF_COUNT ! 30 = 2 ^ 30"
  by (simp_all add: canon_numeral HUFF_COUNT_def)

lemma huff_no_short_ones: "1 \<le> l \<Longrightarrow> l \<le> 7 \<Longrightarrow> canon_first l + HUFF_COUNT ! l < 2 ^ l"
proof -
  assume "1 \<le> l" "l \<le> 7"
  then have "l \<in> {1, 2, 3, 4, 5, 6, 7}" by auto
  then show ?thesis by (auto simp: canon_numeral HUFF_COUNT_def)
qed


lemma huff_symbol_set: "set HUFF_SYMBOL = {..256}"
proof (rule card_subset_eq)
  show "set HUFF_SYMBOL \<subseteq> {..256}" using huff_symbol_le by auto
  show "card (set HUFF_SYMBOL) = card {..256 :: nat}"
    by (simp add: distinct_card huff_symbol_distinct huff_symbol_length)
qed simp

lemma canon_index_mono: "l \<le> m \<Longrightarrow> canon_index l \<le> canon_index m"
  by (induction m) (auto simp: le_Suc_eq)

lemma canon_first_mono: "l < m \<Longrightarrow> (canon_first l + HUFF_COUNT ! l) * 2 ^ (m - l) \<le> canon_first m"
proof (induction m)
  case (Suc m)
  show ?case
  proof (cases "l = m")
    case False
    then have "(canon_first l + HUFF_COUNT ! l) * 2 ^ (m - l) \<le> canon_first m" "Suc m - l = Suc (m - l)"
      using Suc by auto
    then show ?thesis by simp
  qed simp
qed simp

text \<open>Bits read most significant first.\<close>

definition bits_val :: "nat \<Rightarrow> bool list \<Rightarrow> nat" where
  "bits_val c bs = foldl (\<lambda>a b. 2 * a + of_bool b) c bs"

lemma bits_val_simps [simp]:
  "bits_val c [] = c" "bits_val c (b # bs) = bits_val (2 * c + of_bool b) bs"
  "bits_val c (bs @ [b]) = 2 * bits_val c bs + of_bool b"
  by (simp_all add: bits_val_def)

lemma bits_val_split: "bits_val c bs = c * 2 ^ length bs + bits_val 0 bs"
proof (induction bs rule: rev_induct)
  case (snoc b bs)
  show ?case by (simp add: snoc) 
qed simp

lemma bits_val_lt: "bits_val 0 bs < 2 ^ length bs"
  by (induction bs rule: rev_induct) auto

lemma code_bits_val: "code_bits (length bs) (bits_val 0 bs) = bs"
  by (induction bs rule: rev_induct) auto

lemma length_code_bits [simp]: "length (code_bits l c) = l"
  by (induction l c rule: code_bits.induct) auto

lemma bits_val_code_bits: "c < 2 ^ l \<Longrightarrow> bits_val 0 (code_bits l c) = c"
  by (induction l c rule: code_bits.induct) auto

definition bits_from :: "bytes \<Rightarrow> nat \<Rightarrow> nat \<Rightarrow> bool list" where
  "bits_from inp a b = map (huff_bit inp) [a ..< b]"

lemma length_bits_from [simp]: "length (bits_from inp a b) = b - a"
  by (simp add: bits_from_def)

lemma bits_from_Cons: "a < b \<Longrightarrow> bits_from inp a b = huff_bit inp a # bits_from inp (Suc a) b"
  by (simp add: bits_from_def upt_conv_Cons)

lemma bits_from_append: "a \<le> b \<Longrightarrow> b \<le> c \<Longrightarrow> bits_from inp a b @ bits_from inp b c = bits_from inp a c"
  by (metis bits_from_def map_append upt_add_eq_append le_Suc_ex)

lemma symbol_loop_step:
  "len \<le> 30 \<Longrightarrow> bp < tb \<Longrightarrow>
   huff_symbol_loop inp tb len bp code f i =
     (let c = 2 * code + of_bool (huff_bit inp bp); n = HUFF_COUNT ! len in
      if c < f + n then HuffSym (HUFF_SYMBOL ! (i + (c - f))) (Suc bp)
      else huff_symbol_loop inp tb (Suc len) (Suc bp) c (2 * (f + n)) (i + n))"
  by (subst huff_symbol_loop.simps) (simp add: Let_def)

text \<open>Completeness: reading the code of a symbol yields the symbol.\<close>

lemma symbol_loop_finds:
  assumes "1 \<le> l" "l \<le> L" "L \<le> 30" "r < HUFF_COUNT ! L" "bp + (L + 1 - l) \<le> tb"
    and "bits_val code (bits_from inp bp (bp + (L + 1 - l))) = canon_first L + r"
  shows "huff_symbol_loop inp tb l bp code (canon_first l) (canon_index l) =
    HuffSym (HUFF_SYMBOL ! (canon_index L + r)) (bp + (L + 1 - l))"
  using assms
proof (induction "L - l" arbitrary: l bp code)
  case 0
  then have "l = L" by simp
  with 0 show ?case by (subst symbol_loop_step) (auto simp: bits_from_Cons bits_from_def Let_def)
next
  case (Suc d)
  then have l: "l < L" "L + 1 - l = Suc (L - l)" by auto
  let ?c = "2 * code + of_bool (huff_bit inp bp)"
  define e where "e = bp + (L + 1 - l)"
  have e: "bp < e" "e = Suc bp + (L + 1 - Suc l)" using l by (auto simp: e_def)
  have val: "bits_val ?c (bits_from inp (Suc bp) e) = canon_first L + r"
    using Suc.prems(6) unfolding e_def [symmetric] bits_from_Cons [OF e(1)] by (simp only: bits_val_simps)
  have "length (bits_from inp (Suc bp) e) = L - l" using l by (simp add: e)
  then have "canon_first L + r < (?c + 1) * 2 ^ (L - l)"
    using bits_val_split [of ?c] bits_val_lt val by (metis add_less_cancel_left add_mult_distrib nat_mult_1)
  moreover have "(canon_first l + HUFF_COUNT ! l) * 2 ^ (L - l) \<le> canon_first L"
    using l(1) by (rule canon_first_mono)
  ultimately have "(canon_first l + HUFF_COUNT ! l) * 2 ^ (L - l) < (?c + 1) * 2 ^ (L - l)" by linarith
  then have "canon_first l + HUFF_COUNT ! l < ?c + 1" by (simp only: mult_less_cancel2)
  then have "\<not> ?c < canon_first l + HUFF_COUNT ! l" by simp
  then have "huff_symbol_loop inp tb l bp code (canon_first l) (canon_index l) =
      huff_symbol_loop inp tb (Suc l) (Suc bp) ?c (canon_first (Suc l)) (canon_index (Suc l))"
    using Suc.prems l by (subst symbol_loop_step) (auto simp: Let_def)
  also have "\<dots> = HuffSym (HUFF_SYMBOL ! (canon_index L + r)) (Suc bp + (L + 1 - Suc l))"
    using Suc l val e by (intro Suc.hyps(1)) auto
  finally show ?case using l by simp
qed

text \<open>Soundness: a symbol is found only by reading its code.\<close>

lemma symbol_loop_sound:
  assumes "huff_symbol_loop inp tb l bp code (canon_first l) (canon_index l) = HuffSym s bp'"
    and "1 \<le> l" "canon_first l \<le> 2 * code"
  shows "\<exists>L r. l \<le> L \<and> L \<le> 30 \<and> r < HUFF_COUNT ! L \<and> s = HUFF_SYMBOL ! (canon_index L + r) \<and>
    bp' = bp + (L + 1 - l) \<and> bp' \<le> tb \<and> bits_val code (bits_from inp bp bp') = canon_first L + r"
  using assms
proof (induction "31 - l" arbitrary: l bp code)
  case 0
  then show ?case by (simp add: huff_symbol_loop.simps)
next
  case (Suc d)
  then have l: "l \<le> 30" by simp
  let ?c = "2 * code + of_bool (huff_bit inp bp)"
  have bp: "bp < tb" using Suc.prems(1) l by (subst (asm) huff_symbol_loop.simps) (auto split: if_splits)
  show ?case
  proof (cases "?c < canon_first l + HUFF_COUNT ! l")
    case True
    then have "s = HUFF_SYMBOL ! (canon_index l + (?c - canon_first l))" "bp' = Suc bp"
      using Suc.prems(1) l bp by (simp_all add: symbol_loop_step Let_def)
    with True l bp Suc.prems(3) show ?thesis
      by (intro exI [of _ l] exI [of _ "?c - canon_first l"]) (auto simp: bits_from_def)
  next
    case False
    then have rec: "huff_symbol_loop inp tb (Suc l) (Suc bp) ?c (canon_first (Suc l)) (canon_index (Suc l)) = HuffSym s bp'"
      using Suc.prems(1) l bp by (simp add: symbol_loop_step Let_def)
    have "d = 31 - Suc l" "canon_first (Suc l) \<le> 2 * ?c" using Suc.hyps(2) False by auto
    from Suc.hyps(1) [OF this(1) rec _ this(2)] obtain L r where
      Lr: "Suc l \<le> L" "L \<le> 30" "r < HUFF_COUNT ! L" "s = HUFF_SYMBOL ! (canon_index L + r)"
        "bp' = Suc bp + (L + 1 - Suc l)" "bp' \<le> tb" "bits_val ?c (bits_from inp (Suc bp) bp') = canon_first L + r"
      by auto
    then have "bp < bp'" by simp
    with Lr show ?thesis by (intro exI [of _ L] exI [of _ r]) (auto simp: bits_from_Cons)
  qed
qed

text \<open>The table is complete: no bit string is without a code.\<close>

lemma symbol_loop_not_bad:
  assumes "1 \<le> l" "l \<le> 30" "code < 2 ^ (l - 1)"
  shows "huff_symbol_loop inp tb l bp code (canon_first l) (canon_index l) \<noteq> HuffBad"
  using assms
proof (induction "30 - l" arbitrary: l bp code)
  case 0
  then have l: "l = 30" by simp
  show ?case
  proof (cases "bp < tb")
    case True
    have "2 * code + of_bool (huff_bit inp bp) < canon_first 30 + HUFF_COUNT ! 30"
      using 0 l by (auto simp: huff_total)
    with True l show ?thesis by (subst symbol_loop_step) (auto simp: Let_def)
  qed (use l in \<open>simp add: huff_symbol_loop.simps\<close>)
next
  case (Suc d)
  show ?case
  proof (cases "bp < tb")
    case True
    let ?c = "2 * code + of_bool (huff_bit inp bp)"
    have "?c < 2 ^ (Suc l - 1)" using Suc.prems by (cases l) auto
    then have "huff_symbol_loop inp tb (Suc l) (Suc bp) ?c (canon_first (Suc l)) (canon_index (Suc l)) \<noteq> HuffBad"
      using Suc by (intro Suc.hyps(1)) auto
    with True Suc.prems show ?thesis by (subst symbol_loop_step) (auto simp: Let_def)
  qed (use Suc.prems in \<open>simp add: huff_symbol_loop.simps\<close>)
qed


text \<open>Every byte has a code, and the code of a ranked symbol is the code of that rank.\<close>

lemma huff_len_eq:
  assumes "L \<le> 30" "r < HUFF_COUNT ! L"
  shows "huff_len (canon_index L + r) = L"
proof -
  have "takeWhile (\<lambda>l. canon_index (Suc l) \<le> canon_index L + r) [0 ..< 31] = [0 ..< L]"
  proof -
    have "[0 ..< 31] = [0 ..< L] @ L # [Suc L ..< 31]"
      using assms(1) upt_add_eq_append [of 0 L "31 - L"] upt_conv_Cons [of L 31] by simp
    moreover have "canon_index (Suc l) \<le> canon_index L + r" if "l < L" for l
      using canon_index_mono [of "Suc l" L] that by simp
    moreover have "\<not> canon_index (Suc L) \<le> canon_index L + r" using assms(2) by simp
    ultimately show ?thesis by (simp add: takeWhile_append)
  qed
  then show ?thesis by (simp add: huff_len_def)
qed


lemma huff_code_ranked:
  assumes "L \<le> 30" "r < HUFF_COUNT ! L" "HUFF_SYMBOL ! (canon_index L + r) = unat b"
  shows "huff_code b = code_bits L (canon_first L + r)"
proof -
  let ?k = "canon_index L + r"
  have "?k < canon_index (Suc L)" "canon_index (Suc L) \<le> canon_index 31"
    using assms(1,2) by (auto intro: canon_index_mono simp del: canon_index.simps(2)) simp
  then have k: "?k < length HUFF_SYMBOL" by (simp add: huff_total huff_symbol_length)
  then have "takeWhile (\<lambda>s. s \<noteq> unat b) HUFF_SYMBOL = take ?k HUFF_SYMBOL"
    using assms(3) huff_symbol_distinct
    by (intro takeWhile_eq_take_P_nth) (auto simp flip: assms(3) simp: nth_eq_iff_index_eq)
  then have "huff_rank b = ?k" using k by (simp add: huff_rank_def)
  then show ?thesis using huff_len_eq [OF assms(1,2)] by (simp add: huff_code_def Let_def)
qed

lemma canon_index_find: "k < canon_index n \<Longrightarrow> \<exists>L r. L < n \<and> k = canon_index L + r \<and> r < HUFF_COUNT ! L"
proof (induction n)
  case (Suc n)
  show ?case
  proof (cases "k < canon_index n")
    case True
    with Suc.IH show ?thesis by (meson less_SucI)
  next
    case False
    with Suc.prems show ?thesis by (intro exI [of _ n] exI [of _ "k - canon_index n"]) auto
  qed
qed simp

lemma huff_code_exists:
  "\<exists>L r. 1 \<le> L \<and> L \<le> 30 \<and> r < HUFF_COUNT ! L \<and> HUFF_SYMBOL ! (canon_index L + r) = unat b \<and>
     huff_code b = code_bits L (canon_first L + r)"
proof -
  have "unat b \<in> set HUFF_SYMBOL"
    using unsigned_less [of b, where ?'a = nat] by (simp add: huff_symbol_set)
  then obtain k where k: "k < 257" "HUFF_SYMBOL ! k = unat b"
    by (metis in_set_conv_nth huff_symbol_length)
  with canon_index_find [of k 31] obtain L r where
    L: "L < 31" "k = canon_index L + r" "r < HUFF_COUNT ! L" by (auto simp: huff_total)
  moreover have "L \<noteq> 0" using L(3) by (cases L) (auto simp: HUFF_COUNT_def)
  ultimately show ?thesis using k huff_code_ranked [of L r b]
    by (intro exI [of _ L] exI [of _ r]) auto
qed

lemma canon_code_lt:
  assumes "L \<le> 30" "r < HUFF_COUNT ! L"
  shows "canon_first L + r < 2 ^ L"
proof -
  have "canon_first L + r < canon_first L + HUFF_COUNT ! L" using assms(2) by simp
  also have "\<dots> \<le> 2 ^ L"
  proof (cases "L = 30")
    case False
    have "(canon_first L + HUFF_COUNT ! L) * 2 ^ (30 - L) \<le> canon_first 30"
      using assms(1) False by (intro canon_first_mono) simp
    also have "\<dots> \<le> 2 ^ 30" using huff_total(2) by linarith
    also have "\<dots> = 2 ^ L * 2 ^ (30 - L)" using assms(1) by (simp flip: power_add)
    finally show ?thesis by (simp only: mult_le_cancel2) simp
  qed (simp add: huff_total)
  finally show ?thesis .
qed

text \<open>One symbol: found exactly where its code is.\<close>

lemma huff_symbol_finds:
  assumes "bits_from inp bp (bp + length (huff_code b)) = huff_code b" "bp + length (huff_code b) \<le> tb"
  shows "huff_symbol inp tb bp = HuffSym (unat b) (bp + length (huff_code b))"
proof -
  obtain L r where Lr: "1 \<le> L" "L \<le> 30" "r < HUFF_COUNT ! L" "HUFF_SYMBOL ! (canon_index L + r) = unat b"
    "huff_code b = code_bits L (canon_first L + r)"
    using huff_code_exists [of b] by blast
  have "bits_val 0 (bits_from inp bp (bp + (L + 1 - 1))) = canon_first L + r"
    using assms(1) Lr(5) canon_code_lt [OF Lr(2,3)] by (simp add: bits_val_code_bits)
  from symbol_loop_finds [OF _ Lr(1,2,3) _ this, of tb] assms(2) Lr show ?thesis
    by (simp add: huff_symbol_def HUFF_COUNT_def)
qed

lemma huff_symbol_sound:
  assumes "huff_symbol inp tb bp = HuffSym s bp'" "s \<noteq> 256"
  shows "bp' \<le> tb \<and> bp < bp' \<and> s < 256 \<and> bits_from inp bp bp' = huff_code (of_nat s)"
proof -
  have f: "canon_first 1 = 0" "canon_index 1 = 0" by (simp_all add: HUFF_COUNT_def)
  then obtain L r where Lr: "1 \<le> L" "L \<le> 30" "r < HUFF_COUNT ! L" "s = HUFF_SYMBOL ! (canon_index L + r)"
    "bp' = bp + L" "bp' \<le> tb" "bits_val 0 (bits_from inp bp bp') = canon_first L + r"
    using symbol_loop_sound [of inp tb 1 bp 0 s bp'] assms(1) by (auto simp: huff_symbol_def)
  have "canon_index L + r < canon_index (Suc L)" "canon_index (Suc L) \<le> canon_index 31"
    using Lr(2,3) by (auto intro: canon_index_mono simp del: canon_index.simps(2)) simp
  then have "s \<in> set HUFF_SYMBOL" using Lr(4) by (simp add: huff_total huff_symbol_length)
  then have s: "s < 256" using huff_symbol_le [of s] assms(2) by simp
  then have "unat (of_nat s :: byte) = s" by (rule unat_of_nat_byte)
  then have "huff_code (of_nat s) = code_bits L (canon_first L + r)"
    using Lr(4) by (intro huff_code_ranked [OF Lr(2,3)]) simp
  moreover have "bits_from inp bp bp' = code_bits L (canon_first L + r)"
    using code_bits_val [of "bits_from inp bp bp'"] Lr(5,7) by simp
  ultimately show ?thesis using Lr(1,5,6) s by simp
qed

lemma huff_symbol_not_bad: "huff_symbol inp tb bp \<noteq> HuffBad"
  using symbol_loop_not_bad [of 1 0 inp tb bp] by (simp add: huff_symbol_def HUFF_COUNT_def)

text \<open>Fewer than eight ones are never a symbol: that is what makes them padding.\<close>

lemma bits_val_ones: "Suc (bits_val 0 (replicate n True)) = 2 ^ n"
proof (induction n)
  case (Suc n)
  have "replicate (Suc n) True = replicate n True @ [True]" by (simp add: replicate_append_same)
  then show ?case using Suc by (simp only: bits_val_simps) simp
qed simp

lemma huff_symbol_padding:
  assumes "bits_from inp bp tb = replicate (tb - bp) True" "tb - bp \<le> 7"
  shows "huff_symbol inp tb bp = HuffPad"
proof (cases "huff_symbol inp tb bp")
  case (HuffSym s bp')
  have "canon_first 1 = 0" "canon_index 1 = 0" by (simp_all add: HUFF_COUNT_def)
  then obtain L r where Lr: "1 \<le> L" "r < HUFF_COUNT ! L" "bp' = bp + L" "bp' \<le> tb"
    "bits_val 0 (bits_from inp bp bp') = canon_first L + r"
    using symbol_loop_sound [of inp tb 1 bp 0 s bp'] HuffSym by (auto simp: huff_symbol_def)
  have "bits_from inp bp bp' = take L (bits_from inp bp tb)"
    using Lr(3,4) by (simp add: bits_from_def take_map)
  then have "bits_from inp bp bp' = replicate L True" using assms(1) Lr(3,4) by simp
  then have "2 ^ L = Suc (canon_first L + r)" using Lr(5) bits_val_ones [of L] by simp
  moreover have "canon_first L + HUFF_COUNT ! L < 2 ^ L"
    using Lr(1,3,4) assms(2) by (intro huff_no_short_ones) auto
  ultimately show ?thesis using Lr(2) by linarith
qed (use huff_symbol_not_bad in auto)


lemma huff_encode_simps [simp]:
  "huff_encode [] = []" "huff_encode (b # s) = huff_code b @ huff_encode s"
  by (simp_all add: huff_encode_def)

lemma huff_decode_writes:
  assumes "bits_from inp bp tb = huff_encode s @ replicate p True" "p < 8" "length s + n \<le> mx" "bp \<le> tb"
  shows "writes (huff_decode_loop alloc inp tb mx bp n) s"
  using assms
proof (induction s arbitrary: bp n)
  case Nil
  then have len: "tb - bp = p" by (metis length_bits_from length_replicate append_Nil huff_encode_simps(1))
  show ?case
  proof (cases "bp < tb")
    case True
    have "list_all (huff_bit inp) [bp ..< tb]"
      using Nil(1) by (auto simp: bits_from_def list_all_iff) (metis image_eqI in_set_replicate list.set_map atLeastLessThan_iff set_upt)
    with True Nil len show ?thesis
      by (subst huff_decode_loop.simps [abs_def]) (simp add: huff_symbol_padding writes_done)
  next
    case False
    then show ?thesis by (subst huff_decode_loop.simps [abs_def]) (simp add: writes_done)
  qed
next
  case (Cons b s)
  let ?l = "length (huff_code b)"
  have enc: "bits_from inp bp tb = huff_code b @ huff_encode s @ replicate p True" using Cons.prems(1) by simp
  then have len: "tb - bp = ?l + length (huff_encode s) + p"
    by (metis (no_types, lifting) length_append length_bits_from length_replicate add.assoc)
  have l: "bp + ?l \<le> tb" using len Cons.prems(4) by simp
  have "bits_from inp bp (bp + ?l) @ bits_from inp (bp + ?l) tb = bits_from inp bp tb"
    using l by (intro bits_from_append) auto
  then have parts: "bits_from inp bp (bp + ?l) = huff_code b"
    "bits_from inp (bp + ?l) tb = huff_encode s @ replicate p True"
    using enc by (simp_all add: append_eq_append_conv)
  have "unat b < 256" using unsigned_less [of b, where ?'a = nat] by simp
  obtain L c where "1 \<le> L" "huff_code b = code_bits L c" using huff_code_exists [of b] by blast
  then have "?l > 0" by (simp only: length_code_bits)
  then have bp: "bp < tb" using l by linarith
  have "writes (huff_decode_loop alloc inp tb mx (bp + ?l) (n + 1)) s"
    using parts(2) Cons.prems(2,3) l by (intro Cons.IH) auto
  from writes_then [OF writes_append_u8 this, of alloc b] show ?case
    using huff_symbol_finds [OF parts(1) l] bp \<open>unat b < 256\<close> Cons.prems(3)
    by (subst huff_decode_loop.simps [abs_def]) simp
qed

lemma huff_decode_sound:
  assumes "huff_decode_loop alloc inp tb mx bp n out = (ZCIO_OK, out')" "zb_wf out" "bp \<le> tb" "n \<le> mx"
  shows "\<exists>s p. zb_wf out' \<and> ZHS_PTR out' = ZHS_PTR out @ s \<and> length s + n \<le> mx \<and> p < 8 \<and>
    bits_from inp bp tb = huff_encode s @ replicate p True"
  using assms
proof (induction "tb - bp" arbitrary: bp n out rule: less_induct)
  case less
  show ?case
  proof (cases "bp < tb")
    case False
    with less.prems show ?thesis
      by (intro exI [of _ "[]"] exI [of _ 0]) (simp add: huff_decode_loop.simps bits_from_def)
  next
    case True
    show ?thesis
    proof (cases "huff_symbol inp tb bp")
      case HuffPad
      with True less.prems(1) have pad: "tb - bp \<le> 7" "list_all (huff_bit inp) [bp ..< tb]" "out' = out"
        by (auto simp: huff_decode_loop.simps [of alloc inp tb mx bp] split: if_splits)
      then have "bits_from inp bp tb = replicate (tb - bp) True"
        by (auto simp: bits_from_def list_all_iff intro!: replicate_eqI)
      with pad less.prems show ?thesis
        by (intro exI [of _ "[]"] exI [of _ "tb - bp"]) simp
    next
      case HuffBad
      then show ?thesis using huff_symbol_not_bad by simp
    next
      case (HuffSym c bp')
      obtain r1 o1 where a: "zhs_buf_append_u8 alloc out (of_nat c) = (r1, o1)" by fastforce
      with True HuffSym less.prems(1) have step: "c \<noteq> 256" "n < mx" "r1 = ZCIO_OK"
          "huff_decode_loop alloc inp tb mx bp' (n + 1) o1 = (ZCIO_OK, out')"
        by (auto simp: huff_decode_loop.simps [of alloc inp tb mx bp] and_then_def split: if_splits)
      note snd = huff_symbol_sound [OF HuffSym step(1)]
      have o1: "zb_wf o1" "ZHS_PTR o1 = ZHS_PTR out @ [of_nat c]"
        using writesD [OF writes_append_u8 less.prems(2) a] step(3) by auto
      have "tb - bp' < tb - bp" using snd True by auto
      from less.hyps [OF this step(4) o1(1)] snd step(2) obtain s p where
        s: "zb_wf out'" "ZHS_PTR out' = ZHS_PTR o1 @ s" "length s + (n + 1) \<le> mx" "p < 8"
          "bits_from inp bp' tb = huff_encode s @ replicate p True" by auto
      have "bits_from inp bp tb = huff_code (of_nat c) @ bits_from inp bp' tb"
        using snd bits_from_append [of bp bp' tb inp] by simp
      with s o1(2) show ?thesis by (intro exI [of _ "of_nat c # s"] exI [of _ p]) simp
    qed
  qed
qed


subsection \<open>The static table\<close>

definition HPACK_STATIC :: "(bytes \<times> bytes) list" where
  "HPACK_STATIC = [
    (asc '':authority'', []), (asc '':method'', asc ''GET''), (asc '':method'', asc ''POST''),
    (asc '':path'', asc ''/''), (asc '':path'', asc ''/index.html''), (asc '':scheme'', asc ''http''),
    (asc '':scheme'', asc ''https''), (asc '':status'', asc ''200''), (asc '':status'', asc ''204''),
    (asc '':status'', asc ''206''), (asc '':status'', asc ''304''), (asc '':status'', asc ''400''),
    (asc '':status'', asc ''404''), (asc '':status'', asc ''500''), (asc ''accept-charset'', []),
    (asc ''accept-encoding'', asc ''gzip, deflate''), (asc ''accept-language'', []),
    (asc ''accept-ranges'', []), (asc ''accept'', []), (asc ''access-control-allow-origin'', []),
    (asc ''age'', []), (asc ''allow'', []), (asc ''authorization'', []), (asc ''cache-control'', []),
    (asc ''content-disposition'', []), (asc ''content-encoding'', []), (asc ''content-language'', []),
    (asc ''content-length'', []), (asc ''content-location'', []), (asc ''content-range'', []),
    (asc ''content-type'', []), (asc ''cookie'', []), (asc ''date'', []), (asc ''etag'', []),
    (asc ''expect'', []), (asc ''expires'', []), (asc ''from'', []), (asc ''host'', []),
    (asc ''if-match'', []), (asc ''if-modified-since'', []), (asc ''if-none-match'', []),
    (asc ''if-range'', []), (asc ''if-unmodified-since'', []), (asc ''last-modified'', []),
    (asc ''link'', []), (asc ''location'', []), (asc ''max-forwards'', []),
    (asc ''proxy-authenticate'', []), (asc ''proxy-authorization'', []), (asc ''range'', []),
    (asc ''referer'', []), (asc ''refresh'', []), (asc ''retry-after'', []), (asc ''server'', []),
    (asc ''set-cookie'', []), (asc ''strict-transport-security'', []), (asc ''transfer-encoding'', []),
    (asc ''user-agent'', []), (asc ''vary'', []), (asc ''via'', []), (asc ''www-authenticate'', [])]"

definition HPACK_STATIC_N :: nat where
  "HPACK_STATIC_N = length HPACK_STATIC"

text \<open>Both arguments are C strings without their NUL; a string's end compares as the NUL would.\<close>

fun ci_eq :: "bytes \<Rightarrow> bytes \<Rightarrow> bool" where
  "ci_eq (a # as) (b # bs) = (if tolower a \<noteq> tolower b then False else ci_eq as bs)"
| "ci_eq [] [] = True"
| "ci_eq _ _ = False"

fun static_scan :: "(bytes \<times> bytes) list \<Rightarrow> bytes \<Rightarrow> nat \<Rightarrow> nat" where
  "static_scan [] name i = 0"
| "static_scan ((n, v) # es) name i = (if ci_eq n name then i + 1 else static_scan es name (i + 1))"

definition hpack_static_name_index :: "bytes \<Rightarrow> nat" where
  "hpack_static_name_index name = static_scan HPACK_STATIC name 0"

subsection \<open>The dynamic table\<close>

text \<open>
  \<open>dc_e\<close> holds the array's first \<open>tail\<close> entries (name and value), of which those from
  \<open>dc_head\<close> on are live, oldest first.
\<close>

record zhp_dec =
  dc_max :: nat
  dc_used :: nat
  dc_e :: "(bytes \<times> bytes) list"
  dc_head :: nat
  dc_cap :: nat

definition ZHP_DEC_TABLE_MAX :: nat where
  "ZHP_DEC_TABLE_MAX = 4096"

definition zhp_dec_new :: "bool \<Rightarrow> nat \<Rightarrow> zhp_dec option" where
  "zhp_dec_new alloc max_table_bytes =
     (if \<not> alloc then None
      else Some \<lparr>dc_max = (if max_table_bytes > ZHP_DEC_TABLE_MAX then ZHP_DEC_TABLE_MAX else max_table_bytes),
                 dc_used = 0, dc_e = [], dc_head = 0, dc_cap = 0\<rparr>)"

definition ent_cost :: "bytes \<times> bytes \<Rightarrow> nat" where
  "ent_cost e = length (fst e) + length (snd e) + 32"

definition dec_evict :: "zhp_dec \<Rightarrow> zhp_dec" where
  "dec_evict d =
     (let en = dc_e d ! dc_head d;
          d1 = d\<lparr>dc_head := dc_head d + 1, dc_used := szsub (dc_used d) (ent_cost en)\<rparr>
      in if dc_head d1 = length (dc_e d1) then d1\<lparr>dc_head := 0, dc_e := []\<rparr> else d1)"

text \<open>\<open>while (d->used + cost > d->max && d->head < d->tail) dec_evict(d);\<close>\<close>

function evict_loop :: "nat \<Rightarrow> zhp_dec \<Rightarrow> zhp_dec" where
  "evict_loop cost d =
     (if dc_used d + cost > dc_max d \<and> dc_head d < length (dc_e d) then evict_loop cost (dec_evict d) else d)"
  by pat_completeness auto
termination
  by (relation "measure (\<lambda>(cost, d). length (dc_e d) - dc_head d)") (auto simp: dec_evict_def Let_def)

declare evict_loop.simps [simp del]

definition dec_set_max :: "zhp_dec \<Rightarrow> nat \<Rightarrow> zhp_dec" where
  "dec_set_max d newmax = evict_loop 0 (d\<lparr>dc_max := newmax\<rparr>)"

definition dec_reserve :: "allocator \<Rightarrow> zhp_dec \<Rightarrow> zcio_result \<times> zhp_dec" where
  "dec_reserve alloc d =
     (if length (dc_e d) < dc_cap d then (ZCIO_OK, d)
      else let d1 = (if dc_head d > 0 then d\<lparr>dc_e := drop (dc_head d) (dc_e d), dc_head := 0\<rparr> else d) in
        if dc_head d > 0 \<and> length (dc_e d1) < dc_cap d1 then (ZCIO_OK, d1)
        else let ncap = (if dc_cap d1 \<noteq> 0 then dc_cap d1 * 2 else 16) in
          if \<not> alloc (ncap * 32) then (ZCIO_ERR_NOMEM, d1)
          else (ZCIO_OK, d1\<lparr>dc_cap := ncap\<rparr>))"

definition dec_add :: "allocator \<Rightarrow> zhp_dec \<Rightarrow> bytes \<Rightarrow> bytes \<Rightarrow> zcio_result \<times> zhp_dec" where
  "dec_add alloc d name val =
     (let cost = length name + length val + 32 in
      if \<not> alloc (length name) \<or> \<not> alloc (length val) then (ZCIO_ERR_NOMEM, d)
      else let d1 = evict_loop cost d in
        if cost > dc_max d1 then (ZCIO_OK, d1)
        else case dec_reserve alloc d1 of
          (r, d2) \<Rightarrow> if r \<noteq> ZCIO_OK then (ZCIO_ERR_NOMEM, d2)
                     else (ZCIO_OK, d2\<lparr>dc_e := dc_e d2 @ [(name, val)], dc_used := dc_used d2 + cost\<rparr>))"

definition hpack_resolve :: "zhp_dec \<Rightarrow> u64 \<Rightarrow> zcio_result + (bytes \<times> bytes)" where
  "hpack_resolve d idx0 =
     (let idx = unat idx0 in
      if idx = 0 then Inl ZCIO_ERR_PROTOCOL
      else if idx \<le> HPACK_STATIC_N then Inr (HPACK_STATIC ! (idx - 1))
      else let di = idx - HPACK_STATIC_N - 1; cnt = szsub (length (dc_e d)) (dc_head d) in
        if di \<ge> cnt then Inl ZCIO_ERR_PROTOCOL
        else Inr (dc_e d ! (length (dc_e d) - 1 - di)))"

subsection \<open>Field representations\<close>

text \<open>
  A string literal: its bytes and the rest of the block. \<open>scratch\<close> is the Huffman output buffer
  of the caller, reset first.
\<close>

definition hpack_string ::
  "allocator \<Rightarrow> bytes \<Rightarrow> nat \<Rightarrow> zhs_buf \<Rightarrow> zcio_result + (bytes \<times> bytes \<times> zhs_buf)" where
  "hpack_string alloc block max_out scratch =
     (case block of
        [] \<Rightarrow> Inl ZCIO_ERR_PROTOCOL
      | b # _ \<Rightarrow>
          (case zhp_int_decode block 7 of
             Inl e \<Rightarrow> Inl e
           | Inr (c, slen0) \<Rightarrow>
               (let rest = drop c block; slen = unat slen0 in
                if slen > length rest then Inl ZCIO_ERR_PROTOCOL
                else let s = take slen rest; rest1 = drop slen rest in
                  if b AND 0x80 \<noteq> 0 then
                    (case zhp_huff_decode alloc s (zhs_buf_reset scratch) max_out of
                       (r, scratch1) \<Rightarrow>
                         if r \<noteq> ZCIO_OK then Inl r else Inr (zb_data scratch1, rest1, scratch1))
                  else if slen > max_out then Inl ZCIO_ERR_PROTOCOL
                  else Inr (s, rest1, scratch))))"

definition hpack_literal ::
  "allocator \<Rightarrow> zhp_dec \<Rightarrow> bytes \<Rightarrow> nat \<Rightarrow> nat \<Rightarrow> zhs_buf \<Rightarrow> zhs_buf
     \<Rightarrow> zcio_result + ((bytes \<times> bytes) \<times> bytes \<times> zhs_buf \<times> zhs_buf)" where
  "hpack_literal alloc d block prefix_bits max_out nbuf vbuf =
     (case zhp_int_decode block prefix_bits of
        Inl e \<Rightarrow> Inl e
      | Inr (c, nidx) \<Rightarrow>
          (case (if nidx = 0 then hpack_string alloc (drop c block) max_out nbuf
                 else (case hpack_resolve d nidx of
                         Inl e \<Rightarrow> Inl e
                       | Inr (nm, _) \<Rightarrow> Inr (nm, drop c block, nbuf))) of
             Inl e \<Rightarrow> Inl e
           | Inr (nm, rest, nbuf1) \<Rightarrow>
               (case hpack_string alloc rest max_out vbuf of
                  Inl e \<Rightarrow> Inl e
                | Inr (vl, rest1, vbuf1) \<Rightarrow> Inr ((nm, vl), rest1, nbuf1, vbuf1))))"

text \<open>One turn of the block loop up to the field line: a field (to be added or not) or a size update.\<close>

datatype hpack_item = HpField bytes bytes bool | HpSize nat

definition hpack_item ::
  "allocator \<Rightarrow> zhp_dec \<Rightarrow> byte \<Rightarrow> bytes \<Rightarrow> bool \<Rightarrow> nat \<Rightarrow> zhs_buf \<Rightarrow> zhs_buf
     \<Rightarrow> zcio_result + (hpack_item \<times> bytes \<times> zhs_buf \<times> zhs_buf)" where
  "hpack_item alloc d b block seen_field max_decoded nbuf vbuf =
     (if b AND 0x80 \<noteq> 0 then
        (case zhp_int_decode block 7 of
           Inl e \<Rightarrow> Inl e
         | Inr (c, idx) \<Rightarrow>
             (case hpack_resolve d idx of
                Inl e \<Rightarrow> Inl e
              | Inr (nm, vl) \<Rightarrow> Inr (HpField nm vl False, drop c block, nbuf, vbuf)))
      else if b AND 0x40 \<noteq> 0 then
        (case hpack_literal alloc d block 6 max_decoded nbuf vbuf of
           Inl e \<Rightarrow> Inl e
         | Inr ((nm, vl), rest, nbuf1, vbuf1) \<Rightarrow> Inr (HpField nm vl True, rest, nbuf1, vbuf1))
      else if b AND 0x20 \<noteq> 0 then
        (if seen_field then Inl ZCIO_ERR_PROTOCOL
         else case zhp_int_decode block 5 of
           Inl e \<Rightarrow> Inl e
         | Inr (c, newmax) \<Rightarrow>
             if unat newmax > ZHP_DEC_TABLE_MAX then Inl ZCIO_ERR_PROTOCOL
             else Inr (HpSize (unat newmax), drop c block, nbuf, vbuf))
      else
        (case hpack_literal alloc d block 4 max_decoded nbuf vbuf of
           Inl e \<Rightarrow> Inl e
         | Inr ((nm, vl), rest, nbuf1, vbuf1) \<Rightarrow> Inr (HpField nm vl False, rest, nbuf1, vbuf1)))"

lemma int_decode_consumed:
  "zhp_int_decode p k = Inr (c, w) \<Longrightarrow> 1 \<le> c \<and> c \<le> length p"
  using int_cont_bounds
  by (fastforce simp: zhp_int_decode_def Let_def split: list.splits if_splits)

lemma hpack_string_consumes:
  assumes "hpack_string alloc block mx sc = Inr (s, rest, sc')"
  shows "length rest < length block"
proof -
  obtain b bs c w where b: "block = b # bs" "zhp_int_decode block 7 = Inr (c, w)"
    using assms by (auto simp: hpack_string_def split: list.splits sum.splits)
  then have "rest = drop (unat w) (drop c block)"
    using assms by (auto simp: hpack_string_def Let_def split: prod.splits if_splits)
  with int_decode_consumed [OF b(2)] show ?thesis by auto
qed

lemma hpack_literal_consumes:
  assumes "hpack_literal alloc d block k mx nb vb = Inr (nv, rest, nb', vb')"
  shows "length rest < length block"
proof -
  obtain c nidx where c: "zhp_int_decode block k = Inr (c, nidx)"
    using assms by (auto simp: hpack_literal_def split: sum.splits)
  then obtain mid where v: "\<exists>s. hpack_string alloc mid mx vb = Inr (s, rest, vb')"
    and "mid = drop c block \<or> (\<exists>s nb1. hpack_string alloc (drop c block) mx nb = Inr (s, mid, nb1))"
    using assms by (auto simp: hpack_literal_def split: sum.splits prod.splits if_splits)
  then have "length mid \<le> length block"
    using hpack_string_consumes [of alloc "drop c block" mx nb] by fastforce
  with v hpack_string_consumes show ?thesis by fastforce
qed

lemma hpack_item_consumes:
  assumes "hpack_item alloc d b block seen mx nb vb = Inr (it, rest, nb', vb')"
  shows "length rest < length block"
proof -
  consider c k w where "zhp_int_decode block k = Inr (c, w)" "rest = drop c block"
    | k nv where "hpack_literal alloc d block k mx nb vb = Inr (nv, rest, nb', vb')"
    using assms by (auto simp: hpack_item_def split: sum.splits prod.splits if_splits)
  then show ?thesis
  proof cases
    case 1
    with int_decode_consumed [OF 1(1)] show ?thesis by auto
  next
    case 2
    then show ?thesis by (rule hpack_literal_consumes)
  qed
qed

subsection \<open>The block decoder\<close>

text \<open>
  \<open>emit\<close> is the caller's callback over its own state; a nonzero result stops the decoder. A block
  is consumed front to back: every turn of the loop takes at least one byte.
\<close>

function zhp_decode_loop ::
  "allocator \<Rightarrow> ('u \<Rightarrow> bytes \<Rightarrow> bytes \<Rightarrow> int \<times> 'u) \<Rightarrow> nat \<Rightarrow> zhp_dec \<Rightarrow> bytes \<Rightarrow> nat \<Rightarrow> bool
     \<Rightarrow> zhs_buf \<Rightarrow> zhs_buf \<Rightarrow> 'u \<Rightarrow> int \<times> 'u \<times> zhp_dec" where
  "zhp_decode_loop alloc emit mx d block decoded seen nbuf vbuf u =
     (case block of
        [] \<Rightarrow> (zcode ZCIO_OK, u, d)
      | b # _ \<Rightarrow>
          (case hpack_item alloc d b block seen mx nbuf vbuf of
             Inl e \<Rightarrow> (zcode e, u, d)
           | Inr (HpSize newmax, rest, nbuf1, vbuf1) \<Rightarrow>
               zhp_decode_loop alloc emit mx (dec_set_max d newmax) rest decoded seen nbuf1 vbuf1 u
           | Inr (HpField nm vl add, rest, nbuf1, vbuf1) \<Rightarrow>
               (if length nm > mx - decoded \<or> length vl > mx - decoded - length nm
                then (zcode ZCIO_ERR_PROTOCOL, u, d)
                else
                  (case emit u nm vl of
                     (er, u1) \<Rightarrow>
                       if er \<noteq> 0 then (er, u1, d)
                       else
                         (case (if add then dec_add alloc d nm vl else (ZCIO_OK, d)) of
                            (rc, d1) \<Rightarrow>
                              if rc \<noteq> ZCIO_OK then (zcode rc, u1, d1)
                              else zhp_decode_loop alloc emit mx d1 rest (decoded + length nm + length vl)
                                     True nbuf1 vbuf1 u1)))))"
  by pat_completeness auto
termination
  by (relation "measure (\<lambda>(alloc, emit, mx, d, block, rest). length block)")
    (auto dest: hpack_item_consumes)

definition zhp_decode ::
  "allocator \<Rightarrow> zhp_dec \<Rightarrow> bytes \<Rightarrow> nat \<Rightarrow> ('u \<Rightarrow> bytes \<Rightarrow> bytes \<Rightarrow> int \<times> 'u) \<Rightarrow> 'u \<Rightarrow> int \<times> 'u \<times> zhp_dec" where
  "zhp_decode alloc d block max_decoded emit u =
     zhp_decode_loop alloc emit max_decoded d block 0 False zhs_buf_zero zhs_buf_zero u"

declare zhp_decode_loop.simps [simp del]

subsection \<open>The stateless encoder\<close>

definition hpack_raw_string :: "allocator \<Rightarrow> zhs_buf \<Rightarrow> bytes \<Rightarrow> zcio_result \<times> zhs_buf" where
  "hpack_raw_string alloc out s =
     and_then (zhp_int_encode alloc out 7 0 (of_nat (length s))) (\<lambda>out1. zhs_buf_append alloc out1 s)"

definition zhp_encode :: "allocator \<Rightarrow> zhs_buf \<Rightarrow> bytes option \<Rightarrow> bytes option \<Rightarrow> zcio_result \<times> zhs_buf" where
  "zhp_encode alloc out name value =
     (case (name, value) of
        (Some n, Some v) \<Rightarrow>
          (let sidx = hpack_static_name_index n in
           and_then
             (if sidx > 0 then zhp_int_encode alloc out 4 0 (of_nat sidx)
              else and_then (zhp_int_encode alloc out 4 0 0) (\<lambda>out1. hpack_raw_string alloc out1 n))
             (\<lambda>out1. hpack_raw_string alloc out1 v))
      | _ \<Rightarrow> (ZCIO_ERR_INVALID_ARG, out))"

text \<open>\<open>%d\<close> of a status; a status is at most eleven characters long, so the buffer always suffices.\<close>

definition fmt_int :: "int \<Rightarrow> bytes" where
  "fmt_int n = (if n < 0 then 0x2D # dec_digits (nat (- n)) else dec_digits (nat n))"

definition zhp_encode_status :: "allocator \<Rightarrow> zhs_buf \<Rightarrow> int \<Rightarrow> zcio_result \<times> zhs_buf" where
  "zhp_encode_status alloc out status =
     (let v = fmt_int status in
      if length v \<ge> 16 then (ZCIO_ERR, out)
      else and_then (zhp_int_encode alloc out 4 0 8) (\<lambda>out1. hpack_raw_string alloc out1 v))"


subsection \<open>The dynamic table is a bounded queue\<close>

definition dec_live :: "zhp_dec \<Rightarrow> (bytes \<times> bytes) list" where
  "dec_live d = drop (dc_head d) (dc_e d)"

definition table_size :: "(bytes \<times> bytes) list \<Rightarrow> nat" where
  "table_size es = sum_list (map ent_cost es)"

lemma table_size_simps [simp]:
  "table_size [] = 0" "table_size (e # es) = ent_cost e + table_size es"
  "table_size (es @ fs) = table_size es + table_size fs"
  by (simp_all add: table_size_def)

text \<open>
  The accounting invariant, which holds at every step of an insertion, and the full one, which
  holds between calls: the table is within its limit, and the limit within the advertised one.
\<close>

definition dec_acc :: "zhp_dec \<Rightarrow> bool" where
  "dec_acc d \<longleftrightarrow> dc_head d \<le> length (dc_e d) \<and> length (dc_e d) \<le> dc_cap d \<and>
     dc_used d = table_size (dec_live d) \<and> dc_max d \<le> ZHP_DEC_TABLE_MAX"

definition dec_wf :: "zhp_dec \<Rightarrow> bool" where
  "dec_wf d \<longleftrightarrow> dec_acc d \<and> dc_used d \<le> dc_max d"

text \<open>The specification: drop the oldest entries until the rest fits.\<close>

fun fit_table :: "nat \<Rightarrow> (bytes \<times> bytes) list \<Rightarrow> (bytes \<times> bytes) list" where
  "fit_table limit [] = []"
| "fit_table limit (e # es) = (if table_size (e # es) > limit then fit_table limit es else e # es)"

definition spec_add :: "nat \<Rightarrow> (bytes \<times> bytes) list \<Rightarrow> bytes \<times> bytes \<Rightarrow> (bytes \<times> bytes) list" where
  "spec_add limit es e = (if ent_cost e > limit then [] else fit_table (limit - ent_cost e) es @ [e])"

lemma table_size_fit: "table_size (fit_table limit es) \<le> limit"
  by (induction es) auto

lemma evict_acc:
  assumes "dec_acc d" "dc_head d < length (dc_e d)"
  shows "dec_acc (dec_evict d)" "dec_live (dec_evict d) = tl (dec_live d)" "dc_max (dec_evict d) = dc_max d"
    "dc_used (dec_evict d) = dc_used d - ent_cost (hd (dec_live d))"
proof -
  have live: "dec_live d = dc_e d ! dc_head d # drop (Suc (dc_head d)) (dc_e d)"
    using assms(2) by (simp add: dec_live_def Cons_nth_drop_Suc)
  then show "dec_live (dec_evict d) = tl (dec_live d)" "dc_max (dec_evict d) = dc_max d"
      "dc_used (dec_evict d) = dc_used d - ent_cost (hd (dec_live d))"
    using assms by (auto simp: dec_evict_def dec_live_def dec_acc_def Let_def)
  then show "dec_acc (dec_evict d)"
    using assms live by (auto simp: dec_acc_def dec_evict_def Let_def)
qed

lemma evict_loop_fits:
  assumes "dec_acc d"
  shows "dec_acc (evict_loop cost d) \<and> dc_max (evict_loop cost d) = dc_max d \<and>
    dec_live (evict_loop cost d) =
      (if cost \<le> dc_max d then fit_table (dc_max d - cost) (dec_live d) else [])"
  using assms
proof (induction cost d rule: evict_loop.induct)
  case (1 cost d)
  have used: "dc_used d = table_size (dec_live d)" using 1(2) by (simp add: dec_acc_def)
  show ?case
  proof (cases "dc_used d + cost > dc_max d \<and> dc_head d < length (dc_e d)")
    case True
    note ev = evict_acc [OF 1(2)]
    obtain e es where live: "dec_live d = e # es" using True by (cases "dec_live d") (auto simp: dec_live_def)
    have "table_size (e # es) > dc_max d - cost" if "cost \<le> dc_max d" using True that used live by auto
    then have fit: "fit_table (dc_max d - cost) (dec_live d) = fit_table (dc_max d - cost) (tl (dec_live d))"
      if "cost \<le> dc_max d" using that live by simp
    have loop: "evict_loop cost d = evict_loop cost (dec_evict d)"
      using True by (subst evict_loop.simps) simp
    have hd: "dc_head d < length (dc_e d)" using True by blast
    have IH: "dec_acc (evict_loop cost (dec_evict d))" "dc_max (evict_loop cost (dec_evict d)) = dc_max d"
      "dec_live (evict_loop cost (dec_evict d)) =
         (if cost \<le> dc_max d then fit_table (dc_max d - cost) (tl (dec_live d)) else [])"
      using 1(1) [OF True ev(1) [OF hd], unfolded ev(2,3) [OF hd]] by blast+
    show ?thesis
      unfolding loop IH(2,3) using IH(1) fit by (cases "cost \<le> dc_max d") simp_all
  next
    case False
    then have loop: "evict_loop cost d = d" by (subst evict_loop.simps) (rule if_not_P)
    consider "dec_live d = []" | "dec_live d \<noteq> []" "dc_used d + cost \<le> dc_max d"
      using False by (fastforce simp: dec_live_def)
    then show ?thesis
    proof cases
      case 2
      then have "fit_table (dc_max d - cost) (dec_live d) = dec_live d"
        using used by (cases "dec_live d") auto
      with 2 loop 1(2) show ?thesis by simp
    qed (use loop 1(2) in simp)
  qed
qed


lemma reserve_acc:
  assumes "dec_acc d" "dec_reserve alloc d = (r, d')"
  shows "dec_acc d' \<and> dec_live d' = dec_live d \<and> dc_max d' = dc_max d \<and> dc_used d' = dc_used d \<and>
    (r = ZCIO_OK \<longrightarrow> length (dc_e d') < dc_cap d')"
  using assms
  by (auto simp: dec_reserve_def dec_acc_def dec_live_def Let_def split: if_splits)

lemma set_max_refines:
  assumes "dec_wf d" "n \<le> ZHP_DEC_TABLE_MAX"
  shows "dec_wf (dec_set_max d n) \<and> dec_live (dec_set_max d n) = fit_table n (dec_live d) \<and>
    dc_max (dec_set_max d n) = n"
proof -
  let ?d = "d\<lparr>dc_max := n\<rparr>"
  have acc: "dec_acc ?d" "dec_live ?d = dec_live d"
    using assms by (auto simp: dec_wf_def dec_acc_def dec_live_def)
  note ev = evict_loop_fits [OF acc(1), of 0]
  moreover have "dc_used (evict_loop 0 ?d) = table_size (dec_live (evict_loop 0 ?d))"
    using ev by (simp add: dec_acc_def)
  ultimately show ?thesis
    using acc(2) table_size_fit [of n "dec_live d"] by (simp add: dec_set_max_def dec_wf_def)
qed

lemma dec_add_refines:
  assumes "dec_wf d" "dec_add alloc d name val = (r, d')"
  shows "dec_wf d' \<and> dc_max d' = dc_max d \<and>
    (r = ZCIO_OK \<longrightarrow> dec_live d' = spec_add (dc_max d) (dec_live d) (name, val))"
proof -
  let ?cost = "length name + length val + 32"
  let ?d1 = "evict_loop ?cost d"
  have cost: "ent_cost (name, val) = ?cost" by (simp add: ent_cost_def)
  have "dec_acc d" using assms(1) by (simp add: dec_wf_def)
  from evict_loop_fits [OF this, of ?cost] have
    d1: "dec_acc ?d1" "dc_max ?d1 = dc_max d"
      "dec_live ?d1 = (if ?cost \<le> dc_max d then fit_table (dc_max d - ?cost) (dec_live d) else [])" by auto
  have used1: "dc_used ?d1 = table_size (dec_live ?d1)" using d1(1) by (simp add: dec_acc_def)
  have fit: "?cost \<le> dc_max d \<Longrightarrow> dc_used ?d1 + ?cost \<le> dc_max d"
    using used1 d1(3) table_size_fit [of "dc_max d - ?cost" "dec_live d"] by simp
  have wf1: "dec_wf ?d1"
    using d1 fit used1 by (cases "?cost \<le> dc_max d") (auto simp: dec_wf_def)
  show ?thesis
  proof (cases "alloc (length name) \<and> alloc (length val) \<and> ?cost \<le> dc_max d")
    case False
    with assms d1 wf1 cost show ?thesis
      by (auto simp: dec_add_def spec_add_def Let_def split: if_splits)
  next
    case True
    obtain r2 d2 where rs: "dec_reserve alloc ?d1 = (r2, d2)" by fastforce
    note d2 = reserve_acc [OF d1(1) rs]
    show ?thesis
    proof (cases "r2 = ZCIO_OK")
      case True
      then have d': "d' = d2\<lparr>dc_e := dc_e d2 @ [(name, val)], dc_used := dc_used d2 + ?cost\<rparr>"
        using assms(2) rs \<open>alloc (length name) \<and> _\<close> d1(2) by (simp add: dec_add_def Let_def)
      have live: "dec_live d' = dec_live d2 @ [(name, val)]"
        using d' d2 by (simp add: dec_live_def dec_acc_def)
      have "dc_used d' = table_size (dec_live d')"
        unfolding live using d' d2 cost used1 by (simp add: dec_acc_def)
      moreover have "dc_used d' \<le> dc_max d'"
        using d' d2 d1(2) fit \<open>alloc (length name) \<and> _\<close> by simp
      moreover have "dc_head d' \<le> length (dc_e d')" "length (dc_e d') \<le> dc_cap d'" "dc_max d' \<le> ZHP_DEC_TABLE_MAX"
        "dc_max d' = dc_max d"
        using d' d2 True d1(2) by (auto simp: dec_acc_def)
      ultimately show ?thesis
        using live d2 d1(3) cost \<open>alloc (length name) \<and> _\<close> by (simp add: spec_add_def dec_wf_def dec_acc_def)
    next
      case False
      then have "r = ZCIO_ERR_NOMEM" "d' = d2"
        using assms(2) rs \<open>alloc (length name) \<and> _\<close> d1(2) by (simp_all add: dec_add_def Let_def)
      then show ?thesis using d2 wf1 d1(2) by (simp add: dec_wf_def)
    qed
  qed
qed

lemma dec_new_wf: "zhp_dec_new alloc n = Some d \<Longrightarrow> dec_wf d \<and> dec_live d = []"
  by (auto simp: zhp_dec_new_def dec_wf_def dec_acc_def dec_live_def ZHP_DEC_TABLE_MAX_def split: if_splits)

text \<open>Wire indices: the static table, then the live entries from the newest.\<close>

lemma resolve_spec:
  assumes "dec_wf d" "unat idx \<noteq> 0"
  shows "hpack_resolve d idx =
    (let es = HPACK_STATIC @ rev (dec_live d) in
     if unat idx \<le> length es then Inr (es ! (unat idx - 1)) else Inl ZCIO_ERR_PROTOCOL)"
proof -
  have h: "dc_head d \<le> length (dc_e d)" using assms(1) by (simp add: dec_wf_def dec_acc_def)
  show ?thesis
  proof (cases "unat idx \<le> HPACK_STATIC_N")
    case True
    with assms show ?thesis
      by (auto simp: hpack_resolve_def Let_def nth_append HPACK_STATIC_N_def)
  next
    case False
    let ?di = "unat idx - HPACK_STATIC_N - 1"
    have "rev (dec_live d) ! ?di = dc_e d ! (length (dc_e d) - 1 - ?di)"
      if "?di < length (dc_e d) - dc_head d"
    proof -
      have "rev (dec_live d) ! ?di = dec_live d ! (length (dec_live d) - Suc ?di)"
        using that h by (intro rev_nth) (simp add: dec_live_def)
      also have "\<dots> = dc_e d ! (dc_head d + (length (dec_live d) - Suc ?di))"
        using that h by (simp add: dec_live_def)
      also have "dc_head d + (length (dec_live d) - Suc ?di) = length (dc_e d) - 1 - ?di"
        using that h by (simp add: dec_live_def)
      finally show ?thesis .
    qed
    with False assms h show ?thesis
      by (auto simp: hpack_resolve_def Let_def nth_append HPACK_STATIC_N_def dec_live_def not_le)
  qed
qed


subsection \<open>What the block decoder guarantees\<close>

lemma hpack_item_size:
  "hpack_item alloc d b block seen mx nb vb = Inr (HpSize n, rest, nb', vb') \<Longrightarrow> n \<le> ZHP_DEC_TABLE_MAX"
  by (auto simp: hpack_item_def split: sum.splits prod.splits if_splits)

text \<open>The callback that collects the field lines.\<close>

definition collect :: "(bytes \<times> bytes) list \<Rightarrow> bytes \<Rightarrow> bytes \<Rightarrow> int \<times> (bytes \<times> bytes) list" where
  "collect u n v = (0, u @ [(n, v)])"

definition fields_size :: "(bytes \<times> bytes) list \<Rightarrow> nat" where
  "fields_size fs = sum_list (map (\<lambda>(n, v). length n + length v) fs)"

lemma fields_size_simps [simp]:
  "fields_size [] = 0" "fields_size ((n, v) # fs) = length n + length v + fields_size fs"
  "fields_size (fs @ gs) = fields_size fs + fields_size gs"
  by (simp_all add: fields_size_def)

lemma decode_loop_invariant:
  assumes "zhp_decode_loop alloc emit mx d block n seen nb vb u = (rc, u', d')" "dec_wf d"
  shows "dec_wf d'"
  using assms
proof (induction "length block" arbitrary: d block n seen nb vb u rule: less_induct)
  case less
  show ?case
  proof (cases block)
    case Nil
    with less.prems show ?thesis by (simp add: zhp_decode_loop.simps)
  next
    case (Cons b bs)
    note unfold = zhp_decode_loop.simps [of alloc emit mx d block n seen nb vb u]
    show ?thesis
    proof (cases "hpack_item alloc d b block seen mx nb vb")
      case (Inl e)
      with Cons less.prems unfold show ?thesis by simp
    next
      case (Inr r)
      then obtain it rest nb1 vb1 where it: "hpack_item alloc d b block seen mx nb vb = Inr (it, rest, nb1, vb1)"
        by (metis prod_cases4)
      note shorter = hpack_item_consumes [OF it]
      show ?thesis
      proof (cases it)
        case (HpSize m)
        have "dec_wf (dec_set_max d m)"
          using hpack_item_size it HpSize less.prems(2) set_max_refines by blast
        moreover have "zhp_decode_loop alloc emit mx (dec_set_max d m) rest n seen nb1 vb1 u = (rc, u', d')"
          using less.prems(1) unfold it HpSize Cons by simp
        ultimately show ?thesis using less.hyps [OF shorter] by blast
      next
        case (HpField nm vl ad)
        obtain er u1 where em: "emit u nm vl = (er, u1)" by fastforce
        obtain r1 d1 where da: "(if ad then dec_add alloc d nm vl else (ZCIO_OK, d)) = (r1, d1)" by fastforce
        have d1: "dec_wf d1" using da less.prems(2) dec_add_refines by (auto split: if_splits)
        consider "d' = d" | "d' = d1"
          | "zhp_decode_loop alloc emit mx d1 rest (n + length nm + length vl) True nb1 vb1 u1 = (rc, u', d')"
          using less.prems(1) unfold it HpField Cons em da by (auto split: if_splits)
        then show ?thesis using less.prems(2) d1 less.hyps [OF shorter] by cases blast+
      qed
    qed
  qed
qed

lemma decode_loop_bounded:
  assumes "zhp_decode_loop alloc collect mx d block n seen nb vb u = (rc, u', d')" "n \<le> mx"
  shows "\<exists>fs. u' = u @ fs \<and> n + fields_size fs \<le> mx \<and> length fs \<le> length block"
  using assms
proof (induction "length block" arbitrary: d block n seen nb vb u rule: less_induct)
  case less
  show ?case
  proof (cases block)
    case Nil
    with less.prems show ?thesis by (simp add: zhp_decode_loop.simps)
  next
    case (Cons b bs)
    note unfold = zhp_decode_loop.simps [of alloc collect mx d block n seen nb vb u]
    show ?thesis
    proof (cases "hpack_item alloc d b block seen mx nb vb")
      case (Inl e)
      with Cons less.prems unfold show ?thesis by simp
    next
      case (Inr r)
      then obtain it rest nb1 vb1 where it: "hpack_item alloc d b block seen mx nb vb = Inr (it, rest, nb1, vb1)"
        by (metis prod_cases4)
      note shorter = hpack_item_consumes [OF it]
      show ?thesis
      proof (cases it)
        case (HpSize m)
        have "zhp_decode_loop alloc collect mx (dec_set_max d m) rest n seen nb1 vb1 u = (rc, u', d')"
          using less.prems(1) unfold it HpSize Cons by simp
        then show ?thesis using less.hyps [OF shorter] less.prems(2) shorter by fastforce
      next
        case (HpField nm vl ad)
        let ?m = "n + length nm + length vl"
        obtain r1 d1 where da: "(if ad then dec_add alloc d nm vl else (ZCIO_OK, d)) = (r1, d1)" by fastforce
        have len: "0 < length block" using Cons by simp
        consider "u' = u" | "u' = u @ [(nm, vl)]" "?m \<le> mx"
          | "zhp_decode_loop alloc collect mx d1 rest ?m True nb1 vb1 (u @ [(nm, vl)]) = (rc, u', d')" "?m \<le> mx"
          using less.prems unfold it HpField Cons da by (auto simp: collect_def split: if_splits)
        then show ?thesis
        proof cases
          case 1
          with less.prems(2) show ?thesis by (intro exI [of _ "[]"]) simp
        next
          case 2
          with len show ?thesis by (intro exI [of _ "[(nm, vl)]"]) (simp add: Suc_le_eq)
        next
          case 3
          from less.hyps [OF shorter 3] obtain fs where
            "u' = (u @ [(nm, vl)]) @ fs" "?m + fields_size fs \<le> mx" "length fs \<le> length rest" by blast
          with shorter show ?thesis by (intro exI [of _ "(nm, vl) # fs"]) simp
        qed
      qed
    qed
  qed
qed

subsection \<open>The decoder reads back what the encoder writes\<close>

definition raw_string_bytes :: "bytes \<Rightarrow> bytes" where
  "raw_string_bytes s = int_bytes 7 0 (length s) @ s"

definition encode_bytes :: "bytes \<Rightarrow> bytes \<Rightarrow> bytes" where
  "encode_bytes n v =
     (let i = hpack_static_name_index n in
      (if i > 0 then int_bytes 4 0 i else int_bytes 4 0 0 @ raw_string_bytes n) @ raw_string_bytes v)"

lemma raw_string_writes:
  assumes "length s < 2 ^ 64"
  shows "writes (\<lambda>out. hpack_raw_string alloc out s) (raw_string_bytes s)"
proof -
  have "writes (\<lambda>out. zhp_int_encode alloc out 7 0 (of_nat (length s))) (int_bytes 7 0 (length s))"
    using int_encode_writes [of 7 alloc 0 "of_nat (length s)"] assms by (simp add: unat_of_nat)
  from writes_then [OF this writes_append, of alloc s] show ?thesis
    by (simp add: hpack_raw_string_def raw_string_bytes_def)
qed

lemma static_scan_spec:
  "static_scan es name i = j \<Longrightarrow> j \<noteq> 0 \<Longrightarrow> i < j \<and> j - i \<le> length es \<and> ci_eq (fst (es ! (j - i - 1))) name"
proof (induction es name i rule: static_scan.induct)
  case (2 n v es name i)
  show ?case
  proof (cases "ci_eq n name")
    case False
    with 2 have "Suc i < j \<and> j - Suc i \<le> length es \<and> ci_eq (fst (es ! (j - Suc i - 1))) name" by simp
    moreover from this have "j - i - 1 = Suc (j - Suc i - 1)" by linarith
    ultimately show ?thesis by (auto simp: nth_Cons')
  qed (use 2 in auto)
qed simp

lemma ci_eq_iff: "ci_eq a b \<longleftrightarrow> map tolower a = map tolower b"
  by (induction a b rule: ci_eq.induct) auto

lemma static_names_lower: "list_all (\<lambda>(n, v). map tolower n = n) HPACK_STATIC"
  by (simp add: HPACK_STATIC_def tolower_def)

lemma static_size: "HPACK_STATIC_N = 61"
  by (simp add: HPACK_STATIC_N_def HPACK_STATIC_def)

lemma static_name_index:
  assumes "hpack_static_name_index n = i" "i \<noteq> 0" "map tolower n = n"
  shows "i \<le> 61 \<and> fst (HPACK_STATIC ! (i - 1)) = n"
proof -
  have i: "i \<le> length HPACK_STATIC" "ci_eq (fst (HPACK_STATIC ! (i - 1))) n"
    using static_scan_spec [of HPACK_STATIC n 0 i] assms by (auto simp: hpack_static_name_index_def)
  then have "HPACK_STATIC ! (i - 1) \<in> set HPACK_STATIC" using assms(2) by (intro nth_mem) simp
  then have "map tolower (fst (HPACK_STATIC ! (i - 1))) = fst (HPACK_STATIC ! (i - 1))"
    using static_names_lower by (fastforce simp: list_all_iff)
  with i assms(3) show ?thesis using static_size by (simp add: ci_eq_iff HPACK_STATIC_N_def)
qed


lemma int_bytes_first: "\<exists>m bs. int_bytes k 0 n = of_nat m # bs \<and> m \<le> 2 ^ k - 1"
proof (cases "n < 2 ^ k - 1")
  case True
  then show ?thesis by (intro exI [of _ n]) (simp add: int_bytes_def)
next
  case False
  then show ?thesis by (intro exI [of _ "2 ^ k - 1"]) (simp add: int_bytes_def)
qed

lemma hpack_string_raw:
  assumes "length s \<le> mx" "length s \<le> 2 ^ 24"
  shows "hpack_string alloc (raw_string_bytes s @ rest) mx sc = Inr (s, rest, sc)"
proof -
  let ?h = "int_bytes 7 0 (length s)"
  obtain m bs where h: "?h = of_nat m # bs" "m \<le> 127" using int_bytes_first [of 7 "length s"] by auto
  have b: "(of_nat m AND 0x80 :: byte) = 0" using h(2) by (subst and_80_of_nat) auto
  have "zhp_int_decode (?h @ s @ rest) 7 = Inr (length ?h, of_nat (length s))"
    using assms(2) by (intro int_decode_bytes) auto
  moreover have "unat (of_nat (length s) :: u64) = length s" using assms(2) by (simp add: unat_of_nat)
  ultimately show ?thesis
    using assms(1) b h(1) by (simp add: hpack_string_def raw_string_bytes_def Let_def)
qed

lemma nibble_flags:
  assumes "m \<le> 15"
  shows "(of_nat m AND 0x80 :: byte) = 0" "(of_nat m AND 0x40 :: byte) = 0" "(of_nat m AND 0x20 :: byte) = 0"
proof -
  have "m \<in> {0, 1, 2, 3, 4, 5, 6, 7, 8, 9, 10, 11, 12, 13, 14, 15}" using assms by (simp; presburger)
  then show "(of_nat m AND 0x80 :: byte) = 0" "(of_nat m AND 0x40 :: byte) = 0" "(of_nat m AND 0x20 :: byte) = 0"
    by (elim insertE emptyE; simp)+
qed

lemma hpack_literal_encoded:
  assumes "map tolower n = n" "length n + length v \<le> mx" "length n \<le> 2 ^ 24" "length v \<le> 2 ^ 24"
  shows "hpack_literal alloc d (encode_bytes n v @ rest) 4 mx nb vb = Inr ((n, v), rest, nb, vb)"
proof -
  let ?i = "hpack_static_name_index n"
  have v: "hpack_string alloc (raw_string_bytes v @ rest) mx vb = Inr (v, rest, vb)"
    using assms by (intro hpack_string_raw) auto
  show ?thesis
  proof (cases "?i = 0")
    case True
    have i: "zhp_int_decode (int_bytes 4 0 0 @ raw_string_bytes n @ raw_string_bytes v @ rest) 4 =
        Inr (length (int_bytes 4 0 0), of_nat 0)" by (intro int_decode_bytes) auto
    have "hpack_string alloc (raw_string_bytes n @ raw_string_bytes v @ rest) mx nb =
        Inr (n, raw_string_bytes v @ rest, nb)" using assms by (intro hpack_string_raw) auto
    with i v True show ?thesis by (simp add: hpack_literal_def encode_bytes_def)
  next
    case False
    note si = static_name_index [OF refl False assms(1)]
    have i: "zhp_int_decode (int_bytes 4 0 ?i @ raw_string_bytes v @ rest) 4 =
        Inr (length (int_bytes 4 0 ?i), of_nat ?i)" using si by (intro int_decode_bytes) auto
    have u: "unat (of_nat ?i :: u64) = ?i" using si by (simp add: unat_of_nat)
    then have "(of_nat ?i :: u64) \<noteq> 0" using False by (metis unat_0)
    moreover have "hpack_resolve d (of_nat ?i) = Inr (n, snd (HPACK_STATIC ! (?i - 1)))"
      using si False u static_size by (simp add: hpack_resolve_def Let_def prod_eq_iff)
    ultimately show ?thesis
      using i v False by (simp add: hpack_literal_def encode_bytes_def)
  qed
qed

lemma hpack_item_encoded:
  assumes "map tolower n = n" "length n + length v \<le> mx" "length n \<le> 2 ^ 24" "length v \<le> 2 ^ 24"
  shows "\<exists>b bs. encode_bytes n v @ rest = b # bs \<and>
    hpack_item alloc d b (encode_bytes n v @ rest) seen mx nb vb = Inr (HpField n v False, rest, nb, vb)"
proof -
  obtain m bs where h: "int_bytes 4 0 (hpack_static_name_index n) = of_nat m # bs" "m \<le> 15"
    using int_bytes_first [of 4 "hpack_static_name_index n"] by auto
  from h(1) have "\<exists>bs. encode_bytes n v @ rest = of_nat m # bs"
    by (cases "hpack_static_name_index n = 0") (auto simp: encode_bytes_def)
  then show ?thesis
    using hpack_literal_encoded [OF assms, of alloc d rest nb vb] nibble_flags [OF h(2)]
    by (auto simp: hpack_item_def)
qed

definition encodable :: "bytes \<times> bytes \<Rightarrow> bool" where
  "encodable h \<longleftrightarrow> map tolower (fst h) = fst h \<and> length (fst h) \<le> 2 ^ 24 \<and> length (snd h) \<le> 2 ^ 24"

lemma decode_loop_encoded:
  assumes "list_all encodable hs" "n + fields_size hs \<le> mx"
  shows "zhp_decode_loop alloc collect mx d (concat (map (\<lambda>(n, v). encode_bytes n v) hs)) n seen nb vb u =
    (0, u @ hs, d)"
  using assms
proof (induction hs arbitrary: n seen u)
  case Nil
  then show ?case by (simp add: zhp_decode_loop.simps)
next
  case (Cons h hs)
  obtain nm vl where h: "h = (nm, vl)" by fastforce
  let ?rest = "concat (map (\<lambda>(n, v). encode_bytes n v) hs)"
  from hpack_item_encoded [of nm vl mx ?rest alloc d seen nb vb] Cons.prems h obtain b bs where
    b: "encode_bytes nm vl @ ?rest = b # bs"
    "hpack_item alloc d b (encode_bytes nm vl @ ?rest) seen mx nb vb = Inr (HpField nm vl False, ?rest, nb, vb)"
    by (auto simp: encodable_def)
  have fits: "\<not> mx - n < length nm" "\<not> mx - n - length nm < length vl" using Cons.prems(2) h by auto
  have "zhp_decode_loop alloc collect mx d (encode_bytes nm vl @ ?rest) n seen nb vb u =
      zhp_decode_loop alloc collect mx d ?rest (n + length nm + length vl) True nb vb (u @ [(nm, vl)])"
    using b fits by (subst zhp_decode_loop.simps) (simp add: collect_def)
  also have "\<dots> = (0, (u @ [(nm, vl)]) @ hs, d)"
    using Cons.prems h by (intro Cons.IH) auto
  finally show ?case using h by simp
qed

text \<open>A header block as a server writes it: one \<open>zhp_encode\<close> per field.\<close>

fun encode_fields :: "allocator \<Rightarrow> (bytes \<times> bytes) list \<Rightarrow> zhs_buf \<Rightarrow> zcio_result \<times> zhs_buf" where
  "encode_fields alloc [] out = (ZCIO_OK, out)"
| "encode_fields alloc ((n, v) # hs) out = and_then (zhp_encode alloc out (Some n) (Some v)) (encode_fields alloc hs)"

lemma zhp_encode_writes:
  assumes "encodable (n, v)"
  shows "writes (\<lambda>out. zhp_encode alloc out (Some n) (Some v)) (encode_bytes n v)"
proof -
  let ?i = "hpack_static_name_index n"
  have len: "length n < 2 ^ 64" "length v < 2 ^ 64" using assms by (auto simp: encodable_def)
  note w = raw_string_writes [OF len(1), of alloc] raw_string_writes [OF len(2), of alloc]
  show ?thesis
  proof (cases "?i = 0")
    case True
    have "writes (\<lambda>out. zhp_int_encode alloc out 4 0 0) (int_bytes 4 0 0)"
      using int_encode_writes [of 4 alloc 0 0] by simp
    from writes_then [OF writes_then [OF this w(1)] w(2)] True show ?thesis
      by (simp add: zhp_encode_def encode_bytes_def)
  next
    case False
    have "?i \<le> 61" using static_name_index [OF refl False] assms by (simp add: encodable_def)
    then have "writes (\<lambda>out. zhp_int_encode alloc out 4 0 (of_nat ?i)) (int_bytes 4 0 ?i)"
      using int_encode_writes [of 4 alloc 0 "of_nat ?i"] by (simp add: unat_of_nat)
    from writes_then [OF this w(2)] False show ?thesis
      by (simp add: zhp_encode_def encode_bytes_def)
  qed
qed

lemma encode_fields_writes:
  "list_all encodable hs \<Longrightarrow> writes (encode_fields alloc hs) (concat (map (\<lambda>(n, v). encode_bytes n v) hs))"
proof (induction hs)
  case (Cons h hs)
  obtain n v where h: "h = (n, v)" by fastforce
  from writes_then [OF zhp_encode_writes Cons.IH, of n v alloc] Cons.prems h show ?case
    by simp
qed (simp add: writes_def)


subsection \<open>The properties of the HPACK codec\<close>

text \<open>
  Prefixed integers round-trip: what \<open>zhp_int_encode\<close> appends for a value up to the decoder's
  limit is at most five octets, and \<open>zhp_int_decode\<close> reads exactly these octets back to the same
  value, whatever follows them; the encoder fails only for want of memory.
\<close>
theorem hpack_int_roundtrip:
  assumes "1 \<le> k" "k \<le> 8" "take_bit k fl = 0" "unat v \<le> 2 ^ 24" "zb_wf out"
    and "zhp_int_encode alloc out k fl v = (r, out')"
  shows "(r = ZCIO_OK \<or> r = ZCIO_ERR_NOMEM) \<and>
    (r = ZCIO_OK \<longrightarrow> (\<exists>p. ZHS_PTR out' = ZHS_PTR out @ p \<and> length p \<le> 5 \<and>
      (\<forall>rest. zhp_int_decode (p @ rest) k = Inr (length p, v))))"
proof -
  let ?p = "int_bytes k fl (unat v)"
  have dec: "zhp_int_decode (?p @ rest) k = Inr (length ?p, v)" for rest
    using int_decode_bytes [OF assms(1-3), of "unat v" rest] assms(4) by simp
  from int_decode_bounds(3) [OF dec [of "[]"] assms(2)] have "length ?p \<le> 5" .
  with dec writesD [OF int_encode_writes [OF assms(1,2)] assms(5,6)] show ?thesis by blast
qed

text \<open>
  C23. The Huffman decoder accepts exactly the canonical encodings of RFC 7541: when it succeeds its
  output encodes to the input bits up to fewer than eight padding ones and respects the output
  limit, and every such input is decoded, unless memory runs out.
\<close>
theorem hpack_huffman_exact:
  assumes "length inp \<le> SIZE_MAX div 8" "zb_wf out" "zhp_huff_decode alloc inp out mx = (r, out')"
  shows "(r = ZCIO_OK \<longrightarrow> (\<exists>s p. ZHS_PTR out' = ZHS_PTR out @ s \<and> length s \<le> mx \<and> p < 8 \<and>
      map (huff_bit inp) [0 ..< 8 * length inp] = huff_encode s @ replicate p True)) \<and>
    (\<forall>s p. p < 8 \<and> length s \<le> mx \<and>
      map (huff_bit inp) [0 ..< 8 * length inp] = huff_encode s @ replicate p True \<longrightarrow>
      r = ZCIO_OK \<and> ZHS_PTR out' = ZHS_PTR out @ s \<or> r = ZCIO_ERR_NOMEM)"
proof -
  let ?tb = "8 * length inp"
  have bits: "map (huff_bit inp) [0 ..< ?tb] = bits_from inp 0 ?tb" by (simp add: bits_from_def)
  have loop: "huff_decode_loop alloc inp ?tb mx 0 0 out = (r, out')"
    using assms by (simp add: zhp_huff_decode_def mult.commute)
  have "\<exists>s p. ZHS_PTR out' = ZHS_PTR out @ s \<and> length s \<le> mx \<and> p < 8 \<and>
      bits_from inp 0 ?tb = huff_encode s @ replicate p True" if "r = ZCIO_OK"
    using huff_decode_sound [of alloc inp ?tb mx 0 0 out out'] loop that assms(2) by auto
  moreover have "r = ZCIO_OK \<and> ZHS_PTR out' = ZHS_PTR out @ s \<or> r = ZCIO_ERR_NOMEM"
    if "p < 8" "length s \<le> mx" "bits_from inp 0 ?tb = huff_encode s @ replicate p True" for s p
    using writesD [OF huff_decode_writes [OF that(3,1), of 0 mx] assms(2) loop] that(2) by auto
  ultimately show ?thesis unfolding bits by blast
qed

theorem hpack_huffman_exact_witness:
  "case zhp_huff_decode (\<lambda>_. True) [0x1F] zhs_buf_zero 16 of (r, out') \<Rightarrow>
    (r = ZCIO_OK \<longrightarrow> (\<exists>s p. ZHS_PTR out' = ZHS_PTR zhs_buf_zero @ s \<and> length s \<le> 16 \<and> p < 8 \<and>
      map (huff_bit [0x1F]) [0 ..< 8] = huff_encode s @ replicate p True))"
proof -
  have "zb_wf zhs_buf_zero" by (simp add: zb_wf_def zhs_buf_zero_def)
  with hpack_huffman_exact [of "[0x1F]" zhs_buf_zero "\<lambda>_. True" 16] show ?thesis
    by (cases "zhp_huff_decode (\<lambda>_. True) [0x1F] zhs_buf_zero 16") (auto simp: SIZE_MAX_def)
qed

text \<open>
  C22. The dynamic table refines a queue of entries bounded by its size: an insertion keeps the
  representation invariant and the limit, and unless memory runs out the live entries are the old
  ones, the oldest dropped until the new one fits; wire indices then address the static table
  followed by the live entries from the newest, and nothing else.
\<close>
theorem hpack_table_refines:
  assumes "dec_wf d" "dec_add alloc d name val = (r, d')"
  shows "dec_wf d' \<and> dc_max d' = dc_max d \<and>
    (r = ZCIO_OK \<longrightarrow> dec_live d' = spec_add (dc_max d) (dec_live d) (name, val)) \<and>
    (\<forall>idx. unat idx \<noteq> 0 \<longrightarrow> hpack_resolve d' idx =
      (let es = HPACK_STATIC @ rev (dec_live d') in
       if unat idx \<le> length es then Inr (es ! (unat idx - 1)) else Inl ZCIO_ERR_PROTOCOL))"
  using dec_add_refines [OF assms] resolve_spec by blast

theorem hpack_table_refines_witness:
  "case dec_add (\<lambda>_. True) (the (zhp_dec_new True 64)) (asc ''a'') (asc ''b'') of (r, d') \<Rightarrow>
     dec_wf d' \<and> (r = ZCIO_OK \<longrightarrow> dec_live d' = spec_add 64 [] (asc ''a'', asc ''b''))"
proof -
  let ?d = "the (zhp_dec_new True 64)"
  have d: "dec_wf ?d" "dec_live ?d = []" "dc_max ?d = 64"
    using dec_new_wf [of True 64 ?d] by (auto simp: zhp_dec_new_def ZHP_DEC_TABLE_MAX_def)
  then show ?thesis
    using hpack_table_refines [OF d(1), of "\<lambda>_. True" "asc ''a''" "asc ''b''"]
    by (cases "dec_add (\<lambda>_. True) ?d (asc ''a'') (asc ''b'')") auto
qed

text \<open>
  C16. Decoding any block, hostile or not, is bounded: whatever the result code, the decoder's table
  keeps its invariant and stays within 4096 bytes, the field lines emitted hold at most the caller's
  limit of name and value bytes, and there are no more of them than block bytes.
\<close>
theorem hpack_decode_bounded:
  assumes "dec_wf d" "zhp_decode alloc d block mx collect [] = (rc, fs, d')"
  shows "dec_wf d' \<and> table_size (dec_live d') \<le> 4096 \<and> fields_size fs \<le> mx \<and> length fs \<le> length block"
proof -
  have "dec_wf d'" using decode_loop_invariant assms by (fastforce simp: zhp_decode_def)
  moreover from this have "table_size (dec_live d') \<le> 4096"
    by (simp add: dec_wf_def dec_acc_def ZHP_DEC_TABLE_MAX_def)
  ultimately show ?thesis
    using decode_loop_bounded [of alloc mx d block 0] assms(2) by (fastforce simp: zhp_decode_def)
qed

theorem hpack_decode_bounded_witness:
  "case zhp_decode (\<lambda>_. True) (the (zhp_dec_new True 4096)) [0x82, 0x86, 0xBE] 100 collect [] of (rc, fs, d') \<Rightarrow>
     dec_wf d' \<and> table_size (dec_live d') \<le> 4096 \<and> fields_size fs \<le> 100 \<and> length fs \<le> length [0x82 :: byte, 0x86, 0xBE]"
proof -
  let ?d = "the (zhp_dec_new True 4096)"
  have "dec_wf ?d"
    using dec_new_wf [of True 4096 ?d] by (auto simp: zhp_dec_new_def ZHP_DEC_TABLE_MAX_def)
  then show ?thesis
    using hpack_decode_bounded [of ?d "\<lambda>_. True" "[0x82, 0x86, 0xBE]" 100]
    by (cases "zhp_decode (\<lambda>_. True) ?d [0x82, 0x86, 0xBE] 100 collect []") blast
qed

text \<open>
  C17. Header blocks round-trip: the decoder turns what a sequence of \<open>zhp_encode\<close> calls wrote for
  lower-case field names back into the same fields in the same order, from any table state and
  without changing it; the encoder fails only for want of memory.
\<close>
theorem hpack_roundtrip:
  assumes "list_all encodable hs" "fields_size hs \<le> mx"
    and "encode_fields alloc hs zhs_buf_zero = (r, out)"
  shows "(r = ZCIO_OK \<or> r = ZCIO_ERR_NOMEM) \<and>
    (r = ZCIO_OK \<longrightarrow> zhp_decode alloc' d (ZHS_PTR out) mx collect [] = (0, hs, d))"
proof -
  have z: "zb_wf zhs_buf_zero" "ZHS_PTR zhs_buf_zero = []" by (simp_all add: zb_wf_def zhs_buf_zero_def ZHS_PTR_def)
  note w = writesD [OF encode_fields_writes [OF assms(1)] z(1) assms(3)]
  have "zhp_decode alloc' d (concat (map (\<lambda>(n, v). encode_bytes n v) hs)) mx collect [] = (0, hs, d)"
    using decode_loop_encoded [OF assms(1), of 0 mx] assms(2) by (simp add: zhp_decode_def)
  with w z(2) show ?thesis by auto
qed

theorem hpack_roundtrip_witness:
  "let hs = [(asc ''content-type'', asc ''text/plain''), (asc ''x-id'', asc ''7'')] in
   case encode_fields (\<lambda>_. True) hs zhs_buf_zero of (r, out) \<Rightarrow>
     r = ZCIO_OK \<longrightarrow> zhp_decode (\<lambda>_. True) (the (zhp_dec_new True 0)) (ZHS_PTR out) 64 collect [] =
       (0, hs, the (zhp_dec_new True 0))"
proof -
  let ?hs = "[(asc ''content-type'', asc ''text/plain''), (asc ''x-id'', asc ''7'')]"
  have "list_all encodable ?hs" "fields_size ?hs \<le> 64"
    by (simp_all add: encodable_def tolower_def)
  with hpack_roundtrip [of ?hs 64 "\<lambda>_. True"] show ?thesis
    by (cases "encode_fields (\<lambda>_. True) ?hs zhs_buf_zero") (simp add: Let_def)
qed

end
