(* ===== verification/Zc_Qpack.thy ===== *)
theory Zc_Qpack
  imports Zc_Hpack
begin

unbundle bit_operations_syntax

text \<open>
  QPACK (\<open>src/src/qpack.c\<close>) with the static table only: the decoder of field sections, which
  rejects every reference to a dynamic table, and the stateless encoder. The prefixed integers and
  the Huffman code are those of \<open>Zc_Hpack\<close>.
\<close>

section \<open>QPACK\<close>

definition QPACK_STATIC :: "(bytes \<times> bytes) list" where
  "QPACK_STATIC = [
    (asc '':authority'', []), (asc '':path'', asc ''/''), (asc ''age'', asc ''0''),
    (asc ''content-disposition'', []), (asc ''content-length'', asc ''0''), (asc ''cookie'', []),
    (asc ''date'', []), (asc ''etag'', []), (asc ''if-modified-since'', []),
    (asc ''if-none-match'', []), (asc ''last-modified'', []), (asc ''link'', []),
    (asc ''location'', []), (asc ''referer'', []), (asc ''set-cookie'', []),
    (asc '':method'', asc ''CONNECT''), (asc '':method'', asc ''DELETE''),
    (asc '':method'', asc ''GET''), (asc '':method'', asc ''HEAD''),
    (asc '':method'', asc ''OPTIONS''), (asc '':method'', asc ''POST''),
    (asc '':method'', asc ''PUT''), (asc '':scheme'', asc ''http''), (asc '':scheme'', asc ''https''),
    (asc '':status'', asc ''103''), (asc '':status'', asc ''200''), (asc '':status'', asc ''304''),
    (asc '':status'', asc ''404''), (asc '':status'', asc ''503''), (asc ''accept'', asc ''*/*''),
    (asc ''accept'', asc ''application/dns-message''),
    (asc ''accept-encoding'', asc ''gzip, deflate, br''), (asc ''accept-ranges'', asc ''bytes''),
    (asc ''access-control-allow-headers'', asc ''cache-control''),
    (asc ''access-control-allow-headers'', asc ''content-type''),
    (asc ''access-control-allow-origin'', asc ''*''), (asc ''cache-control'', asc ''max-age=0''),
    (asc ''cache-control'', asc ''max-age=2592000''), (asc ''cache-control'', asc ''max-age=604800''),
    (asc ''cache-control'', asc ''no-cache''), (asc ''cache-control'', asc ''no-store''),
    (asc ''cache-control'', asc ''public, max-age=31536000''), (asc ''content-encoding'', asc ''br''),
    (asc ''content-encoding'', asc ''gzip''), (asc ''content-type'', asc ''application/dns-message''),
    (asc ''content-type'', asc ''application/javascript''),
    (asc ''content-type'', asc ''application/json''),
    (asc ''content-type'', asc ''application/x-www-form-urlencoded''),
    (asc ''content-type'', asc ''image/gif''), (asc ''content-type'', asc ''image/jpeg''),
    (asc ''content-type'', asc ''image/png''), (asc ''content-type'', asc ''text/css''),
    (asc ''content-type'', asc ''text/html;charset=utf-8''),
    (asc ''content-type'', asc ''text/plain''),
    (asc ''content-type'', asc ''text/plain;charset=utf-8''), (asc ''range'', asc ''bytes=0-''),
    (asc ''strict-transport-security'', asc ''max-age=31536000''),
    (asc ''strict-transport-security'', asc ''max-age=31536000;includesubdomains''),
    (asc ''strict-transport-security'', asc ''max-age=31536000;includesubdomains;preload''),
    (asc ''vary'', asc ''accept-encoding''), (asc ''vary'', asc ''origin''),
    (asc ''x-content-type-options'', asc ''nosniff''),
    (asc ''x-xss-protection'', asc ''1; mode=block''), (asc '':status'', asc ''100''),
    (asc '':status'', asc ''204''), (asc '':status'', asc ''206''), (asc '':status'', asc ''302''),
    (asc '':status'', asc ''400''), (asc '':status'', asc ''403''), (asc '':status'', asc ''421''),
    (asc '':status'', asc ''425''), (asc '':status'', asc ''500''), (asc ''accept-language'', []),
    (asc ''access-control-allow-credentials'', asc ''FALSE''),
    (asc ''access-control-allow-credentials'', asc ''TRUE''),
    (asc ''access-control-allow-headers'', asc ''*''),
    (asc ''access-control-allow-methods'', asc ''get''),
    (asc ''access-control-allow-methods'', asc ''get, post, options''),
    (asc ''access-control-allow-methods'', asc ''options''),
    (asc ''access-control-expose-headers'', asc ''content-length''),
    (asc ''access-control-request-headers'', asc ''content-type''),
    (asc ''access-control-request-method'', asc ''get''),
    (asc ''access-control-request-method'', asc ''post''), (asc ''alt-svc'', asc ''clear''),
    (asc ''authorization'', []),
    (asc ''content-security-policy'', asc ''script-src 'none';object-src 'none';base-uri 'none'' @ [0x27]),
    (asc ''early-data'', asc ''1''), (asc ''expect-ct'', []), (asc ''forwarded'', []),
    (asc ''if-range'', []), (asc ''origin'', []), (asc ''purpose'', asc ''prefetch''),
    (asc ''server'', []), (asc ''timing-allow-origin'', asc ''*''),
    (asc ''upgrade-insecure-requests'', asc ''1''), (asc ''user-agent'', []),
    (asc ''x-forwarded-for'', []), (asc ''x-frame-options'', asc ''deny''),
    (asc ''x-frame-options'', asc ''sameorigin'')]"

definition QPACK_STATIC_N :: nat where
  "QPACK_STATIC_N = length QPACK_STATIC"

definition QPACK_STATUS_NAME_IDX :: nat where
  "QPACK_STATUS_NAME_IDX = 24"

text \<open>The index of the first entry with this name; \<open>-1\<close> is the value \<open>None\<close>.\<close>

fun qpack_scan :: "(bytes \<times> bytes) list \<Rightarrow> bytes \<Rightarrow> nat \<Rightarrow> nat option" where
  "qpack_scan [] name i = None"
| "qpack_scan ((n, v) # es) name i = (if ci_eq n name then Some i else qpack_scan es name (i + 1))"

definition qpack_static_name_index :: "bytes \<Rightarrow> nat option" where
  "qpack_static_name_index name = qpack_scan QPACK_STATIC name 0"

subsection \<open>Decoding\<close>

definition qpack_read_string ::
  "allocator \<Rightarrow> bytes \<Rightarrow> bool \<Rightarrow> nat \<Rightarrow> nat \<Rightarrow> zhs_buf \<Rightarrow> zcio_result + (bytes \<times> bytes \<times> zhs_buf)" where
  "qpack_read_string alloc block huff prefix_bits max_out scratch =
     (case zhp_int_decode block prefix_bits of
        Inl e \<Rightarrow> Inl e
      | Inr (c, slen0) \<Rightarrow>
          (let rest = drop c block; slen = unat slen0 in
           if slen > length rest then Inl ZCIO_ERR_PROTOCOL
           else let s = take slen rest; rest1 = drop slen rest in
             if huff then
               (case zhp_huff_decode alloc s (zhs_buf_reset scratch) max_out of
                  (r, scratch1) \<Rightarrow>
                    if r \<noteq> ZCIO_OK then Inl r else Inr (zb_data scratch1, rest1, scratch1))
             else if slen > max_out then Inl ZCIO_ERR_PROTOCOL
             else Inr (s, rest1, scratch)))"

text \<open>\<open>if (pos >= len) fail; qpack_read_string(..., (block[pos] & 0x80) != 0, 7, ...)\<close>\<close>

definition qpack_value ::
  "allocator \<Rightarrow> bytes \<Rightarrow> nat \<Rightarrow> zhs_buf \<Rightarrow> zcio_result + (bytes \<times> bytes \<times> zhs_buf)" where
  "qpack_value alloc block max_out vbuf =
     (case block of
        [] \<Rightarrow> Inl ZCIO_ERR_PROTOCOL
      | b # _ \<Rightarrow> qpack_read_string alloc block (b AND 0x80 \<noteq> 0) 7 max_out vbuf)"

text \<open>One field line: name, value, the rest of the block and the two scratch buffers.\<close>

definition qpack_line ::
  "allocator \<Rightarrow> byte \<Rightarrow> bytes \<Rightarrow> nat \<Rightarrow> zhs_buf \<Rightarrow> zhs_buf
     \<Rightarrow> zcio_result + ((bytes \<times> bytes) \<times> bytes \<times> zhs_buf \<times> zhs_buf)" where
  "qpack_line alloc b block mx nbuf vbuf =
     (if b AND 0x80 \<noteq> 0 then
        (if b AND 0x40 = 0 then Inl ZCIO_ERR_PROTOCOL
         else case zhp_int_decode block 6 of
           Inl e \<Rightarrow> Inl e
         | Inr (c, idx) \<Rightarrow>
             if unat idx \<ge> QPACK_STATIC_N then Inl ZCIO_ERR_PROTOCOL
             else Inr (QPACK_STATIC ! unat idx, drop c block, nbuf, vbuf))
      else if b AND 0x40 \<noteq> 0 then
        (if b AND 0x10 = 0 then Inl ZCIO_ERR_PROTOCOL
         else case zhp_int_decode block 4 of
           Inl e \<Rightarrow> Inl e
         | Inr (c, idx) \<Rightarrow>
             if unat idx \<ge> QPACK_STATIC_N then Inl ZCIO_ERR_PROTOCOL
             else (case qpack_value alloc (drop c block) mx vbuf of
                     Inl e \<Rightarrow> Inl e
                   | Inr (vl, rest, vbuf1) \<Rightarrow> Inr ((fst (QPACK_STATIC ! unat idx), vl), rest, nbuf, vbuf1)))
      else if b AND 0x20 \<noteq> 0 then
        (case qpack_read_string alloc block (b AND 0x08 \<noteq> 0) 3 mx nbuf of
           Inl e \<Rightarrow> Inl e
         | Inr (nm, rest, nbuf1) \<Rightarrow>
             (case qpack_value alloc rest mx vbuf of
                Inl e \<Rightarrow> Inl e
              | Inr (vl, rest1, vbuf1) \<Rightarrow> Inr ((nm, vl), rest1, nbuf1, vbuf1)))
      else Inl ZCIO_ERR_PROTOCOL)"

lemma qpack_read_string_consumes:
  "qpack_read_string alloc block h k mx sc = Inr (s, rest, sc') \<Longrightarrow> length rest < length block"
  using int_decode_consumed
  by (fastforce simp: qpack_read_string_def Let_def split: sum.splits prod.splits if_splits)

lemma qpack_value_consumes:
  "qpack_value alloc block mx sc = Inr (s, rest, sc') \<Longrightarrow> length rest < length block"
  using qpack_read_string_consumes by (fastforce simp: qpack_value_def split: list.splits)

lemma qpack_line_consumes:
  assumes "qpack_line alloc b block mx nb vb = Inr (nv, rest, nb', vb')"
  shows "length rest < length block"
proof -
  consider c k w where "zhp_int_decode block k = Inr (c, w)" "rest = drop c block"
    | c k w s where "zhp_int_decode block k = Inr (c, w)" "qpack_value alloc (drop c block) mx vb = Inr (s, rest, vb')"
    | h k s mid v where "qpack_read_string alloc block h k mx nb = Inr (s, mid, nb')"
        "qpack_value alloc mid mx vb = Inr (v, rest, vb')"
    using assms by (auto simp: qpack_line_def split: sum.splits prod.splits if_splits)
  then show ?thesis
  proof cases
    case 1
    with int_decode_consumed [OF 1(1)] show ?thesis by auto
  next
    case 2
    with qpack_value_consumes [OF 2(2)] show ?thesis by auto
  next
    case 3
    with qpack_value_consumes [OF 3(2)] qpack_read_string_consumes [OF 3(1)] show ?thesis by simp
  qed
qed

function zqp_decode_loop ::
  "allocator \<Rightarrow> ('u \<Rightarrow> bytes \<Rightarrow> bytes \<Rightarrow> int \<times> 'u) \<Rightarrow> nat \<Rightarrow> bytes \<Rightarrow> nat
     \<Rightarrow> zhs_buf \<Rightarrow> zhs_buf \<Rightarrow> 'u \<Rightarrow> int \<times> 'u" where
  "zqp_decode_loop alloc emit mx block decoded nbuf vbuf u =
     (case block of
        [] \<Rightarrow> (zcode ZCIO_OK, u)
      | b # _ \<Rightarrow>
          (case qpack_line alloc b block mx nbuf vbuf of
             Inl e \<Rightarrow> (zcode e, u)
           | Inr ((nm, vl), rest, nbuf1, vbuf1) \<Rightarrow>
               (if length nm > mx - decoded \<or> length vl > mx - decoded - length nm
                then (zcode ZCIO_ERR_PROTOCOL, u)
                else
                  (case emit u nm vl of
                     (er, u1) \<Rightarrow>
                       if er \<noteq> 0 then (er, u1)
                       else zqp_decode_loop alloc emit mx rest (decoded + length nm + length vl) nbuf1 vbuf1 u1))))"
  by pat_completeness auto
termination
  by (relation "measure (\<lambda>(alloc, emit, mx, block, rest). length block)")
    (auto dest: qpack_line_consumes)

declare zqp_decode_loop.simps [simp del]

text \<open>The prefix of a field section (required insert count and delta base), then its lines.\<close>

definition zqp_decode ::
  "allocator \<Rightarrow> bytes \<Rightarrow> nat \<Rightarrow> ('u \<Rightarrow> bytes \<Rightarrow> bytes \<Rightarrow> int \<times> 'u) \<Rightarrow> 'u \<Rightarrow> int \<times> 'u" where
  "zqp_decode alloc block mx emit u =
     (case zhp_int_decode block 8 of
        Inl e \<Rightarrow> (zcode e, u)
      | Inr (c, ric) \<Rightarrow>
          if ric \<noteq> 0 then (zcode ZCIO_ERR_PROTOCOL, u)
          else if c \<ge> length block then (zcode ZCIO_ERR_PROTOCOL, u)
          else (case zhp_int_decode (drop c block) 7 of
                  Inl e \<Rightarrow> (zcode e, u)
                | Inr (c1, base) \<Rightarrow>
                    zqp_decode_loop alloc emit mx (drop c1 (drop c block)) 0 zhs_buf_zero zhs_buf_zero u))"

subsection \<open>Encoding\<close>

definition qpack_raw_string :: "allocator \<Rightarrow> zhs_buf \<Rightarrow> bytes \<Rightarrow> zcio_result \<times> zhs_buf" where
  "qpack_raw_string alloc out s =
     and_then (zhp_int_encode alloc out 7 0 (of_nat (length s))) (\<lambda>out1. zhs_buf_append alloc out1 s)"

definition zqp_prefix_encode :: "allocator \<Rightarrow> zhs_buf \<Rightarrow> zcio_result \<times> zhs_buf" where
  "zqp_prefix_encode alloc out =
     and_then (zhs_buf_append_u8 alloc out 0) (\<lambda>out1. zhs_buf_append_u8 alloc out1 0)"

definition zqp_encode :: "allocator \<Rightarrow> zhs_buf \<Rightarrow> bytes option \<Rightarrow> bytes option \<Rightarrow> zcio_result \<times> zhs_buf" where
  "zqp_encode alloc out name value =
     (case (name, value) of
        (Some n, Some v) \<Rightarrow>
          and_then
            (case qpack_static_name_index n of
               Some idx \<Rightarrow> zhp_int_encode alloc out 4 0x50 (of_nat idx)
             | None \<Rightarrow> and_then (zhp_int_encode alloc out 3 0x20 (of_nat (length n)))
                         (\<lambda>out1. zhs_buf_append alloc out1 n))
            (\<lambda>out1. qpack_raw_string alloc out1 v)
      | _ \<Rightarrow> (ZCIO_ERR_INVALID_ARG, out))"

definition qpack_status_index :: "int \<Rightarrow> nat option" where
  "qpack_status_index status =
     map_of [(100, 63), (103, 24), (200, 25), (204, 64), (206, 65), (302, 66), (304, 26), (400, 67),
             (403, 68), (404, 27), (421, 69), (425, 70), (500, 71), (503, 28)] status"

definition zqp_encode_status :: "allocator \<Rightarrow> zhs_buf \<Rightarrow> int \<Rightarrow> zcio_result \<times> zhs_buf" where
  "zqp_encode_status alloc out status =
     (case qpack_status_index status of
        Some idx \<Rightarrow> zhp_int_encode alloc out 6 0xC0 (of_nat idx)
      | None \<Rightarrow>
          (let v = fmt_int status in
           if length v \<ge> 16 then (ZCIO_ERR, out)
           else and_then (zhp_int_encode alloc out 4 0x50 (of_nat QPACK_STATUS_NAME_IDX))
                  (\<lambda>out1. qpack_raw_string alloc out1 v)))"


subsection \<open>The decoder is bounded\<close>

lemma qp_decode_loop_bounded:
  assumes "zqp_decode_loop alloc collect mx block n nb vb u = (rc, u')" "n \<le> mx"
  shows "\<exists>fs. u' = u @ fs \<and> n + fields_size fs \<le> mx \<and> length fs \<le> length block"
  using assms
proof (induction "length block" arbitrary: block n nb vb u rule: less_induct)
  case less
  note unfold = zqp_decode_loop.simps [of alloc collect mx block n nb vb u]
  show ?case
  proof (cases block)
    case Nil
    with less.prems unfold show ?thesis by simp
  next
    case (Cons b bs)
    show ?thesis
    proof (cases "qpack_line alloc b block mx nb vb")
      case (Inl e)
      with Cons less.prems unfold show ?thesis by simp
    next
      case (Inr r)
      then obtain nm vl rest nb1 vb1 where
        it: "qpack_line alloc b block mx nb vb = Inr ((nm, vl), rest, nb1, vb1)" by (metis prod_cases4 surj_pair)
      note shorter = qpack_line_consumes [OF it]
      let ?m = "n + length nm + length vl"
      consider "u' = u" | "zqp_decode_loop alloc collect mx rest ?m nb1 vb1 (u @ [(nm, vl)]) = (rc, u')" "?m \<le> mx"
        using less.prems unfold it Cons by (auto simp: collect_def split: if_splits)
      then show ?thesis
      proof cases
        case 1
        with less.prems(2) show ?thesis by (intro exI [of _ "[]"]) simp
      next
        case 2
        from less.hyps [OF shorter 2] obtain fs where
          "u' = (u @ [(nm, vl)]) @ fs" "?m + fields_size fs \<le> mx" "length fs \<le> length rest" by blast
        with shorter show ?thesis by (intro exI [of _ "(nm, vl) # fs"]) simp
      qed
    qed
  qed
qed

subsection \<open>The decoder reads back what the encoder writes\<close>

lemma qpack_scan_spec:
  "qpack_scan es name i = Some j \<Longrightarrow> i \<le> j \<and> j - i < length es \<and> ci_eq (fst (es ! (j - i))) name"
proof (induction es name i rule: qpack_scan.induct)
  case (2 n v es name i)
  show ?case
  proof (cases "ci_eq n name")
    case False
    with 2 have "Suc i \<le> j \<and> j - Suc i < length es \<and> ci_eq (fst (es ! (j - Suc i))) name" by simp
    moreover from this have "j - i = Suc (j - Suc i)" by linarith
    ultimately show ?thesis by auto
  qed (use 2 in auto)
qed simp

lemma qpack_names_lower: "list_all (\<lambda>(n, v). map tolower n = n) QPACK_STATIC"
  by (simp add: QPACK_STATIC_def tolower_def)

lemma qpack_static_size: "QPACK_STATIC_N = 99"
  by (simp add: QPACK_STATIC_N_def QPACK_STATIC_def)

lemma qpack_name_index:
  assumes "qpack_static_name_index n = Some i" "map tolower n = n"
  shows "i < 99 \<and> fst (QPACK_STATIC ! i) = n"
proof -
  have i: "i < length QPACK_STATIC" "ci_eq (fst (QPACK_STATIC ! i)) n"
    using qpack_scan_spec [of QPACK_STATIC n 0 i] assms by (auto simp: qpack_static_name_index_def)
  then have "map tolower (fst (QPACK_STATIC ! i)) = fst (QPACK_STATIC ! i)"
    using qpack_names_lower by (simp add: list_all_length case_prod_unfold)
  with i assms(2) show ?thesis using qpack_static_size by (simp add: ci_eq_iff QPACK_STATIC_N_def)
qed

lemma int_bytes_head: "\<exists>m bs. int_bytes k fl n = (fl OR of_nat m) # bs \<and> m \<le> 2 ^ k - 1"
proof (cases "n < 2 ^ k - 1")
  case True
  then show ?thesis by (intro exI [of _ n]) (simp add: int_bytes_def)
next
  case False
  then show ?thesis by (intro exI [of _ "2 ^ k - 1"]) (simp add: int_bytes_def)
qed

lemma qpack_read_raw:
  assumes "length s \<le> mx" "length s \<le> 2 ^ 24" "1 \<le> k" "k \<le> 8" "take_bit k fl = 0"
  shows "qpack_read_string alloc (int_bytes k fl (length s) @ s @ rest) False k mx sc = Inr (s, rest, sc)"
proof -
  have "zhp_int_decode (int_bytes k fl (length s) @ s @ rest) k =
      Inr (length (int_bytes k fl (length s)), of_nat (length s))"
    using assms by (intro int_decode_bytes) auto
  moreover have "unat (of_nat (length s) :: u64) = length s" using assms(2) by (simp add: unat_of_nat)
  ultimately show ?thesis using assms(1) by (simp add: qpack_read_string_def Let_def)
qed

lemma qpack_value_raw:
  assumes "length s \<le> mx" "length s \<le> 2 ^ 24"
  shows "qpack_value alloc (raw_string_bytes s @ rest) mx sc = Inr (s, rest, sc)"
proof -
  obtain m bs where h: "int_bytes 7 0 (length s) = of_nat m # bs" "m \<le> 127"
    using int_bytes_first [of 7 "length s"] by auto
  then have "(of_nat m AND 0x80 :: byte) = 0" by (subst and_80_of_nat) auto
  with h qpack_read_raw [OF assms, of 7 0] show ?thesis
    by (simp add: qpack_value_def raw_string_bytes_def)
qed

lemma or_and_byte: "((a OR b) AND c :: byte) = (a AND c) OR (b AND c)"
  by (rule bit_word_eqI) (auto simp: bit_simps)

lemma low_bits_and:
  assumes "m < 2 ^ k" "take_bit k c = 0"
  shows "(of_nat m AND c :: byte) = 0"
proof (rule bit_word_eqI)
  fix i assume "i < LENGTH(8)"
  have "\<not> bit m i" if "k \<le> i" using assms(1) that by (metis bit_take_bit_iff take_bit_nat_eq_self not_le)
  moreover have "\<not> bit c i" if "i < k" using assms(2) that by (metis bit_take_bit_iff bit_0_eq bot_apply bot_bool_def)
  ultimately show "bit (of_nat m AND c :: byte) i = bit (0 :: byte) i"
    by (cases "k \<le> i") (auto simp: bit_simps)
qed

lemma qpack_flags:
  assumes "m \<le> 15"
  shows "((0x50 OR of_nat m) AND 0x80 :: byte) = 0" "((0x50 OR of_nat m) AND 0x40 :: byte) \<noteq> 0"
    "((0x50 OR of_nat m) AND 0x10 :: byte) \<noteq> 0"
  using low_bits_and [of m 4] assms by (simp_all add: or_and_byte take_bit_eq_mask mask_eq_exp_minus_1)

lemma qpack_name_flags:
  assumes "m \<le> 7"
  shows "((0x20 OR of_nat m) AND 0x80 :: byte) = 0" "((0x20 OR of_nat m) AND 0x40 :: byte) = 0"
    "((0x20 OR of_nat m) AND 0x20 :: byte) \<noteq> 0" "((0x20 OR of_nat m) AND 0x08 :: byte) = 0"
  using low_bits_and [of m 3] assms by (simp_all add: or_and_byte take_bit_eq_mask mask_eq_exp_minus_1)

text \<open>The bytes of one field line, by name reference or with a literal name.\<close>

definition qpack_ref_bytes :: "nat \<Rightarrow> bytes \<Rightarrow> bytes" where
  "qpack_ref_bytes i v = int_bytes 4 0x50 i @ raw_string_bytes v"

definition qpack_field_bytes :: "bytes \<Rightarrow> bytes \<Rightarrow> bytes" where
  "qpack_field_bytes n v =
     (case qpack_static_name_index n of
        Some i \<Rightarrow> qpack_ref_bytes i v
      | None \<Rightarrow> int_bytes 3 0x20 (length n) @ n @ raw_string_bytes v)"

text \<open>A block that starts with one line which decodes to one field.\<close>

definition qpack_decodes :: "bytes \<Rightarrow> bytes \<times> bytes \<Rightarrow> nat \<Rightarrow> bool" where
  "qpack_decodes s nv mx \<longleftrightarrow> (\<forall>alloc rest nb vb. \<exists>b bs. s @ rest = b # bs \<and>
     qpack_line alloc b (s @ rest) mx nb vb = Inr (nv, rest, nb, vb))"

lemma qpack_ref_decodes:
  assumes "i < 99" "length v \<le> mx" "length v \<le> 2 ^ 24"
  shows "qpack_decodes (qpack_ref_bytes i v) (fst (QPACK_STATIC ! i), v) mx"
proof -
  obtain m bs where h: "int_bytes 4 0x50 i = (0x50 OR of_nat m) # bs" "m \<le> 15"
    using int_bytes_head [of 4 "0x50" i] by auto
  have d: "zhp_int_decode (int_bytes 4 0x50 i @ rest) 4 = Inr (length (int_bytes 4 0x50 i), of_nat i)" for rest
    using assms(1) by (intro int_decode_bytes) (auto simp: take_bit_eq_mask mask_eq_exp_minus_1)
  have u: "unat (of_nat i :: u64) = i" using assms(1) by (simp add: unat_of_nat)
  have "\<exists>b bs. qpack_ref_bytes i v @ rest = b # bs \<and>
      qpack_line alloc b (qpack_ref_bytes i v @ rest) mx nb vb = Inr ((fst (QPACK_STATIC ! i), v), rest, nb, vb)"
    for alloc rest nb vb
  proof (intro exI conjI)
    show "qpack_ref_bytes i v @ rest = (0x50 OR of_nat m) # (bs @ raw_string_bytes v @ rest)"
      using h(1) by (simp add: qpack_ref_bytes_def)
    show "qpack_line alloc (0x50 OR of_nat m) (qpack_ref_bytes i v @ rest) mx nb vb =
        Inr ((fst (QPACK_STATIC ! i), v), rest, nb, vb)"
      using qpack_flags [OF h(2)] d [of "raw_string_bytes v @ rest"] u assms qpack_static_size
        qpack_value_raw [OF assms(2,3), of alloc rest vb]
      by (simp add: qpack_line_def qpack_ref_bytes_def)
  qed
  then show ?thesis by (simp add: qpack_decodes_def)
qed

lemma qpack_field_decodes:
  assumes "encodable (n, v)" "length n + length v \<le> mx"
  shows "qpack_decodes (qpack_field_bytes n v) (n, v) mx"
proof (cases "qpack_static_name_index n")
  case (Some i)
  with qpack_name_index [OF Some] qpack_ref_decodes [of i v mx] assms show ?thesis
    by (simp add: qpack_field_bytes_def encodable_def)
next
  case None
  obtain m bs where h: "int_bytes 3 0x20 (length n) = (0x20 OR of_nat m) # bs" "m \<le> 7"
    using int_bytes_head [of 3 "0x20" "length n"] by auto
  have n: "qpack_read_string alloc (int_bytes 3 0x20 (length n) @ n @ rest) False 3 mx sc = Inr (n, rest, sc)"
    for alloc rest sc
    using assms by (intro qpack_read_raw) (auto simp: take_bit_eq_mask mask_eq_exp_minus_1 encodable_def)
  have v: "qpack_value alloc (raw_string_bytes v @ rest) mx sc = Inr (v, rest, sc)" for alloc rest sc
    using assms by (intro qpack_value_raw) (auto simp: encodable_def)
  have "\<exists>b bs. qpack_field_bytes n v @ rest = b # bs \<and>
      qpack_line alloc b (qpack_field_bytes n v @ rest) mx nb vb = Inr ((n, v), rest, nb, vb)"
    for alloc rest nb vb
  proof (intro exI conjI)
    show "qpack_field_bytes n v @ rest = (0x20 OR of_nat m) # (bs @ n @ raw_string_bytes v @ rest)"
      using h(1) None by (simp add: qpack_field_bytes_def)
    show "qpack_line alloc (0x20 OR of_nat m) (qpack_field_bytes n v @ rest) mx nb vb = Inr ((n, v), rest, nb, vb)"
      using qpack_name_flags [OF h(2)] n v None by (simp add: qpack_line_def qpack_field_bytes_def)
  qed
  then show ?thesis by (simp add: qpack_decodes_def)
qed

lemma qp_decode_step:
  assumes "qpack_decodes s (nm, vl) mx" "n + length nm + length vl \<le> mx"
  shows "zqp_decode_loop alloc collect mx (s @ rest) n nb vb u =
    zqp_decode_loop alloc collect mx rest (n + length nm + length vl) nb vb (u @ [(nm, vl)])"
proof -
  from assms(1) obtain b bs where b: "s @ rest = b # bs"
    "qpack_line alloc b (s @ rest) mx nb vb = Inr ((nm, vl), rest, nb, vb)"
    unfolding qpack_decodes_def by blast
  have "\<not> mx - n < length nm" "\<not> mx - n - length nm < length vl" using assms(2) by auto
  with b show ?thesis by (subst zqp_decode_loop.simps) (simp add: collect_def)
qed

lemma qp_decode_fields:
  assumes "list_all encodable hs" "n + fields_size hs \<le> mx"
  shows "zqp_decode_loop alloc collect mx (concat (map (\<lambda>(n, v). qpack_field_bytes n v) hs)) n nb vb u = (0, u @ hs)"
  using assms
proof (induction hs arbitrary: n u)
  case Nil
  then show ?case by (simp add: zqp_decode_loop.simps)
next
  case (Cons h hs)
  obtain nm vl where h: "h = (nm, vl)" by fastforce
  from Cons.prems h have "qpack_decodes (qpack_field_bytes nm vl) (nm, vl) mx"
    by (intro qpack_field_decodes) auto
  from qp_decode_step [OF this, of n] Cons.prems Cons.IH h show ?case by simp
qed


text \<open>The status line: indexed where the static table has the whole pair, else by name reference.\<close>

definition qpack_status_bytes :: "int \<Rightarrow> bytes" where
  "qpack_status_bytes status =
     (case qpack_status_index status of
        Some i \<Rightarrow> int_bytes 6 0xC0 i
      | None \<Rightarrow> qpack_ref_bytes QPACK_STATUS_NAME_IDX (fmt_int status))"

lemma qpack_status_entry:
  "list_all (\<lambda>(s, i). QPACK_STATIC ! i = (asc '':status'', fmt_int s))
     [(100, 63), (103, 24), (200, 25), (204, 64), (206, 65), (302, 66), (304, 26), (400, 67),
      (403, 68), (404, 27), (421, 69), (425, 70), (500, 71), (503, 28)]"
  by (simp add: QPACK_STATIC_def fmt_int_def dec_digits.simps)

lemma qpack_status_index_spec:
  assumes "qpack_status_index status = Some i"
  shows "QPACK_STATIC ! i = (asc '':status'', fmt_int status)" "i < 99"
proof -
  have mem: "(status, i) \<in> set [(100, 63), (103, 24), (200, 25), (204, 64), (206, 65), (302, 66), (304, 26),
      (400, 67), (403, 68), (404, 27), (421, 69), (425, 70), (500, 71), (503, 28)]"
    using assms unfolding qpack_status_index_def by (rule map_of_SomeD)
  with qpack_status_entry show "QPACK_STATIC ! i = (asc '':status'', fmt_int status)"
    unfolding list_all_iff by blast
  from mem show "i < 99" by auto
qed

lemma qpack_status_decodes:
  assumes "length (fmt_int status) < 16" "7 + length (fmt_int status) \<le> mx"
  shows "qpack_decodes (qpack_status_bytes status) (asc '':status'', fmt_int status) mx"
proof (cases "qpack_status_index status")
  case None
  have "fst (QPACK_STATIC ! 24) = asc '':status''" by (simp add: QPACK_STATIC_def)
  with qpack_ref_decodes [of 24 "fmt_int status" mx] assms None show ?thesis
    by (simp add: qpack_status_bytes_def QPACK_STATUS_NAME_IDX_def)
next
  case (Some i)
  note si = qpack_status_index_spec [OF Some]
  obtain m bs where h: "int_bytes 6 0xC0 i = (0xC0 OR of_nat m) # bs" "m \<le> 63"
    using int_bytes_head [of 6 "0xC0" i] by auto
  have fl: "((0xC0 OR of_nat m) AND 0x80 :: byte) \<noteq> 0" "((0xC0 OR of_nat m) AND 0x40 :: byte) \<noteq> 0"
    using low_bits_and [of m 6] h(2) by (simp_all add: or_and_byte take_bit_eq_mask mask_eq_exp_minus_1)
  have d: "zhp_int_decode (int_bytes 6 0xC0 i @ rest) 6 = Inr (length (int_bytes 6 0xC0 i), of_nat i)" for rest
    using si(2) by (intro int_decode_bytes) (auto simp: take_bit_eq_mask mask_eq_exp_minus_1)
  have "unat (of_nat i :: u64) = i" using si(2) by (simp add: unat_of_nat)
  with fl d si h(1) Some qpack_static_size show ?thesis
    by (simp add: qpack_decodes_def qpack_line_def qpack_status_bytes_def)
qed

text \<open>A response's field section: the prefix, the status, then the fields.\<close>

fun qpack_encode_fields :: "allocator \<Rightarrow> (bytes \<times> bytes) list \<Rightarrow> zhs_buf \<Rightarrow> zcio_result \<times> zhs_buf" where
  "qpack_encode_fields alloc [] out = (ZCIO_OK, out)"
| "qpack_encode_fields alloc ((n, v) # hs) out =
     and_then (zqp_encode alloc out (Some n) (Some v)) (qpack_encode_fields alloc hs)"

definition qpack_encode_section ::
  "allocator \<Rightarrow> int \<Rightarrow> (bytes \<times> bytes) list \<Rightarrow> zhs_buf \<Rightarrow> zcio_result \<times> zhs_buf" where
  "qpack_encode_section alloc status hs out =
     and_then (and_then (zqp_prefix_encode alloc out) (\<lambda>out1. zqp_encode_status alloc out1 status))
       (qpack_encode_fields alloc hs)"

lemma qpack_raw_writes:
  "length s < 2 ^ 64 \<Longrightarrow> writes (\<lambda>out. qpack_raw_string alloc out s) (raw_string_bytes s)"
  using raw_string_writes [of s alloc] by (simp add: qpack_raw_string_def hpack_raw_string_def)

lemma int_encode_writes_nat:
  assumes "1 \<le> k" "k \<le> 8" "n < 2 ^ 64"
  shows "writes (\<lambda>out. zhp_int_encode alloc out k fl (of_nat n)) (int_bytes k fl n)"
  using int_encode_writes [OF assms(1,2), of alloc fl "of_nat n"] assms(3) by (simp add: unat_of_nat)

lemma qpack_ref_writes:
  assumes "i < 99" "length v < 2 ^ 64"
  shows "writes (\<lambda>out. and_then (zhp_int_encode alloc out 4 0x50 (of_nat i)) (\<lambda>out1. qpack_raw_string alloc out1 v))
    (qpack_ref_bytes i v)"
  unfolding qpack_ref_bytes_def
  by (intro writes_then int_encode_writes_nat qpack_raw_writes) (use assms in auto)

lemma qpack_field_writes:
  assumes "encodable (n, v)"
  shows "writes (\<lambda>out. zqp_encode alloc out (Some n) (Some v)) (qpack_field_bytes n v)"
proof (cases "qpack_static_name_index n")
  case (Some i)
  with qpack_name_index [OF Some] qpack_ref_writes [of i v alloc] assms show ?thesis
    by (simp add: zqp_encode_def qpack_field_bytes_def encodable_def)
next
  case None
  have "writes (\<lambda>out. and_then (and_then (zhp_int_encode alloc out 3 0x20 (of_nat (length n)))
      (\<lambda>out1. zhs_buf_append alloc out1 n)) (\<lambda>out1. qpack_raw_string alloc out1 v))
    ((int_bytes 3 0x20 (length n) @ n) @ raw_string_bytes v)"
    by (intro writes_then int_encode_writes_nat qpack_raw_writes writes_append)
      (use assms in \<open>auto simp: encodable_def\<close>)
  with None show ?thesis by (simp add: zqp_encode_def qpack_field_bytes_def)
qed

lemma qpack_fields_write:
  "list_all encodable hs \<Longrightarrow>
   writes (qpack_encode_fields alloc hs) (concat (map (\<lambda>(n, v). qpack_field_bytes n v) hs))"
proof (induction hs)
  case (Cons h hs)
  obtain n v where h: "h = (n, v)" by fastforce
  from writes_then [OF qpack_field_writes Cons.IH, of n v alloc] Cons.prems h show ?case by simp
qed (simp add: writes_def)

lemma qpack_status_writes:
  assumes "length (fmt_int status) < 16"
  shows "writes (\<lambda>out. zqp_encode_status alloc out status) (qpack_status_bytes status)"
proof (cases "qpack_status_index status")
  case None
  with qpack_ref_writes [of 24 "fmt_int status" alloc] assms show ?thesis
    by (simp add: zqp_encode_status_def qpack_status_bytes_def QPACK_STATUS_NAME_IDX_def Let_def)
next
  case (Some i)
  with qpack_status_index_spec(2) [OF Some] int_encode_writes_nat [of 6 i alloc "0xC0"] show ?thesis
    by (simp add: zqp_encode_status_def qpack_status_bytes_def)
qed

lemma qpack_prefix_writes: "writes (zqp_prefix_encode alloc) [0, 0]"
  using writes_then [OF writes_append_u8 writes_append_u8, of alloc 0 alloc 0]
  by (simp add: zqp_prefix_encode_def [abs_def])

lemma qpack_prefix_decodes:
  "zqp_decode alloc ([0, 0] @ s) mx emit u = zqp_decode_loop alloc emit mx s 0 zhs_buf_zero zhs_buf_zero u"
  by (simp add: zqp_decode_def zhp_int_decode_def push_bit_eq_mult)

subsection \<open>The properties of the QPACK codec\<close>

text \<open>
  Decoding any QPACK field section is bounded: the lines emitted hold at most the caller's
  limit of name and value bytes and there are no more of them than block bytes; a nonzero required
  insert count is refused before any line is emitted.
\<close>

lemma qpack_decode_bounded:
  assumes "zqp_decode alloc block mx collect [] = (rc, fs)"
  shows "fields_size fs \<le> mx \<and> length fs \<le> length block \<and>
    (\<forall>c ric. zhp_int_decode block 8 = Inr (c, ric) \<and> ric \<noteq> 0 \<longrightarrow> rc = zcode ZCIO_ERR_PROTOCOL \<and> fs = [])"
proof -
  consider "fs = []" | c d where "zqp_decode_loop alloc collect mx (drop d (drop c block)) 0 zhs_buf_zero zhs_buf_zero [] = (rc, fs)"
    using assms by (auto simp: zqp_decode_def split: sum.splits prod.splits if_splits)
  then have "fields_size fs \<le> mx \<and> length fs \<le> length block"
  proof cases
    case 2
    from qp_decode_loop_bounded [OF this] show ?thesis by auto
  qed simp
  then show ?thesis using assms by (auto simp: zqp_decode_def)
qed

text \<open>
  C37. A response's field section round-trips: the decoder turns the prefix, the status line and the
  fields with lower-case names that the encoder wrote back into \<open>:status\<close> with the status in
  decimal, followed by the same fields in the same order; the encoder fails only for want of memory.
\<close>
theorem qpack_roundtrip:
  assumes "list_all encodable hs" "length (fmt_int status) < 16"
    and "7 + length (fmt_int status) + fields_size hs \<le> mx"
    and "qpack_encode_section alloc status hs zhs_buf_zero = (r, out)"
  shows "(r = ZCIO_OK \<or> r = ZCIO_ERR_NOMEM) \<and>
    (r = ZCIO_OK \<longrightarrow> zqp_decode alloc' (ZHS_PTR out) mx collect [] = (0, (asc '':status'', fmt_int status) # hs))"
proof -
  let ?hs = "concat (map (\<lambda>(n, v). qpack_field_bytes n v) hs)"
  have z: "zb_wf zhs_buf_zero" "ZHS_PTR zhs_buf_zero = []" by (simp_all add: zb_wf_def zhs_buf_zero_def ZHS_PTR_def)
  have w: "writes (qpack_encode_section alloc status hs) (([0, 0] @ qpack_status_bytes status) @ ?hs)"
    unfolding qpack_encode_section_def
    by (intro writes_then qpack_prefix_writes qpack_status_writes qpack_fields_write assms)
  note st = qpack_status_decodes [OF assms(2), of mx]
  have "zqp_decode_loop alloc' collect mx (qpack_status_bytes status @ ?hs) 0 zhs_buf_zero zhs_buf_zero [] =
      zqp_decode_loop alloc' collect mx ?hs (7 + length (fmt_int status)) zhs_buf_zero zhs_buf_zero
        [(asc '':status'', fmt_int status)]"
    using qp_decode_step [OF st, of 0 alloc' ?hs zhs_buf_zero zhs_buf_zero "[]"] assms(3) by (simp add: eval_nat_numeral)
  also have "\<dots> = (0, (asc '':status'', fmt_int status) # hs)"
    using qp_decode_fields [OF assms(1,3)] by simp
  finally show ?thesis
    using writesD [OF w z(1) assms(4)] z(2) qpack_prefix_decodes [of alloc' "qpack_status_bytes status @ ?hs" mx collect "[]"] by auto
qed

theorem qpack_roundtrip_witness:
  "let hs = [(asc ''server'', asc ''zcio''), (asc ''x-id'', asc ''7'')] in
   case qpack_encode_section (\<lambda>_. True) 418 hs zhs_buf_zero of (r, out) \<Rightarrow>
     r = ZCIO_OK \<longrightarrow> zqp_decode (\<lambda>_. True) (ZHS_PTR out) 64 collect [] = (0, (asc '':status'', asc ''418'') # hs)"
proof -
  let ?hs = "[(asc ''server'', asc ''zcio''), (asc ''x-id'', asc ''7'')]"
  have f: "fmt_int 418 = asc ''418''" by (simp add: fmt_int_def dec_digits.simps)
  have "list_all encodable ?hs" "7 + length (fmt_int 418) + fields_size ?hs \<le> 64"
    by (simp_all add: encodable_def tolower_def f)
  with qpack_roundtrip [of ?hs 418 64 "\<lambda>_. True"] f show ?thesis
    by (cases "qpack_encode_section (\<lambda>_. True) 418 ?hs zhs_buf_zero") (simp add: Let_def)
qed

end
