(* ===== verification/Zc_Respond.thy ===== *)
theory Zc_Respond
  imports Zc_Hpack
begin

unbundle bit_operations_syntax

text \<open>
  The request object (\<open>src/src/http_internal.h\<close>), its accessors and the respond policy of
  \<open>src/src/http_server.c\<close>: the filter for hop-by-hop headers, \<open>zcio_http_respond\<close> and
  \<open>zhs_dispatch_\<close>, which runs the user's handler and guarantees one response. The wire format is
  the hook \<open>respond_fn\<close> of the protocol module that owns the request; it works on that module's
  connection, the type \<open>'c\<close>.
\<close>

section \<open>Requests and responses\<close>

subsection \<open>The request object\<close>

record zcio_http_req =
  rq_version :: int
  rq_secure :: bool
  rq_is_head :: bool
  rq_ws_upgrade :: bool
  rq_method :: "bytes option"
  rq_path :: "bytes option"
  rq_query :: "bytes option"
  rq_authority :: "bytes option"
  rq_headers :: zhs_hdrs
  rq_body :: zhs_buf
  rq_stream_id :: int
  rq_responded :: bool

definition zhs_req_zero :: zcio_http_req where
  "zhs_req_zero = \<lparr>rq_version = 0, rq_secure = False, rq_is_head = False, rq_ws_upgrade = False,
     rq_method = None, rq_path = None, rq_query = None, rq_authority = None,
     rq_headers = zhs_hdrs_zero, rq_body = zhs_buf_zero, rq_stream_id = 0, rq_responded = False\<rparr>"

definition zhs_req_reset :: "zcio_http_req \<Rightarrow> zcio_http_req" where
  "zhs_req_reset r = zhs_req_zero"

definition zcio_http_req_method :: "zcio_http_req option \<Rightarrow> bytes" where
  "zcio_http_req_method r = (case r of None \<Rightarrow> [] | Some q \<Rightarrow> (case rq_method q of None \<Rightarrow> [] | Some s \<Rightarrow> s))"

definition zcio_http_req_path :: "zcio_http_req option \<Rightarrow> bytes" where
  "zcio_http_req_path r = (case r of None \<Rightarrow> [] | Some q \<Rightarrow> (case rq_path q of None \<Rightarrow> [] | Some s \<Rightarrow> s))"

definition zcio_http_req_query :: "zcio_http_req option \<Rightarrow> bytes" where
  "zcio_http_req_query r = (case r of None \<Rightarrow> [] | Some q \<Rightarrow> (case rq_query q of None \<Rightarrow> [] | Some s \<Rightarrow> s))"

definition zcio_http_req_version :: "zcio_http_req option \<Rightarrow> int" where
  "zcio_http_req_version r = (case r of None \<Rightarrow> 0 | Some q \<Rightarrow> rq_version q)"

definition zcio_http_req_secure :: "zcio_http_req option \<Rightarrow> bool" where
  "zcio_http_req_secure r = (case r of None \<Rightarrow> False | Some q \<Rightarrow> rq_secure q)"

definition zcio_http_req_header :: "zcio_http_req option \<Rightarrow> bytes \<Rightarrow> bytes option" where
  "zcio_http_req_header r name = (case r of None \<Rightarrow> None | Some q \<Rightarrow> zhs_hdrs_get (rq_headers q) name)"

definition zcio_http_req_header_count :: "zcio_http_req option \<Rightarrow> nat" where
  "zcio_http_req_header_count r = (case r of None \<Rightarrow> 0 | Some q \<Rightarrow> length (hs_v (rq_headers q)))"

definition zcio_http_req_header_at :: "zcio_http_req option \<Rightarrow> nat \<Rightarrow> zcio_result + (bytes \<times> bytes)" where
  "zcio_http_req_header_at r i =
     (case r of
        None \<Rightarrow> Inl ZCIO_ERR_INVALID_ARG
      | Some q \<Rightarrow> if i \<ge> length (hs_v (rq_headers q)) then Inl ZCIO_ERR_INVALID_ARG
                  else Inr (hs_v (rq_headers q) ! i))"

text \<open>The body and its length; an unallocated body reads as the empty string.\<close>

definition zcio_http_req_body :: "zcio_http_req option \<Rightarrow> bytes \<times> nat" where
  "zcio_http_req_body r =
     (case r of
        None \<Rightarrow> ([], 0)
      | Some q \<Rightarrow> if zb_cap (rq_body q) = 0 then ([], 0) else (ZHS_PTR (rq_body q), ZHS_AVAIL (rq_body q)))"

subsection \<open>The respond policy\<close>

text \<open>What the policy reads of the server object.\<close>

record zhs_policy =
  sv_hsts :: bool
  sv_versions :: u32
  sv_bound_port :: int
  sv_host :: "bytes option"

definition ZCIO_HTTP3 :: u32 where
  "ZCIO_HTTP3 = push_bit 2 1"

text \<open>The comparison of \<open>http_server.c\<close>, which stops at the end of either string.\<close>

fun srv_ci_eq :: "bytes \<Rightarrow> bytes \<Rightarrow> bool" where
  "srv_ci_eq (a # as) (b # bs) = (if tolower a \<noteq> tolower b then False else srv_ci_eq as bs)"
| "srv_ci_eq as bs = (as = [] \<and> bs = [])"

definition respond_drop :: "bytes list" where
  "respond_drop =
     [asc ''connection'', asc ''keep-alive'', asc ''proxy-connection'', asc ''transfer-encoding'',
      asc ''upgrade'', asc ''te'', asc ''trailer'', asc ''content-length'', asc ''date'', asc ''server'']"

definition respond_filtered :: "bytes \<Rightarrow> bool" where
  "respond_filtered name = list_ex (srv_ci_eq name) respond_drop"

text \<open>A caller's header: key and value pointers, either of which may be NULL.\<close>

type_synonym http_header = "bytes option \<times> bytes option"

definition hdr_value :: "http_header \<Rightarrow> bytes" where
  "hdr_value h = (case snd h of None \<Rightarrow> [] | Some v \<Rightarrow> v)"

definition hdr_ok :: "http_header \<Rightarrow> bool" where
  "hdr_ok h \<longleftrightarrow> zhs_token_ok (fst h) \<and> zhs_value_ok (Some (hdr_value h))"

definition respond_headers ::
  "zhs_policy option \<Rightarrow> tm \<Rightarrow> bool \<Rightarrow> http_header list \<Rightarrow> (bytes \<times> bytes) list" where
  "respond_headers srv clock secure headers =
     map (\<lambda>h. (the (fst h), hdr_value h)) (filter (\<lambda>h. \<not> respond_filtered (the (fst h))) headers) @
     [(asc ''date'', zhs_http_date clock), (asc ''server'', asc ''zcio'')] @
     (case srv of
        None \<Rightarrow> []
      | Some s \<Rightarrow>
          (if sv_hsts s \<and> secure then [(asc ''strict-transport-security'', asc ''max-age=31536000'')] else []) @
          (if sv_versions s AND ZCIO_HTTP3 \<noteq> 0 \<and> secure
           then [(asc ''alt-svc'', take 47 (asc ''h3='' @ [0x22] @ asc '':'' @ fmt_int (sv_bound_port s) @ [0x22]))]
           else []))"

text \<open>The owner's wire hook: connection, request, status, headers, body and its length.\<close>

type_synonym 'c respond_hook =
  "'c \<Rightarrow> zcio_http_req \<Rightarrow> int \<Rightarrow> (bytes \<times> bytes) list \<Rightarrow> bytes option \<Rightarrow> nat \<Rightarrow> int \<times> 'c"

definition zcio_http_respond ::
  "allocator \<Rightarrow> zhs_policy option \<Rightarrow> tm \<Rightarrow> 'c respond_hook option \<Rightarrow> 'c \<Rightarrow> zcio_http_req \<Rightarrow> int
     \<Rightarrow> http_header list \<Rightarrow> bytes option \<Rightarrow> nat \<Rightarrow> int \<times> 'c \<times> zcio_http_req" where
  "zcio_http_respond alloc srv clock hook c r status headers body body_len =
     (case hook of
        None \<Rightarrow> (zcode ZCIO_ERR_INVALID_ARG, c, r)
      | Some respond_fn \<Rightarrow>
          if rq_responded r then (zcode ZCIO_ERR_INVALID_ARG, c, r)
          else if status < 100 \<or> status > 599 then (zcode ZCIO_ERR_INVALID_ARG, c, r)
          else if \<not> list_all hdr_ok headers then (zcode ZCIO_ERR_INVALID_ARG, c, r)
          else if length headers > SIZE_MAX div 16 - 4 then (zcode ZCIO_ERR_NOMEM, c, r)
          else if \<not> alloc ((length headers + 4) * 16) then (zcode ZCIO_ERR_NOMEM, c, r)
          else
            (let fin = respond_headers srv clock (rq_secure r) headers;
                 r1 = r\<lparr>rq_responded := True\<rparr>
             in case respond_fn c r1 status fin body body_len of (rc, c1) \<Rightarrow> (rc, c1, r1)))"

definition zhs_redirect_host :: "zhs_policy option \<Rightarrow> bytes option" where
  "zhs_redirect_host srv = (case srv of None \<Rightarrow> None | Some s \<Rightarrow> sv_host s)"

subsection \<open>Dispatch\<close>

text \<open>
  The user's handler is code outside the library; what the library sees of it is the sequence of
  calls it makes on the request. \<open>HAccept ok\<close> is a call of \<open>zcio_ws_accept\<close>, of which \<open>ok\<close> says
  whether the transport took the 101 and the queued output.
\<close>

datatype handler_call = HRespond int "http_header list" "bytes option" nat | HAccept bool

text \<open>
  One call, over the connection, the request and the server's \<open>upgrade_detached\<close> flag. \<open>detach\<close> is
  what a successful accept does to the connection.
\<close>

definition handler_step ::
  "allocator \<Rightarrow> zhs_policy option \<Rightarrow> tm \<Rightarrow> 'c respond_hook \<Rightarrow> ('c \<Rightarrow> 'c) \<Rightarrow> handler_call
     \<Rightarrow> 'c \<times> zcio_http_req \<times> bool \<Rightarrow> 'c \<times> zcio_http_req \<times> bool" where
  "handler_step alloc srv clock hook detach call s =
     (case s of (c, r, detached) \<Rightarrow>
        (case call of
           HRespond status headers body body_len \<Rightarrow>
             (case zcio_http_respond alloc srv clock (Some hook) c r status headers body body_len of
                (rc, c1, r1) \<Rightarrow> (c1, r1, detached))
         | HAccept ok \<Rightarrow>
             if rq_ws_upgrade r \<and> rq_version r = 1 \<and> \<not> detached \<and> ok then (detach c, r, True) else (c, r, detached)))"

definition zhs_dispatch ::
  "allocator \<Rightarrow> zhs_policy option \<Rightarrow> tm \<Rightarrow> 'c respond_hook \<Rightarrow> ('c \<Rightarrow> 'c) \<Rightarrow> handler_call list
     \<Rightarrow> 'c \<Rightarrow> zcio_http_req \<Rightarrow> bool \<times> 'c \<times> zcio_http_req" where
  "zhs_dispatch alloc srv clock hook detach calls c req =
     (case fold (handler_step alloc srv clock hook detach) calls (c, req, False) of
        (c1, r1, detached) \<Rightarrow>
          if detached then (True, c1, r1)
          else if \<not> rq_responded r1 then
            (case zcio_http_respond alloc srv clock (Some hook) c1 r1 500 [] (Some (asc ''Internal Server Error'')) 21 of
               (rc, c2, r2) \<Rightarrow> (False, c2, r2))
          else (False, c1, r1))"

subsection \<open>What the policy guarantees\<close>

lemma srv_ci_eq_iff: "srv_ci_eq a b \<longleftrightarrow> map tolower a = map tolower b"
  by (induction a b rule: srv_ci_eq.induct) auto

lemma respond_filtered_iff: "respond_filtered n \<longleftrightarrow> map tolower n \<in> set respond_drop"
  by (auto simp: respond_filtered_def respond_drop_def srv_ci_eq_iff tolower_def)

lemma respond_drop_lower: "list_all (\<lambda>n. map tolower n = n) respond_drop"
  by (simp add: respond_drop_def tolower_def)

text \<open>A wire hook that records its calls.\<close>

type_synonym response = "int \<times> (bytes \<times> bytes) list \<times> bytes option \<times> nat"

definition log_hook :: "response list respond_hook" where
  "log_hook c r status hs body n = (0, c @ [(status, hs, body, n)])"

definition response_ok :: "response \<Rightarrow> bool" where
  "response_ok p \<longleftrightarrow> (case p of (status, hs, body, n) \<Rightarrow> 100 \<le> status \<and> status \<le> 599 \<and>
     (\<forall>(k, v) \<in> set hs. (0x0D :: byte) \<notin> set k \<and> 0x0A \<notin> set k \<and> 0x0D \<notin> set v \<and> 0x0A \<notin> set v) \<and>
     map fst (filter (\<lambda>(k, v). map tolower k \<in> set respond_drop) hs) = [asc ''date'', asc ''server''])"


lemma dec_digits_digit: "list_all (\<lambda>b. 0x30 \<le> b \<and> b \<le> 0x39) (dec_digits n)"
proof (induction n rule: dec_digits.induct)
  case (1 n)
  have digit: "0x30 \<le> (0x30 + of_nat d :: byte) \<and> (0x30 + of_nat d :: byte) \<le> 0x39" if "d < 10" for d
  proof -
    have "unat (0x30 + of_nat d :: byte) = 0x30 + d"
      using that by (simp add: unat_word_ariths unat_of_nat)
    then show ?thesis using that by (simp add: word_le_nat_alt)
  qed
  from 1 digit [of n] digit [of "n mod 10"] show ?case
    by (subst dec_digits.simps) (simp add: list_all_append)
qed

text \<open>Neither carriage return nor line feed.\<close>

definition no_crlf :: "bytes \<Rightarrow> bool" where
  "no_crlf s \<longleftrightarrow> list_all (\<lambda>b. b \<noteq> 0x0D \<and> b \<noteq> 0x0A) s"

lemma no_crlf_simps [simp]:
  "no_crlf []" "no_crlf (b # s) \<longleftrightarrow> b \<noteq> 0x0D \<and> b \<noteq> 0x0A \<and> no_crlf s"
  "no_crlf (s @ t) \<longleftrightarrow> no_crlf s \<and> no_crlf t"
  by (auto simp: no_crlf_def)

lemma no_crlf_set: "no_crlf s \<longleftrightarrow> 0x0D \<notin> set s \<and> 0x0A \<notin> set s"
  by (auto simp: no_crlf_def list_all_iff)

lemma no_crlf_take: "no_crlf s \<Longrightarrow> no_crlf (take n s)"
  by (auto simp: no_crlf_set dest: in_set_takeD)

lemma no_crlf_digits [simp]: "no_crlf (dec_digits n)"
proof -
  have "0x30 \<le> b \<Longrightarrow> b \<noteq> 0x0D \<and> b \<noteq> (0x0A :: byte)" for b by auto
  with dec_digits_digit [of n] show ?thesis by (auto simp: no_crlf_def list_all_iff)
qed

lemma no_crlf_pad [simp]: "no_crlf (pad_dec w n)"
proof -
  have "no_crlf (replicate k 0x30)" for k by (induction k) auto
  then show ?thesis by (simp add: pad_dec_def)
qed

lemma no_crlf_fmt [simp]: "no_crlf (fmt_int n)"
  by (simp add: fmt_int_def)

definition tm_ok :: "tm \<Rightarrow> bool" where
  "tm_ok t \<longleftrightarrow> tm_wday t < 7 \<and> tm_mon t < 12"

lemma no_crlf_names: "list_all (\<lambda>s. no_crlf (asc s)) (DAYS @ MONS)"
  by (simp add: DAYS_def MONS_def)

lemma no_crlf_date:
  assumes "tm_ok t"
  shows "no_crlf (zhs_http_date t)"
proof -
  have "no_crlf (asc (DAYS ! tm_wday t))" "no_crlf (asc (MONS ! tm_mon t))"
    using assms no_crlf_names nth_mem [of "tm_wday t" DAYS] nth_mem [of "tm_mon t" MONS]
    by (auto simp: tm_ok_def list_all_iff DAYS_def MONS_def)
  then show ?thesis unfolding zhs_http_date_def by (intro no_crlf_take) simp
qed

lemma no_crlf_token: "zhs_token_ok (Some k) \<Longrightarrow> no_crlf k"
proof -
  have "\<not> is_tchar 0x0D" "\<not> is_tchar 0x0A" by (simp_all add: is_tchar_def)
  then show "zhs_token_ok (Some k) \<Longrightarrow> no_crlf k"
    by (auto simp: zhs_token_ok_def no_crlf_set list_all_iff split: if_splits)
qed

lemma no_crlf_value: "zhs_value_ok (Some v) \<Longrightarrow> no_crlf v"
  by (auto simp: zhs_value_ok_def no_crlf_set list_all_iff)

lemma respond_headers_ok:
  assumes "list_all hdr_ok hs" "tm_ok clock" "100 \<le> status" "status \<le> 599"
  shows "response_ok (status, respond_headers srv clock secure hs, body, n)"
proof -
  let ?own = "map (\<lambda>h. (the (fst h), hdr_value h)) (filter (\<lambda>h. \<not> respond_filtered (the (fst h))) hs)"
  let ?drop = "filter (\<lambda>(k, v). map tolower k \<in> set respond_drop)"
  have own: "no_crlf k \<and> no_crlf v \<and> map tolower k \<notin> set respond_drop" if kv: "(k, v) \<in> set ?own" for k v
  proof -
    from kv obtain h where h: "h \<in> set hs" "k = the (fst h)" "v = hdr_value h" "\<not> respond_filtered k" by auto
    then have "hdr_ok h" using assms(1) by (simp add: list_all_iff)
    then show ?thesis
      using h no_crlf_token no_crlf_value
      by (cases "fst h") (auto simp: hdr_ok_def zhs_token_ok_def respond_filtered_iff)
  qed
  then have none: "?drop ?own = []" unfolding filter_empty_conv by blast
  have "\<forall>(k, v) \<in> set (respond_headers srv clock secure hs). no_crlf k \<and> no_crlf v"
    using own no_crlf_date [OF assms(2)]
    by (auto simp: respond_headers_def split: option.splits intro!: no_crlf_take)
  moreover have "map fst (?drop (respond_headers srv clock secure hs)) = [asc ''date'', asc ''server'']"
    unfolding respond_headers_def filter_append map_append none
    by (auto simp: respond_drop_def tolower_def split: option.splits)
  ultimately show ?thesis using assms(3,4) by (simp add: response_ok_def no_crlf_set)
qed

text \<open>What holds between the calls of a handler, on the log of responses.\<close>

definition log_inv :: "response list \<times> zcio_http_req \<times> bool \<Rightarrow> bool" where
  "log_inv s \<longleftrightarrow> (case s of (c, r, d) \<Rightarrow>
     length c = of_bool (rq_responded r) \<and> list_all response_ok c)"

lemma respond_logs:
  assumes "zcio_http_respond alloc srv clock (Some log_hook) c r status hs body n = (rc, c', r')"
    and "log_inv (c, r, d)" "tm_ok clock"
  shows "log_inv (c', r', d') \<and> (rq_responded r \<longrightarrow> r' = r \<and> c' = c)"
  using assms respond_headers_ok
  by (auto simp: zcio_http_respond_def log_hook_def log_inv_def Let_def split: if_splits)

lemma handler_steps_log:
  "log_inv s \<Longrightarrow> tm_ok clock \<Longrightarrow> log_inv (fold (handler_step alloc srv clock log_hook (\<lambda>c. c)) calls s)"
proof (induction calls arbitrary: s)
  case (Cons call calls)
  obtain c r d where s: "s = (c, r, d)" using prod_cases3 by blast
  have "log_inv (handler_step alloc srv clock log_hook (\<lambda>c. c) call s)"
  proof (cases call)
    case (HRespond status hs body n)
    obtain rc c1 r1 where p: "zcio_http_respond alloc srv clock (Some log_hook) c r status hs body n = (rc, c1, r1)"
      using prod_cases3 by blast
    with HRespond s respond_logs [OF p, of d d] Cons.prems show ?thesis by (simp add: handler_step_def)
  qed (use Cons.prems s in \<open>simp add: handler_step_def log_inv_def\<close>)
  with Cons show ?case by simp
qed simp



end
