(* ===== verification/Zc_H1.thy ===== *)
theory Zc_H1
  imports Zc_Respond
begin

unbundle bit_operations_syntax

text \<open>
  The HTTP/1.1 engine of \<open>src/src/h1.c\<close>: a state machine over the bytes received. It parses request
  lines, header blocks and bodies (by length or chunked), dispatches each complete request and
  writes responses to the connection's output buffer.
\<close>

section \<open>The HTTP/1.1 engine\<close>

subsection \<open>Connection state\<close>

datatype h1_state =
    H1_REQLINE | H1_HEADERS | H1_BODY_CL | H1_CHUNK_SIZE | H1_CHUNK_DATA | H1_CHUNK_CRLF | H1_TRAILER | H1_DEAD

text \<open>Stage results; the hard errors are the negative result codes.\<close>

datatype h1_stage = P_MORE | P_NEXT | P_CLOSE | P_COMPLETE | P_HARD zcio_result

datatype h1_fin = FIN_OK | FIN_DETACHED | FIN_HARD

definition H1_CHUNK_LINE_MAX :: nat where
  "H1_CHUNK_LINE_MAX = 4096"

definition ZH1_F_SECURE :: u32 where "ZH1_F_SECURE = push_bit 0 1"
definition ZH1_F_REDIRECT :: u32 where "ZH1_F_REDIRECT = push_bit 1 1"

record zh1_conn =
  h1_lim :: zhs_limits
  h1_flags :: u32
  h1_out :: zhs_buf
  h1_st :: h1_state
  h1_req :: zcio_http_req
  h1_head_bytes :: nat
  h1_receiving :: bool
  h1_is_http10 :: bool
  h1_keep_alive :: bool
  h1_graceful :: bool
  h1_close_after :: bool
  h1_req_count :: nat
  h1_chunked :: bool
  h1_cl_remaining :: u64
  h1_chunk_remaining :: u64

text \<open>
  The surroundings of a connection: the allocator, what a fresh block holds, the clock, the
  server's settings, and for the \<open>n\<close>-th request of the connection the calls the user's handler
  makes on it.
\<close>

record h1_env =
  he_alloc :: allocator
  he_junk :: "nat \<Rightarrow> bytes"
  he_clock :: tm
  he_srv :: "zhs_policy option"
  he_handler :: "nat \<Rightarrow> zcio_http_req \<Rightarrow> handler_call list"

subsection \<open>Local helpers\<close>

definition h1_is_digit :: "byte \<Rightarrow> bool" where
  "h1_is_digit c \<longleftrightarrow> 0x30 \<le> c \<and> c \<le> 0x39"

definition h1_hex :: "byte \<Rightarrow> int" where
  "h1_hex c =
     (if 0x30 \<le> c \<and> c \<le> 0x39 then uint c - 0x30
      else if 0x61 \<le> c \<and> c \<le> 0x66 then uint c - 0x61 + 10
      else if 0x41 \<le> c \<and> c \<le> 0x46 then uint c - 0x41 + 10
      else -1)"

fun h1_ci_eq_n :: "bytes \<Rightarrow> bytes \<Rightarrow> nat \<Rightarrow> bool" where
  "h1_ci_eq_n a b 0 = True"
| "h1_ci_eq_n (x # a) (y # b) (Suc n) = (if tolower x \<noteq> tolower y then False else h1_ci_eq_n a b n)"
| "h1_ci_eq_n _ _ _ = False"

definition h1_ci_eq :: "bytes \<Rightarrow> bytes \<Rightarrow> bool" where
  "h1_ci_eq a b \<longleftrightarrow> length a = length b \<and> h1_ci_eq_n a b (length a)"

definition is_ows :: "byte \<Rightarrow> bool" where
  "is_ows c \<longleftrightarrow> c = 0x20 \<or> c = 0x09"

definition rtrim_ows :: "bytes \<Rightarrow> bytes" where
  "rtrim_ows s = rev (dropWhile is_ows (rev s))"

lemma dropWhile_shorter: "P (hd xs) \<Longrightarrow> xs \<noteq> [] \<Longrightarrow> length (dropWhile P xs) < length xs"
  by (cases xs) (auto intro: le_imp_less_Suc [OF length_dropWhile_le])

function h1_token_in_list :: "bytes \<Rightarrow> bytes \<Rightarrow> bool" where
  "h1_token_in_list [] tok = False"
| "h1_token_in_list (c # cs) tok =
     (let start = dropWhile (\<lambda>c. is_ows c \<or> c = 0x2C) (c # cs);
          e = rtrim_ows (takeWhile (\<lambda>c. c \<noteq> 0x2C) start);
          rest = dropWhile (\<lambda>c. c \<noteq> 0x2C) start
      in if length e = length tok \<and> h1_ci_eq_n e tok (length tok) then True
         else h1_token_in_list rest tok)"
  by pat_completeness auto

termination
proof (relation "measure (\<lambda>(l, tok). length l)")
  fix c cs tok start e rest
  assume a: "start = dropWhile (\<lambda>c. is_ows c \<or> c = 0x2C) (c # cs)"
    "rest = dropWhile (\<lambda>c. c \<noteq> 0x2C) start"
  have "length rest < length (c # cs)"
  proof (cases "c = 0x2C \<or> is_ows c")
    case True
    then have "length start < length (c # cs)" unfolding a(1) by (intro dropWhile_shorter) auto
    then show ?thesis using length_dropWhile_le [of "\<lambda>c. c \<noteq> 0x2C" start] a(2) by simp
  next
    case False
    then show ?thesis unfolding a using length_dropWhile_le [of "\<lambda>c. c \<noteq> 0x2C" cs] by simp
  qed
  then show "((rest, tok), (c # cs, tok)) \<in> measure (\<lambda>(l, tok). length l)" by simp
qed simp

declare h1_token_in_list.simps [simp del]

definition is_b64 :: "byte \<Rightarrow> bool" where
  "is_b64 c \<longleftrightarrow> (0x41 \<le> c \<and> c \<le> 0x5A) \<or> (0x61 \<le> c \<and> c \<le> 0x7A) \<or> (0x30 \<le> c \<and> c \<le> 0x39) \<or> c = 0x2B \<or> c = 0x2F"

definition h1_b64_declen :: "bytes \<Rightarrow> int" where
  "h1_b64_declen s =
     (let n = length s in
      if n = 0 \<or> n mod 4 \<noteq> 0 then -1
      else let pad = of_bool (s ! (n - 1) = 0x3D) + of_bool (n \<ge> 2 \<and> s ! (n - 2) = 0x3D) in
        if \<not> list_all is_b64 (take (n - pad) s) then -1
        else int (n div 4 * 3) - int pad)"

text \<open>The readable bytes of a buffer; for a well-formed buffer this is \<open>ZHS_AVAIL\<close>.\<close>

definition h1_avail :: "zhs_buf \<Rightarrow> nat" where
  "h1_avail inp = length (ZHS_PTR inp)"

lemma h1_avail_eq: "zb_wf inp \<Longrightarrow> h1_avail inp = ZHS_AVAIL inp"
  by (simp add: h1_avail_def ZHS_AVAIL_def ZHS_PTR_def zb_wf_def szsub_def)

text \<open>The line (without its CRLF) and the bytes it takes; nothing complete yet; a bare LF.\<close>

datatype h1_line = Line bytes nat | LineNone | LineBad

definition h1_find_line :: "zhs_buf \<Rightarrow> h1_line" where
  "h1_find_line inp =
     (let p = ZHS_PTR inp; idx = length (takeWhile (\<lambda>c. c \<noteq> 0x0A) p) in
      if idx \<ge> length p then LineNone
      else if idx = 0 \<or> p ! (idx - 1) \<noteq> 0x0D then LineBad
      else Line (take (idx - 1) p) (idx + 1))"

subsection \<open>Response serialisation\<close>

text \<open>A run of \<open>APP(zhs_buf_append_str_(o, s))\<close>.\<close>

fun app_all :: "allocator \<Rightarrow> bytes list \<Rightarrow> zhs_buf \<Rightarrow> zcio_result \<times> zhs_buf" where
  "app_all alloc [] o1 = (ZCIO_OK, o1)"
| "app_all alloc (s # ss) o1 = and_then (zhs_buf_append_str alloc o1 s) (app_all alloc ss)"

definition crlf :: bytes where
  "crlf = [0x0D, 0x0A]"

definition h1_status_line :: "int \<Rightarrow> bytes" where
  "h1_status_line status =
     take 63 (asc ''HTTP/1.1 '' @ fmt_int status @ asc '' '' @ asc (zhs_status_text status) @ crlf)"

definition h1_emit_simple ::
  "h1_env \<Rightarrow> zh1_conn \<Rightarrow> int \<Rightarrow> (bytes \<times> bytes) option \<Rightarrow> h1_stage \<times> zh1_conn" where
  "h1_emit_simple env c status extra =
     (let strs = [h1_status_line status, asc ''date: '', zhs_http_date (he_clock env), crlf @ asc ''server: zcio'' @ crlf] @
            (case extra of None \<Rightarrow> [] | Some (n, v) \<Rightarrow> [n, asc '': '', v, crlf]) @
            [asc ''content-length: 0'' @ crlf @ asc ''connection: close'' @ crlf @ crlf]
      in case app_all (he_alloc env) strs (h1_out c) of
           (r, o1) \<Rightarrow>
             if r \<noteq> ZCIO_OK then (P_HARD ZCIO_ERR_NOMEM, c\<lparr>h1_out := o1\<rparr>)
             else (P_CLOSE, c\<lparr>h1_out := o1, h1_close_after := True, h1_st := H1_DEAD\<rparr>))"

definition h1_error :: "h1_env \<Rightarrow> zh1_conn \<Rightarrow> int \<Rightarrow> h1_stage \<times> zh1_conn" where
  "h1_error env c status = h1_emit_simple env c status None"

definition h1_bodiless :: "int \<Rightarrow> bool" where
  "h1_bodiless status \<longleftrightarrow> (status \<ge> 100 \<and> status < 200) \<or> status = 204 \<or> status = 304"

definition h1_close_conn :: "zh1_conn \<Rightarrow> bool" where
  "h1_close_conn c \<longleftrightarrow> h1_close_after c \<or> h1_graceful c \<or> \<not> h1_keep_alive c \<or>
     (h1_req_count c + 1) mod 2 ^ 32 \<ge> max_requests_per_conn (h1_lim c)"

definition h1_respond_strs ::
  "zh1_conn \<Rightarrow> int \<Rightarrow> (bytes \<times> bytes) list \<Rightarrow> nat \<Rightarrow> bytes list" where
  "h1_respond_strs c status hdrs body_len =
     [h1_status_line status] @ concat (map (\<lambda>(k, v). [k, asc '': '', v, crlf]) hdrs) @
     (if h1_bodiless status then [] else [asc ''content-length: '' @ dec_digits body_len @ crlf]) @
     [(if h1_close_conn c then asc ''connection: close'' else asc ''connection: keep-alive'') @ crlf @ crlf]"

definition h1_respond :: "h1_env \<Rightarrow> zh1_conn respond_hook" where
  "h1_respond env c req status hdrs body body_len =
     (let suppress = (h1_bodiless status \<or> rq_is_head req); close_conn = h1_close_conn c in
      case and_then (app_all (he_alloc env) (h1_respond_strs c status hdrs body_len) (h1_out c))
             (\<lambda>o1. case body of
                     Some b \<Rightarrow> if \<not> suppress \<and> body_len \<noteq> 0 then zhs_buf_append (he_alloc env) o1 (take body_len b)
                               else (ZCIO_OK, o1)
                   | None \<Rightarrow> (ZCIO_OK, o1)) of
        (r, o1) \<Rightarrow>
          if r \<noteq> ZCIO_OK then (zcode ZCIO_ERR_NOMEM, c\<lparr>h1_out := o1\<rparr>)
          else (zcode ZCIO_OK,
                c\<lparr>h1_out := o1,
                  h1_close_after := (h1_close_after c \<or> close_conn \<or> length (zb_data o1) > max_out_bytes (h1_lim c))\<rparr>))"

definition h1_redirect :: "h1_env \<Rightarrow> zh1_conn \<Rightarrow> h1_stage \<times> zh1_conn" where
  "h1_redirect env c =
     (let host0 = zhs_redirect_host (he_srv env);
          host = (if host0 = None \<or> host0 = Some [] then rq_authority (h1_req c) else host0)
      in if host = None \<or> host = Some [] then h1_error env c 400
         else
           (let strs = [asc ''HTTP/1.1 301 Moved Permanently'' @ crlf @ asc ''date: '', zhs_http_date (he_clock env),
                        crlf @ asc ''server: zcio'' @ crlf @ asc ''location: https://'', the host,
                        (case rq_path (h1_req c) of None \<Rightarrow> asc ''/'' | Some p \<Rightarrow> p)] @
                       (case rq_query (h1_req c) of None \<Rightarrow> [] | Some q \<Rightarrow> [asc ''?'', q]) @
                       [crlf @ asc ''content-length: 0'' @ crlf @ asc ''connection: close'' @ crlf @ crlf]
            in case app_all (he_alloc env) strs (h1_out c) of
                 (r, o1) \<Rightarrow>
                   if r \<noteq> ZCIO_OK then (P_HARD ZCIO_ERR_NOMEM, c\<lparr>h1_out := o1\<rparr>)
                   else (P_CLOSE, c\<lparr>h1_out := o1, h1_close_after := True, h1_st := H1_DEAD\<rparr>)))"


subsection \<open>The request line\<close>

text \<open>Method, target and version of \<open>METHOD SP request-target SP HTTP-version\<close>.\<close>

definition split_reqline :: "bytes \<Rightarrow> (bytes \<times> bytes \<times> bytes) option" where
  "split_reqline line =
     (let mlen = length (takeWhile (\<lambda>c. c \<noteq> 0x20) line) in
      if mlen \<ge> length line then None
      else let t = drop (mlen + 1) line; tlen = length (takeWhile (\<lambda>c. c \<noteq> 0x20) t) in
        if tlen \<ge> length t then None
        else Some (take mlen line, take tlen t, drop (tlen + 1) t))"

text \<open>\<open>Inr\<close> says whether the version is 1.0; \<open>Inl\<close> is the status of the refusal.\<close>

definition h1_version :: "bytes \<Rightarrow> int + bool" where
  "h1_version v =
     (if v = asc ''HTTP/1.1'' then Inr False
      else if v = asc ''HTTP/1.0'' then Inr True
      else if length v \<ge> 6 \<and> take 5 v = asc ''HTTP/'' \<and> h1_is_digit (v ! 5) then Inl 505
      else Inl 400)"

text \<open>The target of an acceptable line.\<close>

definition h1_take_target :: "h1_env \<Rightarrow> zh1_conn \<Rightarrow> bytes \<Rightarrow> bytes \<Rightarrow> h1_stage \<times> zh1_conn" where
  "h1_take_target env c meth target =
     (if length target > max_url_bytes (h1_lim c) then h1_error env c 414
      else if \<not> he_alloc env (length meth + 1) then (P_HARD ZCIO_ERR_NOMEM, c)
      else
        (let c1 = c\<lparr>h1_req := (h1_req c)\<lparr>rq_method := Some meth, rq_is_head := (meth = asc ''HEAD'')\<rparr>\<rparr> in
         case zhs_decode_target (he_alloc env) (he_junk env) (Some target) (h1_lim c) of
           Inl e \<Rightarrow> h1_error env c1 400
         | Inr (path, query) \<Rightarrow>
             (P_NEXT, c1\<lparr>h1_req := (h1_req c1)\<lparr>rq_path := Some path, rq_query := query, rq_version := 1\<rparr>,
                         h1_st := H1_HEADERS\<rparr>)))"

definition h1_request_line :: "h1_env \<Rightarrow> zh1_conn \<Rightarrow> bytes \<Rightarrow> h1_stage \<times> zh1_conn" where
  "h1_request_line env c line =
     (if line = [] \<or> is_ows (hd line) then h1_error env c 400
      else case split_reqline line of
        None \<Rightarrow> h1_error env c 400
      | Some (meth, target, version) \<Rightarrow>
          if \<not> zhs_token_ok (Some meth) then h1_error env c 400
          else case h1_version version of
            Inl status \<Rightarrow> h1_error env c status
          | Inr http10 \<Rightarrow> h1_take_target env (c\<lparr>h1_is_http10 := http10\<rparr>) meth target)"

text \<open>A line that is parsed, successfully or not, is consumed.\<close>

definition h1_reqline :: "h1_env \<Rightarrow> zh1_conn \<Rightarrow> zhs_buf \<Rightarrow> h1_stage \<times> zh1_conn \<times> zhs_buf" where
  "h1_reqline env c0 inp =
     (let c = (if h1_avail inp > 0 then c0\<lparr>h1_receiving := True\<rparr> else c0);
          err = (\<lambda>status. case h1_error env c status of (p, c1) \<Rightarrow> (p, c1, inp))
      in case h1_find_line inp of
           LineNone \<Rightarrow> if h1_avail inp > max_header_bytes (h1_lim c) then err 431 else (P_MORE, c, inp)
         | LineBad \<Rightarrow> err 400
         | Line line consumed \<Rightarrow>
             if consumed > szsub (max_header_bytes (h1_lim c)) (h1_head_bytes c) then err 431
             else
               (case h1_request_line env (c\<lparr>h1_head_bytes := h1_head_bytes c + consumed\<rparr>) line of
                  (p, c1) \<Rightarrow> (p, c1, zhs_buf_consume inp consumed)))"

subsection \<open>The header block and the framing\<close>

fun cl_digits :: "bytes \<Rightarrow> u64 \<Rightarrow> int + u64" where
  "cl_digits [] v = Inr v"
| "cl_digits (p # ps) v =
     (if \<not> h1_is_digit p then Inl 400
      else if v > (- 1 - 9) div 10 then Inl 413
      else cl_digits ps (v * 10 + ucast (p - 0x30)))"

text \<open>All values of \<open>content-length\<close>; stored names are lower case and compared as they are.\<close>

definition cl_values :: "zhs_hdrs \<Rightarrow> bytes list" where
  "cl_values h = map snd (filter (\<lambda>(n, v). n = asc ''content-length'') (hs_v h))"

definition h1_frame_content_length :: "zh1_conn \<Rightarrow> int + u64" where
  "h1_frame_content_length c =
     (case cl_values (rq_headers (h1_req c)) of
        [first] \<Rightarrow>
          if first = [] then Inl 400
          else (case cl_digits first 0 of
                  Inl e \<Rightarrow> Inl e
                | Inr v \<Rightarrow> if unat v > max_body_bytes (h1_lim c) then Inl 413 else Inr v)
      | _ \<Rightarrow> Inl 400)"

text \<open>One header line: \<open>Inl\<close> ends the stage, \<open>Inr\<close> goes on with the next line.\<close>

definition h1_header_line ::
  "h1_env \<Rightarrow> zh1_conn \<Rightarrow> bytes \<Rightarrow> h1_stage option \<times> zh1_conn" where
  "h1_header_line env c line =
     (let err = (\<lambda>status. case h1_error env c status of (p, c1) \<Rightarrow> (Some p, c1)) in
      if is_ows (hd line) then err 400
      else let nlen = length (takeWhile (\<lambda>b. b \<noteq> 0x3A) line) in
        if nlen \<ge> length line then err 400
        else if \<not> zhs_token_ok (Some (take nlen line)) then err 400
        else let value = rtrim_ows (dropWhile is_ows (drop (nlen + 1) line)) in
          if \<not> zhs_value_ok (Some value) then err 400
          else case zhs_hdrs_add (he_alloc env) (rq_headers (h1_req c)) (take nlen line) value (h1_lim c) True of
            (a, h) \<Rightarrow>
              (let c1 = c\<lparr>h1_req := (h1_req c)\<lparr>rq_headers := h\<rparr>\<rparr> in
               if a = ZCIO_ERR_PROTOCOL
               then (case h1_error env c1 431 of (p, c2) \<Rightarrow> (Some p, c2))
               else if a \<noteq> ZCIO_OK then (Some (P_HARD a), c1)
               else (None, c1)))"

lemma find_line_some:
  assumes "h1_find_line inp = Line line n"
  shows "ZHS_PTR inp = line @ crlf @ drop n (ZHS_PTR inp)" "n = length line + 2" "0x0A \<notin> set line"
proof -
  let ?p = "ZHS_PTR inp"
  define i where "i = length (takeWhile (\<lambda>c. c \<noteq> 0x0A) ?p)"
  from assms have i: "i < length ?p" "i \<noteq> 0" "?p ! (i - 1) = 0x0D" "line = take (i - 1) ?p" "n = i + 1"
    by (auto simp: h1_find_line_def i_def Let_def split: if_splits)
  have lf: "?p ! i = 0x0A" using i(1) nth_length_takeWhile [of "\<lambda>c. c \<noteq> 0x0A" ?p] by (simp add: i_def)
  have "Suc (i - 1) = i" using i(2) by simp
  then have "drop (i - 1) ?p = 0x0D # drop i ?p" using Cons_nth_drop_Suc [of "i - 1" ?p] i(1,3) by simp
  moreover have "drop i ?p = 0x0A # drop n ?p" using Cons_nth_drop_Suc [of i ?p] i(1,5) lf by simp
  ultimately have "line @ crlf @ drop n ?p = take (i - 1) ?p @ drop (i - 1) ?p" using i(4) by (simp add: crlf_def)
  then show "?p = line @ crlf @ drop n ?p" by simp
  show "n = length line + 2" using i by simp
  have "take i ?p = takeWhile (\<lambda>c. c \<noteq> 0x0A) ?p" unfolding i_def by (rule takeWhile_eq_take [symmetric])
  then have "0x0A \<notin> set (take i ?p)" by (metis (mono_tags) set_takeWhileD)
  moreover have "set line \<subseteq> set (take i ?p)" unfolding i(4) by (intro set_take_subset_set_take) simp
  ultimately show "0x0A \<notin> set line" by blast
qed

lemma consume_shorter:
  assumes "ZHS_PTR inp \<noteq> []" "0 < n"
  shows "length (ZHS_PTR (zhs_buf_consume inp n)) < length (ZHS_PTR inp)"
proof -
  have "zb_off inp < length (zb_data inp)" using assms(1) by (simp add: ZHS_PTR_def)
  then show ?thesis using assms(2)
    by (auto simp: zhs_buf_consume_def ZHS_PTR_def ZHS_AVAIL_def Let_def)
qed

lemma find_line_shorter:
  "h1_find_line inp = Line line n \<Longrightarrow> length (ZHS_PTR (zhs_buf_consume inp n)) < length (ZHS_PTR inp)"
  using find_line_some [of inp line n] by (intro consume_shorter) (auto simp: crlf_def)

text \<open>The loop over the lines; the result \<open>None\<close> is the end of the head.\<close>

function h1_headers_loop :: "h1_env \<Rightarrow> zh1_conn \<Rightarrow> zhs_buf \<Rightarrow> h1_stage option \<times> zh1_conn \<times> zhs_buf" where
  "h1_headers_loop env c inp =
     (let lim = h1_lim c;
          err = (\<lambda>c status. case h1_error env c status of (p, c1) \<Rightarrow> (Some p, c1, inp))
      in case h1_find_line inp of
           LineNone \<Rightarrow> if h1_avail inp > max_header_bytes lim then err c 431 else (Some P_MORE, c, inp)
         | LineBad \<Rightarrow> err c 400
         | Line line consumed \<Rightarrow>
             if consumed > szsub (max_header_bytes lim) (h1_head_bytes c) then err c 431
             else
               (let c1 = c\<lparr>h1_head_bytes := h1_head_bytes c + consumed\<rparr>; inp1 = zhs_buf_consume inp consumed in
                if line = [] then (None, c1, inp1)
                else case h1_header_line env c1 line of
                  (Some p, c2) \<Rightarrow> (Some p, c2, inp1)
                | (None, c2) \<Rightarrow> h1_headers_loop env c2 inp1))"
  by pat_completeness auto
termination
  by (relation "measure (\<lambda>(env, c, inp). length (ZHS_PTR inp))") (auto dest: find_line_shorter)

declare h1_headers_loop.simps [simp del]

text \<open>\<open>strrchr(hv, '@')\<close> and what follows the last \<open>@\<close>.\<close>

definition strip_userinfo :: "bytes \<Rightarrow> bytes" where
  "strip_userinfo hv = rev (takeWhile (\<lambda>c. c \<noteq> 0x40) (rev hv))"

definition h1_host :: "h1_env \<Rightarrow> zh1_conn \<Rightarrow> h1_stage option \<times> zh1_conn" where
  "h1_host env c =
     (let h = rq_headers (h1_req c); hostc = zhs_hdrs_count h (asc ''host'');
          err = (case h1_error env c 400 of (p, c1) \<Rightarrow> (Some p, c1))
      in if \<not> h1_is_http10 c \<and> hostc \<noteq> 1 then err
         else if h1_is_http10 c \<and> hostc > 1 then err
         else if hostc \<ge> 1 then
           (let a = strip_userinfo (the (zhs_hdrs_get h (asc ''host''))) in
            if \<not> he_alloc env (length a + 1) then (Some (P_HARD ZCIO_ERR_NOMEM), c)
            else (None, c\<lparr>h1_req := (h1_req c)\<lparr>rq_authority := Some a\<rparr>\<rparr>))
         else (None, c))"

definition h1_framing :: "h1_env \<Rightarrow> zh1_conn \<Rightarrow> h1_stage option \<times> zh1_conn" where
  "h1_framing env c =
     (let h = rq_headers (h1_req c);
          te = zhs_hdrs_get h (asc ''transfer-encoding''); tec = zhs_hdrs_count h (asc ''transfer-encoding'');
          clc = zhs_hdrs_count h (asc ''content-length'');
          err = (\<lambda>c status. case h1_error env c status of (p, c1) \<Rightarrow> (Some p, c1))
      in if te \<noteq> None \<and> clc \<noteq> 0 then err c 400
         else if te \<noteq> None \<and> h1_is_http10 c then err c 400
         else
           (let c1 = c\<lparr>h1_head_bytes := 0\<rparr> in
            case te of
              Some t \<Rightarrow>
                if tec \<noteq> 1 \<or> \<not> h1_ci_eq t (asc ''chunked'') then err c1 501
                else (None, c1\<lparr>h1_chunked := True, h1_chunk_remaining := 0, h1_st := H1_CHUNK_SIZE\<rparr>)
            | None \<Rightarrow>
                if clc \<noteq> 0 then
                  (case h1_frame_content_length c1 of
                     Inl e \<Rightarrow> err c1 e
                   | Inr cl \<Rightarrow> (None, c1\<lparr>h1_cl_remaining := cl, h1_st := H1_BODY_CL\<rparr>))
                else (None, c1\<lparr>h1_cl_remaining := 0, h1_st := H1_BODY_CL\<rparr>)))"

definition h1_keep_alive_intent :: "zh1_conn \<Rightarrow> zh1_conn" where
  "h1_keep_alive_intent c =
     (let conn = zhs_hdrs_get (rq_headers (h1_req c)) (asc ''connection'');
          has = (\<lambda>tok. case conn of None \<Rightarrow> False | Some v \<Rightarrow> h1_token_in_list v tok)
      in c\<lparr>h1_keep_alive := (if h1_is_http10 c then has (asc ''keep-alive'') else \<not> has (asc ''close''))\<rparr>)"

definition h1_headers :: "h1_env \<Rightarrow> zh1_conn \<Rightarrow> zhs_buf \<Rightarrow> h1_stage \<times> zh1_conn \<times> zhs_buf" where
  "h1_headers env c inp =
     (case h1_headers_loop env c inp of
        (Some p, c1, inp1) \<Rightarrow> (p, c1, inp1)
      | (None, c1, inp1) \<Rightarrow>
          (case h1_host env c1 of
             (Some p, c2) \<Rightarrow> (p, c2, inp1)
           | (None, c2) \<Rightarrow>
               if h1_flags c2 AND ZH1_F_REDIRECT \<noteq> 0
               then (case h1_redirect env c2 of (p, c3) \<Rightarrow> (p, c3, inp1))
               else (case h1_framing env c2 of
                       (Some p, c3) \<Rightarrow> (p, c3, inp1)
                     | (None, c3) \<Rightarrow> (P_NEXT, h1_keep_alive_intent c3, inp1))))"


subsection \<open>The body\<close>

text \<open>\<open>h1_append_body\<close>: every failure is the hard error.\<close>

definition h1_append_body :: "h1_env \<Rightarrow> zh1_conn \<Rightarrow> bytes \<Rightarrow> bool \<times> zh1_conn" where
  "h1_append_body env c p =
     (case zhs_buf_append (he_alloc env) (rq_body (h1_req c)) p of
        (r, b) \<Rightarrow> (r = ZCIO_OK, c\<lparr>h1_req := (h1_req c)\<lparr>rq_body := b\<rparr>\<rparr>))"

definition h1_body_cl :: "h1_env \<Rightarrow> zh1_conn \<Rightarrow> zhs_buf \<Rightarrow> h1_stage \<times> zh1_conn \<times> zhs_buf" where
  "h1_body_cl env c inp =
     (if h1_cl_remaining c = 0 then (P_COMPLETE, c, inp)
      else let avail = h1_avail inp in
        if avail = 0 then (P_MORE, c, inp)
        else let tk = (if avail < unat (h1_cl_remaining c) then avail else unat (h1_cl_remaining c)) in
          case h1_append_body env c (take tk (ZHS_PTR inp)) of
            (ok, c1) \<Rightarrow>
              if \<not> ok then (P_HARD ZCIO_ERR_NOMEM, c1, inp)
              else let c2 = c1\<lparr>h1_cl_remaining := h1_cl_remaining c1 - of_nat tk\<rparr> in
                (if h1_cl_remaining c2 = 0 then P_COMPLETE else P_MORE, c2, zhs_buf_consume inp tk))"

text \<open>
  The hexadecimal size at the front of a chunk-size line: \<open>None\<close> on overflow, else the size,
  whether there was any digit, and the rest of the line.
\<close>

fun chunk_size_digits :: "bytes \<Rightarrow> u64 \<Rightarrow> bool \<Rightarrow> (u64 \<times> bool \<times> bytes) option" where
  "chunk_size_digits [] sz any = Some (sz, any, [])"
| "chunk_size_digits (b # bs) sz any =
     (let hv = h1_hex b in
      if hv < 0 then Some (sz, any, b # bs)
      else if sz > drop_bit 4 (- 1) then None
      else chunk_size_digits bs (push_bit 4 sz OR word_of_int hv) True)"

text \<open>The stage of a chunk-size line, after the line is found.\<close>

definition h1_chunk_size :: "h1_env \<Rightarrow> zh1_conn \<Rightarrow> bytes \<Rightarrow> h1_stage option \<times> zh1_conn" where
  "h1_chunk_size env c line =
     (let err = (\<lambda>status. case h1_error env c status of (p, c1) \<Rightarrow> (Some p, c1)) in
      if length line > H1_CHUNK_LINE_MAX then err 400
      else case chunk_size_digits line 0 False of
        None \<Rightarrow> err 400
      | Some (sz, any, rest) \<Rightarrow>
          if \<not> any \<or> (rest \<noteq> [] \<and> hd rest \<noteq> 0x3B) then err 400
          else if sz = 0 then (None, c\<lparr>h1_st := H1_TRAILER\<rparr>)
          else if unat sz > szsub (max_body_bytes (h1_lim c)) (length (zb_data (rq_body (h1_req c)))) then err 413
          else (None, c\<lparr>h1_chunk_remaining := sz, h1_st := H1_CHUNK_DATA\<rparr>))"

text \<open>One turn of the chunk loop: \<open>Some\<close> ends the stage.\<close>

definition h1_chunk_turn :: "h1_env \<Rightarrow> zh1_conn \<Rightarrow> zhs_buf \<Rightarrow> h1_stage option \<times> zh1_conn \<times> zhs_buf" where
  "h1_chunk_turn env c inp =
     (let err = (\<lambda>c status inp. case h1_error env c status of (p, c1) \<Rightarrow> (Some p, c1, inp)) in
      if h1_st c = H1_CHUNK_SIZE then
        (case h1_find_line inp of
           LineNone \<Rightarrow> if h1_avail inp > H1_CHUNK_LINE_MAX then err c 400 inp else (Some P_MORE, c, inp)
         | LineBad \<Rightarrow> err c 400 inp
         | Line line consumed \<Rightarrow>
             (case h1_chunk_size env c line of (p, c1) \<Rightarrow> (p, c1, zhs_buf_consume inp consumed)))
      else if h1_st c = H1_CHUNK_DATA then
        (if h1_chunk_remaining c > 0 then
           (let avail = h1_avail inp in
            if avail = 0 then (Some P_MORE, c, inp)
            else let tk = (if avail < unat (h1_chunk_remaining c) then avail else unat (h1_chunk_remaining c)) in
              case h1_append_body env c (take tk (ZHS_PTR inp)) of
                (ok, c1) \<Rightarrow>
                  if \<not> ok then (Some (P_HARD ZCIO_ERR_NOMEM), c1, inp)
                  else let c2 = c1\<lparr>h1_chunk_remaining := h1_chunk_remaining c1 - of_nat tk\<rparr>;
                           inp1 = zhs_buf_consume inp tk
                       in if h1_chunk_remaining c2 > 0 then (Some P_MORE, c2, inp1)
                          else (None, c2\<lparr>h1_st := H1_CHUNK_CRLF\<rparr>, inp1))
         else (None, c\<lparr>h1_st := H1_CHUNK_CRLF\<rparr>, inp))
      else if h1_st c = H1_CHUNK_CRLF then
        (if h1_avail inp < 2 then (Some P_MORE, c, inp)
         else if ZHS_PTR inp ! 0 \<noteq> 0x0D \<or> ZHS_PTR inp ! 1 \<noteq> 0x0A then err c 400 inp
         else (None, c\<lparr>h1_st := H1_CHUNK_SIZE\<rparr>, zhs_buf_consume inp 2))
      else
        (case h1_find_line inp of
           LineNone \<Rightarrow> if h1_avail inp > max_header_bytes (h1_lim c) then err c 431 inp else (Some P_MORE, c, inp)
         | LineBad \<Rightarrow> err c 400 inp
         | Line line consumed \<Rightarrow>
             if consumed > szsub (max_header_bytes (h1_lim c)) (h1_head_bytes c) then err c 431 inp
             else
               (let c1 = c\<lparr>h1_head_bytes := h1_head_bytes c + consumed\<rparr> in
                (if line = [] then Some P_COMPLETE else None, c1, zhs_buf_consume inp consumed))))"

definition turn_rank :: "zh1_conn \<Rightarrow> nat" where
  "turn_rank c = (if h1_st c = H1_CHUNK_DATA then 1 else 0)"

lemma chunk_turn_shorter:
  assumes "h1_chunk_turn env c inp = (None, c', inp')"
  shows "length (ZHS_PTR inp') < length (ZHS_PTR inp) \<or> inp' = inp \<and> turn_rank c' < turn_rank c"
proof -
  consider (size) "h1_st c = H1_CHUNK_SIZE" | (data) "h1_st c = H1_CHUNK_DATA" | (crlf) "h1_st c = H1_CHUNK_CRLF"
    | (trailer) "h1_st c \<notin> {H1_CHUNK_SIZE, H1_CHUNK_DATA, H1_CHUNK_CRLF}" by blast
  then show ?thesis
  proof cases
    case data
    consider n where "0 < n" "ZHS_PTR inp \<noteq> []" "inp' = zhs_buf_consume inp n" | "h1_st c' = H1_CHUNK_CRLF" "inp' = inp"
    proof (cases "h1_chunk_remaining c > 0")
      case True
      let ?tk = "if h1_avail inp < unat (h1_chunk_remaining c) then h1_avail inp else unat (h1_chunk_remaining c)"
      from True data assms have "h1_avail inp \<noteq> 0" "inp' = zhs_buf_consume inp ?tk"
        by (auto simp: h1_chunk_turn_def Let_def split: if_splits prod.splits)
      moreover from this True have "0 < ?tk" by (auto simp: word_less_nat_alt)
      ultimately show ?thesis using that(1) by (simp add: h1_avail_def)
    next
      case False
      with data assms that(2) show ?thesis by (auto simp: h1_chunk_turn_def Let_def)
    qed
    then show ?thesis by cases (use data consume_shorter in \<open>auto simp: turn_rank_def\<close>)
  next
    case crlf
    then have "h1_avail inp \<ge> 2" "inp' = zhs_buf_consume inp 2"
      using assms by (auto simp: h1_chunk_turn_def Let_def split: if_splits prod.splits)
    then have "ZHS_PTR inp \<noteq> []" "inp' = zhs_buf_consume inp 2" by (auto simp: h1_avail_def)
    then show ?thesis using consume_shorter [of inp 2] by simp
  next
    case size
    then obtain line n where "h1_find_line inp = Line line n" "inp' = zhs_buf_consume inp n"
      using assms by (auto simp: h1_chunk_turn_def Let_def split: if_splits h1_line.splits prod.splits)
    then show ?thesis by (auto intro: find_line_shorter)
  next
    case trailer
    then obtain line n where "h1_find_line inp = Line line n" "inp' = zhs_buf_consume inp n"
      using assms by (auto simp: h1_chunk_turn_def Let_def split: if_splits h1_line.splits prod.splits)
    then show ?thesis by (auto intro: find_line_shorter)
  qed
qed

function h1_body_chunk :: "h1_env \<Rightarrow> zh1_conn \<Rightarrow> zhs_buf \<Rightarrow> h1_stage \<times> zh1_conn \<times> zhs_buf" where
  "h1_body_chunk env c inp =
     (case h1_chunk_turn env c inp of
        (Some p, c1, inp1) \<Rightarrow> (p, c1, inp1)
      | (None, c1, inp1) \<Rightarrow> h1_body_chunk env c1 inp1)"
  by pat_completeness auto
termination
proof (relation "measures [\<lambda>(env, c, inp). length (ZHS_PTR inp), \<lambda>(env, c, inp). turn_rank c]")
  fix env c inp x y c' inp'
  assume "(x, y) = h1_chunk_turn env c inp" "x = None" "(c', inp') = y"
  then have "h1_chunk_turn env c inp = (None, c', inp')" by simp
  from chunk_turn_shorter [OF this] show "((env, c', inp'), env, c, inp) \<in> measures
      [\<lambda>(env, c, inp). length (ZHS_PTR inp), \<lambda>(env, c, inp). turn_rank c]" by auto
qed simp

declare h1_body_chunk.simps [simp del]


subsection \<open>Dispatch and pipelining\<close>

definition h1_detect_ws :: "zh1_conn \<Rightarrow> zh1_conn" where
  "h1_detect_ws c =
     (let r = h1_req c; h = rq_headers r;
          has = (\<lambda>name tok. case zhs_hdrs_get h name of None \<Rightarrow> False | Some v \<Rightarrow> h1_token_in_list v tok)
      in if h1_is_http10 c then c
         else if rq_method r \<noteq> Some (asc ''GET'') then c
         else if \<not> has (asc ''upgrade'') (asc ''websocket'') then c
         else if \<not> has (asc ''connection'') (asc ''upgrade'') then c
         else if (case zhs_hdrs_get h (asc ''sec-websocket-key'') of None \<Rightarrow> True | Some k \<Rightarrow> h1_b64_declen k \<noteq> 16) then c
         else if zhs_hdrs_get h (asc ''sec-websocket-version'') \<noteq> Some (asc ''13'') then c
         else c\<lparr>h1_req := r\<lparr>rq_ws_upgrade := True\<rparr>\<rparr>)"

text \<open>A successful upgrade drains the output queued on the connection.\<close>

definition h1_detach :: "zh1_conn \<Rightarrow> zh1_conn" where
  "h1_detach c = c\<lparr>h1_out := zhs_buf_consume (h1_out c) (ZHS_AVAIL (h1_out c))\<rparr>"

text \<open>The request as it is handed to the handler; \<open>None\<close> when its terminating NUL does not fit.\<close>

definition h1_ready :: "h1_env \<Rightarrow> zh1_conn \<Rightarrow> zh1_conn option" where
  "h1_ready env c =
     (let c1 = c\<lparr>h1_req := (h1_req c)\<lparr>rq_version := 1, rq_secure := (h1_flags c AND ZH1_F_SECURE \<noteq> 0), rq_stream_id := 0\<rparr>\<rparr> in
      case zhs_buf_reserve (he_alloc env) (rq_body (h1_req c1)) 1 of
        (r, b) \<Rightarrow>
          if r \<noteq> ZCIO_OK then None
          else Some (h1_detect_ws (c1\<lparr>h1_req := (h1_req c1)\<lparr>rq_body := b\<rparr>\<rparr>)))"

definition h1_finish :: "h1_env \<Rightarrow> zh1_conn \<Rightarrow> h1_fin \<times> zh1_conn" where
  "h1_finish env c =
     (case h1_ready env c of
        None \<Rightarrow> (FIN_HARD, c)
      | Some c1 \<Rightarrow>
          (case zhs_dispatch (he_alloc env) (he_srv env) (he_clock env) (h1_respond env) h1_detach
                  (he_handler env (h1_req_count c1) (h1_req c1)) c1 (h1_req c1) of
             (detached, c2, r2) \<Rightarrow>
               (let c3 = c2\<lparr>h1_req := r2\<rparr> in
                if detached then (FIN_DETACHED, c3)
                else (FIN_OK, c3\<lparr>h1_req_count := (h1_req_count c3 + 1) mod 2 ^ 32\<rparr>))))"

definition h1_reset_next :: "zh1_conn \<Rightarrow> zh1_conn" where
  "h1_reset_next c = c\<lparr>h1_req := zhs_req_reset (h1_req c), h1_st := H1_REQLINE, h1_head_bytes := 0,
     h1_receiving := False, h1_chunked := False, h1_cl_remaining := 0, h1_chunk_remaining := 0,
     h1_keep_alive := False, h1_is_http10 := False\<rparr>"

subsection \<open>Entry points\<close>

definition zh1_new :: "bool \<Rightarrow> zhs_limits \<Rightarrow> u32 \<Rightarrow> zhs_buf \<Rightarrow> zh1_conn option" where
  "zh1_new alloc lim flags out =
     (if \<not> alloc then None
      else Some \<lparr>h1_lim = lim, h1_flags = flags, h1_out = out, h1_st = H1_REQLINE, h1_req = zhs_req_zero,
        h1_head_bytes = 0, h1_receiving = False, h1_is_http10 = False, h1_keep_alive = False,
        h1_graceful = False, h1_close_after = False, h1_req_count = 0, h1_chunked = False,
        h1_cl_remaining = 0, h1_chunk_remaining = 0\<rparr>)"

datatype zh1_ret = ZH1_NEED_MORE | ZH1_DISPATCHED | ZH1_CLOSE | ZH1_DETACHED | ZH1_HARD zcio_result

text \<open>The stage of the current state; \<open>None\<close> for a dead connection.\<close>

definition h1_stage_of :: "h1_env \<Rightarrow> zh1_conn \<Rightarrow> zhs_buf \<Rightarrow> (h1_stage \<times> zh1_conn \<times> zhs_buf) option" where
  "h1_stage_of env c inp =
     (case h1_st c of
        H1_REQLINE \<Rightarrow> Some (h1_reqline env c inp)
      | H1_HEADERS \<Rightarrow> Some (h1_headers env c inp)
      | H1_BODY_CL \<Rightarrow> Some (h1_body_cl env c inp)
      | H1_CHUNK_SIZE \<Rightarrow> Some (h1_body_chunk env c inp)
      | H1_CHUNK_DATA \<Rightarrow> Some (h1_body_chunk env c inp)
      | H1_CHUNK_CRLF \<Rightarrow> Some (h1_body_chunk env c inp)
      | H1_TRAILER \<Rightarrow> Some (h1_body_chunk env c inp)
      | H1_DEAD \<Rightarrow> None)"

subsection \<open>Progress of the stages\<close>

definition body_rank :: "zh1_conn \<Rightarrow> nat" where
  "body_rank c = (if h1_st c \<in> {H1_REQLINE, H1_HEADERS} then 0 else 1)"

lemma h1_error_stage: "h1_error env c s = (p, c') \<Longrightarrow> p = P_CLOSE \<or> p = P_HARD ZCIO_ERR_NOMEM"
  by (auto simp: h1_error_def h1_emit_simple_def Let_def split: prod.splits if_splits)

lemma h1_redirect_stage: "h1_redirect env c = (p, c') \<Longrightarrow> p = P_CLOSE \<or> p = P_HARD ZCIO_ERR_NOMEM"
  by (auto simp: h1_redirect_def Let_def split: prod.splits if_splits dest: h1_error_stage)

lemma header_line_stage: "h1_header_line env c l = (Some p, c') \<Longrightarrow> p = P_CLOSE \<or> (\<exists>e. p = P_HARD e)"
  by (auto simp: h1_header_line_def Let_def split: prod.splits if_splits dest: h1_error_stage)

lemma host_stage: "h1_host env c = (Some p, c') \<Longrightarrow> p = P_CLOSE \<or> p = P_HARD ZCIO_ERR_NOMEM"
  by (auto simp: h1_host_def Let_def split: prod.splits if_splits dest: h1_error_stage)

lemma framing_stage: "h1_framing env c = (Some p, c') \<Longrightarrow> p = P_CLOSE \<or> p = P_HARD ZCIO_ERR_NOMEM"
  by (auto simp: h1_framing_def Let_def split: prod.splits if_splits option.splits sum.splits dest: h1_error_stage)

lemma headers_loop_progress:
  "h1_headers_loop env c inp = (q, c', inp') \<Longrightarrow>
     (q = None \<longrightarrow> length (ZHS_PTR inp') < length (ZHS_PTR inp)) \<and> q \<noteq> Some P_NEXT \<and> q \<noteq> Some P_COMPLETE"
proof (induction env c inp rule: h1_headers_loop.induct)
  case (1 env c inp)
  note unfold = h1_headers_loop.simps [of env c inp]
  show ?case
  proof (cases "h1_find_line inp")
    case (Line line n)
    show ?thesis
    proof (cases "n > szsub (max_header_bytes (h1_lim c)) (h1_head_bytes c)")
      case True
      with Line 1(2) unfold show ?thesis by (auto split: prod.splits dest: h1_error_stage)
    next
      case False
      let ?c1 = "c\<lparr>h1_head_bytes := h1_head_bytes c + n\<rparr>" and ?inp1 = "zhs_buf_consume inp n"
      note shorter = find_line_shorter [OF Line]
      show ?thesis
      proof (cases "line = []")
        case True
        with Line False 1(2) unfold shorter show ?thesis by (auto simp: Let_def)
      next
        case ne: False
        obtain q1 c2 where hl: "h1_header_line env ?c1 line = (q1, c2)" by fastforce
        show ?thesis
        proof (cases q1)
          case None
          with Line False ne hl 1(2) unfold have "h1_headers_loop env c2 ?inp1 = (q, c', inp')" by (simp add: Let_def)
          moreover note IH = 1(1) [OF refl refl Line False refl refl ne hl [symmetric] None]
          ultimately show ?thesis using shorter by (metis less_trans)
        next
          case (Some p)
          with Line False ne hl 1(2) unfold header_line_stage [of env ?c1 line p c2] show ?thesis
            by (auto simp: Let_def)
        qed
      qed
    qed
  qed (use 1(2) unfold in \<open>auto split: if_splits prod.splits dest: h1_error_stage\<close>)
qed


lemma consume_le: "length (ZHS_PTR (zhs_buf_consume inp n)) \<le> length (ZHS_PTR inp)"
  by (auto simp: zhs_buf_consume_def ZHS_PTR_def Let_def)

lemma take_target_stage: "h1_take_target env c m t = (p, c') \<Longrightarrow> p \<noteq> P_COMPLETE"
  by (auto simp: h1_take_target_def Let_def split: if_splits prod.splits sum.splits dest: h1_error_stage)

lemma request_line_stage: "h1_request_line env c line = (p, c') \<Longrightarrow> p \<noteq> P_COMPLETE"
  by (auto simp: h1_request_line_def Let_def split: if_splits option.splits prod.splits sum.splits
      dest: h1_error_stage take_target_stage)

lemma reqline_progress:
  assumes "h1_reqline env c inp = (p, c', inp')"
  shows "(p = P_NEXT \<longrightarrow> length (ZHS_PTR inp') < length (ZHS_PTR inp)) \<and> p \<noteq> P_COMPLETE"
proof (cases "h1_find_line inp")
  case (Line line n)
  then show ?thesis
    using assms find_line_shorter [OF Line]
    by (auto simp: h1_reqline_def Let_def split: if_splits prod.splits dest: h1_error_stage request_line_stage)
qed (use assms in \<open>auto simp: h1_reqline_def Let_def split: if_splits prod.splits dest: h1_error_stage\<close>)

lemma headers_progress:
  assumes "h1_headers env c inp = (p, c', inp')"
  shows "(p = P_NEXT \<longrightarrow> length (ZHS_PTR inp') < length (ZHS_PTR inp)) \<and> p \<noteq> P_COMPLETE"
proof -
  obtain q c1 inp1 where hl: "h1_headers_loop env c inp = (q, c1, inp1)" using prod_cases3 by blast
  note hp = headers_loop_progress [OF hl]
  show ?thesis
  proof (cases q)
    case None
    with hl hp assms show ?thesis
      by (auto simp: h1_headers_def split: prod.splits option.splits if_splits
          dest: host_stage framing_stage h1_redirect_stage)
  next
    case (Some p1)
    with hl hp assms show ?thesis by (auto simp: h1_headers_def)
  qed
qed

lemma body_cl_progress:
  "h1_body_cl env c inp = (p, c', inp') \<Longrightarrow> p \<noteq> P_NEXT \<and> length (ZHS_PTR inp') \<le> length (ZHS_PTR inp)"
  using consume_le by (auto simp: h1_body_cl_def Let_def split: if_splits prod.splits)

lemma chunk_size_stage: "h1_chunk_size env c l = (Some p, c') \<Longrightarrow> p = P_CLOSE \<or> p = P_HARD ZCIO_ERR_NOMEM"
  by (auto simp: h1_chunk_size_def Let_def split: prod.splits if_splits option.splits dest: h1_error_stage)

lemma chunk_turn_progress:
  "h1_chunk_turn env c inp = (q, c', inp') \<Longrightarrow> q \<noteq> Some P_NEXT \<and> length (ZHS_PTR inp') \<le> length (ZHS_PTR inp)"
  using consume_le
  by (auto simp: h1_chunk_turn_def Let_def split: if_splits prod.splits h1_line.splits
      dest: h1_error_stage chunk_size_stage)

lemma body_chunk_progress:
  "h1_body_chunk env c inp = (p, c', inp') \<Longrightarrow> p \<noteq> P_NEXT \<and> length (ZHS_PTR inp') \<le> length (ZHS_PTR inp)"
proof (induction env c inp rule: h1_body_chunk.induct)
  case (1 env c inp)
  obtain q c1 inp1 where t: "h1_chunk_turn env c inp = (q, c1, inp1)" using prod_cases3 by blast
  note tp = chunk_turn_progress [OF t]
  show ?case
  proof (cases q)
    case None
    with t 1(2) have "h1_body_chunk env c1 inp1 = (p, c', inp')" by (simp add: h1_body_chunk.simps [of env c inp])
    with 1(1) [OF t [symmetric] None refl] tp show ?thesis by (metis le_trans)
  next
    case (Some p1)
    with t tp 1(2) show ?thesis by (simp add: h1_body_chunk.simps [of env c inp])
  qed
qed

lemma stage_progress:
  assumes "h1_stage_of env c inp = Some (p, c', inp')"
  shows "p = P_NEXT \<Longrightarrow> length (ZHS_PTR inp') < length (ZHS_PTR inp)"
    and "p = P_COMPLETE \<Longrightarrow> length (ZHS_PTR inp') \<le> length (ZHS_PTR inp) \<and> body_rank c = 1"
  using assms reqline_progress headers_progress body_cl_progress body_chunk_progress
  by (cases "h1_st c"; fastforce simp: h1_stage_of_def body_rank_def)+

text \<open>The dispatcher: stages run until one needs input, ends the connection or hands it over.\<close>

function zh1_feed_loop :: "h1_env \<Rightarrow> zh1_conn \<Rightarrow> zhs_buf \<Rightarrow> nat \<Rightarrow> zh1_ret \<times> zh1_conn \<times> zhs_buf" where
  "zh1_feed_loop env c inp dispatched =
     (case h1_stage_of env c inp of
        None \<Rightarrow> (ZH1_CLOSE, c, inp)
      | Some (p, c1, inp1) \<Rightarrow>
          (case p of
             P_HARD e \<Rightarrow> (ZH1_HARD e, c1, inp1)
           | P_MORE \<Rightarrow> (if dispatched \<noteq> 0 then ZH1_DISPATCHED else ZH1_NEED_MORE, c1, inp1)
           | P_NEXT \<Rightarrow> zh1_feed_loop env c1 inp1 dispatched
           | P_CLOSE \<Rightarrow> (ZH1_CLOSE, c1, inp1)
           | P_COMPLETE \<Rightarrow>
               (case h1_finish env c1 of
                  (FIN_DETACHED, c2) \<Rightarrow> (ZH1_DETACHED, c2, inp1)
                | (FIN_HARD, c2) \<Rightarrow> (ZH1_HARD ZCIO_ERR_NOMEM, c2, inp1)
                | (FIN_OK, c2) \<Rightarrow>
                    if h1_close_after c2 then (ZH1_CLOSE, c2, inp1)
                    else zh1_feed_loop env (h1_reset_next c2) inp1 (dispatched + 1))))"
  by pat_completeness auto
termination
proof (relation "measures [\<lambda>(env, c, inp, n). length (ZHS_PTR inp), \<lambda>(env, c, inp, n). body_rank c]")
  fix env c inp n x p y c1 inp1
  assume "h1_stage_of env c inp = Some x" "(p, y) = x" "(c1, inp1) = y" "p = P_NEXT"
  then have "h1_stage_of env c inp = Some (P_NEXT, c1, inp1)" by simp
  from stage_progress(1) [OF this refl] show "((env, c1, inp1, n), env, c, inp, n)
      \<in> measures [\<lambda>(env, c, inp, n). length (ZHS_PTR inp), \<lambda>(env, c, inp, n). body_rank c]" by simp
next
  fix env c inp n x p y c1 inp1 f c2
  assume "h1_stage_of env c inp = Some x" "(p, y) = x" "(c1, inp1) = y" "p = P_COMPLETE"
  then have "h1_stage_of env c inp = Some (P_COMPLETE, c1, inp1)" by simp
  from stage_progress(2) [OF this refl] show "((env, h1_reset_next c2, inp1, n + 1), env, c, inp, n)
      \<in> measures [\<lambda>(env, c, inp, n). length (ZHS_PTR inp), \<lambda>(env, c, inp, n). body_rank c]"
    by (auto simp: h1_reset_next_def body_rank_def)
qed simp

declare zh1_feed_loop.simps [simp del]

definition zh1_feed :: "h1_env \<Rightarrow> zh1_conn \<Rightarrow> zhs_buf \<Rightarrow> zh1_ret \<times> zh1_conn \<times> zhs_buf" where
  "zh1_feed env c inp = zh1_feed_loop env c inp 0"

definition zh1_idle :: "zh1_conn \<Rightarrow> bool" where
  "zh1_idle c \<longleftrightarrow> h1_st c = H1_REQLINE \<and> \<not> h1_receiving c"

definition zh1_mid_headers :: "zh1_conn \<Rightarrow> bool" where
  "zh1_mid_headers c \<longleftrightarrow> h1_receiving c \<and> (h1_st c = H1_REQLINE \<or> h1_st c = H1_HEADERS)"

definition zh1_receiving :: "zh1_conn \<Rightarrow> bool" where
  "zh1_receiving c = h1_receiving c"

definition zh1_graceful :: "zh1_conn \<Rightarrow> zh1_conn" where
  "zh1_graceful c = c\<lparr>h1_graceful := True\<rparr>"


section \<open>What the HTTP/1.1 engine guarantees\<close>

subsection \<open>Content-Length\<close>

definition dec_from :: "nat \<Rightarrow> bytes \<Rightarrow> nat" where
  "dec_from a ps = foldl (\<lambda>a d. a * 10 + unat (d - 0x30)) a ps"

definition dec_value :: "bytes \<Rightarrow> nat" where
  "dec_value ps = dec_from 0 ps"

lemma dec_from_simps [simp]: "dec_from a [] = a" "dec_from a (d # ps) = dec_from (a * 10 + unat (d - 0x30)) ps"
  by (simp_all add: dec_from_def)

lemma dec_from_ge: "a \<le> dec_from a ps"
proof (induction ps arbitrary: a)
  case (Cons d ps)
  from Cons [of "a * 10 + unat (d - 0x30)"] show ?case by simp
qed simp

lemma cl_guard: "unat ((- 1 - 9) div 10 :: u64) = 1844674407370955160"
  by (simp add: unat_div_distrib)

lemma digit_unat: "h1_is_digit p \<Longrightarrow> unat (p - 0x30) \<le> 9"
proof -
  assume "h1_is_digit p"
  then have "0x30 \<le> p" "unat p \<le> 0x39" by (auto simp: h1_is_digit_def word_le_nat_alt)
  then have "unat (p - 0x30) = unat p - 0x30" by (simp add: unat_sub)
  with \<open>unat p \<le> 0x39\<close> show ?thesis by simp
qed

lemma cl_step:
  assumes "h1_is_digit p" "unat v \<le> 1844674407370955160"
  shows "unat (v * 10 + ucast (p - 0x30) :: u64) = unat v * 10 + unat (p - 0x30)"
  using assms digit_unat [OF assms(1)]
  by (simp add: unat_word_ariths unsigned_ucast_eq take_bit_nat_eq_self)

lemma cl_digits_sound:
  "cl_digits ps v = Inr w \<Longrightarrow> list_all h1_is_digit ps \<and> unat w = dec_from (unat v) ps"
proof (induction ps arbitrary: v)
  case (Cons p ps)
  then have p: "h1_is_digit p" "\<not> v > (- 1 - 9) div 10" and r: "cl_digits ps (v * 10 + ucast (p - 0x30)) = Inr w"
    by (auto split: if_splits)
  have "unat v \<le> 1844674407370955160" using p(2) cl_guard by (simp add: word_less_nat_alt not_less)
  with Cons.IH [OF r] cl_step [OF p(1)] p(1) show ?case by simp
qed simp

lemma cl_digits_complete:
  assumes "list_all h1_is_digit ps" "dec_from (unat v) ps < 18446744073709551610"
  shows "\<exists>w. cl_digits ps v = Inr w"
  using assms
proof (induction ps arbitrary: v)
  case (Cons p ps)
  have "unat v * 10 + unat (p - 0x30) \<le> dec_from (unat v) (p # ps)" using dec_from_ge by simp
  then have v: "unat v \<le> 1844674407370955160" using Cons.prems(2) by linarith
  then have "\<not> v > (- 1 - 9) div 10" using cl_guard by (simp add: word_less_nat_alt)
  moreover have p: "h1_is_digit p" using Cons.prems(1) by simp
  moreover have "\<exists>w. cl_digits ps (v * 10 + ucast (p - 0x30)) = Inr w"
    using Cons.prems cl_step [OF p v] by (intro Cons.IH) auto
  ultimately show ?case by simp
qed simp

lemma cl_count: "zhs_hdrs_count h (asc ''content-length'') = length (cl_values h)"
proof -
  have "map tolower (asc ''content-length'') = asc ''content-length''" by (simp add: tolower_def)
  then show ?thesis by (simp add: zhs_hdrs_count_def cl_values_def hdr_name_eq_iff)
qed

text \<open>
  Content-Length framing is exact: the length taken is the decimal value of the one
  \<open>content-length\<close> field, all of whose characters are digits, computed without wrap-around and
  within the body limit; duplicates, empty and non-decimal values are refused. Conversely every
  such value within the limit is taken, for limits below \<open>2^64 - 6\<close>.
\<close>
theorem content_length_exact:
  assumes "max_body_bytes (h1_lim c) < 18446744073709551610"
  shows "h1_frame_content_length c = Inr n \<longleftrightarrow>
    (\<exists>v. cl_values (rq_headers (h1_req c)) = [v] \<and> v \<noteq> [] \<and> list_all h1_is_digit v \<and>
       dec_value v = unat n \<and> unat n \<le> max_body_bytes (h1_lim c))" (is "?l \<longleftrightarrow> ?r")
proof
  assume ?l
  then obtain v where v: "cl_values (rq_headers (h1_req c)) = [v]" "v \<noteq> []" "cl_digits v 0 = Inr n"
      "unat n \<le> max_body_bytes (h1_lim c)"
    by (auto simp: h1_frame_content_length_def split: list.splits sum.splits if_splits)
  with cl_digits_sound [OF v(3)] show ?r by (auto simp: dec_value_def)
next
  assume ?r
  then obtain v where v: "cl_values (rq_headers (h1_req c)) = [v]" "v \<noteq> []" "list_all h1_is_digit v"
      "dec_value v = unat n" "unat n \<le> max_body_bytes (h1_lim c)" by blast
  then obtain w where w: "cl_digits v 0 = Inr w"
    using cl_digits_complete [of v 0] assms by (auto simp: dec_value_def)
  then have "w = n" using cl_digits_sound [OF w] v(4) by (simp add: dec_value_def word_unat_eq_iff)
  with v w show ?l by (simp add: h1_frame_content_length_def)
qed

subsection \<open>The invariant of a connection\<close>

text \<open>The request target as a handler may see it: \<open>*\<close>, or a rooted path without dot segments.\<close>

definition path_safe :: "bytes \<Rightarrow> bool" where
  "path_safe p \<longleftrightarrow> list_all no_ctl p \<and>
     (p = [0x2A] \<or> (\<exists>segs. segs \<noteq> [] \<and> p = render_path segs \<and> list_all no_slash segs \<and>
        [0x2E] \<notin> set segs \<and> [0x2E, 0x2E] \<notin> set segs))"

definition line_ok :: "zcio_http_req \<Rightarrow> bool" where
  "line_ok q \<longleftrightarrow> zhs_token_ok (rq_method q) \<and> (\<exists>p. rq_path q = Some p \<and> path_safe p)"

definition host_ok :: "zcio_http_req \<Rightarrow> bool" where
  "host_ok q \<longleftrightarrow> zhs_hdrs_count (rq_headers q) (asc ''host'') \<le> 1"

text \<open>A body of \<open>n\<close> bytes by length, and a chunked body: never both framings.\<close>

definition cl_ok :: "zhs_hdrs \<Rightarrow> nat \<Rightarrow> bool" where
  "cl_ok h n \<longleftrightarrow> zhs_hdrs_get h (asc ''transfer-encoding'') = None \<and>
     (cl_values h = [] \<and> n = 0 \<or>
      (\<exists>v. cl_values h = [v] \<and> v \<noteq> [] \<and> list_all h1_is_digit v \<and> dec_value v = n))"

definition te_ok :: "zhs_hdrs \<Rightarrow> bool" where
  "te_ok h \<longleftrightarrow> cl_values h = [] \<and> zhs_hdrs_count h (asc ''transfer-encoding'') = 1 \<and>
     (\<exists>t. zhs_hdrs_get h (asc ''transfer-encoding'') = Some t \<and> h1_ci_eq t (asc ''chunked''))"

definition body_len :: "zh1_conn \<Rightarrow> nat" where
  "body_len c = length (zb_data (rq_body (h1_req c)))"

definition h1_st_ok :: "zh1_conn \<Rightarrow> bool" where
  "h1_st_ok c \<longleftrightarrow>
     (h1_st c \<in> {H1_REQLINE, H1_HEADERS} \<longrightarrow> body_len c = 0) \<and>
     (h1_st c \<notin> {H1_REQLINE, H1_DEAD} \<longrightarrow> line_ok (h1_req c)) \<and>
     (h1_st c \<notin> {H1_REQLINE, H1_HEADERS, H1_DEAD} \<longrightarrow> host_ok (h1_req c)) \<and>
     (h1_st c = H1_BODY_CL \<longrightarrow> cl_ok (rq_headers (h1_req c)) (body_len c + unat (h1_cl_remaining c)) \<and>
        body_len c + unat (h1_cl_remaining c) \<le> max_body_bytes (h1_lim c)) \<and>
     (h1_st c \<in> {H1_CHUNK_SIZE, H1_CHUNK_DATA, H1_CHUNK_CRLF, H1_TRAILER} \<longrightarrow> te_ok (rq_headers (h1_req c))) \<and>
     (h1_st c = H1_CHUNK_DATA \<longrightarrow> body_len c + unat (h1_chunk_remaining c) \<le> max_body_bytes (h1_lim c))"

definition h1_wf :: "zh1_conn \<Rightarrow> bool" where
  "h1_wf c \<longleftrightarrow> h1_head_bytes c \<le> max_header_bytes (h1_lim c) \<and>
     hdrs_wf (h1_lim c) (rq_headers (h1_req c)) \<and> zb_wf (rq_body (h1_req c)) \<and>
     zb_off (rq_body (h1_req c)) = 0 \<and> body_len c \<le> max_body_bytes (h1_lim c) \<and> h1_st_ok c"

text \<open>A request ready for dispatch.\<close>

definition request_ok :: "zhs_limits \<Rightarrow> zcio_http_req \<Rightarrow> bool" where
  "request_ok lim q \<longleftrightarrow> line_ok q \<and> host_ok q \<and> hdrs_wf lim (rq_headers q) \<and>
     length (ZHS_PTR (rq_body q)) \<le> max_body_bytes lim \<and>
     (cl_ok (rq_headers q) (length (ZHS_PTR (rq_body q))) \<or> te_ok (rq_headers q))"

lemma h1_new_wf: "zh1_new alloc lim flags out = Some c \<Longrightarrow> h1_wf c"
  by (auto simp: zh1_new_def h1_wf_def h1_st_ok_def zhs_req_zero_def hdrs_wf_zero zb_wf_def zhs_buf_zero_def
      body_len_def split: if_splits)

lemma reset_next_wf: "h1_wf (h1_reset_next c)"
  by (simp add: h1_reset_next_def zhs_req_reset_def h1_wf_def h1_st_ok_def zhs_req_zero_def hdrs_wf_zero
      zb_wf_def zhs_buf_zero_def body_len_def)

text \<open>What an error or a redirect changes of a connection.\<close>

lemma error_keeps:
  assumes "h1_error env c s = (p, c')"
  shows "\<exists>o1. c' = c\<lparr>h1_out := o1\<rparr> \<and> p = P_HARD ZCIO_ERR_NOMEM \<or>
    c' = c\<lparr>h1_out := o1, h1_close_after := True, h1_st := H1_DEAD\<rparr> \<and> p = P_CLOSE"
  using assms by (auto simp: h1_error_def h1_emit_simple_def Let_def split: prod.splits if_splits)

lemma redirect_keeps:
  assumes "h1_redirect env c = (p, c')"
  shows "\<exists>o1. c' = c\<lparr>h1_out := o1\<rparr> \<and> p = P_HARD ZCIO_ERR_NOMEM \<or>
    c' = c\<lparr>h1_out := o1, h1_close_after := True, h1_st := H1_DEAD\<rparr> \<and> p = P_CLOSE"
  using assms
  by (auto simp: h1_redirect_def Let_def split: prod.splits if_splits dest: error_keeps)

lemma h1_wf_out [simp]:
  "h1_wf (c\<lparr>h1_out := o1\<rparr>) = h1_wf c" "h1_wf (c\<lparr>h1_close_after := b\<rparr>) = h1_wf c"
  "h1_wf (c\<lparr>h1_receiving := b\<rparr>) = h1_wf c" "h1_wf (c\<lparr>h1_is_http10 := b\<rparr>) = h1_wf c"
  "h1_wf (c\<lparr>h1_keep_alive := b\<rparr>) = h1_wf c"
  by (simp_all add: h1_wf_def h1_st_ok_def body_len_def)

lemma h1_wf_dead: "h1_wf c \<Longrightarrow> h1_wf (c\<lparr>h1_st := H1_DEAD\<rparr>)"
  by (simp add: h1_wf_def h1_st_ok_def body_len_def)

lemma h1_wf_head_bytes: "h1_wf c \<Longrightarrow> n \<le> max_header_bytes (h1_lim c) \<Longrightarrow> h1_wf (c\<lparr>h1_head_bytes := n\<rparr>)"
  by (simp add: h1_wf_def h1_st_ok_def body_len_def)

lemma error_wf:
  assumes "h1_wf c" "\<exists>o1. c' = c\<lparr>h1_out := o1\<rparr> \<and> p = P_HARD ZCIO_ERR_NOMEM \<or>
    c' = c\<lparr>h1_out := o1, h1_close_after := True, h1_st := H1_DEAD\<rparr> \<and> p = P_CLOSE"
  shows "h1_wf c' \<and> h1_lim c' = h1_lim c \<and> p \<noteq> P_COMPLETE"
proof -
  have "h1_wf (c\<lparr>h1_out := o1, h1_close_after := True, h1_st := H1_DEAD\<rparr>)" for o1
    by (rule h1_wf_dead) (simp add: assms(1))
  with assms show ?thesis by auto
qed

lemmas h1_error_wf = error_wf [OF _ error_keeps]
lemmas h1_redirect_wf = error_wf [OF _ redirect_keeps]

text \<open>The contract of a stage: the invariant is kept, and a complete request is fit for dispatch.\<close>

definition stage_ok :: "zh1_conn \<Rightarrow> h1_stage \<Rightarrow> zh1_conn \<Rightarrow> bool" where
  "stage_ok c p c' \<longleftrightarrow> h1_wf c' \<and> h1_lim c' = h1_lim c \<and>
     (p = P_COMPLETE \<longrightarrow> request_ok (h1_lim c) (h1_req c'))"

lemma h1_error_ok: "h1_wf c1 \<Longrightarrow> h1_lim c1 = h1_lim c \<Longrightarrow> h1_error env c1 s = (p, c') \<Longrightarrow> stage_ok c p c'"
  using h1_error_wf [of c1 env s p c'] by (auto simp: stage_ok_def)

lemma wf_body_len: "h1_wf c \<Longrightarrow> length (ZHS_PTR (rq_body (h1_req c))) = body_len c"
  by (simp add: h1_wf_def ZHS_PTR_def body_len_def)


subsection \<open>Every stage keeps the invariant\<close>

lemma more_ok: "h1_wf c' \<Longrightarrow> h1_lim c' = h1_lim c \<Longrightarrow> p \<noteq> P_COMPLETE \<Longrightarrow> stage_ok c p c'"
  by (simp add: stage_ok_def)

lemma head_budget:
  "h1_wf c \<Longrightarrow> \<not> szsub (max_header_bytes (h1_lim c)) (h1_head_bytes c) < n \<Longrightarrow>
   h1_head_bytes c + n \<le> max_header_bytes (h1_lim c)"
  by (auto simp: h1_wf_def szsub_def split: if_splits)

lemma reqline_next_wf:
  assumes "h1_wf c" "h1_st c = H1_REQLINE" "zhs_token_ok (Some m)" "path_safe path"
  shows "h1_wf (c\<lparr>h1_req := (h1_req c)\<lparr>rq_method := Some m, rq_is_head := b, rq_path := Some path,
      rq_query := query, rq_version := 1\<rparr>, h1_st := H1_HEADERS\<rparr>)"
  using assms by (simp add: h1_wf_def h1_st_ok_def body_len_def line_ok_def)

lemma method_wf:
  "h1_wf c \<Longrightarrow> h1_st c = H1_REQLINE \<Longrightarrow> h1_wf (c\<lparr>h1_req := (h1_req c)\<lparr>rq_method := m, rq_is_head := b\<rparr>\<rparr>)"
  by (simp add: h1_wf_def h1_st_ok_def body_len_def)

lemma target_safe:
  "(\<And>n. length (junk n) = n) \<Longrightarrow> zhs_decode_target alloc junk (Some t) lim = Inr (path, query) \<Longrightarrow> path_safe path"
  using decode_target_confined [of junk alloc t lim path query] by (auto simp: path_safe_def)

lemma take_target_ok:
  assumes "h1_wf c" "h1_st c = H1_REQLINE" "\<And>n. length (he_junk env n) = n" "zhs_token_ok (Some meth)"
    and "h1_take_target env c meth target = (p, c')"
  shows "stage_ok c p c'"
proof -
  let ?c1 = "c\<lparr>h1_req := (h1_req c)\<lparr>rq_method := Some meth, rq_is_head := (meth = asc ''HEAD'')\<rparr>\<rparr>"
  note r = assms(5) [unfolded h1_take_target_def]
  show ?thesis
  proof (cases "length target > max_url_bytes (h1_lim c)")
    case True
    with r assms(1) show ?thesis by (auto intro: h1_error_ok)
  next
    case fits: False
    show ?thesis
    proof (cases "he_alloc env (length meth + 1)")
      case False
      with r fits assms(1) show ?thesis by (auto intro: more_ok)
    next
      case True
      show ?thesis
      proof (cases "zhs_decode_target (he_alloc env) (he_junk env) (Some target) (h1_lim c)")
        case (Inl e)
        with r fits True have "h1_error env ?c1 400 = (p, c')" by (simp add: Let_def)
        with method_wf [OF assms(1,2)] show ?thesis by (intro h1_error_ok [of ?c1]) auto
      next
        case (Inr a)
        obtain path query where a: "a = (path, query)" by fastforce
        with r fits True Inr have "p = P_NEXT"
          "c' = c\<lparr>h1_req := (h1_req c)\<lparr>rq_method := Some meth, rq_is_head := (meth = asc ''HEAD''),
             rq_path := Some path, rq_query := query, rq_version := 1\<rparr>, h1_st := H1_HEADERS\<rparr>"
          by (auto simp: Let_def)
        with reqline_next_wf [OF assms(1,2,4) target_safe [OF assms(3) Inr [unfolded a]],
            where b = "meth = asc ''HEAD''" and query = query]
        show ?thesis by (intro more_ok) simp_all
      qed
    qed
  qed
qed

lemma request_line_ok:
  assumes "h1_wf c" "h1_st c = H1_REQLINE" "\<And>n. length (he_junk env n) = n"
    and "h1_request_line env c line = (p, c')"
  shows "stage_ok c p c'"
proof -
  consider (err) s where "h1_error env c s = (p, c')"
    | (go) b meth target where "zhs_token_ok (Some meth)" "h1_take_target env (c\<lparr>h1_is_http10 := b\<rparr>) meth target = (p, c')"
    using assms(4) by (auto simp: h1_request_line_def split: if_splits option.splits prod.splits sum.splits)
  then show ?thesis
  proof cases
    case err
    with assms(1) show ?thesis by (auto intro: h1_error_ok)
  next
    case go
    from take_target_ok [OF _ _ assms(3) go] assms(1,2) show ?thesis by (simp add: stage_ok_def)
  qed
qed

lemma reqline_ok:
  assumes "h1_wf c" "h1_st c = H1_REQLINE" "\<And>n. length (he_junk env n) = n"
    and "h1_reqline env c inp = (p, c', inp')"
  shows "stage_ok c p c'"
proof -
  define c0 where "c0 = (if h1_avail inp > 0 then c\<lparr>h1_receiving := True\<rparr> else c)"
  have c0: "h1_wf c0" "h1_lim c0 = h1_lim c" "h1_st c0 = H1_REQLINE" using assms(1,2) by (simp_all add: c0_def)
  note r = assms(4) [unfolded h1_reqline_def, folded c0_def]
  consider (err) s where "h1_error env c0 s = (p, c')" | (more) "p = P_MORE" "c' = c0"
    | (go) line n where "\<not> n > szsub (max_header_bytes (h1_lim c0)) (h1_head_bytes c0)"
        "h1_request_line env (c0\<lparr>h1_head_bytes := h1_head_bytes c0 + n\<rparr>) line = (p, c')"
    using r by (auto simp: Let_def split: if_splits prod.splits h1_line.splits)
  then show ?thesis
  proof cases
    case err
    with c0 show ?thesis by (auto intro: h1_error_ok)
  next
    case more
    with c0 show ?thesis by (auto intro: more_ok)
  next
    case go
    have "h1_wf (c0\<lparr>h1_head_bytes := h1_head_bytes c0 + n\<rparr>)"
      using c0(1) head_budget [OF c0(1) go(1)] by (rule h1_wf_head_bytes)
    from request_line_ok [OF this _ assms(3) go(2)] c0 show ?thesis by (simp add: stage_ok_def)
  qed
qed

lemma hdrs_add_stage_wf:
  assumes "h1_wf c" "h1_st c = H1_HEADERS" "zhs_hdrs_add alloc (rq_headers (h1_req c)) n v (h1_lim c) b = (a, h)"
  shows "h1_wf (c\<lparr>h1_req := (h1_req c)\<lparr>rq_headers := h\<rparr>\<rparr>)"
  using assms hdrs_add_wf [OF _ assms(3)] by (simp add: h1_wf_def h1_st_ok_def body_len_def line_ok_def)

lemma header_line_ok:
  assumes "h1_wf c" "h1_st c = H1_HEADERS" "h1_header_line env c line = (q, c')"
  shows "(case q of None \<Rightarrow> h1_wf c' \<and> h1_st c' = H1_HEADERS \<and> h1_lim c' = h1_lim c | Some p \<Rightarrow> stage_ok c p c')"
proof -
  let ?nlen = "length (takeWhile (\<lambda>b. b \<noteq> 0x3A) line)"
  let ?v = "rtrim_ows (dropWhile is_ows (drop (?nlen + 1) line))"
  obtain a h where ah: "zhs_hdrs_add (he_alloc env) (rq_headers (h1_req c)) (take ?nlen line) ?v (h1_lim c) True = (a, h)"
    by fastforce
  let ?c1 = "c\<lparr>h1_req := (h1_req c)\<lparr>rq_headers := h\<rparr>\<rparr>"
  have c1: "h1_wf ?c1" using hdrs_add_stage_wf [OF assms(1,2) ah] .
  consider p s where "q = Some p" "h1_error env c s = (p, c')" | p s where "q = Some p" "h1_error env ?c1 s = (p, c')"
    | "q = Some (P_HARD a)" "c' = ?c1" | "q = None" "c' = ?c1"
    using assms(3) ah by (auto simp: h1_header_line_def Let_def split: if_splits prod.splits)
  then show ?thesis
  proof cases
    case 1
    with assms(1) show ?thesis by (auto intro: h1_error_ok)
  next
    case 2
    with c1 show ?thesis by (auto intro: h1_error_ok [of ?c1])
  qed (use c1 assms(2) in \<open>auto intro: more_ok\<close>)
qed


text \<open>The contract of a step inside a stage: \<open>None\<close> goes on in the state \<open>st\<close>.\<close>

definition step_ok :: "h1_state set \<Rightarrow> zh1_conn \<Rightarrow> h1_stage option \<Rightarrow> zh1_conn \<Rightarrow> bool" where
  "step_ok S c q c' \<longleftrightarrow> (case q of
      None \<Rightarrow> h1_wf c' \<and> h1_st c' \<in> S \<and> h1_lim c' = h1_lim c
    | Some p \<Rightarrow> stage_ok c p c')"

lemma step_ok_simps [simp]:
  "step_ok S c None c' \<longleftrightarrow> h1_wf c' \<and> h1_st c' \<in> S \<and> h1_lim c' = h1_lim c"
  "step_ok S c (Some p) c' \<longleftrightarrow> stage_ok c p c'"
  by (simp_all add: step_ok_def)

lemma step_ok_trans: "step_ok S c1 q c' \<Longrightarrow> h1_lim c1 = h1_lim c \<Longrightarrow> step_ok S c q c'"
  by (cases q) (simp_all add: stage_ok_def)

lemma h1_error_ok_pair:
  "h1_wf c1 \<Longrightarrow> h1_lim c1 = h1_lim c \<Longrightarrow> stage_ok c (fst (h1_error env c1 s)) (snd (h1_error env c1 s))"
  by (rule h1_error_ok [of c1 c env s]) simp_all

lemma headers_loop_ok:
  "h1_headers_loop env c inp = (q, c', inp') \<Longrightarrow> h1_wf c \<Longrightarrow> h1_st c = H1_HEADERS \<Longrightarrow> step_ok {H1_HEADERS} c q c'"
proof (induction env c inp rule: h1_headers_loop.induct)
  case (1 env c inp)
  note r = 1(2) [unfolded h1_headers_loop.simps [of env c inp]]
  show ?case
  proof (cases "h1_find_line inp")
    case (Line line n)
    show ?thesis
    proof (cases "n > szsub (max_header_bytes (h1_lim c)) (h1_head_bytes c)")
      case True
      with Line r 1(3) show ?thesis by (auto simp: Let_def split: prod.splits intro: h1_error_ok)
    next
      case False
      let ?c1 = "c\<lparr>h1_head_bytes := h1_head_bytes c + n\<rparr>"
      have c1: "h1_wf ?c1" "h1_st ?c1 = H1_HEADERS"
        using 1(3,4) head_budget [OF 1(3) False] by (auto intro: h1_wf_head_bytes)
      show ?thesis
      proof (cases "line = []")
        case True
        with Line False r c1 1(4) show ?thesis by (auto simp: Let_def)
      next
        case ne: False
        obtain q1 c2 where hl: "h1_header_line env ?c1 line = (q1, c2)" by fastforce
        note hok = header_line_ok [OF c1 hl]
        show ?thesis
        proof (cases q1)
          case None
          with Line False ne hl r have "h1_headers_loop env c2 (zhs_buf_consume inp n) = (q, c', inp')"
            by (simp add: Let_def)
          with 1(1) [OF refl refl Line False refl refl ne hl [symmetric] None] hok None
          have st: "step_ok {H1_HEADERS} c2 q c'" by simp
          have "h1_lim c2 = h1_lim c" using hok None by simp
          with st show ?thesis by (rule step_ok_trans)
        next
          case (Some p)
          with Line False ne hl r have "q = Some p" "c' = c2" by (simp_all add: Let_def)
          with hok Some show ?thesis by (simp add: stage_ok_def)
        qed
      qed
    qed
  next
    case LineNone
    with r 1(3) show ?thesis
      by (cases "h1_avail inp > max_header_bytes (h1_lim c)") (auto simp: Let_def case_prod_beta h1_error_ok_pair more_ok)
  next
    case LineBad
    with r 1(3) show ?thesis by (auto simp: Let_def case_prod_beta h1_error_ok_pair)
  qed
qed

lemma wf_authority: "h1_wf c \<Longrightarrow> h1_wf (c\<lparr>h1_req := (h1_req c)\<lparr>rq_authority := a\<rparr>\<rparr>)"
  by (simp add: h1_wf_def h1_st_ok_def body_len_def line_ok_def host_ok_def)

lemma host_step_ok:
  assumes "h1_wf c" "h1_st c = H1_HEADERS" "h1_host env c = (q, c')"
  shows "step_ok {H1_HEADERS} c q c' \<and> (q = None \<longrightarrow> host_ok (h1_req c'))"
proof -
  let ?h = "rq_headers (h1_req c)"
  let ?n = "zhs_hdrs_count ?h (asc ''host'')" and ?a = "strip_userinfo (the (zhs_hdrs_get ?h (asc ''host'')))"
  note r = assms(3) [unfolded h1_host_def]
  consider (bad) "\<not> h1_is_http10 c \<and> ?n \<noteq> 1 \<or> h1_is_http10 c \<and> ?n > 1"
    | (none) "?n = 0" "h1_is_http10 c" | (one) "?n = 1" by linarith
  then show ?thesis
  proof cases
    case bad
    obtain p c1 where e: "h1_error env c 400 = (p, c1)" by fastforce
    with bad r have "q = Some p" "c' = c1" by (auto simp: Let_def)
    with h1_error_ok [OF assms(1) refl e] show ?thesis by simp
  next
    case none
    with r assms(1,2) show ?thesis by (simp add: Let_def host_ok_def)
  next
    case one
    show ?thesis
    proof (cases "he_alloc env (length ?a + 1)")
      case True
      with one r have "q = None" "c' = c\<lparr>h1_req := (h1_req c)\<lparr>rq_authority := Some ?a\<rparr>\<rparr>" by (auto simp: Let_def)
      with one wf_authority [OF assms(1)] assms(2) show ?thesis by (simp add: host_ok_def)
    next
      case False
      with one r have "q = Some (P_HARD ZCIO_ERR_NOMEM)" "c' = c" by (auto simp: Let_def)
      with assms(1) show ?thesis by (simp add: more_ok)
    qed
  qed
qed

lemma framing_chunk_wf:
  assumes "h1_wf c" "h1_st c = H1_HEADERS" "host_ok (h1_req c)" "te_ok (rq_headers (h1_req c))"
  shows "h1_wf (c\<lparr>h1_head_bytes := 0, h1_chunked := True, h1_chunk_remaining := 0, h1_st := H1_CHUNK_SIZE\<rparr>)"
  using assms by (simp add: h1_wf_def h1_st_ok_def body_len_def)

lemma framing_cl_wf:
  assumes "h1_wf c" "h1_st c = H1_HEADERS" "host_ok (h1_req c)" "cl_ok (rq_headers (h1_req c)) (unat n)"
    and "unat n \<le> max_body_bytes (h1_lim c)"
  shows "h1_wf (c\<lparr>h1_head_bytes := 0, h1_cl_remaining := n, h1_st := H1_BODY_CL\<rparr>)"
  using assms by (simp add: h1_wf_def h1_st_ok_def body_len_def)

lemma frame_length_ok:
  assumes "h1_frame_content_length c = Inr n" "zhs_hdrs_get (rq_headers (h1_req c)) (asc ''transfer-encoding'') = None"
  shows "cl_ok (rq_headers (h1_req c)) (unat n) \<and> unat n \<le> max_body_bytes (h1_lim c)"
proof -
  obtain v where v: "cl_values (rq_headers (h1_req c)) = [v]" "v \<noteq> []" "cl_digits v 0 = Inr n"
      "unat n \<le> max_body_bytes (h1_lim c)"
    using assms(1) by (auto simp: h1_frame_content_length_def split: list.splits sum.splits if_splits)
  with cl_digits_sound [OF v(3)] assms(2) show ?thesis by (simp add: cl_ok_def dec_value_def)
qed

definition body_states :: "h1_state set" where
  "body_states = {H1_BODY_CL, H1_CHUNK_SIZE, H1_CHUNK_DATA, H1_CHUNK_CRLF, H1_TRAILER}"

lemma framing_ok:
  assumes "h1_wf c" "h1_st c = H1_HEADERS" "host_ok (h1_req c)" "h1_framing env c = (q, c')"
  shows "step_ok body_states c q c'"
proof -
  let ?h = "rq_headers (h1_req c)" and ?c1 = "c\<lparr>h1_head_bytes := 0\<rparr>"
  let ?te = "zhs_hdrs_get ?h (asc ''transfer-encoding'')" and ?clc = "zhs_hdrs_count ?h (asc ''content-length'')"
  note r = assms(4) [unfolded h1_framing_def]
  have c1: "h1_wf ?c1" using assms(1) by (intro h1_wf_head_bytes) auto
  have lim: "h1_frame_content_length ?c1 = h1_frame_content_length c" 
    by (simp add: h1_frame_content_length_def split: list.splits sum.splits)
  show ?thesis
  proof (cases ?te)
    case (Some t)
    show ?thesis
    proof (cases "?clc \<noteq> 0 \<or> h1_is_http10 c \<or> zhs_hdrs_count ?h (asc ''transfer-encoding'') \<noteq> 1 \<or> \<not> h1_ci_eq t (asc ''chunked'')")
      case True
      have "stage_ok c (fst (h1_error env ?c1 501)) (snd (h1_error env ?c1 501))"
        using c1 by (rule h1_error_ok_pair) simp
      with r Some assms(1) True show ?thesis
        by (auto simp: Let_def case_prod_beta h1_error_ok_pair split: if_splits)
    next
      case False
      then have "te_ok ?h" using Some cl_count [of ?h] by (simp add: te_ok_def)
      with framing_chunk_wf [OF assms(1-3)] r Some False show ?thesis by (auto simp: Let_def body_states_def)
    qed
  next
    case None
    show ?thesis
    proof (cases "?clc = 0")
      case True
      then have "cl_ok ?h 0" using None cl_count [of ?h] by (simp add: cl_ok_def)
      with framing_cl_wf [OF assms(1-3), of 0] r None True show ?thesis by (auto simp: Let_def body_states_def)
    next
      case False
      show ?thesis
      proof (cases "h1_frame_content_length c")
        case (Inl e)
        have "stage_ok c (fst (h1_error env ?c1 e)) (snd (h1_error env ?c1 e))"
          using c1 by (rule h1_error_ok_pair) simp
        with r None False lim Inl show ?thesis by (auto simp: Let_def case_prod_beta)
      next
        case (Inr n)
        with frame_length_ok [OF Inr None] framing_cl_wf [OF assms(1-3), of n] r None False lim show ?thesis
          by (auto simp: Let_def body_states_def)
      qed
    qed
  qed
qed

lemma headers_ok:
  assumes "h1_wf c" "h1_st c = H1_HEADERS" "h1_headers env c inp = (p, c', inp')"
  shows "stage_ok c p c'"
proof -
  obtain q c1 inp1 where hl: "h1_headers_loop env c inp = (q, c1, inp1)" using prod_cases3 by blast
  note lo = headers_loop_ok [OF hl assms(1,2)]
  show ?thesis
  proof (cases q)
    case (Some p1)
    with hl lo assms(3) show ?thesis by (auto simp: h1_headers_def)
  next
    case None
    then have c1: "h1_wf c1" "h1_st c1 = H1_HEADERS" "h1_lim c1 = h1_lim c" using lo by auto
    obtain q2 c2 where ho: "h1_host env c1 = (q2, c2)" by fastforce
    note hok = host_step_ok [OF c1(1,2) ho]
    show ?thesis
    proof (cases q2)
      case (Some p2)
      with None hl ho hok c1(3) assms(3) show ?thesis by (auto simp: h1_headers_def stage_ok_def)
    next
      case none2: None
      then have c2: "h1_wf c2" "h1_st c2 = H1_HEADERS" "h1_lim c2 = h1_lim c" "host_ok (h1_req c2)" using hok c1 by auto
      show ?thesis
      proof (cases "h1_flags c2 AND ZH1_F_REDIRECT \<noteq> 0")
        case True
        then obtain c3 where "h1_redirect env c2 = (p, c3)" "c' = c3"
          using None none2 hl ho assms(3) by (auto simp: h1_headers_def split: prod.splits)
        with h1_redirect_wf [OF c2(1)] c2(3) show ?thesis by (auto simp: stage_ok_def)
      next
        case False
        obtain q3 c3 where fr: "h1_framing env c2 = (q3, c3)" by fastforce
        note fok = framing_ok [OF c2(1,2,4) fr]
        have "h1_wf (h1_keep_alive_intent c3) = h1_wf c3" "h1_lim (h1_keep_alive_intent c3) = h1_lim c3"
          by (simp_all add: h1_keep_alive_intent_def Let_def)
        with fok False None none2 hl ho fr c2(3) assms(3) show ?thesis
          by (cases q3) (auto simp: h1_headers_def stage_ok_def)
      qed
    qed
  qed
qed


lemma append_data:
  assumes "zb_wf b" "zhs_buf_append alloc b s = (r, b')"
  shows "zb_wf b' \<and> zb_off b' = zb_off b \<and> zb_data b' = (if r = ZCIO_OK then zb_data b @ s else zb_data b)"
proof -
  have "zb_wf b'" using append_ok [OF assms] by simp
  moreover have "zb_off b' = zb_off b \<and> zb_data b' = (if r = ZCIO_OK then zb_data b @ s else zb_data b)"
    using assms(2) reserve_wf [OF assms(1)]
    by (auto simp: zhs_buf_append_def split: if_splits prod.splits)
  ultimately show ?thesis by simp
qed

text \<open>Moving \<open>tk\<close> bytes of a pending length \<open>rem\<close> into the body.\<close>

lemma take_chunk:
  fixes rem :: u64
  assumes "tk = (if avail < unat rem then avail else unat rem)"
  shows "tk \<le> unat rem" "tk \<le> avail" "unat (rem - of_nat tk) = unat rem - tk"
proof -
  show le: "tk \<le> unat rem" "tk \<le> avail" using assms by auto
  have "tk < 2 ^ 64" using le(1) unsigned_less [of rem, where ?'a = nat] by simp
  then have "unat (of_nat tk :: u64) = tk" by (simp add: unat_of_nat)
  with le(1) show "unat (rem - of_nat tk) = unat rem - tk" by (simp add: unat_sub word_le_nat_alt)
qed

text \<open>A connection whose body has \<open>tk\<close> more bytes, or none when the append failed.\<close>

lemma append_body_ok:
  assumes "h1_wf c" "h1_append_body env c s = (ok, c1)" "body_len c + length s \<le> max_body_bytes (h1_lim c)"
  obtains b where "c1 = c\<lparr>h1_req := (h1_req c)\<lparr>rq_body := b\<rparr>\<rparr>" "zb_wf b" "zb_off b = 0"
    "length (zb_data b) = body_len c + (if ok then length s else 0)"
proof -
  obtain r b where ap: "zhs_buf_append (he_alloc env) (rq_body (h1_req c)) s = (r, b)" by fastforce
  with assms(2) have "ok = (r = ZCIO_OK)" "c1 = c\<lparr>h1_req := (h1_req c)\<lparr>rq_body := b\<rparr>\<rparr>"
    by (auto simp: h1_append_body_def)
  moreover from append_data [OF _ ap] assms(1) have "zb_wf b" "zb_off b = 0"
      "zb_data b = (if r = ZCIO_OK then zb_data (rq_body (h1_req c)) @ s else zb_data (rq_body (h1_req c)))"
    by (auto simp: h1_wf_def)
  ultimately show ?thesis using that by (auto simp: body_len_def)
qed

lemma body_failed_wf:
  assumes "h1_wf c" "zb_wf b" "zb_off b = 0" "length (zb_data b) = body_len c"
  shows "h1_wf (c\<lparr>h1_req := (h1_req c)\<lparr>rq_body := b\<rparr>\<rparr>)"
  using assms by (auto simp: h1_wf_def h1_st_ok_def body_len_def line_ok_def host_ok_def)

lemma body_cl_wf:
  assumes "h1_wf c" "h1_st c = H1_BODY_CL" "zb_wf b" "zb_off b = 0" "length (zb_data b) + unat n = body_len c + unat (h1_cl_remaining c)"
  shows "h1_wf (c\<lparr>h1_req := (h1_req c)\<lparr>rq_body := b\<rparr>, h1_cl_remaining := n\<rparr>)"
  using assms by (auto simp: h1_wf_def h1_st_ok_def body_len_def line_ok_def host_ok_def)

lemma cl_complete:
  assumes "h1_wf c" "h1_st c = H1_BODY_CL" "h1_cl_remaining c = 0"
  shows "request_ok (h1_lim c) (h1_req c)"
  using assms wf_body_len [OF assms(1)] by (auto simp: request_ok_def h1_wf_def h1_st_ok_def)

lemma body_cl_ok:
  assumes "h1_wf c" "h1_st c = H1_BODY_CL" "h1_body_cl env c inp = (p, c', inp')"
  shows "stage_ok c p c'"
proof -
  note r = assms(3) [unfolded h1_body_cl_def]
  let ?tk = "if h1_avail inp < unat (h1_cl_remaining c) then h1_avail inp else unat (h1_cl_remaining c)"
  consider (zero) "h1_cl_remaining c = 0" | (more) "h1_cl_remaining c \<noteq> 0" "h1_avail inp = 0"
    | (take) "h1_cl_remaining c \<noteq> 0" "h1_avail inp \<noteq> 0" by blast
  then show ?thesis
  proof cases
    case zero
    with r assms cl_complete show ?thesis by (auto simp: stage_ok_def)
  next
    case more
    with r assms(1) show ?thesis by (auto intro: more_ok)
  next
    case take
    note tk = take_chunk [of ?tk "h1_avail inp" "h1_cl_remaining c", OF refl]
    have len: "length (take ?tk (ZHS_PTR inp)) = ?tk" using tk(2) by (simp add: h1_avail_def)
    obtain ok c1 where ap: "h1_append_body env c (take ?tk (ZHS_PTR inp)) = (ok, c1)" by fastforce
    have total_le: "body_len c + unat (h1_cl_remaining c) \<le> max_body_bytes (h1_lim c)"
      using assms(1,2) by (simp add: h1_wf_def h1_st_ok_def)
    then have "body_len c + length (take ?tk (ZHS_PTR inp)) \<le> max_body_bytes (h1_lim c)"
      unfolding len using tk(1) by linarith
    from append_body_ok [OF assms(1) ap this] obtain b where
      b: "c1 = c\<lparr>h1_req := (h1_req c)\<lparr>rq_body := b\<rparr>\<rparr>" "zb_wf b" "zb_off b = 0"
        "length (zb_data b) = body_len c + (if ok then ?tk else 0)" unfolding len by blast
    show ?thesis
    proof (cases ok)
      case False
      with take ap r have "p = P_HARD ZCIO_ERR_NOMEM" "c' = c1" by (auto simp: Let_def)
      with b False body_failed_wf [OF assms(1)] show ?thesis by (intro more_ok) auto
    next
      case True
      let ?c2 = "c\<lparr>h1_req := (h1_req c)\<lparr>rq_body := b\<rparr>, h1_cl_remaining := h1_cl_remaining c - of_nat ?tk\<rparr>"
      have c2: "h1_wf ?c2" "h1_st ?c2 = H1_BODY_CL"
        using b tk True by (auto intro!: body_cl_wf [OF assms(1,2)] simp: assms(2))
      from take ap r True b(1) have "c' = ?c2" "p = (if h1_cl_remaining ?c2 = 0 then P_COMPLETE else P_MORE)"
        by (auto simp: Let_def)
      with c2 cl_complete [OF c2] show ?thesis by (auto simp: stage_ok_def)
    qed
  qed
qed


definition chunk_states :: "h1_state set" where
  "chunk_states = {H1_CHUNK_SIZE, H1_CHUNK_DATA, H1_CHUNK_CRLF, H1_TRAILER}"

lemma chunk_move_wf:
  assumes "h1_wf c" "h1_st c \<in> chunk_states" "s \<in> chunk_states - {H1_CHUNK_DATA}"
  shows "h1_wf (c\<lparr>h1_st := s\<rparr>)"
proof -
  have st: "h1_st_ok c" using assms(1) by (simp add: h1_wf_def)
  have "h1_st c \<notin> {H1_REQLINE, H1_HEADERS, H1_DEAD}" using assms(2) by (auto simp: chunk_states_def)
  with st assms(2) have "line_ok (h1_req c)" "host_ok (h1_req c)" "te_ok (rq_headers (h1_req c))"
    unfolding h1_st_ok_def chunk_states_def by blast+
  moreover have "s \<notin> {H1_REQLINE, H1_HEADERS, H1_BODY_CL, H1_CHUNK_DATA}"
    using assms(3) by (auto simp: chunk_states_def)
  ultimately show ?thesis using assms(1) by (simp add: h1_wf_def h1_st_ok_def body_len_def)
qed

lemma chunk_start_wf:
  assumes "h1_wf c" "h1_st c = H1_CHUNK_SIZE"
    and "\<not> unat sz > szsub (max_body_bytes (h1_lim c)) (length (zb_data (rq_body (h1_req c))))"
  shows "h1_wf (c\<lparr>h1_chunk_remaining := sz, h1_st := H1_CHUNK_DATA\<rparr>)"
  using assms by (auto simp: h1_wf_def h1_st_ok_def body_len_def szsub_def)

lemma chunk_size_ok:
  assumes "h1_wf c" "h1_st c = H1_CHUNK_SIZE" "h1_chunk_size env c line = (q, c')"
  shows "step_ok chunk_states c q c'"
proof -
  note r = assms(3) [unfolded h1_chunk_size_def]
  have err: "stage_ok c (fst (h1_error env c s)) (snd (h1_error env c s))" for s
    using assms(1) by (rule h1_error_ok_pair) simp
  have trailer: "h1_wf (c\<lparr>h1_st := H1_TRAILER\<rparr>)"
    using assms by (intro chunk_move_wf) (auto simp: chunk_states_def)
  show ?thesis
  proof (cases "chunk_size_digits line 0 False")
    case None
    with r err show ?thesis by (auto simp: Let_def case_prod_beta split: if_splits)
  next
    case (Some a)
    obtain sz any rest where a: "a = (sz, any, rest)" using prod_cases3 by blast
    show ?thesis
    proof (cases "unat sz > szsub (max_body_bytes (h1_lim c)) (length (zb_data (rq_body (h1_req c))))")
      case True
      with r err trailer Some a show ?thesis
        by (auto simp: Let_def case_prod_beta chunk_states_def split: if_splits)
    next
      case False
      with r err trailer Some a chunk_start_wf [OF assms(1,2) False] show ?thesis
        by (auto simp: Let_def case_prod_beta chunk_states_def split: if_splits)
    qed
  qed
qed

lemma chunk_data_wf:
  assumes "h1_wf c" "h1_st c = H1_CHUNK_DATA" "zb_wf b" "zb_off b = 0"
    and "length (zb_data b) + unat n = body_len c + unat (h1_chunk_remaining c)"
  shows "h1_wf (c\<lparr>h1_req := (h1_req c)\<lparr>rq_body := b\<rparr>, h1_chunk_remaining := n\<rparr>)"
  using assms by (auto simp: h1_wf_def h1_st_ok_def body_len_def line_ok_def host_ok_def)

lemma chunk_complete:
  assumes "h1_wf c" "h1_st c = H1_TRAILER"
  shows "request_ok (h1_lim c) (h1_req c)"
  using assms wf_body_len [OF assms(1)] by (auto simp: request_ok_def h1_wf_def h1_st_ok_def)

lemma chunk_data_ok:
  assumes "h1_wf c" "h1_st c = H1_CHUNK_DATA" "h1_chunk_turn env c inp = (q, c', inp')"
  shows "step_ok chunk_states c q c'"
proof -
  note r = assms(3) [unfolded h1_chunk_turn_def]
  let ?tk = "if h1_avail inp < unat (h1_chunk_remaining c) then h1_avail inp else unat (h1_chunk_remaining c)"
  have move: "h1_wf c1 \<Longrightarrow> h1_st c1 = H1_CHUNK_DATA \<Longrightarrow> h1_wf (c1\<lparr>h1_st := H1_CHUNK_CRLF\<rparr>)" for c1
    by (rule chunk_move_wf) (auto simp: chunk_states_def)
  consider (zero) "\<not> h1_chunk_remaining c > 0" | (more) "h1_chunk_remaining c > 0" "h1_avail inp = 0"
    | (take) "h1_chunk_remaining c > 0" "h1_avail inp \<noteq> 0" by blast
  then show ?thesis
  proof cases
    case zero
    with r assms(2) have "q = None" "c' = c\<lparr>h1_st := H1_CHUNK_CRLF\<rparr>" by (auto simp: Let_def)
    with move [OF assms(1,2)] show ?thesis by (simp add: chunk_states_def)
  next
    case more
    with r assms(2) have "q = Some P_MORE" "c' = c" by (auto simp: Let_def)
    with assms(1) show ?thesis by (simp add: more_ok)
  next
    case take
    note tk = take_chunk [of ?tk "h1_avail inp" "h1_chunk_remaining c", OF refl]
    have len: "length (take ?tk (ZHS_PTR inp)) = ?tk" using tk(2) by (simp add: h1_avail_def)
    obtain ok c1 where ap: "h1_append_body env c (take ?tk (ZHS_PTR inp)) = (ok, c1)" by fastforce
    have "body_len c + unat (h1_chunk_remaining c) \<le> max_body_bytes (h1_lim c)"
      using assms(1,2) by (simp add: h1_wf_def h1_st_ok_def)
    then have "body_len c + length (take ?tk (ZHS_PTR inp)) \<le> max_body_bytes (h1_lim c)"
      unfolding len using tk(1) by linarith
    from append_body_ok [OF assms(1) ap this] obtain b where
      b: "c1 = c\<lparr>h1_req := (h1_req c)\<lparr>rq_body := b\<rparr>\<rparr>" "zb_wf b" "zb_off b = 0"
        "length (zb_data b) = body_len c + (if ok then ?tk else 0)" unfolding len by blast
    show ?thesis
    proof (cases ok)
      case False
      with take ap r assms(2) have "q = Some (P_HARD ZCIO_ERR_NOMEM)" "c' = c1" by (auto simp: Let_def)
      with b False body_failed_wf [OF assms(1)] show ?thesis by (simp add: more_ok)
    next
      case True
      define c2 where
        "c2 = c\<lparr>h1_req := (h1_req c)\<lparr>rq_body := b\<rparr>, h1_chunk_remaining := h1_chunk_remaining c - of_nat ?tk\<rparr>"
      have c2: "h1_wf c2" "h1_st c2 = H1_CHUNK_DATA" "h1_lim c2 = h1_lim c"
        unfolding c2_def using b tk True by (auto intro!: chunk_data_wf [OF assms(1,2)] simp: assms(2))
      have "q = Some P_MORE \<and> c' = c2 \<or> q = None \<and> c' = c2\<lparr>h1_st := H1_CHUNK_CRLF\<rparr>"
        using take ap r True b(1) assms(2) unfolding c2_def by (simp add: Let_def split: if_splits)
      with c2 move [OF c2(1,2)] show ?thesis by (auto simp: chunk_states_def more_ok)
    qed
  qed
qed

lemma chunk_turn_ok:
  assumes "h1_wf c" "h1_st c \<in> chunk_states" "h1_chunk_turn env c inp = (q, c', inp')"
  shows "step_ok chunk_states c q c'"
proof -
  have err: "stage_ok c (fst (h1_error env c s)) (snd (h1_error env c s))" for s
    using assms(1) by (rule h1_error_ok_pair) simp
  note r = assms(3) [unfolded h1_chunk_turn_def]
  consider (sz) "h1_st c = H1_CHUNK_SIZE" | (data) "h1_st c = H1_CHUNK_DATA" | (crlf) "h1_st c = H1_CHUNK_CRLF"
    | (trailer) "h1_st c = H1_TRAILER" using assms(2) by (auto simp: chunk_states_def)
  then show ?thesis
  proof cases
    case sz
    show ?thesis
    proof (cases "h1_find_line inp")
      case (Line line n)
      with sz r have "h1_chunk_size env c line = (q, c')" by (auto simp: Let_def case_prod_beta)
      with chunk_size_ok [OF assms(1) sz] show ?thesis by blast
    qed (use sz r err assms(1) in \<open>auto simp: Let_def case_prod_beta more_ok split: if_splits\<close>)
  next
    case data
    with assms show ?thesis by (intro chunk_data_ok)
  next
    case crlf
    have "h1_wf (c\<lparr>h1_st := H1_CHUNK_SIZE\<rparr>)" using assms by (intro chunk_move_wf) (auto simp: chunk_states_def)
    with crlf r err assms(1) show ?thesis
      by (auto simp: Let_def case_prod_beta more_ok chunk_states_def split: if_splits)
  next
    case trailer
    show ?thesis
    proof (cases "h1_find_line inp")
      case (Line line n)
      show ?thesis
      proof (cases "n > szsub (max_header_bytes (h1_lim c)) (h1_head_bytes c)")
        case True
        with Line trailer r err show ?thesis by (auto simp: Let_def case_prod_beta)
      next
        case False
        let ?c1 = "c\<lparr>h1_head_bytes := h1_head_bytes c + n\<rparr>"
        have c1: "h1_wf ?c1" "h1_st ?c1 = H1_TRAILER" "h1_lim ?c1 = h1_lim c"
          using assms(1) head_budget [OF assms(1) False] trailer by (auto intro: h1_wf_head_bytes)
        with Line trailer r False chunk_complete [OF c1(1,2)] show ?thesis
          by (auto simp: Let_def stage_ok_def chunk_states_def split: if_splits)
      qed
    qed (use trailer r err assms(1) in \<open>auto simp: Let_def case_prod_beta more_ok split: if_splits\<close>)
  qed
qed

lemma body_chunk_ok:
  "h1_body_chunk env c inp = (p, c', inp') \<Longrightarrow> h1_wf c \<Longrightarrow> h1_st c \<in> chunk_states \<Longrightarrow> stage_ok c p c'"
proof (induction env c inp rule: h1_body_chunk.induct)
  case (1 env c inp)
  obtain q c1 inp1 where t: "h1_chunk_turn env c inp = (q, c1, inp1)" using prod_cases3 by blast
  note tok = chunk_turn_ok [OF 1(3,4) t]
  show ?case
  proof (cases q)
    case None
    with t 1(2) have "h1_body_chunk env c1 inp1 = (p, c', inp')" by (simp add: h1_body_chunk.simps [of env c inp])
    with 1(1) [OF t [symmetric] None refl] tok None show ?thesis by (simp add: stage_ok_def)
  next
    case (Some p1)
    with t tok 1(2) show ?thesis by (simp add: h1_body_chunk.simps [of env c inp])
  qed
qed

lemma stage_keeps_invariant:
  assumes "h1_wf c" "\<And>n. length (he_junk env n) = n" "h1_stage_of env c inp = Some (p, c', inp')"
  shows "stage_ok c p c'"
proof (cases "h1_st c")
  case H1_REQLINE
  with reqline_ok [OF assms(1) _ assms(2)] assms(3) show ?thesis by (simp add: h1_stage_of_def)
next
  case H1_HEADERS
  with headers_ok [OF assms(1)] assms(3) show ?thesis by (simp add: h1_stage_of_def)
next
  case H1_BODY_CL
  with body_cl_ok [OF assms(1)] assms(3) show ?thesis by (simp add: h1_stage_of_def)
qed (use body_chunk_ok [OF _ assms(1)] assms(3) in \<open>simp_all add: h1_stage_of_def chunk_states_def\<close>)


subsection \<open>Dispatch keeps the invariant\<close>

text \<open>A handler touches nothing of a connection but its output and its wish to close.\<close>

definition same_conn :: "zh1_conn \<Rightarrow> zh1_conn \<Rightarrow> bool" where
  "same_conn c c' \<longleftrightarrow> c'\<lparr>h1_out := zhs_buf_zero, h1_close_after := False\<rparr> =
     c\<lparr>h1_out := zhs_buf_zero, h1_close_after := False\<rparr>"

definition same_req :: "zcio_http_req \<Rightarrow> zcio_http_req \<Rightarrow> bool" where
  "same_req r r' \<longleftrightarrow> r'\<lparr>rq_responded := False\<rparr> = r\<lparr>rq_responded := False\<rparr>"

lemma same_refl [simp]: "same_conn c c" "same_req r r"
  by (simp_all add: same_conn_def same_req_def)

lemma same_trans: "same_conn a b \<Longrightarrow> same_conn b c \<Longrightarrow> same_conn a c" "same_req r s \<Longrightarrow> same_req s t \<Longrightarrow> same_req r t"
  by (simp_all add: same_conn_def same_req_def)

lemma same_conn_eq: "same_conn c c' \<Longrightarrow> c' = c\<lparr>h1_out := h1_out c', h1_close_after := h1_close_after c'\<rparr>"
  by (cases c; cases c') (simp add: same_conn_def)

lemma same_req_eq: "same_req r r' \<Longrightarrow> r' = r\<lparr>rq_responded := rq_responded r'\<rparr>"
  by (cases r; cases r') (simp add: same_req_def)

lemma respond_same: "h1_respond env c r s hs b n = (rc, c') \<Longrightarrow> same_conn c c'"
  by (auto simp: h1_respond_def same_conn_def Let_def split: prod.splits if_splits)

lemma detach_same: "same_conn c (h1_detach c)"
  by (simp add: h1_detach_def same_conn_def)

lemma http_respond_same:
  assumes "zcio_http_respond alloc srv clock (Some (h1_respond env)) c r s hs b n = (rc, c', r')"
  shows "same_conn c c' \<and> same_req r r'"
  using assms respond_same
  by (auto simp: zcio_http_respond_def Let_def same_req_def split: if_splits prod.splits)

lemma handler_steps_same:
  "fold (handler_step alloc srv clock (h1_respond env) h1_detach) calls (c, r, d) = (c', r', d') \<Longrightarrow>
   same_conn c c' \<and> same_req r r'"
proof (induction calls arbitrary: c r d)
  case (Cons call calls)
  obtain c1 r1 d1 where st: "handler_step alloc srv clock (h1_respond env) h1_detach call (c, r, d) = (c1, r1, d1)"
    using prod_cases3 by blast
  have one: "same_conn c c1 \<and> same_req r r1"
  proof (cases call)
    case (HRespond s hs b n)
    obtain rc c2 r2 where p: "zcio_http_respond alloc srv clock (Some (h1_respond env)) c r s hs b n = (rc, c2, r2)"
      using prod_cases3 by blast
    with HRespond st have "c1 = c2" "r1 = r2" by (simp_all add: handler_step_def)
    with http_respond_same [OF p] show ?thesis by simp
  next
    case (HAccept ok)
    with st detach_same [of c] show ?thesis by (auto simp: handler_step_def split: if_splits)
  qed
  from Cons.IH [of c1 r1 d1] Cons.prems st have "same_conn c1 c' \<and> same_req r1 r'" by simp
  with one same_trans(1) [of c c1 c'] same_trans(2) [of r r1 r'] show ?case by blast
qed simp

lemma dispatch_same:
  assumes "zhs_dispatch alloc srv clock (h1_respond env) h1_detach calls c r = (det, c', r')"
  shows "same_conn c c' \<and> same_req r r'"
proof -
  obtain c1 r1 d1 where f: "fold (handler_step alloc srv clock (h1_respond env) h1_detach) calls (c, r, False) = (c1, r1, d1)"
    using prod_cases3 by blast
  note one = handler_steps_same [OF f]
  obtain rc c2 r2 where p: "zcio_http_respond alloc srv clock (Some (h1_respond env)) c1 r1 500 []
      (Some (asc ''Internal Server Error'')) 21 = (rc, c2, r2)" using prod_cases3 by blast
  note two = http_respond_same [OF p]
  have "(c', r') = (c1, r1) \<or> (c', r') = (c2, r2)"
    using assms f p by (auto simp: zhs_dispatch_def split: if_splits)
  then show ?thesis using one two same_trans(1) [of c c1 c2] same_trans(2) [of r r1 r2] by blast
qed

text \<open>The request may change in everything that the invariant does not mention.\<close>

lemma wf_req:
  assumes "h1_wf c" "rq_method q = rq_method (h1_req c)" "rq_path q = rq_path (h1_req c)"
    and "rq_headers q = rq_headers (h1_req c)" "zb_wf (rq_body q)" "zb_off (rq_body q) = 0"
    and "zb_data (rq_body q) = zb_data (rq_body (h1_req c))"
  shows "h1_wf (c\<lparr>h1_req := q\<rparr>)"
  using assms by (simp add: h1_wf_def h1_st_ok_def body_len_def line_ok_def host_ok_def)

lemma detect_ws_keeps:
  "h1_detect_ws c = c \<or> h1_detect_ws c = c\<lparr>h1_req := (h1_req c)\<lparr>rq_ws_upgrade := True\<rparr>\<rparr>"
  unfolding h1_detect_ws_def Let_def by (simp only: split: if_split) blast

lemma ready_ok:
  assumes "h1_wf c" "request_ok (h1_lim c) (h1_req c)" "h1_ready env c = Some c1"
  shows "h1_wf c1 \<and> h1_lim c1 = h1_lim c \<and> request_ok (h1_lim c) (h1_req c1)"
proof -
  let ?q = "(h1_req c)\<lparr>rq_version := 1, rq_secure := (h1_flags c AND ZH1_F_SECURE \<noteq> 0), rq_stream_id := 0\<rparr>"
  obtain r b where rs: "zhs_buf_reserve (he_alloc env) (rq_body (h1_req c)) 1 = (r, b)" by fastforce
  have b: "zb_wf b" "zb_data b = zb_data (rq_body (h1_req c))" "zb_off b = 0"
    using reserve_wf [OF _ rs] assms(1) by (auto simp: h1_wf_def)
  define c2 where "c2 = c\<lparr>h1_req := ?q\<lparr>rq_body := b\<rparr>\<rparr>"
  have c1: "c1 = h1_detect_ws c2"
    using assms(3) rs unfolding c2_def by (simp add: h1_ready_def Let_def split: if_splits)
  have off: "zb_off (rq_body (h1_req c)) = 0" using assms(1) by (simp add: h1_wf_def)
  have wf2: "h1_wf c2" unfolding c2_def by (rule wf_req [OF assms(1)]) (use b in simp_all)
  have ok2: "request_ok (h1_lim c) (h1_req c2)"
    using assms(2) b off unfolding c2_def by (simp add: request_ok_def line_ok_def host_ok_def ZHS_PTR_def)
  have "h1_wf (c2\<lparr>h1_req := (h1_req c2)\<lparr>rq_ws_upgrade := True\<rparr>\<rparr>)"
    by (rule wf_req [OF wf2]) (use b in \<open>simp_all add: c2_def\<close>)
  moreover have "request_ok (h1_lim c) ((h1_req c2)\<lparr>rq_ws_upgrade := True\<rparr>)"
    using ok2 by (simp add: request_ok_def line_ok_def host_ok_def)
  moreover have "h1_lim c2 = h1_lim c" by (simp add: c2_def)
  ultimately show ?thesis
    using detect_ws_keeps [of c2] wf2 ok2 unfolding c1 by (elim disjE) simp_all
qed

lemma finish_ok:
  assumes "h1_wf c" "request_ok (h1_lim c) (h1_req c)" "h1_finish env c = (f, c')"
  shows "h1_wf c' \<and> h1_lim c' = h1_lim c"
proof (cases "h1_ready env c")
  case None
  with assms show ?thesis by (auto simp: h1_finish_def)
next
  case (Some c1)
  note rd = ready_ok [OF assms(1,2) Some]
  obtain det c2 r2 where d: "zhs_dispatch (he_alloc env) (he_srv env) (he_clock env) (h1_respond env) h1_detach
      (he_handler env (h1_req_count c1) (h1_req c1)) c1 (h1_req c1) = (det, c2, r2)" using prod_cases3 by blast
  obtain o1 ca b where s: "c2 = c1\<lparr>h1_out := o1, h1_close_after := ca\<rparr>" "r2 = (h1_req c1)\<lparr>rq_responded := b\<rparr>"
    using dispatch_same [OF d] same_conn_eq same_req_eq by meson
  have "h1_wf c2" using rd by (simp add: s)
  moreover have "zb_wf (rq_body r2)" "zb_off (rq_body r2) = 0" using rd unfolding h1_wf_def by (simp_all add: s)
  ultimately have wf2: "h1_wf (c2\<lparr>h1_req := r2\<rparr>)" by (intro wf_req) (simp_all add: s)
  then have "h1_wf (c2\<lparr>h1_req := r2, h1_req_count := k\<rparr>)" for k
    by (simp add: h1_wf_def h1_st_ok_def body_len_def)
  moreover have "c' = c2\<lparr>h1_req := r2\<rparr> \<or> (\<exists>k. c' = c2\<lparr>h1_req := r2, h1_req_count := k\<rparr>)"
    using assms(3) Some d by (auto simp: h1_finish_def Let_def split: if_splits)
  ultimately show ?thesis using wf2 rd s by auto
qed


subsection \<open>The handler only sees well-formed requests\<close>

text \<open>Parsing does not depend on the handler.\<close>

lemma env_handler:
  "he_alloc (env\<lparr>he_handler := h\<rparr>) = he_alloc env" "he_junk (env\<lparr>he_handler := h\<rparr>) = he_junk env"
  "he_clock (env\<lparr>he_handler := h\<rparr>) = he_clock env" "he_srv (env\<lparr>he_handler := h\<rparr>) = he_srv env"
  by simp_all

lemma emit_handler:
  "h1_error (env\<lparr>he_handler := h\<rparr>) = h1_error env" "h1_respond (env\<lparr>he_handler := h\<rparr>) = h1_respond env"
  unfolding fun_eq_iff h1_error_def h1_emit_simple_def h1_respond_def env_handler by simp_all

lemma parse_handler:
  "h1_redirect (env\<lparr>he_handler := h\<rparr>) = h1_redirect env"
  "h1_take_target (env\<lparr>he_handler := h\<rparr>) = h1_take_target env"
  "h1_header_line (env\<lparr>he_handler := h\<rparr>) = h1_header_line env"
  "h1_host (env\<lparr>he_handler := h\<rparr>) = h1_host env"
  "h1_framing (env\<lparr>he_handler := h\<rparr>) = h1_framing env"
  "h1_append_body (env\<lparr>he_handler := h\<rparr>) = h1_append_body env"
  "h1_chunk_size (env\<lparr>he_handler := h\<rparr>) = h1_chunk_size env"
  "h1_ready (env\<lparr>he_handler := h\<rparr>) = h1_ready env"
  unfolding fun_eq_iff h1_redirect_def h1_take_target_def h1_header_line_def h1_host_def h1_framing_def
    h1_append_body_def h1_chunk_size_def h1_ready_def env_handler emit_handler by simp_all

lemma body_handler:
  "h1_request_line (env\<lparr>he_handler := h\<rparr>) = h1_request_line env"
  "h1_body_cl (env\<lparr>he_handler := h\<rparr>) = h1_body_cl env"
  "h1_chunk_turn (env\<lparr>he_handler := h\<rparr>) = h1_chunk_turn env"
  unfolding fun_eq_iff h1_request_line_def h1_body_cl_def h1_chunk_turn_def emit_handler parse_handler by simp_all

lemma reqline_handler: "h1_reqline (env\<lparr>he_handler := h\<rparr>) = h1_reqline env"
  unfolding fun_eq_iff h1_reqline_def emit_handler body_handler by simp

lemma headers_loop_handler:
  "h1_headers_loop (env\<lparr>he_handler := h\<rparr>) c inp = h1_headers_loop env c inp"
proof (induction env c inp rule: h1_headers_loop.induct)
  case (1 env c inp)
  show ?case
    unfolding h1_headers_loop.simps [of "env\<lparr>he_handler := h\<rparr>" c inp] h1_headers_loop.simps [of env c inp]
      emit_handler parse_handler
    using 1 [OF refl refl]
    by (auto simp: Let_def split: h1_line.splits option.splits prod.splits)
qed

lemma body_chunk_handler:
  "h1_body_chunk (env\<lparr>he_handler := h\<rparr>) c inp = h1_body_chunk env c inp"
proof (induction env c inp rule: h1_body_chunk.induct)
  case (1 env c inp)
  show ?case
    unfolding h1_body_chunk.simps [of "env\<lparr>he_handler := h\<rparr>" c inp] h1_body_chunk.simps [of env c inp]
      body_handler
    using 1 by (auto split: option.splits prod.splits)
qed

lemma stage_handler [simp]: "h1_stage_of (env\<lparr>he_handler := h\<rparr>) c inp = h1_stage_of env c inp"
  unfolding h1_stage_of_def h1_headers_def headers_loop_handler body_chunk_handler parse_handler body_handler
    reqline_handler by (rule refl)

lemma finish_handler:
  assumes "h1_wf c" "request_ok (h1_lim c) (h1_req c)"
    and "\<And>n q. request_ok (h1_lim c) q \<Longrightarrow> h n q = he_handler env n q"
  shows "h1_finish (env\<lparr>he_handler := h\<rparr>) c = h1_finish env c"
proof (cases "h1_ready env c")
  case (Some c1)
  with ready_ok [OF assms(1,2) Some] assms(3) show ?thesis
    by (simp add: h1_finish_def parse_handler emit_handler)
qed (simp add: h1_finish_def parse_handler)

lemma feed_handler:
  assumes "\<And>n. length (he_junk env n) = n"
    and "\<And>n q. request_ok lim q \<Longrightarrow> h n q = he_handler env n q"
  shows "h1_wf c \<Longrightarrow> h1_lim c = lim \<Longrightarrow>
    zh1_feed_loop (env\<lparr>he_handler := h\<rparr>) c inp n = zh1_feed_loop env c inp n \<and>
    (case zh1_feed_loop env c inp n of (r, c', inp') \<Rightarrow> h1_wf c' \<and> h1_lim c' = lim)"
  using assms
proof (induction env c inp n rule: zh1_feed_loop.induct)
  case (1 env c inp n)
  note unfold = zh1_feed_loop.simps [of env c inp n] zh1_feed_loop.simps [of "env\<lparr>he_handler := h\<rparr>" c inp n]
  show ?case
  proof (cases "h1_stage_of env c inp")
    case None
    with unfold 1(3,4) show ?thesis by simp
  next
    case (Some a)
    obtain p c1 inp1 where a: "a = (p, c1, inp1)" using prod_cases3 by blast
    have ok: "stage_ok c p c1" using stage_keeps_invariant [OF 1(3,5)] Some a by simp
    then have c1: "h1_wf c1" "h1_lim c1 = lim" using 1(4) by (auto simp: stage_ok_def)
    show ?thesis
    proof (cases p)
      case P_NEXT
      with unfold Some a 1(1) [OF Some a [symmetric] refl P_NEXT c1 1(5,6)] show ?thesis by simp
    next
      case P_COMPLETE
      have rok: "request_ok (h1_lim c1) (h1_req c1)" using ok P_COMPLETE 1(4) c1(2) by (simp add: stage_ok_def)
      have fin: "h1_finish (env\<lparr>he_handler := h\<rparr>) c1 = h1_finish env c1"
        using finish_handler [OF c1(1) rok] c1(2) 1(6) by blast
      obtain f c2 where f: "h1_finish env c1 = (f, c2)" by fastforce
      note c2 = finish_ok [OF c1(1) rok f]
      show ?thesis
      proof (cases "f = FIN_OK \<and> \<not> h1_close_after c2")
        case True
        then have fo: "f = FIN_OK" "\<not> h1_close_after c2" by auto
        have lim: "h1_lim (h1_reset_next c2) = lim" using c2 c1(2) by (simp add: h1_reset_next_def)
        from 1(2) [OF Some a [symmetric] refl P_COMPLETE f [symmetric] fo reset_next_wf lim 1(5,6)]
        show ?thesis using unfold Some a P_COMPLETE fin f fo by simp
      next
        case False
        then show ?thesis using unfold Some a P_COMPLETE fin f c1(2) c2 by (cases f) auto
      qed
    qed (use unfold Some a c1 in simp_all)
  qed
qed

text \<open>
  C2. The engine never hands a malformed request to the application. For a connection in a valid
  state and any input, the whole run is the same for two handlers that agree on well-formed
  requests: a token method, a confined path, at most one Host, header fields within the limits,
  a body within the limit, and one unambiguous framing - chunked without Content-Length, or exactly
  the bytes the single Content-Length announces, or none. The connection stays valid.
\<close>
theorem h1_only_valid_requests:
  assumes "\<And>n. length (he_junk env n) = n" "h1_wf c"
    and "\<And>n q. request_ok (h1_lim c) q \<Longrightarrow> h n q = he_handler env n q"
  shows "zh1_feed (env\<lparr>he_handler := h\<rparr>) c inp = zh1_feed env c inp \<and>
    (case zh1_feed env c inp of (r, c', inp') \<Rightarrow> h1_wf c' \<and> h1_lim c' = h1_lim c)"
  using feed_handler [OF assms(1,3,2) refl, of inp 0] by (simp add: zh1_feed_def)


definition example_env :: h1_env where
  "example_env = \<lparr>he_alloc = (\<lambda>_. True), he_junk = (\<lambda>n. replicate n 0),
     he_clock = \<lparr>tm_sec = 37, tm_min = 49, tm_hour = 8, tm_mday = 6, tm_mon = 10, tm_year = 94, tm_wday = 0\<rparr>,
     he_srv = None, he_handler = (\<lambda>n q. [HRespond 200 [] None 0])\<rparr>"

theorem h1_only_valid_requests_witness:
  "let c = the (zh1_new True (zhs_limits_resolve None) 0 zhs_buf_zero);
       inp = \<lparr>zb_data = asc ''GET /'', zb_off = 0, zb_cap = 256\<rparr>;
       h = (\<lambda>n q. if request_ok (h1_lim c) q then [HRespond 200 [] None 0] else [])
   in zh1_feed (example_env\<lparr>he_handler := h\<rparr>) c inp = zh1_feed example_env c inp"
proof -
  let ?c = "the (zh1_new True (zhs_limits_resolve None) 0 zhs_buf_zero)"
  have "h1_wf ?c" using h1_new_wf [of True "zhs_limits_resolve None" 0 zhs_buf_zero ?c] by (simp add: zh1_new_def)
  then show ?thesis
    using h1_only_valid_requests [of example_env ?c
        "\<lambda>n q. if request_ok (h1_lim ?c) q then [HRespond 200 [] None 0] else []"]
    by (simp add: example_env_def Let_def)
qed

subsection \<open>Refusals are final\<close>

lemma app_all_writes: "writes (app_all alloc ss) (concat ss)"
proof (induction ss)
  case (Cons s ss)
  from writes_then [OF writes_append_str Cons.IH, of alloc s] show ?case by simp
qed (simp add: writes_def)

definition error_response :: "h1_env \<Rightarrow> int \<Rightarrow> bytes" where
  "error_response env status =
     h1_status_line status @ asc ''date: '' @ zhs_http_date (he_clock env) @ crlf @ asc ''server: zcio'' @ crlf @
     asc ''content-length: 0'' @ crlf @ asc ''connection: close'' @ crlf @ crlf"

lemma error_writes:
  assumes "zb_wf (h1_out c)" "h1_error env c status = (p, c')"
  shows "p = P_CLOSE \<and> h1_st c' = H1_DEAD \<and> h1_close_after c' \<and>
      ZHS_PTR (h1_out c') = ZHS_PTR (h1_out c) @ error_response env status \<or> p = P_HARD ZCIO_ERR_NOMEM"
proof -
  let ?ss = "[h1_status_line status, asc ''date: '', zhs_http_date (he_clock env), crlf @ asc ''server: zcio'' @ crlf,
    asc ''content-length: 0'' @ crlf @ asc ''connection: close'' @ crlf @ crlf]"
  obtain r o1 where ap: "app_all (he_alloc env) ?ss (h1_out c) = (r, o1)" by fastforce
  have "r = ZCIO_OK \<longrightarrow> ZHS_PTR o1 = ZHS_PTR (h1_out c) @ error_response env status"
    using writesD [OF app_all_writes assms(1) ap] by (simp add: error_response_def)
  with assms(2) ap show ?thesis
    by (auto simp: h1_error_def h1_emit_simple_def Let_def split: if_splits)
qed

lemma dead_feed: "h1_st c = H1_DEAD \<Longrightarrow> zh1_feed env c inp = (ZH1_CLOSE, c, inp)"
  by (simp add: zh1_feed_def zh1_feed_loop.simps h1_stage_of_def)

text \<open>A bare line feed wherever a line is read: the stage is the error 400.\<close>

lemma bare_lf_stage:
  assumes "h1_find_line inp = LineBad" "h1_st c \<in> {H1_REQLINE, H1_HEADERS, H1_CHUNK_SIZE, H1_TRAILER}"
    and "h1_stage_of env c inp = Some (p, c', inp')"
  shows "\<exists>c0. h1_out c0 = h1_out c \<and> h1_error env c0 400 = (p, c') \<and> inp' = inp"
proof -
  define c0 where "c0 = (if h1_st c = H1_REQLINE \<and> h1_avail inp > 0 then c\<lparr>h1_receiving := True\<rparr> else c)"
  have "h1_stage_of env c inp = Some (case h1_error env c0 400 of (p, c') \<Rightarrow> (p, c', inp))"
  proof (cases "h1_st c")
    case H1_REQLINE
    with assms(1) show ?thesis by (simp add: h1_stage_of_def h1_reqline_def Let_def c0_def)
  next
    case H1_HEADERS
    with assms(1) show ?thesis
      by (simp add: h1_stage_of_def h1_headers_def h1_headers_loop.simps c0_def split: prod.splits)
  next
    case H1_CHUNK_SIZE
    with assms(1) show ?thesis
      by (simp add: h1_stage_of_def h1_body_chunk.simps h1_chunk_turn_def Let_def c0_def split: prod.splits)
  next
    case H1_TRAILER
    with assms(1) show ?thesis
      by (simp add: h1_stage_of_def h1_body_chunk.simps h1_chunk_turn_def Let_def c0_def split: prod.splits)
  qed (use assms(2) in simp_all)
  with assms(3) have "h1_error env c0 400 = (p, c')" "inp' = inp" by (auto split: prod.splits)
  moreover have "h1_out c0 = h1_out c" by (simp add: c0_def)
  ultimately show ?thesis by blast
qed




subsection \<open>Chunked bodies\<close>

definition hex_digit :: "nat \<Rightarrow> byte" where
  "hex_digit d = (if d < 10 then 0x30 + of_nat d else 0x61 + of_nat (d - 10))"

function hex_digits :: "nat \<Rightarrow> bytes" where
  "hex_digits n = (if n < 16 then [hex_digit n] else hex_digits (n div 16) @ [hex_digit (n mod 16)])"
  by pat_completeness auto
termination
  by (relation "measure id") auto

declare hex_digits.simps [simp del]

lemma hex_digit_facts:
  assumes "d < 16"
  shows "h1_hex (hex_digit d) = int d" "hex_digit d \<noteq> 0x0A"
proof -
  have "d \<in> {0, 1, 2, 3, 4, 5, 6, 7, 8, 9, 10, 11, 12, 13, 14, 15}" using assms by (simp; presburger)
  then show "h1_hex (hex_digit d) = int d" "hex_digit d \<noteq> 0x0A"
    by (elim insertE emptyE; simp add: hex_digit_def h1_hex_def)+
qed

lemma hex_digits_no_lf: "0x0A \<notin> set (hex_digits n)"
proof (induction n rule: hex_digits.induct)
  case (1 n)
  then show ?case by (subst hex_digits.simps) (use hex_digit_facts(2) [of n] hex_digit_facts(2) [of "n mod 16"] in auto)
qed

lemma hex_digits_length: "n < 16 ^ k \<Longrightarrow> 0 < k \<Longrightarrow> length (hex_digits n) \<le> k"
proof (induction n arbitrary: k rule: hex_digits.induct)
  case (1 n)
  show ?case
  proof (cases "n < 16")
    case True
    with 1(3) show ?thesis by (subst hex_digits.simps) simp
  next
    case False
    then obtain j where j: "k = Suc j" "0 < j" using 1(2,3) by (cases k; cases "k - 1") auto
    have "n div 16 < 16 ^ j" using 1(2) j(1) by (simp add: less_mult_imp_div_less mult.commute)
    from 1(1) [OF False this j(2)] False j(1) show ?thesis by (subst hex_digits.simps) simp
  qed
qed

lemma nibble_append: "m < 2 ^ 60 \<Longrightarrow> d < 16 \<Longrightarrow> (push_bit 4 (of_nat m) OR of_nat d :: u64) = of_nat (m * 16 + d)"
proof -
  assume "m < 2 ^ 60" "d < 16"
  have "push_bit 4 x AND take_bit 4 y = 0" for x y :: u64
    by (rule bit_word_eqI) (auto simp: bit_simps)
  moreover have "take_bit 4 (of_nat d :: u64) = of_nat d"
    using \<open>d < 16\<close> by (simp add: take_bit_of_nat take_bit_nat_eq_self)
  ultimately have "push_bit 4 (of_nat m :: u64) AND of_nat d = 0" by metis
  then have "push_bit 4 (of_nat m) OR of_nat d = push_bit 4 (of_nat m) + (of_nat d :: u64)"
    by (simp add: disjunctive_add_eq_or)
  also have "\<dots> = of_nat (m * 16 + d)" by (simp add: push_bit_eq_mult)
  finally show ?thesis .
qed


lemma chunk_guard: "unat (drop_bit 4 (- 1) :: u64) = 2 ^ 60 - 1"
  by (simp add: unat_drop_bit_eq drop_bit_eq_div)

lemma chunk_digit:
  assumes "m < 2 ^ 60" "d < 16"
  shows "chunk_size_digits (hex_digit d # s) (of_nat m) any = chunk_size_digits s (of_nat (m * 16 + d)) True"
proof -
  have "unat (of_nat m :: u64) = m" using assms(1) by (simp add: unat_of_nat)
  then have "\<not> (of_nat m :: u64) > drop_bit 4 (- 1)" using assms(1) chunk_guard by (simp add: word_less_nat_alt)
  with nibble_append [OF assms] hex_digit_facts(1) [OF assms(2)] show ?thesis by simp
qed

lemma chunk_size_hex:
  "n < 2 ^ 64 \<Longrightarrow> chunk_size_digits (hex_digits n @ s) 0 any = chunk_size_digits s (of_nat n) True"
proof (induction n arbitrary: s rule: hex_digits.induct)
  case (1 n)
  show ?case
  proof (cases "n < 16")
    case True
    with chunk_digit [of 0 n s any] show ?thesis by (subst hex_digits.simps) simp
  next
    case False
    have d: "n div 16 < 2 ^ 60" "n mod 16 < 16" "n div 16 < 2 ^ 64" using 1(2) by simp_all
    have "hex_digits n @ s = hex_digits (n div 16) @ hex_digit (n mod 16) # s"
      using False by (subst hex_digits.simps) simp
    with 1(1) [OF False d(3), of "hex_digit (n mod 16) # s"] chunk_digit [OF d(1,2), of s True] show ?thesis
      by simp
  qed
qed

lemma find_line_prefix:
  assumes "ZHS_PTR inp = l @ crlf @ rest" "0x0A \<notin> set l"
  shows "h1_find_line inp = Line l (length l + 2)"
proof -
  have "takeWhile (\<lambda>c. c \<noteq> 0x0A) (ZHS_PTR inp) = l @ [0x0D]"
    using assms by (subst assms(1), subst takeWhile_append2) (auto simp: crlf_def)
  with assms(1) show ?thesis by (simp add: h1_find_line_def Let_def nth_append crlf_def)
qed

text \<open>One chunk on the wire, and a whole body with its terminating chunk and empty trailer.\<close>

definition chunk_bytes :: "bytes \<Rightarrow> bytes" where
  "chunk_bytes b = hex_digits (length b) @ crlf @ b @ crlf"

definition chunked_body :: "bytes list \<Rightarrow> bytes" where
  "chunked_body bs = concat (map chunk_bytes bs) @ asc ''0'' @ crlf @ crlf"

lemma chunk_size_turn:
  assumes "h1_st c = H1_CHUNK_SIZE" "zb_wf inp" "ZHS_PTR inp = chunk_bytes b @ rest" "b \<noteq> []"
    and "body_len c + length b \<le> max_body_bytes (h1_lim c)" "max_body_bytes (h1_lim c) < 2 ^ 64"
  shows "\<exists>inp1. h1_chunk_turn env c inp = (None, c\<lparr>h1_chunk_remaining := of_nat (length b), h1_st := H1_CHUNK_DATA\<rparr>, inp1) \<and>
    zb_wf inp1 \<and> ZHS_PTR inp1 = b @ crlf @ rest"
proof -
  let ?l = "hex_digits (length b)" and ?inp1 = "zhs_buf_consume inp (length (hex_digits (length b)) + 2)"
  have n: "length b < 2 ^ 64" "0 < length b" using assms(4-6) by auto
  have line: "h1_find_line inp = Line ?l (length ?l + 2)"
    using assms(3) hex_digits_no_lf by (intro find_line_prefix [of _ _ "b @ crlf @ rest"]) (auto simp: chunk_bytes_def)
  have len: "\<not> length ?l > H1_CHUNK_LINE_MAX"
    using hex_digits_length [of "length b" 16] n(1) by (simp add: H1_CHUNK_LINE_MAX_def)
  have dig: "chunk_size_digits ?l 0 False = Some (of_nat (length b), True, [])"
    using chunk_size_hex [OF n(1), of "[]" False] by simp
  have u: "unat (of_nat (length b) :: u64) = length b" using n(1) by (simp add: unat_of_nat)
  then have "(of_nat (length b) :: u64) \<noteq> 0" using n(2) by (metis unat_0 less_irrefl)
  moreover have "\<not> unat (of_nat (length b) :: u64) > szsub (max_body_bytes (h1_lim c)) (length (zb_data (rq_body (h1_req c))))"
    unfolding u using assms(5) by (simp add: szsub_def body_len_def)
  ultimately have "h1_chunk_size env c ?l = (None, c\<lparr>h1_chunk_remaining := of_nat (length b), h1_st := H1_CHUNK_DATA\<rparr>)"
    using len dig by (simp add: h1_chunk_size_def)
  with line assms(1) have "h1_chunk_turn env c inp =
      (None, c\<lparr>h1_chunk_remaining := of_nat (length b), h1_st := H1_CHUNK_DATA\<rparr>, ?inp1)"
    by (simp add: h1_chunk_turn_def)
  moreover have "zb_wf ?inp1 \<and> ZHS_PTR ?inp1 = b @ crlf @ rest"
    using consume_ok [OF assms(2), of "length ?l + 2"] assms(3) by (simp add: chunk_bytes_def crlf_def)
  ultimately show ?thesis by blast
qed

lemma chunk_data_turn:
  assumes "h1_st c = H1_CHUNK_DATA" "zb_wf inp" "ZHS_PTR inp = b @ crlf @ rest" "b \<noteq> []"
    and "h1_chunk_remaining c = of_nat (length b)" "length b < 2 ^ 64"
    and "h1_append_body env c b = (True, c1)"
  shows "\<exists>inp1. h1_chunk_turn env c inp = (None, c1\<lparr>h1_chunk_remaining := 0, h1_st := H1_CHUNK_CRLF\<rparr>, inp1) \<and>
    zb_wf inp1 \<and> ZHS_PTR inp1 = crlf @ rest"
proof -
  let ?inp1 = "zhs_buf_consume inp (length b)"
  have u: "unat (h1_chunk_remaining c) = length b" using assms(5,6) by (simp add: unat_of_nat)
  then have pos: "h1_chunk_remaining c > 0" using assms(4) by (simp add: word_less_nat_alt)
  have c1: "h1_chunk_remaining c1 = h1_chunk_remaining c"
    using assms(7) by (auto simp: h1_append_body_def split: prod.splits)
  have av: "h1_avail inp = length b + 2 + length rest" "take (length b) (ZHS_PTR inp) = b"
    using assms(3) by (simp_all add: h1_avail_def crlf_def)
  have "h1_chunk_turn env c inp = (None, c1\<lparr>h1_chunk_remaining := 0, h1_st := H1_CHUNK_CRLF\<rparr>, ?inp1)"
    using assms(1,4,5,7) u pos c1 av by (simp add: h1_chunk_turn_def Let_def)
  moreover have "zb_wf ?inp1 \<and> ZHS_PTR ?inp1 = crlf @ rest"
    using consume_ok [OF assms(2), of "length b"] assms(3) by simp
  ultimately show ?thesis by blast
qed

lemma chunk_crlf_turn:
  assumes "h1_st c = H1_CHUNK_CRLF" "zb_wf inp" "ZHS_PTR inp = crlf @ rest"
  shows "\<exists>inp1. h1_chunk_turn env c inp = (None, c\<lparr>h1_st := H1_CHUNK_SIZE\<rparr>, inp1) \<and> zb_wf inp1 \<and> ZHS_PTR inp1 = rest"
proof -
  have "h1_avail inp = 2 + length rest" using assms(3) by (simp add: h1_avail_def crlf_def)
  then have "h1_chunk_turn env c inp = (None, c\<lparr>h1_st := H1_CHUNK_SIZE\<rparr>, zhs_buf_consume inp 2)"
    using assms(1,3) by (simp add: h1_chunk_turn_def Let_def crlf_def)
  moreover have "zb_wf (zhs_buf_consume inp 2) \<and> ZHS_PTR (zhs_buf_consume inp 2) = rest"
    using consume_ok [OF assms(2), of 2] assms(3) by (simp add: crlf_def)
  ultimately show ?thesis by blast
qed


lemma body_chunk_step:
  "h1_chunk_turn env c inp = (None, c1, inp1) \<Longrightarrow> h1_body_chunk env c inp = h1_body_chunk env c1 inp1"
  by (subst h1_body_chunk.simps) simp

lemma last_chunk:
  assumes "h1_st c = H1_CHUNK_SIZE" "zb_wf inp" "ZHS_PTR inp = asc ''0'' @ crlf @ crlf @ rest"
    and "h1_head_bytes c + 2 \<le> max_header_bytes (h1_lim c)"
  shows "\<exists>c' inp'. h1_body_chunk env c inp = (P_COMPLETE, c', inp') \<and> h1_req c' = h1_req c \<and> ZHS_PTR inp' = rest"
proof -
  let ?c1 = "c\<lparr>h1_st := H1_TRAILER\<rparr>" and ?inp1 = "zhs_buf_consume inp 3"
  have line: "h1_find_line inp = Line (asc ''0'') 3"
    using find_line_prefix [of inp "asc ''0''" "crlf @ rest"] assms(3) by simp
  have "h1_chunk_size env c (asc ''0'') = (None, ?c1)"
    by (simp add: h1_chunk_size_def H1_CHUNK_LINE_MAX_def h1_hex_def)
  with line assms(1) have t1: "h1_chunk_turn env c inp = (None, ?c1, ?inp1)" by (simp add: h1_chunk_turn_def)
  have p1: "zb_wf ?inp1" "ZHS_PTR ?inp1 = crlf @ rest"
    using consume_ok [OF assms(2), of 3] assms(3) by (simp_all add: crlf_def)
  have "h1_find_line ?inp1 = Line [] 2" using find_line_prefix [of ?inp1 "[]" rest] p1(2) by simp
  moreover have "\<not> 2 > szsub (max_header_bytes (h1_lim c)) (h1_head_bytes c)" using assms(4) by (simp add: szsub_def)
  ultimately have t2: "h1_chunk_turn env ?c1 ?inp1 =
      (Some P_COMPLETE, ?c1\<lparr>h1_head_bytes := h1_head_bytes c + 2\<rparr>, zhs_buf_consume ?inp1 2)"
    by (simp add: h1_chunk_turn_def Let_def)
  have "h1_body_chunk env c inp = (P_COMPLETE, ?c1\<lparr>h1_head_bytes := h1_head_bytes c + 2\<rparr>, zhs_buf_consume ?inp1 2)"
    unfolding body_chunk_step [OF t1] using t2 by (subst h1_body_chunk.simps) simp
  moreover have "ZHS_PTR (zhs_buf_consume ?inp1 2) = rest" using consume_ok [OF p1(1), of 2] p1(2) by (simp add: crlf_def)
  ultimately show ?thesis by simp
qed

lemma chunk_failed:
  assumes "h1_st c = H1_CHUNK_DATA" "h1_chunk_remaining c = of_nat (length b)" "length b < 2 ^ 64" "b \<noteq> []"
    and "ZHS_PTR inp = b @ crlf @ rest" "h1_append_body env c b = (False, c1)"
  shows "h1_body_chunk env c inp = (P_HARD ZCIO_ERR_NOMEM, c1, inp)"
proof -
  have u: "unat (h1_chunk_remaining c) = length b" using assms(2,3) by (simp add: unat_of_nat)
  then have "h1_chunk_remaining c > 0" using assms(4) by (simp add: word_less_nat_alt)
  moreover have "h1_avail inp = length b + 2 + length rest" "take (length b) (ZHS_PTR inp) = b"
    using assms(5) by (simp_all add: h1_avail_def crlf_def)
  ultimately have "h1_chunk_turn env c inp = (Some (P_HARD ZCIO_ERR_NOMEM), c1, inp)"
    using assms(1,4,6) u by (simp add: h1_chunk_turn_def Let_def)
  then show ?thesis by (subst h1_body_chunk.simps) simp
qed

lemma chunked_body_decodes:
  assumes "h1_st c = H1_CHUNK_SIZE" "zb_wf inp" "ZHS_PTR inp = chunked_body bs @ rest" "list_all (\<lambda>b. b \<noteq> []) bs"
    and "zb_wf (rq_body (h1_req c))" "max_body_bytes (h1_lim c) < 2 ^ 64"
    and "body_len c + length (concat bs) \<le> max_body_bytes (h1_lim c)"
    and "h1_head_bytes c + 2 \<le> max_header_bytes (h1_lim c)"
  shows "\<exists>p c' inp'. h1_body_chunk env c inp = (p, c', inp') \<and>
    (p = P_COMPLETE \<and> zb_data (rq_body (h1_req c')) = zb_data (rq_body (h1_req c)) @ concat bs \<and> ZHS_PTR inp' = rest \<or>
     p = P_HARD ZCIO_ERR_NOMEM)"
  using assms
proof (induction bs arbitrary: c inp)
  case Nil
  then show ?case using last_chunk [of c inp rest env] by (auto simp: chunked_body_def)
next
  case (Cons b bs)
  have b: "b \<noteq> []" "body_len c + length b \<le> max_body_bytes (h1_lim c)" using Cons.prems by auto
  then have lb: "length b < 2 ^ 64" using Cons.prems(6) by linarith
  have ptr: "ZHS_PTR inp = chunk_bytes b @ (chunked_body bs @ rest)" using Cons.prems(3) by (simp add: chunked_body_def)
  let ?c1 = "c\<lparr>h1_chunk_remaining := of_nat (length b), h1_st := H1_CHUNK_DATA\<rparr>"
  from chunk_size_turn [OF Cons.prems(1,2) ptr b Cons.prems(6), of env] obtain inp1 where
    t1: "h1_chunk_turn env c inp = (None, ?c1, inp1)" "zb_wf inp1" "ZHS_PTR inp1 = b @ crlf @ chunked_body bs @ rest" by blast
  obtain ok c2 where ap: "h1_append_body env ?c1 b = (ok, c2)" by fastforce
  obtain r bd where bd: "zhs_buf_append (he_alloc env) (rq_body (h1_req c)) b = (r, bd)" by fastforce
  have c2: "c2 = ?c1\<lparr>h1_req := (h1_req c)\<lparr>rq_body := bd\<rparr>\<rparr>" "ok = (r = ZCIO_OK)"
    using ap bd by (auto simp: h1_append_body_def)
  show ?case
  proof (cases ok)
    case False
    then have "h1_append_body env ?c1 b = (False, c2)" using ap by simp
    from chunk_failed [OF _ _ lb b(1) t1(3) this] show ?thesis
      unfolding body_chunk_step [OF t1(1)] by simp
  next
    case True
    then have "h1_append_body env ?c1 b = (True, c2)" using ap by simp
    from chunk_data_turn [OF _ t1(2,3) b(1) _ lb this] obtain inp2 where
      t2: "h1_chunk_turn env ?c1 inp1 = (None, c2\<lparr>h1_chunk_remaining := 0, h1_st := H1_CHUNK_CRLF\<rparr>, inp2)"
        "zb_wf inp2" "ZHS_PTR inp2 = crlf @ chunked_body bs @ rest" by auto
    from chunk_crlf_turn [OF _ t2(2,3), of "c2\<lparr>h1_chunk_remaining := 0, h1_st := H1_CHUNK_CRLF\<rparr>" env] obtain inp3 where
      t3: "h1_chunk_turn env (c2\<lparr>h1_chunk_remaining := 0, h1_st := H1_CHUNK_CRLF\<rparr>) inp2 =
          (None, c2\<lparr>h1_chunk_remaining := 0, h1_st := H1_CHUNK_SIZE\<rparr>, inp3)"
        "zb_wf inp3" "ZHS_PTR inp3 = chunked_body bs @ rest" by auto
    define c3 where "c3 = c2\<lparr>h1_chunk_remaining := 0, h1_st := H1_CHUNK_SIZE\<rparr>"
    have body: "zb_wf bd" "zb_data bd = zb_data (rq_body (h1_req c)) @ b"
      using append_data [OF Cons.prems(5) bd] True c2(2) by auto
    have c3: "h1_st c3 = H1_CHUNK_SIZE" "rq_body (h1_req c3) = bd" "h1_lim c3 = h1_lim c"
        "h1_head_bytes c3 = h1_head_bytes c" "body_len c3 = body_len c + length b"
      using c2(1) body by (simp_all add: c3_def body_len_def)
    have eq: "h1_body_chunk env c inp = h1_body_chunk env c3 inp3"
      unfolding body_chunk_step [OF t1(1)] body_chunk_step [OF t2(1)] body_chunk_step [OF t3(1)] c3_def ..
    from Cons.IH [of c3 inp3] Cons.prems c3 t3 body show ?thesis unfolding eq by auto
  qed
qed

text \<open>
  C24. Chunked bodies round-trip: for any split of a body into nonempty chunks within the body limit,
  the chunk parser run on their encoding completes with exactly that body appended and leaves the
  bytes of the next request untouched, unless memory runs out.
\<close>
theorem h1_chunked_roundtrip:
  assumes "h1_wf c" "h1_st c = H1_CHUNK_SIZE" "zb_wf inp" "ZHS_PTR inp = chunked_body bs @ rest"
    and "list_all (\<lambda>b. b \<noteq> []) bs" "max_body_bytes (h1_lim c) < 2 ^ 64"
    and "body_len c + length (concat bs) \<le> max_body_bytes (h1_lim c)"
    and "h1_head_bytes c + 2 \<le> max_header_bytes (h1_lim c)"
  shows "\<exists>p c' inp'. h1_body_chunk env c inp = (p, c', inp') \<and>
    (p = P_COMPLETE \<and> zb_data (rq_body (h1_req c')) = zb_data (rq_body (h1_req c)) @ concat bs \<and> ZHS_PTR inp' = rest \<or>
     p = P_HARD ZCIO_ERR_NOMEM)"
proof -
  have "zb_wf (rq_body (h1_req c))" using assms(1) by (simp add: h1_wf_def)
  from chunked_body_decodes [OF assms(2-5) this assms(6-8)] show ?thesis .
qed

definition example_chunk_conn :: zh1_conn where
  "example_chunk_conn = (the (zh1_new True (zhs_limits_resolve None) 0 zhs_buf_zero))
     \<lparr>h1_st := H1_CHUNK_SIZE, h1_req := zhs_req_zero\<lparr>rq_method := Some (asc ''PUT''), rq_path := Some [0x2A],
        rq_headers := \<lparr>hs_v = [(asc ''transfer-encoding'', asc ''chunked'')], hs_cap = 8, hs_bytes = 56\<rparr>\<rparr>\<rparr>"

lemma example_chunk_conn_wf: "h1_wf example_chunk_conn"
proof -
  have "line_ok (h1_req example_chunk_conn)"
    by (simp add: example_chunk_conn_def line_ok_def zhs_token_ok_def is_tchar_def path_safe_def)
  moreover have "te_ok (rq_headers (h1_req example_chunk_conn))"
    by (simp add: example_chunk_conn_def te_ok_def cl_values_def zhs_hdrs_count_def zhs_hdrs_get_def tolower_def
        h1_ci_eq_def)
  moreover have "host_ok (h1_req example_chunk_conn)"
    by (simp add: example_chunk_conn_def host_ok_def zhs_hdrs_count_def tolower_def)
  ultimately show ?thesis
    by (simp add: h1_wf_def h1_st_ok_def example_chunk_conn_def zh1_new_def zhs_limits_resolve_def hdrs_wf_def
        hdr_cost_def zb_wf_def zhs_req_zero_def zhs_buf_zero_def body_len_def SIZE_MAX_def)
qed

theorem h1_chunked_roundtrip_witness:
  "\<exists>p c' inp'. h1_body_chunk example_env example_chunk_conn
      \<lparr>zb_data = chunked_body [asc ''hello '', asc ''world''] @ asc ''GET'', zb_off = 0, zb_cap = 256\<rparr> = (p, c', inp') \<and>
    (p = P_COMPLETE \<and> zb_data (rq_body (h1_req c')) = asc ''hello world'' \<and> ZHS_PTR inp' = asc ''GET'' \<or>
     p = P_HARD ZCIO_ERR_NOMEM)"
proof -
  let ?inp = "\<lparr>zb_data = chunked_body [asc ''hello '', asc ''world''] @ asc ''GET'', zb_off = 0, zb_cap = 256\<rparr>"
  have "zb_wf ?inp"
    by (simp add: zb_wf_def chunked_body_def chunk_bytes_def hex_digits.simps crlf_def SIZE_MAX_def)
  moreover have "ZHS_PTR ?inp = chunked_body [asc ''hello '', asc ''world''] @ asc ''GET''" by (simp add: ZHS_PTR_def)
  moreover have "h1_st example_chunk_conn = H1_CHUNK_SIZE" "max_body_bytes (h1_lim example_chunk_conn) = 67108864"
      "body_len example_chunk_conn = 0" "h1_head_bytes example_chunk_conn = 0"
      "max_header_bytes (h1_lim example_chunk_conn) = 32768" "zb_data (rq_body (h1_req example_chunk_conn)) = []"
    by (simp_all add: example_chunk_conn_def zh1_new_def zhs_limits_resolve_def body_len_def zhs_req_zero_def zhs_buf_zero_def)
  ultimately show ?thesis
    using h1_chunked_roundtrip [OF example_chunk_conn_wf, of ?inp "[asc ''hello '', asc ''world'']" "asc ''GET''" example_env]
    by simp
qed


subsection \<open>A closing connection that is fed again\<close>

lemma respond_close_mono: "h1_respond env c r s hs b n = (rc, c') \<Longrightarrow> h1_close_after c \<Longrightarrow> h1_close_after c'"
  by (auto simp: h1_respond_def Let_def split: prod.splits if_splits)

lemma http_respond_close_mono:
  "zcio_http_respond alloc srv clock (Some (h1_respond env)) c r s hs b n = (rc, c', r') \<Longrightarrow>
   h1_close_after c \<Longrightarrow> h1_close_after c'"
  using respond_close_mono by (auto simp: zcio_http_respond_def Let_def split: if_splits prod.splits)

lemma handler_steps_close_mono:
  "fold (handler_step alloc srv clock (h1_respond env) h1_detach) calls (c, r, d) = (c', r', d') \<Longrightarrow>
   h1_close_after c \<Longrightarrow> h1_close_after c'"
proof (induction calls arbitrary: c r d)
  case (Cons call calls)
  obtain c1 r1 d1 where st: "handler_step alloc srv clock (h1_respond env) h1_detach call (c, r, d) = (c1, r1, d1)"
    using prod_cases3 by blast
  have "h1_close_after c1"
  proof (cases call)
    case (HRespond s hs b n)
    obtain rc c2 r2 where p: "zcio_http_respond alloc srv clock (Some (h1_respond env)) c r s hs b n = (rc, c2, r2)"
      using prod_cases3 by blast
    with HRespond st have "c1 = c2" by (simp add: handler_step_def)
    with http_respond_close_mono [OF p Cons.prems(2)] show ?thesis by simp
  next
    case (HAccept ok)
    with st Cons.prems(2) show ?thesis by (auto simp: handler_step_def h1_detach_def split: if_splits)
  qed
  with Cons.IH [of c1 r1 d1] Cons.prems st show ?case by simp
qed simp

lemma ready_keeps:
  assumes "h1_ready env c = Some c1"
  shows "\<exists>q. c1 = c\<lparr>h1_req := q\<rparr>"
proof -
  obtain q where "c1 = h1_detect_ws (c\<lparr>h1_req := q\<rparr>)"
    using assms unfolding h1_ready_def Let_def by (auto split: prod.splits if_splits)
  with detect_ws_keeps [of "c\<lparr>h1_req := q\<rparr>"] show ?thesis by (elim disjE) (auto intro: exI)
qed

lemma finish_keeps_closing:
  assumes "h1_finish env c = (f, c')" "f = FIN_OK"
  shows "h1_st c' = h1_st c \<and> h1_cl_remaining c' = h1_cl_remaining c \<and>
    h1_req_count c' = (h1_req_count c + 1) mod 2 ^ 32 \<and> (h1_close_after c \<longrightarrow> h1_close_after c')"
proof -
  obtain c1 where rd: "h1_ready env c = Some c1" using assms by (cases "h1_ready env c") (auto simp: h1_finish_def)
  have c1: "h1_st c1 = h1_st c" "h1_cl_remaining c1 = h1_cl_remaining c" "h1_req_count c1 = h1_req_count c"
    "h1_close_after c1 = h1_close_after c"
    using ready_keeps [OF rd] by auto
  let ?calls = "he_handler env (h1_req_count c1) (h1_req c1)"
  obtain det c2 r2 where d: "zhs_dispatch (he_alloc env) (he_srv env) (he_clock env) (h1_respond env) h1_detach
      ?calls c1 (h1_req c1) = (det, c2, r2)" using prod_cases3 by blast
  note same = same_conn_eq [OF conjunct1 [OF dispatch_same [OF d]]]
  obtain cf rf df where f: "fold (handler_step (he_alloc env) (he_srv env) (he_clock env) (h1_respond env) h1_detach)
      ?calls (c1, h1_req c1, False) = (cf, rf, df)" using prod_cases3 by blast
  obtain rc c3 r3 where p: "zcio_http_respond (he_alloc env) (he_srv env) (he_clock env) (Some (h1_respond env)) cf rf 500 []
      (Some (asc ''Internal Server Error'')) 21 = (rc, c3, r3)" using prod_cases3 by blast
  have "c2 = cf \<or> c2 = c3" using d f p by (auto simp: zhs_dispatch_def split: if_splits)
  then have close: "h1_close_after c1 \<Longrightarrow> h1_close_after c2"
    using handler_steps_close_mono [OF f] http_respond_close_mono [OF p] by blast
  have "c' = c2\<lparr>h1_req := r2, h1_req_count := (h1_req_count c2 + 1) mod 2 ^ 32\<rparr>"
    using assms rd d by (auto simp: h1_finish_def Let_def split: if_splits)
  moreover have "h1_st c2 = h1_st c1" "h1_cl_remaining c2 = h1_cl_remaining c1" "h1_req_count c2 = h1_req_count c1"
    by (subst same, simp)+
  ultimately show ?thesis using c1 close by simp
qed


definition example_closing_conn :: zh1_conn where
  "example_closing_conn = (the (zh1_new True (zhs_limits_resolve None) 0 zhs_buf_zero))
     \<lparr>h1_st := H1_BODY_CL, h1_close_after := True, h1_req := zhs_req_zero\<lparr>rq_body := \<lparr>zb_data = [], zb_off = 0, zb_cap = 8\<rparr>\<rparr>\<rparr>"


end
