(* ===== verification/Zc_WsKey.thy ===== *)
theory Zc_WsKey
  imports Zc_HttpUtil
begin

unbundle bit_operations_syntax

text \<open>
  The handshake primitives of \<open>src/ws.c\<close>: SHA-1, Base64 and the value of the
  \<open>Sec-WebSocket-Accept\<close> header. The digest the code computes block by block with an in-place
  padding is the one of the padded message (FIPS 180-4), Base64 is inverted by a decoder, and the
  accept value always fits its 29-byte array.
\<close>

subsection \<open>SHA-1\<close>

type_synonym sha1_state = "u32 \<times> u32 \<times> u32 \<times> u32 \<times> u32"

definition be32_at :: "bytes \<Rightarrow> nat \<Rightarrow> u32" where
  "be32_at p i = push_bit 24 (ucast (p ! (i * 4))) OR push_bit 16 (ucast (p ! (i * 4 + 1)))
     OR push_bit 8 (ucast (p ! (i * 4 + 2))) OR ucast (p ! (i * 4 + 3))"

definition rotl :: "nat \<Rightarrow> u32 \<Rightarrow> u32" where
  "rotl n v = push_bit n v OR drop_bit (32 - n) v"

text \<open>The message schedule: 16 words of the block, then 64 that each mix four earlier ones.\<close>

definition sha1_next :: "u32 list \<Rightarrow> u32" where
  "sha1_next w = (let i = length w in rotl 1 (w ! (i - 3) XOR w ! (i - 8) XOR w ! (i - 14) XOR w ! (i - 16)))"

primrec sha1_expand :: "nat \<Rightarrow> u32 list \<Rightarrow> u32 list" where
  "sha1_expand 0 w = w"
| "sha1_expand (Suc n) w = sha1_expand n (w @ [sha1_next w])"

definition sha1_schedule :: "bytes \<Rightarrow> u32 list" where
  "sha1_schedule p = sha1_expand 64 (map (be32_at p) [0 ..< 16])"

definition sha1_fk :: "nat \<Rightarrow> u32 \<Rightarrow> u32 \<Rightarrow> u32 \<Rightarrow> u32 \<times> u32" where
  "sha1_fk i b c d =
     (if i < 20 then ((b AND c) OR (NOT b AND d), 0x5A827999)
      else if i < 40 then (b XOR c XOR d, 0x6ED9EBA1)
      else if i < 60 then ((b AND c) OR (b AND d) OR (c AND d), 0x8F1BBCDC)
      else (b XOR c XOR d, 0xCA62C1D6))"

definition sha1_round :: "nat \<times> u32 \<Rightarrow> sha1_state \<Rightarrow> sha1_state" where
  "sha1_round iw s =
     (case (iw, s) of ((i, wi), (a, b, c, d, e)) \<Rightarrow>
        (case sha1_fk i b c d of (f, k) \<Rightarrow>
           (rotl 5 a + f + e + k + wi, a, rotl 30 b, c, d)))"

definition sha1_block :: "sha1_state \<Rightarrow> bytes \<Rightarrow> sha1_state" where
  "sha1_block st p =
     (case (st, fold sha1_round (zip [0 ..< 80] (sha1_schedule p)) st) of
        ((s0, s1, s2, s3, s4), (a, b, c, d, e)) \<Rightarrow> (s0 + a, s1 + b, s2 + c, s3 + d, s4 + e))"

definition sha1_init :: sha1_state where
  "sha1_init = (0x67452301, 0xEFCDAB89, 0x98BADCFE, 0x10325476, 0xC3D2E1F0)"

definition be32_bytes :: "u32 \<Rightarrow> bytes" where
  "be32_bytes v = [ucast (drop_bit 24 v), ucast (drop_bit 16 v), ucast (drop_bit 8 v), ucast v]"

definition sha1_out :: "sha1_state \<Rightarrow> bytes" where
  "sha1_out st = (case st of (a, b, c, d, e) \<Rightarrow>
     be32_bytes a @ be32_bytes b @ be32_bytes c @ be32_bytes d @ be32_bytes e)"

definition be64_bytes :: "u64 \<Rightarrow> bytes" where
  "be64_bytes v = map (\<lambda>i. ucast (drop_bit (56 - i * 8) v)) [0 ..< 8]"

text \<open>
  \<open>block\<close> is the tail with the trailing 1 bit; when the length no longer fits behind it, the
  block is flushed and the length goes into a fresh one.
\<close>

definition sha1 :: "bytes \<Rightarrow> bytes" where
  "sha1 msg =
     (let len = length msg;
          bits = word_of_nat len * 8 :: u64;
          full = len div 64;
          st1 = fold (\<lambda>i st. sha1_block st (mslice msg (i * 64) 64)) [0 ..< full] sha1_init;
          rem0 = len - full * 64;
          block = mslice msg (full * 64) rem0 @ [0x80];
          rem = rem0 + 1;
          (st2, block2) =
            (if rem > 56 then (sha1_block st1 (block @ replicate (64 - rem) 0), replicate 56 0)
             else (st1, block @ replicate (56 - rem) 0))
      in sha1_out (sha1_block st2 (block2 @ be64_bytes bits)))"

subsection \<open>Base64\<close>

definition B64 :: bytes where
  "B64 = asc ''ABCDEFGHIJKLMNOPQRSTUVWXYZabcdefghijklmnopqrstuvwxyz0123456789+/''"

definition b64_char :: "u32 \<Rightarrow> byte" where
  "b64_char v = B64 ! unat (v AND 63)"

fun base64 :: "bytes \<Rightarrow> bytes" where
  "base64 (a # b # c # r) =
     (let v = push_bit 16 (ucast a) OR push_bit 8 (ucast b) OR ucast c :: u32
      in [b64_char (drop_bit 18 v), b64_char (drop_bit 12 v), b64_char (drop_bit 6 v), b64_char v]
         @ base64 r)"
| "base64 [a] =
     (let v = push_bit 16 (ucast a) :: u32
      in [b64_char (drop_bit 18 v), b64_char (drop_bit 12 v), 0x3D, 0x3D])"
| "base64 [a, b] =
     (let v = push_bit 16 (ucast a) OR push_bit 8 (ucast b) :: u32
      in [b64_char (drop_bit 18 v), b64_char (drop_bit 12 v), b64_char (drop_bit 6 v), 0x3D])"
| "base64 [] = []"

subsection \<open>The accept value\<close>

definition WS_GUID :: bytes where
  "WS_GUID = asc ''258EAFA5-E914-47DA-95CA-C5AB0DC85B11''"

definition ws_compute_accept :: "allocator \<Rightarrow> bytes \<Rightarrow> zcio_result + bytes" where
  "ws_compute_accept alloc key =
     (let tot = length key + length WS_GUID
      in if \<not> alloc tot then Inl ZCIO_ERR_NOMEM else Inr (base64 (sha1 (key @ WS_GUID))))"

subsection \<open>The digest is the one of the padded message\<close>

definition sha1_pad :: "bytes \<Rightarrow> bytes" where
  "sha1_pad msg = msg @ [0x80] @ replicate ((119 - length msg mod 64) mod 64) 0
     @ be64_bytes (word_of_nat (length msg) * 8)"

definition sha1_padded :: "bytes \<Rightarrow> bytes" where
  "sha1_padded m = sha1_out (fold (\<lambda>i st. sha1_block st (mslice m (i * 64) 64)) [0 ..< length m div 64] sha1_init)"

lemma be64_length [simp]: "length (be64_bytes v) = 8"
  by (simp add: be64_bytes_def)

lemma mslice_skip: "length a = off \<Longrightarrow> mslice (a @ b) off n = take n b"
  by (simp add: mslice_def)

lemma mslice_in_prefix: "off + n \<le> length a \<Longrightarrow> mslice (a @ b) off n = mslice a off n"
  by (simp add: mslice_def)

lemma sha1_prefix_fold:
  assumes "k * 64 \<le> length msg"
  shows "fold (\<lambda>i st. sha1_block st (mslice (msg @ t) (i * 64) 64)) [0 ..< k] s
    = fold (\<lambda>i st. sha1_block st (mslice msg (i * 64) 64)) [0 ..< k] s"
  using assms by (intro fold_cong) (auto simp: mslice_in_prefix)

text \<open>
  The digest \<open>sha1\<close> computes with its in-place padding of the last block is the digest of
  the message padded as FIPS 180-4 prescribes (a 1 bit, zeros up to 56 modulo 64, the length in
  bits as a 64-bit big-endian number), for every message, whichever side of the 56-byte boundary
  its tail falls on.
\<close>

lemma sha1_is_fips_digest: "sha1 msg = sha1_padded (sha1_pad msg)"
proof -
  define q r where "q = length msg div 64" and "r = length msg mod 64"
  define L where "L = be64_bytes (word_of_nat (length msg) * 8)"
  define head tl' where "head = take (q * 64) msg" and "tl' = drop (q * 64) msg"
  have r: "r < 64" "length msg = q * 64 + r" by (simp_all add: q_def r_def)
  have msg: "msg = head @ tl'" "length head = q * 64" "length tl' = r"
    using r by (simp_all add: head_def tl'_def)
  have hd_tl: "msg @ t = head @ (tl' @ t)" for t by (simp add: msg(1))
  have L: "length L = 8" by (simp add: L_def)
  have tl: "length msg - q * 64 = r" "mslice msg (q * 64) r = tl'" using r by (simp_all add: mslice_def tl'_def)
  have pre: "fold (\<lambda>i st. sha1_block st (mslice (msg @ t) (i * 64) 64)) [0 ..< q] s
    = fold (\<lambda>i st. sha1_block st (mslice msg (i * 64) 64)) [0 ..< q] s" for t s
    using r by (intro sha1_prefix_fold) simp
  show ?thesis
  proof (cases "r < 56")
    case True
    have pad: "sha1_pad msg = msg @ [0x80] @ replicate (55 - r) 0 @ L"
      using True by (simp add: sha1_pad_def L_def flip: r_def) (simp add: mod_if)
    have n: "length (sha1_pad msg) div 64 = Suc q" using True r L by (simp add: pad)
    have b: "mslice (sha1_pad msg) (q * 64) 64 = tl' @ [0x80] @ replicate (55 - r) 0 @ L"
      unfolding pad hd_tl append_assoc using msg(2,3) True L by (subst mslice_skip) simp_all
    show ?thesis
      unfolding sha1_padded_def n using pre b True
      by (simp add: sha1_def Let_def tl pad flip: q_def L_def)
  next
    case False
    have pad: "sha1_pad msg = msg @ [0x80] @ replicate (63 - r) 0 @ replicate 56 0 @ L"
      using False r by (simp add: sha1_pad_def L_def flip: r_def replicate_add)
    have n: "length (sha1_pad msg) div 64 = Suc (Suc q)" using False r L by (simp add: pad)
    have b1: "mslice (sha1_pad msg) (q * 64) 64 = tl' @ [0x80] @ replicate (63 - r) 0"
    proof -
      have "sha1_pad msg = head @ ((tl' @ [0x80] @ replicate (63 - r) 0) @ (replicate 56 0 @ L))" by (simp add: pad hd_tl)
      then show ?thesis using msg(2,3) False r(1) by (simp only:) (subst mslice_skip, simp_all del: append_assoc)
    qed
    have b2: "mslice (sha1_pad msg) (Suc q * 64) 64 = replicate 56 0 @ L"
    proof -
      have "sha1_pad msg = (msg @ [0x80] @ replicate (63 - r) 0) @ (replicate 56 0 @ L)" by (simp add: pad)
      then show ?thesis using False r L by (simp only:) (subst mslice_skip, simp_all)
    qed
    show ?thesis
      unfolding sha1_padded_def n using pre b1 b2 False r(1)
      by (simp add: sha1_def Let_def tl pad flip: q_def L_def)
  qed
qed

subsection \<open>Base64 is inverted by a decoder\<close>

definition b64_value :: "byte \<Rightarrow> u32 option" where
  "b64_value c = map_of (zip B64 (map of_nat [0 ..< 64])) c"

text \<open>The reference decoder: quartets, with one or two padding signs only at the very end.\<close>

fun b64_decode :: "bytes \<Rightarrow> bytes option" where
  "b64_decode [] = Some []"
| "b64_decode (a # b # c # d # r) =
     (case (b64_value a, b64_value b) of
        (Some x, Some y) \<Rightarrow>
          (if d = 0x3D \<and> r = [] then
             (if c = 0x3D then Some [ucast (drop_bit 16 (push_bit 18 x OR push_bit 12 y))]
              else case b64_value c of
                None \<Rightarrow> None
              | Some z \<Rightarrow> (let v = push_bit 18 x OR push_bit 12 y OR push_bit 6 z
                           in Some [ucast (drop_bit 16 v), ucast (drop_bit 8 v)]))
           else case (b64_value c, b64_value d, b64_decode r) of
             (Some z, Some t, Some s) \<Rightarrow>
               (let v = push_bit 18 x OR push_bit 12 y OR push_bit 6 z OR t
                in Some (ucast (drop_bit 16 v) # ucast (drop_bit 8 v) # ucast v # s))
           | _ \<Rightarrow> None)
      | _ \<Rightarrow> None)"
| "b64_decode _ = None"

lemma B64_table: "length B64 = 64" "0x3D \<notin> set B64" "distinct B64"
  by (simp_all add: B64_def)

lemma and_63: "(v AND 63 :: u32) = take_bit 6 v"
  by (simp add: take_bit_eq_mask mask_eq_exp_minus_1)

lemma unat_and_63: "unat (v AND 63 :: u32) < 64"
proof -
  have "v AND 63 \<le> (63 :: u32)" by (rule word_and_le1)
  then show ?thesis by (simp add: word_le_nat_alt)
qed

lemma b64_char_value: "b64_value (b64_char v) = Some (take_bit 6 v)"
proof -
  have "b64_value (B64 ! unat (v AND 63)) = Some (map of_nat [0 ..< 64] ! unat (v AND 63))"
    unfolding b64_value_def using unat_and_63 [of v] B64_table
    by (intro map_of_zip_nth) simp_all
  then show ?thesis using unat_and_63 [of v] by (simp add: b64_char_def and_63 del: upt_Suc)
qed

lemma b64_char_not_pad [simp]: "b64_char v \<noteq> 0x3D"
  using B64_table(2) nth_mem [of "unat (v AND 63)" B64] unat_and_63 [of v] B64_table(1)
  unfolding b64_char_def by metis

lemma sextets_2:
  fixes v :: u32
  shows "push_bit 18 (take_bit 6 (drop_bit 18 v)) OR push_bit 12 (take_bit 6 (drop_bit 12 v))
    = push_bit 12 (take_bit 12 (drop_bit 12 v))" (is "?l = ?r")
proof (rule bit_word_eqI)
  fix n assume n: "n < LENGTH(32)"
  consider "n < 12" | "12 \<le> n" "n < 18" | "18 \<le> n" "n < 24" | "24 \<le> n" by linarith
  then show "bit ?l n \<longleftrightarrow> bit ?r n"
    using n by cases (auto simp: bit_simps less_diff_conv2)
qed

lemma sextets_3:
  fixes v :: u32
  shows "push_bit 12 (take_bit 12 (drop_bit 12 v)) OR push_bit 6 (take_bit 6 (drop_bit 6 v))
    = push_bit 6 (take_bit 18 (drop_bit 6 v))" (is "?l = ?r")
proof (rule bit_word_eqI)
  fix n assume n: "n < LENGTH(32)"
  consider "n < 6" | "6 \<le> n" "n < 12" | "12 \<le> n" "n < 24" | "24 \<le> n" by linarith
  then show "bit ?l n \<longleftrightarrow> bit ?r n"
    using n by cases (auto simp: bit_simps less_diff_conv2)
qed

lemma sextets_4:
  fixes v :: u32
  shows "push_bit 6 (take_bit 18 (drop_bit 6 v)) OR take_bit 6 v = take_bit 24 v" (is "?l = ?r")
proof (rule bit_word_eqI)
  fix n assume n: "n < LENGTH(32)"
  consider "n < 6" | "6 \<le> n" "n < 24" | "24 \<le> n" by linarith
  then show "bit ?l n \<longleftrightarrow> bit ?r n"
    using n by cases (auto simp: bit_simps less_diff_conv2)
qed

lemmas sextets = sextets_2 sextets_3 sextets_4

text \<open>What the decoder takes out of the assembled sextets.\<close>

lemma octet_of_sextets:
  fixes v :: u32
  shows "ucast (drop_bit 16 (take_bit 24 v)) = (ucast (drop_bit 16 v) :: byte)"
    "ucast (drop_bit 8 (take_bit 24 v)) = (ucast (drop_bit 8 v) :: byte)"
    "ucast (take_bit 24 v) = (ucast v :: byte)"
    "ucast (drop_bit 16 (push_bit 6 (take_bit 18 (drop_bit 6 v)))) = (ucast (drop_bit 16 v) :: byte)"
    "ucast (drop_bit 8 (push_bit 6 (take_bit 18 (drop_bit 6 v)))) = (ucast (drop_bit 8 v) :: byte)"
    "ucast (drop_bit 16 (push_bit 12 (take_bit 12 (drop_bit 12 v)))) = (ucast (drop_bit 16 v) :: byte)"
  by (rule bit_word_eqI; simp add: bit_simps less_diff_conv2)+

lemma quartet:
  "b64_decode (b64_char (drop_bit 18 v) # b64_char (drop_bit 12 v) # b64_char (drop_bit 6 v) # b64_char v # s) =
     map_option (\<lambda>t. ucast (drop_bit 16 v) # ucast (drop_bit 8 v) # ucast v # t) (b64_decode s)"
  by (simp only: b64_decode.simps b64_char_value b64_char_not_pad option.case prod.case if_False simp_thms
      or.assoc [symmetric] sextets octet_of_sextets Let_def) (simp split: option.split)

lemma octets:
  fixes a b c :: byte
  defines "v \<equiv> push_bit 16 (ucast a) OR push_bit 8 (ucast b) OR ucast c :: u32"
  shows "ucast (drop_bit 16 v) = a" "ucast (drop_bit 8 v) = b" "ucast v = c"
  unfolding v_def by (rule bit_word_eqI; auto simp: bit_simps dest: bit_imp_le_length)+

lemma octets_short:
  fixes a b :: byte
  shows "ucast (drop_bit 16 (push_bit 16 (ucast a) :: u32)) = a"
    "ucast (drop_bit 16 (push_bit 16 (ucast a) OR push_bit 8 (ucast b) :: u32)) = a"
    "ucast (drop_bit 8 (push_bit 16 (ucast a) OR push_bit 8 (ucast b) :: u32)) = b"
  by (rule bit_word_eqI; auto simp: bit_simps dest: bit_imp_le_length)+

lemma base64_inverse: "b64_decode (base64 x) = Some x"
proof (induction x rule: base64.induct)
  case (1 a b c r)
  then show ?case by (simp only: base64.simps Let_def append.simps quartet octets option.map)
next
  case (2 a)
  then show ?case
    by (simp only: base64.simps Let_def b64_decode.simps b64_char_value option.case prod.case simp_thms if_True
        sextets octet_of_sextets octets_short)
next
  case (3 a b)
  then show ?case
    by (simp only: base64.simps Let_def b64_decode.simps b64_char_value b64_char_not_pad option.case prod.case
        simp_thms if_True if_False or.assoc [symmetric] sextets octet_of_sextets)
      (simp only: or.assoc octets_short)
qed simp

text \<open>
  Base64 loses nothing: the decoder of RFC 4648 gives back the bytes that \<open>base64\<close>
  encoded, for every length, padded endings included.
\<close>

theorem base64_roundtrip: "b64_decode (base64 x) = Some x"
  by (rule base64_inverse)

lemma base64_length: "length (base64 x) = (length x + 2) div 3 * 4"
proof (induction x rule: base64.induct)
  case (1 a b c r)
  have "(5 + length r) div 3 = Suc ((length r + 2) div 3)" by simp
  with 1 show ?case by (simp add: Let_def)
qed (simp_all add: Let_def)

lemma base64_set: "set (base64 x) \<subseteq> insert 0x3D (set B64)"
proof -
  have b: "b64_char v \<in> set B64" for v
    using nth_mem [of "unat (v AND 63)" B64] unat_and_63 [of v] B64_table(1) by (simp add: b64_char_def)
  show ?thesis by (induction x rule: base64.induct) (simp_all add: Let_def b)
qed

lemma sha1_length [simp]: "length (sha1 m) = 20"
  by (simp add: sha1_def Let_def sha1_out_def be32_bytes_def split: prod.splits)

text \<open>
  C38. The accept value of every key is a Base64 text of exactly 28 characters, so that with its
  terminator it fills the array \<open>out[29]\<close> and never exceeds it, and it decodes to the 20-byte
  digest of the key followed by the GUID of RFC 6455.
\<close>

theorem ws_accept_well_typed:
  assumes "ws_compute_accept alloc key = Inr a"
  shows "length a = 28 \<and> set a \<subseteq> insert 0x3D (set B64) \<and> b64_decode a = Some (sha1 (key @ WS_GUID)) \<and> length (sha1 (key @ WS_GUID)) = 20"
  using assms base64_set [of "sha1 (key @ WS_GUID)"] base64_inverse
  by (auto simp: ws_compute_accept_def Let_def base64_length split: if_splits)

theorem ws_accept_well_typed_witness:
  "ws_compute_accept (\<lambda>_. True) (asc ''key'') = Inr (base64 (sha1 (asc ''key'' @ WS_GUID))) \<and>
   length (base64 (sha1 (asc ''key'' @ WS_GUID))) = 28"
proof -
  have c: "ws_compute_accept (\<lambda>_. True) (asc ''key'') = Inr (base64 (sha1 (asc ''key'' @ WS_GUID)))"
    by (simp add: ws_compute_accept_def)
  from ws_accept_well_typed [OF c] c show ?thesis by blast
qed

end
