(* ===== verification/Zc_Ws.thy ===== *)
theory Zc_Ws
  imports Zc_Membuf Zc_H1 Zc_WsKey
begin

unbundle bit_operations_syntax

text \<open>
  WebSocket sessions (\<open>src/ws.c\<close>): frame output with masking, the frame parser and
  reassembler, sending, receiving, pings and the closing handshake. The transport is a stream of
  \<open>Zc_Stream\<close>, whose calls may not return; a session operation is then \<open>None\<close>. Entropy, the clock
  and the socket time-out are parameters (\<open>ws_env\<close>); \<open>ws_draws\<close> and \<open>ws_ticks\<close> count the calls made
  to the first two, so that different calls may be answered differently.
\<close>

subsection \<open>Data\<close>

definition WS_DEFAULT_MAX_MSG :: nat where "WS_DEFAULT_MAX_MSG = 16 * 1024 * 1024"
definition WS_DEFAULT_TIMEOUT :: int where "WS_DEFAULT_TIMEOUT = 30000"

definition WS_OP_CONT :: byte where "WS_OP_CONT = 0x0"
definition WS_OP_TEXT :: byte where "WS_OP_TEXT = 0x1"
definition WS_OP_BIN :: byte where "WS_OP_BIN = 0x2"
definition WS_OP_CLOSE :: byte where "WS_OP_CLOSE = 0x8"
definition WS_OP_PING :: byte where "WS_OP_PING = 0x9"
definition WS_OP_PONG :: byte where "WS_OP_PONG = 0xA"

lemmas ws_ops = WS_OP_CONT_def WS_OP_TEXT_def WS_OP_BIN_def WS_OP_CLOSE_def WS_OP_PING_def WS_OP_PONG_def

datatype zcio_ws_type = ZCIO_WS_TEXT | ZCIO_WS_BINARY

text \<open>What \<open>ws_pump\<close> returns; a message is the contents of \<open>*out\<close>.\<close>

datatype ws_ret = WS_MSG zcio_ws_type bytes | WS_MORE | WS_CLOSED | WS_ERR zcio_result

record 'c zcio_ws =
  ws_stream :: "'c zcio_stream option"
  ws_client :: bool
  ws_tls_ctx :: bool
  ws_in :: zhs_buf
  ws_frag :: zhs_buf
  ws_cur_opcode :: byte
  ws_frag_active :: bool
  ws_max_msg_bytes :: nat
  ws_timeout_ms :: int
  ws_is_server :: bool
  ws_close_sent :: bool
  ws_close_recv :: bool
  ws_failed :: bool
  ws_close_code :: u16
  ws_draws :: nat
  ws_ticks :: nat

record 'c ws_env =
  we_alloc :: allocator
  we_rand :: "nat \<Rightarrow> nat \<Rightarrow> bytes option"
  we_now :: "nat \<Rightarrow> nat"
  we_timeout :: "'c zcio_stream option \<Rightarrow> int \<Rightarrow> 'c zcio_stream option"

definition ws_apply_timeout :: "'c ws_env \<Rightarrow> 'c zcio_ws \<Rightarrow> int \<Rightarrow> 'c zcio_ws" where
  "ws_apply_timeout env ws t = ws\<lparr>ws_stream := we_timeout env (ws_stream ws) t\<rparr>"

subsection \<open>Frame output\<close>

definition be16_bytes :: "u16 \<Rightarrow> bytes" where
  "be16_bytes v = [ucast (drop_bit 8 v), ucast v]"

definition ws_frame_hdr :: "bool \<Rightarrow> byte \<Rightarrow> bool \<Rightarrow> nat \<Rightarrow> bytes" where
  "ws_frame_hdr is_server opcode fin len =
     (let b0 = (if fin then 0x80 else 0) OR (opcode AND 0x0F); mbit = (if is_server then 0 else 0x80) in
      if len < 126 then [b0, mbit OR word_of_nat len]
      else if len \<le> 0xFFFF then [b0, mbit OR 126, word_of_nat (drop_bit 8 len) AND 0xFF, word_of_nat len AND 0xFF]
      else [b0, mbit OR 127] @ be64_bytes (word_of_nat len))"

text \<open>\<open>src[i] ^ key[(off + i) & 3]\<close> for every byte of the piece that starts at \<open>off\<close>.\<close>

definition ws_mask :: "bytes \<Rightarrow> nat \<Rightarrow> bytes \<Rightarrow> bytes" where
  "ws_mask key off src = map (\<lambda>i. src ! i XOR key ! ((off + i) mod 4)) [0 ..< length src]"

function ws_mask_loop ::
  "'c zcio_stream option \<Rightarrow> bytes \<Rightarrow> bytes \<Rightarrow> nat \<Rightarrow> (zcio_result \<times> 'c zcio_stream option) option" where
  "ws_mask_loop s key src off =
     (if off < length src then
        (let c0 = length src - off; c = (if c0 > 1024 then 1024 else c0);
             chunk = ws_mask key off (mslice src off c)
         in case zcio_write_full s (Some chunk) c of
              None \<Rightarrow> None
            | Some (w, s') \<Rightarrow> if w \<noteq> int c then Some (ZCIO_ERR, s') else ws_mask_loop s' key src (off + c))
      else Some (ZCIO_OK, s))"
  by pat_completeness auto
termination
  by (relation "measure (\<lambda>(s, key, src, off). length src - off)") auto

declare ws_mask_loop.simps [simp del]

definition ws_send_frame ::
  "'c ws_env \<Rightarrow> 'c zcio_ws \<Rightarrow> byte \<Rightarrow> bool \<Rightarrow> bytes \<Rightarrow> (zcio_result \<times> 'c zcio_ws) option" where
  "ws_send_frame env ws opcode fin data =
     (case (if ws_is_server ws then Some [] else we_rand env (ws_draws ws) 4) of
        None \<Rightarrow> Some (ZCIO_ERR, ws\<lparr>ws_draws := ws_draws ws + 1\<rparr>)
      | Some key \<Rightarrow>
          (let hdr = ws_frame_hdr (ws_is_server ws) opcode fin (length data) @ key;
               ws0 = ws\<lparr>ws_draws := ws_draws ws + (if ws_is_server ws then 0 else 1)\<rparr>;
               ws1 = ws_apply_timeout env ws0 (ws_timeout_ms ws)
           in do {
             (w, s1) \<leftarrow> zcio_write_full (ws_stream ws1) (Some hdr) (length hdr);
             if w \<noteq> int (length hdr) then Some (ZCIO_ERR, ws1\<lparr>ws_stream := s1\<rparr>)
             else if length data = 0 then Some (ZCIO_OK, ws1\<lparr>ws_stream := s1\<rparr>)
             else if ws_is_server ws then do {
               (w2, s2) \<leftarrow> zcio_write_full s1 (Some data) (length data);
               Some (if w2 \<noteq> int (length data) then ZCIO_ERR else ZCIO_OK, ws1\<lparr>ws_stream := s2\<rparr>) }
             else do {
               (r, s2) \<leftarrow> ws_mask_loop s1 key data 0;
               Some (r, ws1\<lparr>ws_stream := s2\<rparr>) } }))"

definition ws_protocol_fail :: "'c ws_env \<Rightarrow> 'c zcio_ws \<Rightarrow> u16 \<Rightarrow> (ws_ret \<times> 'c zcio_ws) option" where
  "ws_protocol_fail env ws code =
     (if \<not> ws_close_sent ws then do {
        (r, ws1) \<leftarrow> ws_send_frame env ws WS_OP_CLOSE True (be16_bytes code);
        Some (WS_ERR ZCIO_ERR_PROTOCOL, ws1\<lparr>ws_close_sent := True, ws_failed := True\<rparr>) }
      else Some (WS_ERR ZCIO_ERR_PROTOCOL, ws\<lparr>ws_failed := True\<rparr>))"

subsection \<open>Frame input\<close>

definition ws_fill :: "'c ws_env \<Rightarrow> 'c zcio_ws \<Rightarrow> int \<Rightarrow> (int \<times> 'c zcio_ws) option" where
  "ws_fill env ws timeout_ms =
     (let ws1 = ws_apply_timeout env ws timeout_ms in do {
        (n, d, s) \<leftarrow> zcio_read (ws_stream ws1) True 4096;
        let ws2 = ws1\<lparr>ws_stream := s\<rparr> in
        Some (if n > 0 then
                (case zhs_buf_append (we_alloc env) (ws_in ws2) (take (nat n) d) of
                   (r, b) \<Rightarrow> (if r = ZCIO_OK then zcode ZCIO_OK else zcode ZCIO_ERR_NOMEM, ws2\<lparr>ws_in := b\<rparr>))
              else if n = 0 then (zcode ZCIO_ERR_EOF, ws2)
              else if n = zcode ZCIO_ERR_TIMEOUT \<or> n = zcode ZCIO_ERR_WOULDBLOCK
              then (zcode ZCIO_ERR_TIMEOUT, ws2)
              else (n, ws2)) })"

definition ws_emit :: "'c ws_env \<Rightarrow> byte \<Rightarrow> bytes \<Rightarrow> ws_ret" where
  "ws_emit env opcode data =
     (if \<not> we_alloc env (length data + 1) then WS_ERR ZCIO_ERR_NOMEM
      else WS_MSG (if opcode = WS_OP_TEXT then ZCIO_WS_TEXT else ZCIO_WS_BINARY) data)"

text \<open>
  The checks on the buffered bytes, up to the point where a whole frame is there: more bytes are
  needed, the session fails with a close code, or a frame with its opcode, its FIN and mask bits,
  the length of the header before the mask key and the length of the payload.
\<close>

datatype ws_parsed = PMore | PFail u16 | PFrame byte bool bool nat nat

definition ws_len8 :: "bytes \<Rightarrow> u64" where
  "ws_len8 p = fold (\<lambda>b len. push_bit 8 len OR ucast b) (mslice p 2 8) 0"

definition ws_known_opcode :: "byte \<Rightarrow> bool" where
  "ws_known_opcode opcode \<longleftrightarrow> \<not> (opcode \<noteq> WS_OP_CONT \<and> opcode \<noteq> WS_OP_TEXT \<and> opcode \<noteq> WS_OP_BIN \<and>
     opcode \<noteq> WS_OP_CLOSE \<and> opcode \<noteq> WS_OP_PING \<and> opcode \<noteq> WS_OP_PONG)"

definition ws_parse_frame :: "'c zcio_ws \<Rightarrow> ws_parsed" where
  "ws_parse_frame ws =
     (let p = ZHS_PTR (ws_in ws); avail = length p in
      if avail < 2 then PMore
      else if p ! 0 AND 0x70 \<noteq> 0 then PFail 1002
      else
        (let opcode = p ! 0 AND 0x0F; fin = (p ! 0 AND 0x80 \<noteq> 0); masked = (p ! 1 AND 0x80 \<noteq> 0);
             len7 = p ! 1 AND 0x7F;
             base = (if len7 = 126 then 4 else if len7 = 127 then 10 else 2)
         in if avail < base then PMore
         else
           (let len = (if len7 = 126 then push_bit 8 (ucast (p ! 2)) OR ucast (p ! 3)
                       else if len7 = 127 then ws_len8 p else ucast len7) :: u64
            in if len7 = 127 \<and> drop_bit 63 len \<noteq> 0 then PFail 1002
            else if ws_is_server ws \<and> \<not> masked then PFail 1002
            else if \<not> ws_is_server ws \<and> masked then PFail 1002
            else
              (let control = (opcode AND 0x08 \<noteq> 0) in
               if \<not> ws_known_opcode opcode then PFail 1002
               else if control \<and> (\<not> fin \<or> len > 125) then PFail 1002
               else if \<not> control \<and> (length (ZHS_PTR (ws_frag ws)) > ws_max_msg_bytes ws \<or>
                       unat len > szsub (ws_max_msg_bytes ws) (length (ZHS_PTR (ws_frag ws))))
               then PFail 1009
               else
                 (let data_off = (if masked then base + 4 else base) in
                  if avail < data_off then PMore
                  else if unat len > SIZE_MAX - data_off then PFail 1009
                  else if avail < data_off + unat len then PMore
                  else PFrame opcode fin masked base (unat len))))))"

text \<open>Unmasking happens in place, in the input buffer.\<close>

definition ws_unmask :: "zhs_buf \<Rightarrow> nat \<Rightarrow> nat \<Rightarrow> zhs_buf" where
  "ws_unmask b base len =
     (let p = ZHS_PTR b in
      b\<lparr>zb_data := memcpy (zb_data b) (zb_off b + base + 4) (ws_mask (mslice p base 4) 0 (mslice p (base + 4) len))\<rparr>)"

definition ws_close_code_ok :: "u16 \<Rightarrow> bool" where
  "ws_close_code_ok code \<longleftrightarrow> (code \<ge> 1000 \<and> code \<le> 1003) \<or> (code \<ge> 1007 \<and> code \<le> 1014)
     \<or> (code \<ge> 3000 \<and> code \<le> 4999)"

text \<open>
  The branches of the switch over a whole frame with payload \<open>d\<close>, whose bytes are the first \<open>n\<close>
  of the input; the result \<open>None\<close> is \<open>continue\<close>.
\<close>

definition ws_consume :: "'c zcio_ws \<Rightarrow> nat \<Rightarrow> 'c zcio_ws" where
  "ws_consume ws n = ws\<lparr>ws_in := zhs_buf_consume (ws_in ws) n\<rparr>"

definition ws_stop :: "(ws_ret \<times> 'c zcio_ws) option \<Rightarrow> (ws_ret option \<times> 'c zcio_ws) option" where
  "ws_stop x = map_option (map_prod Some id) x"

definition ws_on_ping :: "'c ws_env \<Rightarrow> 'c zcio_ws \<Rightarrow> bytes \<Rightarrow> nat \<Rightarrow> (ws_ret option \<times> 'c zcio_ws) option" where
  "ws_on_ping env ws d n = do {
     (s, ws1) \<leftarrow> ws_send_frame env ws WS_OP_PONG True d;
     Some (if s \<noteq> ZCIO_OK then Some (WS_ERR s) else None, ws_consume ws1 n) }"

definition ws_on_close :: "'c ws_env \<Rightarrow> 'c zcio_ws \<Rightarrow> bytes \<Rightarrow> nat \<Rightarrow> (ws_ret option \<times> 'c zcio_ws) option" where
  "ws_on_close env ws d n =
     (let len = length d;
          code = (if len \<ge> 2 then push_bit 8 (ucast (d ! 0)) OR ucast (d ! 1) else 1005) :: u16
      in if len = 1 then ws_stop (ws_protocol_fail env (ws_consume ws n) 1002)
      else if len \<ge> 2 \<and> \<not> ws_close_code_ok code then ws_stop (ws_protocol_fail env (ws_consume ws n) 1002)
      else if len > 2 \<and> \<not> zhs_utf8_valid (drop 2 d) then ws_stop (ws_protocol_fail env (ws_consume ws n) 1007)
      else
        (let ws1 = ws\<lparr>ws_close_code := code, ws_close_recv := True\<rparr> in
         if \<not> ws_close_sent ws1 then do {
           (r, ws2) \<leftarrow> ws_send_frame env ws1 WS_OP_CLOSE True (if len \<ge> 2 then be16_bytes code else []);
           Some (Some WS_CLOSED, ws_consume (ws2\<lparr>ws_close_sent := True\<rparr>) n) }
         else Some (Some WS_CLOSED, ws_consume ws1 n)))"

definition ws_on_data ::
  "'c ws_env \<Rightarrow> 'c zcio_ws \<Rightarrow> byte \<Rightarrow> bool \<Rightarrow> bytes \<Rightarrow> nat \<Rightarrow> (ws_ret option \<times> 'c zcio_ws) option" where
  "ws_on_data env ws opcode fin d n =
     (if ws_frag_active ws then ws_stop (ws_protocol_fail env ws 1002)
      else if fin then
        (if opcode = WS_OP_TEXT \<and> \<not> zhs_utf8_valid d then ws_stop (ws_protocol_fail env (ws_consume ws n) 1007)
         else Some (Some (ws_emit env opcode d), ws_consume ws n))
      else
        (case zhs_buf_append (we_alloc env) (ws_frag ws) d of
           (a, b) \<Rightarrow>
             (let ws1 = ws_consume (ws\<lparr>ws_frag_active := True, ws_cur_opcode := opcode, ws_frag := b\<rparr>) n
              in Some (if a \<noteq> ZCIO_OK then Some (WS_ERR ZCIO_ERR_NOMEM) else None, ws1))))"

definition ws_on_cont ::
  "'c ws_env \<Rightarrow> 'c zcio_ws \<Rightarrow> bool \<Rightarrow> bytes \<Rightarrow> nat \<Rightarrow> (ws_ret option \<times> 'c zcio_ws) option" where
  "ws_on_cont env ws fin d n =
     (if \<not> ws_frag_active ws then ws_stop (ws_protocol_fail env ws 1002)
      else
        (case zhs_buf_append (we_alloc env) (ws_frag ws) d of
           (a, b) \<Rightarrow>
             (let ws1 = ws_consume (ws\<lparr>ws_frag := b\<rparr>) n in
              if a \<noteq> ZCIO_OK then Some (Some (WS_ERR ZCIO_ERR_NOMEM), ws1)
              else if \<not> fin then Some (None, ws1)
              else
                (let mdat = ZHS_PTR (ws_frag ws1);
                     ws2 = ws1\<lparr>ws_frag_active := False, ws_frag := zhs_buf_reset (ws_frag ws1)\<rparr>
                 in if ws_cur_opcode ws1 = WS_OP_TEXT \<and> \<not> zhs_utf8_valid mdat
                    then ws_stop (ws_protocol_fail env ws2 1007)
                    else Some (Some (ws_emit env (ws_cur_opcode ws1) mdat), ws2)))))"

definition ws_on_frame ::
  "'c ws_env \<Rightarrow> 'c zcio_ws \<Rightarrow> byte \<Rightarrow> bool \<Rightarrow> bytes \<Rightarrow> nat \<Rightarrow> (ws_ret option \<times> 'c zcio_ws) option" where
  "ws_on_frame env ws opcode fin d n =
     (if opcode = WS_OP_PING then ws_on_ping env ws d n
      else if opcode = WS_OP_PONG then Some (None, ws_consume ws n)
      else if opcode = WS_OP_CLOSE then ws_on_close env ws d n
      else if opcode = WS_OP_TEXT \<or> opcode = WS_OP_BIN then ws_on_data env ws opcode fin d n
      else if opcode = WS_OP_CONT then ws_on_cont env ws fin d n
      else ws_stop (ws_protocol_fail env ws 1002))"

text \<open>One turn of the loop of \<open>ws_pump\<close>.\<close>

definition ws_pump_turn :: "'c ws_env \<Rightarrow> 'c zcio_ws \<Rightarrow> (ws_ret option \<times> 'c zcio_ws) option" where
  "ws_pump_turn env ws =
     (case ws_parse_frame ws of
        PMore \<Rightarrow> Some (Some WS_MORE, ws)
      | PFail code \<Rightarrow> ws_stop (ws_protocol_fail env ws code)
      | PFrame opcode fin masked base len \<Rightarrow>
          (let data_off = (if masked then base + 4 else base);
               ws1 = (if masked then ws\<lparr>ws_in := ws_unmask (ws_in ws) base len\<rparr> else ws);
               d = mslice (ZHS_PTR (ws_in ws1)) data_off len
           in ws_on_frame env ws1 opcode fin d (data_off + len)))"

subsection \<open>The parse loop ends\<close>

text \<open>A session without its transport and the counters of the calls to the environment.\<close>

definition ws_core :: "'c zcio_ws \<Rightarrow> 'c zcio_ws" where
  "ws_core ws = ws\<lparr>ws_stream := None, ws_draws := 0, ws_ticks := 0\<rparr>"

lemma ws_core_upd [simp]:
  "ws_core (ws\<lparr>ws_stream := s\<rparr>) = ws_core ws" "ws_core (ws\<lparr>ws_draws := k\<rparr>) = ws_core ws"
  "ws_core (ws\<lparr>ws_ticks := t\<rparr>) = ws_core ws"
  "ws_core (ws\<lparr>ws_in := b\<rparr>) = (ws_core ws)\<lparr>ws_in := b\<rparr>"
  "ws_core (ws\<lparr>ws_frag := f\<rparr>) = (ws_core ws)\<lparr>ws_frag := f\<rparr>"
  "ws_core (ws\<lparr>ws_close_sent := c\<rparr>) = (ws_core ws)\<lparr>ws_close_sent := c\<rparr>"
  "ws_core (ws\<lparr>ws_failed := c\<rparr>) = (ws_core ws)\<lparr>ws_failed := c\<rparr>"
  by (simp_all add: ws_core_def)

lemma ws_core_fields:
  assumes "ws_core a = ws_core b"
  shows "ws_in a = ws_in b" "ws_frag a = ws_frag b" "ws_cur_opcode a = ws_cur_opcode b"
    "ws_frag_active a = ws_frag_active b" "ws_max_msg_bytes a = ws_max_msg_bytes b"
    "ws_timeout_ms a = ws_timeout_ms b" "ws_is_server a = ws_is_server b"
    "ws_close_sent a = ws_close_sent b" "ws_close_recv a = ws_close_recv b"
    "ws_failed a = ws_failed b" "ws_close_code a = ws_close_code b"
  using arg_cong [OF assms, of ws_in] arg_cong [OF assms, of ws_frag] arg_cong [OF assms, of ws_cur_opcode]
    arg_cong [OF assms, of ws_frag_active] arg_cong [OF assms, of ws_max_msg_bytes]
    arg_cong [OF assms, of ws_timeout_ms] arg_cong [OF assms, of ws_is_server]
    arg_cong [OF assms, of ws_close_sent] arg_cong [OF assms, of ws_close_recv]
    arg_cong [OF assms, of ws_failed] arg_cong [OF assms, of ws_close_code]
  by (simp_all add: ws_core_def)

lemma send_frame_core:
  assumes "ws_send_frame env ws op fin d = Some (r, ws')"
  shows "ws_core ws' = ws_core ws"
proof (cases "if ws_is_server ws then Some [] else we_rand env (ws_draws ws) 4")
  case None
  then show ?thesis using assms by (auto simp: ws_send_frame_def)
next
  case (Some key)
  then show ?thesis using assms
    by (auto simp: ws_send_frame_def Let_def ws_apply_timeout_def bind_eq_Some_conv split: if_splits)
qed

lemma protocol_fail_core:
  assumes "ws_protocol_fail env ws code = Some (r, ws')"
  shows "r = WS_ERR ZCIO_ERR_PROTOCOL" "ws_core ws' = (ws_core ws)\<lparr>ws_close_sent := True, ws_failed := True\<rparr>"
proof -
  show "r = WS_ERR ZCIO_ERR_PROTOCOL" using assms by (auto simp: ws_protocol_fail_def bind_eq_Some_conv split: if_splits)
  show "ws_core ws' = (ws_core ws)\<lparr>ws_close_sent := True, ws_failed := True\<rparr>"
  proof (cases "ws_close_sent ws")
    case True
    then have "(ws_core ws)\<lparr>ws_close_sent := True\<rparr> = ws_core ws" by (simp add: ws_core_def)
    then show ?thesis using assms True by (auto simp: ws_protocol_fail_def)
  next
    case False
    then show ?thesis using assms by (auto simp: ws_protocol_fail_def bind_eq_Some_conv dest: send_frame_core)
  qed
qed

lemma stop_None: "ws_stop x \<noteq> Some (None, ws')"
  by (cases x) (auto simp: ws_stop_def)

lemma on_ping_continue:
  assumes "ws_on_ping env ws d n = Some (None, ws')"
  shows "ws_in ws' = zhs_buf_consume (ws_in ws) n"
proof -
  from assms obtain s ws1 where s: "ws_send_frame env ws WS_OP_PONG True d = Some (s, ws1)"
    and ws': "ws' = ws_consume ws1 n"
    by (auto simp: ws_on_ping_def bind_eq_Some_conv)
  from s have "ws_in ws1 = ws_in ws" by (rule ws_core_fields(1) [OF send_frame_core])
  then show ?thesis using ws' by (simp add: ws_consume_def)
qed

lemma on_close_stops: "ws_on_close env ws d n \<noteq> Some (None, ws')"
  by (auto simp: ws_on_close_def Let_def stop_None bind_eq_Some_conv)

lemma on_data_continue:
  "ws_on_data env ws op fin d n = Some (None, ws') \<Longrightarrow> ws_in ws' = zhs_buf_consume (ws_in ws) n"
  by (auto simp: ws_on_data_def Let_def stop_None ws_consume_def split: if_splits prod.splits)

lemma on_cont_continue:
  "ws_on_cont env ws fin d n = Some (None, ws') \<Longrightarrow> ws_in ws' = zhs_buf_consume (ws_in ws) n"
  by (auto simp: ws_on_cont_def Let_def stop_None ws_consume_def split: if_splits prod.splits)

lemma on_frame_continue:
  assumes "ws_on_frame env ws op fin d n = Some (None, ws')"
  shows "ws_in ws' = zhs_buf_consume (ws_in ws) n"
  using assms unfolding ws_on_frame_def
  by (simp only: stop_None on_close_stops split: if_splits)
    (auto simp: ws_consume_def dest: on_ping_continue on_data_continue on_cont_continue)

text \<open>What a complete frame says about the bytes it was parsed from.\<close>

definition ws_data_off :: "bool \<Rightarrow> nat \<Rightarrow> nat" where
  "ws_data_off masked base = (if masked then base + 4 else base)"

lemma parse_frame_bounds:
  assumes "ws_parse_frame ws = PFrame op fin masked base len"
  shows "2 \<le> base" "base \<le> 10" "ws_data_off masked base + len \<le> length (ZHS_PTR (ws_in ws))"
    "masked = ws_is_server ws" "ws_known_opcode op"
  using assms by (auto simp: ws_parse_frame_def Let_def ws_data_off_def split: if_splits)

lemma parse_frame_limits:
  assumes "ws_parse_frame ws = PFrame op fin masked base len"
  shows "op AND 8 \<noteq> 0 \<Longrightarrow> fin \<and> len \<le> 125"
    "op AND 8 = 0 \<Longrightarrow> length (ZHS_PTR (ws_frag ws)) + len \<le> ws_max_msg_bytes ws"
proof -
  have word_le: "\<not> len > (125 :: u64) \<Longrightarrow> unat len \<le> 125" for len
    by (simp add: not_less word_le_nat_alt)
  show "op AND 8 \<noteq> 0 \<Longrightarrow> fin \<and> len \<le> 125"
    using assms word_le by (auto simp: ws_parse_frame_def Let_def split: if_splits)
  show "op AND 8 = 0 \<Longrightarrow> length (ZHS_PTR (ws_frag ws)) + len \<le> ws_max_msg_bytes ws"
    using assms by (auto simp: ws_parse_frame_def Let_def split: if_splits)
qed

lemma ws_mask_length [simp]: "length (ws_mask key off s) = length s"
  by (simp add: ws_mask_def)

lemma drop_memcpy: "off \<le> length m \<Longrightarrow> drop off (memcpy m (off + k) s) = memcpy (drop off m) k s"
  by (simp add: memcpy_def drop_take ac_simps)

lemma unmask_view:
  assumes "base + 4 + len \<le> length (ZHS_PTR b)"
  shows "ZHS_PTR (ws_unmask b base len) = memcpy (ZHS_PTR b) (base + 4)
      (ws_mask (mslice (ZHS_PTR b) base 4) 0 (mslice (ZHS_PTR b) (base + 4) len))"
    "zb_wf b \<Longrightarrow> zb_wf (ws_unmask b base len)"
proof -
  have off: "zb_off b + (base + 4 + len) \<le> length (zb_data b)" using assms by (simp add: ZHS_PTR_def)
  then show "ZHS_PTR (ws_unmask b base len) = memcpy (ZHS_PTR b) (base + 4)
      (ws_mask (mslice (ZHS_PTR b) base 4) 0 (mslice (ZHS_PTR b) (base + 4) len))"
    by (simp add: ws_unmask_def Let_def ZHS_PTR_def drop_memcpy add.assoc)
  show "zb_wf b \<Longrightarrow> zb_wf (ws_unmask b base len)"
    using off by (simp add: ws_unmask_def Let_def zb_wf_def ZHS_PTR_def)
qed

lemma unmask_length: "base + 4 + len \<le> length (ZHS_PTR b) \<Longrightarrow> length (ZHS_PTR (ws_unmask b base len)) = length (ZHS_PTR b)"
  by (simp add: unmask_view)

lemma pump_turn_shorter:
  assumes "ws_pump_turn env ws = Some (None, ws')"
  shows "length (ZHS_PTR (ws_in ws')) < length (ZHS_PTR (ws_in ws))"
proof (cases "ws_parse_frame ws")
  case (PFrame op fin masked base len)
  note b = parse_frame_bounds [OF PFrame]
  define ws1 where "ws1 = (if masked then ws\<lparr>ws_in := ws_unmask (ws_in ws) base len\<rparr> else ws)"
  define d n where "d = mslice (ZHS_PTR (ws_in ws1)) (ws_data_off masked base) len" and "n = ws_data_off masked base + len"
  have l: "length (ZHS_PTR (ws_in ws1)) = length (ZHS_PTR (ws_in ws))"
    using b(3) by (simp add: ws1_def ws_data_off_def unmask_length split: if_splits)
  have "ws_on_frame env ws1 op fin d n = Some (None, ws')"
    using assms by (simp add: ws_pump_turn_def PFrame Let_def ws1_def d_def n_def ws_data_off_def)
  then have "ws_in ws' = zhs_buf_consume (ws_in ws1) n" by (rule on_frame_continue)
  moreover have "2 \<le> n" using b(1) by (simp add: n_def ws_data_off_def)
  ultimately show ?thesis using b(1,3) l consume_shorter [of "ws_in ws1" n]
    by (cases "ZHS_PTR (ws_in ws1) = []") (simp_all add: ws_data_off_def split: if_splits)
qed (use assms in \<open>simp_all add: ws_pump_turn_def stop_None\<close>)

function ws_pump :: "'c ws_env \<Rightarrow> 'c zcio_ws \<Rightarrow> (ws_ret \<times> 'c zcio_ws) option" where
  "ws_pump env ws =
     (case ws_pump_turn env ws of
        None \<Rightarrow> None
      | Some (Some r, ws') \<Rightarrow> Some (r, ws')
      | Some (None, ws') \<Rightarrow> ws_pump env ws')"
  by pat_completeness auto
termination
  by (relation "measure (\<lambda>(env, ws). length (ZHS_PTR (ws_in ws)))") (simp_all add: pump_turn_shorter)

declare ws_pump.simps [simp del]

subsection \<open>Lifecycle, sending and receiving\<close>

definition ws_new :: "bool \<Rightarrow> 'c ws_env \<Rightarrow> 'c zcio_stream option \<Rightarrow> bool \<Rightarrow> bool \<Rightarrow> bool \<Rightarrow> 'c zcio_ws option" where
  "ws_new ok env st is_server client tls =
     (if \<not> ok then None
      else Some (ws_apply_timeout env
        \<lparr>ws_stream = st, ws_client = client, ws_tls_ctx = tls, ws_in = zhs_buf_zero, ws_frag = zhs_buf_zero,
         ws_cur_opcode = 0, ws_frag_active = False, ws_max_msg_bytes = WS_DEFAULT_MAX_MSG,
         ws_timeout_ms = WS_DEFAULT_TIMEOUT, ws_is_server = is_server, ws_close_sent = False,
         ws_close_recv = False, ws_failed = False, ws_close_code = 0, ws_draws = 0, ws_ticks = 0\<rparr>
        WS_DEFAULT_TIMEOUT))"

definition zcio_ws_send ::
  "'c ws_env \<Rightarrow> 'c zcio_ws option \<Rightarrow> zcio_ws_type option \<Rightarrow> bytes \<Rightarrow> (zcio_result \<times> 'c zcio_ws option) option" where
  "zcio_ws_send env ws type data =
     (case ws of
        None \<Rightarrow> Some (ZCIO_ERR_INVALID_ARG, None)
      | Some w \<Rightarrow>
          if ws_failed w \<or> ws_close_sent w then Some (ZCIO_ERR, ws)
          else (case type of
              None \<Rightarrow> Some (ZCIO_ERR_INVALID_ARG, ws)
            | Some t \<Rightarrow>
                if t = ZCIO_WS_TEXT \<and> length data \<noteq> 0 \<and> \<not> zhs_utf8_valid data then Some (ZCIO_ERR_INVALID_ARG, ws)
                else map_option (map_prod id Some)
                       (ws_send_frame env w (if t = ZCIO_WS_TEXT then WS_OP_TEXT else WS_OP_BIN) True data)))"

definition zcio_ws_send_text ::
  "'c ws_env \<Rightarrow> 'c zcio_ws option \<Rightarrow> bytes option \<Rightarrow> (zcio_result \<times> 'c zcio_ws option) option" where
  "zcio_ws_send_text env ws txt =
     (case txt of None \<Rightarrow> Some (ZCIO_ERR_INVALID_ARG, ws) | Some t \<Rightarrow> zcio_ws_send env ws (Some ZCIO_WS_TEXT) t)"

definition zcio_ws_ping ::
  "'c ws_env \<Rightarrow> 'c zcio_ws option \<Rightarrow> bytes \<Rightarrow> (zcio_result \<times> 'c zcio_ws option) option" where
  "zcio_ws_ping env ws data =
     (case ws of
        None \<Rightarrow> Some (ZCIO_ERR_INVALID_ARG, None)
      | Some w \<Rightarrow>
          if ws_failed w \<or> ws_close_sent w then Some (ZCIO_ERR, ws)
          else if length data > 125 then Some (ZCIO_ERR_INVALID_ARG, ws)
          else map_option (map_prod id Some) (ws_send_frame env w WS_OP_PING True data))"

definition ws_now :: "'c ws_env \<Rightarrow> 'c zcio_ws \<Rightarrow> nat \<times> 'c zcio_ws" where
  "ws_now env ws = (we_now env (ws_ticks ws), ws\<lparr>ws_ticks := ws_ticks ws + 1\<rparr>)"

definition INT_MAX :: int where
  "INT_MAX = 2 ^ 31 - 1"

text \<open>
  The receive loop runs until a message, the end of the session or the deadline; without a
  deadline it may wait forever.
\<close>

partial_function (option) ws_recv_loop ::
  "'c ws_env \<Rightarrow> bool \<Rightarrow> nat \<Rightarrow> 'c zcio_ws \<Rightarrow> (int \<times> (zcio_ws_type \<times> bytes) option \<times> 'c zcio_ws) option" where
  "ws_recv_loop env bounded deadline ws =
     Option.bind (ws_pump env ws) (\<lambda>(r, ws1).
       case r of
         WS_MSG t d \<Rightarrow> Some (zcode ZCIO_OK, Some (t, d), ws1)
       | WS_CLOSED \<Rightarrow> Some (zcode ZCIO_ERR_EOF, None, ws1)
       | WS_ERR e \<Rightarrow> Some (zcode e, None, ws1)
       | WS_MORE \<Rightarrow>
           (let (now, ws2) = (if bounded then ws_now env ws1 else (0, ws1)) in
            if bounded \<and> now \<ge> deadline then Some (zcode ZCIO_ERR_TIMEOUT, None, ws2)
            else
              (let to = (if bounded then (if int (deadline - now) > INT_MAX then INT_MAX else int (deadline - now))
                         else -1)
               in Option.bind (ws_fill env ws2 to) (\<lambda>(fr, ws3).
                    if fr = zcode ZCIO_ERR_TIMEOUT then
                      (if \<not> bounded then ws_recv_loop env bounded deadline ws3
                       else Some (zcode ZCIO_ERR_TIMEOUT, None, ws3))
                    else if fr = zcode ZCIO_ERR_EOF then
                      Some (zcode ZCIO_ERR_EOF, None, ws3\<lparr>ws_failed := True\<rparr>)
                    else if fr < 0 then Some (fr, None, ws3)
                    else ws_recv_loop env bounded deadline ws3))))"

text \<open>The flag says whether the \<open>out\<close> argument is a valid pointer.\<close>

definition zcio_ws_recv ::
  "'c ws_env \<Rightarrow> 'c zcio_ws option \<Rightarrow> bool \<Rightarrow> int
     \<Rightarrow> (int \<times> (zcio_ws_type \<times> bytes) option \<times> 'c zcio_ws option) option" where
  "zcio_ws_recv env ws out timeout_ms =
     (case ws of
        None \<Rightarrow> Some (zcode ZCIO_ERR_INVALID_ARG, None, ws)
      | Some w \<Rightarrow>
          if \<not> out then Some (zcode ZCIO_ERR_INVALID_ARG, None, ws)
          else if ws_close_recv w \<or> ws_failed w then Some (zcode ZCIO_ERR_EOF, None, ws)
          else
            (let bounded = (timeout_ms \<ge> 0);
                 (now, w1) = (if bounded then ws_now env w else (0, w));
                 deadline = (if bounded then now + nat timeout_ms else 0)
             in map_option (\<lambda>(r, m, w2). (r, m, Some w2)) (ws_recv_loop env bounded deadline w1)))"

text \<open>The wait for the peer's close; \<open>(int)(deadline - now)\<close> is the cast to 32 bits.\<close>

partial_function (option) ws_close_wait :: "'c ws_env \<Rightarrow> nat \<Rightarrow> 'c zcio_ws \<Rightarrow> 'c zcio_ws option" where
  "ws_close_wait env deadline ws =
     (if ws_close_recv ws then Some ws
      else
        (let (now, ws1) = ws_now env ws in
         if now \<ge> deadline then Some ws1
         else Option.bind (ws_pump env ws1) (\<lambda>(r, ws2).
           case r of
             WS_MSG t d \<Rightarrow> ws_close_wait env deadline ws2
           | WS_CLOSED \<Rightarrow> Some ws2
           | WS_ERR e \<Rightarrow> Some (ws2\<lparr>ws_failed := True\<rparr>)
           | WS_MORE \<Rightarrow>
               Option.bind (ws_fill env ws2 (sint (word_of_nat (deadline - now) :: u32))) (\<lambda>(fr, ws3).
                 if fr = zcode ZCIO_ERR_TIMEOUT then
                   (let (now2, ws4) = ws_now env ws3 in
                    if now2 \<ge> deadline then Some ws4 else ws_close_wait env deadline ws4)
                 else if fr \<noteq> zcode ZCIO_OK then Some (ws3\<lparr>ws_failed := True\<rparr>)
                 else ws_close_wait env deadline ws3))))"

text \<open>The Close frame: the reason that was refused, or whether the wait for the echo follows.\<close>

definition ws_close_send ::
  "'c ws_env \<Rightarrow> 'c zcio_ws \<Rightarrow> u16 \<Rightarrow> bytes option \<Rightarrow> (zcio_result + bool \<times> 'c zcio_ws) option" where
  "ws_close_send env w code reason =
     (if \<not> ws_close_sent w \<and> \<not> ws_failed w then
        (let rl = (case reason of None \<Rightarrow> [] | Some r \<Rightarrow> r) in
         if length rl > 123 then Some (Inl ZCIO_ERR_INVALID_ARG)
         else if length rl \<noteq> 0 \<and> \<not> zhs_utf8_valid rl then Some (Inl ZCIO_ERR_INVALID_ARG)
         else do {
           (s, w1) \<leftarrow> ws_send_frame env w WS_OP_CLOSE True (be16_bytes code @ rl);
           let w2 = w1\<lparr>ws_close_sent := True\<rparr> in
           Some (if s \<noteq> ZCIO_OK then Inr (False, w2\<lparr>ws_failed := True\<rparr>) else Inr (True, w2)) })
      else Some (Inr (True, w)))"

definition zcio_ws_close ::
  "'c ws_env \<Rightarrow> 'c zcio_ws option \<Rightarrow> u16 \<Rightarrow> bytes option \<Rightarrow> (zcio_result \<times> 'c zcio_ws option) option" where
  "zcio_ws_close env ws code reason =
     (case ws of
        None \<Rightarrow> Some (ZCIO_ERR_INVALID_ARG, None)
      | Some w \<Rightarrow> do {
          x \<leftarrow> ws_close_send env w code reason;
          (case x of
             Inl e \<Rightarrow> Some (e, ws)
           | Inr (False, w1) \<Rightarrow> Some (ZCIO_OK, Some w1)
           | Inr (True, w1) \<Rightarrow>
               if \<not> ws_close_recv w1 \<and> \<not> ws_failed w1 then
                 (let (now, w2) = ws_now env w1;
                      deadline = now + nat (if ws_timeout_ms w2 > 0 then ws_timeout_ms w2 else WS_DEFAULT_TIMEOUT)
                  in map_option (\<lambda>w3. (ZCIO_OK, Some w3)) (ws_close_wait env deadline w2))
               else Some (ZCIO_OK, Some w1)) })"

definition zcio_ws_close_code :: "'c zcio_ws option \<Rightarrow> u16" where
  "zcio_ws_close_code ws = (case ws of None \<Rightarrow> 0 | Some w \<Rightarrow> ws_close_code w)"

definition zcio_ws_set_max_msg_bytes :: "'c zcio_ws option \<Rightarrow> nat \<Rightarrow> 'c zcio_ws option" where
  "zcio_ws_set_max_msg_bytes ws cap =
     (case ws of None \<Rightarrow> None | Some w \<Rightarrow> Some (if cap \<noteq> 0 then w\<lparr>ws_max_msg_bytes := cap\<rparr> else w))"

definition zcio_ws_set_timeout :: "'c zcio_ws option \<Rightarrow> int \<Rightarrow> 'c zcio_ws option" where
  "zcio_ws_set_timeout ws t = map_option (\<lambda>w. w\<lparr>ws_timeout_ms := t\<rparr>) ws"

text \<open>What freeing a session releases, after the best-effort close.\<close>

datatype ws_release = RelClient | RelTls | RelStream

definition zcio_ws_free :: "'c ws_env \<Rightarrow> 'c zcio_ws option \<Rightarrow> ws_release list option" where
  "zcio_ws_free env ws =
     (case ws of
        None \<Rightarrow> Some []
      | Some w \<Rightarrow> do {
          w1 \<leftarrow> (if \<not> ws_close_sent w \<and> \<not> ws_failed w then map_option snd (zcio_ws_close env ws 1000 None)
                  else Some ws);
          Some (if ws_client w then RelClient # (if ws_tls_ctx w then [RelTls] else [])
                else if \<not> Option.is_none (Option.bind w1 ws_stream) then [RelStream] else []) })"

end
