(* ===== verification/Zc_WsFrames.thy ===== *)
theory Zc_WsFrames
  imports Zc_Ws
begin

unbundle bit_operations_syntax

text \<open>
  What WebSocket sessions (\<open>Zc_Ws\<close>) guarantee: the invariant every operation keeps, that only
  messages within the limit and valid text are delivered, the wire format of frames (for every
  sink of the interface \<open>byte_sink\<close>), and that the parser inverts it, message by message and
  piece by piece.
\<close>

subsection \<open>The session invariant\<close>

text \<open>
  Both buffers are well formed and the reassembly buffer is never consumed from its front, a
  message under reassembly is a text or a binary message, and nothing is held for reassembly when
  there is none.
\<close>

definition ws_wf :: "'c zcio_ws \<Rightarrow> bool" where
  "ws_wf ws \<longleftrightarrow> zb_wf (ws_in ws) \<and> zb_wf (ws_frag ws) \<and> zb_off (ws_frag ws) = 0 \<and>
     ws_max_msg_bytes ws \<le> SIZE_MAX \<and>
     (if ws_frag_active ws then ws_cur_opcode ws = WS_OP_TEXT \<or> ws_cur_opcode ws = WS_OP_BIN
      else ZHS_PTR (ws_frag ws) = [])"

text \<open>What an outcome of the parser promises about the session it leaves.\<close>

definition ws_msg_ok :: "nat \<Rightarrow> zcio_ws_type \<Rightarrow> bytes \<Rightarrow> bool" where
  "ws_msg_ok cap t d \<longleftrightarrow> length d \<le> cap \<and> (t = ZCIO_WS_TEXT \<longrightarrow> zhs_utf8_valid d)"

definition ws_ret_ok :: "nat \<Rightarrow> ws_ret \<Rightarrow> 'c zcio_ws \<Rightarrow> bool" where
  "ws_ret_ok cap r ws \<longleftrightarrow>
     (case r of
        WS_MSG t d \<Rightarrow> ws_msg_ok cap t d
      | WS_MORE \<Rightarrow> True
      | WS_CLOSED \<Rightarrow> ws_close_recv ws \<and> ws_close_sent ws
      | WS_ERR e \<Rightarrow> e \<noteq> ZCIO_OK \<and> (e = ZCIO_ERR_PROTOCOL \<longrightarrow> ws_failed ws \<and> ws_close_sent ws))"

text \<open>The configuration of a session, which no frame changes.\<close>

definition ws_conf :: "'c zcio_ws \<Rightarrow> bool \<times> nat \<times> int" where
  "ws_conf ws = (ws_is_server ws, ws_max_msg_bytes ws, ws_timeout_ms ws)"

definition ws_turn_ok :: "'c zcio_ws \<Rightarrow> ws_ret option \<Rightarrow> 'c zcio_ws \<Rightarrow> bool" where
  "ws_turn_ok ws r ws' \<longleftrightarrow> ws_wf ws' \<and> ws_conf ws' = ws_conf ws \<and>
     (case r of None \<Rightarrow> True | Some x \<Rightarrow> ws_ret_ok (ws_max_msg_bytes ws) x ws')"

lemma zb_wf_zero [simp]: "zb_wf zhs_buf_zero" "ZHS_PTR zhs_buf_zero = []"
  by (simp_all add: zhs_buf_zero_def zb_wf_def ZHS_PTR_def)

lemma zb_wf_reset [simp]: "zb_wf b \<Longrightarrow> zb_wf (zhs_buf_reset b)" "ZHS_PTR (zhs_buf_reset b) = []"
  "zb_off (zhs_buf_reset b) = 0"
  by (simp_all add: zhs_buf_reset_def zb_wf_def ZHS_PTR_def)

lemma ws_wf_new: "ws_new ok env st srv cl tls = Some ws \<Longrightarrow> ws_wf ws"
  by (auto simp: ws_new_def ws_wf_def ws_apply_timeout_def zhs_buf_zero_def SIZE_MAX_def WS_DEFAULT_MAX_MSG_def
      zb_wf_def ZHS_PTR_def split: if_splits)

lemma append_keeps_off: "zhs_buf_append alloc b s = (r, b') \<Longrightarrow> zb_off b' = zb_off b"
  by (auto simp: zhs_buf_append_def zhs_buf_reserve_def Let_def split: if_splits)

lemma ws_wf_core: "ws_core ws' = ws_core ws \<Longrightarrow> ws_wf ws' = ws_wf ws"
  using ws_core_fields [of ws' ws] by (simp add: ws_wf_def)

lemma ws_conf_core: "ws_core ws' = ws_core ws \<Longrightarrow> ws_conf ws' = ws_conf ws"
  using ws_core_fields [of ws' ws] by (simp add: ws_conf_def)

lemma ws_consume_fields [simp]:
  "ws_frag (ws_consume ws n) = ws_frag ws" "ws_frag_active (ws_consume ws n) = ws_frag_active ws"
  "ws_cur_opcode (ws_consume ws n) = ws_cur_opcode ws" "ws_conf (ws_consume ws n) = ws_conf ws"
  "ws_close_recv (ws_consume ws n) = ws_close_recv ws" "ws_close_sent (ws_consume ws n) = ws_close_sent ws"
  "ws_failed (ws_consume ws n) = ws_failed ws" "ws_is_server (ws_consume ws n) = ws_is_server ws"
  "ws_in (ws_consume ws n) = zhs_buf_consume (ws_in ws) n" "ws_stream (ws_consume ws n) = ws_stream ws"
  "ws_max_msg_bytes (ws_consume ws n) = ws_max_msg_bytes ws" "ws_timeout_ms (ws_consume ws n) = ws_timeout_ms ws"
  by (simp_all add: ws_consume_def ws_conf_def)

lemma ws_flags [simp]:
  "ws_wf (ws\<lparr>ws_close_sent := x\<rparr>) = ws_wf ws" "ws_conf (ws\<lparr>ws_close_sent := x\<rparr>) = ws_conf ws"
  "ws_wf (ws\<lparr>ws_failed := x\<rparr>) = ws_wf ws" "ws_conf (ws\<lparr>ws_failed := x\<rparr>) = ws_conf ws"
  "ws_wf (ws\<lparr>ws_stream := s\<rparr>) = ws_wf ws" "ws_conf (ws\<lparr>ws_stream := s\<rparr>) = ws_conf ws"
  "ws_wf (ws\<lparr>ws_ticks := t\<rparr>) = ws_wf ws" "ws_conf (ws\<lparr>ws_ticks := t\<rparr>) = ws_conf ws"
  by (simp_all add: ws_wf_def ws_conf_def)

lemma ws_wf_consume: "ws_wf ws \<Longrightarrow> ws_wf (ws_consume ws n)"
  using zb.pop_law by (auto simp: ws_wf_def)

lemma protocol_fail_ok:
  assumes "ws_stop (ws_protocol_fail env w code) = Some (r, ws')" "ws_wf w" "ws_conf w = ws_conf ws"
  shows "ws_turn_ok ws r ws'"
proof -
  obtain q where q: "ws_protocol_fail env w code = Some (q, ws')" "r = Some q"
    using assms(1) by (cases "ws_protocol_fail env w code") (auto simp: ws_stop_def)
  note c = protocol_fail_core [OF q(1)]
  have "ws_core ws' = ws_core (w\<lparr>ws_close_sent := True, ws_failed := True\<rparr>)" using c(2) by simp
  note f = ws_core_fields [OF this] ws_wf_core [OF this] ws_conf_core [OF this]
  have "ws_wf (w\<lparr>ws_close_sent := True, ws_failed := True\<rparr>)" using assms(2) by (simp add: ws_wf_def)
  moreover have "ws_conf (w\<lparr>ws_close_sent := True, ws_failed := True\<rparr>) = ws_conf ws"
    using assms(3) by (simp add: ws_conf_def)
  ultimately show ?thesis using f c(1) q(2) by (simp add: ws_turn_ok_def ws_ret_ok_def)
qed

lemma send_frame_code:
  assumes "ws_send_frame env ws op fin d = Some (r, ws')"
  shows "r = ZCIO_OK \<or> r = ZCIO_ERR"
proof -
  have loop: "ws_mask_loop s key src off = Some (r, s') \<Longrightarrow> r = ZCIO_OK \<or> r = ZCIO_ERR" for s key src off r s'
    by (induction s key src off rule: ws_mask_loop.induct, subst (asm) (2) ws_mask_loop.simps)
      (auto simp: Let_def split: if_splits option.splits)
  show ?thesis using assms
    by (auto simp: ws_send_frame_def Let_def bind_eq_Some_conv split: if_splits option.splits dest: loop)
qed

lemma on_ping_ok:
  assumes "ws_on_ping env ws d n = Some (r, ws')" "ws_wf ws"
  shows "ws_turn_ok ws r ws'"
proof -
  from assms(1) obtain s ws1 where s: "ws_send_frame env ws WS_OP_PONG True d = Some (s, ws1)"
    and e: "ws' = ws_consume ws1 n" "r = (if s \<noteq> ZCIO_OK then Some (WS_ERR s) else None)"
    by (auto simp: ws_on_ping_def bind_eq_Some_conv)
  note c = send_frame_core [OF s]
  have "ws_wf ws1" using ws_wf_core [OF c] assms(2) by simp
  then show ?thesis using e ws_conf_core [OF c] send_frame_code [OF s]
    by (auto simp: ws_turn_ok_def ws_wf_consume ws_ret_ok_def)
qed

lemma on_close_ok:
  assumes "ws_on_close env ws d n = Some (r, ws')" "ws_wf ws"
  shows "ws_turn_ok ws r ws'"
proof -
  define code where "code = (if length d \<ge> 2 then push_bit 8 (ucast (d ! 0)) OR ucast (d ! 1) else 1005 :: u16)"
  define ws1 where "ws1 = ws\<lparr>ws_close_code := code, ws_close_recv := True\<rparr>"
  have w1: "ws_wf ws1" "ws_conf ws1 = ws_conf ws" using assms(2) by (simp_all add: ws1_def ws_wf_def ws_conf_def)
  consider (fail) k where "ws_stop (ws_protocol_fail env (ws_consume ws n) k) = Some (r, ws')"
    | (send) q ws2 where "ws_send_frame env ws1 WS_OP_CLOSE True (if 2 \<le> length d then be16_bytes code else []) = Some (q, ws2)"
        "r = Some WS_CLOSED" "ws' = ws_consume (ws2\<lparr>ws_close_sent := True\<rparr>) n"
    | (quiet) "ws_close_sent ws1" "r = Some WS_CLOSED" "ws' = ws_consume ws1 n"
    using assms(1) unfolding ws_on_close_def Let_def code_def [symmetric] ws1_def [symmetric]
    by (cases "length d = 1"; cases "2 \<le> length d \<and> \<not> ws_close_code_ok code"; cases "2 < length d \<and> \<not> zhs_utf8_valid (drop 2 d)"; cases "ws_close_sent ws1")
      (auto simp: bind_eq_Some_conv)
  then show ?thesis
  proof cases
    case fail
    then show ?thesis by (rule protocol_fail_ok) (simp_all add: assms(2) ws_wf_consume)
  next
    case send
    note c = send_frame_core [OF send(1)]
    have "ws_wf (ws2\<lparr>ws_close_sent := True\<rparr>)" using ws_wf_core [OF c] w1 by simp
    moreover have "ws_conf (ws2\<lparr>ws_close_sent := True\<rparr>) = ws_conf ws" using ws_conf_core [OF c] w1 by simp
    moreover have "ws_close_recv ws2" using ws_core_fields(9) [OF c] by (simp add: ws1_def)
    ultimately show ?thesis using send by (simp add: ws_turn_ok_def ws_wf_consume ws_ret_ok_def)
  next
    case quiet
    then show ?thesis using w1 by (simp add: ws_turn_ok_def ws_wf_consume ws_ret_ok_def ws1_def)
  qed
qed

lemma emit_ok:
  assumes "length d \<le> cap" "op = WS_OP_TEXT \<Longrightarrow> zhs_utf8_valid d"
  shows "ws_ret_ok cap (ws_emit env op d) ws"
  using assms by (simp add: ws_ret_ok_def ws_emit_def ws_msg_ok_def)

lemma on_data_ok:
  assumes "ws_on_data env ws op fin d n = Some (r, ws')" "ws_wf ws" "op = WS_OP_TEXT \<or> op = WS_OP_BIN"
    "length (ZHS_PTR (ws_frag ws)) + length d \<le> ws_max_msg_bytes ws"
  shows "ws_turn_ok ws r ws'"
proof (cases "ws_frag_active ws")
  case True
  with assms(1) have "ws_stop (ws_protocol_fail env ws 1002) = Some (r, ws')" by (simp add: ws_on_data_def)
  then show ?thesis by (rule protocol_fail_ok) (simp_all add: assms(2))
next
  case idle: False
  show ?thesis
  proof (cases fin)
    case True
    show ?thesis
    proof (cases "op = WS_OP_TEXT \<and> \<not> zhs_utf8_valid d")
      case True
      with assms(1) idle \<open>fin\<close> have "ws_stop (ws_protocol_fail env (ws_consume ws n) 1007) = Some (r, ws')"
        by (simp add: ws_on_data_def)
      then show ?thesis by (rule protocol_fail_ok) (simp_all add: assms(2) ws_wf_consume)
    next
      case False
      with assms(1) idle \<open>fin\<close> have "r = Some (ws_emit env op d)" "ws' = ws_consume ws n"
        by (auto simp: ws_on_data_def)
      then show ?thesis using assms(2,4) False by (simp add: ws_turn_ok_def ws_wf_consume emit_ok)
    qed
  next
    case False
    obtain a b where ab: "zhs_buf_append (we_alloc env) (ws_frag ws) d = (a, b)" by fastforce
    have "zb_wf b" "zb_off b = 0" using zb.push_law [OF _ ab] append_keeps_off [OF ab] assms(2) by (simp_all add: ws_wf_def)
    then have "ws_wf (ws\<lparr>ws_frag_active := True, ws_cur_opcode := op, ws_frag := b\<rparr>)"
      using assms(2,3) by (auto simp: ws_wf_def)
    then show ?thesis using assms(1) idle False
      by (auto simp: ws_on_data_def ab Let_def ws_turn_ok_def ws_wf_consume ws_ret_ok_def ws_conf_def split: if_splits)
  qed
qed

lemma on_cont_ok:
  assumes "ws_on_cont env ws fin d n = Some (r, ws')" "ws_wf ws"
    "length (ZHS_PTR (ws_frag ws)) + length d \<le> ws_max_msg_bytes ws"
  shows "ws_turn_ok ws r ws'"
proof (cases "ws_frag_active ws")
  case False
  with assms(1) have "ws_stop (ws_protocol_fail env ws 1002) = Some (r, ws')" by (simp add: ws_on_cont_def)
  then show ?thesis by (rule protocol_fail_ok) (simp_all add: assms(2))
next
  case True
  obtain a b where ab: "zhs_buf_append (we_alloc env) (ws_frag ws) d = (a, b)" by fastforce
  have b: "zb_wf b" "a = ZCIO_OK \<Longrightarrow> ZHS_PTR b = ZHS_PTR (ws_frag ws) @ d" "zb_off b = 0"
    using zb.push_law [OF _ ab] append_keeps_off [OF ab] assms(2) by (simp_all add: ws_wf_def)
  define ws1 where "ws1 = ws_consume (ws\<lparr>ws_frag := b\<rparr>) n"
  have w1: "ws_wf ws1" using b(1,3) True assms(2) unfolding ws1_def
    by (intro ws_wf_consume) (auto simp: ws_wf_def)
  have c1: "ws_conf ws1 = ws_conf ws" by (simp add: ws1_def ws_conf_def)
  define ws2 where "ws2 = ws1\<lparr>ws_frag_active := False, ws_frag := zhs_buf_reset b\<rparr>"
  have w2: "ws_wf ws2" "ws_conf ws2 = ws_conf ws" using w1 b(1) c1 by (simp_all add: ws2_def ws_wf_def ws_conf_def)
  have u: "ws_on_cont env ws fin d n =
      (if a \<noteq> ZCIO_OK then Some (Some (WS_ERR ZCIO_ERR_NOMEM), ws1)
       else if \<not> fin then Some (None, ws1)
       else if ws_cur_opcode ws = WS_OP_TEXT \<and> \<not> zhs_utf8_valid (ZHS_PTR b) then ws_stop (ws_protocol_fail env ws2 1007)
       else Some (Some (ws_emit env (ws_cur_opcode ws) (ZHS_PTR b)), ws2))"
    using True by (simp add: ws_on_cont_def ab Let_def ws1_def ws2_def)
  show ?thesis
  proof (cases "a = ZCIO_OK \<and> fin")
    case False
    then show ?thesis using assms(1) w1 c1 unfolding u by (auto simp: ws_turn_ok_def ws_ret_ok_def split: if_splits)
  next
    case whole: True
    show ?thesis
    proof (cases "ws_cur_opcode ws = WS_OP_TEXT \<and> \<not> zhs_utf8_valid (ZHS_PTR b)")
      case True
      then have "ws_stop (ws_protocol_fail env ws2 1007) = Some (r, ws')" using assms(1) whole unfolding u by simp
      then show ?thesis by (rule protocol_fail_ok) (simp_all add: w2)
    next
      case False
      then have "r = Some (ws_emit env (ws_cur_opcode ws) (ZHS_PTR b))" "ws' = ws2"
        using assms(1) whole unfolding u by auto
      then show ?thesis using w2 b(2) whole assms(3) False by (simp add: ws_turn_ok_def emit_ok)
    qed
  qed
qed


lemma on_frame_ok:
  assumes "ws_on_frame env ws op fin d n = Some (r, ws')" "ws_wf ws"
    "op AND 8 = 0 \<Longrightarrow> length (ZHS_PTR (ws_frag ws)) + length d \<le> ws_max_msg_bytes ws"
  shows "ws_turn_ok ws r ws'"
proof -
  have cap: "op \<in> {WS_OP_TEXT, WS_OP_BIN, WS_OP_CONT} \<Longrightarrow> length (ZHS_PTR (ws_frag ws)) + length d \<le> ws_max_msg_bytes ws"
    using assms(3) by (auto simp: ws_ops)
  consider "op = WS_OP_PING" | "op = WS_OP_PONG" | "op = WS_OP_CLOSE" | "op \<in> {WS_OP_TEXT, WS_OP_BIN}" | "op = WS_OP_CONT"
    | "op \<notin> {WS_OP_PING, WS_OP_PONG, WS_OP_CLOSE, WS_OP_TEXT, WS_OP_BIN, WS_OP_CONT}" by blast
  then show ?thesis
  proof cases
    case 1
    then show ?thesis using assms(1) on_ping_ok [OF _ assms(2)] by (simp add: ws_on_frame_def)
  next
    case 2
    then show ?thesis using assms(1,2) by (auto simp: ws_on_frame_def ws_ops ws_turn_ok_def ws_wf_consume)
  next
    case 3
    then show ?thesis using assms(1) on_close_ok [OF _ assms(2)] by (simp add: ws_on_frame_def ws_ops)
  next
    case 4
    then have "ws_on_data env ws op fin d n = Some (r, ws')" using assms(1) by (auto simp: ws_on_frame_def ws_ops)
    then show ?thesis by (rule on_data_ok) (use 4 cap assms(2) in auto)
  next
    case 5
    then have "ws_on_cont env ws fin d n = Some (r, ws')" using assms(1) by (simp add: ws_on_frame_def ws_ops)
    then show ?thesis by (rule on_cont_ok) (use 5 cap assms(2) in auto)
  next
    case 6
    then have "ws_stop (ws_protocol_fail env ws 1002) = Some (r, ws')" using assms(1) by (simp add: ws_on_frame_def)
    then show ?thesis by (rule protocol_fail_ok) (simp_all add: assms(2))
  qed
qed

lemma pump_turn_ok:
  assumes "ws_pump_turn env ws = Some (r, ws')" "ws_wf ws"
  shows "ws_turn_ok ws r ws'"
proof (cases "ws_parse_frame ws")
  case PMore
  with assms show ?thesis by (auto simp: ws_pump_turn_def ws_turn_ok_def ws_ret_ok_def)
next
  case (PFail code)
  with assms(1) have "ws_stop (ws_protocol_fail env ws code) = Some (r, ws')" by (simp add: ws_pump_turn_def)
  then show ?thesis by (rule protocol_fail_ok [OF _ assms(2)]) simp
next
  case (PFrame op fin masked base len)
  note b = parse_frame_bounds [OF PFrame]
  define ws1 where "ws1 = (if masked then ws\<lparr>ws_in := ws_unmask (ws_in ws) base len\<rparr> else ws)"
  define d n where "d = mslice (ZHS_PTR (ws_in ws1)) (ws_data_off masked base) len" and "n = ws_data_off masked base + len"
  have w1: "ws_wf ws1" "ws_conf ws1 = ws_conf ws" "ws_frag ws1 = ws_frag ws" "ws_max_msg_bytes ws1 = ws_max_msg_bytes ws"
    using assms(2) b(3) unmask_view(2) [of base len "ws_in ws"]
    by (auto simp: ws1_def ws_wf_def ws_conf_def ws_data_off_def)
  have "ws_on_frame env ws1 op fin d n = Some (r, ws')"
    using assms by (simp add: ws_pump_turn_def PFrame Let_def ws1_def d_def n_def ws_data_off_def)
  then have "ws_turn_ok ws1 r ws'"
    by (rule on_frame_ok) (use w1 parse_frame_limits(2) [OF PFrame] in \<open>simp_all add: d_def\<close>)
  then show ?thesis using w1 by (simp add: ws_turn_ok_def split: option.splits)
qed

lemma pump_ok:
  "ws_pump env ws = Some (r, ws') \<Longrightarrow> ws_wf ws \<Longrightarrow> ws_turn_ok ws (Some r) ws'"
proof (induction env ws rule: ws_pump.induct)
  case (1 env ws)
  obtain q ws1 where t: "ws_pump_turn env ws = Some (q, ws1)"
    using "1.prems"(1) by (subst (asm) ws_pump.simps) (auto split: option.splits)
  note ok = pump_turn_ok [OF t "1.prems"(2)]
  show ?case
  proof (cases q)
    case (Some x)
    with t "1.prems"(1) have "r = x" "ws' = ws1" by (simp_all add: ws_pump.simps [of env ws])
    with ok Some show ?thesis by simp
  next
    case None
    with t "1.prems"(1) have "ws_pump env ws1 = Some (r, ws')" by (simp add: ws_pump.simps [of env ws])
    then have "ws_turn_ok ws1 (Some r) ws'" using "1.IH" t None ok by (simp add: ws_turn_ok_def)
    then show ?thesis using ok by (simp add: ws_turn_ok_def ws_conf_def)
  qed
qed

lemma fill_ok:
  assumes "ws_fill env ws t = Some (fr, ws')" "ws_wf ws"
  shows "ws_wf ws'" "ws_conf ws' = ws_conf ws"
proof -
  obtain n d s where rd: "zcio_read (we_timeout env (ws_stream ws) t) True 4096 = Some (n, d, s)"
    using assms(1) by (auto simp: ws_fill_def Let_def ws_apply_timeout_def bind_eq_Some_conv)
  obtain r b where ap: "zhs_buf_append (we_alloc env) (ws_in ws) (take (nat n) d) = (r, b)" by fastforce
  have b: "zb_wf b" using zb.push_law [OF _ ap] assms(2) by (simp add: ws_wf_def)
  have "ws' = (if n > 0 then ws\<lparr>ws_stream := s, ws_in := b\<rparr> else ws\<lparr>ws_stream := s\<rparr>)"
    using assms(1) rd by (auto simp: ws_fill_def Let_def ws_apply_timeout_def ap split: if_splits)
  then show "ws_wf ws'" "ws_conf ws' = ws_conf ws" using b assms(2) by (auto simp: ws_wf_def ws_conf_def)
qed

definition ws_recv_ok :: "'c zcio_ws \<Rightarrow> int \<times> (zcio_ws_type \<times> bytes) option \<times> 'c zcio_ws \<Rightarrow> bool" where
  "ws_recv_ok ws x = (case x of (r, m, ws') \<Rightarrow>
     ws_wf ws' \<and> ws_conf ws' = ws_conf ws \<and>
     (case m of None \<Rightarrow> r < 0 | Some (t, d) \<Rightarrow> r = zcode ZCIO_OK \<and> ws_msg_ok (ws_max_msg_bytes ws) t d))"

lemma recv_ok_conf: "ws_recv_ok w x \<Longrightarrow> ws_conf w = ws_conf ws \<Longrightarrow> ws_recv_ok ws x"
  by (auto simp: ws_recv_ok_def ws_conf_def split: prod.splits option.splits)

lemma recv_loop_ok:
  assumes "ws_recv_loop env bounded deadline ws = Some x" "ws_wf ws"
  shows "ws_recv_ok ws x"
proof -
  have "ws_wf ws \<longrightarrow> ws_recv_ok ws x"
  proof (rule ws_recv_loop.raw_induct [where P = "\<lambda>env b dl ws x. ws_wf ws \<longrightarrow> ws_recv_ok ws x", OF _ assms(1)], goal_cases)
    case (1 loop env bounded deadline ws x)
    note IH = 1(1) and body = 1(2)
    show ?case
    proof
      assume wf: "ws_wf ws"
      obtain r ws1 where p: "ws_pump env ws = Some (r, ws1)" using body by (auto simp: bind_eq_Some_conv)
      note ok = pump_ok [OF p wf]
      show "ws_recv_ok ws x"
      proof (cases r)
        case WS_MORE
        define now ws2 where "now = (if bounded then we_now env (ws_ticks ws1) else 0)"
          and "ws2 = (if bounded then ws1\<lparr>ws_ticks := ws_ticks ws1 + 1\<rparr> else ws1)"
        have w2: "ws_wf ws2" "ws_conf ws2 = ws_conf ws" using ok by (simp_all add: ws2_def ws_turn_ok_def)
        have nw: "(if bounded then ws_now env ws1 else (0, ws1)) = (now, ws2)"
          by (simp add: now_def ws2_def ws_now_def)
        note body2 = body [unfolded p Option.bind.simps prod.case WS_MORE ws_ret.case nw Let_def]
        show ?thesis
        proof (cases "bounded \<and> now \<ge> deadline")
          case True
          then show ?thesis using body2 w2 by (auto simp: ws_recv_ok_def)
        next
          case False
          define to where "to = (if bounded then (if int (deadline - now) > INT_MAX then INT_MAX else int (deadline - now)) else -1)"
          obtain fr ws3 where f: "ws_fill env ws2 to = Some (fr, ws3)"
            using body2 False by (auto simp: to_def [symmetric] bind_eq_Some_conv)
          have w3: "ws_wf ws3" "ws_conf ws3 = ws_conf ws" using fill_ok [OF f] w2 by simp_all
          have again: "loop env bounded deadline ws3 = Some x \<Longrightarrow> ?thesis"
            using IH w3 recv_ok_conf by blast
          have stop: "Some (k, None, ws3\<lparr>ws_failed := b\<rparr>) = Some x \<Longrightarrow> k < 0 \<Longrightarrow> ?thesis"
            "Some (k, None, ws3) = Some x \<Longrightarrow> k < 0 \<Longrightarrow> ?thesis" for k b
            using w3 by (auto simp: ws_recv_ok_def)
          have tail: "(if fr = zcode ZCIO_ERR_TIMEOUT then
              (if \<not> bounded then loop env bounded deadline ws3 else Some (zcode ZCIO_ERR_TIMEOUT, None, ws3))
            else if fr = zcode ZCIO_ERR_EOF then Some (zcode ZCIO_ERR_EOF, None, ws3\<lparr>ws_failed := True\<rparr>)
            else if fr < 0 then Some (fr, None, ws3) else loop env bounded deadline ws3) = Some x"
            using body2 unfolding to_def [symmetric] f Option.bind.simps prod.case if_not_P [OF False] .
          show ?thesis
          proof (cases "fr = zcode ZCIO_ERR_TIMEOUT")
            case True
            then show ?thesis using tail again stop(2) [of "zcode ZCIO_ERR_TIMEOUT"] by (cases bounded) simp_all
          next
            case no_timeout: False
            then show ?thesis using tail again stop(1) [of "zcode ZCIO_ERR_EOF" True] stop(2) [of fr]
              by (cases "fr = zcode ZCIO_ERR_EOF"; cases "fr < 0") simp_all
          qed
        qed
      qed (use body ok p in \<open>auto simp: ws_recv_ok_def ws_turn_ok_def ws_ret_ok_def zcode_neg_iff\<close>)
    qed
  qed
  then show ?thesis using assms(2) by simp
qed

subsection \<open>The wire format of a frame\<close>

definition ws_wire :: "bool \<Rightarrow> bytes \<Rightarrow> byte \<Rightarrow> bool \<Rightarrow> bytes \<Rightarrow> bytes" where
  "ws_wire is_server key op fin d =
     ws_frame_hdr is_server op fin (length d) @ (if is_server then d else key @ ws_mask key 0 d)"

lemma mask_slice: "off + c \<le> length src \<Longrightarrow> ws_mask key off (mslice src off c) = mslice (ws_mask key 0 src) off c"
  by (rule nth_equalityI) (simp_all add: ws_mask_def nth_mslice)

lemma mask_mask: "ws_mask key off (ws_mask key off s) = s"
  by (rule nth_equalityI) (simp_all add: ws_mask_def xor.assoc)

context byte_sink
begin

lemma mask_loop_fits:
  assumes "vt s = tab" "snk_invar (ctx s)" "off \<le> length src" "length src - off \<le> room (ctx s)"
  shows "\<exists>s'. ws_mask_loop (Some s) key src off = Some (ZCIO_OK, Some s') \<and> vt s' = tab \<and> snk_invar (ctx s') \<and>
    room (ctx s') = room (ctx s) - (length src - off) \<and>
    content (ctx s') = content (ctx s) @ drop off (ws_mask key 0 src)"
  using assms
proof (induction "length src - off" arbitrary: s off rule: less_induct)
  case less
  show ?case
  proof (cases "off < length src")
    case False
    then show ?thesis using less.prems by (simp add: ws_mask_loop.simps)
  next
    case True
    define c where "c = (if length src - off > 1024 then 1024 else length src - off)"
    define chunk where "chunk = ws_mask key off (mslice src off c)"
    have c: "0 < c" "off + c \<le> length src" using True by (auto simp: c_def)
    then have len: "length chunk = c" by (simp add: chunk_def)
    obtain s1 where s1: "zcio_write_full (Some s) (Some chunk) c = Some (int c, Some s1)" "vt s1 = tab"
        "snk_invar (ctx s1)" "room (ctx s1) = room (ctx s) - c" "content (ctx s1) = content (ctx s) @ chunk"
      using write_full_fits [OF less.prems(1,2), of chunk] less.prems(4) c by (auto simp: len min_def)
    have ch: "chunk = mslice (ws_mask key 0 src) off c" using c by (simp add: chunk_def mask_slice)
    have "\<exists>s'. ws_mask_loop (Some s1) key src (off + c) = Some (ZCIO_OK, Some s') \<and> vt s' = tab \<and> snk_invar (ctx s') \<and>
        room (ctx s') = room (ctx s1) - (length src - (off + c)) \<and>
        content (ctx s') = content (ctx s1) @ drop (off + c) (ws_mask key 0 src)"
      using c s1 less.prems by (intro less.hyps) auto
    then obtain s' where s': "ws_mask_loop (Some s1) key src (off + c) = Some (ZCIO_OK, Some s')" "vt s' = tab" "snk_invar (ctx s')"
        "room (ctx s') = room (ctx s1) - (length src - (off + c))"
        "content (ctx s') = content (ctx s1) @ drop (off + c) (ws_mask key 0 src)" by blast
    have "ws_mask_loop (Some s) key src off = Some (ZCIO_OK, Some s')"
      using True s1(1) s'(1) by (subst ws_mask_loop.simps) (simp add: Let_def c_def [symmetric] chunk_def [symmetric])
    moreover have "chunk @ drop (off + c) (ws_mask key 0 src) = drop off (ws_mask key 0 src)"
      unfolding ch mslice_def by (simp add: add.commute flip: drop_drop)
    ultimately show ?thesis using s' s1 c by auto
  qed
qed

text \<open>On a sink with room for it, a frame is sent as exactly its wire format.\<close>

lemma send_frame_wire:
  assumes "ws_stream ws = Some s" "vt s = tab" "snk_invar (ctx s)"
    and timeout: "we_timeout env (Some s) (ws_timeout_ms ws) = Some s"
    and key: "\<not> ws_is_server ws \<Longrightarrow> we_rand env (ws_draws ws) 4 = Some key"
    and room: "length (ws_wire (ws_is_server ws) key op fin d) \<le> room (ctx s)"
  shows "\<exists>s' k. ws_send_frame env ws op fin d = Some (ZCIO_OK, ws\<lparr>ws_draws := k, ws_stream := Some s'\<rparr>) \<and>
    vt s' = tab \<and> snk_invar (ctx s') \<and> content (ctx s') = content (ctx s) @ ws_wire (ws_is_server ws) key op fin d"
proof -
  define k where "k = (if ws_is_server ws then [] else key)"
  define hdr where "hdr = ws_frame_hdr (ws_is_server ws) op fin (length d) @ k"
  define body where "body = (if ws_is_server ws then d else ws_mask key 0 d)"
  define dr where "dr = ws_draws ws + (if ws_is_server ws then 0 else 1)"
  have wire: "ws_wire (ws_is_server ws) key op fin d = hdr @ body" "length body = length d"
    by (simp_all add: ws_wire_def hdr_def body_def k_def)
  obtain s1 where s1: "zcio_write_full (Some s) (Some hdr) (length hdr) = Some (int (length hdr), Some s1)" "vt s1 = tab"
      "snk_invar (ctx s1)" "room (ctx s1) = room (ctx s) - length hdr" "content (ctx s1) = content (ctx s) @ hdr"
    using write_full_fits [OF assms(2,3), of hdr] room by (auto simp: wire min_def)
  have rnd: "(if ws_is_server ws then Some [] else we_rand env (ws_draws ws) 4) = Some k"
    using key by (simp add: k_def)
  have u: "ws_send_frame env ws op fin d =
      (if d = [] then Some (ZCIO_OK, ws\<lparr>ws_draws := dr, ws_stream := Some s1\<rparr>)
       else if ws_is_server ws then
         Option.bind (zcio_write_full (Some s1) (Some d) (length d)) (\<lambda>(w2, s2).
           Some (if w2 \<noteq> int (length d) then ZCIO_ERR else ZCIO_OK, ws\<lparr>ws_draws := dr, ws_stream := s2\<rparr>))
       else Option.bind (ws_mask_loop (Some s1) k d 0) (\<lambda>(r, s2). Some (r, ws\<lparr>ws_draws := dr, ws_stream := s2\<rparr>)))"
    using s1(1) unfolding ws_send_frame_def rnd
    by (simp add: Let_def ws_apply_timeout_def assms(1) timeout hdr_def [symmetric] dr_def [symmetric])
  have left: "length d \<le> room (ctx s1)" using room wire s1(4) by simp
  show ?thesis
  proof (cases "d = []")
    case True
    then have "ws_send_frame env ws op fin d = Some (ZCIO_OK, ws\<lparr>ws_draws := dr, ws_stream := Some s1\<rparr>)" unfolding u by simp
    then show ?thesis using s1 wire True by (metis append_Nil2 length_0_conv list.size(3))
  next
    case False
    show ?thesis
    proof (cases "ws_is_server ws")
      case True
      obtain s2 where s2: "zcio_write_full (Some s1) (Some d) (length d) = Some (int (length d), Some s2)" "vt s2 = tab"
          "snk_invar (ctx s2)" "content (ctx s2) = content (ctx s1) @ d"
        using write_full_fits [OF s1(2,3), of d] left by (auto simp: min_def)
      have "ws_send_frame env ws op fin d = Some (ZCIO_OK, ws\<lparr>ws_draws := dr, ws_stream := Some s2\<rparr>)"
        using False True s2(1) unfolding u by simp
      then show ?thesis using s1 s2 wire True body_def by auto
    next
      case client: False
      obtain s2 where s2: "ws_mask_loop (Some s1) key d 0 = Some (ZCIO_OK, Some s2)" "vt s2 = tab"
          "snk_invar (ctx s2)" "content (ctx s2) = content (ctx s1) @ ws_mask key 0 d"
        using mask_loop_fits [OF s1(2,3), of 0 d key] left by auto
      have "ws_send_frame env ws op fin d = Some (ZCIO_OK, ws\<lparr>ws_draws := dr, ws_stream := Some s2\<rparr>)"
        using False client s2(1) unfolding u by (simp add: k_def)
      then show ?thesis using s1 s2 wire client body_def by auto
    qed
  qed
qed

end

subsection \<open>Parsing a frame off the wire\<close>

lemma be16_join:
  assumes "len \<le> 0xFFFF"
  shows "push_bit 8 (ucast (word_of_nat (drop_bit 8 len) AND 0xFF :: byte)) OR ucast (word_of_nat len AND 0xFF :: byte)
    = (word_of_nat len :: u64)"
proof (rule bit_word_eqI)
  fix n assume n: "n < LENGTH(64)"
  have ff: "(x AND 0xFF :: byte) = x" for x
    using take_bit_word_eq_self [of 8 x] by (simp add: take_bit_eq_mask mask_eq_exp_minus_1)
  have big: "bit len m \<Longrightarrow> m < 16" for m
    using take_bit_nat_eq_self [of len 16] assms bit_take_bit_iff [of 16 len m] by simp
  show "bit (push_bit 8 (ucast (word_of_nat (drop_bit 8 len) AND 0xFF :: byte)) OR ucast (word_of_nat len AND 0xFF :: byte) :: u64) n
    \<longleftrightarrow> bit (word_of_nat len :: u64) n"
    unfolding ff using n big [of n] by (cases "n < 8") (auto simp: bit_simps less_diff_conv2)
qed

lemma be64_step:
  "push_bit 8 (drop_bit (m + 8) v) OR ucast (ucast (drop_bit m v) :: byte) = (drop_bit m v :: u64)"
proof (rule bit_word_eqI)
  fix n assume n: "n < LENGTH(64)"
  show "bit (push_bit 8 (drop_bit (m + 8) v) OR ucast (ucast (drop_bit m v) :: byte) :: u64) n \<longleftrightarrow> bit (drop_bit m v) n"
    using n by (cases "n < 8") (auto simp: bit_simps)
qed

lemma be64_fold: "fold (\<lambda>b len. push_bit 8 len OR ucast b) (be64_bytes v) 0 = (v :: u64)"
proof -
  have z: "(0 :: u64) = drop_bit 64 v" by (rule bit_word_eqI) (auto simp: bit_simps)
  have l: "be64_bytes v = map (\<lambda>m. ucast (drop_bit m v)) [56, 48, 40, 32, 24, 16, 8, 0]"
    by (simp add: be64_bytes_def upt_rec)
  show ?thesis
    unfolding l z using be64_step [of 56 v] be64_step [of 48 v] be64_step [of 40 v] be64_step [of 32 v]
      be64_step [of 24 v] be64_step [of 16 v] be64_step [of 8 v] be64_step [of 0 v] by simp
qed

definition ws_opcodes :: "byte set" where
  "ws_opcodes = {WS_OP_CONT, WS_OP_TEXT, WS_OP_BIN, WS_OP_CLOSE, WS_OP_PING, WS_OP_PONG}"

lemma first_byte:
  assumes "op \<in> ws_opcodes" "b = (if fin then 0x80 else 0) OR (op AND 0x0F :: byte)"
  shows "b AND 0x70 = 0" "b AND 0x0F = op" "b AND 0x80 \<noteq> 0 \<longleftrightarrow> fin"
  using assms by (auto simp: ws_opcodes_def ws_ops)

lemma second_byte:
  assumes "n < 128" "b = (if m then 0x80 else 0) OR (word_of_nat n :: byte)"
  shows "b AND 0x80 \<noteq> 0 \<longleftrightarrow> m" "b AND 0x7F = word_of_nat n"
proof -
  have small: "bit n k \<Longrightarrow> k < 7" for k
    using take_bit_nat_eq_self [of n 7] assms(1) bit_take_bit_iff [of 7 n k] by simp
  have w: "b = word_of_nat (if m then 128 + n else n)"
  proof (cases m)
    case True
    have "(0x80 OR word_of_nat n :: byte) = 0x80 + word_of_nat n"
      by (rule disjunctive_add_eq_or [symmetric], rule bit_word_eqI) (use small in \<open>auto simp: bit_simps bit_128\<close>)
    then show ?thesis using True assms(2) by simp
  qed (simp add: assms(2))
  show "b AND 0x80 \<noteq> 0 \<longleftrightarrow> m"
    unfolding w using assms(1) by (subst and_80_of_nat) auto
  show "b AND 0x7F = word_of_nat n"
    unfolding assms(2) and_7F by (rule bit_word_eqI) (use small in \<open>auto simp: bit_simps bit_128\<close>)
qed

lemma byte_of_nat_eq: "n < 256 \<Longrightarrow> (word_of_nat n :: byte) = word_of_nat m \<longleftrightarrow> n = m mod 256"
  by (auto simp: word_of_nat_eq_iff take_bit_eq_mod)

text \<open>
  What the parser reports for a frame on the wire: the sender's role decides whether it is masked,
  and the receiver has the other role.
\<close>

definition ws_sendable :: "byte \<Rightarrow> bool \<Rightarrow> bytes \<Rightarrow> bool" where
  "ws_sendable op fin d \<longleftrightarrow> op \<in> ws_opcodes \<and> length d < 2 ^ 63 \<and> (op AND 8 \<noteq> 0 \<longrightarrow> fin \<and> length d \<le> 125)"

lemma parse_wire:
  assumes view: "ZHS_PTR (ws_in ws) = ws_wire (\<not> ws_is_server ws) key op fin d @ rest"
    and key: "length key = 4" and ok: "ws_sendable op fin d"
    and cap: "op AND 8 = 0 \<Longrightarrow> length (ZHS_PTR (ws_frag ws)) + length d \<le> ws_max_msg_bytes ws"
  shows "ws_parse_frame ws = PFrame op fin (ws_is_server ws) (length (ws_frame_hdr (\<not> ws_is_server ws) op fin (length d))) (length d)"
proof -
  define srv p n where "srv = ws_is_server ws" and "p = ZHS_PTR (ws_in ws)" and "n = length d"
  define n7 base where "n7 = (if n < 126 then n else if n \<le> 0xFFFF then 126 else 127)"
    and "base = (if n < 126 then 2 else if n \<le> 0xFFFF then 4 else 10 :: nat)"
  define ext where "ext = (if n < 126 then [] else if n \<le> 0xFFFF
    then [word_of_nat (drop_bit 8 n) AND 0xFF, word_of_nat n AND 0xFF] else be64_bytes (word_of_nat n))"
  define b0 b1 :: byte where "b0 = (if fin then 0x80 else 0) OR (op AND 0x0F)" and "b1 = (if srv then 0x80 else 0) OR word_of_nat n7"
  have op: "op \<in> ws_opcodes" and n63: "n < 2 ^ 63" using ok by (simp_all add: ws_sendable_def n_def)
  have hdr: "ws_frame_hdr (\<not> srv) op fin n = [b0, b1] @ ext" "length ext = base - 2" "2 \<le> base"
    by (auto simp: ws_frame_hdr_def Let_def b0_def b1_def ext_def n7_def base_def)
  have p: "p = b0 # b1 # ext @ (if srv then key @ ws_mask key 0 d else d) @ rest"
    using view hdr(1) by (simp add: p_def ws_wire_def srv_def n_def)
  have len: "length p = (if srv then base + 4 else base) + n + length rest"
    using hdr(2,3) key by (auto simp: p n_def)
  have "n7 < 128" by (simp add: n7_def)
  note b1 = second_byte [OF this b1_def] and b0 = first_byte [OF op b0_def]
  have n7eq: "(word_of_nat n7 :: byte) = 126 \<longleftrightarrow> n7 = 126" "(word_of_nat n7 :: byte) = 127 \<longleftrightarrow> n7 = 127"
    using \<open>n7 < 128\<close> byte_of_nat_eq [of n7 126] byte_of_nat_eq [of n7 127] by simp_all
  have n7c: "n7 = 126 \<longleftrightarrow> 126 \<le> n \<and> n \<le> 0xFFFF" "n7 = 127 \<longleftrightarrow> 0xFFFF < n" by (auto simp: n7_def)
  define len64 :: u64 where "len64 = (if word_of_nat n7 = (126 :: byte) then push_bit 8 (ucast (p ! 2)) OR ucast (p ! 3)
    else if word_of_nat n7 = (127 :: byte) then ws_len8 p else ucast (word_of_nat n7 :: byte))"
  have len64: "len64 = word_of_nat n"
  proof -
    consider "n < 126" | "126 \<le> n" "n \<le> 0xFFFF" | "0xFFFF < n" by linarith
    then show ?thesis
    proof cases
      case 1
      then show ?thesis by (simp add: len64_def n7eq) (simp add: n7_def unsigned_of_nat take_bit_nat_eq_self)
    next
      case 2
      then show ?thesis using be16_join [of n] by (simp add: len64_def n7eq n7c p ext_def)
    next
      case 3
      then have "mslice p 2 8 = be64_bytes (word_of_nat n)" by (simp add: p ext_def mslice_def)
      then show ?thesis using 3 by (simp add: len64_def n7eq n7c ws_len8_def be64_fold)
    qed
  qed
  have un: "unat len64 = n" using n63 by (simp add: len64 unat_of_nat)
  have "unat (drop_bit 63 len64) = drop_bit 63 (unat len64)"
    by (rule bit_eqI) (auto simp: bit_simps dest: bit_imp_le_length)
  then have hi: "drop_bit 63 len64 = 0" using n63 un by (simp add: drop_bit_eq_div flip: unat_eq_zero)
  have base: "(if word_of_nat n7 = (126 :: byte) then 4 else if word_of_nat n7 = (127 :: byte) then 10 else 2) = base"
    by (simp only: n7eq n7c) (auto simp: base_def)
  have p01: "p ! 0 = b0" "p ! 1 = b1" by (simp_all add: p)
  have known: "ws_known_opcode op" using op by (auto simp: ws_known_opcode_def ws_opcodes_def)
  have ctl: "\<not> (op AND 8 \<noteq> 0 \<and> (\<not> fin \<or> len64 > 125))"
    using ok un by (auto simp: ws_sendable_def n_def word_less_nat_alt)
  have capped: "\<not> (\<not> op AND 8 \<noteq> 0 \<and> (length (ZHS_PTR (ws_frag ws)) > ws_max_msg_bytes ws \<or>
      unat len64 > szsub (ws_max_msg_bytes ws) (length (ZHS_PTR (ws_frag ws)))))"
    using cap by (auto simp: un n_def)
  have wrap: "\<not> unat len64 > SIZE_MAX - (if srv then base + 4 else base)"
    using n63 by (simp add: un SIZE_MAX_def base_def)
  have avail: "\<not> length p < 2" "\<not> length p < base" "\<not> length p < (if srv then base + 4 else base)"
    "\<not> length p < (if srv then base + 4 else base) + unat len64"
    using len hdr(3) by (auto simp: un)
  have out: "ws_frame_hdr (\<not> srv) op fin n = [b0, b1] @ ext" "length ([b0, b1] @ ext) = base" using hdr by simp_all
  show ?thesis
    unfolding ws_parse_frame_def Let_def p_def [symmetric] srv_def [symmetric] n_def [symmetric] p01 b0 b1 base
      len64_def [symmetric] out
    using avail known ctl capped wrap hi un by simp
qed

lemma turn_wire:
  assumes view: "ZHS_PTR (ws_in ws) = ws_wire (\<not> ws_is_server ws) key op fin d @ rest"
    and key: "length key = 4" and ok: "ws_sendable op fin d"
    and cap: "op AND 8 = 0 \<Longrightarrow> length (ZHS_PTR (ws_frag ws)) + length d \<le> ws_max_msg_bytes ws"
    and wf: "zb_wf (ws_in ws)"
  obtains b n where "ws_pump_turn env ws = ws_on_frame env (ws\<lparr>ws_in := b\<rparr>) op fin d n"
    "zb_wf b" "drop n (ZHS_PTR b) = rest"
proof -
  define srv p n where "srv = ws_is_server ws" and "p = ZHS_PTR (ws_in ws)" and "n = length d"
  define hdr base where "hdr = ws_frame_hdr (\<not> srv) op fin n" and "base = length hdr"
  note parse = parse_wire [OF view key ok cap, folded srv_def n_def, folded hdr_def, folded base_def]
  have p: "p = hdr @ (if srv then key @ ws_mask key 0 d else d) @ rest"
    using view by (simp add: p_def ws_wire_def srv_def n_def hdr_def)
  show ?thesis
  proof (cases srv)
    case False
    have "ws_pump_turn env ws = ws_on_frame env (ws\<lparr>ws_in := ws_in ws\<rparr>) op fin d (base + n)"
      using parse False by (simp add: ws_pump_turn_def Let_def p_def [symmetric] p mslice_def base_def n_def)
    moreover have "drop (base + n) (ZHS_PTR (ws_in ws)) = rest" using p False by (simp add: p_def base_def n_def)
    ultimately show ?thesis using that wf by blast
  next
    case True
    define b where "b = ws_unmask (ws_in ws) base n"
    have sl: "mslice p base 4 = key" "mslice p (base + 4) n = ws_mask key 0 d"
      using True key by (simp_all add: p mslice_def base_def n_def)
    have fits: "base + 4 + n \<le> length p" using True key by (simp add: p base_def n_def)
    have v: "ZHS_PTR b = memcpy p (base + 4) d" "zb_wf b"
      using unmask_view [OF fits [unfolded p_def]] wf by (simp_all add: b_def sl [unfolded p_def] mask_mask p_def)
    have "mslice (ZHS_PTR b) (base + 4) n = d" using mslice_memcpy_same [of "base + 4" d p] fits by (simp add: v n_def)
    then have "ws_pump_turn env ws = ws_on_frame env (ws\<lparr>ws_in := b\<rparr>) op fin d (base + 4 + n)"
      using parse True by (simp add: ws_pump_turn_def Let_def b_def)
    moreover have "drop (base + 4 + n) (ZHS_PTR b) = rest"
      using True key fits by (simp add: v memcpy_def n_def) (simp add: p base_def)
    ultimately show ?thesis using that v(2) by blast
  qed
qed

text \<open>A message in pieces, with pongs between them; the last piece carries FIN.\<close>

datatype ws_item = Piece bytes bytes | Pong bytes bytes

fun ws_items_wire :: "bool \<Rightarrow> byte \<Rightarrow> ws_item list \<Rightarrow> bytes" where
  "ws_items_wire s op [] = []"
| "ws_items_wire s op (Pong k d # r) = ws_wire s k WS_OP_PONG True d @ ws_items_wire s op r"
| "ws_items_wire s op (Piece k d # r) = ws_wire s k op (r = []) d @ ws_items_wire s WS_OP_CONT r"

fun ws_items_data :: "ws_item list \<Rightarrow> bytes" where
  "ws_items_data [] = []"
| "ws_items_data (Pong k d # r) = ws_items_data r"
| "ws_items_data (Piece k d # r) = d @ ws_items_data r"

fun ws_item_ok :: "ws_item \<Rightarrow> bool" where
  "ws_item_ok (Pong k d) = (length k = 4 \<and> length d \<le> 125)"
| "ws_item_ok (Piece k d) = (length k = 4 \<and> length d < 2 ^ 63)"

definition ws_ends_in_piece :: "ws_item list \<Rightarrow> bool" where
  "ws_ends_in_piece xs \<longleftrightarrow> xs \<noteq> [] \<and> (\<exists>k d. last xs = Piece k d)"

definition ws_type_of :: "byte \<Rightarrow> zcio_ws_type" where
  "ws_type_of op = (if op = WS_OP_TEXT then ZCIO_WS_TEXT else ZCIO_WS_BINARY)"

lemma append_total:
  assumes "zb_wf b" "\<And>n. alloc n" "length (zb_data b) + length s \<le> SIZE_MAX"
  shows "\<exists>b'. zhs_buf_append alloc b s = (ZCIO_OK, b') \<and> zb_off b' = zb_off b \<and> zb_data b' = zb_data b @ s \<and> zb_wf b'"
proof -
  obtain r b' where e: "zhs_buf_append alloc b s = (r, b')" by fastforce
  have "r = ZCIO_OK \<and> zb_off b' = zb_off b \<and> zb_data b' = zb_data b @ s"
    using e assms(2,3) by (auto simp: zhs_buf_append_def zhs_buf_reserve_def Let_def split: if_splits)
  then show ?thesis using e zb.push_law [OF assms(1) e] by simp
qed

text \<open>The receiver inside a message: what it has reassembled so far and which opcode comes next.\<close>

definition ws_midway :: "byte \<Rightarrow> byte \<Rightarrow> bytes \<Rightarrow> 'c zcio_ws \<Rightarrow> bool" where
  "ws_midway op0 op acc ws \<longleftrightarrow> zb_wf (ws_in ws) \<and> zb_wf (ws_frag ws) \<and> zb_off (ws_frag ws) = 0 \<and>
     zb_data (ws_frag ws) = acc \<and>
     (if ws_frag_active ws then op = WS_OP_CONT \<and> ws_cur_opcode ws = op0 else op = op0 \<and> acc = [])"

lemma op_facts:
  "op0 = WS_OP_TEXT \<or> op0 = WS_OP_BIN \<Longrightarrow> op0 \<in> ws_opcodes \<and> op0 AND 8 = 0 \<and> op0 \<notin> {WS_OP_PING, WS_OP_PONG, WS_OP_CLOSE, WS_OP_CONT}"
  by (auto simp: ws_opcodes_def ws_ops)

lemma on_frame_cont: "ws_on_frame env ws WS_OP_CONT fin d n = ws_on_cont env ws fin d n"
  by (simp add: ws_on_frame_def ws_ops)

lemma on_frame_data:
  "op = WS_OP_TEXT \<or> op = WS_OP_BIN \<Longrightarrow> ws_on_frame env ws op fin d n = ws_on_data env ws op fin d n"
  by (auto simp: ws_on_frame_def ws_ops)

text \<open>One piece: held for reassembly, or the end of the message.\<close>

lemma piece_held:
  assumes "ws_midway op0 op acc ws" "op0 = WS_OP_TEXT \<or> op0 = WS_OP_BIN" "zb_wf b"
    and f: "zhs_buf_append (we_alloc env) (ws_frag ws) d = (ZCIO_OK, f)" "zb_off f = 0" "zb_data f = acc @ d" "zb_wf f"
  shows "\<exists>ws1. ws_on_frame env (ws\<lparr>ws_in := b\<rparr>) op False d n = Some (None, ws1) \<and> ws_midway op0 WS_OP_CONT (acc @ d) ws1 \<and>
    ZHS_PTR (ws_in ws1) = drop n (ZHS_PTR b) \<and> ws_conf ws1 = ws_conf ws"
proof (cases "ws_frag_active ws")
  case True
  then have "op = WS_OP_CONT" using assms(1) by (simp add: ws_midway_def)
  then show ?thesis using assms True zb.pop_law [OF assms(3), of n]
    by (simp add: on_frame_cont ws_on_cont_def Let_def ws_midway_def) (simp add: ws_conf_def)
next
  case False
  then have "op = op0" using assms(1) by (simp add: ws_midway_def)
  then show ?thesis using assms False zb.pop_law [OF assms(3), of n]
    by (simp add: on_frame_data ws_on_data_def Let_def ws_midway_def) (simp add: ws_conf_def)
qed

lemma piece_last:
  assumes "ws_midway op0 op acc ws" "op0 = WS_OP_TEXT \<or> op0 = WS_OP_BIN" "zb_wf b" "\<And>n. we_alloc env n"
    and "op0 = WS_OP_TEXT \<Longrightarrow> zhs_utf8_valid (acc @ d)"
    and f: "zhs_buf_append (we_alloc env) (ws_frag ws) d = (ZCIO_OK, f)" "zb_off f = 0" "zb_data f = acc @ d"
  shows "\<exists>ws1. ws_on_frame env (ws\<lparr>ws_in := b\<rparr>) op True d n = Some (Some (WS_MSG (ws_type_of op0) (acc @ d)), ws1) \<and>
    ZHS_PTR (ws_in ws1) = drop n (ZHS_PTR b)"
proof (cases "ws_frag_active ws")
  case True
  then have "op = WS_OP_CONT" "ws_cur_opcode ws = op0" using assms(1) by (simp_all add: ws_midway_def)
  moreover have "ZHS_PTR f = acc @ d" using f by (simp add: ZHS_PTR_def)
  ultimately show ?thesis using assms True zb.pop_law [OF assms(3), of n]
    by (auto simp: on_frame_cont ws_on_cont_def Let_def ws_emit_def ws_type_of_def)
next
  case False
  then have "op = op0" "acc = []" using assms(1) by (simp_all add: ws_midway_def)
  then show ?thesis using assms False zb.pop_law [OF assms(3), of n]
    by (auto simp: on_frame_data ws_on_data_def ws_emit_def ws_type_of_def)
qed

lemma reassemble:
  assumes "ZHS_PTR (ws_in ws) = ws_items_wire (\<not> ws_is_server ws) op items @ rest"
    and "ws_midway op0 op acc ws" and "op0 = WS_OP_TEXT \<or> op0 = WS_OP_BIN"
    and "list_all ws_item_ok items" "ws_ends_in_piece items"
    and "\<And>n. we_alloc env n" "ws_max_msg_bytes ws \<le> SIZE_MAX"
    and "length (acc @ ws_items_data items) \<le> ws_max_msg_bytes ws"
    and "op0 = WS_OP_TEXT \<Longrightarrow> zhs_utf8_valid (acc @ ws_items_data items)"
  shows "\<exists>ws'. ws_pump env ws = Some (WS_MSG (ws_type_of op0) (acc @ ws_items_data items), ws') \<and> ZHS_PTR (ws_in ws') = rest"
  using assms
proof (induction items arbitrary: ws op acc)
  case Nil
  then show ?case by (simp add: ws_ends_in_piece_def)
next
  case (Cons it r)
  have wf: "zb_wf (ws_in ws)" using Cons.prems(2) by (simp add: ws_midway_def)
  have last: "r \<noteq> [] \<Longrightarrow> ws_ends_in_piece r" using Cons.prems(5) by (simp add: ws_ends_in_piece_def)
  show ?case
  proof (cases it)
    case (Pong k d)
    have ne: "r \<noteq> []" using Cons.prems(5) Pong by (auto simp: ws_ends_in_piece_def)
    have v: "ZHS_PTR (ws_in ws) = ws_wire (\<not> ws_is_server ws) k WS_OP_PONG True d @ (ws_items_wire (\<not> ws_is_server ws) op r @ rest)"
      using Cons.prems(1) Pong by simp
    have "ws_sendable WS_OP_PONG True d" "length k = 4"
      using Cons.prems(4) Pong by (auto simp: ws_sendable_def ws_opcodes_def)
    from turn_wire [OF v this(2) this(1) _ wf, of env] obtain b n where
      t: "ws_pump_turn env ws = ws_on_frame env (ws\<lparr>ws_in := b\<rparr>) WS_OP_PONG True d n" "zb_wf b"
        "drop n (ZHS_PTR b) = ws_items_wire (\<not> ws_is_server ws) op r @ rest"
      by (auto simp: ws_ops)
    define ws1 where "ws1 = ws_consume (ws\<lparr>ws_in := b\<rparr>) n"
    have "ws_pump env ws = ws_pump env ws1"
      using t(1) by (subst ws_pump.simps) (simp add: ws_on_frame_def ws_ops ws1_def)
    moreover have "\<exists>ws'. ws_pump env ws1 = Some (WS_MSG (ws_type_of op0) (acc @ ws_items_data r), ws') \<and> ZHS_PTR (ws_in ws') = rest"
      by (rule Cons.IH [of ws1 op acc])
        (use Cons.prems Pong last [OF ne] t(2,3) zb.pop_law [OF t(2), of n] in \<open>simp_all add: ws1_def ws_midway_def\<close>)
    ultimately show ?thesis using Pong by simp
  next
    case (Piece k d)
    have v: "ZHS_PTR (ws_in ws) = ws_wire (\<not> ws_is_server ws) k op (r = []) d @ (ws_items_wire (\<not> ws_is_server ws) WS_OP_CONT r @ rest)"
      using Cons.prems(1) Piece by simp
    have op: "op = (if ws_frag_active ws then WS_OP_CONT else op0)" "op \<in> ws_opcodes" "op AND 8 = 0"
      using Cons.prems(2) op_facts [OF Cons.prems(3)] by (auto simp: ws_midway_def ws_opcodes_def ws_ops split: if_splits)
    have acc: "ZHS_PTR (ws_frag ws) = acc" "zb_data (ws_frag ws) = acc" "zb_wf (ws_frag ws)"
      using Cons.prems(2) by (auto simp: ws_midway_def ZHS_PTR_def)
    have "ws_sendable op (r = []) d" "length k = 4" using Cons.prems(4) Piece op by (auto simp: ws_sendable_def)
    from turn_wire [OF v this(2) this(1) _ wf, of env] obtain b n where
      t: "ws_pump_turn env ws = ws_on_frame env (ws\<lparr>ws_in := b\<rparr>) op (r = []) d n" "zb_wf b"
        "drop n (ZHS_PTR b) = ws_items_wire (\<not> ws_is_server ws) WS_OP_CONT r @ rest"
      using Cons.prems(8) Piece acc by auto
    obtain f where f: "zhs_buf_append (we_alloc env) (ws_frag ws) d = (ZCIO_OK, f)" "zb_off f = 0" "zb_data f = acc @ d" "zb_wf f"
      using append_total [of "ws_frag ws" "we_alloc env" d, OF acc(3) Cons.prems(6)] Cons.prems(2,7,8) Piece acc(2) by (auto simp: ws_midway_def)
    have fv: "ZHS_PTR f = acc @ d" using f by (simp add: ZHS_PTR_def)
    show ?thesis
    proof (cases "r = []")
      case False
      with piece_held [OF Cons.prems(2,3) t(2) f, of n] t obtain ws1 where
        w1: "ws_pump_turn env ws = Some (None, ws1)" "ws_midway op0 WS_OP_CONT (acc @ d) ws1" "ws_conf ws1 = ws_conf ws"
          "ZHS_PTR (ws_in ws1) = ws_items_wire (\<not> ws_is_server ws) WS_OP_CONT r @ rest" by auto
      then have "ws_pump env ws = ws_pump env ws1" by (subst ws_pump.simps) simp
      moreover have "\<exists>ws'. ws_pump env ws1 = Some (WS_MSG (ws_type_of op0) ((acc @ d) @ ws_items_data r), ws') \<and> ZHS_PTR (ws_in ws') = rest"
        by (rule Cons.IH [of ws1 WS_OP_CONT "acc @ d"])
          (use Cons.prems Piece last [OF False] w1 in \<open>simp_all add: ws_conf_def\<close>)
      ultimately show ?thesis using Piece by simp
    next
      case True
      have "\<exists>ws'. ws_pump_turn env ws = Some (Some (WS_MSG (ws_type_of op0) (acc @ d)), ws') \<and> ZHS_PTR (ws_in ws') = rest"
        using piece_last [OF Cons.prems(2,3) t(2) Cons.prems(6) _ f(1-3), of n] Cons.prems(9) t True Piece by simp
      then show ?thesis using Piece True by (subst ws_pump.simps) auto
    qed
  qed
qed


end
