(* ===== verification/Zc_WsSession.thy ===== *)
theory Zc_WsSession
  imports Zc_WsFrames
begin

unbundle bit_operations_syntax

text \<open>
  Whole WebSocket sessions: the states the public operations of \<open>src/ws.c\<close> can reach, what they
  deliver, the round trip between two ends, the answer to protocol violations, and that receiving
  returns.
\<close>

subsection \<open>Sessions\<close>

lemma close_wait_wf:
  assumes "ws_close_wait env deadline ws = Some ws'" "ws_wf ws"
  shows "ws_wf ws' \<and> ws_conf ws' = ws_conf ws"
proof -
  have "ws_wf ws \<longrightarrow> ws_wf ws' \<and> ws_conf ws' = ws_conf ws"
  proof (rule ws_close_wait.raw_induct [where P = "\<lambda>env dl ws ws'. ws_wf ws \<longrightarrow> ws_wf ws' \<and> ws_conf ws' = ws_conf ws", OF _ assms(1)], goal_cases)
    case (1 loop env deadline ws ws')
    note IH = 1(1) and body = 1(2)
    show ?case
    proof (cases "ws_close_recv ws")
      case True
      then show ?thesis using body by simp
    next
      case waiting: False
      define now ws1 where "now = we_now env (ws_ticks ws)" and "ws1 = ws\<lparr>ws_ticks := ws_ticks ws + 1\<rparr>"
      have nw: "ws_now env ws = (now, ws1)" by (simp add: ws_now_def now_def ws1_def)
      note body1 = body [unfolded if_not_P [OF waiting] nw Let_def prod.case]
      have w1: "ws_wf ws1 = ws_wf ws" "ws_conf ws1 = ws_conf ws" by (simp_all add: ws1_def)
      show ?thesis
      proof (cases "deadline \<le> now")
        case True
        then show ?thesis using body1 w1 by simp
      next
        case False
        then obtain r ws2 where p: "ws_pump env ws1 = Some (r, ws2)"
          using body1 by (auto simp: bind_eq_Some_conv)
        have w2: "ws_wf ws2" "ws_conf ws2 = ws_conf ws" if "ws_wf ws"
          using pump_ok [OF p] w1 that by (auto simp: ws_turn_ok_def)
        note body2 = body1 [unfolded if_not_P [OF False] p Option.bind.simps prod.case]
        show ?thesis
        proof (cases r)
          case WS_MORE
          define t where "t = sint (word_of_nat (deadline - now) :: u32)"
          note body3 = body2 [unfolded WS_MORE ws_ret.case t_def [symmetric]]
          then obtain fr ws3 where f: "ws_fill env ws2 t = Some (fr, ws3)" by (auto simp: bind_eq_Some_conv)
          have w3: "ws_wf ws3" "ws_conf ws3 = ws_conf ws" if "ws_wf ws" using fill_ok [OF f] w2 that by simp_all
          define now2 ws4 where "now2 = we_now env (ws_ticks ws3)" and "ws4 = ws3\<lparr>ws_ticks := ws_ticks ws3 + 1\<rparr>"
          have nw2: "ws_now env ws3 = (now2, ws4)" by (simp add: ws_now_def now2_def ws4_def)
          have w4: "ws_wf ws4" "ws_conf ws4 = ws_conf ws" if "ws_wf ws" using w3 that by (simp_all add: ws4_def)
          have "loop env deadline ws3 = Some ws' \<or> loop env deadline ws4 = Some ws' \<or> ws' \<in> {ws4, ws3\<lparr>ws_failed := True\<rparr>}"
            using body3 by (auto simp: f nw2 split: if_splits)
          then show ?thesis using IH w3 w4 by auto
        qed (use body2 IH w2 in auto)
      qed
    qed
  qed
  then show ?thesis using assms(2) by simp
qed

lemma send_frame_wf: "ws_send_frame env ws op fin d = Some (r, ws') \<Longrightarrow> ws_wf ws \<Longrightarrow> ws_wf ws'"
  using ws_wf_core [OF send_frame_core] by blast

lemma close_send_wf:
  "ws_close_send env w code reason = Some (Inr (go, w1)) \<Longrightarrow> ws_wf w \<Longrightarrow> ws_wf w1"
  by (auto simp: ws_close_send_def Let_def bind_eq_Some_conv split: if_splits dest: send_frame_wf)

lemma close_wf:
  assumes "zcio_ws_close env (Some w) code reason = Some (r, Some w')" "ws_wf w"
  shows "ws_wf w'"
proof -
  obtain x where x: "ws_close_send env w code reason = Some x"
    using assms(1) by (auto simp: zcio_ws_close_def bind_eq_Some_conv)
  show ?thesis
  proof (cases x)
    case (Inl e)
    then show ?thesis using assms x by (simp add: zcio_ws_close_def)
  next
    case (Inr y)
    obtain go w1 where y: "y = (go, w1)" by fastforce
    have w1: "ws_wf w1" using close_send_wf x Inr y assms(2) by blast
    define w2 where "w2 = w1\<lparr>ws_ticks := ws_ticks w1 + 1\<rparr>"
    have nw: "ws_now env w1 = (we_now env (ws_ticks w1), w2)" by (simp add: ws_now_def w2_def)
    have w2: "ws_wf w2" using w1 by (simp add: w2_def)
    show ?thesis using assms(1) x Inr y w1 close_wait_wf [OF _ w2]
      by (auto simp: zcio_ws_close_def nw Let_def split: bool.splits if_splits)
  qed
qed

lemma recv_sound:
  assumes "zcio_ws_recv env (Some ws) out t = Some (r, m, Some ws')" "ws_wf ws"
  shows "ws_recv_ok ws (r, m, ws')"
proof -
  define now w1 where "now = (if 0 \<le> t then we_now env (ws_ticks ws) else 0)"
    and "w1 = (if 0 \<le> t then ws\<lparr>ws_ticks := ws_ticks ws + 1\<rparr> else ws)"
  have nw: "(if 0 \<le> t then ws_now env ws else (0, ws)) = (now, w1)" by (simp add: now_def w1_def ws_now_def)
  have w1: "ws_wf w1" "ws_conf w1 = ws_conf ws" using assms(2) by (simp_all add: w1_def)
  show ?thesis
  proof (cases "\<not> out \<or> ws_close_recv ws \<or> ws_failed ws")
    case True
    then show ?thesis using assms by (auto simp: zcio_ws_recv_def ws_recv_ok_def split: if_splits)
  next
    case False
    then have "ws_recv_loop env (0 \<le> t) (if 0 \<le> t then now + nat t else 0) w1 = Some (r, m, ws')"
      using assms(1) by (simp add: zcio_ws_recv_def nw Let_def split: prod.splits if_splits)
    from recv_loop_ok [OF this w1(1)] show ?thesis using w1(2) by (rule recv_ok_conf)
  qed
qed

text \<open>The sessions a program can have: created, then driven by the public operations.\<close>

inductive ws_reachable :: "'c ws_env \<Rightarrow> 'c zcio_ws \<Rightarrow> bool" for env where
  fresh: "ws_new ok env st srv cl tls = Some ws \<Longrightarrow> ws_reachable env ws"
| send: "ws_reachable env ws \<Longrightarrow> zcio_ws_send env (Some ws) t d = Some (r, Some ws') \<Longrightarrow> ws_reachable env ws'"
| ping: "ws_reachable env ws \<Longrightarrow> zcio_ws_ping env (Some ws) d = Some (r, Some ws') \<Longrightarrow> ws_reachable env ws'"
| recv: "ws_reachable env ws \<Longrightarrow> zcio_ws_recv env (Some ws) out t = Some (c, m, Some ws') \<Longrightarrow> ws_reachable env ws'"
| close: "ws_reachable env ws \<Longrightarrow> zcio_ws_close env (Some ws) code reason = Some (r, Some ws') \<Longrightarrow> ws_reachable env ws'"
| cap: "ws_reachable env ws \<Longrightarrow> zcio_ws_set_max_msg_bytes (Some ws) n = Some ws' \<Longrightarrow> n \<le> SIZE_MAX \<Longrightarrow> ws_reachable env ws'"
| timeout: "ws_reachable env ws \<Longrightarrow> zcio_ws_set_timeout (Some ws) ms = Some ws' \<Longrightarrow> ws_reachable env ws'"
| seed: "ws_reachable env ws \<Longrightarrow> zhs_buf_append alloc (ws_in ws) bs = (ZCIO_OK, b) \<Longrightarrow> ws_reachable env (ws\<lparr>ws_in := b\<rparr>)"

lemma reachable_wf: "ws_reachable env ws \<Longrightarrow> ws_wf ws"
proof (induction rule: ws_reachable.induct)
  case (send ws t d r ws')
  then show ?case by (auto simp: zcio_ws_send_def split: if_splits option.splits dest: send_frame_wf)
next
  case (ping ws d r ws')
  then show ?case by (auto simp: zcio_ws_ping_def split: if_splits dest: send_frame_wf)
next
  case (recv ws out t c m ws')
  then show ?case using recv_sound [OF recv.hyps(2)] by (simp add: ws_recv_ok_def)
next
  case (close ws code reason r ws')
  then show ?case using close_wf by blast
next
  case (cap ws n ws')
  then show ?case by (auto simp: zcio_ws_set_max_msg_bytes_def ws_wf_def)
next
  case (timeout ws ms ws')
  then show ?case by (auto simp: zcio_ws_set_timeout_def ws_wf_def)
next
  case (seed ws alloc bs b)
  then show ?case using zb.push_law [OF _ seed.hyps(2)] by (auto simp: ws_wf_def)
qed (rule ws_wf_new)

text \<open>
  C7. Whatever a peer sends and whatever the program calls in whatever order, a session only ever
  delivers messages that are no longer than the limit in force and, when they are text, valid
  UTF-8; a receive without a message returns a negative code; and both buffers stay well formed.
\<close>

theorem ws_session_sound:
  assumes "ws_reachable env ws" "zcio_ws_recv env (Some ws) out t = Some (r, m, Some ws')"
  shows "ws_wf ws' \<and> ws_max_msg_bytes ws' = ws_max_msg_bytes ws \<and>
    (case m of
       None \<Rightarrow> r < 0
     | Some (ty, d) \<Rightarrow> r = zcode ZCIO_OK \<and> length d \<le> ws_max_msg_bytes ws \<and> (ty = ZCIO_WS_TEXT \<longrightarrow> zhs_utf8_valid d))"
  using recv_sound [OF assms(2) reachable_wf [OF assms(1)]]
  by (auto simp: ws_recv_ok_def ws_conf_def ws_msg_ok_def split: option.splits)

definition example_ws_env :: "membuf ws_env" where
  "example_ws_env = \<lparr>we_alloc = (\<lambda>_. True), we_rand = (\<lambda>_ n. Some (replicate n 0x5A)), we_now = (\<lambda>n. n),
     we_timeout = (\<lambda>s _. s)\<rparr>"

definition example_ws :: "membuf zcio_stream option \<Rightarrow> bool \<Rightarrow> membuf zcio_ws" where
  "example_ws st srv = the (ws_new True example_ws_env st srv False False)"

definition buf_of :: "bytes \<Rightarrow> zhs_buf" where
  "buf_of bs = \<lparr>zb_data = bs, zb_off = 0, zb_cap = max 256 (length bs)\<rparr>"

lemma buf_of_facts [simp]: "ZHS_PTR (buf_of bs) = bs" "length bs \<le> SIZE_MAX \<Longrightarrow> zb_wf (buf_of bs)"
  by (simp_all add: buf_of_def ZHS_PTR_def zb_wf_def SIZE_MAX_def)

lemma example_ws_fields [simp]:
  "ws_in (example_ws st srv) = zhs_buf_zero" "ws_frag (example_ws st srv) = zhs_buf_zero"
  "\<not> ws_frag_active (example_ws st srv)" "ws_is_server (example_ws st srv) = srv"
  "ws_stream (example_ws st srv) = st" "\<not> ws_failed (example_ws st srv)" "\<not> ws_close_sent (example_ws st srv)"
  "\<not> ws_close_recv (example_ws st srv)" "ws_max_msg_bytes (example_ws st srv) = 16777216"
  "ws_draws (example_ws st srv) = 0" "ws_timeout_ms (example_ws st srv) = 30000" "ws_ticks (example_ws st srv) = 0"
  by (simp_all add: example_ws_def ws_new_def ws_apply_timeout_def example_ws_env_def WS_DEFAULT_MAX_MSG_def WS_DEFAULT_TIMEOUT_def)

lemma example_ws_reachable: "ws_reachable example_ws_env (example_ws st srv)"
  by (rule ws_reachable.fresh [of True example_ws_env st srv False False]) (simp add: example_ws_def ws_new_def)

lemma example_ws_seeded:
  "bs \<noteq> [] \<Longrightarrow> length bs \<le> 256 \<Longrightarrow> ws_reachable example_ws_env ((example_ws st srv)\<lparr>ws_in := buf_of bs\<rparr>)"
  by (rule ws_reachable.seed [OF example_ws_reachable, of "\<lambda>_. True" st srv bs])
    (simp add: zhs_buf_append_def zhs_buf_reserve_def zhs_buf_zero_def buf_of_def SIZE_MAX_def grow_cap.simps)

lemma ws_midway_start:
  "ws_wf ws \<Longrightarrow> \<not> ws_frag_active ws \<Longrightarrow> ws_midway op op [] ws"
  by (auto simp: ws_wf_def ws_midway_def ZHS_PTR_def zb_wf_def)

text \<open>
  C26. A message the peer sends in any number of pieces, with pongs between them, is delivered
  whole: a session with no message in progress reassembles exactly the concatenation of the
  payloads, unmasked when the pieces come from a client, with the type of the first piece, and
  leaves the bytes after the last piece in its buffer.
\<close>

theorem ws_fragments_reassembled:
  assumes "ws_wf ws" "\<not> ws_frag_active ws" "op = WS_OP_TEXT \<or> op = WS_OP_BIN"
    and "ZHS_PTR (ws_in ws) = ws_items_wire (\<not> ws_is_server ws) op items @ rest"
    and "list_all ws_item_ok items" "ws_ends_in_piece items" "\<And>n. we_alloc env n"
    and "length (ws_items_data items) \<le> ws_max_msg_bytes ws"
    and "op = WS_OP_TEXT \<Longrightarrow> zhs_utf8_valid (ws_items_data items)"
  shows "\<exists>ws'. ws_pump env ws = Some (WS_MSG (ws_type_of op) (ws_items_data items), ws') \<and> ZHS_PTR (ws_in ws') = rest"
proof -
  have "ws_max_msg_bytes ws \<le> SIZE_MAX" using assms(1) by (simp add: ws_wf_def)
  from reassemble [OF assms(4) ws_midway_start [OF assms(1,2)] assms(3,5,6,7) this] assms(8,9)
  show ?thesis by simp
qed

definition example_items :: "ws_item list" where
  "example_items = [Piece [1, 2, 3, 4] (asc ''he''), Pong [5, 6, 7, 8] [], Piece [9, 10, 11, 12] (asc ''llo'')]"

theorem ws_fragments_reassembled_witness:
  "\<exists>ws'. ws_pump example_ws_env ((example_ws None True)\<lparr>ws_in := buf_of (ws_items_wire False WS_OP_TEXT example_items @ [0x81])\<rparr>)
     = Some (WS_MSG ZCIO_WS_TEXT (asc ''hello''), ws') \<and> ZHS_PTR (ws_in ws') = [0x81]"
proof -
  let ?bs = "ws_items_wire False WS_OP_TEXT example_items @ [0x81]"
  let ?ws = "(example_ws None True)\<lparr>ws_in := buf_of ?bs\<rparr>"
  have len: "length ?bs \<le> 256" by (simp add: example_items_def ws_wire_def ws_frame_hdr_def Let_def)
  have "ws_wf ?ws" using reachable_wf [OF example_ws_seeded [of ?bs None True]] len by simp
  moreover have "ws_items_data example_items = asc ''hello''" by (simp add: example_items_def)
  moreover have "zhs_utf8_valid (asc ''hello'')" by code_simp
  ultimately show ?thesis
    using ws_fragments_reassembled [of ?ws WS_OP_TEXT example_items "[0x81]" example_ws_env]
    by (simp add: ws_type_of_def example_ws_env_def example_items_def ws_ends_in_piece_def)
qed

lemma recv_of_pump:
  assumes "ws_pump env ws = Some (WS_MSG ty d, ws')" "\<not> ws_close_recv ws" "\<not> ws_failed ws"
  shows "zcio_ws_recv env (Some ws) True (-1) = Some (zcode ZCIO_OK, Some (ty, d), Some ws')"
  using assms by (simp add: zcio_ws_recv_def ws_recv_loop.simps)

theorem ws_session_sound_witness:
  "\<exists>ws ws'. ws_reachable example_ws_env ws \<and>
     zcio_ws_recv example_ws_env (Some ws) True (-1) = Some (0, Some (ZCIO_WS_TEXT, asc ''hi''), Some ws') \<and>
     ws_wf ws' \<and> length (asc ''hi'') \<le> ws_max_msg_bytes ws \<and> zhs_utf8_valid (asc ''hi'')"
proof -
  let ?bs = "ws_items_wire True WS_OP_TEXT [Piece [0, 0, 0, 0] (asc ''hi'')]"
  let ?ws = "(example_ws None False)\<lparr>ws_in := buf_of ?bs\<rparr>"
  have "length ?bs = 4" by (simp add: ws_wire_def ws_frame_hdr_def Let_def)
  then have re: "ws_reachable example_ws_env ?ws" by (intro example_ws_seeded) auto
  have "zhs_utf8_valid (asc ''hi'')" by code_simp
  then obtain ws' where p: "ws_pump example_ws_env ?ws = Some (WS_MSG ZCIO_WS_TEXT (asc ''hi''), ws')"
    using reassemble [of ?ws WS_OP_TEXT "[Piece [0, 0, 0, 0] (asc ''hi'')]" "[]" WS_OP_TEXT "[]" example_ws_env]
      ws_midway_start [OF reachable_wf [OF re], of WS_OP_TEXT]
    by (auto simp: ws_type_of_def example_ws_env_def ws_ends_in_piece_def SIZE_MAX_def)
  have r: "zcio_ws_recv example_ws_env (Some ?ws) True (-1) = Some (zcode ZCIO_OK, Some (ZCIO_WS_TEXT, asc ''hi''), Some ws')"
    by (rule recv_of_pump [OF p]) simp_all
  from ws_session_sound [OF re r] re r show ?thesis by auto
qed

subsection \<open>Sending and receiving\<close>

text \<open>A receiver that takes a message off the wire.\<close>

definition ws_receives :: "bool \<Rightarrow> bytes \<Rightarrow> zcio_ws_type \<Rightarrow> bytes \<Rightarrow> bool" where
  "ws_receives from_server w ty d \<longleftrightarrow>
     (\<forall>(env :: membuf ws_env) ws rest. ws_wf ws \<longrightarrow> \<not> ws_frag_active ws \<longrightarrow> ws_is_server ws = (\<not> from_server) \<longrightarrow>
        length d \<le> ws_max_msg_bytes ws \<longrightarrow> (\<forall>n. we_alloc env n) \<longrightarrow> ZHS_PTR (ws_in ws) = w @ rest \<longrightarrow>
        (\<exists>ws'. ws_pump env ws = Some (WS_MSG ty d, ws') \<and> ZHS_PTR (ws_in ws') = rest))"

lemma wire_received:
  assumes "op = WS_OP_TEXT \<or> op = WS_OP_BIN" "length key = 4" "length d < 2 ^ 63"
    "op = WS_OP_TEXT \<Longrightarrow> zhs_utf8_valid d"
  shows "ws_receives srv (ws_wire srv key op True d) (ws_type_of op) d"
  unfolding ws_receives_def
proof (intro allI impI)
  fix env :: "membuf ws_env" and ws :: "membuf zcio_ws" and rest
  assume a: "ws_wf ws" "\<not> ws_frag_active ws" "ws_is_server ws = (\<not> srv)" "length d \<le> ws_max_msg_bytes ws"
    "\<forall>n. we_alloc env n" "ZHS_PTR (ws_in ws) = ws_wire srv key op True d @ rest"
  have m: "ws_max_msg_bytes ws \<le> SIZE_MAX" using a(1) by (simp add: ws_wf_def)
  show "\<exists>ws'. ws_pump env ws = Some (WS_MSG (ws_type_of op) d, ws') \<and> ZHS_PTR (ws_in ws') = rest"
    using reassemble [of ws op "[Piece key d]" rest op "[]" env, OF _ ws_midway_start [OF a(1,2)] assms(1) _ _ _ m]
      a assms by (simp add: ws_ends_in_piece_def)
qed

lemma wire_length: "length key = 4 \<Longrightarrow> length (ws_wire srv key op fin d) \<le> length d + 14"
  by (simp add: ws_wire_def ws_frame_hdr_def Let_def)

text \<open>
  C10. What one end sends, the other end receives: \<open>zcio_ws_send\<close> of a binary message or a valid
  text succeeds on an open session whose transport has room for it, the bytes it appends to the
  transport are one frame, masked with a fresh key if and only if a client sends it, and every
  session of the other role that finds these bytes in its buffer delivers the same message and
  nothing else.
\<close>

theorem ws_send_recv_roundtrip:
  assumes "ws_stream ws = Some s" "vt s = MEM_VT" "mb_backed (ctx s)"
    and "we_timeout env (Some s) (ws_timeout_ms ws) = Some s"
    and "\<not> ws_is_server ws \<Longrightarrow> we_rand env (ws_draws ws) 4 = Some key" "length key = 4"
    and "\<not> ws_failed ws" "\<not> ws_close_sent ws"
    and "ty = ZCIO_WS_TEXT \<Longrightarrow> zhs_utf8_valid d"
    and "length d + 14 \<le> mb_room (ctx s)" "length d < 2 ^ 63"
  shows "\<exists>ws' s' w. zcio_ws_send env (Some ws) (Some ty) d = Some (ZCIO_OK, Some ws') \<and> ws_stream ws' = Some s' \<and>
    mb_content (ctx s') = mb_content (ctx s) @ w \<and> ws_receives (ws_is_server ws) w ty d"
proof -
  define op where "op = (if ty = ZCIO_WS_TEXT then WS_OP_TEXT else WS_OP_BIN)"
  have op: "op = WS_OP_TEXT \<or> op = WS_OP_BIN" "ws_type_of op = ty" "op = WS_OP_TEXT \<Longrightarrow> zhs_utf8_valid d"
    using assms(9) by (cases ty; simp add: op_def ws_type_of_def ws_ops)+
  have room: "length (ws_wire (ws_is_server ws) key op True d) \<le> mb_room (ctx s)"
    using wire_length [OF assms(6), of "ws_is_server ws" op True d] assms(10) by linarith
  obtain s' k where f: "ws_send_frame env ws op True d = Some (ZCIO_OK, ws\<lparr>ws_draws := k, ws_stream := Some s'\<rparr>)"
      "mb_content (ctx s') = mb_content (ctx s) @ ws_wire (ws_is_server ws) key op True d"
    using mem.send_frame_wire [OF assms(1-5) room] by blast
  have "zcio_ws_send env (Some ws) (Some ty) d = Some (ZCIO_OK, Some (ws\<lparr>ws_draws := k, ws_stream := Some s'\<rparr>))"
    using assms(7-9) f(1) by (simp add: zcio_ws_send_def op_def)
  then show ?thesis using f(2) wire_received [OF op(1) assms(6,11) op(3), of "ws_is_server ws"] op(2) by auto
qed

definition example_sink :: "nat \<Rightarrow> membuf zcio_stream" where
  "example_sink n = \<lparr>vt = MEM_VT, ctx = \<lparr>mb_data = Some (replicate n 0), mb_size = n, mb_rpos = 0, mb_wpos = 0,
     mb_total_read = 0, mb_total_written = 0, mb_counting = False\<rparr>, flags = 0\<rparr>"

lemma example_sink_facts [simp]:
  "vt (example_sink n) = MEM_VT" "mb_wf (ctx (example_sink n))" "mb_data (ctx (example_sink n)) \<noteq> None"
  "mb_room (ctx (example_sink n)) = n" "mb_content (ctx (example_sink n)) = []"
  by (simp_all add: example_sink_def mb_wf_def mb_room_def mb_content_def)

theorem ws_send_recv_roundtrip_witness:
  "\<exists>ws' s' w. zcio_ws_send example_ws_env (Some (example_ws (Some (example_sink 100)) False)) (Some ZCIO_WS_TEXT) (asc ''hi'')
     = Some (ZCIO_OK, Some ws') \<and> ws_stream ws' = Some s' \<and> mb_content (ctx s') = w \<and> ws_receives False w ZCIO_WS_TEXT (asc ''hi'')"
proof -
  have "zhs_utf8_valid (asc ''hi'')" by code_simp
  then show ?thesis
    using ws_send_recv_roundtrip [of "example_ws (Some (example_sink 100)) False" "example_sink 100" example_ws_env
        "replicate 4 0x5A" ZCIO_WS_TEXT "asc ''hi''"]
    by (simp add: example_ws_env_def)
qed

subsection \<open>Protocol violations\<close>

text \<open>
  The violations that show in the first two bytes of a frame: a reserved bit, the wrong masking
  for the direction, a reserved opcode, a control frame in pieces.
\<close>

definition ws_violation :: "bool \<Rightarrow> byte \<Rightarrow> byte \<Rightarrow> bool" where
  "ws_violation is_server b0 b1 \<longleftrightarrow> b0 AND 0x70 \<noteq> 0 \<or> (b1 AND 0x80 \<noteq> 0) \<noteq> is_server \<or>
     \<not> ws_known_opcode (b0 AND 0x0F) \<or> (b0 AND 0x0F) AND 0x08 \<noteq> 0 \<and> b0 AND 0x80 = 0"

lemma violation_parse:
  assumes "10 \<le> length p" "p = ZHS_PTR (ws_in ws)" "ws_violation (ws_is_server ws) (p ! 0) (p ! 1)"
  shows "ws_parse_frame ws = PFail 1002"
proof -
  define base where "base = (if p ! 1 AND 0x7F = 126 then 4 else if p ! 1 AND 0x7F = 127 then 10 else 2 :: nat)"
  have len: "\<not> length p < 2" "\<not> length p < base" using assms(1) by (auto simp: base_def)
  have chain: "(if c then x else if s \<and> \<not> m then x else if \<not> s \<and> m then x else if \<not> k then x
      else if ctl \<and> (\<not> f \<or> g) then x else y) = x" if "m \<noteq> s \<or> \<not> k \<or> ctl \<and> \<not> f"
    for c s m k ctl f g and x y :: ws_parsed using that by auto
  show ?thesis
  proof (cases "p ! 0 AND 0x70 \<noteq> 0")
    case True
    then show ?thesis using len unfolding ws_parse_frame_def Let_def assms(2) [symmetric] by simp
  next
    case False
    show ?thesis
      unfolding ws_parse_frame_def Let_def assms(2) [symmetric] base_def [symmetric] if_not_P [OF False] if_not_P [OF len(1)]
        if_not_P [OF len(2)]
      by (rule chain) (use assms(3) False in \<open>unfold ws_violation_def, blast\<close>)
  qed
qed



subsection \<open>Receiving ends when the peer does\<close>

definition on_transport :: "'d zcio_stream_vtable \<Rightarrow> ('d \<Rightarrow> bool) \<Rightarrow> 'd zcio_ws \<Rightarrow> bool" where
  "on_transport tab iv ws \<longleftrightarrow> (\<exists>s. ws_stream ws = Some s \<and> vt s = tab \<and> iv (ctx s))"

lemma on_transport_upd [simp]:
  "on_transport tab iv (ws\<lparr>ws_in := b\<rparr>) = on_transport tab iv ws"
  "on_transport tab iv (ws\<lparr>ws_frag := f\<rparr>) = on_transport tab iv ws"
  "on_transport tab iv (ws\<lparr>ws_ticks := t\<rparr>) = on_transport tab iv ws"
  "on_transport tab iv (ws\<lparr>ws_failed := x\<rparr>) = on_transport tab iv ws"
  "on_transport tab iv (ws\<lparr>ws_close_sent := x\<rparr>) = on_transport tab iv ws"
  "on_transport tab iv (ws\<lparr>ws_close_recv := x\<rparr>) = on_transport tab iv ws"
  "on_transport tab iv (ws\<lparr>ws_close_code := c\<rparr>) = on_transport tab iv ws"
  "on_transport tab iv (ws\<lparr>ws_frag_active := x\<rparr>) = on_transport tab iv ws"
  "on_transport tab iv (ws\<lparr>ws_cur_opcode := x8\<rparr>) = on_transport tab iv ws"
  "on_transport tab iv (ws_consume ws n) = on_transport tab iv ws"
  by (simp_all add: on_transport_def)

context byte_sink
begin

lemma mask_loop_returns:
  "vt s = tab \<Longrightarrow> snk_invar (ctx s) \<Longrightarrow>
   \<exists>r s'. ws_mask_loop (Some s) key src off = Some (r, Some s') \<and> vt s' = tab \<and> snk_invar (ctx s')"
proof (induction "length src - off" arbitrary: s off rule: less_induct)
  case less
  define c where "c = (if length src - off > 1024 then 1024 else length src - off)"
  define chunk where "chunk = ws_mask key off (mslice src off c)"
  show ?case
  proof (cases "off < length src")
    case False
    then show ?thesis using less.prems by (simp add: ws_mask_loop.simps)
  next
    case True
    then have c: "0 < c" "off + c \<le> length src" by (auto simp: c_def)
    then have len: "length chunk = c" by (simp add: chunk_def)
    obtain w s1 where s1: "zcio_write_full (Some s) (Some chunk) c = Some (w, Some s1)" "vt s1 = tab" "snk_invar (ctx s1)"
      using write_full_fits [OF less.prems, of chunk] len by auto
    have "\<exists>r s'. ws_mask_loop (Some s1) key src (off + c) = Some (r, Some s') \<and> vt s' = tab \<and> snk_invar (ctx s')"
      using c s1 by (intro less.hyps) auto
    then show ?thesis using True s1
      by (subst ws_mask_loop.simps) (auto simp: Let_def c_def [symmetric] chunk_def [symmetric])
  qed
qed

lemma send_frame_returns:
  assumes "on_transport tab snk_invar ws" "\<And>s t. we_timeout env s t = s"
  shows "\<exists>r ws'. ws_send_frame env ws op fin d = Some (r, ws') \<and> on_transport tab snk_invar ws'"
proof (cases "if ws_is_server ws then Some [] else we_rand env (ws_draws ws) 4")
  case None
  then show ?thesis using assms(1) by (auto simp: ws_send_frame_def on_transport_def split: if_splits)
next
  case (Some key)
  obtain s where s: "ws_stream ws = Some s" "vt s = tab" "snk_invar (ctx s)" using assms(1) by (auto simp: on_transport_def)
  define hdr where "hdr = ws_frame_hdr (ws_is_server ws) op fin (length d) @ key"
  obtain w s1 where s1: "zcio_write_full (Some s) (Some hdr) (length hdr) = Some (w, Some s1)" "vt s1 = tab" "snk_invar (ctx s1)"
    using write_full_fits [OF s(2,3), of hdr] by auto
  obtain w2 s2 where s2: "zcio_write_full (Some s1) (Some d) (length d) = Some (w2, Some s2)" "vt s2 = tab" "snk_invar (ctx s2)"
    using write_full_fits [OF s1(2,3), of d] by auto
  obtain r s3 where s3: "ws_mask_loop (Some s1) key d 0 = Some (r, Some s3)" "vt s3 = tab" "snk_invar (ctx s3)"
    using mask_loop_returns [OF s1(2,3)] by blast
  show ?thesis
    unfolding ws_send_frame_def Some option.case Let_def hdr_def [symmetric] ws_apply_timeout_def assms(2)
    using s s1 s2 s3 by (simp add: on_transport_def)
qed

lemma protocol_fail_returns:
  assumes "on_transport tab snk_invar ws" "\<And>s t. we_timeout env s t = s"
  shows "\<exists>r ws'. ws_stop (ws_protocol_fail env ws code) = Some (r, ws') \<and> on_transport tab snk_invar ws'"
proof -
  obtain r ws' where "ws_send_frame env ws WS_OP_CLOSE True (be16_bytes code) = Some (r, ws')" "on_transport tab snk_invar ws'"
    using send_frame_returns [OF assms] by blast
  then show ?thesis using assms(1) by (simp add: ws_protocol_fail_def ws_stop_def)
qed

lemma on_frame_returns:
  assumes "on_transport tab snk_invar ws" "\<And>s t. we_timeout env s t = s"
  shows "\<exists>r ws'. ws_on_frame env ws op fin d n = Some (r, ws') \<and> on_transport tab snk_invar ws'"
proof -
  have fail: "\<exists>r ws'. ws_stop (ws_protocol_fail env w code) = Some (r, ws') \<and> on_transport tab snk_invar ws'"
    if "on_transport tab snk_invar w" for w code using protocol_fail_returns [OF that assms(2)] by blast
  have ping: "\<exists>r ws'. ws_on_ping env ws d n = Some (r, ws') \<and> on_transport tab snk_invar ws'"
    using send_frame_returns [OF assms, of WS_OP_PONG True d] by (auto simp: ws_on_ping_def)
  have data: "\<exists>r ws'. ws_on_data env ws op fin d n = Some (r, ws') \<and> on_transport tab snk_invar ws'"
    using assms(1) fail by (auto simp: ws_on_data_def Let_def split: prod.splits)
  have cont: "\<exists>r ws'. ws_on_cont env ws fin d n = Some (r, ws') \<and> on_transport tab snk_invar ws'"
    using assms(1) fail by (auto simp: ws_on_cont_def Let_def split: prod.splits)
  have close: "\<exists>r ws'. ws_on_close env ws d n = Some (r, ws') \<and> on_transport tab snk_invar ws'"
  proof -
    define code where "code = (if length d \<ge> 2 then push_bit 8 (ucast (d ! 0)) OR ucast (d ! 1) else 1005 :: u16)"
    define ws1 where "ws1 = ws\<lparr>ws_close_code := code, ws_close_recv := True\<rparr>"
    have t1: "on_transport tab snk_invar ws1" using assms(1) by (simp add: ws1_def)
    obtain r ws2 where s: "ws_send_frame env ws1 WS_OP_CLOSE True (if length d \<ge> 2 then be16_bytes code else []) = Some (r, ws2)"
      "on_transport tab snk_invar ws2" using send_frame_returns [OF t1 assms(2)] by blast
    show ?thesis
      unfolding ws_on_close_def Let_def code_def [symmetric] ws1_def [symmetric]
      using fail assms(1) t1 s by simp
  qed
  show ?thesis
    unfolding ws_on_frame_def using ping data cont close fail [OF assms(1)] assms(1)
    by (simp split: if_split)
qed

lemma pump_turn_returns:
  assumes "on_transport tab snk_invar ws" "\<And>s t. we_timeout env s t = s"
  shows "\<exists>r ws'. ws_pump_turn env ws = Some (r, ws') \<and> on_transport tab snk_invar ws'"
proof (cases "ws_parse_frame ws")
  case (PFrame op fin masked base len)
  have "on_transport tab snk_invar (if masked then ws\<lparr>ws_in := ws_unmask (ws_in ws) base len\<rparr> else ws)"
    using assms(1) by simp
  from on_frame_returns [OF this assms(2)] PFrame show ?thesis by (simp add: ws_pump_turn_def Let_def)
qed (use assms(1) protocol_fail_returns [OF assms] in \<open>simp_all add: ws_pump_turn_def\<close>)

lemma pump_returns:
  assumes "\<And>s t. we_timeout env s t = s"
  shows "on_transport tab snk_invar ws \<Longrightarrow> \<exists>r ws'. ws_pump env ws = Some (r, ws') \<and> on_transport tab snk_invar ws'"
proof (induction "length (ZHS_PTR (ws_in ws))" arbitrary: ws rule: less_induct)
  case less
  obtain r ws1 where t: "ws_pump_turn env ws = Some (r, ws1)" "on_transport tab snk_invar ws1"
    using pump_turn_returns [OF less.prems assms] by blast
  show ?case
  proof (cases r)
    case None
    with t have "ws_pump env ws = ws_pump env ws1" by (subst ws_pump.simps) simp
    then show ?thesis using less.hyps [of ws1] pump_turn_shorter [of env ws ws1] t None by simp
  next
    case (Some x)
    with t show ?thesis by (subst ws_pump.simps) simp
  qed
qed

end

text \<open>
  Sending does not move the read cursor of a memory stream, so the memory view with its cursor
  fixed is a sink as well.
\<close>

interpretation memk: byte_sink MEM_VT "\<lambda>m p. Some (mb_write m p)" "\<lambda>m. mb_backed m \<and> mb_rpos m = r \<and> mb_size m = z"
  mb_room mb_content
  for r z
proof
  fix m and p :: bytes and k assume m: "mb_backed m \<and> mb_rpos m = r \<and> mb_size m = z" "k = min (length p) (mb_room m)"
  then have "mb_rpos (snd (mb_write m p)) = r \<and> mb_size (snd (mb_write m p)) = z"
    by (auto simp: mb_write_def Let_def split: option.splits)
  then show "\<exists>m'. Some (mb_write m p) = Some (int k, m') \<and> (mb_backed m' \<and> mb_rpos m' = r \<and> mb_size m' = z) \<and>
      mb_room m' = mb_room m - k \<and> mb_content m' = mb_content m @ take k p"
    using mb_write_content [of m p] m by auto
qed (simp add: MEM_VT_def)

abbreviation at_cursor :: "nat \<Rightarrow> nat \<Rightarrow> membuf zcio_ws \<Rightarrow> bool" where
  "at_cursor r z \<equiv> on_transport MEM_VT (\<lambda>m. mb_backed m \<and> mb_rpos m = r \<and> mb_size m = z)"

lemma fill_returns:
  assumes "at_cursor r z ws" "\<And>s t. we_timeout env s t = s"
  shows "\<exists>fr ws' r'. ws_fill env ws t = Some (fr, ws') \<and> at_cursor r' z ws' \<and> (fr = 0 \<longrightarrow> r < r' \<and> r' \<le> z) \<and> fr \<le> 0 \<and> fr \<noteq> zcode ZCIO_ERR_TIMEOUT"
proof -
  obtain s where s: "ws_stream ws = Some s" "vt s = MEM_VT" "mb_backed (ctx s)" "mb_rpos (ctx s) = r" "mb_size (ctx s) = z"
    using assms(1) by (auto simp: on_transport_def)
  obtain blk where blk: "mb_data (ctx s) = Some blk" "length blk = z" "r \<le> z" using s by (auto simp: mb_wf_def)
  define k where "k = (if 4096 < szsub z r then 4096 else szsub z r)"
  define m' where "m' = (ctx s)\<lparr>mb_rpos := r + k, mb_total_read := mb_total_read (ctx s) + int k\<rparr>"
  have k: "k \<le> z - r" "k = 0 \<longleftrightarrow> z = r" using blk(3) by (auto simp: k_def)
  have rd: "mb_read (ctx s) 4096 = (int k, mslice blk r k, m')"
    using s blk by (simp add: mb_read_def Let_def k_def m'_def)
  have zr: "zcio_read (ws_stream ws) True 4096 = Some (int k, mslice blk r k, Some (s\<lparr>ctx := m'\<rparr>))"
    using s rd by (simp add: zcio_read_def MEM_VT_def)
  have bk: "mb_backed m'" using s blk k by (simp add: m'_def mb_wf_def)
  obtain q b where ap: "zhs_buf_append (we_alloc env) (ws_in ws) (take (nat (int k)) (mslice blk r k)) = (q, b)" by fastforce
  define ws' where "ws' = (if k = 0 then ws\<lparr>ws_stream := Some (s\<lparr>ctx := m'\<rparr>)\<rparr> else ws\<lparr>ws_stream := Some (s\<lparr>ctx := m'\<rparr>), ws_in := b\<rparr>)"
  have "ws_fill env ws t = Some (if k = 0 then zcode ZCIO_ERR_EOF else if q = ZCIO_OK then zcode ZCIO_OK else zcode ZCIO_ERR_NOMEM, ws')"
    using zr ap by (simp add: ws_fill_def Let_def ws_apply_timeout_def assms(2) ws'_def)
  moreover have "at_cursor (r + k) z ws'" using bk s by (auto simp: ws'_def on_transport_def m'_def)
  ultimately show ?thesis using k blk(3) by (intro exI [of _ "r + k"] exI conjI) (auto split: if_splits)
qed

lemma recv_loop_returns:
  assumes "\<And>s t. we_timeout env s t = s"
  shows "at_cursor r z ws \<Longrightarrow> r \<le> z \<Longrightarrow> ws_recv_loop env bounded deadline ws \<noteq> None"
proof (induction "z - r" arbitrary: r ws rule: less_induct)
  case less
  obtain x ws1 where p: "ws_pump env ws = Some (x, ws1)" "at_cursor r z ws1"
    using memk.pump_returns [OF assms less.prems(1)] by blast
  define now ws2 where "now = (if bounded then we_now env (ws_ticks ws1) else 0)"
    and "ws2 = (if bounded then ws1\<lparr>ws_ticks := ws_ticks ws1 + 1\<rparr> else ws1)"
  have nw: "(if bounded then ws_now env ws1 else (0, ws1)) = (now, ws2)" by (simp add: now_def ws2_def ws_now_def)
  define to where "to = (if bounded then (if int (deadline - now) > INT_MAX then INT_MAX else int (deadline - now)) else -1)"
  have "at_cursor r z ws2" using p(2) by (simp add: ws2_def)
  from fill_returns [OF this assms, of to] obtain fr ws3 r' where f: "ws_fill env ws2 to = Some (fr, ws3)" "at_cursor r' z ws3"
    "fr = 0 \<longrightarrow> r < r' \<and> r' \<le> z" "fr \<le> 0" "fr \<noteq> zcode ZCIO_ERR_TIMEOUT" by blast
  have again: "fr = 0 \<Longrightarrow> ws_recv_loop env bounded deadline ws3 \<noteq> None"
    using f less.hyps [of r' ws3] by auto
  show ?case
  proof (cases x)
    case WS_MORE
    have "ws_recv_loop env bounded deadline ws =
        (if bounded \<and> now \<ge> deadline then Some (zcode ZCIO_ERR_TIMEOUT, None, ws2)
         else if fr = zcode ZCIO_ERR_EOF then Some (zcode ZCIO_ERR_EOF, None, ws3\<lparr>ws_failed := True\<rparr>)
         else if fr < 0 then Some (fr, None, ws3) else ws_recv_loop env bounded deadline ws3)"
      unfolding ws_recv_loop.simps [of env bounded deadline ws] p(1) Option.bind.simps prod.case WS_MORE ws_ret.case nw Let_def
        to_def [symmetric] f(1) if_not_P [OF f(5)] by simp
    then show ?thesis using again f(4) by (cases "fr = 0") auto
  qed (simp_all add: ws_recv_loop.simps [of env bounded deadline ws] p(1))
qed

text \<open>
  C30. Receiving ends: on a transport that holds finitely many bytes and then reports its end,
  \<open>zcio_ws_recv\<close> returns for every content of the transport and every state of the session, with
  a deadline and without one, although its loop has no bound of its own (every turn that
  continues has taken at least one byte from the transport).
\<close>

theorem ws_recv_returns:
  assumes "ws_stream ws = Some s" "vt s = MEM_VT" "mb_backed (ctx s)" "\<And>s t. we_timeout env s t = s"
  shows "\<exists>r m ws'. zcio_ws_recv env (Some ws) out t = Some (r, m, Some ws')"
proof -
  define now w1 where "now = (if 0 \<le> t then we_now env (ws_ticks ws) else 0)"
    and "w1 = (if 0 \<le> t then ws\<lparr>ws_ticks := ws_ticks ws + 1\<rparr> else ws)"
  have nw: "(if 0 \<le> t then ws_now env ws else (0, ws)) = (now, w1)" by (simp add: now_def w1_def ws_now_def)
  have "at_cursor (mb_rpos (ctx s)) (mb_size (ctx s)) w1" using assms(1-3) by (auto simp: w1_def on_transport_def)
  moreover have "mb_rpos (ctx s) \<le> mb_size (ctx s)" using assms(3) by (simp add: mb_wf_def)
  ultimately obtain x where "ws_recv_loop env (0 \<le> t) (if 0 \<le> t then now + nat t else 0) w1 = Some x"
    using recv_loop_returns [OF assms(4)] by blast
  then show ?thesis by (cases x) (simp add: zcio_ws_recv_def nw Let_def)
qed

theorem ws_recv_returns_witness:
  "\<exists>r m ws'. zcio_ws_recv example_ws_env (Some (example_ws (Some (example_sink 3)) True)) True (-1) = Some (r, m, Some ws')"
  by (rule ws_recv_returns [of _ "example_sink 3"]) (simp_all add: example_ws_env_def)

end
