(* ===== verification/Zc_WsConnect.thy ===== *)
theory Zc_WsConnect
  imports Zc_WsSession
begin

unbundle bit_operations_syntax

text \<open>
  The opening handshakes of \<open>src/ws.c\<close>: the server side, which answers an upgrade request and
  takes the connection over from the event loop (\<open>zhs_detach_for_upgrade_\<close> of
  \<open>src/http_server.c\<close>), and the client side, which parses the URL, dials, sends the request,
  checks the answer and follows redirects. Dialling, TLS contexts and entropy are parameters
  (\<open>ws_net\<close>). Proved: a client session exists only after an answer that carries the accept
  value of the key just sent, at most four connections are made, and a secure one is never
  followed by an insecure one.
\<close>

subsection \<open>Server handshake\<close>

text \<open>The part of the event loop's connection object that the upgrade touches.\<close>

record 'c conn_io =
  ci_stream :: "'c zcio_stream option"
  ci_in :: zhs_buf
  ci_out :: zhs_buf
  ci_detached :: bool
  ci_write_timeout_ms :: int

text \<open>
  \<open>owner\<close> says whether the request has a connection. The result is the stream that now belongs to
  the session and the bytes already read past the request.
\<close>

definition zhs_detach_for_upgrade ::
  "'c ws_env \<Rightarrow> zcio_http_req option \<Rightarrow> bool \<Rightarrow> 'c conn_io \<Rightarrow> bytes
     \<Rightarrow> (('c zcio_stream \<times> bytes) option \<times> 'c conn_io) option" where
  "zhs_detach_for_upgrade env req owner c resp =
     (case req of
        None \<Rightarrow> Some (None, c)
      | Some q \<Rightarrow>
          if rq_version q \<noteq> 1 \<or> \<not> owner then Some (None, c)
          else (case ci_stream c of
              None \<Rightarrow> Some (None, c)
            | Some _ \<Rightarrow> do {
                let s0 = we_timeout env (ci_stream c) (ci_write_timeout_ms c);
                (w, s1) \<leftarrow> zcio_write_full s0 (Some resp) (length resp);
                let c1 = c\<lparr>ci_stream := s1\<rparr>;
                if w < 0 \<or> nat w \<noteq> length resp then Some (None, c1)
                else do {
                  let queued = ZHS_PTR (ci_out c1);
                  (w2, s2) \<leftarrow> (if length queued = 0 then Some (0, s1) else zcio_write_full s1 (Some queued) (length queued));
                  let c2 = c1\<lparr>ci_stream := s2\<rparr>;
                  if length queued \<noteq> 0 \<and> (w2 < 0 \<or> nat w2 \<noteq> length queued) then Some (None, c2)
                  else do {
                    let c3 = (if length queued = 0 then c2 else c2\<lparr>ci_out := zhs_buf_consume (ci_out c2) (length queued)\<rparr>);
                    Some (map_option (\<lambda>s. (s, ZHS_PTR (ci_in c3))) (ci_stream c3),
                          c3\<lparr>ci_stream := None, ci_detached := True\<rparr>) } } }))"

definition zcio_http_req_is_ws_upgrade :: "zcio_http_req option \<Rightarrow> bool" where
  "zcio_http_req_is_ws_upgrade r = (case r of None \<Rightarrow> False | Some q \<Rightarrow> rq_ws_upgrade q)"

definition ws_response_101 :: "bytes \<Rightarrow> bytes list" where
  "ws_response_101 accept =
     [asc ''HTTP/1.1 101 Switching Protocols'' @ crlf @ asc ''Upgrade: websocket'' @ crlf @
        asc ''Connection: Upgrade'' @ crlf @ asc ''Sec-WebSocket-Accept: '', accept, crlf @ crlf]"

definition zcio_ws_accept ::
  "'c ws_env \<Rightarrow> bool \<Rightarrow> zcio_http_req option \<Rightarrow> bool \<Rightarrow> 'c conn_io
     \<Rightarrow> ((zcio_result + 'c zcio_ws) \<times> 'c conn_io) option" where
  "zcio_ws_accept env calloc_ok r owner c =
     (if \<not> zcio_http_req_is_ws_upgrade r then Some (Inl ZCIO_ERR_INVALID_ARG, c)
      else (case Option.bind r (\<lambda>q. zhs_hdrs_get (rq_headers q) (asc ''sec-websocket-key'')) of
          None \<Rightarrow> Some (Inl ZCIO_ERR_PROTOCOL, c)
        | Some key \<Rightarrow>
            (case ws_compute_accept (we_alloc env) key of
               Inl _ \<Rightarrow> Some (Inl ZCIO_ERR_NOMEM, c)
             | Inr accept \<Rightarrow>
                 (case app_all (we_alloc env) (ws_response_101 accept) zhs_buf_zero of
                    (ok, resp) \<Rightarrow>
                      if ok \<noteq> ZCIO_OK then Some (Inl ZCIO_ERR_NOMEM, c)
                      else do {
                        (d, c1) \<leftarrow> zhs_detach_for_upgrade env r owner c (zb_data resp);
                        (case d of
                           None \<Rightarrow> Some (Inl ZCIO_ERR, c1)
                         | Some (st, leftover) \<Rightarrow>
                             (case ws_new calloc_ok env (Some st) True False False of
                                None \<Rightarrow> Some (Inl ZCIO_ERR_NOMEM, c1)
                              | Some ws \<Rightarrow>
                                  (if length leftover = 0 then Some (Inr ws, c1)
                                   else case zhs_buf_append (we_alloc env) (ws_in ws) leftover of
                                     (a, b) \<Rightarrow>
                                       if a \<noteq> ZCIO_OK
                                       then do { _ \<leftarrow> zcio_ws_free env (Some ws); Some (Inl ZCIO_ERR_NOMEM, c1) }
                                       else Some (Inr (ws\<lparr>ws_in := b\<rparr>), c1)))) }))))"

subsection \<open>The URL\<close>

definition ws_hdr_token_ok :: "bytes option \<Rightarrow> bool" where
  "ws_hdr_token_ok s = (case s of None \<Rightarrow> False | Some t \<Rightarrow> list_all (\<lambda>p. \<not> (p < 0x20 \<or> p = 0x7F)) t)"

text \<open>\<open>strstr\<close> and \<open>strtol\<close> of the C library; the latter reports the value and what follows the number.\<close>

fun str_find :: "bytes \<Rightarrow> bytes \<Rightarrow> nat option" where
  "str_find pat [] = (if pat = [] then Some 0 else None)"
| "str_find pat (c # r) = (if take (length pat) (c # r) = pat then Some 0 else map_option Suc (str_find pat r))"

definition c_isspace :: "byte \<Rightarrow> bool" where
  "c_isspace c \<longleftrightarrow> c = 0x20 \<or> 0x09 \<le> c \<and> c \<le> 0x0D"

definition strtol10 :: "bytes \<Rightarrow> (int \<times> bytes) option" where
  "strtol10 s =
     (let t = dropWhile c_isspace s;
          neg = (t \<noteq> [] \<and> hd t = 0x2D);
          u = (if t \<noteq> [] \<and> (hd t = 0x2D \<or> hd t = 0x2B) then tl t else t);
          ds = takeWhile h1_is_digit u;
          v = int (dec_value ds)
      in if ds = [] then None else Some (if neg then - v else v, dropWhile h1_is_digit u))"

text \<open>The loop that drops everything up to each \<open>@\<close> in turn.\<close>

function ws_strip_userinfo :: "bytes \<Rightarrow> bytes" where
  "ws_strip_userinfo auth =
     (let i = length (takeWhile (\<lambda>c. c \<noteq> 0x40) auth) in
      if i < length auth then ws_strip_userinfo (drop (i + 1) auth) else auth)"
  by pat_completeness auto
termination
  by (relation "measure length") auto

declare ws_strip_userinfo.simps [simp del]

definition ws_scheme :: "bytes \<Rightarrow> zcio_result + bool" where
  "ws_scheme s =
     (if length s \<ge> 8 then Inl ZCIO_ERR_PROTOCOL
      else (let sc = map tolower s in
        if sc = asc ''ws'' \<or> sc = asc ''http'' then Inr False
        else if sc = asc ''wss'' \<or> sc = asc ''https'' then Inr True
        else Inl ZCIO_ERR_PROTOCOL))"

text \<open>\<open>host[:port]\<close>; the port text is absent, or what follows the colon.\<close>

definition ws_authority :: "bytes \<Rightarrow> zcio_result + (bytes \<times> bytes option)" where
  "ws_authority auth =
     (if auth \<noteq> [] \<and> hd auth = 0x5B then
        (let h = takeWhile (\<lambda>c. c \<noteq> 0x5D) (tl auth); after = drop (length h + 2) auth in
         if length h = length (tl auth) then Inl ZCIO_ERR_PROTOCOL
         else if after \<noteq> [] then
           (if hd after \<noteq> 0x3A then Inl ZCIO_ERR_PROTOCOL else Inr (h, Some (tl after)))
         else Inr (h, None))
      else
        (let h = takeWhile (\<lambda>c. c \<noteq> 0x3A) auth in
         Inr (h, if length h < length auth then Some (drop (length h + 1) auth) else None)))"

definition ws_port :: "bool \<Rightarrow> bytes option \<Rightarrow> zcio_result + int" where
  "ws_port sec ps =
     (case ps of
        None \<Rightarrow> Inr (if sec then 443 else 80)
      | Some pb \<Rightarrow>
          if pb = [] then Inr (if sec then 443 else 80)
          else if length pb \<ge> 16 then Inl ZCIO_ERR_PROTOCOL
          else (case strtol10 pb of
              None \<Rightarrow> Inl ZCIO_ERR_PROTOCOL
            | Some (v, rest) \<Rightarrow> if rest \<noteq> [] \<or> v < 1 \<or> v > 65535 then Inl ZCIO_ERR_PROTOCOL else Inr v))"

record ws_url =
  wu_secure :: bool
  wu_host :: bytes
  wu_port :: int
  wu_path :: bytes

definition ws_url_parse :: "allocator \<Rightarrow> bytes option \<Rightarrow> zcio_result + ws_url" where
  "ws_url_parse alloc url =
     (case url of
        None \<Rightarrow> Inl ZCIO_ERR_INVALID_ARG
      | Some u \<Rightarrow>
          (case str_find (asc ''://'') u of
             None \<Rightarrow> Inl ZCIO_ERR_PROTOCOL
           | Some slen \<Rightarrow>
               (case ws_scheme (take slen u) of
                  Inl e \<Rightarrow> Inl e
                | Inr sec \<Rightarrow>
                    (let auth0 = drop (slen + 3) u;
                         auth1 = takeWhile (\<lambda>c. c \<noteq> 0x2F) auth0;
                         path = (if length auth1 < length auth0 then drop (length auth1) auth0 else [0x2F])
                     in case ws_authority (ws_strip_userinfo auth1) of
                          Inl e \<Rightarrow> Inl e
                        | Inr (host, ps) \<Rightarrow>
                            if host = [] then Inl ZCIO_ERR_PROTOCOL
                            else (case ws_port sec ps of
                                Inl e \<Rightarrow> Inl e
                              | Inr port \<Rightarrow>
                                  if \<not> alloc (length host + 1) \<or> \<not> alloc (length path + 1) then Inl ZCIO_ERR_NOMEM
                                  else Inr \<lparr>wu_secure = sec, wu_host = host, wu_port = port, wu_path = path\<rparr>)))))"

subsection \<open>Request and response of the client\<close>

definition ws_host_str :: "bytes \<Rightarrow> bytes" where
  "ws_host_str host = (if 0x3A \<in> set host then [0x5B] @ host @ [0x5D] else host)"

definition ws_port_str :: "bool \<Rightarrow> int \<Rightarrow> bytes" where
  "ws_port_str secure port = (if port \<noteq> (if secure then 443 else 80) then 0x3A # fmt_int port else [])"

definition ws_request_strs :: "ws_url \<Rightarrow> bytes \<Rightarrow> http_header list \<Rightarrow> bytes list" where
  "ws_request_strs u key headers =
     [asc ''GET '', wu_path u, asc '' HTTP/1.1'' @ crlf @ asc ''Host: '']
     @ (if 0x3A \<in> set (wu_host u) then [[0x5B], wu_host u, [0x5D]] else [wu_host u])
     @ (if wu_port u \<noteq> (if wu_secure u then 443 else 80) then [0x3A # fmt_int (wu_port u)] else [])
     @ [crlf @ asc ''Upgrade: websocket'' @ crlf @ asc ''Connection: Upgrade'' @ crlf @ asc ''Sec-WebSocket-Key: '',
        key, crlf @ asc ''Sec-WebSocket-Version: 13'' @ crlf]
     @ concat (map (\<lambda>(k, v). case k of None \<Rightarrow> []
         | Some k' \<Rightarrow> [k', asc '': '', (case v of None \<Rightarrow> [] | Some v' \<Rightarrow> v'), crlf]) headers)
     @ [crlf]"

definition ws_send_handshake ::
  "'c ws_env \<Rightarrow> 'c zcio_stream option \<Rightarrow> ws_url \<Rightarrow> bytes \<Rightarrow> http_header list
     \<Rightarrow> (zcio_result \<times> 'c zcio_stream option) option" where
  "ws_send_handshake env s u key headers =
     (case app_all (we_alloc env) (ws_request_strs u key headers) zhs_buf_zero of
        (ok, req) \<Rightarrow>
          if ok \<noteq> ZCIO_OK then Some (ZCIO_ERR_NOMEM, s)
          else do {
            (w, s1) \<leftarrow> zcio_write_full s (Some (zb_data req)) (length (zb_data req));
            Some (if w = int (length (zb_data req)) then ZCIO_OK else ZCIO_ERR, s1) })"

definition WS_HANDSHAKE_HEAD_CAP :: nat where
  "WS_HANDSHAKE_HEAD_CAP = 64 * 1024"

text \<open>The result is a code and, when it is zero, the length of the head.\<close>

partial_function (option) ws_read_head ::
  "'c ws_env \<Rightarrow> 'c zcio_stream option \<Rightarrow> zhs_buf \<Rightarrow> (int \<times> nat \<times> zhs_buf \<times> 'c zcio_stream option) option" where
  "ws_read_head env s acc =
     (case str_find (crlf @ crlf) (ZHS_PTR acc) of
        Some i \<Rightarrow> Some (zcode ZCIO_OK, i + 4, acc, s)
      | None \<Rightarrow>
          if length (ZHS_PTR acc) > WS_HANDSHAKE_HEAD_CAP then Some (zcode ZCIO_ERR_PROTOCOL, 0, acc, s)
          else Option.bind (zcio_read s True 2048) (\<lambda>(r, d, s1).
            if r \<le> 0 then Some (if r = 0 then zcode ZCIO_ERR_EOF else r, 0, acc, s1)
            else (case zhs_buf_append (we_alloc env) acc (take (nat r) d) of
                (a, acc1) \<Rightarrow>
                  if a \<noteq> ZCIO_OK then Some (zcode ZCIO_ERR_NOMEM, 0, acc1, s1)
                  else ws_read_head env s1 acc1)))"

definition ws_parse_status :: "bytes \<Rightarrow> zcio_result + int" where
  "ws_parse_status h =
     (let line = takeWhile (\<lambda>c. c \<noteq> 0x0A) h;
          pre = takeWhile (\<lambda>c. c \<noteq> 0x20) line;
          digits = take 3 (takeWhile h1_is_digit (drop (length pre + 1) line))
      in if length pre = length line then Inl ZCIO_ERR_PROTOCOL
         else if length digits \<noteq> 3 then Inl ZCIO_ERR_PROTOCOL
         else Inr (int (dec_value digits)))"

function ws_ci_has_token :: "bytes \<Rightarrow> bytes \<Rightarrow> bool" where
  "ws_ci_has_token [] tok = False"
| "ws_ci_has_token (c # cs) tok =
     (let start = dropWhile (\<lambda>c. is_ows c \<or> c = 0x2C) (c # cs);
          e = rtrim_ows (takeWhile (\<lambda>c. c \<noteq> 0x2C) start);
          rest = dropWhile (\<lambda>c. c \<noteq> 0x2C) start
      in if length e = length tok \<and> map tolower e = map tolower tok then True else ws_ci_has_token rest tok)"
  by pat_completeness auto
termination
proof (relation "measure (\<lambda>(l, tok). length l)")
  fix c :: byte and cs tok start e rest
  assume a: "start = dropWhile (\<lambda>c. is_ows c \<or> c = 0x2C) (c # cs)" "rest = dropWhile (\<lambda>c. c \<noteq> 0x2C) start"
  have "length rest < length (c # cs)"
  proof (cases "c = 0x2C \<or> is_ows c")
    case True
    then have "length start < length (c # cs)" unfolding a(1) by (intro dropWhile_shorter) auto
    then show ?thesis using length_dropWhile_le [of "\<lambda>c. c \<noteq> 0x2C" start] a(2) by simp
  next
    case False
    then show ?thesis unfolding a using length_dropWhile_le [of "\<lambda>c. c \<noteq> 0x2C" cs] by simp
  qed
  then show "((rest, tok), (c # cs, tok)) \<in> measure (\<lambda>(l, tok). length l)" by simp
qed simp

declare ws_ci_has_token.simps [simp del]

text \<open>
  The value of a header line, as the C string the caller sees: it ends at the first NUL.
\<close>

definition ws_line_value :: "bytes \<Rightarrow> bytes" where
  "ws_line_value v = takeWhile (\<lambda>c. c \<noteq> 0)
     (rev (dropWhile (\<lambda>c. c = 0x0D \<or> is_ows c) (rev (dropWhile is_ows v))))"

function ws_find_header :: "allocator \<Rightarrow> bytes \<Rightarrow> bytes \<Rightarrow> bytes option" where
  "ws_find_header alloc h name =
     (if h = [] then None
      else
        (let line = takeWhile (\<lambda>c. c \<noteq> 0x0A) h;
             k = takeWhile (\<lambda>c. c \<noteq> 0x3A) line;
             v = drop (length k + 1) line
         in if length k < length line \<and> length k = length name \<and> map tolower k = map tolower name
            then (if alloc (length (rev (dropWhile (\<lambda>c. c = 0x0D \<or> is_ows c) (rev (dropWhile is_ows v)))) + 1)
                  then Some (ws_line_value v) else None)
            else if length line = length h then None
            else ws_find_header alloc (drop (length line + 1) h) name))"
  by pat_completeness auto
termination
  by (relation "measure (\<lambda>(alloc, h, name). length h)") auto

declare ws_find_header.simps [simp del]

definition ws_resolve :: "allocator \<Rightarrow> bytes option \<Rightarrow> ws_url \<Rightarrow> zcio_result + bytes" where
  "ws_resolve alloc loc u =
     (case loc of
        None \<Rightarrow> Inl ZCIO_ERR_PROTOCOL
      | Some l \<Rightarrow>
          if l = [] then Inl ZCIO_ERR_PROTOCOL
          else if str_find (asc ''://'') l \<noteq> None then (if alloc (length l + 1) then Inr l else Inl ZCIO_ERR_NOMEM)
          else if hd l \<noteq> 0x2F then Inl ZCIO_ERR_PROTOCOL
          else
            (let out = asc (if wu_secure u then ''wss'' else ''ws'') @ asc ''://'' @ ws_host_str (wu_host u)
                         @ ws_port_str (wu_secure u) (wu_port u) @ l
             in if \<not> alloc (length out + 1) then Inl ZCIO_ERR_NOMEM else Inr out))"

subsection \<open>Connecting\<close>

text \<open>
  Dialling a host (the transport, with TLS when secure, or nothing), the creation of a TLS
  context, the entropy of attempt \<open>n\<close>, whether the session object can be allocated, and what the
  uninitialised array \<open>expected\<close> holds. A failure is the code passed to \<open>zcio_fail_\<close>.
\<close>

record 'c ws_net =
  wn_dial :: "nat \<Rightarrow> bytes \<Rightarrow> int \<Rightarrow> bool \<Rightarrow> 'c zcio_stream option"
  wn_tls_ctx :: "bytes \<Rightarrow> bool"
  wn_rand :: "nat \<Rightarrow> bytes option"
  wn_calloc :: bool
  wn_junk :: bytes

definition ws_extra_ok :: "http_header \<Rightarrow> bool" where
  "ws_extra_ok h = (case h of (k, v) \<Rightarrow>
     (case k of None \<Rightarrow> True
      | Some _ \<Rightarrow> \<not> (\<not> ws_hdr_token_ok k \<or> (v \<noteq> None \<and> \<not> ws_hdr_token_ok v))))"

text \<open>
  The checks on a 101: the two tokens and the accept value of the key. When the accept value could
  not be computed, the code compares with the uninitialised array.
\<close>

definition ws_101_ok :: "allocator \<Rightarrow> bytes \<Rightarrow> bytes \<Rightarrow> bytes \<Rightarrow> bool" where
  "ws_101_ok alloc junk head key =
     (case (ws_find_header alloc head (asc ''upgrade''), ws_find_header alloc head (asc ''connection''),
            ws_find_header alloc head (asc ''sec-websocket-accept'')) of
        (Some up, Some cn, Some got) \<Rightarrow>
          ws_ci_has_token up (asc ''websocket'') \<and> ws_ci_has_token cn (asc ''upgrade'') \<and>
          got = (case ws_compute_accept alloc key of Inl _ \<Rightarrow> junk | Inr expected \<Rightarrow> expected)
      | _ \<Rightarrow> False)"

text \<open>
  One attempt, after the URL was accepted: a session, an error, or the location to go on with. The
  list is the connection that was made.
\<close>

datatype 'c ws_attempt = Connected "'c zcio_ws" | Failed int | Redirect bytes

definition ws_established :: "'c ws_env \<Rightarrow> 'c ws_net \<Rightarrow> ws_url \<Rightarrow> 'c zcio_stream option \<Rightarrow> zhs_buf \<Rightarrow> nat \<Rightarrow> 'c ws_attempt option" where
  "ws_established env net u s acc body_start =
     (case ws_new (wn_calloc net) env s False True (wu_secure u) of
        None \<Rightarrow> Some (Failed (zcode ZCIO_ERR_NOMEM))
      | Some ws \<Rightarrow>
          (let left = drop body_start (ZHS_PTR acc) in
           if left = [] then Some (Connected ws)
           else case zhs_buf_append (we_alloc env) (ws_in ws) left of
             (a, b) \<Rightarrow>
               if a \<noteq> ZCIO_OK then do { _ \<leftarrow> zcio_ws_free env (Some ws); Some (Failed (zcode ZCIO_ERR_NOMEM)) }
               else Some (Connected (ws\<lparr>ws_in := b\<rparr>))))"

definition ws_answer ::
  "'c ws_env \<Rightarrow> 'c ws_net \<Rightarrow> nat \<Rightarrow> ws_url \<Rightarrow> bytes \<Rightarrow> 'c zcio_stream option \<Rightarrow> zhs_buf \<Rightarrow> nat \<Rightarrow> 'c ws_attempt option" where
  "ws_answer env net redir u key s acc body_start =
     (let head = take body_start (ZHS_PTR acc) in
      case ws_parse_status head of
        Inl e \<Rightarrow> Some (Failed (zcode e))
      | Inr status \<Rightarrow>
          if status = 101 then
            (if \<not> ws_101_ok (we_alloc env) (wn_junk net) head key then Some (Failed (zcode ZCIO_ERR_PROTOCOL))
             else ws_established env net u s acc body_start)
          else if (status = 301 \<or> status = 302 \<or> status = 307 \<or> status = 308) \<and> redir < 3 then
            (case ws_find_header (we_alloc env) head (asc ''location'') of
               None \<Rightarrow> Some (Failed (zcode ZCIO_ERR_PROTOCOL))
             | Some loc \<Rightarrow>
                 (case ws_resolve (we_alloc env) (Some loc) u of
                    Inl e \<Rightarrow> Some (Failed (zcode e))
                  | Inr next \<Rightarrow> Some (Redirect next)))
          else Some (Failed (zcode ZCIO_ERR_PROTOCOL)))"

definition ws_dialled ::
  "'c ws_env \<Rightarrow> 'c ws_net \<Rightarrow> http_header list \<Rightarrow> nat \<Rightarrow> ws_url \<Rightarrow> 'c zcio_stream \<Rightarrow> 'c ws_attempt option" where
  "ws_dialled env net headers redir u s =
     (case wn_rand net redir of
        None \<Rightarrow> Some (Failed (zcode ZCIO_ERR))
      | Some rnd \<Rightarrow> do {
          let key = base64 rnd;
          (hr, s1) \<leftarrow> ws_send_handshake env (Some s) u key headers;
          if hr \<noteq> ZCIO_OK then Some (Failed (zcode hr))
          else do {
            (rc, body_start, acc, s2) \<leftarrow> ws_read_head env s1 zhs_buf_zero;
            if rc \<noteq> zcode ZCIO_OK then Some (Failed rc)
            else ws_answer env net redir u key s2 acc body_start } })"

definition ws_attempt ::
  "'c ws_env \<Rightarrow> 'c ws_net \<Rightarrow> http_header list \<Rightarrow> nat \<Rightarrow> ws_url \<Rightarrow> ('c ws_attempt \<times> ws_url list) option" where
  "ws_attempt env net headers redir u =
     (if wu_secure u \<and> \<not> wn_tls_ctx net (wu_host u) then Some (Failed (zcode ZCIO_ERR_TLS), [])
      else (case wn_dial net redir (wu_host u) (wu_port u) (wu_secure u) of
          None \<Rightarrow> Some (Failed (zcode ZCIO_ERR_CONNECT), [u])
        | Some s \<Rightarrow> map_option (\<lambda>a. (a, [u])) (ws_dialled env net headers redir u s)))"

text \<open>
  The redirect loop: \<open>prev\<close> is whether the previous attempt was secure, if there was one, and the
  list collects the connections made, in order.
\<close>

primrec ws_connect_loop ::
  "nat \<Rightarrow> 'c ws_env \<Rightarrow> 'c ws_net \<Rightarrow> http_header list \<Rightarrow> nat \<Rightarrow> bool option \<Rightarrow> bytes option
     \<Rightarrow> ((int + 'c zcio_ws) \<times> ws_url list) option" where
  "ws_connect_loop 0 env net headers redir prev cur = Some (Inl (zcode ZCIO_ERR_PROTOCOL), [])"
| "ws_connect_loop (Suc left) env net headers redir prev cur =
     (case ws_url_parse (we_alloc env) cur of
        Inl e \<Rightarrow> Some (Inl (zcode e), [])
      | Inr u \<Rightarrow>
          if prev = Some True \<and> \<not> wu_secure u then Some (Inl (zcode ZCIO_ERR_PROTOCOL), [])
          else do {
            (a, dials) \<leftarrow> ws_attempt env net headers redir u;
            (case a of
               Connected ws \<Rightarrow> Some (Inr ws, dials)
             | Failed e \<Rightarrow> Some (Inl e, dials)
             | Redirect next \<Rightarrow>
                 map_option (\<lambda>(r, more). (r, dials @ more))
                   (ws_connect_loop left env net headers (redir + 1) (Some (wu_secure u)) (Some next))) })"

definition zcio_ws_connect ::
  "'c ws_env \<Rightarrow> 'c ws_net \<Rightarrow> bytes option \<Rightarrow> http_header list
     \<Rightarrow> ((int + 'c zcio_ws) \<times> ws_url list) option" where
  "zcio_ws_connect env net url headers =
     (if \<not> list_all ws_extra_ok headers then Some (Inl (zcode ZCIO_ERR_INVALID_ARG), [])
      else if url \<noteq> None \<and> \<not> we_alloc env (length (the url) + 1) then Some (Inl (zcode ZCIO_ERR_NOMEM), [])
      else ws_connect_loop 4 env net headers 0 None url)"

subsection \<open>Redirects\<close>

definition no_downgrade :: "ws_url list \<Rightarrow> bool" where
  "no_downgrade us \<longleftrightarrow> sorted_wrt (\<lambda>u v. wu_secure u \<longrightarrow> wu_secure v) us"

lemma attempt_dials: "ws_attempt env net headers redir u = Some (a, dials) \<Longrightarrow> dials = [] \<or> dials = [u]"
  by (auto simp: ws_attempt_def split: if_splits option.splits)

lemma connect_loop_dials:
  "ws_connect_loop left env net headers redir prev cur = Some (r, dials) \<Longrightarrow>
   length dials \<le> left \<and> no_downgrade dials \<and> (prev = Some True \<longrightarrow> list_all wu_secure dials)"
proof (induction left arbitrary: redir prev cur r dials)
  case 0
  then show ?case by (simp add: no_downgrade_def)
next
  case (Suc left)
  show ?case
  proof (cases "ws_url_parse (we_alloc env) cur")
    case (Inl e)
    then show ?thesis using Suc.prems by (simp add: no_downgrade_def)
  next
    case (Inr u)
    show ?thesis
    proof (cases "prev = Some True \<and> \<not> wu_secure u")
      case True
      then show ?thesis using Suc.prems Inr by (simp add: no_downgrade_def)
    next
      case ok: False
      then obtain a d1 where a: "ws_attempt env net headers redir u = Some (a, d1)"
        using Suc.prems Inr by (auto simp: bind_eq_Some_conv)
      note d1 = attempt_dials [OF a]
      have one: "length d1 \<le> Suc left \<and> no_downgrade d1 \<and> (prev = Some True \<longrightarrow> list_all wu_secure d1)"
        using d1 ok by (auto simp: no_downgrade_def)
      show ?thesis
      proof (cases a)
        case (Redirect next_url)
        obtain more where m: "ws_connect_loop left env net headers (redir + 1) (Some (wu_secure u)) (Some next_url) = Some (r, more)"
          "dials = d1 @ more" using Suc.prems Inr ok a Redirect by auto
        from Suc.IH [OF m(1)] d1 ok show ?thesis
          by (auto simp: m(2) no_downgrade_def list_all_iff)
      qed (use Suc.prems Inr ok a one in auto)
    qed
  qed
qed

text \<open>
  C14. However the servers answer, connecting makes at most four connections, and once one of them
  was secure all later ones are: no redirect takes a \<open>wss\<close> handshake back to plain text.
\<close>

theorem ws_connect_no_downgrade:
  assumes "zcio_ws_connect env net url headers = Some (r, dials)"
  shows "length dials \<le> 4 \<and> (\<forall>i j. i < j \<and> j < length dials \<and> wu_secure (dials ! i) \<longrightarrow> wu_secure (dials ! j))"
proof -
  have "length dials \<le> 4 \<and> no_downgrade dials"
  proof (cases "ws_connect_loop 4 env net headers 0 None url = Some (r, dials)")
    case True
    from connect_loop_dials [OF this] show ?thesis by simp
  next
    case False
    then show ?thesis using assms by (auto simp: zcio_ws_connect_def no_downgrade_def split: if_splits)
  qed
  then show ?thesis by (auto simp: no_downgrade_def sorted_wrt_iff_nth_less)
qed

subsection \<open>The answer is verified\<close>

lemma established_session:
  assumes "ws_established env net u s acc n = Some (Connected ws)"
  shows "ws_reachable env ws \<and> \<not> ws_is_server ws \<and> ZHS_PTR (ws_in ws) = drop n (ZHS_PTR acc)"
proof -
  obtain w where w: "ws_new (wn_calloc net) env s False True (wu_secure u) = Some w"
    using assms by (auto simp: ws_established_def split: option.splits)
  have wf: "zb_wf (ws_in w)" "ZHS_PTR (ws_in w) = []" "\<not> ws_is_server w"
    using w by (auto simp: ws_new_def ws_apply_timeout_def split: if_splits)
  note re = ws_reachable.fresh [OF w]
  show ?thesis
  proof (cases "drop n (ZHS_PTR acc) = []")
    case True
    then show ?thesis using assms w re wf by (simp add: ws_established_def)
  next
    case False
    obtain a b where ab: "zhs_buf_append (we_alloc env) (ws_in w) (drop n (ZHS_PTR acc)) = (a, b)" by fastforce
    then have *: "a = ZCIO_OK" "ws = w\<lparr>ws_in := b\<rparr>"
      using assms w False by (auto simp: ws_established_def bind_eq_Some_conv split: if_splits)
    then show ?thesis using ws_reachable.seed [OF re] ab zb.push_law [OF wf(1) ab] wf by auto
  qed
qed

text \<open>An answer that proves the peer has seen the key: status 101, both tokens, the accept value.\<close>

definition ws_verified :: "bytes \<Rightarrow> bytes \<Rightarrow> bool" where
  "ws_verified head key \<longleftrightarrow> ws_parse_status head = Inr 101 \<and>
     (\<exists>alloc up cn. ws_find_header alloc head (asc ''upgrade'') = Some up \<and> ws_ci_has_token up (asc ''websocket'') \<and>
        ws_find_header alloc head (asc ''connection'') = Some cn \<and> ws_ci_has_token cn (asc ''upgrade'') \<and>
        ws_find_header alloc head (asc ''sec-websocket-accept'') = Some (base64 (sha1 (key @ WS_GUID))))"

lemma answer_verified:
  assumes "ws_answer env net redir u key s acc n = Some (Connected ws)" "\<And>k. we_alloc env k"
  shows "ws_verified (take n (ZHS_PTR acc)) key \<and> ws_reachable env ws \<and> \<not> ws_is_server ws \<and>
    ZHS_PTR (ws_in ws) = drop n (ZHS_PTR acc)"
proof -
  let ?h = "take n (ZHS_PTR acc)"
  have st: "ws_parse_status ?h = Inr 101" "ws_101_ok (we_alloc env) (wn_junk net) ?h key"
    "ws_established env net u s acc n = Some (Connected ws)"
    using assms(1) by (auto simp: ws_answer_def Let_def split: sum.splits if_splits option.splits)
  have "ws_compute_accept (we_alloc env) key = Inr (base64 (sha1 (key @ WS_GUID)))"
    using assms(2) by (simp add: ws_compute_accept_def)
  then have "ws_verified ?h key" using st(1,2)
    by (auto simp: ws_101_ok_def ws_verified_def split: option.splits)
  then show ?thesis using established_session [OF st(3)] by simp
qed

text \<open>What a completed connection rests on: the key of one of the four attempts and its answer.\<close>

definition ws_connected :: "'c ws_env \<Rightarrow> 'c ws_net \<Rightarrow> 'c zcio_ws \<Rightarrow> bool" where
  "ws_connected env net ws \<longleftrightarrow>
     (\<exists>i rnd acc n. wn_rand net i = Some rnd \<and> ws_verified (take n (ZHS_PTR acc)) (base64 rnd) \<and>
        ws_reachable env ws \<and> \<not> ws_is_server ws \<and> ZHS_PTR (ws_in ws) = drop n (ZHS_PTR acc))"

lemma dialled_connected:
  assumes "ws_dialled env net headers redir u s = Some (Connected ws)" "\<And>k. we_alloc env k"
  shows "ws_connected env net ws"
proof -
  obtain rnd where rnd: "wn_rand net redir = Some rnd" using assms(1) by (auto simp: ws_dialled_def split: option.splits)
  obtain s2 acc n where "ws_answer env net redir u (base64 rnd) s2 acc n = Some (Connected ws)"
    using assms(1) by (auto simp: ws_dialled_def rnd Let_def bind_eq_Some_conv split: if_splits)
  from answer_verified [OF this assms(2)] rnd show ?thesis unfolding ws_connected_def by blast
qed

lemma connect_loop_connected:
  assumes "\<And>k. we_alloc env k"
  shows "ws_connect_loop left env net headers redir prev cur = Some (Inr ws, dials) \<Longrightarrow> ws_connected env net ws"
proof (induction left arbitrary: redir prev cur dials)
  case (Suc left)
  obtain u where u: "ws_url_parse (we_alloc env) cur = Inr u" "\<not> (prev = Some True \<and> \<not> wu_secure u)"
    using Suc.prems by (auto split: sum.splits if_splits)
  obtain a d1 where a: "ws_attempt env net headers redir u = Some (a, d1)"
    using Suc.prems u by (auto simp: bind_eq_Some_conv)
  show ?case
  proof (cases a)
    case (Connected w)
    then have "ws = w" using Suc.prems u a by auto
    with a Connected have "\<exists>s. ws_dialled env net headers redir u s = Some (Connected ws)"
      by (auto simp: ws_attempt_def split: if_splits option.splits)
    then show ?thesis using dialled_connected assms by blast
  next
    case (Failed e)
    then show ?thesis using Suc.prems u a by auto
  next
    case (Redirect x)
    then show ?thesis using Suc.prems u a Suc.IH by auto
  qed
qed simp


subsection \<open>Concrete handshakes\<close>

text \<open>A transport that takes everything written to it and answers with a script.\<close>

definition SCRIPT_VT :: "bytes zcio_stream_vtable" where
  "SCRIPT_VT = \<lparr>vt_name = ''script'', vt_read = Some (\<lambda>c n. Some (int (min n (length c)), take n c, drop n c)),
     vt_write = Some (\<lambda>c p. Some (int (length p), c)), vt_seek = None, vt_flush = None,
     vt_close = None, vt_destroy = None, vt_available = None, vt_eof = None\<rparr>"

definition script_stream :: "bytes \<Rightarrow> bytes zcio_stream" where
  "script_stream resp = \<lparr>vt = SCRIPT_VT, ctx = resp, flags = 0\<rparr>"

definition script_env :: "bytes ws_env" where
  "script_env = \<lparr>we_alloc = (\<lambda>_. True), we_rand = (\<lambda>_ n. Some (replicate n 0x5A)), we_now = (\<lambda>n. n),
     we_timeout = (\<lambda>s _. s)\<rparr>"

lemma script_env_alloc [simp]: "we_alloc script_env k" "we_alloc script_env = (\<lambda>_. True)"
  by (simp_all add: script_env_def)

lemma script_write: "p \<noteq> [] \<Longrightarrow> zcio_write_full (Some (script_stream c)) (Some p) (length p) = Some (int (length p), Some (script_stream c))"
  by (simp add: zcio_write_full_def write_full_loop.simps zcio_write_def script_stream_def SCRIPT_VT_def mslice_def)

lemma app_all_total:
  "(\<And>n. alloc n) \<Longrightarrow> zb_wf b \<Longrightarrow> length (zb_data b) + length (concat ss) \<le> SIZE_MAX \<Longrightarrow>
   \<exists>b'. app_all alloc ss b = (ZCIO_OK, b') \<and> zb_data b' = zb_data b @ concat ss"
proof (induction ss arbitrary: b)
  case (Cons s ss)
  obtain b1 where b1: "zhs_buf_append alloc b s = (ZCIO_OK, b1)" "zb_data b1 = zb_data b @ s" "zb_wf b1"
    using append_total [of b alloc s] Cons.prems by auto
  from Cons.IH [OF Cons.prems(1) b1(3)] Cons.prems(3) b1 show ?case
    by (auto simp: and_then_def zhs_buf_append_str_def)
qed simp

text \<open>The handshake on such a transport comes down to the judgement of the scripted answer.\<close>

lemma script_dialled:
  assumes "wn_rand net redir = Some rnd" "resp \<noteq> []" "length resp \<le> 2048"
    "str_find (crlf @ crlf) resp = Some i" "length (concat (ws_request_strs u (base64 rnd) headers)) \<le> SIZE_MAX"
  obtains acc s where "ZHS_PTR acc = resp"
    "ws_dialled script_env net headers redir u (script_stream resp) = ws_answer script_env net redir u (base64 rnd) s acc (i + 4)"
proof -
  obtain req where req: "app_all (we_alloc script_env) (ws_request_strs u (base64 rnd) headers) zhs_buf_zero = (ZCIO_OK, req)"
    "zb_data req = concat (ws_request_strs u (base64 rnd) headers)"
    using app_all_total [of "we_alloc script_env" zhs_buf_zero] assms(5) by (auto simp: zhs_buf_zero_def zb_wf_def)
  have "zb_data req \<noteq> []" by (simp add: req(2) ws_request_strs_def)
  then have hs: "ws_send_handshake script_env (Some (script_stream resp)) u (base64 rnd) headers = Some (ZCIO_OK, Some (script_stream resp))"
    using req(1) script_write [of "zb_data req" resp] by (simp add: ws_send_handshake_def)
  obtain acc where acc: "zhs_buf_append (we_alloc script_env) zhs_buf_zero resp = (ZCIO_OK, acc)" "zb_data acc = resp" "zb_off acc = 0"
    using append_total [of zhs_buf_zero "we_alloc script_env" resp] assms(3) by (auto simp: zhs_buf_zero_def zb_wf_def SIZE_MAX_def)
  have view: "ZHS_PTR acc = resp" using acc by (simp add: ZHS_PTR_def)
  have rd: "zcio_read (Some (script_stream resp)) True 2048 = Some (int (length resp), resp, Some (script_stream []))"
    using assms(3) by (simp add: zcio_read_def script_stream_def SCRIPT_VT_def min_def)
  have "str_find (crlf @ crlf) (ZHS_PTR zhs_buf_zero) = None" by (simp add: crlf_def)
  then have "ws_read_head script_env (Some (script_stream resp)) zhs_buf_zero = ws_read_head script_env (Some (script_stream [])) acc"
    using rd acc(1) assms(2) by (subst ws_read_head.simps) simp
  also have "\<dots> = Some (zcode ZCIO_OK, i + 4, acc, Some (script_stream []))"
    using assms(4) by (subst ws_read_head.simps) (simp add: view)
  finally have "ws_dialled script_env net headers redir u (script_stream resp)
      = ws_answer script_env net redir u (base64 rnd) (Some (script_stream [])) acc (i + 4)"
    using hs assms(1) by (simp add: ws_dialled_def)
  with view show ?thesis using that by blast
qed

definition redirect_resp :: bytes where
  "redirect_resp = asc ''HTTP/1.1 302 Found'' @ crlf @ asc ''Location: wss://b/'' @ crlf @ crlf"

definition redirect_net :: "bytes ws_net" where
  "redirect_net = \<lparr>wn_dial = (\<lambda>n h p sec. if n = 0 then Some (script_stream redirect_resp) else None),
     wn_tls_ctx = (\<lambda>_. True), wn_rand = (\<lambda>_. Some (replicate 16 0x5A)), wn_calloc = True, wn_junk = []\<rparr>"

lemma redirect_facts:
  "ws_url_parse (\<lambda>_. True) (Some (asc ''ws://a/'')) = Inr \<lparr>wu_secure = False, wu_host = asc ''a'', wu_port = 80, wu_path = asc ''/''\<rparr>"
  "ws_url_parse (\<lambda>_. True) (Some (asc ''wss://b/'')) = Inr \<lparr>wu_secure = True, wu_host = asc ''b'', wu_port = 443, wu_path = asc ''/''\<rparr>"
  "str_find (crlf @ crlf) redirect_resp = Some 38" "length redirect_resp = 42"
  "ws_parse_status redirect_resp = Inr 302"
  "ws_find_header (\<lambda>_. True) redirect_resp (asc ''location'') = Some (asc ''wss://b/'')"
  by code_simp+

lemma redirect_run:
  "wn_rand redirect_net 0 = Some (replicate 16 0x5A)" "redirect_resp \<noteq> []" "length redirect_resp \<le> 2048"
  "str_find (crlf @ crlf) redirect_resp = Some 38"
  using redirect_facts by (auto simp: redirect_net_def)

theorem ws_connect_no_downgrade_witness:
  "\<exists>r dials. zcio_ws_connect script_env redirect_net (Some (asc ''ws://a/'')) [] = Some (r, dials) \<and>
     map wu_secure dials = [False, True] \<and> length dials \<le> 4"
proof -
  let ?u = "\<lparr>wu_secure = False, wu_host = asc ''a'', wu_port = 80, wu_path = asc ''/''\<rparr>"
  let ?v = "\<lparr>wu_secure = True, wu_host = asc ''b'', wu_port = 443, wu_path = asc ''/''\<rparr>"
  let ?rnd = "replicate 16 0x5A :: bytes"
  have "length (concat (ws_request_strs ?u (base64 ?rnd) [])) \<le> SIZE_MAX"
    by (simp add: ws_request_strs_def base64_length SIZE_MAX_def crlf_def)
  then obtain acc s where acc: "ZHS_PTR acc = redirect_resp"
    "ws_dialled script_env redirect_net [] 0 ?u (script_stream redirect_resp) = ws_answer script_env redirect_net 0 ?u (base64 ?rnd) s acc (38 + 4)"
    by (rule script_dialled [OF redirect_run])
  have "ws_answer script_env redirect_net 0 ?u (base64 ?rnd) s acc (38 + 4) = Some (Redirect (asc ''wss://b/''))"
    using redirect_facts by (simp add: ws_answer_def acc(1) ws_resolve_def)
  then have a0: "ws_attempt script_env redirect_net [] 0 ?u = Some (Redirect (asc ''wss://b/''), [?u])"
    using acc(2) by (simp add: ws_attempt_def redirect_net_def)
  have a1: "ws_attempt script_env redirect_net [] 1 ?v = Some (Failed (zcode ZCIO_ERR_CONNECT), [?v])"
    by (simp add: ws_attempt_def redirect_net_def)
  have four: "(4 :: nat) = Suc (Suc 2)" by simp
  have "ws_connect_loop 4 script_env redirect_net [] 0 None (Some (asc ''ws://a/'')) = Some (Inl (zcode ZCIO_ERR_CONNECT), [?u, ?v])"
    using a0 a1 unfolding four ws_connect_loop.simps by (simp del: asc_Cons add: redirect_facts)
  then have c: "zcio_ws_connect script_env redirect_net (Some (asc ''ws://a/'')) [] = Some (Inl (zcode ZCIO_ERR_CONNECT), [?u, ?v])"
    by (simp add: zcio_ws_connect_def)
  from ws_connect_no_downgrade [OF c] c show ?thesis by auto
qed

text \<open>An answer with the right accept value, for any key.\<close>

definition accept_lines :: bytes where
  "accept_lines = asc ''HTTP/1.1 101 OK'' @ crlf @ asc ''Upgrade: websocket'' @ crlf @ asc ''Connection: Upgrade'' @ crlf"

definition accept_resp :: "bytes \<Rightarrow> bytes" where
  "accept_resp a = accept_lines @ asc ''Sec-WebSocket-Accept: '' @ a @ crlf @ crlf"

lemma str_find_skip:
  "0x0D \<notin> set a \<Longrightarrow> str_find (0x0D # p) (a @ r) = map_option ((+) (length a)) (str_find (0x0D # p) r)"
  by (induction a; cases "str_find (0x0D # p) r") auto

lemma str_find_crlf:
  "c \<noteq> 0x0D \<Longrightarrow> str_find (crlf @ crlf) (crlf @ c # r) = map_option ((+) 2) (str_find (crlf @ crlf) (c # r))"
  by (cases "str_find (crlf @ crlf) (c # r)") (auto simp: crlf_def)

lemma find_header_line:
  assumes "0x0A \<notin> set line"
  shows "ws_find_header (\<lambda>_. True) (line @ 0x0A # r) name =
    (let k = takeWhile (\<lambda>c. c \<noteq> 0x3A) line in
     if length k < length line \<and> map tolower k = map tolower name then Some (ws_line_value (drop (length k + 1) line))
     else ws_find_header (\<lambda>_. True) r name)"
proof -
  define k where "k = takeWhile (\<lambda>c. c \<noteq> 0x3A) line"
  have tw: "takeWhile (\<lambda>c. c \<noteq> 0x0A) (line @ 0x0A # r) = line" using assms by (induction line) auto
  have len: "map tolower k = map tolower name \<Longrightarrow> length k = length name"
    by (drule arg_cong [of _ _ length]) simp
  have u: "ws_find_header (\<lambda>_. True) (line @ 0x0A # r) name =
     (if length k < length line \<and> length k = length name \<and> map tolower k = map tolower name
      then Some (ws_line_value (drop (length k + 1) line)) else ws_find_header (\<lambda>_. True) r name)"
    unfolding ws_find_header.simps [of _ "line @ 0x0A # r"] Let_def tw k_def [symmetric] by simp
  show ?thesis unfolding u Let_def k_def [symmetric] using len by (cases "map tolower k = map tolower name") simp_all
qed

text \<open>The lines of the answer, and the texts before their first colon.\<close>

lemma accept_line_facts:
  "0x0A \<notin> set (asc ''HTTP/1.1 101 OK'' @ [0x0D])" "takeWhile (\<lambda>c. c \<noteq> 0x3A) (asc ''HTTP/1.1 101 OK'' @ [0x0D]) = asc ''HTTP/1.1 101 OK'' @ [0x0D]"
  "0x0A \<notin> set (asc ''Upgrade: websocket'' @ [0x0D])" "takeWhile (\<lambda>c. c \<noteq> 0x3A) (asc ''Upgrade: websocket'' @ [0x0D]) = asc ''Upgrade''"
  "0x0A \<notin> set (asc ''Connection: Upgrade'' @ [0x0D])" "takeWhile (\<lambda>c. c \<noteq> 0x3A) (asc ''Connection: Upgrade'' @ [0x0D]) = asc ''Connection''"
  by simp_all

lemma b64_set_facts:
  "x \<in> {0x0D, 0x0A, 0x3A, 0, 0x20, 0x09} \<Longrightarrow> x \<notin> insert 0x3D (set B64)"
  by (auto simp: B64_def)

lemma accept_resp_split:
  "accept_resp a = (asc ''HTTP/1.1 101 OK'' @ [0x0D]) @ 0x0A # (asc ''Upgrade: websocket'' @ [0x0D]) @ 0x0A #
     (asc ''Connection: Upgrade'' @ [0x0D]) @ 0x0A # (asc ''Sec-WebSocket-Accept: '' @ a @ [0x0D]) @ 0x0A # crlf"
  by (simp add: accept_resp_def accept_lines_def crlf_def)

lemma accept_head_end:
  assumes "0x0D \<notin> set a" "length a = 28"
  shows "str_find (crlf @ crlf) (accept_resp a) = Some 108"
proof -
  let ?p = "crlf @ crlf"
  have p: "?p = 0x0D # [0x0A, 0x0D, 0x0A]" by (simp add: crlf_def)
  have l4: "str_find ?p (asc ''Sec-WebSocket-Accept: '' @ a @ ?p) = Some 50"
    using str_find_skip [of "asc ''Sec-WebSocket-Accept: '' @ a" "[0x0A, 0x0D, 0x0A]" ?p] assms unfolding p by simp
  have step: "str_find ?p (l @ crlf @ c # r) = map_option ((+) (length l + 2)) (str_find ?p (c # r))"
    if "0x0D \<notin> set l" "c \<noteq> 0x0D" for l c r
  proof -
    have "str_find ?p (l @ crlf @ c # r) = map_option ((+) (length l)) (str_find ?p (crlf @ c # r))"
      unfolding p by (rule str_find_skip) (rule that)
    also have "\<dots> = map_option ((+) (length l)) (map_option ((+) 2) (str_find ?p (c # r)))"
      using str_find_crlf [OF that(2)] by simp
    finally show ?thesis by (cases "str_find ?p (c # r)") simp_all
  qed
  have l3: "str_find ?p (asc ''Connection: Upgrade'' @ crlf @ asc ''Sec-WebSocket-Accept: '' @ a @ ?p) = Some 71"
    using step [where l = "asc ''Connection: Upgrade''" and c = "0x53" and r = "asc ''ec-WebSocket-Accept: '' @ a @ ?p"] l4 by simp
  have l2: "str_find ?p (asc ''Upgrade: websocket'' @ crlf @ asc ''Connection: Upgrade'' @ crlf @ asc ''Sec-WebSocket-Accept: '' @ a @ ?p) = Some 91"
    using step [where l = "asc ''Upgrade: websocket''" and c = "0x43" and r = "asc ''onnection: Upgrade'' @ crlf @ asc ''Sec-WebSocket-Accept: '' @ a @ ?p"] l3 by simp
  show ?thesis
    using step [where l = "asc ''HTTP/1.1 101 OK''" and c = "0x55" and r = "asc ''pgrade: websocket'' @ crlf @ asc ''Connection: Upgrade'' @ crlf @ asc ''Sec-WebSocket-Accept: '' @ a @ ?p"] l2
    by (simp add: accept_resp_def accept_lines_def)
qed

lemma accept_headers:
  assumes "set a \<subseteq> insert 0x3D (set B64)" "a \<noteq> []"
  shows "ws_find_header (\<lambda>_. True) (accept_resp a) (asc ''upgrade'') = Some (asc ''websocket'')"
    "ws_find_header (\<lambda>_. True) (accept_resp a) (asc ''connection'') = Some (asc ''Upgrade'')"
    "ws_find_header (\<lambda>_. True) (accept_resp a) (asc ''sec-websocket-accept'') = Some a"
proof -
  have lower: "map tolower (asc ''Upgrade'') = asc ''upgrade''" "map tolower (asc ''upgrade'') = asc ''upgrade''"
    "map tolower (asc ''Connection'') = asc ''connection''" "map tolower (asc ''connection'') = asc ''connection''"
    "map tolower (asc ''Sec-WebSocket-Accept'') = asc ''sec-websocket-accept''"
    "map tolower (asc ''sec-websocket-accept'') = asc ''sec-websocket-accept''"
    by (simp_all add: tolower_def)
  have neq: "asc ''upgrade'' \<noteq> asc ''connection''" "asc ''upgrade'' \<noteq> asc ''sec-websocket-accept''"
    "asc ''connection'' \<noteq> asc ''sec-websocket-accept''" by simp_all
  have no: "x \<notin> set a" if "x \<in> {0x0D, 0x0A, 0x3A, 0, 0x20, 0x09}" for x using b64_set_facts [OF that] assms(1) by auto
  have l4: "0x0A \<notin> set (asc ''Sec-WebSocket-Accept: '' @ a @ [0x0D])"
    "takeWhile (\<lambda>c. c \<noteq> 0x3A) (asc ''Sec-WebSocket-Accept: '' @ a @ [0x0D]) = asc ''Sec-WebSocket-Accept''"
    using no by simp_all
  have v: "ws_line_value (0x20 # a @ [0x0D]) = a"
  proof -
    have "dropWhile is_ows (0x20 # a @ [0x0D]) = a @ [0x0D]"
      using assms(2) no by (cases a) (auto simp: is_ows_def)
    moreover have "dropWhile (\<lambda>c. c = 0x0D \<or> is_ows c) (rev (a @ [0x0D])) = rev a"
      using no assms(2) by (cases "rev a") (auto simp: is_ows_def)
    moreover have "takeWhile (\<lambda>c. c \<noteq> 0) a = a" using no by (auto simp: takeWhile_eq_all_conv)
    ultimately show ?thesis by (simp add: ws_line_value_def)
  qed
  have vals: "ws_line_value (asc '' websocket'' @ [0x0D]) = asc ''websocket''" "ws_line_value (asc '' Upgrade'' @ [0x0D]) = asc ''Upgrade''"
    by (simp_all add: ws_line_value_def is_ows_def)
  note line = find_header_line [OF accept_line_facts(1)] find_header_line [OF accept_line_facts(3)]
    find_header_line [OF accept_line_facts(5)] find_header_line [OF l4(1)]
  note eval = accept_resp_split line accept_line_facts(2,4,6) l4(2) Let_def lower
  show "ws_find_header (\<lambda>_. True) (accept_resp a) (asc ''upgrade'') = Some (asc ''websocket'')"
    unfolding eval using vals by simp
  show "ws_find_header (\<lambda>_. True) (accept_resp a) (asc ''connection'') = Some (asc ''Upgrade'')"
    unfolding eval using vals by simp
  show "ws_find_header (\<lambda>_. True) (accept_resp a) (asc ''sec-websocket-accept'') = Some a"
    unfolding eval using v by simp
qed

lemma accept_status: "ws_parse_status (accept_resp a) = Inr 101"
proof -
  have tw: "takeWhile (\<lambda>c. c \<noteq> 0x0A) (accept_resp a) = asc ''HTTP/1.1 101 OK'' @ [0x0D]"
    by (simp add: accept_resp_def accept_lines_def crlf_def)
  have ds: "dec_value [0x31, 0x30, 0x31] = 101" by code_simp
  show ?thesis unfolding ws_parse_status_def tw by (simp add: h1_is_digit_def Let_def ds)
qed

definition accept_net :: "bytes ws_net" where
  "accept_net = \<lparr>wn_dial = (\<lambda>n h p sec. Some (script_stream (accept_resp (base64 (sha1 (base64 (replicate 16 0x5A) @ WS_GUID)))))),
     wn_tls_ctx = (\<lambda>_. True), wn_rand = (\<lambda>_. Some (replicate 16 0x5A)), wn_calloc = True, wn_junk = []\<rparr>"


text \<open>
  The path of the URL goes into the request line as it is: a line break in it starts header lines
  of the attacker's choice.
\<close>

definition injecting_url :: bytes where
  "injecting_url = asc ''ws://a/ HTTP/1.1'' @ crlf @ asc ''X: y''"

lemma ws_url_path_injects:
  "\<exists>u. ws_url_parse (\<lambda>_. True) (Some injecting_url) = Inr u \<and>
     (\<exists>rest. concat (ws_request_strs u key []) = asc ''GET / HTTP/1.1'' @ crlf @ asc ''X: y HTTP/1.1'' @ crlf @ rest)"
proof -
  have "ws_url_parse (\<lambda>_. True) (Some injecting_url) =
      Inr \<lparr>wu_secure = False, wu_host = asc ''a'', wu_port = 80, wu_path = asc ''/ HTTP/1.1'' @ crlf @ asc ''X: y''\<rparr>"
    by code_simp
  then show ?thesis by (auto simp: ws_request_strs_def crlf_def)
qed

end
