(* ===== verification/Zc_H2.thy ===== *)
theory Zc_H2
  imports Zc_H1
begin

unbundle bit_operations_syntax

text \<open>
  The HTTP/2 engine of \<open>src/src/h2.c\<close>: frames in and out, the stream table, header-block reassembly
  and the header sink, flow control in both directions, the flood guards, dispatch and the pump
  that moves response bodies to the output buffer. The surroundings (allocator, clock, server
  settings, handler) are those of the HTTP/1.1 engine, the record \<open>h1_env\<close>; the handler's calls
  are indexed by the stream id.
\<close>

section \<open>The HTTP/2 engine\<close>

subsection \<open>Wire constants\<close>

definition ZH2_PREFACE :: bytes where
  "ZH2_PREFACE = asc ''PRI * HTTP/2.0'' @ crlf @ crlf @ asc ''SM'' @ crlf @ crlf"

abbreviation (input) ZH2_FT_DATA :: byte where "ZH2_FT_DATA \<equiv> 0x0"
abbreviation (input) ZH2_FT_HEADERS :: byte where "ZH2_FT_HEADERS \<equiv> 0x1"
abbreviation (input) ZH2_FT_PRIORITY :: byte where "ZH2_FT_PRIORITY \<equiv> 0x2"
abbreviation (input) ZH2_FT_RST_STREAM :: byte where "ZH2_FT_RST_STREAM \<equiv> 0x3"
abbreviation (input) ZH2_FT_SETTINGS :: byte where "ZH2_FT_SETTINGS \<equiv> 0x4"
abbreviation (input) ZH2_FT_PUSH_PROMISE :: byte where "ZH2_FT_PUSH_PROMISE \<equiv> 0x5"
abbreviation (input) ZH2_FT_PING :: byte where "ZH2_FT_PING \<equiv> 0x6"
abbreviation (input) ZH2_FT_GOAWAY :: byte where "ZH2_FT_GOAWAY \<equiv> 0x7"
abbreviation (input) ZH2_FT_WINDOW_UPDATE :: byte where "ZH2_FT_WINDOW_UPDATE \<equiv> 0x8"
abbreviation (input) ZH2_FT_CONTINUATION :: byte where "ZH2_FT_CONTINUATION \<equiv> 0x9"

abbreviation (input) ZH2_FL_END_STREAM :: byte where "ZH2_FL_END_STREAM \<equiv> 0x01"
abbreviation (input) ZH2_FL_ACK :: byte where "ZH2_FL_ACK \<equiv> 0x01"
abbreviation (input) ZH2_FL_END_HEADERS :: byte where "ZH2_FL_END_HEADERS \<equiv> 0x04"
abbreviation (input) ZH2_FL_PADDED :: byte where "ZH2_FL_PADDED \<equiv> 0x08"
abbreviation (input) ZH2_FL_PRIORITY :: byte where "ZH2_FL_PRIORITY \<equiv> 0x20"

abbreviation (input) ZH2_E_NO_ERROR :: u32 where "ZH2_E_NO_ERROR \<equiv> 0x0"
abbreviation (input) ZH2_E_PROTOCOL_ERROR :: u32 where "ZH2_E_PROTOCOL_ERROR \<equiv> 0x1"
abbreviation (input) ZH2_E_FLOW_CONTROL_ERROR :: u32 where "ZH2_E_FLOW_CONTROL_ERROR \<equiv> 0x3"
abbreviation (input) ZH2_E_STREAM_CLOSED :: u32 where "ZH2_E_STREAM_CLOSED \<equiv> 0x5"
abbreviation (input) ZH2_E_FRAME_SIZE_ERROR :: u32 where "ZH2_E_FRAME_SIZE_ERROR \<equiv> 0x6"
abbreviation (input) ZH2_E_REFUSED_STREAM :: u32 where "ZH2_E_REFUSED_STREAM \<equiv> 0x7"
abbreviation (input) ZH2_E_COMPRESSION_ERROR :: u32 where "ZH2_E_COMPRESSION_ERROR \<equiv> 0x9"
abbreviation (input) ZH2_E_ENHANCE_YOUR_CALM :: u32 where "ZH2_E_ENHANCE_YOUR_CALM \<equiv> 0xb"

abbreviation (input) ZH2_S_HEADER_TABLE_SIZE :: u16 where "ZH2_S_HEADER_TABLE_SIZE \<equiv> 0x1"
abbreviation (input) ZH2_S_ENABLE_PUSH :: u16 where "ZH2_S_ENABLE_PUSH \<equiv> 0x2"
abbreviation (input) ZH2_S_MAX_CONCURRENT_STREAMS :: u16 where "ZH2_S_MAX_CONCURRENT_STREAMS \<equiv> 0x3"
abbreviation (input) ZH2_S_INITIAL_WINDOW_SIZE :: u16 where "ZH2_S_INITIAL_WINDOW_SIZE \<equiv> 0x4"
abbreviation (input) ZH2_S_MAX_FRAME_SIZE :: u16 where "ZH2_S_MAX_FRAME_SIZE \<equiv> 0x5"
abbreviation (input) ZH2_S_MAX_HEADER_LIST_SIZE :: u16 where "ZH2_S_MAX_HEADER_LIST_SIZE \<equiv> 0x6"

text \<open>\<open>ZH2_WINDOW\<close> stands for the four names of 65535, \<open>ZH2_FRAME_MAX\<close> for both names of 16384.\<close>

abbreviation (input) ZH2_WINDOW :: int where "ZH2_WINDOW \<equiv> 65535"
abbreviation (input) ZH2_FRAME_MAX :: nat where "ZH2_FRAME_MAX \<equiv> 16384"
abbreviation (input) ZH2_MAX_WINDOW :: int where "ZH2_MAX_WINDOW \<equiv> 0x7fffffff"
abbreviation (input) ZH2_CONT_MAX :: nat where "ZH2_CONT_MAX \<equiv> 64"
abbreviation (input) ZH2_PING_PER_FEED :: nat where "ZH2_PING_PER_FEED \<equiv> 128"
abbreviation (input) ZH2_SETTINGS_PER_FEED :: nat where "ZH2_SETTINGS_PER_FEED \<equiv> 64"

subsection \<open>State\<close>

text \<open>
  A stream is allocated on the heap and named by its table entry, the request it owns and the
  reassembly state. The ids of the table are pairwise distinct (\<open>h2_wf\<close> below), so a pointer to a
  stream is its id, and a write through the pointer is a write to the entry with that id. The
  windows are \<open>int64_t\<close>; \<open>h2_wf\<close> bounds them far inside that range.
\<close>

record zh2_stream =
  s2_id :: u32
  s2_recv_window :: int
  s2_got_headers :: bool
  s2_end_stream_recv :: bool
  s2_dispatched :: bool
  s2_send_window :: int
  s2_responded :: bool
  s2_resp_headers_done :: bool
  s2_resp_end_after_body :: bool
  s2_send_done :: bool
  s2_resp_body :: zhs_buf
  s2_body_off :: nat
  s2_req :: zcio_http_req

record zh2_conn =
  h2_lim :: zhs_limits
  h2_secure :: bool
  h2_out :: zhs_buf
  h2_dec :: zhp_dec
  h2_preface_got :: nat
  h2_preface_done :: bool
  h2_need_settings :: bool
  h2_closing :: bool
  h2_goaway_sent :: bool
  h2_peer_goaway :: bool
  h2_got_error :: bool
  h2_oom :: bool
  h2_recv_window :: int
  h2_send_window :: int
  h2_peer_initial_window :: u32
  h2_peer_max_frame :: u32
  h2_streams :: "zh2_stream list"
  h2_streams_cap :: nat
  h2_last_client_id :: u32
  h2_open_count :: u32
  h2_total_streams :: u32
  h2_rapid_reset :: u32
  h2_hdr_active :: bool
  h2_hdr_id :: u32
  h2_hdr_stream :: "u32 option"
  h2_hdr_refuse :: u32
  h2_hdr_trailer :: bool
  h2_hdr_end_stream :: bool
  h2_hdr_block :: zhs_buf
  h2_cont_count :: u32

datatype zh2_herr = HERR_OK | HERR_MALFORMED | HERR_NOMEM

record zh2_hdrctx =
  hx_trailer :: bool
  hx_seen_regular :: bool
  hx_herr :: zh2_herr
  hx_method :: "bytes option"
  hx_scheme :: "bytes option"
  hx_path :: "bytes option"
  hx_authority :: "bytes option"
  hx_headers :: zhs_hdrs

definition hdrctx_zero :: "bool \<Rightarrow> zh2_hdrctx" where
  "hdrctx_zero trailer = \<lparr>hx_trailer = trailer, hx_seen_regular = False, hx_herr = HERR_OK,
     hx_method = None, hx_scheme = None, hx_path = None, hx_authority = None, hx_headers = zhs_hdrs_zero\<rparr>"

subsection \<open>Byte helpers\<close>

definition rd24 :: "bytes \<Rightarrow> u32" where
  "rd24 p = push_bit 16 (ucast (p ! 0)) OR push_bit 8 (ucast (p ! 1)) OR ucast (p ! 2)"

definition rd32 :: "bytes \<Rightarrow> u32" where
  "rd32 p = push_bit 24 (ucast (p ! 0)) OR push_bit 16 (ucast (p ! 1)) OR push_bit 8 (ucast (p ! 2)) OR ucast (p ! 3)"

definition rd16 :: "bytes \<Rightarrow> u16" where
  "rd16 p = push_bit 8 (ucast (p ! 0)) OR ucast (p ! 1)"

definition wr32 :: "u32 \<Rightarrow> bytes" where
  "wr32 v = [ucast (drop_bit 24 v), ucast (drop_bit 16 v), ucast (drop_bit 8 v), ucast v]"

definition wr16 :: "u16 \<Rightarrow> bytes" where
  "wr16 v = [ucast (drop_bit 8 v), ucast v]"

subsection \<open>Frame emission\<close>

definition frame_hdr :: "u32 \<Rightarrow> byte \<Rightarrow> byte \<Rightarrow> u32 \<Rightarrow> bytes" where
  "frame_hdr len ty fl sid =
     [ucast (drop_bit 16 len), ucast (drop_bit 8 len), ucast len, ty, fl,
      ucast (drop_bit 24 sid), ucast (drop_bit 16 sid), ucast (drop_bit 8 sid), ucast sid]"

text \<open>\<open>payload\<close> is the memory from the pointer on; \<open>None\<close> is NULL.\<close>

definition h2_frame ::
  "h1_env \<Rightarrow> zh2_conn \<Rightarrow> u32 \<Rightarrow> byte \<Rightarrow> byte \<Rightarrow> u32 \<Rightarrow> bytes option \<Rightarrow> zcio_result \<times> zh2_conn" where
  "h2_frame env c len ty fl sid payload =
     (case and_then (zhs_buf_append (he_alloc env) (h2_out c) (frame_hdr len ty fl sid))
             (\<lambda>o1. case payload of
                     None \<Rightarrow> (ZCIO_OK, o1)
                   | Some p \<Rightarrow> if len \<noteq> 0 then zhs_buf_append (he_alloc env) o1 (take (unat len) p) else (ZCIO_OK, o1)) of
        (r, o1) \<Rightarrow> (r, c\<lparr>h2_out := o1\<rparr>))"

text \<open>The idiom \<open>if (h2_frame(...) != ZCIO_OK) c->oom = true;\<close>\<close>

definition h2_queue :: "h1_env \<Rightarrow> zh2_conn \<Rightarrow> u32 \<Rightarrow> byte \<Rightarrow> byte \<Rightarrow> u32 \<Rightarrow> bytes option \<Rightarrow> zh2_conn" where
  "h2_queue env c len ty fl sid payload =
     (case h2_frame env c len ty fl sid payload of
        (r, c1) \<Rightarrow> if r \<noteq> ZCIO_OK then c1\<lparr>h2_oom := True\<rparr> else c1)"

definition q_rst :: "h1_env \<Rightarrow> zh2_conn \<Rightarrow> u32 \<Rightarrow> u32 \<Rightarrow> zh2_conn" where
  "q_rst env c sid code = h2_queue env c 4 ZH2_FT_RST_STREAM 0 sid (Some (wr32 code))"

definition q_window_update :: "h1_env \<Rightarrow> zh2_conn \<Rightarrow> u32 \<Rightarrow> u32 \<Rightarrow> zh2_conn" where
  "q_window_update env c sid incr =
     (if incr = 0 then c else h2_queue env c 4 ZH2_FT_WINDOW_UPDATE 0 sid (Some (wr32 incr)))"

definition q_settings_ack :: "h1_env \<Rightarrow> zh2_conn \<Rightarrow> zh2_conn" where
  "q_settings_ack env c = h2_queue env c 0 ZH2_FT_SETTINGS ZH2_FL_ACK 0 None"

definition q_ping_ack :: "h1_env \<Rightarrow> zh2_conn \<Rightarrow> bytes \<Rightarrow> zh2_conn" where
  "q_ping_ack env c data = h2_queue env c 8 ZH2_FT_PING ZH2_FL_ACK 0 (Some data)"

definition q_goaway :: "h1_env \<Rightarrow> zh2_conn \<Rightarrow> u32 \<Rightarrow> zh2_conn" where
  "q_goaway env c code =
     (if h2_goaway_sent c then c
      else (h2_queue env c 8 ZH2_FT_GOAWAY 0 0 (Some (wr32 (h2_last_client_id c) @ wr32 code)))\<lparr>h2_goaway_sent := True\<rparr>)"

definition conn_error :: "h1_env \<Rightarrow> zh2_conn \<Rightarrow> u32 \<Rightarrow> zh2_conn" where
  "conn_error env c code = (q_goaway env c code)\<lparr>h2_got_error := True, h2_closing := True\<rparr>"

subsection \<open>The stream table\<close>

fun index_of :: "u32 \<Rightarrow> zh2_stream list \<Rightarrow> nat option" where
  "index_of sid [] = None"
| "index_of sid (s # ss) = (if s2_id s = sid then Some 0 else map_option Suc (index_of sid ss))"

definition find_index :: "zh2_conn \<Rightarrow> u32 \<Rightarrow> nat option" where
  "find_index c sid = index_of sid (h2_streams c)"

definition find_stream :: "zh2_conn \<Rightarrow> u32 \<Rightarrow> zh2_stream option" where
  "find_stream c sid = map_option (\<lambda>i. h2_streams c ! i) (find_index c sid)"

text \<open>A write through the pointer to stream \<open>sid\<close>.\<close>

definition upd_stream :: "zh2_conn \<Rightarrow> u32 \<Rightarrow> (zh2_stream \<Rightarrow> zh2_stream) \<Rightarrow> zh2_conn" where
  "upd_stream c sid f = c\<lparr>h2_streams := map (\<lambda>s. if s2_id s = sid then f s else s) (h2_streams c)\<rparr>"

text \<open>\<open>sizeof(zh2_stream)\<close> and \<open>sizeof(zh2_stream *)\<close> on LP64.\<close>

definition stream_size :: nat where "stream_size = 232"
definition pointer_size :: nat where "pointer_size = 8"

definition stream_zero :: "u32 \<Rightarrow> u32 \<Rightarrow> zh2_stream" where
  "stream_zero sid peer_initial =
     \<lparr>s2_id = sid, s2_recv_window = ZH2_WINDOW, s2_got_headers = False, s2_end_stream_recv = False,
      s2_dispatched = False, s2_send_window = uint peer_initial, s2_responded = False,
      s2_resp_headers_done = False, s2_resp_end_after_body = False, s2_send_done = False,
      s2_resp_body = zhs_buf_zero, s2_body_off = 0, s2_req = zhs_req_zero\<rparr>"

text \<open>The connection and whether the stream was created.\<close>

definition h2_stream_new :: "h1_env \<Rightarrow> zh2_conn \<Rightarrow> u32 \<Rightarrow> bool \<times> zh2_conn" where
  "h2_stream_new env c sid =
     (let ncap = (if h2_streams_cap c \<noteq> 0 then h2_streams_cap c * 2 else 8);
          full = (length (h2_streams c) = h2_streams_cap c)
      in if full \<and> \<not> he_alloc env (ncap * pointer_size) then (False, c)
         else
           (let c1 = (if full then c\<lparr>h2_streams_cap := ncap\<rparr> else c) in
            if \<not> he_alloc env stream_size then (False, c1)
            else (True, c1\<lparr>h2_streams := h2_streams c1 @ [stream_zero sid (h2_peer_initial_window c1)],
                           h2_open_count := h2_open_count c1 + 1\<rparr>)))"

text \<open>The last entry moves into the freed slot.\<close>

definition stream_close :: "zh2_conn \<Rightarrow> nat \<Rightarrow> zh2_conn" where
  "stream_close c idx =
     c\<lparr>h2_streams := butlast ((h2_streams c)[idx := last (h2_streams c)]),
       h2_open_count := (if h2_open_count c \<noteq> 0 then h2_open_count c - 1 else 0)\<rparr>"

definition close_found :: "zh2_conn \<Rightarrow> u32 \<Rightarrow> zh2_conn" where
  "close_found c sid = (case find_index c sid of None \<Rightarrow> c | Some idx \<Rightarrow> stream_close c idx)"

definition rst_stream :: "h1_env \<Rightarrow> zh2_conn \<Rightarrow> u32 \<Rightarrow> u32 \<Rightarrow> zh2_conn" where
  "rst_stream env c sid code = close_found (q_rst env c sid code) sid"

subsection \<open>Receive-side flow control\<close>

definition recv_consume_conn :: "h1_env \<Rightarrow> zh2_conn \<Rightarrow> nat \<Rightarrow> zh2_conn" where
  "recv_consume_conn env c len =
     (let w = h2_recv_window c - int len in
      if w \<le> ZH2_WINDOW - int ZH2_FRAME_MAX
      then (q_window_update env c 0 (word_of_int (ZH2_WINDOW - w)))\<lparr>h2_recv_window := ZH2_WINDOW\<rparr>
      else c\<lparr>h2_recv_window := w\<rparr>)"

definition recv_consume_stream :: "h1_env \<Rightarrow> zh2_conn \<Rightarrow> u32 \<Rightarrow> nat \<Rightarrow> zh2_conn" where
  "recv_consume_stream env c sid len =
     (case find_stream c sid of
        None \<Rightarrow> c
      | Some s \<Rightarrow>
          (let w = s2_recv_window s - int len in
           if w \<le> ZH2_WINDOW - int ZH2_FRAME_MAX
           then upd_stream (q_window_update env c sid (word_of_int (ZH2_WINDOW - w))) sid
                  (\<lambda>s. s\<lparr>s2_recv_window := ZH2_WINDOW\<rparr>)
           else upd_stream c sid (\<lambda>s. s\<lparr>s2_recv_window := w\<rparr>)))"

text \<open>\<open>st\<close> is the stream, or \<open>None\<close> for NULL.\<close>

definition recv_consume :: "h1_env \<Rightarrow> zh2_conn \<Rightarrow> u32 option \<Rightarrow> nat \<Rightarrow> bool \<Rightarrow> zh2_conn" where
  "recv_consume env c st len stream_open =
     (let c1 = recv_consume_conn env c len in
      case st of
        None \<Rightarrow> c1
      | Some sid \<Rightarrow> if stream_open then recv_consume_stream env c1 sid len else c1)"

subsection \<open>The header sink\<close>

text \<open>A C string ends at its first NUL; decoded fields are copied with their length and read as strings.\<close>

definition cstr :: "bytes \<Rightarrow> bytes" where
  "cstr s = takeWhile (\<lambda>b. b \<noteq> 0) s"

definition nm_eq :: "bytes \<Rightarrow> string \<Rightarrow> bool" where
  "nm_eq s lit \<longleftrightarrow> s = asc lit"

definition is_conn_specific :: "bytes \<Rightarrow> bool" where
  "is_conn_specific n \<longleftrightarrow> nm_eq n ''connection'' \<or> nm_eq n ''keep-alive'' \<or> nm_eq n ''proxy-connection'' \<or>
     nm_eq n ''transfer-encoding'' \<or> nm_eq n ''upgrade''"

definition hx_malformed :: "zh2_hdrctx \<Rightarrow> int \<times> zh2_hdrctx" where
  "hx_malformed x = (-1, x\<lparr>hx_herr := HERR_MALFORMED\<rparr>)"

text \<open>One pseudo-header slot: a duplicate is malformed.\<close>

definition hx_slot ::
  "allocator \<Rightarrow> zh2_hdrctx \<Rightarrow> bytes option \<Rightarrow> bytes \<Rightarrow> (bytes option \<Rightarrow> zh2_hdrctx) \<Rightarrow> int \<times> zh2_hdrctx" where
  "hx_slot alloc x slot value set_slot =
     (if slot \<noteq> None then hx_malformed x
      else if \<not> alloc (length value + 1) then (-1, x\<lparr>hx_herr := HERR_NOMEM\<rparr>)
      else (0, set_slot (Some value)))"

definition h2_emit :: "allocator \<Rightarrow> zhs_limits \<Rightarrow> zh2_hdrctx \<Rightarrow> bytes \<Rightarrow> bytes \<Rightarrow> int \<times> zh2_hdrctx" where
  "h2_emit alloc lim x name value =
     (if name \<noteq> [] \<and> hd name = 0x3A then
        (if hx_trailer x \<or> hx_seen_regular x then hx_malformed x
         else if nm_eq name '':method'' then hx_slot alloc x (hx_method x) value (\<lambda>v. x\<lparr>hx_method := v\<rparr>)
         else if nm_eq name '':scheme'' then hx_slot alloc x (hx_scheme x) value (\<lambda>v. x\<lparr>hx_scheme := v\<rparr>)
         else if nm_eq name '':path'' then hx_slot alloc x (hx_path x) value (\<lambda>v. x\<lparr>hx_path := v\<rparr>)
         else if nm_eq name '':authority'' then hx_slot alloc x (hx_authority x) value (\<lambda>v. x\<lparr>hx_authority := v\<rparr>)
         else hx_malformed x)
      else
        (let x1 = x\<lparr>hx_seen_regular := True\<rparr> in
         if \<not> zhs_lower_token_ok (Some name) then hx_malformed x1
         else if is_conn_specific name then hx_malformed x1
         else if nm_eq name ''te'' \<and> value \<noteq> asc ''trailers'' then hx_malformed x1
         else if hx_trailer x1 then (0, x1)
         else
           (case zhs_hdrs_add alloc (hx_headers x1) name value lim False of
              (r, h) \<Rightarrow>
                (let x2 = x1\<lparr>hx_headers := h\<rparr> in
                 if r = ZCIO_ERR_NOMEM then (-1, x2\<lparr>hx_herr := HERR_NOMEM\<rparr>)
                 else if r \<noteq> ZCIO_OK then hx_malformed x2
                 else (0, x2)))))"

subsection \<open>Response encoding\<close>

definition h2_encode_header :: "allocator \<Rightarrow> zhs_buf \<Rightarrow> bytes \<Rightarrow> bytes \<Rightarrow> zcio_result \<times> zhs_buf" where
  "h2_encode_header alloc fb name value =
     (if length name \<ge> 64 \<and> \<not> alloc (length name + 1) then (ZCIO_ERR_NOMEM, fb)
      else zhp_encode alloc fb (Some (map tolower name)) (Some value))"

fun h2_encode_headers :: "allocator \<Rightarrow> (bytes \<times> bytes) list \<Rightarrow> zhs_buf \<Rightarrow> zcio_result \<times> zhs_buf" where
  "h2_encode_headers alloc [] fb = (ZCIO_OK, fb)"
| "h2_encode_headers alloc ((k, v) # hs) fb =
     and_then (h2_encode_header alloc fb k v) (h2_encode_headers alloc hs)"

definition h2_maxf :: "zh2_conn \<Rightarrow> nat" where
  "h2_maxf c = (if h2_peer_max_frame c \<noteq> 0 then unat (h2_peer_max_frame c) else ZH2_FRAME_MAX)"

lemma h2_maxf_pos [simp]: "0 < h2_maxf c"
  by (simp add: h2_maxf_def unat_gt_0)

text \<open>HEADERS and CONTINUATION frames of the block that is left.\<close>

function h2_header_frames ::
  "h1_env \<Rightarrow> zh2_conn \<Rightarrow> u32 \<Rightarrow> bool \<Rightarrow> bool \<Rightarrow> bytes \<Rightarrow> zcio_result \<times> zh2_conn" where
  "h2_header_frames env c sid has_body first block =
     (let chunk = min (length block) (h2_maxf c);
          last = (chunk = length block);
          ty = (if first then ZH2_FT_HEADERS else ZH2_FT_CONTINUATION);
          fl = (if last then ZH2_FL_END_HEADERS else 0) OR (if first \<and> \<not> has_body then ZH2_FL_END_STREAM else 0)
      in case h2_frame env c (of_nat chunk) ty fl sid (Some block) of
           (r, c1) \<Rightarrow>
             if r \<noteq> ZCIO_OK then (r, c1)
             else if last then (ZCIO_OK, c1)
             else h2_header_frames env c1 sid has_body False (drop chunk block))"
  by pat_completeness auto

termination
  by (relation "measure (\<lambda>(env, c, sid, has_body, first, block). length block)") (auto simp: min_def split: if_splits intro!: diff_less intro: order.strict_trans1 [OF _ linorder_not_le [THEN iffD1]])

declare h2_header_frames.simps [simp del]

definition h2_has_body :: "zcio_http_req \<Rightarrow> int \<Rightarrow> bytes option \<Rightarrow> nat \<Rightarrow> bool" where
  "h2_has_body req status body blen \<longleftrightarrow> body \<noteq> None \<and> blen > 0 \<and> \<not> rq_is_head req \<and>
     status \<ge> 200 \<and> status \<noteq> 204 \<and> status \<noteq> 304"

text \<open>
  The owner of a request is its stream, named by the request's \<open>stream_id\<close>. A request is only ever
  dispatched while its stream is in the table (\<open>h2_wf\<close>), so the missing case does not arise.
\<close>

definition zh2_respond :: "h1_env \<Rightarrow> zh2_conn respond_hook" where
  "zh2_respond env c req status hdrs body blen =
     (let sid = word_of_int (rq_stream_id req); alloc = he_alloc env in
      case find_stream c sid of
        None \<Rightarrow> (zcode ZCIO_ERR, c)
      | Some st \<Rightarrow>
          if s2_responded st then (zcode ZCIO_ERR, c)
          else
            (case and_then (zhp_encode_status alloc zhs_buf_zero status) (h2_encode_headers alloc hdrs) of
               (r, fb) \<Rightarrow>
                 if r \<noteq> ZCIO_OK then (zcode r, c\<lparr>h2_oom := True\<rparr>)
                 else
                   (let has_body = h2_has_body req status body blen in
                    case h2_header_frames env c sid has_body True (zb_data fb) of
                      (r1, c1) \<Rightarrow>
                        if r1 \<noteq> ZCIO_OK then (zcode ZCIO_ERR_NOMEM, c1\<lparr>h2_oom := True\<rparr>)
                        else
                          (let c2 = upd_stream c1 sid (\<lambda>s. s\<lparr>s2_resp_headers_done := True, s2_responded := True\<rparr>) in
                           if has_body then
                             (case zhs_buf_append alloc (s2_resp_body st) (take blen (the body)) of
                                (r2, b) \<Rightarrow>
                                  (let c3 = upd_stream c2 sid (\<lambda>s. s\<lparr>s2_resp_body := b\<rparr>) in
                                   if r2 \<noteq> ZCIO_OK then (zcode ZCIO_ERR_NOMEM, c3\<lparr>h2_oom := True\<rparr>)
                                   else (zcode ZCIO_OK, upd_stream c3 sid (\<lambda>s. s\<lparr>s2_resp_end_after_body := True\<rparr>))))
                           else (zcode ZCIO_OK, upd_stream c2 sid (\<lambda>s. s\<lparr>s2_send_done := True\<rparr>))))))"

subsection \<open>Dispatch\<close>

text \<open>The request as the handler gets it; a failed reservation leaves the body without its NUL.\<close>

definition h2_ready :: "h1_env \<Rightarrow> zh2_conn \<Rightarrow> zh2_stream \<Rightarrow> zcio_http_req" where
  "h2_ready env c st = (s2_req st)\<lparr>rq_body := snd (zhs_buf_reserve (he_alloc env) (rq_body (s2_req st)) 1),
     rq_version := 2, rq_secure := h2_secure c, rq_stream_id := uint (s2_id st), rq_responded := False\<rparr>"

definition reap :: "zh2_conn \<Rightarrow> u32 \<Rightarrow> zh2_conn" where
  "reap c sid =
     (case find_stream c sid of
        None \<Rightarrow> c
      | Some st \<Rightarrow> if s2_send_done st \<and> s2_end_stream_recv st then close_found c sid else c)"

text \<open>The handler's calls are indexed by the stream, which is dispatched once.\<close>

definition h2_dispatch :: "h1_env \<Rightarrow> zh2_conn \<Rightarrow> u32 \<Rightarrow> zh2_conn" where
  "h2_dispatch env c sid =
     (case find_stream c sid of
        None \<Rightarrow> c
      | Some st \<Rightarrow>
          if s2_dispatched st then c
          else
            (let req = h2_ready env c st;
                 c1 = upd_stream c sid (\<lambda>s. s\<lparr>s2_dispatched := True, s2_req := req\<rparr>)
             in case zhs_dispatch (he_alloc env) (he_srv env) (he_clock env) (zh2_respond env) (\<lambda>c. c)
                       (he_handler env (unat sid) req) c1 req of
                  (detached, c2, r2) \<Rightarrow>
                    reap (upd_stream c2 sid (\<lambda>s. s\<lparr>s2_req := zhs_req_reset r2\<rparr>)) sid))"

subsection \<open>Header blocks\<close>

definition h2_authority :: "zh2_hdrctx \<Rightarrow> bytes option" where
  "h2_authority x =
     (case hx_authority x of
        Some a \<Rightarrow> Some (let s = cstr a in if 0x40 \<in> set s then drop 1 (dropWhile (\<lambda>b. b \<noteq> 0x40) s) else s)
      | None \<Rightarrow> map_option cstr (zhs_hdrs_get (hx_headers x) (asc ''host'')))"

text \<open>The first header block of a stream, decoded without error.\<close>

definition h2_take_request :: "h1_env \<Rightarrow> zh2_conn \<Rightarrow> u32 \<Rightarrow> zh2_hdrctx \<Rightarrow> bool \<Rightarrow> zh2_conn" where
  "h2_take_request env c sid x end_stream =
     (let setr = (\<lambda>c f. upd_stream c sid (\<lambda>s. s\<lparr>s2_req := f (s2_req s)\<rparr>)) in
      case hx_method x of
        None \<Rightarrow> rst_stream env c sid ZH2_E_PROTOCOL_ERROR
      | Some m \<Rightarrow>
          if hx_scheme x = None \<or> hx_path x = None \<or> \<not> zhs_token_ok (Some (cstr m))
          then rst_stream env c sid ZH2_E_PROTOCOL_ERROR
          else
            (let c1 = setr c (\<lambda>r. r\<lparr>rq_method := Some (cstr m)\<rparr>) in
             case zhs_decode_target (he_alloc env) (he_junk env) (map_option cstr (hx_path x)) (h2_lim c) of
               Inl e \<Rightarrow> if e = ZCIO_ERR_NOMEM then c1\<lparr>h2_oom := True\<rparr>
                        else rst_stream env c1 sid ZH2_E_PROTOCOL_ERROR
             | Inr (path, query) \<Rightarrow>
                 (let c2 = setr c1 (\<lambda>r. r\<lparr>rq_path := Some path, rq_query := query\<rparr>);
                      a = h2_authority x
                  in if a \<noteq> None \<and> \<not> he_alloc env (length (the a) + 1) then c2\<lparr>h2_oom := True\<rparr>
                     else
                       (let c3 = setr c2 (\<lambda>r. r\<lparr>rq_authority := a, rq_is_head := (cstr m = asc ''HEAD''),
                                              rq_headers := hx_headers x\<rparr>);
                            c4 = upd_stream c3 sid (\<lambda>s. s\<lparr>s2_got_headers := True, s2_end_stream_recv := end_stream\<rparr>)
                        in if end_stream then h2_dispatch env c4 sid else c4))))"

definition h2_clear_block :: "zh2_conn \<Rightarrow> zh2_conn" where
  "h2_clear_block c = c\<lparr>h2_hdr_active := False, h2_hdr_stream := None, h2_hdr_id := 0, h2_hdr_refuse := 0,
     h2_hdr_trailer := False, h2_hdr_end_stream := False, h2_cont_count := 0,
     h2_hdr_block := zhs_buf_reset (h2_hdr_block c)\<rparr>"

definition h2_finish_headers :: "h1_env \<Rightarrow> zh2_conn \<Rightarrow> zh2_conn" where
  "h2_finish_headers env c0 =
     (case zhp_decode (he_alloc env) (h2_dec c0) (ZHS_PTR (h2_hdr_block c0)) (max_header_bytes (h2_lim c0))
             (h2_emit (he_alloc env) (h2_lim c0)) (hdrctx_zero (h2_hdr_trailer c0)) of
        (dr, x, d) \<Rightarrow>
          (let sid = h2_hdr_id c0; st = h2_hdr_stream c0; refuse = h2_hdr_refuse c0;
               c = h2_clear_block (c0\<lparr>h2_dec := d\<rparr>)
           in if hx_herr x = HERR_NOMEM \<or> dr = zcode ZCIO_ERR_NOMEM then c\<lparr>h2_oom := True\<rparr>
              else if dr \<noteq> 0 \<and> hx_herr x = HERR_OK then conn_error env c ZH2_E_COMPRESSION_ERROR
              else if hx_herr x = HERR_MALFORMED then
                (case st of
                   Some s \<Rightarrow> rst_stream env c s ZH2_E_PROTOCOL_ERROR
                 | None \<Rightarrow> q_rst env c sid (if refuse \<noteq> 0 then refuse else ZH2_E_PROTOCOL_ERROR))
              else if refuse \<noteq> 0 then q_rst env c sid refuse
              else
                (case st of
                   None \<Rightarrow> q_rst env c sid ZH2_E_REFUSED_STREAM
                 | Some s \<Rightarrow>
                     if h2_hdr_trailer c0 then
                       (if \<not> h2_hdr_end_stream c0 then rst_stream env c s ZH2_E_PROTOCOL_ERROR
                        else h2_dispatch env (upd_stream c s (\<lambda>q. q\<lparr>s2_end_stream_recv := True\<rparr>)) s)
                     else h2_take_request env c s x (h2_hdr_end_stream c0))))"

text \<open>Whether the fragment was taken.\<close>

definition hdr_accumulate :: "h1_env \<Rightarrow> zh2_conn \<Rightarrow> bytes \<Rightarrow> bool \<times> zh2_conn" where
  "hdr_accumulate env c frag =
     (let mx = max_header_bytes (h2_lim c);
          cap = (if mx > SIZE_MAX - 4096 then SIZE_MAX else mx + 4096)
      in if length frag > szsub cap (length (zb_data (h2_hdr_block c))) then (False, conn_error env c ZH2_E_ENHANCE_YOUR_CALM)
         else
           (case zhs_buf_append (he_alloc env) (h2_hdr_block c) frag of
              (r, b) \<Rightarrow>
                if r \<noteq> ZCIO_OK then (False, c\<lparr>h2_hdr_block := b, h2_oom := True\<rparr>)
                else (True, c\<lparr>h2_hdr_block := b\<rparr>)))"
subsection \<open>Frame handlers\<close>

text \<open>Padding and priority fields stripped off: the rest of the payload and the pad length.\<close>

definition strip_padded :: "byte \<Rightarrow> bool \<Rightarrow> bytes \<Rightarrow> (bytes \<times> nat) option" where
  "strip_padded fl prio payload =
     (let padded = (fl AND ZH2_FL_PADDED \<noteq> 0) in
      if padded \<and> payload = [] then None
      else
        (let pad = (if padded then unat (hd payload) else 0);
             p = (if padded then tl payload else payload)
         in if prio \<and> length p < 5 then None
            else Some (if prio then drop 5 p else p, pad)))"

text \<open>Whether a new stream is admitted: the connection and the reset code of the refusal, or 0.\<close>

definition h2_admit :: "h1_env \<Rightarrow> zh2_conn \<Rightarrow> u32 \<Rightarrow> u32 \<times> zh2_conn" where
  "h2_admit env c0 sid =
     (let c = c0\<lparr>h2_last_client_id := sid, h2_total_streams := h2_total_streams c0 + 1\<rparr> in
      if h2_closing c \<or> h2_peer_goaway c then (ZH2_E_REFUSED_STREAM, c)
      else if max_requests_per_conn (h2_lim c) \<noteq> 0 \<and> unat (h2_total_streams c) > max_requests_per_conn (h2_lim c)
      then (ZH2_E_REFUSED_STREAM, (q_goaway env c ZH2_E_NO_ERROR)\<lparr>h2_closing := True\<rparr>)
      else if unat (h2_open_count c) \<ge> max_streams (h2_lim c) then (ZH2_E_REFUSED_STREAM, c)
      else (0, c))"

definition h2_begin_block ::
  "h1_env \<Rightarrow> zh2_conn \<Rightarrow> byte \<Rightarrow> u32 \<Rightarrow> u32 option \<Rightarrow> u32 \<Rightarrow> bool \<Rightarrow> bytes \<Rightarrow> zh2_conn" where
  "h2_begin_block env c fl sid st refuse trailer frag =
     (let c1 = c\<lparr>h2_hdr_active := True, h2_hdr_id := sid, h2_hdr_stream := st, h2_hdr_refuse := refuse,
            h2_hdr_trailer := trailer, h2_hdr_end_stream := (fl AND ZH2_FL_END_STREAM \<noteq> 0),
            h2_cont_count := 0, h2_hdr_block := zhs_buf_reset (h2_hdr_block c)\<rparr>
      in case hdr_accumulate env c1 frag of
           (ok, c2) \<Rightarrow> if \<not> ok then c2
                       else if fl AND ZH2_FL_END_HEADERS \<noteq> 0 then h2_finish_headers env c2 else c2)"

definition h2_on_headers :: "h1_env \<Rightarrow> zh2_conn \<Rightarrow> byte \<Rightarrow> u32 \<Rightarrow> bytes \<Rightarrow> zh2_conn" where
  "h2_on_headers env c fl sid payload =
     (if sid = 0 then conn_error env c ZH2_E_PROTOCOL_ERROR
      else case strip_padded fl (fl AND ZH2_FL_PRIORITY \<noteq> 0) payload of
        None \<Rightarrow> conn_error env c ZH2_E_PROTOCOL_ERROR
      | Some (p, pad) \<Rightarrow>
          if pad > length p then conn_error env c ZH2_E_PROTOCOL_ERROR
          else
            (let frag = take (length p - pad) p in
             case find_stream c sid of
               None \<Rightarrow>
                 if sid AND 1 = 0 \<or> sid \<le> h2_last_client_id c then conn_error env c ZH2_E_PROTOCOL_ERROR
                 else (case h2_admit env c sid of
                         (refuse, c1) \<Rightarrow>
                           if refuse \<noteq> 0 then h2_begin_block env c1 fl sid None refuse False frag
                           else (case h2_stream_new env c1 sid of
                                   (ok, c2) \<Rightarrow> if \<not> ok then c2\<lparr>h2_oom := True\<rparr>
                                               else h2_begin_block env c2 fl sid (Some sid) 0 False frag))
             | Some st \<Rightarrow>
                 if s2_end_stream_recv st then conn_error env c ZH2_E_STREAM_CLOSED
                 else if \<not> s2_got_headers st then conn_error env c ZH2_E_PROTOCOL_ERROR
                 else h2_begin_block env c fl sid (Some sid) 0 True frag))"

definition h2_on_continuation :: "h1_env \<Rightarrow> zh2_conn \<Rightarrow> byte \<Rightarrow> bytes \<Rightarrow> zh2_conn" where
  "h2_on_continuation env c0 fl payload =
     (let c = c0\<lparr>h2_cont_count := h2_cont_count c0 + 1\<rparr> in
      if unat (h2_cont_count c) > ZH2_CONT_MAX then conn_error env c ZH2_E_ENHANCE_YOUR_CALM
      else case hdr_accumulate env c payload of
        (ok, c1) \<Rightarrow> if \<not> ok then c1
                    else if fl AND ZH2_FL_END_HEADERS \<noteq> 0 then h2_finish_headers env c1 else c1)"

definition h2_on_data :: "h1_env \<Rightarrow> zh2_conn \<Rightarrow> byte \<Rightarrow> u32 \<Rightarrow> bytes \<Rightarrow> zh2_conn" where
  "h2_on_data env c fl sid payload =
     (let len = length payload in
      if sid = 0 then conn_error env c ZH2_E_PROTOCOL_ERROR
      else if int len > h2_recv_window c then conn_error env c ZH2_E_FLOW_CONTROL_ERROR
      else case find_stream c sid of
        None \<Rightarrow>
          (let c1 = recv_consume env c None len False in
           if sid > h2_last_client_id c1 then conn_error env c1 ZH2_E_PROTOCOL_ERROR else c1)
      | Some st \<Rightarrow>
          if s2_end_stream_recv st \<or> \<not> s2_got_headers st then conn_error env c ZH2_E_STREAM_CLOSED
          else if int len > s2_recv_window st
          then recv_consume env (rst_stream env c sid ZH2_E_FLOW_CONTROL_ERROR) None len False
          else case strip_padded fl False payload of
            None \<Rightarrow> conn_error env c ZH2_E_PROTOCOL_ERROR
          | Some (p, pad) \<Rightarrow>
              if pad > length p then conn_error env c ZH2_E_PROTOCOL_ERROR
              else
                (let data = take (length p - pad) p; body = rq_body (s2_req st) in
                 if length data > szsub (max_body_bytes (h2_lim c)) (length (zb_data body))
                 then recv_consume env (rst_stream env c sid ZH2_E_ENHANCE_YOUR_CALM) None len False
                 else
                   (case zhs_buf_append (he_alloc env) body data of
                      (r, b) \<Rightarrow>
                        (let c1 = upd_stream c sid (\<lambda>s. s\<lparr>s2_req := (s2_req s)\<lparr>rq_body := b\<rparr>\<rparr>);
                             fin = (fl AND ZH2_FL_END_STREAM \<noteq> 0)
                         in if r \<noteq> ZCIO_OK then c1\<lparr>h2_oom := True\<rparr>
                            else
                              (let c2 = recv_consume env c1 (Some sid) len (\<not> fin) in
                               if fin then h2_dispatch env (upd_stream c2 sid (\<lambda>s. s\<lparr>s2_end_stream_recv := True\<rparr>)) sid
                               else c2)))))"

definition h2_on_rst_stream :: "h1_env \<Rightarrow> zh2_conn \<Rightarrow> u32 \<Rightarrow> nat \<Rightarrow> zh2_conn" where
  "h2_on_rst_stream env c sid len =
     (if len \<noteq> 4 then conn_error env c ZH2_E_FRAME_SIZE_ERROR
      else if sid = 0 then conn_error env c ZH2_E_PROTOCOL_ERROR
      else case find_index c sid of
        Some idx \<Rightarrow>
          (let c1 = (if \<not> s2_responded (h2_streams c ! idx) then c\<lparr>h2_rapid_reset := h2_rapid_reset c + 1\<rparr> else c);
               c2 = stream_close c1 idx
           in if unat (h2_rapid_reset c2) > max_streams (h2_lim c2) then conn_error env c2 ZH2_E_ENHANCE_YOUR_CALM else c2)
      | None \<Rightarrow> if sid > h2_last_client_id c then conn_error env c ZH2_E_PROTOCOL_ERROR else c)"

text \<open>The streams re-targeted until one overflows its window; whether none did.\<close>

fun retarget :: "int \<Rightarrow> zh2_stream list \<Rightarrow> bool \<times> zh2_stream list" where
  "retarget delta [] = (True, [])"
| "retarget delta (s # ss) =
     (let s1 = s\<lparr>s2_send_window := s2_send_window s + delta\<rparr> in
      if s2_send_window s1 > ZH2_MAX_WINDOW then (False, s1 # ss)
      else case retarget delta ss of (ok, ss1) \<Rightarrow> (ok, s1 # ss1))"

text \<open>One setting; whether the loop goes on.\<close>

definition h2_setting :: "h1_env \<Rightarrow> zh2_conn \<Rightarrow> u16 \<Rightarrow> u32 \<Rightarrow> bool \<times> zh2_conn" where
  "h2_setting env c sid val =
     (if sid = ZH2_S_ENABLE_PUSH then
        (if val > 1 then (False, conn_error env c ZH2_E_PROTOCOL_ERROR) else (True, c))
      else if sid = ZH2_S_INITIAL_WINDOW_SIZE then
        (if uint val > ZH2_MAX_WINDOW then (False, conn_error env c ZH2_E_FLOW_CONTROL_ERROR)
         else case retarget (uint val - uint (h2_peer_initial_window c)) (h2_streams c) of
           (ok, ss) \<Rightarrow>
             if \<not> ok then (False, conn_error env (c\<lparr>h2_streams := ss\<rparr>) ZH2_E_FLOW_CONTROL_ERROR)
             else (True, c\<lparr>h2_streams := ss, h2_peer_initial_window := val\<rparr>))
      else if sid = ZH2_S_MAX_FRAME_SIZE then
        (if val < 16384 \<or> val > 16777215 then (False, conn_error env c ZH2_E_PROTOCOL_ERROR)
         else (True, c\<lparr>h2_peer_max_frame := val\<rparr>))
      else (True, c))"

fun h2_settings_loop :: "h1_env \<Rightarrow> zh2_conn \<Rightarrow> bytes \<Rightarrow> bool \<times> zh2_conn" where
  "h2_settings_loop env c (a # b # d # e # f # g # rest) =
     (case h2_setting env c (rd16 [a, b]) (rd32 [d, e, f, g]) of
        (ok, c1) \<Rightarrow> if \<not> ok then (False, c1) else h2_settings_loop env c1 rest)"
| "h2_settings_loop env c _ = (True, c)"

text \<open>The count of this feed is returned updated.\<close>

definition h2_on_settings :: "h1_env \<Rightarrow> zh2_conn \<Rightarrow> byte \<Rightarrow> u32 \<Rightarrow> bytes \<Rightarrow> nat \<Rightarrow> zh2_conn \<times> nat" where
  "h2_on_settings env c fl sid payload count =
     (if sid \<noteq> 0 then (conn_error env c ZH2_E_PROTOCOL_ERROR, count)
      else if fl AND ZH2_FL_ACK \<noteq> 0 then
        ((if payload \<noteq> [] then conn_error env c ZH2_E_FRAME_SIZE_ERROR else c), count)
      else if length payload mod 6 \<noteq> 0 then (conn_error env c ZH2_E_FRAME_SIZE_ERROR, count)
      else if count + 1 > ZH2_SETTINGS_PER_FEED then (conn_error env c ZH2_E_ENHANCE_YOUR_CALM, count + 1)
      else case h2_settings_loop env c payload of
        (ok, c1) \<Rightarrow> (if ok then q_settings_ack env c1 else c1, count + 1))"

definition h2_on_ping :: "h1_env \<Rightarrow> zh2_conn \<Rightarrow> byte \<Rightarrow> u32 \<Rightarrow> bytes \<Rightarrow> nat \<Rightarrow> zh2_conn \<times> nat" where
  "h2_on_ping env c fl sid payload count =
     (if sid \<noteq> 0 then (conn_error env c ZH2_E_PROTOCOL_ERROR, count)
      else if length payload \<noteq> 8 then (conn_error env c ZH2_E_FRAME_SIZE_ERROR, count)
      else if fl AND ZH2_FL_ACK \<noteq> 0 then (c, count)
      else if count + 1 > ZH2_PING_PER_FEED \<or> ZHS_AVAIL (h2_out c) > max_out_bytes (h2_lim c)
      then (conn_error env c ZH2_E_ENHANCE_YOUR_CALM, count + 1)
      else (q_ping_ack env c payload, count + 1))"

definition h2_on_window_update :: "h1_env \<Rightarrow> zh2_conn \<Rightarrow> u32 \<Rightarrow> bytes \<Rightarrow> zh2_conn" where
  "h2_on_window_update env c sid payload =
     (if length payload \<noteq> 4 then conn_error env c ZH2_E_FRAME_SIZE_ERROR
      else
        (let incr = uint (rd32 payload AND 0x7fffffff) in
         if sid = 0 then
           (if incr = 0 then conn_error env c ZH2_E_PROTOCOL_ERROR
            else let c1 = c\<lparr>h2_send_window := h2_send_window c + incr\<rparr> in
              if h2_send_window c1 > ZH2_MAX_WINDOW then conn_error env c1 ZH2_E_FLOW_CONTROL_ERROR else c1)
         else
           (case find_stream c sid of
              None \<Rightarrow> if sid > h2_last_client_id c then conn_error env c ZH2_E_PROTOCOL_ERROR else c
            | Some st \<Rightarrow>
                if incr = 0 then rst_stream env c sid ZH2_E_PROTOCOL_ERROR
                else let c1 = upd_stream c sid (\<lambda>s. s\<lparr>s2_send_window := s2_send_window s + incr\<rparr>) in
                  if s2_send_window st + incr > ZH2_MAX_WINDOW then rst_stream env c1 sid ZH2_E_FLOW_CONTROL_ERROR else c1)))"

definition h2_on_goaway :: "h1_env \<Rightarrow> zh2_conn \<Rightarrow> u32 \<Rightarrow> nat \<Rightarrow> zh2_conn" where
  "h2_on_goaway env c sid len =
     (if sid \<noteq> 0 then conn_error env c ZH2_E_PROTOCOL_ERROR
      else if len < 8 then conn_error env c ZH2_E_FRAME_SIZE_ERROR
      else c\<lparr>h2_peer_goaway := True\<rparr>)"

subsection \<open>Feed\<close>

function consume_preface :: "h1_env \<Rightarrow> zh2_conn \<Rightarrow> zhs_buf \<Rightarrow> bool \<times> zh2_conn \<times> zhs_buf" where
  "consume_preface env c inp =
     (if h2_preface_got c < 24 \<and> h1_avail inp > 0 then
        (if hd (ZHS_PTR inp) \<noteq> ZH2_PREFACE ! h2_preface_got c
         then (False, conn_error env c ZH2_E_PROTOCOL_ERROR, inp)
         else consume_preface env (c\<lparr>h2_preface_got := h2_preface_got c + 1\<rparr>) (zhs_buf_consume inp 1))
      else if h2_preface_got c < 24 then (False, c, inp)
      else (True, c\<lparr>h2_preface_done := True\<rparr>, inp))"
  by pat_completeness auto
termination
  by (relation "measure (\<lambda>(env, c, inp). 24 - h2_preface_got c)") auto

declare consume_preface.simps [simp del]

text \<open>The order of frames: SETTINGS first, and nothing but CONTINUATION inside a header block.\<close>

definition h2_frame_order :: "zh2_conn \<Rightarrow> byte \<Rightarrow> u32 \<Rightarrow> bool \<times> zh2_conn" where
  "h2_frame_order c ty sid =
     (if h2_need_settings c \<and> ty \<noteq> ZH2_FT_SETTINGS then (False, c)
      else
        (let c1 = c\<lparr>h2_need_settings := False\<rparr> in
         if h2_hdr_active c1 then (ty = ZH2_FT_CONTINUATION \<and> sid = h2_hdr_id c1, c1)
         else (ty \<noteq> ZH2_FT_CONTINUATION, c1)))"

definition h2_on_priority :: "h1_env \<Rightarrow> zh2_conn \<Rightarrow> u32 \<Rightarrow> nat \<Rightarrow> zh2_conn" where
  "h2_on_priority env c sid len =
     (if sid = 0 then conn_error env c ZH2_E_PROTOCOL_ERROR
      else if len \<noteq> 5 then conn_error env c ZH2_E_FRAME_SIZE_ERROR else c)"

text \<open>One complete frame, with the counts of PING and SETTINGS frames of this feed.\<close>

definition h2_on_frame ::
  "h1_env \<Rightarrow> zh2_conn \<Rightarrow> byte \<Rightarrow> byte \<Rightarrow> u32 \<Rightarrow> bytes \<Rightarrow> nat \<Rightarrow> nat \<Rightarrow> zh2_conn \<times> nat \<times> nat" where
  "h2_on_frame env c ty fl sid payload pings settings =
     (if ty = ZH2_FT_DATA then (h2_on_data env c fl sid payload, pings, settings)
      else if ty = ZH2_FT_HEADERS then (h2_on_headers env c fl sid payload, pings, settings)
      else if ty = ZH2_FT_PRIORITY then (h2_on_priority env c sid (length payload), pings, settings)
      else if ty = ZH2_FT_RST_STREAM then (h2_on_rst_stream env c sid (length payload), pings, settings)
      else if ty = ZH2_FT_SETTINGS then
        (case h2_on_settings env c fl sid payload settings of (c1, n) \<Rightarrow> (c1, pings, n))
      else if ty = ZH2_FT_PUSH_PROMISE then (conn_error env c ZH2_E_PROTOCOL_ERROR, pings, settings)
      else if ty = ZH2_FT_PING then
        (case h2_on_ping env c fl sid payload pings of (c1, n) \<Rightarrow> (c1, n, settings))
      else if ty = ZH2_FT_GOAWAY then (h2_on_goaway env c sid (length payload), pings, settings)
      else if ty = ZH2_FT_WINDOW_UPDATE then (h2_on_window_update env c sid payload, pings, settings)
      else if ty = ZH2_FT_CONTINUATION then (h2_on_continuation env c fl payload, pings, settings)
      else (c, pings, settings))"

function zh2_feed_loop :: "h1_env \<Rightarrow> zh2_conn \<Rightarrow> zhs_buf \<Rightarrow> nat \<Rightarrow> nat \<Rightarrow> zh2_conn \<times> zhs_buf" where
  "zh2_feed_loop env c inp pings settings =
     (let h = ZHS_PTR inp in
      if h2_got_error c \<or> h2_oom c then (c, inp)
      else if h1_avail inp < 9 then (c, inp)
      else
        (let len = unat (rd24 h); ty = h ! 3; fl = h ! 4; sid = rd32 (drop 5 h) AND 0x7fffffff in
         if len > ZH2_FRAME_MAX then (conn_error env c ZH2_E_FRAME_SIZE_ERROR, inp)
         else if h1_avail inp < 9 + len then (c, inp)
         else case h2_frame_order c ty sid of
           (ok, c1) \<Rightarrow>
             if \<not> ok then (conn_error env c1 ZH2_E_PROTOCOL_ERROR, inp)
             else case h2_on_frame env c1 ty fl sid (take len (drop 9 h)) pings settings of
               (c2, pings1, settings1) \<Rightarrow>
                 zh2_feed_loop env c2 (zhs_buf_consume inp (9 + len)) pings1 settings1))"
  by pat_completeness auto
termination
  by (relation "measure (\<lambda>(env, c, inp, pings, settings). h1_avail inp)")
    (auto simp: h1_avail_def intro!: consume_shorter)

declare zh2_feed_loop.simps [simp del]

datatype zh2_ret = ZH2_OK | ZH2_CLOSING | ZH2_HARD zcio_result

definition zh2_feed :: "h1_env \<Rightarrow> zh2_conn \<Rightarrow> zhs_buf \<Rightarrow> zh2_ret \<times> zh2_conn \<times> zhs_buf" where
  "zh2_feed env c inp =
     (if h2_oom c then (ZH2_HARD ZCIO_ERR_NOMEM, c, inp)
      else
        (case (if h2_preface_done c then (True, c, inp) else consume_preface env c inp) of
           (ok, c1, inp1) \<Rightarrow>
             if \<not> ok then ((if h2_got_error c1 then ZH2_CLOSING else ZH2_OK), c1, inp1)
             else
               (case zh2_feed_loop env c1 inp1 0 0 of
                  (c2, inp2) \<Rightarrow>
                    if h2_oom c2 then (ZH2_HARD ZCIO_ERR_NOMEM, c2, inp2)
                    else if h2_closing c2 \<or> h2_got_error c2 then (ZH2_CLOSING, c2, inp2)
                    else (ZH2_OK, c2, inp2))))"

subsection \<open>Pump\<close>

text \<open>
  The size of the next DATA frame of a stream: what is left of the body, cut to both windows, the
  peer's frame size and the room in the output buffer; 0 where the loop breaks.
\<close>

definition pump_chunk :: "zh2_conn \<Rightarrow> zh2_stream \<Rightarrow> nat" where
  "pump_chunk c st =
     (let total = length (zb_data (s2_resp_body st));
          win = min (if s2_send_window st < 0 then 0 else s2_send_window st)
                    (if h2_send_window c < 0 then 0 else h2_send_window c);
          out_used = ZHS_AVAIL (h2_out c); mx = max_out_bytes (h2_lim c); out_budget = mx - out_used
      in if win \<le> 0 then 0
         else if out_used \<ge> mx then 0
         else if out_budget \<le> 9 then 0
         else min (min (min (total - s2_body_off st) (nat win)) (unat (h2_peer_max_frame c))) (out_budget - 9))"

function pump_body :: "h1_env \<Rightarrow> zh2_conn \<Rightarrow> zh2_stream \<Rightarrow> zh2_conn \<times> zh2_stream" where
  "pump_body env c st =
     (let total = length (zb_data (s2_resp_body st)); chunk = pump_chunk c st;
          last = (s2_body_off st + chunk = total);
          fl = (if last \<and> s2_resp_end_after_body st then ZH2_FL_END_STREAM else 0)
      in if s2_body_off st < total \<and> chunk \<noteq> 0 then
           (case h2_frame env c (of_nat chunk) ZH2_FT_DATA fl (s2_id st)
                   (Some (drop (s2_body_off st) (zb_data (s2_resp_body st)))) of
              (r, c1) \<Rightarrow>
                if r \<noteq> ZCIO_OK then (c1\<lparr>h2_oom := True\<rparr>, st)
                else pump_body env (c1\<lparr>h2_send_window := h2_send_window c1 - int chunk\<rparr>)
                       (st\<lparr>s2_body_off := s2_body_off st + chunk,
                           s2_send_window := s2_send_window st - int chunk,
                           s2_send_done := (s2_send_done st \<or> last)\<rparr>))
         else (c, st))"
  by pat_completeness auto
termination
  by (relation "measure (\<lambda>(env, c, st). length (zb_data (s2_resp_body st)) - s2_body_off st)") auto

declare pump_body.simps [simp del]

lemma h2_frame_out: "h2_frame env c len ty fl sid p = (r, c') \<Longrightarrow> c' = c\<lparr>h2_out := h2_out c'\<rparr>"
  by (auto simp: h2_frame_def split: prod.splits)

lemma pump_body_conn:
  "pump_body env c st = (c', st') \<Longrightarrow> \<exists>o1 w b. c' = c\<lparr>h2_out := o1, h2_send_window := w, h2_oom := b\<rparr>"
proof (induction env c st arbitrary: c' st' rule: pump_body.induct)
  case (1 env c st)
  have same: "\<exists>o1 w b. c = c\<lparr>h2_out := o1, h2_send_window := w, h2_oom := b\<rparr>"
    by (intro exI [of _ "h2_out c"] exI [of _ "h2_send_window c"] exI [of _ "h2_oom c"]) simp
  show ?case
  proof (cases "s2_body_off st < length (zb_data (s2_resp_body st)) \<and> pump_chunk c st \<noteq> 0")
    case False
    with 1(2) have "c' = c" by (subst (asm) pump_body.simps) (auto simp: Let_def)
    with same show ?thesis by simp
  next
    case True
    obtain r c1 where f: "h2_frame env c (of_nat (pump_chunk c st)) 0
        (if s2_body_off st + pump_chunk c st = length (zb_data (s2_resp_body st)) \<and> s2_resp_end_after_body st then 1 else 0)
        (s2_id st) (Some (drop (s2_body_off st) (zb_data (s2_resp_body st)))) = (r, c1)" by fastforce
    obtain o1 where c1: "c1 = c\<lparr>h2_out := o1\<rparr>" using h2_frame_out [OF f] by metis
    show ?thesis
    proof (cases "r = ZCIO_OK")
      case False
      with 1(2) True f c1 have "c' = c\<lparr>h2_out := o1, h2_send_window := h2_send_window c, h2_oom := True\<rparr>"
        by (subst (asm) pump_body.simps) (simp add: Let_def)
      then show ?thesis by blast
    next
      case ok: True
      from 1(2) True f ok have "pump_body env (c1\<lparr>h2_send_window := h2_send_window c1 - int (pump_chunk c st)\<rparr>)
          (st\<lparr>s2_body_off := s2_body_off st + pump_chunk c st, s2_send_window := s2_send_window st - int (pump_chunk c st),
              s2_send_done := (s2_send_done st \<or> s2_body_off st + pump_chunk c st = length (zb_data (s2_resp_body st)))\<rparr>) = (c', st')"
        by (subst (asm) pump_body.simps) (simp add: Let_def)
      from 1(1) [OF refl refl refl refl True f [symmetric] _ this] ok obtain o2 w b where
        "c' = (c1\<lparr>h2_send_window := h2_send_window c1 - int (pump_chunk c st)\<rparr>)\<lparr>h2_out := o2, h2_send_window := w, h2_oom := b\<rparr>"
        by blast
      then have "c' = c\<lparr>h2_out := o2, h2_send_window := w, h2_oom := b\<rparr>" using c1 by simp
      then show ?thesis by blast
    qed
  qed
qed

lemma pump_body_streams: "pump_body env c st = (c', st') \<Longrightarrow> h2_streams c' = h2_streams c"
  using pump_body_conn by fastforce

function pump_loop :: "h1_env \<Rightarrow> zh2_conn \<Rightarrow> nat \<Rightarrow> zh2_conn" where
  "pump_loop env c i =
     (if i \<ge> length (h2_streams c) then c
      else
        (let st = h2_streams c ! i in
         case (if s2_resp_headers_done st \<and> \<not> s2_send_done st then pump_body env c st else (c, st)) of
           (c1, st1) \<Rightarrow>
             (let c2 = c1\<lparr>h2_streams := (h2_streams c1)[i := st1]\<rparr> in
              if h2_oom c2 then c2
              else if s2_send_done st1 \<and> s2_end_stream_recv st1 then pump_loop env (stream_close c2 i) i
              else pump_loop env c2 (i + 1))))"
  by pat_completeness auto
termination
  by (relation "measure (\<lambda>(env, c, i). length (h2_streams c) - i)")
    (auto simp: stream_close_def split: if_splits dest: pump_body_streams [OF sym])

declare pump_loop.simps [simp del]

definition zh2_pump :: "h1_env \<Rightarrow> zh2_conn \<Rightarrow> zh2_conn" where
  "zh2_pump env c = (if h2_oom c then c else pump_loop env c 0)"

subsection \<open>Lifecycle\<close>

definition h2_settings_payload :: "zhs_limits \<Rightarrow> bytes" where
  "h2_settings_payload lim =
     (let hlist = (if max_header_bytes lim > 0xffffffff then 0xffffffff else of_nat (max_header_bytes lim)) in
      wr16 ZH2_S_HEADER_TABLE_SIZE @ wr32 (of_nat ZHP_DEC_TABLE_MAX) @
      wr16 ZH2_S_MAX_CONCURRENT_STREAMS @ wr32 (of_nat (max_streams lim)) @
      wr16 ZH2_S_INITIAL_WINDOW_SIZE @ wr32 65535 @
      wr16 ZH2_S_MAX_FRAME_SIZE @ wr32 16384 @
      wr16 ZH2_S_MAX_HEADER_LIST_SIZE @ wr32 hlist)"

text \<open>The two flags say whether the connection and its decoder could be allocated.\<close>

definition zh2_new :: "h1_env \<Rightarrow> bool \<Rightarrow> bool \<Rightarrow> zhs_limits \<Rightarrow> bool \<Rightarrow> zhs_buf \<Rightarrow> zh2_conn option" where
  "zh2_new env alloc_conn alloc_dec lim secure out =
     (if \<not> alloc_conn then None
      else case zhp_dec_new alloc_dec ZHP_DEC_TABLE_MAX of
        None \<Rightarrow> None
      | Some d \<Rightarrow>
          (let c = \<lparr>h2_lim = lim, h2_secure = secure, h2_out = out, h2_dec = d, h2_preface_got = 0,
                 h2_preface_done = False, h2_need_settings = True, h2_closing = False, h2_goaway_sent = False,
                 h2_peer_goaway = False, h2_got_error = False, h2_oom = False,
                 h2_recv_window = ZH2_WINDOW, h2_send_window = ZH2_WINDOW, h2_peer_initial_window = 65535,
                 h2_peer_max_frame = 16384, h2_streams = [], h2_streams_cap = 0, h2_last_client_id = 0,
                 h2_open_count = 0, h2_total_streams = 0, h2_rapid_reset = 0, h2_hdr_active = False,
                 h2_hdr_id = 0, h2_hdr_stream = None, h2_hdr_refuse = 0, h2_hdr_trailer = False,
                 h2_hdr_end_stream = False, h2_hdr_block = zhs_buf_zero, h2_cont_count = 0\<rparr>
           in case h2_frame env c 30 ZH2_FT_SETTINGS 0 0 (Some (h2_settings_payload lim)) of
                (r, c1) \<Rightarrow> if r \<noteq> ZCIO_OK then None else Some c1))"

definition zh2_idle :: "zh2_conn option \<Rightarrow> bool" where
  "zh2_idle co =
     (case co of None \<Rightarrow> True
      | Some c \<Rightarrow> if h2_got_error c then True else if h2_hdr_active c then False else h2_streams c = [])"

definition zh2_graceful :: "h1_env \<Rightarrow> zh2_conn \<Rightarrow> zh2_conn" where
  "zh2_graceful env c = (q_goaway env c ZH2_E_NO_ERROR)\<lparr>h2_closing := True\<rparr>"
end
