(* ===== verification/Zc_H2Inv.thy ===== *)
theory Zc_H2Inv
  imports Zc_H2
begin

unbundle bit_operations_syntax

text \<open>
  The invariant of an HTTP/2 connection: what holds of the stream table, the counters, the windows
  and the header block in progress, and that every operation of the engine keeps it. The engine
  relies on it to name streams by pointers, to subtract without wrap-around and to hand only
  acceptable requests to the application.
\<close>

section \<open>The HTTP/2 engine keeps its state in order\<close>

subsection \<open>The table as a set of streams\<close>

definition swap_remove :: "nat \<Rightarrow> 'a list \<Rightarrow> 'a list" where
  "swap_remove i xs = butlast (xs[i := last xs])"

lemma swap_remove_snoc: "swap_remove i (ys @ [z]) = (if i < length ys then ys[i := z] else ys)"
  by (auto simp: swap_remove_def list_update_append butlast_append Let_def split: nat.splits)

lemma set_swap_remove:
  assumes "distinct xs" "i < length xs"
  shows "set (swap_remove i xs) = set xs - {xs ! i}"
proof (cases xs rule: rev_cases)
  case (snoc ys z)
  with assms show ?thesis
    by (auto simp: swap_remove_snoc nth_append set_update_distinct less_Suc_eq)
qed (use assms in simp)

lemma distinct_swap_remove:
  assumes "distinct xs" "i < length xs"
  shows "distinct (swap_remove i xs)"
proof (cases xs rule: rev_cases)
  case (snoc ys z)
  with assms show ?thesis by (auto simp: swap_remove_snoc intro!: distinct_list_update)
qed (use assms in simp)

lemma map_swap_remove: "i < length xs \<Longrightarrow> map f (swap_remove i xs) = swap_remove i (map f xs)"
  by (cases "xs = []") (simp_all add: swap_remove_def map_butlast map_update last_map)

lemma length_swap_remove [simp]: "length (swap_remove i xs) = length xs - 1"
  by (simp add: swap_remove_def)

lemma index_of_Some: "index_of sid ss = Some i \<Longrightarrow> i < length ss \<and> s2_id (ss ! i) = sid"
  by (induction ss arbitrary: i) (auto split: if_splits)

lemma index_of_None: "index_of sid ss = None \<longleftrightarrow> sid \<notin> s2_id ` set ss"
  by (induction ss) auto

lemma find_stream_Some: "find_stream c sid = Some st \<Longrightarrow> st \<in> set (h2_streams c) \<and> s2_id st = sid"
  by (auto simp: find_stream_def find_index_def dest!: index_of_Some)

lemma find_stream_None: "find_stream c sid = None \<longleftrightarrow> sid \<notin> s2_id ` set (h2_streams c)"
  by (simp add: find_stream_def find_index_def index_of_None)

lemma find_stream_eq:
  assumes "distinct (map s2_id (h2_streams c))" "st \<in> set (h2_streams c)" "s2_id st = sid"
  shows "find_stream c sid = Some st"
proof (cases "find_stream c sid")
  case None
  with assms show ?thesis by (auto simp: find_stream_None)
next
  case (Some t)
  with find_stream_Some [OF this] assms show ?thesis by (metis distinct_map inj_onD)
qed

text \<open>What \<open>stream_close\<close> and \<open>close_found\<close> leave of the table.\<close>

lemma stream_close_streams: "h2_streams (stream_close c i) = swap_remove i (h2_streams c)"
  by (simp add: stream_close_def swap_remove_def)

lemma close_found_cases:
  "close_found c sid = c \<and> sid \<notin> s2_id ` set (h2_streams c) \<or>
   (\<exists>i. i < length (h2_streams c) \<and> s2_id (h2_streams c ! i) = sid \<and> close_found c sid = stream_close c i)"
proof (cases "index_of sid (h2_streams c)")
  case None
  then show ?thesis by (simp add: close_found_def find_index_def flip: index_of_None)
next
  case (Some i)
  with index_of_Some [OF this] show ?thesis by (auto simp: close_found_def find_index_def)
qed

lemma set_stream_close:
  assumes "distinct (map s2_id (h2_streams c))" "i < length (h2_streams c)"
  shows "set (h2_streams (stream_close c i)) = {s \<in> set (h2_streams c). s2_id s \<noteq> s2_id (h2_streams c ! i)}"
proof -
  have "distinct (h2_streams c)" using assms(1) by (simp add: distinct_map)
  then have "set (h2_streams (stream_close c i)) = set (h2_streams c) - {h2_streams c ! i}"
    using assms(2) by (simp add: stream_close_streams set_swap_remove)
  moreover have "s = h2_streams c ! i" if "s \<in> set (h2_streams c)" "s2_id s = s2_id (h2_streams c ! i)" for s
    using assms that nth_mem [OF assms(2)] by (simp add: distinct_map inj_on_def)
  ultimately show ?thesis by blast
qed

lemma set_upd_stream:
  "set (h2_streams (upd_stream c sid f)) = (\<lambda>s. if s2_id s = sid then f s else s) ` set (h2_streams c)"
  by (simp add: upd_stream_def)

subsection \<open>Queued frames\<close>

text \<open>A connection that differs only in its output, its memory flag, and the flags of a shutdown.\<close>

definition wire_eq :: "zh2_conn \<Rightarrow> zh2_conn \<Rightarrow> bool" where
  "wire_eq c c' \<longleftrightarrow> (\<exists>o1 b. c' = c\<lparr>h2_out := o1, h2_oom := b\<rparr> \<and> (zb_wf (h2_out c) \<longrightarrow> zb_wf o1) \<and> (h2_oom c \<longrightarrow> b))"

lemma writes_wf: "writes f s \<Longrightarrow> f b = (r, b') \<Longrightarrow> zb_wf b \<Longrightarrow> zb_wf b'"
  by (simp add: writes_def)

text \<open>The bytes of a frame.\<close>

definition frame_bytes :: "byte \<Rightarrow> byte \<Rightarrow> u32 \<Rightarrow> bytes \<Rightarrow> bytes" where
  "frame_bytes ty fl sid p = frame_hdr (of_nat (length p)) ty fl sid @ p"

lemma h2_frame_out_writes:
  "writes (\<lambda>o1. and_then (zhs_buf_append alloc o1 (frame_hdr len ty fl sid))
     (\<lambda>o2. case payload of None \<Rightarrow> (ZCIO_OK, o2)
           | Some p \<Rightarrow> if len \<noteq> 0 then zhs_buf_append alloc o2 (take (unat len) p) else (ZCIO_OK, o2)))
   (frame_hdr len ty fl sid @ (case payload of None \<Rightarrow> [] | Some p \<Rightarrow> take (unat len) p))"
proof (intro writes_then writes_append)
  show "writes (\<lambda>o2. case payload of None \<Rightarrow> (ZCIO_OK, o2)
           | Some p \<Rightarrow> if len \<noteq> 0 then zhs_buf_append alloc o2 (take (unat len) p) else (ZCIO_OK, o2))
     (case payload of None \<Rightarrow> [] | Some p \<Rightarrow> take (unat len) p)"
    using writes_done writes_append by (cases payload; cases "len = 0") simp_all
qed

lemma h2_frame_ok:
  assumes "h2_frame env c len ty fl sid payload = (r, c')"
  shows "\<exists>o1. c' = c\<lparr>h2_out := o1\<rparr> \<and> (zb_wf (h2_out c) \<longrightarrow> zb_wf o1 \<and>
    (r = ZCIO_OK \<longrightarrow> ZHS_PTR o1 = ZHS_PTR (h2_out c) @ frame_hdr len ty fl sid @
       (case payload of None \<Rightarrow> [] | Some p \<Rightarrow> take (unat len) p)))"
proof -
  let ?f = "\<lambda>o1. and_then (zhs_buf_append (he_alloc env) o1 (frame_hdr len ty fl sid))
     (\<lambda>o2. case payload of None \<Rightarrow> (ZCIO_OK, o2)
           | Some p \<Rightarrow> if len \<noteq> 0 then zhs_buf_append (he_alloc env) o2 (take (unat len) p) else (ZCIO_OK, o2))"
  obtain r1 o1 where f: "?f (h2_out c) = (r1, o1)" by fastforce
  with assms have "r = r1" "c' = c\<lparr>h2_out := o1\<rparr>" by (simp_all add: h2_frame_def)
  with writesD [OF h2_frame_out_writes _ f] show ?thesis by blast
qed

lemma h2_queue_wire: "wire_eq c (h2_queue env c len ty fl sid payload)"
proof -
  obtain r c' where f: "h2_frame env c len ty fl sid payload = (r, c')" by fastforce
  from h2_frame_ok [OF this] obtain o1 where "c' = c\<lparr>h2_out := o1\<rparr>" "zb_wf (h2_out c) \<longrightarrow> zb_wf o1" by blast
  then show ?thesis unfolding wire_eq_def h2_queue_def f
    by (intro exI [of _ o1] exI [of _ "h2_oom (case (r, c') of (r, c1) \<Rightarrow> if r \<noteq> ZCIO_OK then c1\<lparr>h2_oom := True\<rparr> else c1)"]) auto
qed

lemma wire_refl: "wire_eq c c"
  unfolding wire_eq_def by (intro exI [of _ "h2_out c"] exI [of _ "h2_oom c"]) simp

lemma q_rst_wire: "wire_eq c (q_rst env c sid code)"
  by (simp add: q_rst_def h2_queue_wire)

lemma q_window_update_wire: "wire_eq c (q_window_update env c sid incr)"
  by (simp add: q_window_update_def h2_queue_wire wire_refl)

lemma q_settings_ack_wire: "wire_eq c (q_settings_ack env c)"
  by (simp add: q_settings_ack_def h2_queue_wire)

lemma q_ping_ack_wire: "wire_eq c (q_ping_ack env c data)"
  by (simp add: q_ping_ack_def h2_queue_wire)
subsection \<open>The invariant of a connection\<close>

text \<open>A field the header sink lets through, and the head of a request built from such fields.\<close>

definition field_ok :: "bytes \<times> bytes \<Rightarrow> bool" where
  "field_ok nv \<longleftrightarrow> zhs_lower_token_ok (Some (fst nv)) \<and> \<not> is_conn_specific (fst nv) \<and>
     (fst nv = asc ''te'' \<longrightarrow> snd nv = asc ''trailers'')"

definition head_ok :: "zcio_http_req \<Rightarrow> bool" where
  "head_ok q \<longleftrightarrow> line_ok q \<and> list_all field_ok (hs_v (rq_headers q))"

definition req_wf :: "zhs_limits \<Rightarrow> zcio_http_req \<Rightarrow> bool" where
  "req_wf lim q \<longleftrightarrow> zb_wf (rq_body q) \<and> zb_off (rq_body q) = 0 \<and>
     length (zb_data (rq_body q)) \<le> max_body_bytes lim \<and> hdrs_wf lim (rq_headers q)"

definition stream_wf :: "zhs_limits \<Rightarrow> zh2_stream \<Rightarrow> bool" where
  "stream_wf lim s \<longleftrightarrow>
     49151 < s2_recv_window s \<and> s2_recv_window s \<le> 65535 \<and>
     zb_wf (s2_resp_body s) \<and> zb_off (s2_resp_body s) = 0 \<and> s2_body_off s \<le> length (zb_data (s2_resp_body s)) \<and>
     req_wf lim (s2_req s) \<and> (s2_got_headers s \<and> \<not> s2_dispatched s \<longrightarrow> head_ok (s2_req s)) \<and>
     (s2_dispatched s \<longrightarrow> s2_end_stream_recv s)"

text \<open>
  The send window of a stream: between the peer's initial window less \<open>2\<^sup>31 - 1\<close> and \<open>2\<^sup>31 - 1\<close>
  while the connection is sound, and far inside \<open>int64_t\<close> after an error.
\<close>

definition win_ok :: "bool \<Rightarrow> int \<Rightarrow> zh2_stream \<Rightarrow> bool" where
  "win_ok err initial s \<longleftrightarrow> \<bar>s2_send_window s\<bar> \<le> 2 ^ 32 \<and>
     (\<not> err \<longrightarrow> initial - 0x7fffffff \<le> s2_send_window s \<and> s2_send_window s \<le> 0x7fffffff)"

definition entry_ok :: "zh2_conn \<Rightarrow> zh2_stream \<Rightarrow> bool" where
  "entry_ok c s \<longleftrightarrow> odd (unat (s2_id s)) \<and> s2_id s \<le> h2_last_client_id c \<and> stream_wf (h2_lim c) s \<and>
     win_ok (h2_got_error c) (uint (h2_peer_initial_window c)) s"

definition count_ok :: "zh2_conn \<Rightarrow> bool" where
  "count_ok c \<longleftrightarrow>
     unat (h2_open_count c) = length (h2_streams c) \<and> length (h2_streams c) \<le> max_streams (h2_lim c) \<and>
     unat (h2_rapid_reset c) + length (h2_streams c) \<le> unat (h2_total_streams c) \<and>
     2 * unat (h2_total_streams c) \<le> unat (h2_last_client_id c) + 1 \<and>
     (h2_last_client_id c = 0 \<or> odd (unat (h2_last_client_id c))) \<and> unat (h2_last_client_id c) < 2 ^ 31 \<and>
     unat (h2_rapid_reset c) \<le> max_streams (h2_lim c) + of_bool (h2_got_error c)"

definition tab_ok :: "zh2_conn \<Rightarrow> bool" where
  "tab_ok c \<longleftrightarrow> distinct (map s2_id (h2_streams c)) \<and> (\<forall>s \<in> set (h2_streams c). entry_ok c s) \<and> count_ok c"

definition block_cap :: "zhs_limits \<Rightarrow> nat" where
  "block_cap lim = (if max_header_bytes lim > SIZE_MAX - 4096 then SIZE_MAX else max_header_bytes lim + 4096)"

definition num_ok :: "zh2_conn \<Rightarrow> bool" where
  "num_ok c \<longleftrightarrow> zb_wf (h2_out c) \<and> dec_wf (h2_dec c) \<and>
     49151 < h2_recv_window c \<and> h2_recv_window c \<le> 65535 \<and>
     0 \<le> h2_send_window c \<and> h2_send_window c \<le> 2 ^ 32 \<and> (\<not> h2_got_error c \<longrightarrow> h2_send_window c \<le> 0x7fffffff) \<and>
     uint (h2_peer_initial_window c) \<le> 0x7fffffff \<and>
     16384 \<le> unat (h2_peer_max_frame c) \<and> unat (h2_peer_max_frame c) \<le> 16777215 \<and>
     zb_wf (h2_hdr_block c) \<and> zb_off (h2_hdr_block c) = 0 \<and> length (zb_data (h2_hdr_block c)) \<le> block_cap (h2_lim c) \<and>
     unat (h2_cont_count c) \<le> 64 + of_bool (h2_got_error c)"

text \<open>A header block in progress belongs to a live stream that has not ended.\<close>

definition blk_ok :: "zh2_conn \<Rightarrow> bool" where
  "blk_ok c \<longleftrightarrow> (\<forall>sid. h2_hdr_active c \<and> h2_hdr_stream c = Some sid \<longrightarrow> sid = h2_hdr_id c \<and>
     (\<exists>s \<in> set (h2_streams c). s2_id s = sid \<and> \<not> s2_end_stream_recv s \<and> s2_got_headers s = h2_hdr_trailer c))"

definition h2_wf :: "zhs_limits \<Rightarrow> zh2_conn \<Rightarrow> bool" where
  "h2_wf lim c \<longleftrightarrow> h2_lim c = lim \<and> tab_ok c \<and> num_ok c \<and> blk_ok c"

text \<open>The same outside a header block, where every handler but the two of header frames runs.\<close>

definition base_ok :: "zhs_limits \<Rightarrow> zh2_conn \<Rightarrow> bool" where
  "base_ok lim c \<longleftrightarrow> h2_lim c = lim \<and> tab_ok c \<and> num_ok c \<and> \<not> h2_hdr_active c"

lemma base_wf: "base_ok lim c \<Longrightarrow> h2_wf lim c"
  by (simp add: base_ok_def h2_wf_def blk_ok_def)

lemma wf_base: "h2_wf lim c \<Longrightarrow> \<not> h2_hdr_active c \<Longrightarrow> base_ok lim c"
  by (simp add: base_ok_def h2_wf_def)

named_theorems h2_upd \<open>the invariants under record updates\<close>

lemma tab_ok_upd [h2_upd]:
  "tab_ok (c\<lparr>h2_out := x1\<rparr>) = tab_ok c" "tab_ok (c\<lparr>h2_dec := x2\<rparr>) = tab_ok c" "tab_ok (c\<lparr>h2_oom := x3\<rparr>) = tab_ok c"
  "tab_ok (c\<lparr>h2_goaway_sent := x4\<rparr>) = tab_ok c" "tab_ok (c\<lparr>h2_closing := x5\<rparr>) = tab_ok c"
  "tab_ok (c\<lparr>h2_recv_window := x6\<rparr>) = tab_ok c" "tab_ok (c\<lparr>h2_send_window := x7\<rparr>) = tab_ok c"
  "tab_ok (c\<lparr>h2_peer_max_frame := x8\<rparr>) = tab_ok c" "tab_ok (c\<lparr>h2_hdr_active := x9\<rparr>) = tab_ok c"
  "tab_ok (c\<lparr>h2_hdr_id := y1\<rparr>) = tab_ok c" "tab_ok (c\<lparr>h2_hdr_stream := y2\<rparr>) = tab_ok c"
  "tab_ok (c\<lparr>h2_hdr_refuse := y3\<rparr>) = tab_ok c" "tab_ok (c\<lparr>h2_hdr_trailer := y4\<rparr>) = tab_ok c"
  "tab_ok (c\<lparr>h2_hdr_end_stream := y5\<rparr>) = tab_ok c" "tab_ok (c\<lparr>h2_hdr_block := y6\<rparr>) = tab_ok c"
  "tab_ok (c\<lparr>h2_cont_count := y7\<rparr>) = tab_ok c" "tab_ok (c\<lparr>h2_preface_got := y8\<rparr>) = tab_ok c"
  "tab_ok (c\<lparr>h2_preface_done := y9\<rparr>) = tab_ok c" "tab_ok (c\<lparr>h2_need_settings := z1\<rparr>) = tab_ok c"
  "tab_ok (c\<lparr>h2_peer_goaway := z2\<rparr>) = tab_ok c" "tab_ok (c\<lparr>h2_streams_cap := z3\<rparr>) = tab_ok c"
  by (simp_all add: tab_ok_def entry_ok_def count_ok_def)

lemma num_ok_upd [h2_upd]:
  "num_ok (c\<lparr>h2_oom := x3\<rparr>) = num_ok c" "num_ok (c\<lparr>h2_goaway_sent := x4\<rparr>) = num_ok c"
  "num_ok (c\<lparr>h2_closing := x5\<rparr>) = num_ok c" "num_ok (c\<lparr>h2_hdr_active := x9\<rparr>) = num_ok c"
  "num_ok (c\<lparr>h2_hdr_id := y1\<rparr>) = num_ok c" "num_ok (c\<lparr>h2_hdr_stream := y2\<rparr>) = num_ok c"
  "num_ok (c\<lparr>h2_hdr_refuse := y3\<rparr>) = num_ok c" "num_ok (c\<lparr>h2_hdr_trailer := y4\<rparr>) = num_ok c"
  "num_ok (c\<lparr>h2_hdr_end_stream := y5\<rparr>) = num_ok c" "num_ok (c\<lparr>h2_preface_got := y8\<rparr>) = num_ok c"
  "num_ok (c\<lparr>h2_preface_done := y9\<rparr>) = num_ok c" "num_ok (c\<lparr>h2_need_settings := z1\<rparr>) = num_ok c"
  "num_ok (c\<lparr>h2_peer_goaway := z2\<rparr>) = num_ok c" "num_ok (c\<lparr>h2_streams_cap := z3\<rparr>) = num_ok c"
  "num_ok (c\<lparr>h2_streams := z4\<rparr>) = num_ok c" "num_ok (c\<lparr>h2_last_client_id := z5\<rparr>) = num_ok c"
  "num_ok (c\<lparr>h2_open_count := z6\<rparr>) = num_ok c" "num_ok (c\<lparr>h2_total_streams := z7\<rparr>) = num_ok c"
  "num_ok (c\<lparr>h2_rapid_reset := z8\<rparr>) = num_ok c"
  by (simp_all add: num_ok_def)

lemma num_ok_out [h2_upd]: "num_ok c \<Longrightarrow> zb_wf o1 \<Longrightarrow> num_ok (c\<lparr>h2_out := o1\<rparr>)"
  by (simp add: num_ok_def)

lemma num_ok_outD: "num_ok c \<Longrightarrow> zb_wf (h2_out c)"
  by (simp add: num_ok_def)

lemma win_ok_err: "win_ok err i s \<Longrightarrow> win_ok True i s"
  by (simp add: win_ok_def)

lemma tab_ok_error: "tab_ok c \<Longrightarrow> tab_ok (c\<lparr>h2_got_error := True\<rparr>)"
  by (auto simp: tab_ok_def entry_ok_def count_ok_def of_bool_def intro: win_ok_err split: if_splits)

lemma num_ok_error: "num_ok c \<Longrightarrow> num_ok (c\<lparr>h2_got_error := True\<rparr>)"
  by (auto simp: num_ok_def of_bool_def split: if_splits)

lemma base_ok_error: "base_ok lim c \<Longrightarrow> base_ok lim (c\<lparr>h2_got_error := True\<rparr>)"
  by (simp add: base_ok_def tab_ok_error num_ok_error)

lemma wf_error: "h2_wf lim c \<Longrightarrow> h2_wf lim (c\<lparr>h2_got_error := True\<rparr>)"
  by (simp add: h2_wf_def tab_ok_error num_ok_error blk_ok_def)

text \<open>Queued frames and errors.\<close>

lemma wire_eq_base: "wire_eq c c' \<Longrightarrow> base_ok lim c \<Longrightarrow> base_ok lim c'"
  unfolding wire_eq_def base_ok_def by (auto simp: h2_upd num_ok_outD)

lemma wire_eq_wf: "wire_eq c c' \<Longrightarrow> h2_wf lim c \<Longrightarrow> h2_wf lim c'"
  unfolding wire_eq_def h2_wf_def by (auto simp: h2_upd num_ok_outD blk_ok_def)

lemma q_goaway_shape:
  "\<exists>o1 b. q_goaway env c code = c\<lparr>h2_out := o1, h2_oom := b, h2_goaway_sent := True\<rparr> \<and>
     (zb_wf (h2_out c) \<longrightarrow> zb_wf o1) \<and> (h2_oom c \<longrightarrow> b)"
proof (cases "h2_goaway_sent c")
  case True
  then have "q_goaway env c code = c\<lparr>h2_out := h2_out c, h2_oom := h2_oom c, h2_goaway_sent := True\<rparr>"
    by (simp add: q_goaway_def)
  then show ?thesis by blast
next
  case False
  from h2_queue_wire [of c env 8 7 0 0 "Some (wr32 (h2_last_client_id c) @ wr32 code)"] obtain o1 b where
    q: "h2_queue env c 8 7 0 0 (Some (wr32 (h2_last_client_id c) @ wr32 code)) = c\<lparr>h2_out := o1, h2_oom := b\<rparr>"
    "zb_wf (h2_out c) \<longrightarrow> zb_wf o1" "h2_oom c \<longrightarrow> b" unfolding wire_eq_def by blast
  then have "q_goaway env c code = c\<lparr>h2_out := o1, h2_oom := b, h2_goaway_sent := True\<rparr>"
    using False by (simp add: q_goaway_def)
  with q(2,3) show ?thesis by blast
qed

lemma conn_error_shape:
  "\<exists>o1 b. conn_error env c code =
     c\<lparr>h2_got_error := True, h2_out := o1, h2_oom := b, h2_goaway_sent := True, h2_closing := True\<rparr> \<and>
     (zb_wf (h2_out c) \<longrightarrow> zb_wf o1) \<and> (h2_oom c \<longrightarrow> b)"
proof -
  from q_goaway_shape [of env c code] obtain o1 b where
    q: "q_goaway env c code = c\<lparr>h2_out := o1, h2_oom := b, h2_goaway_sent := True\<rparr>"
      "zb_wf (h2_out c) \<longrightarrow> zb_wf o1" "h2_oom c \<longrightarrow> b" by blast
  then have "conn_error env c code =
     c\<lparr>h2_got_error := True, h2_out := o1, h2_oom := b, h2_goaway_sent := True, h2_closing := True\<rparr>"
    by (simp add: conn_error_def)
  with q show ?thesis by blast
qed

lemma conn_error_base:
  assumes "base_ok lim (c\<lparr>h2_got_error := True\<rparr>)"
  shows "base_ok lim (conn_error env c code)"
proof -
  from conn_error_shape [of env c code] obtain o1 b where
    e: "conn_error env c code = c\<lparr>h2_got_error := True, h2_out := o1, h2_oom := b, h2_goaway_sent := True, h2_closing := True\<rparr>"
      "zb_wf (h2_out c) \<longrightarrow> zb_wf o1" by blast
  moreover have "zb_wf (h2_out c)" using assms by (simp add: base_ok_def num_ok_def)
  ultimately show ?thesis using assms by (simp add: base_ok_def h2_upd)
qed

lemma conn_error_wf:
  assumes "h2_wf lim (c\<lparr>h2_got_error := True\<rparr>)"
  shows "h2_wf lim (conn_error env c code)"
proof -
  from conn_error_shape [of env c code] obtain o1 b where
    e: "conn_error env c code = c\<lparr>h2_got_error := True, h2_out := o1, h2_oom := b, h2_goaway_sent := True, h2_closing := True\<rparr>"
      "zb_wf (h2_out c) \<longrightarrow> zb_wf o1" by blast
  moreover have "zb_wf (h2_out c)" using assms by (simp add: h2_wf_def num_ok_def)
  moreover have "blk_ok (conn_error env c code)" using assms by (simp add: e h2_wf_def blk_ok_def)
  ultimately show ?thesis using assms by (simp add: h2_wf_def h2_upd)
qed

lemma q_goaway_base: "base_ok lim c \<Longrightarrow> base_ok lim (q_goaway env c code)"
  using q_goaway_shape [of env c code] by (auto simp: base_ok_def h2_upd num_ok_outD)

lemmas base_queue =
  wire_eq_base [OF q_rst_wire] wire_eq_base [OF q_window_update_wire]
  wire_eq_base [OF q_settings_ack_wire] wire_eq_base [OF q_ping_ack_wire]
  conn_error_base [OF base_ok_error]
subsection \<open>Changes to the table\<close>

lemma entry_ok_upd [h2_upd]:
  "entry_ok (c\<lparr>h2_streams := x1\<rparr>) = entry_ok c" "entry_ok (c\<lparr>h2_open_count := x2\<rparr>) = entry_ok c"
  "entry_ok (c\<lparr>h2_rapid_reset := x3\<rparr>) = entry_ok c" "entry_ok (c\<lparr>h2_total_streams := x4\<rparr>) = entry_ok c"
  by (auto simp: entry_ok_def fun_eq_iff)

lemma upd_stream_base:
  assumes "base_ok lim c"
    and "\<And>s. s \<in> set (h2_streams c) \<Longrightarrow> s2_id s = sid \<Longrightarrow> entry_ok c s \<Longrightarrow> entry_ok c (f s) \<and> s2_id (f s) = sid"
  shows "base_ok lim (upd_stream c sid f)"
proof -
  let ?g = "\<lambda>s. if s2_id s = sid then f s else s"
  have tab: "tab_ok c" using assms(1) by (simp add: base_ok_def)
  have ids: "map s2_id (map ?g (h2_streams c)) = map s2_id (h2_streams c)"
    using assms(2) tab by (auto simp: tab_ok_def)
  have "\<forall>s \<in> set (map ?g (h2_streams c)). entry_ok c s" using assms(2) tab by (auto simp: tab_ok_def)
  then have "tab_ok (upd_stream c sid f)"
    using tab unfolding tab_ok_def upd_stream_def by (simp add: h2_upd count_ok_def ids del: map_map set_map)
  then show ?thesis using assms(1) by (simp add: base_ok_def h2_upd upd_stream_def)
qed

lemma unat_pred: "0 < unat (w :: u32) \<Longrightarrow> unat (w - 1) = unat w - 1"
  by (simp add: unat_minus_one unat_gt_0)

lemma stream_close_tab:
  assumes "tab_ok c" "i < length (h2_streams c)"
  shows "tab_ok (stream_close c i)"
proof -
  have ids: "distinct (map s2_id (h2_streams c))" using assms(1) by (simp add: tab_ok_def)
  have "distinct (map s2_id (h2_streams (stream_close c i)))"
    using ids assms(2) by (simp add: stream_close_streams map_swap_remove distinct_swap_remove)
  moreover have "\<forall>s \<in> set (h2_streams (stream_close c i)). entry_ok c s"
    using set_stream_close [OF ids assms(2)] assms(1) by (auto simp: tab_ok_def)
  moreover have "count_ok (stream_close c i)"
  proof -
    have len: "length (h2_streams (stream_close c i)) = length (h2_streams c) - 1"
      by (simp add: stream_close_streams)
    have pos: "0 < unat (h2_open_count c)" using assms by (auto simp: tab_ok_def count_ok_def)
    then have "unat (h2_open_count (stream_close c i)) = unat (h2_open_count c) - 1"
      using unat_pred [OF pos] by (auto simp: stream_close_def)
    with len assms show ?thesis by (auto simp: tab_ok_def count_ok_def stream_close_def)
  qed
  ultimately show ?thesis by (simp add: tab_ok_def) (simp add: stream_close_def h2_upd)
qed

lemma stream_close_base: "base_ok lim c \<Longrightarrow> i < length (h2_streams c) \<Longrightarrow> base_ok lim (stream_close c i)"
  using stream_close_tab by (simp add: base_ok_def) (simp add: stream_close_def h2_upd)

text \<open>A reset by the peer: the counter goes up as the stream goes.\<close>

lemma unat_succ: "unat (w :: u32) < 2 ^ 31 \<Longrightarrow> unat (w + 1) = unat w + 1"
  by (subst unat_plus_simple [THEN iffD1]) (auto simp: word_le_nat_alt unat_word_ariths)

lemma rapid_close_tab:
  assumes "tab_ok c" "i < length (h2_streams c)" "\<not> h2_got_error c"
  shows "tab_ok ((stream_close c i)\<lparr>h2_rapid_reset := h2_rapid_reset c + 1, h2_got_error := True\<rparr>)"
    and "unat (h2_rapid_reset c + 1) \<le> max_streams (h2_lim c) \<Longrightarrow>
      tab_ok ((stream_close c i)\<lparr>h2_rapid_reset := h2_rapid_reset c + 1\<rparr>)"
proof -
  have tab: "tab_ok (stream_close c i)" by (rule stream_close_tab [OF assms(1,2)])
  have len: "length (h2_streams (stream_close c i)) = length (h2_streams c) - 1"
    by (simp add: stream_close_streams)
  have bound: "unat (h2_rapid_reset c) + length (h2_streams c) \<le> unat (h2_total_streams c)"
    "2 * unat (h2_total_streams c) \<le> unat (h2_last_client_id c) + 1" "unat (h2_last_client_id c) < 2 ^ 31"
    "unat (h2_rapid_reset c) \<le> max_streams (h2_lim c)"
    using assms(1,3) by (auto simp: tab_ok_def count_ok_def)
  then have suc: "unat (h2_rapid_reset c + 1) = unat (h2_rapid_reset c) + 1"
    by (intro unat_succ) auto
  have sc: "h2_total_streams (stream_close c i) = h2_total_streams c" "h2_lim (stream_close c i) = h2_lim c"
    "h2_got_error (stream_close c i) = h2_got_error c" "h2_rapid_reset (stream_close c i) = h2_rapid_reset c"
    by (simp_all add: stream_close_def)
  show "tab_ok ((stream_close c i)\<lparr>h2_rapid_reset := h2_rapid_reset c + 1\<rparr>)"
    if "unat (h2_rapid_reset c + 1) \<le> max_streams (h2_lim c)"
    using tab that bound(1) len assms(2) unfolding tab_ok_def by (auto simp: count_ok_def sc suc h2_upd)
  show "tab_ok ((stream_close c i)\<lparr>h2_rapid_reset := h2_rapid_reset c + 1, h2_got_error := True\<rparr>)"
    using tab_ok_error [OF tab] bound(1,4) len assms(2) unfolding tab_ok_def
    by (auto simp: count_ok_def sc suc entry_ok_def)
qed
lemma close_found_base: "base_ok lim c \<Longrightarrow> base_ok lim (close_found c sid)"
  using close_found_cases [of c sid] stream_close_base by auto

lemma rst_stream_base: "base_ok lim c \<Longrightarrow> base_ok lim (rst_stream env c sid code)"
  by (simp add: rst_stream_def close_found_base base_queue)

text \<open>A stream written to, for the fields no other part of the invariant reads.\<close>

lemma entry_wf: "entry_ok c s \<Longrightarrow> stream_wf (h2_lim c) s"
  by (simp add: entry_ok_def)

lemma entry_ok_field:
  assumes "entry_ok c s" "s2_id s' = s2_id s" "s2_send_window s' = s2_send_window s" "stream_wf (h2_lim c) s'"
  shows "entry_ok c s'"
  using assms by (simp add: entry_ok_def win_ok_def)

lemma find_entry: "base_ok lim c \<Longrightarrow> find_stream c sid = Some st \<Longrightarrow> entry_ok c st"
  by (auto simp: base_ok_def tab_ok_def dest: find_stream_Some)

lemma num_ok_recv: "num_ok c \<Longrightarrow> 49151 < w \<Longrightarrow> w \<le> 65535 \<Longrightarrow> num_ok (c\<lparr>h2_recv_window := w\<rparr>)"
  by (simp add: num_ok_def)

lemma base_ok_recv: "base_ok lim c \<Longrightarrow> 49151 < w \<Longrightarrow> w \<le> 65535 \<Longrightarrow> base_ok lim (c\<lparr>h2_recv_window := w\<rparr>)"
  by (simp add: base_ok_def h2_upd num_ok_recv)

lemma upd_field_base:
  assumes "base_ok lim c"
    and "\<And>s. s2_id s = sid \<Longrightarrow> s \<in> set (h2_streams c) \<Longrightarrow> stream_wf lim s \<Longrightarrow>
      stream_wf lim (f s) \<and> s2_id (f s) = s2_id s \<and> s2_send_window (f s) = s2_send_window s"
  shows "base_ok lim (upd_stream c sid f)"
proof (rule upd_stream_base [OF assms(1)])
  fix s
  assume s: "s \<in> set (h2_streams c)" "s2_id s = sid" "entry_ok c s"
  have "h2_lim c = lim" using assms(1) by (simp add: base_ok_def)
  with assms(2) [OF s(2,1)] entry_wf [OF s(3)] entry_ok_field [OF s(3)] s(2)
  show "entry_ok c (f s) \<and> s2_id (f s) = sid" by simp
qed

lemma recv_window_base:
  assumes "base_ok lim c" "49151 < w" "w \<le> 65535"
  shows "base_ok lim (upd_stream c sid (\<lambda>s. s\<lparr>s2_recv_window := w\<rparr>))"
  using assms by (intro upd_field_base) (simp_all add: stream_wf_def)

lemma recv_consume_conn_base: "base_ok lim c \<Longrightarrow> base_ok lim (recv_consume_conn env c len)"
proof -
  assume c: "base_ok lim c"
  then have "h2_recv_window c - int len \<le> 65535" by (simp add: base_ok_def num_ok_def)
  with c show ?thesis by (auto simp: recv_consume_conn_def Let_def intro!: base_ok_recv base_queue)
qed

lemma recv_consume_stream_base:
  assumes "base_ok lim c"
  shows "base_ok lim (recv_consume_stream env c sid len)"
proof (cases "find_stream c sid")
  case None
  with assms show ?thesis by (simp add: recv_consume_stream_def)
next
  case (Some s)
  have "s2_recv_window s \<le> 65535" using entry_wf [OF find_entry [OF assms Some]] by (simp add: stream_wf_def)
  with assms Some show ?thesis
    by (auto simp: recv_consume_stream_def Let_def intro!: recv_window_base base_queue)
qed

lemma recv_consume_base: "base_ok lim c \<Longrightarrow> base_ok lim (recv_consume env c st len stream_open)"
  by (cases st) (simp_all add: recv_consume_def Let_def recv_consume_conn_base recv_consume_stream_base)

text \<open>A write to a stream that is reset at once is not seen.\<close>

lemma q_rst_upd: "q_rst env (upd_stream c sid f) i code = upd_stream (q_rst env c i code) sid f"
  by (auto simp: q_rst_def h2_queue_def h2_frame_def upd_stream_def split: prod.splits)

lemma index_of_map: "map s2_id ss = map s2_id ss' \<Longrightarrow> index_of sid ss = index_of sid ss'"
proof (induction ss arbitrary: ss')
  case (Cons s ss)
  then show ?case by (cases ss') fastforce+
qed simp

lemma close_upd:
  assumes "distinct (map s2_id (h2_streams c))" "\<And>s. s2_id (f s) = s2_id s"
  shows "close_found (upd_stream c sid f) sid = close_found c sid"
proof -
  let ?g = "\<lambda>s. if s2_id s = sid then f s else s"
  have ids: "map s2_id (map ?g (h2_streams c)) = map s2_id (h2_streams c)" using assms(2) by simp
  have idx: "find_index (upd_stream c sid f) sid = find_index c sid"
    using index_of_map [OF ids] by (simp add: find_index_def upd_stream_def)
  show ?thesis
  proof (cases "find_index c sid")
    case None
    then have "map ?g (h2_streams c) = h2_streams c"
      unfolding find_index_def index_of_None by (intro map_idI) auto
    with idx None show ?thesis by (simp add: close_found_def upd_stream_def)
  next
    case (Some i)
    then have i: "i < length (h2_streams c)" "s2_id (h2_streams c ! i) = sid"
      using index_of_Some by (auto simp: find_index_def)
    have "map ?g (swap_remove i (h2_streams c)) = swap_remove i (h2_streams c)"
      using set_stream_close [OF assms(1) i(1)] i(2) by (intro map_idI) (auto simp: stream_close_streams)
    then have "swap_remove i (map ?g (h2_streams c)) = swap_remove i (h2_streams c)"
      using map_swap_remove [OF i(1), of ?g] by simp
    with idx Some show ?thesis by (simp add: close_found_def stream_close_def upd_stream_def swap_remove_def)
  qed
qed

lemma rst_upd:
  assumes "base_ok lim c" "\<And>s. s2_id (f s) = s2_id s"
  shows "rst_stream env (upd_stream c sid f) sid code = rst_stream env c sid code"
proof -
  have "base_ok lim (q_rst env c sid code)" using assms(1) by (rule base_queue)
  then have "distinct (map s2_id (h2_streams (q_rst env c sid code)))" by (simp add: base_ok_def tab_ok_def)
  then show ?thesis unfolding rst_stream_def q_rst_upd by (rule close_upd) (rule assms(2))
qed

subsection \<open>Handlers outside header blocks\<close>

lemma on_priority_base: "base_ok lim c \<Longrightarrow> base_ok lim (h2_on_priority env c sid len)"
  by (simp add: h2_on_priority_def base_queue)

lemma on_goaway_base: "base_ok lim c \<Longrightarrow> base_ok lim (h2_on_goaway env c sid len)"
  by (simp add: h2_on_goaway_def base_queue) (simp add: base_ok_def h2_upd)

lemma on_ping_base: "base_ok lim c \<Longrightarrow> base_ok lim (fst (h2_on_ping env c fl sid payload n))"
  by (simp add: h2_on_ping_def base_queue)

lemma on_rst_base:
  assumes "base_ok lim c" "\<not> h2_got_error c"
  shows "base_ok lim (h2_on_rst_stream env c sid len)"
proof (cases "find_index c sid")
  case None
  with assms show ?thesis by (simp add: h2_on_rst_stream_def base_queue)
next
  case (Some i)
  then have i: "i < length (h2_streams c)" by (auto simp: find_index_def dest: index_of_Some)
  let ?r = "(stream_close c i)\<lparr>h2_rapid_reset := h2_rapid_reset c + 1\<rparr>"
  have r: "stream_close (c\<lparr>h2_rapid_reset := h2_rapid_reset c + 1\<rparr>) i = ?r" by (simp add: stream_close_def)
  have f: "h2_lim ?r = lim" "num_ok ?r" "\<not> h2_hdr_active ?r" "h2_lim c = lim" "tab_ok c"
    using assms(1) by (auto simp: base_ok_def stream_close_def h2_upd)
  have bad: "base_ok lim (conn_error env ?r code)" for code
    using f rapid_close_tab(1) [OF f(5) i assms(2)] num_ok_error [OF f(2)]
    by (intro conn_error_base) (simp add: base_ok_def h2_upd)
  have good: "base_ok lim ?r" if "unat (h2_rapid_reset c + 1) \<le> max_streams lim"
    using f rapid_close_tab(2) [OF f(5) i assms(2)] that by (simp add: base_ok_def)
  have plain: "base_ok lim (stream_close c i)" by (rule stream_close_base [OF assms(1) i])
  show ?thesis
  proof (cases "s2_responded (h2_streams c ! i)")
    case True
    with plain assms show ?thesis by (simp add: h2_on_rst_stream_def Some Let_def base_queue)
  next
    case False
    with r bad good f show ?thesis by (auto simp: h2_on_rst_stream_def Some Let_def not_less base_queue assms)
  qed
qed

lemma on_window_update_base:
  assumes "base_ok lim c" "\<not> h2_got_error c"
  shows "base_ok lim (h2_on_window_update env c sid payload)"
proof -
  define incr where "incr = uint (rd32 payload AND 0x7fffffff)"
  have "rd32 payload AND 0x7fffffff \<le> 0x7fffffff" by (simp add: word_and_le1)
  then have i: "0 \<le> incr" "incr \<le> 0x7fffffff"
    unfolding incr_def word_le_def by simp_all
  have f: "h2_lim c = lim" "num_ok c" "tab_ok c" "\<not> h2_hdr_active c" "h2_send_window c \<le> 0x7fffffff"
    using assms by (auto simp: base_ok_def num_ok_def)
  let ?c = "c\<lparr>h2_send_window := h2_send_window c + incr\<rparr>"
  have conn: "base_ok lim ?c" if "h2_send_window c + incr \<le> 0x7fffffff"
    using f i that by (auto simp: base_ok_def h2_upd num_ok_def)
  have "num_ok (?c\<lparr>h2_got_error := True\<rparr>)" using f i by (auto simp: num_ok_def of_bool_def split: if_splits)
  moreover have "tab_ok (?c\<lparr>h2_got_error := True\<rparr>)" using tab_ok_error [of ?c] f by (simp add: h2_upd)
  ultimately have conn_err: "base_ok lim (conn_error env ?c code)" for code
    using f by (intro conn_error_base) (simp add: base_ok_def)
  have st: "base_ok lim (if s2_send_window st + incr > 0x7fffffff
      then rst_stream env (upd_stream c sid (\<lambda>s. s\<lparr>s2_send_window := s2_send_window s + incr\<rparr>)) sid 3
      else upd_stream c sid (\<lambda>s. s\<lparr>s2_send_window := s2_send_window s + incr\<rparr>))"
    if st: "find_stream c sid = Some st" for st
  proof (cases "s2_send_window st + incr > 0x7fffffff")
    case True
    with assms(1) rst_upd [OF assms(1), of "\<lambda>s. s\<lparr>s2_send_window := s2_send_window s + incr\<rparr>"] show ?thesis
      by (simp add: rst_stream_base)
  next
    case False
    have "base_ok lim (upd_stream c sid (\<lambda>s. s\<lparr>s2_send_window := s2_send_window s + incr\<rparr>))"
    proof (rule upd_stream_base [OF assms(1)])
      fix s
      assume s: "s \<in> set (h2_streams c)" "s2_id s = sid" "entry_ok c s"
      have "s = st" using find_stream_eq [OF _ s(1,2)] f(3) st by (simp add: tab_ok_def)
      with s False i assms(2) show "entry_ok c (s\<lparr>s2_send_window := s2_send_window s + incr\<rparr>) \<and>
          s2_id (s\<lparr>s2_send_window := s2_send_window s + incr\<rparr>) = sid"
        by (auto simp: entry_ok_def win_ok_def stream_wf_def)
    qed
    with False show ?thesis by simp
  qed
  show ?thesis
    using conn conn_err st assms
    by (auto simp: h2_on_window_update_def Let_def base_queue rst_stream_base simp flip: incr_def split: option.splits)
qed
lemma retarget_spec:
  assumes "retarget d ss = (ok, ss')"
  shows "list_all2 (\<lambda>s s'. s' = s \<and> \<not> ok \<or> s' = s\<lparr>s2_send_window := s2_send_window s + d\<rparr> \<and>
    (ok \<longrightarrow> s2_send_window s + d \<le> 0x7fffffff)) ss ss'"
  using assms
proof (induction ss arbitrary: ss' ok)
  case (Cons s ss)
  show ?case
  proof (cases "s2_send_window s + d > 0x7fffffff")
    case True
    with Cons.prems have "ok = False" "ss' = s\<lparr>s2_send_window := s2_send_window s + d\<rparr> # ss" by auto
    then show ?thesis by (simp add: list.rel_refl)
  next
    case False
    obtain ok1 ss1 where r: "retarget d ss = (ok1, ss1)" by fastforce
    with False Cons.prems have "ok = ok1" "ss' = s\<lparr>s2_send_window := s2_send_window s + d\<rparr> # ss1" by auto
    with Cons.IH [OF r] False show ?thesis by simp
  qed
qed simp

lemma retarget_tab:
  assumes "tab_ok c" "num_ok c" "\<not> h2_got_error c" "uint val \<le> 0x7fffffff"
    and r: "retarget (uint val - uint (h2_peer_initial_window c)) (h2_streams c) = (ok, ss)"
  shows "if ok then tab_ok (c\<lparr>h2_streams := ss, h2_peer_initial_window := val\<rparr>)
    else tab_ok (c\<lparr>h2_streams := ss, h2_got_error := True\<rparr>)"
proof -
  let ?d = "uint val - uint (h2_peer_initial_window c)"
  note spec = retarget_spec [OF r]
  have ids: "map s2_id ss = map s2_id (h2_streams c)" "length ss = length (h2_streams c)"
    using spec by (auto simp: list_all2_conv_all_nth intro!: nth_equalityI)
  have piw: "uint (h2_peer_initial_window c) \<le> 0x7fffffff" using assms(2) by (simp add: num_ok_def)
  have ent: "(if ok then entry_ok (c\<lparr>h2_peer_initial_window := val\<rparr>) s' else entry_ok (c\<lparr>h2_got_error := True\<rparr>) s')"
    if s': "s' \<in> set ss" for s'
  proof -
    from s' obtain i where i: "i < length ss" "s' = ss ! i" by (auto simp: in_set_conv_nth)
    define s where "s = h2_streams c ! i"
    have s: "entry_ok c s" using assms(1) i ids(2) by (simp add: tab_ok_def s_def)
    have "s' = s \<and> \<not> ok \<or> s' = s\<lparr>s2_send_window := s2_send_window s + ?d\<rparr> \<and>
        (ok \<longrightarrow> s2_send_window s + ?d \<le> 0x7fffffff)"
      using spec i ids(2) unfolding s_def by (simp add: list_all2_conv_all_nth)
    then consider "s' = s" "\<not> ok" | "s' = s\<lparr>s2_send_window := s2_send_window s + ?d\<rparr>" "ok \<longrightarrow> s2_send_window s + ?d \<le> 0x7fffffff"
      by blast
    then show ?thesis
    proof cases
      case 1
      with s show ?thesis by (simp add: entry_ok_def win_ok_def)
    next
      case 2
      have "stream_wf (h2_lim c) s'" using s 2(1) by (simp add: entry_ok_def stream_wf_def)
      moreover have w: "uint (h2_peer_initial_window c) - 0x7fffffff \<le> s2_send_window s" "s2_send_window s \<le> 0x7fffffff"
        using s assms(3) by (simp_all add: entry_ok_def win_ok_def)
      moreover have "\<bar>s2_send_window s + ?d\<bar> \<le> 4294967296" "uint val - 0x7fffffff \<le> s2_send_window s + ?d"
        using w assms(4) piw uint_nonnegative [of val] uint_nonnegative [of "h2_peer_initial_window c"]
        unfolding abs_le_iff by linarith+
      ultimately show ?thesis using s 2 by (simp add: entry_ok_def win_ok_def)
    qed
  qed
  have "count_ok c" using assms(1) by (simp add: tab_ok_def)
  then have cnt: "count_ok (c\<lparr>h2_streams := ss, h2_peer_initial_window := val\<rparr>)"
      "count_ok (c\<lparr>h2_streams := ss, h2_got_error := True\<rparr>)"
    using ids(2) assms(3) by (simp_all add: count_ok_def)
  have "distinct (map s2_id ss)" using ids assms(1) by (simp add: tab_ok_def)
  with ent cnt show ?thesis by (cases ok) (auto simp: tab_ok_def entry_ok_def)
qed

lemma setting_base:
  assumes "base_ok lim c" "\<not> h2_got_error c" "h2_setting env c sid val = (ok, c')"
  shows "base_ok lim c' \<and> (ok \<longrightarrow> \<not> h2_got_error c')"
proof -
  have f: "tab_ok c" "num_ok c" "h2_lim c = lim" "\<not> h2_hdr_active c" using assms(1) by (auto simp: base_ok_def)
  consider (win) "sid = 4" "uint val \<le> 0x7fffffff" | (frame) "sid = 5" "16384 \<le> val" "val \<le> 16777215"
    | (other) "ok" "c' = c" | (err) code where "\<not> ok" "c' = conn_error env c code"
  proof (cases "sid = 2 \<or> sid = 4 \<or> sid = 5")
    case False
    with assms(3) other show ?thesis by (simp add: h2_setting_def)
  next
    case True
    then consider "sid = 2" | "sid = 4" | "sid = 5" by blast
    then show ?thesis
    proof cases
      case 1
      with assms(3) other err show ?thesis by (cases "val > 1") (auto simp: h2_setting_def)
    next
      case 2
      with assms(3) win err show ?thesis by (cases "uint val > 0x7fffffff") (auto simp: h2_setting_def)
    next
      case 3
      with assms(3) frame err show ?thesis
        by (cases "val < 16384 \<or> val > 16777215") (auto simp: h2_setting_def not_less)
    qed
  qed
  then show ?thesis
  proof cases
    case err
    with assms(1) show ?thesis by (simp add: base_queue)
  next
    case other
    with assms show ?thesis by simp
  next
    case frame
    then have "ok" "c' = c\<lparr>h2_peer_max_frame := val\<rparr>" using assms(3) by (auto simp: h2_setting_def not_less [symmetric])
    moreover have "16384 \<le> unat val" "unat val \<le> 16777215" using frame by (simp_all add: word_le_nat_alt)
    ultimately show ?thesis using f assms(2) by (simp add: base_ok_def h2_upd num_ok_def)
  next
    case win
    obtain okr ss where r: "retarget (uint val - uint (h2_peer_initial_window c)) (h2_streams c) = (okr, ss)" by fastforce
    note tab = retarget_tab [OF f(1,2) assms(2) win(2) r]
    show ?thesis
    proof (cases okr)
      case True
      then have "ok" "c' = c\<lparr>h2_streams := ss, h2_peer_initial_window := val\<rparr>"
        using assms(3) win r by (simp_all add: h2_setting_def)
      with True win tab f assms(2) show ?thesis by (simp add: base_ok_def num_ok_def)
    next
      case False
      then have "\<not> ok" "c' = conn_error env (c\<lparr>h2_streams := ss\<rparr>) 3"
        using assms(3) win r by (simp_all add: h2_setting_def)
      moreover have "base_ok lim (c\<lparr>h2_streams := ss, h2_got_error := True\<rparr>)"
        using tab f num_ok_error [OF f(2)] False by (simp add: base_ok_def num_ok_def)
      ultimately show ?thesis using conn_error_base [of lim "c\<lparr>h2_streams := ss\<rparr>" env 3] by simp
    qed
  qed
qed

lemma settings_loop_base:
  "base_ok lim c \<Longrightarrow> \<not> h2_got_error c \<Longrightarrow> h2_settings_loop env c p = (ok, c') \<Longrightarrow> base_ok lim c'"
proof (induction env c p arbitrary: c' ok rule: h2_settings_loop.induct)
  case (1 env c a b d e f g rest)
  obtain ok1 c1 where s: "h2_setting env c (rd16 [a, b]) (rd32 [d, e, f, g]) = (ok1, c1)" by fastforce
  from setting_base [OF 1(2,3) s] 1(1) [OF s [symmetric]] 1(4) s show ?case by (cases ok1) auto
qed auto

lemma on_settings_base:
  assumes "base_ok lim c" "\<not> h2_got_error c"
  shows "base_ok lim (fst (h2_on_settings env c fl sid payload n))"
proof -
  obtain ok c1 where l: "h2_settings_loop env c payload = (ok, c1)" by fastforce
  from settings_loop_base [OF assms l] assms(1) show ?thesis by (simp add: h2_on_settings_def l base_queue)
qed
subsection \<open>The header sink keeps its fields acceptable\<close>

lemma decode_loop_sink:
  assumes "zhp_decode_loop alloc emit mx d block n seen nb vb u = (rc, u', d')" "P u"
    and emit: "\<And>u nm vl er u1. P u \<Longrightarrow> emit u nm vl = (er, u1) \<Longrightarrow> P u1"
  shows "P u'"
  using assms(1,2)
proof (induction "length block" arbitrary: d block n seen nb vb u rule: less_induct)
  case less
  show ?case
  proof (cases block)
    case Nil
    with less.prems show ?thesis by (simp add: zhp_decode_loop.simps)
  next
    case (Cons b bs)
    note unfold = zhp_decode_loop.simps [of alloc emit mx d block n seen nb vb u]
    show ?thesis
    proof (cases "hpack_item alloc d b block seen mx nb vb")
      case (Inl e)
      with Cons less.prems unfold show ?thesis by simp
    next
      case (Inr r)
      then obtain it rest nb1 vb1 where it: "hpack_item alloc d b block seen mx nb vb = Inr (it, rest, nb1, vb1)"
        by (metis prod_cases4)
      note shorter = hpack_item_consumes [OF it]
      show ?thesis
      proof (cases it)
        case (HpSize m)
        with less.prems less.hyps [OF shorter] unfold it Cons show ?thesis by simp
      next
        case (HpField nm vl ad)
        obtain er u1 where em: "emit u nm vl = (er, u1)" by fastforce
        note u1 = emit [OF less.prems(2) em]
        obtain r1 d1 where da: "(if ad then dec_add alloc d nm vl else (ZCIO_OK, d)) = (r1, d1)" by fastforce
        consider "u' = u" | "u' = u1"
          | "zhp_decode_loop alloc emit mx d1 rest (n + length nm + length vl) True nb1 vb1 u1 = (rc, u', d')"
          using less.prems(1) unfold it HpField Cons em da by (auto split: if_splits)
        then show ?thesis using less.prems(2) u1 less.hyps [OF shorter] by cases blast+
      qed
    qed
  qed
qed

definition sink_ok :: "zhs_limits \<Rightarrow> zh2_hdrctx \<Rightarrow> bool" where
  "sink_ok lim x \<longleftrightarrow> hdrs_wf lim (hx_headers x) \<and> list_all field_ok (hs_v (hx_headers x))"

lemma sink_ok_upd [simp]:
  "sink_ok lim (x\<lparr>hx_herr := e\<rparr>) = sink_ok lim x" "sink_ok lim (x\<lparr>hx_seen_regular := b\<rparr>) = sink_ok lim x"
  "sink_ok lim (x\<lparr>hx_method := v\<rparr>) = sink_ok lim x" "sink_ok lim (x\<lparr>hx_scheme := v\<rparr>) = sink_ok lim x"
  "sink_ok lim (x\<lparr>hx_path := v\<rparr>) = sink_ok lim x" "sink_ok lim (x\<lparr>hx_authority := v\<rparr>) = sink_ok lim x"
  by (simp_all add: sink_ok_def)

lemma hx_slot_sink:
  "hx_slot alloc x slot v set_slot = (er, x') \<Longrightarrow> sink_ok lim x \<Longrightarrow> sink_ok lim (set_slot (Some v)) \<Longrightarrow> sink_ok lim x'"
  by (auto simp: hx_slot_def hx_malformed_def split: if_splits)

lemma emit_regular:
  assumes "sink_ok lim x" "field_ok (name, value)" "zhs_hdrs_add alloc (hx_headers x) name value lim False = (r, h)"
  shows "sink_ok lim (x\<lparr>hx_headers := h\<rparr>)"
  using hdrs_add_wf [OF _ assms(3)] hdrs_add_cases [OF assms(3)] assms(1,2) by (simp add: sink_ok_def)

lemma emit_sink:
  assumes "sink_ok lim x" "h2_emit alloc lim x name value = (er, x')"
  shows "sink_ok lim x'"
proof (cases "name \<noteq> [] \<and> hd name = 0x3A")
  case True
  with assms show ?thesis
    by (auto simp: h2_emit_def hx_malformed_def elim!: hx_slot_sink split: if_splits)
next
  case False
  let ?x = "x\<lparr>hx_seen_regular := True\<rparr>"
  show ?thesis
  proof (cases "field_ok (name, value) \<and> \<not> hx_trailer x")
    case False': False
    with False assms show ?thesis
      by (auto simp: h2_emit_def hx_malformed_def field_ok_def nm_eq_def Let_def split: if_splits)
  next
    case True
    obtain r h where a: "zhs_hdrs_add alloc (hx_headers ?x) name value lim False = (r, h)" by fastforce
    from emit_regular [OF _ _ a] assms(1) True have "sink_ok lim (?x\<lparr>hx_headers := h\<rparr>)" by simp
    with True False a assms(2) show ?thesis
      by (auto simp: h2_emit_def hx_malformed_def field_ok_def nm_eq_def Let_def split: if_splits)
  qed
qed

lemma decode_sink:
  assumes "zhp_decode alloc d block mx (h2_emit alloc lim) (hdrctx_zero t) = (rc, x, d')" "dec_wf d"
  shows "sink_ok lim x \<and> dec_wf d'"
proof
  note loop = assms(1) [unfolded zhp_decode_def]
  show "dec_wf d'" by (rule decode_loop_invariant [OF loop assms(2)])
  have "sink_ok lim (hdrctx_zero t)" by (simp add: sink_ok_def hdrctx_zero_def zhs_hdrs_zero_def hdrs_wf_def)
  from decode_loop_sink [where P = "sink_ok lim", OF loop this] show "sink_ok lim x" by (blast intro: emit_sink)
qed

subsection \<open>Responding\<close>

text \<open>
  What a protocol module promises of its wire hook: a relation between the connection before and
  after, for the stream of the request, that composes. Dispatching any handler then keeps it.
\<close>

locale respond_owner =
  fixes hook :: "'c respond_hook"
    and keeps :: "int \<Rightarrow> 'c \<Rightarrow> 'c \<Rightarrow> bool"
  assumes keeps_refl: "keeps sid c c"
    and keeps_trans: "keeps sid a b \<Longrightarrow> keeps sid b c \<Longrightarrow> keeps sid a c"
    and hook_keeps: "hook c r status hs body n = (rc, c') \<Longrightarrow> keeps (rq_stream_id r) c c'"
begin

lemma respond_keeps:
  assumes "zcio_http_respond alloc srv clock (Some hook) c r status hs body n = (rc, c', r')"
  shows "keeps (rq_stream_id r) c c' \<and> rq_stream_id r' = rq_stream_id r"
proof (cases "c' = c \<and> r' = r")
  case True
  then show ?thesis by (simp add: keeps_refl)
next
  case False
  with assms have "hook c (r\<lparr>rq_responded := True\<rparr>) status (respond_headers srv clock (rq_secure r) hs) body n = (rc, c')"
    "r' = r\<lparr>rq_responded := True\<rparr>"
    by (auto simp: zcio_http_respond_def Let_def split: if_splits prod.splits)
  with hook_keeps [OF this(1)] show ?thesis by simp
qed

lemma step_keeps:
  assumes "handler_step alloc srv clock hook (\<lambda>c. c) call (c, r, d) = (c', r', d')"
  shows "keeps (rq_stream_id r) c c' \<and> rq_stream_id r' = rq_stream_id r"
proof (cases call)
  case (HRespond status hs body n)
  obtain rc c1 r1 where p: "zcio_http_respond alloc srv clock (Some hook) c r status hs body n = (rc, c1, r1)"
    using prod_cases3 by blast
  with respond_keeps [OF p] assms HRespond show ?thesis by (simp add: handler_step_def)
next
  case (HAccept ok)
  with assms show ?thesis by (auto simp: handler_step_def keeps_refl split: if_splits)
qed

lemma steps_keep:
  "fold (handler_step alloc srv clock hook (\<lambda>c. c)) calls (c, r, d) = (c', r', d') \<Longrightarrow>
     keeps (rq_stream_id r) c c' \<and> rq_stream_id r' = rq_stream_id r"
proof (induction calls arbitrary: c r d)
  case Nil
  then show ?case by (simp add: keeps_refl)
next
  case (Cons call calls)
  obtain c1 r1 d1 where s: "handler_step alloc srv clock hook (\<lambda>c. c) call (c, r, d) = (c1, r1, d1)"
    using prod_cases3 by blast
  with step_keeps [OF s] Cons.IH [of c1 r1 d1] Cons.prems show ?case by (auto intro: keeps_trans)
qed

lemma dispatch_keeps:
  assumes "zhs_dispatch alloc srv clock hook (\<lambda>c. c) calls c req = (detached, c', r')"
  shows "keeps (rq_stream_id req) c c'"
proof -
  obtain c1 r1 d1 where f: "fold (handler_step alloc srv clock hook (\<lambda>c. c)) calls (c, req, False) = (c1, r1, d1)"
    using prod_cases3 by blast
  note k = steps_keep [OF f]
  obtain rc c2 r2 where p: "zcio_http_respond alloc srv clock (Some hook) c1 r1 500 [] (Some (asc ''Internal Server Error'')) 21 = (rc, c2, r2)"
    using prod_cases3 by blast
  from respond_keeps [OF p] k have "keeps (rq_stream_id req) c c2" by (auto intro: keeps_trans)
  with assms f p k show ?thesis by (auto simp: zhs_dispatch_def split: if_splits)
qed

end
text \<open>What a response changes: the output, the memory flag, and the response fields of its own stream.\<close>

definition grows :: "zhs_buf \<Rightarrow> zhs_buf \<Rightarrow> bool" where
  "grows b b' \<longleftrightarrow> (zb_wf b \<and> zb_off b = 0 \<longrightarrow> zb_wf b' \<and> zb_off b' = 0 \<and> length (zb_data b) \<le> length (zb_data b'))"

definition resp_erase :: "zh2_stream \<Rightarrow> zh2_stream" where
  "resp_erase s = s\<lparr>s2_responded := False, s2_resp_headers_done := False, s2_resp_end_after_body := False,
     s2_send_done := False, s2_resp_body := zhs_buf_zero\<rparr>"

definition resp_step :: "u32 \<Rightarrow> zh2_stream \<Rightarrow> zh2_stream \<Rightarrow> bool" where
  "resp_step sid s s' \<longleftrightarrow> s' = s \<or> s2_id s = sid \<and> resp_erase s' = resp_erase s \<and> grows (s2_resp_body s) (s2_resp_body s')"

definition resp_keeps :: "int \<Rightarrow> zh2_conn \<Rightarrow> zh2_conn \<Rightarrow> bool" where
  "resp_keeps i c c' \<longleftrightarrow> distinct (map s2_id (h2_streams c)) \<longrightarrow>
     c'\<lparr>h2_out := zhs_buf_zero, h2_oom := False, h2_streams := []\<rparr> = c\<lparr>h2_out := zhs_buf_zero, h2_oom := False, h2_streams := []\<rparr> \<and>
     (zb_wf (h2_out c) \<longrightarrow> zb_wf (h2_out c')) \<and> (h2_oom c \<longrightarrow> h2_oom c') \<and>
     list_all2 (resp_step (word_of_int i)) (h2_streams c) (h2_streams c')"

lemma resp_erase_fields:
  assumes "resp_erase s' = resp_erase s"
  shows "s2_id s' = s2_id s \<and> s2_recv_window s' = s2_recv_window s \<and> s2_got_headers s' = s2_got_headers s \<and>
    s2_end_stream_recv s' = s2_end_stream_recv s \<and> s2_dispatched s' = s2_dispatched s \<and>
    s2_send_window s' = s2_send_window s \<and> s2_body_off s' = s2_body_off s \<and> s2_req s' = s2_req s"
  using assms by (cases s; cases s') (simp add: resp_erase_def)

lemma resp_step_id: "resp_step sid s s' \<Longrightarrow> s2_id s' = s2_id s"
  by (auto simp: resp_step_def dest: resp_erase_fields)

lemma resp_step_trans: "resp_step sid a b \<Longrightarrow> resp_step sid b c \<Longrightarrow> resp_step sid a c"
  by (auto simp: resp_step_def grows_def dest: resp_erase_fields)

lemma resp_step_ids: "list_all2 (resp_step sid) ss ss' \<Longrightarrow> map s2_id ss' = map s2_id ss"
  by (induction rule: list_all2_induct) (auto dest: resp_step_id)

lemma resp_keeps_refl: "resp_keeps i c c"
  by (simp add: resp_keeps_def list.rel_refl resp_step_def)

lemma resp_keeps_trans:
  assumes "resp_keeps i a b" "resp_keeps i b c"
  shows "resp_keeps i a c"
proof -
  have "list_all2 (resp_step (word_of_int i)) (h2_streams a) (h2_streams c)"
    if "list_all2 (resp_step (word_of_int i)) (h2_streams a) (h2_streams b)"
      "list_all2 (resp_step (word_of_int i)) (h2_streams b) (h2_streams c)"
    using list_all2_trans [OF _ that] resp_step_trans by blast
  with assms show ?thesis unfolding resp_keeps_def using resp_step_ids by fastforce
qed

lemma header_frames_shape:
  "h2_header_frames env c sid hb first block = (r, c') \<Longrightarrow>
     \<exists>o1. c' = c\<lparr>h2_out := o1\<rparr> \<and> (zb_wf (h2_out c) \<longrightarrow> zb_wf o1)"
proof (induction env c sid hb first block arbitrary: c' r rule: h2_header_frames.induct)
  case (1 env c sid hb first block)
  let ?chunk = "min (length block) (h2_maxf c)"
  let ?fl = "(if ?chunk = length block then 4 else 0) OR (if first \<and> \<not> hb then 1 else 0)"
  obtain r1 c1 where f: "h2_frame env c (of_nat ?chunk) (if first then 1 else 9) ?fl sid (Some block) = (r1, c1)"
    by fastforce
  from h2_frame_ok [OF f] obtain o1 where o1: "c1 = c\<lparr>h2_out := o1\<rparr>" "zb_wf (h2_out c) \<longrightarrow> zb_wf o1" by blast
  show ?case
  proof (cases "r1 = ZCIO_OK \<and> ?chunk \<noteq> length block")
    case False
    with 1(2) f have "c' = c1" by (subst (asm) h2_header_frames.simps) (auto simp: Let_def split: if_splits)
    with o1 show ?thesis by blast
  next
    case True
    with 1(2) f have "h2_header_frames env c1 sid hb False (drop ?chunk block) = (r, c')"
      by (subst (asm) h2_header_frames.simps) (auto simp: Let_def split: if_splits)
    from 1(1) [OF refl refl refl refl f [symmetric] _ _ this] True o1 show ?thesis by auto
  qed
qed

lemma append_grows: "zhs_buf_append alloc b s = (r, b') \<Longrightarrow> grows b b'"
  using append_ok [of b alloc s r b']
  by (auto simp: grows_def ZHS_PTR_def zhs_buf_append_def zhs_buf_reserve_def Let_def split: if_splits)

text \<open>Two writes to one stream.\<close>

lemma upd_upd: "(\<And>s. s2_id (f s) = s2_id s) \<Longrightarrow> upd_stream (upd_stream c sid f) sid g = upd_stream c sid (\<lambda>s. g (f s))"
  by (auto simp: upd_stream_def)

lemma respond_upd_keeps:
  assumes c1: "c1 = c\<lparr>h2_out := o1\<rparr>" "zb_wf (h2_out c) \<longrightarrow> zb_wf o1"
    and st: "find_stream c sid = Some st" "word_of_int i = sid"
    and f: "resp_erase (f st) = resp_erase st" "grows (s2_resp_body st) (s2_resp_body (f st))"
  shows "resp_keeps i c ((upd_stream c1 sid f)\<lparr>h2_oom := b \<or> h2_oom c\<rparr>)"
proof -
  have "list_all2 (resp_step sid) (h2_streams c) (map (\<lambda>s. if s2_id s = sid then f s else s) (h2_streams c))"
    if "distinct (map s2_id (h2_streams c))"
  proof -
    have "s = st" if "s \<in> set (h2_streams c)" "s2_id s = sid" for s
      using find_stream_eq [OF \<open>distinct _\<close> that] st(1) by simp
    then show ?thesis using f by (auto simp: list.rel_map resp_step_def intro!: list.rel_refl_strong)
  qed
  then show ?thesis using c1 st(2) by (simp add: resp_keeps_def upd_stream_def)
qed

lemma zh2_respond_keeps:
  assumes "zh2_respond env c r status hs body n = (rc, c')"
  shows "resp_keeps (rq_stream_id r) c c'"
proof -
  define sid where "sid = (word_of_int (rq_stream_id r) :: u32)"
  show ?thesis
  proof (cases "find_stream c sid")
    case None
    with assms show ?thesis by (simp add: zh2_respond_def Let_def sid_def resp_keeps_refl)
  next
    case (Some st)
    obtain r1 fb where e: "and_then (zhp_encode_status (he_alloc env) zhs_buf_zero status) (h2_encode_headers (he_alloc env) hs) = (r1, fb)"
      by fastforce
    define hb where "hb = h2_has_body r status body n"
    obtain r2 c1 where f: "h2_header_frames env c sid hb True (zb_data fb) = (r2, c1)" by fastforce
    from header_frames_shape [OF f] obtain o1 where c1: "c1 = c\<lparr>h2_out := o1\<rparr>" "zb_wf (h2_out c) \<longrightarrow> zb_wf o1" by blast
    obtain r3 b where ap: "zhs_buf_append (he_alloc env) (s2_resp_body st) (take n (the body)) = (r3, b)" by fastforce
    note upd = respond_upd_keeps [OF c1 Some sid_def [symmetric]]
    have ids: "upd_stream c1 sid (\<lambda>s. s) = c1" by (simp add: upd_stream_def)
    have oom: "resp_keeps (rq_stream_id r) c (d\<lparr>h2_oom := True\<rparr>)" if "d = c \<or> d = c1" for d
      using that upd [of "\<lambda>s. s" True] c1 resp_keeps_refl [of "rq_stream_id r" c] ids
      by (auto simp: grows_def resp_keeps_def list.rel_refl resp_step_def)
    consider "c' = c" | "c' = c\<lparr>h2_oom := True\<rparr>" | "c' = c1\<lparr>h2_oom := True\<rparr>"
      | "c' = upd_stream (upd_stream c1 sid (\<lambda>s. s\<lparr>s2_resp_headers_done := True, s2_responded := True\<rparr>)) sid (\<lambda>s. s\<lparr>s2_send_done := True\<rparr>)"
      | "c' = (upd_stream (upd_stream c1 sid (\<lambda>s. s\<lparr>s2_resp_headers_done := True, s2_responded := True\<rparr>)) sid (\<lambda>s. s\<lparr>s2_resp_body := b\<rparr>))\<lparr>h2_oom := True\<rparr>"
      | "c' = upd_stream (upd_stream (upd_stream c1 sid (\<lambda>s. s\<lparr>s2_resp_headers_done := True, s2_responded := True\<rparr>)) sid (\<lambda>s. s\<lparr>s2_resp_body := b\<rparr>)) sid (\<lambda>s. s\<lparr>s2_resp_end_after_body := True\<rparr>)"
      using assms Some f ap e unfolding zh2_respond_def Let_def sid_def [symmetric] hb_def [symmetric]
      by (auto split: if_splits)
    then show ?thesis
    proof cases
      case 4
      have "resp_keeps (rq_stream_id r) c ((upd_stream c1 sid (\<lambda>s. s\<lparr>s2_resp_headers_done := True, s2_responded := True, s2_send_done := True\<rparr>))\<lparr>h2_oom := False \<or> h2_oom c\<rparr>)"
        by (rule upd) (simp_all add: resp_erase_def grows_def)
      moreover have "h2_oom c1 = h2_oom c" using c1 by simp
      ultimately show ?thesis using 4 by (simp add: upd_upd) (simp add: upd_stream_def c1)
    next
      case 5
      have "resp_keeps (rq_stream_id r) c ((upd_stream c1 sid (\<lambda>s. s\<lparr>s2_resp_headers_done := True, s2_responded := True, s2_resp_body := b\<rparr>))\<lparr>h2_oom := True \<or> h2_oom c\<rparr>)"
        by (rule upd) (simp_all add: resp_erase_def append_grows [OF ap])
      then show ?thesis using 5 by (simp add: upd_upd)
    next
      case 6
      have "resp_keeps (rq_stream_id r) c ((upd_stream c1 sid (\<lambda>s. s\<lparr>s2_resp_headers_done := True, s2_responded := True, s2_resp_body := b, s2_resp_end_after_body := True\<rparr>))\<lparr>h2_oom := False \<or> h2_oom c\<rparr>)"
        by (rule upd) (simp_all add: resp_erase_def append_grows [OF ap])
      moreover have "h2_oom c1 = h2_oom c" using c1 by simp
      ultimately show ?thesis using 6 by (simp add: upd_upd) (simp add: upd_stream_def c1)
    qed (use resp_keeps_refl oom in simp_all)
  qed
qed

interpretation h2r: respond_owner "zh2_respond env" resp_keeps
  by unfold_locales (fact resp_keeps_refl, erule (1) resp_keeps_trans, erule zh2_respond_keeps)
lemma resp_step_entry: "resp_step sid s s' \<Longrightarrow> entry_ok c s \<Longrightarrow> entry_ok c s'"
  by (auto simp: resp_step_def entry_ok_def stream_wf_def win_ok_def grows_def dest!: resp_erase_fields)

lemma resp_keeps_base:
  assumes "resp_keeps i c c'" "base_ok lim c"
  shows "base_ok lim c'"
proof -
  have dist: "distinct (map s2_id (h2_streams c))" using assms(2) by (simp add: base_ok_def tab_ok_def)
  with assms(1) have k: "c'\<lparr>h2_out := zhs_buf_zero, h2_oom := False, h2_streams := []\<rparr> = c\<lparr>h2_out := zhs_buf_zero, h2_oom := False, h2_streams := []\<rparr>"
    "zb_wf (h2_out c) \<longrightarrow> zb_wf (h2_out c')" and st: "list_all2 (resp_step (word_of_int i)) (h2_streams c) (h2_streams c')"
    by (simp_all add: resp_keeps_def)
  have c': "c' = c\<lparr>h2_out := h2_out c', h2_oom := h2_oom c', h2_streams := h2_streams c'\<rparr>"
    using k(1) by (cases c; cases c') simp
  have tab: "tab_ok c" "num_ok c" "h2_lim c = lim" "\<not> h2_hdr_active c" using assms(2) by (auto simp: base_ok_def)
  have ids: "map s2_id (h2_streams c') = map s2_id (h2_streams c)" "length (h2_streams c') = length (h2_streams c)"
    using resp_step_ids [OF st] list_all2_lengthD [OF st] by simp_all
  have ent: "\<forall>s \<in> set (h2_streams c'). entry_ok c s"
    using st tab(1) resp_step_entry by (fastforce simp: tab_ok_def list_all2_conv_all_nth in_set_conv_nth)
  have "tab_ok (c\<lparr>h2_streams := h2_streams c'\<rparr>)"
    using tab(1) ent ids by (simp add: tab_ok_def h2_upd count_ok_def)
  moreover have "zb_wf (h2_out c')" using k(2) tab(2) by (simp add: num_ok_def)
  ultimately have "base_ok lim (c\<lparr>h2_out := h2_out c', h2_oom := h2_oom c', h2_streams := h2_streams c'\<rparr>)"
    using tab by (simp add: base_ok_def h2_upd tab_ok_def entry_ok_def count_ok_def num_ok_def)
  with c' show ?thesis by simp
qed

subsection \<open>Dispatch\<close>

text \<open>A request the engine may hand to the application.\<close>

definition request2_ok :: "zhs_limits \<Rightarrow> zcio_http_req \<Rightarrow> bool" where
  "request2_ok lim q \<longleftrightarrow> rq_version q = 2 \<and> line_ok q \<and> list_all field_ok (hs_v (rq_headers q)) \<and>
     hdrs_wf lim (rq_headers q) \<and> length (ZHS_PTR (rq_body q)) \<le> max_body_bytes lim"

lemma ready_body:
  assumes "req_wf lim (s2_req st)"
  shows "req_wf lim (h2_ready env c st)" "zb_data (rq_body (h2_ready env c st)) = zb_data (rq_body (s2_req st))"
proof -
  obtain r b where "zhs_buf_reserve (he_alloc env) (rq_body (s2_req st)) 1 = (r, b)" by fastforce
  with reserve_wf [OF _ this] assms
  show "req_wf lim (h2_ready env c st)" "zb_data (rq_body (h2_ready env c st)) = zb_data (rq_body (s2_req st))"
    by (simp_all add: req_wf_def h2_ready_def)
qed

lemma ready_request_ok:
  assumes "stream_wf lim st" "s2_got_headers st" "\<not> s2_dispatched st"
  shows "request2_ok lim (h2_ready env c st)"
proof -
  have "req_wf lim (s2_req st)" using assms(1) by (simp add: stream_wf_def)
  note b = ready_body [OF this, of env c]
  have "rq_headers (h2_ready env c st) = rq_headers (s2_req st)" "line_ok (h2_ready env c st) = line_ok (s2_req st)"
    "rq_version (h2_ready env c st) = 2"
    by (simp_all add: h2_ready_def line_ok_def)
  with b assms show ?thesis by (simp add: request2_ok_def stream_wf_def head_ok_def req_wf_def ZHS_PTR_def)
qed

lemma reap_base: "base_ok lim c \<Longrightarrow> base_ok lim (reap c sid)"
  by (auto simp: reap_def close_found_base split: option.splits)

lemma req_zero_wf: "req_wf lim zhs_req_zero"
  by (simp add: req_wf_def zhs_req_zero_def hdrs_wf_zero zb_wf_def zhs_buf_zero_def)

lemma resp_keeps_stream:
  assumes "resp_keeps i c c'" "distinct (map s2_id (h2_streams c))" "s' \<in> set (h2_streams c')"
  shows "\<exists>s \<in> set (h2_streams c). s2_id s = s2_id s' \<and> s2_dispatched s = s2_dispatched s' \<and> s2_end_stream_recv s = s2_end_stream_recv s'"
proof -
  from assms have "list_all2 (resp_step (word_of_int i)) (h2_streams c) (h2_streams c')" by (simp add: resp_keeps_def)
  with assms(3) obtain s where s: "s \<in> set (h2_streams c)" "resp_step (word_of_int i) s s'"
    by (metis in_set_conv_nth list_all2_conv_all_nth)
  from s(2) have "s2_id s = s2_id s' \<and> s2_dispatched s = s2_dispatched s' \<and> s2_end_stream_recv s = s2_end_stream_recv s'"
    using resp_erase_fields [of s' s] by (auto simp: resp_step_def)
  with s(1) show ?thesis by blast
qed

lemma dispatch_base:
  assumes "base_ok lim c" "\<And>st. st \<in> set (h2_streams c) \<Longrightarrow> s2_id st = sid \<Longrightarrow> s2_end_stream_recv st"
  shows "base_ok lim (h2_dispatch env c sid)"
proof (cases "find_stream c sid")
  case None
  with assms show ?thesis by (simp add: h2_dispatch_def)
next
  case (Some st)
  show ?thesis
  proof (cases "s2_dispatched st")
    case True
    with assms Some show ?thesis by (simp add: h2_dispatch_def)
  next
    case False
    let ?req = "h2_ready env c st"
    let ?c1 = "upd_stream c sid (\<lambda>s. s\<lparr>s2_dispatched := True, s2_req := ?req\<rparr>)"
    have "req_wf lim (s2_req st)"
      using entry_wf [OF find_entry [OF assms(1) Some]] assms(1) by (simp add: stream_wf_def base_ok_def)
    then have rq: "req_wf lim ?req" by (rule ready_body)
    have c1: "base_ok lim ?c1"
      using assms rq by (intro upd_field_base) (auto simp: stream_wf_def)
    obtain d c2 r2 where z: "zhs_dispatch (he_alloc env) (he_srv env) (he_clock env) (zh2_respond env) (\<lambda>c. c)
        (he_handler env (unat sid) ?req) ?c1 ?req = (d, c2, r2)" using prod_cases3 by blast
    note k = h2r.dispatch_keeps [OF z]
    have c2: "base_ok lim c2" by (rule resp_keeps_base [OF k c1])
    have dist: "distinct (map s2_id (h2_streams ?c1))" using c1 by (simp add: base_ok_def tab_ok_def)
    have fin: "s2_dispatched s" if "s \<in> set (h2_streams c2)" "s2_id s = sid" for s
      using resp_keeps_stream [OF k dist that(1)] that(2) by (auto simp: set_upd_stream)
    have "base_ok lim (upd_stream c2 sid (\<lambda>s. s\<lparr>s2_req := zhs_req_reset r2\<rparr>))"
      using c2 fin by (intro upd_field_base) (auto simp: stream_wf_def zhs_req_reset_def req_zero_wf)
    then show ?thesis using Some False z by (simp add: h2_dispatch_def reap_base Let_def)
  qed
qed
text \<open>Only dispatch reads the handler.\<close>

lemma frame_handler [simp]: "h2_frame (env\<lparr>he_handler := h\<rparr>) = h2_frame env"
  by (intro ext) (unfold h2_frame_def env_handler, rule refl)

lemma queue_handler [simp]: "h2_queue (env\<lparr>he_handler := h\<rparr>) = h2_queue env"
  by (intro ext) (unfold h2_queue_def frame_handler, rule refl)

lemma q_handler [simp]:
  "q_rst (env\<lparr>he_handler := h\<rparr>) = q_rst env" "q_window_update (env\<lparr>he_handler := h\<rparr>) = q_window_update env"
  "q_settings_ack (env\<lparr>he_handler := h\<rparr>) = q_settings_ack env" "q_ping_ack (env\<lparr>he_handler := h\<rparr>) = q_ping_ack env"
  "q_goaway (env\<lparr>he_handler := h\<rparr>) = q_goaway env"
  by (simp_all add: q_rst_def q_window_update_def q_settings_ack_def q_ping_ack_def q_goaway_def fun_eq_iff)

lemma conn_handler [simp]:
  "conn_error (env\<lparr>he_handler := h\<rparr>) = conn_error env" "rst_stream (env\<lparr>he_handler := h\<rparr>) = rst_stream env"
  "recv_consume (env\<lparr>he_handler := h\<rparr>) = recv_consume env" "h2_stream_new (env\<lparr>he_handler := h\<rparr>) = h2_stream_new env"
  "h2_ready (env\<lparr>he_handler := h\<rparr>) = h2_ready env"
  unfolding conn_error_def rst_stream_def recv_consume_def recv_consume_conn_def recv_consume_stream_def
      h2_stream_new_def h2_ready_def env_handler q_handler fun_eq_iff by (rule refl allI)+

lemma conn_handler2 [simp]:
  "hdr_accumulate (env\<lparr>he_handler := h\<rparr>) = hdr_accumulate env" "h2_admit (env\<lparr>he_handler := h\<rparr>) = h2_admit env"
  unfolding hdr_accumulate_def h2_admit_def env_handler q_handler conn_handler fun_eq_iff by (rule refl allI)+

lemma header_frames_handler:
  "h2_header_frames (env\<lparr>he_handler := h\<rparr>) c sid hb first block = h2_header_frames env c sid hb first block"
proof (induction env c sid hb first block rule: h2_header_frames.induct)
  case (1 env c sid hb first block)
  show ?case
    unfolding h2_header_frames.simps [of env c] h2_header_frames.simps [of "env\<lparr>he_handler := h\<rparr>" c] frame_handler Let_def
    using 1 [OF refl refl refl refl] by (auto split: prod.splits simp: Let_def)
qed

lemma respond_handler [simp]: "zh2_respond (env\<lparr>he_handler := h\<rparr>) = zh2_respond env"
  by (intro ext) (unfold zh2_respond_def header_frames_handler env_handler, rule refl)

lemma setting_handler [simp]: "h2_setting (env\<lparr>he_handler := h\<rparr>) = h2_setting env"
  by (intro ext) (unfold h2_setting_def conn_handler, rule refl)

lemma settings_loop_handler [simp]: "h2_settings_loop (env\<lparr>he_handler := h\<rparr>) c p = h2_settings_loop env c p"
  by (induction env c p rule: h2_settings_loop.induct) (auto split: prod.splits)

lemma plain_handler [simp]:
  "h2_on_priority (env\<lparr>he_handler := h\<rparr>) = h2_on_priority env" "h2_on_goaway (env\<lparr>he_handler := h\<rparr>) = h2_on_goaway env"
  "h2_on_ping (env\<lparr>he_handler := h\<rparr>) = h2_on_ping env" "h2_on_rst_stream (env\<lparr>he_handler := h\<rparr>) = h2_on_rst_stream env"
  "h2_on_window_update (env\<lparr>he_handler := h\<rparr>) = h2_on_window_update env"
  "h2_on_settings (env\<lparr>he_handler := h\<rparr>) = h2_on_settings env"
  unfolding h2_on_priority_def h2_on_goaway_def h2_on_ping_def h2_on_rst_stream_def h2_on_window_update_def
      h2_on_settings_def fun_eq_iff env_handler q_handler conn_handler settings_loop_handler by (rule refl allI)+

text \<open>Two handlers that agree on acceptable requests.\<close>

definition agree :: "zhs_limits \<Rightarrow> h1_env \<Rightarrow> (nat \<Rightarrow> zcio_http_req \<Rightarrow> handler_call list) \<Rightarrow> bool" where
  "agree lim env h \<longleftrightarrow> (\<forall>n. length (he_junk env n) = n) \<and> (\<forall>n q. request2_ok lim q \<longrightarrow> h n q = he_handler env n q)"

lemma dispatch_handler:
  assumes "agree lim env h" "base_ok lim c"
    and "\<And>st. st \<in> set (h2_streams c) \<Longrightarrow> s2_id st = sid \<Longrightarrow> s2_got_headers st"
  shows "h2_dispatch (env\<lparr>he_handler := h\<rparr>) c sid = h2_dispatch env c sid"
proof (cases "find_stream c sid")
  case None
  then show ?thesis by (simp add: h2_dispatch_def)
next
  case (Some st)
  have "stream_wf lim st" using entry_wf [OF find_entry [OF assms(2) Some]] assms(2) by (simp add: base_ok_def)
  then have "\<not> s2_dispatched st \<Longrightarrow> request2_ok lim (h2_ready env c st)"
    using assms(3) find_stream_Some [OF Some] by (intro ready_request_ok) auto
  then have "\<not> s2_dispatched st \<Longrightarrow> h (unat sid) (h2_ready env c st) = he_handler env (unat sid) (h2_ready env c st)"
    using assms(1) by (simp add: agree_def)
  then show ?thesis using Some by (simp add: h2_dispatch_def Let_def)
qed

subsection \<open>Header blocks\<close>

lemma head_method: "stream_wf lim s \<Longrightarrow> zhs_token_ok (Some m) \<Longrightarrow> stream_wf lim (s\<lparr>s2_req := (s2_req s)\<lparr>rq_method := Some m\<rparr>\<rparr>)"
  by (simp add: stream_wf_def req_wf_def head_ok_def line_ok_def)

lemma head_target:
  "stream_wf lim s \<Longrightarrow> zhs_token_ok (Some m) \<Longrightarrow> path_safe p \<Longrightarrow>
     stream_wf lim (s\<lparr>s2_req := (s2_req s)\<lparr>rq_method := Some m, rq_path := Some p, rq_query := q\<rparr>\<rparr>)"
  by (auto simp: stream_wf_def req_wf_def head_ok_def line_ok_def)

lemma head_complete:
  "stream_wf lim s \<Longrightarrow> \<not> s2_end_stream_recv s \<Longrightarrow> zhs_token_ok (Some m) \<Longrightarrow> path_safe p \<Longrightarrow> sink_ok lim x \<Longrightarrow>
     stream_wf lim (s\<lparr>s2_req := (s2_req s)\<lparr>rq_method := Some m, rq_path := Some p, rq_query := q, rq_authority := a,
       rq_is_head := b, rq_headers := hx_headers x\<rparr>, s2_got_headers := True, s2_end_stream_recv := e\<rparr>)"
  by (auto simp: stream_wf_def req_wf_def head_ok_def line_ok_def sink_ok_def)

lemma base_ok_oom: "base_ok lim c \<Longrightarrow> base_ok lim (c\<lparr>h2_oom := b\<rparr>)"
  by (simp add: base_ok_def h2_upd)

lemma upd_member:
  "st \<in> set (h2_streams (upd_stream c sid f)) \<Longrightarrow> s2_id st = sid \<Longrightarrow> \<exists>s \<in> set (h2_streams c). s2_id s = sid \<and> st = f s"
  by (auto simp: set_upd_stream split: if_splits)

lemma take_request_ok:
  assumes ag: "agree lim env h" and c: "base_ok lim c" and x: "sink_ok lim x"
    and open_st: "\<And>st. st \<in> set (h2_streams c) \<Longrightarrow> s2_id st = sid \<Longrightarrow> \<not> s2_end_stream_recv st"
  shows "base_ok lim (h2_take_request env c sid x fin) \<and>
    h2_take_request (env\<lparr>he_handler := h\<rparr>) c sid x fin = h2_take_request env c sid x fin"
proof (cases "\<exists>m p. hx_method x = Some m \<and> hx_path x = Some p \<and> hx_scheme x \<noteq> None \<and> zhs_token_ok (Some (cstr m))")
  case False
  then have "h2_take_request env' c sid x fin = rst_stream env' c sid 1" for env'
    by (auto simp: h2_take_request_def Let_def split: option.splits)
  then show ?thesis using c by (simp add: rst_stream_base)
next
  case True
  then obtain m p sc where mp: "hx_method x = Some m" "hx_path x = Some p" "hx_scheme x = Some sc" "zhs_token_ok (Some (cstr m))"
    by blast
  have lim: "h2_lim c = lim" using c by (simp add: base_ok_def)
  let ?c1 = "upd_stream c sid (\<lambda>s. s\<lparr>s2_req := (s2_req s)\<lparr>rq_method := Some (cstr m)\<rparr>\<rparr>)"
  have c1: "base_ok lim ?c1" using c mp(4) by (intro upd_field_base) (auto simp: head_method)
  show ?thesis
  proof (cases "zhs_decode_target (he_alloc env) (he_junk env) (Some (cstr p)) lim")
    case (Inl e)
    with mp c1 lim show ?thesis by (auto simp: h2_take_request_def Let_def rst_stream_base base_ok_oom)
  next
    case (Inr pq)
    obtain path query where pq: "pq = (path, query)" by fastforce
    have safe: "path_safe path" using ag Inr pq by (auto simp: agree_def intro: target_safe)
    let ?c2 = "upd_stream c sid (\<lambda>s. s\<lparr>s2_req := (s2_req s)\<lparr>rq_method := Some (cstr m), rq_path := Some path, rq_query := query\<rparr>\<rparr>)"
    let ?c4 = "upd_stream c sid (\<lambda>s. s\<lparr>s2_req := (s2_req s)\<lparr>rq_method := Some (cstr m), rq_path := Some path, rq_query := query,
        rq_authority := h2_authority x, rq_is_head := (cstr m = asc ''HEAD''), rq_headers := hx_headers x\<rparr>,
        s2_got_headers := True, s2_end_stream_recv := fin\<rparr>)"
    have c2: "base_ok lim ?c2" using c mp(4) safe by (intro upd_field_base) (auto simp: head_target)
    have c4: "base_ok lim ?c4" using c mp(4) safe x open_st by (intro upd_field_base) (auto simp: head_complete)
    let ?setr = "\<lambda>c f. upd_stream c sid (\<lambda>s. s\<lparr>s2_req := f (s2_req s)\<rparr>)"
    let ?d2 = "?setr ?c1 (\<lambda>r. r\<lparr>rq_path := Some path, rq_query := query\<rparr>)"
    let ?d3 = "?setr ?d2 (\<lambda>r. r\<lparr>rq_authority := h2_authority x, rq_is_head := (cstr m = asc ''HEAD''), rq_headers := hx_headers x\<rparr>)"
    let ?d4 = "upd_stream ?d3 sid (\<lambda>s. s\<lparr>s2_got_headers := True, s2_end_stream_recv := fin\<rparr>)"
    have d2: "?d2 = ?c2" by (simp add: upd_upd)
    have d4: "?d4 = ?c4" unfolding d2 by (simp add: upd_upd)
    have run: "h2_take_request env' c sid x fin =
        (if h2_authority x \<noteq> None \<and> \<not> he_alloc env' (length (the (h2_authority x)) + 1) then ?c2\<lparr>h2_oom := True\<rparr>
         else if fin then h2_dispatch env' ?c4 sid else ?c4)"
      if "he_alloc env' = he_alloc env" "he_junk env' = he_junk env" for env'
      unfolding d4 [symmetric] d2 [symmetric] h2_take_request_def Let_def mp(1,2) option.case option.map that lim Inr pq
      using mp(3,4) by simp
    have new: "s2_got_headers st" "s2_end_stream_recv st = fin" if "st \<in> set (h2_streams ?c4)" "s2_id st = sid" for st
      using upd_member [OF that] by auto
    define D where "D = ?c4"
    have d1: "base_ok lim (h2_dispatch env D sid)" if fin
      unfolding D_def using new(2) that by (intro dispatch_base [OF c4]) blast
    have d3: "h2_dispatch (env\<lparr>he_handler := h\<rparr>) D sid = h2_dispatch env D sid"
      unfolding D_def using new(1) by (intro dispatch_handler [OF ag c4]) blast
    have r: "h2_take_request env' c sid x fin =
        (if h2_authority x \<noteq> None \<and> \<not> he_alloc env (length (the (h2_authority x)) + 1) then ?c2\<lparr>h2_oom := True\<rparr>
         else if fin then h2_dispatch env' D sid else D)"
      if "he_alloc env' = he_alloc env" "he_junk env' = he_junk env" for env'
      using run [OF that] that unfolding D_def by simp
    have "base_ok lim D" using c4 unfolding D_def .
    with d1 d3 c2 show ?thesis unfolding r [OF refl refl] r [OF env_handler(1,2)] by (auto simp: base_ok_oom)
  qed
qed

end
