(* ===== verification/Zc_H2Feed.thy ===== *)
theory Zc_H2Feed
  imports Zc_H2Inv
begin

unbundle bit_operations_syntax

text \<open>
  The frame handlers, the feed loop and the pump of the HTTP/2 engine keep the invariant of
  \<open>Zc_H2Inv\<close>; the states a connection can reach, and what holds of all of them.
\<close>

lemma clear_block_base:
  assumes "h2_wf lim c" "dec_wf d"
  shows "base_ok lim (h2_clear_block (c\<lparr>h2_dec := d\<rparr>))"
proof -
  have "tab_ok (h2_clear_block (c\<lparr>h2_dec := d\<rparr>))" using assms(1) by (simp add: h2_clear_block_def h2_wf_def h2_upd)
  moreover have "num_ok (h2_clear_block (c\<lparr>h2_dec := d\<rparr>))"
    using assms by (auto simp: h2_clear_block_def h2_wf_def num_ok_def zhs_buf_reset_def zb_wf_def)
  ultimately show ?thesis using assms(1) by (simp add: base_ok_def) (simp add: h2_clear_block_def h2_wf_def)
qed

lemma stream_end_base:
  assumes "base_ok lim c"
  shows "base_ok lim (upd_stream c sid (\<lambda>s. s\<lparr>s2_end_stream_recv := True\<rparr>))"
  using assms by (intro upd_field_base) (auto simp: stream_wf_def)

lemma end_dispatch_ok:
  assumes ag: "agree lim env h" and c: "base_ok lim c"
    and got: "\<And>st. st \<in> set (h2_streams c) \<Longrightarrow> s2_id st = sid \<Longrightarrow> s2_got_headers st"
  defines "D \<equiv> upd_stream c sid (\<lambda>s. s\<lparr>s2_end_stream_recv := True\<rparr>)"
  shows "base_ok lim (h2_dispatch env D sid) \<and> h2_dispatch (env\<lparr>he_handler := h\<rparr>) D sid = h2_dispatch env D sid"
proof
  have D: "base_ok lim D" unfolding D_def by (rule stream_end_base [OF c])
  have new: "s2_got_headers st" "s2_end_stream_recv st" if "st \<in> set (h2_streams D)" "s2_id st = sid" for st
    using upd_member [OF that [unfolded D_def]] got by auto
  show "base_ok lim (h2_dispatch env D sid)" by (rule dispatch_base [OF D new(2)])
  show "h2_dispatch (env\<lparr>he_handler := h\<rparr>) D sid = h2_dispatch env D sid"
    by (rule dispatch_handler [OF ag D new(1)])
qed

lemma block_stream:
  assumes "h2_wf lim c" "h2_hdr_active c" "h2_hdr_stream c = Some sid" "st \<in> set (h2_streams c)" "s2_id st = sid"
  shows "\<not> s2_end_stream_recv st" "s2_got_headers st = h2_hdr_trailer c"
proof -
  from assms(1-3) obtain s where s: "s \<in> set (h2_streams c)" "s2_id s = sid" "\<not> s2_end_stream_recv s"
      "s2_got_headers s = h2_hdr_trailer c" unfolding h2_wf_def blk_ok_def by blast
  have "distinct (map s2_id (h2_streams c))" using assms(1) by (simp add: h2_wf_def tab_ok_def)
  then have "st = s" using find_stream_eq [of c st sid] find_stream_eq [of c s sid] s assms by simp
  with s show "\<not> s2_end_stream_recv st" "s2_got_headers st = h2_hdr_trailer c" by simp_all
qed

lemma finish_headers_ok:
  assumes ag: "agree lim env h" and wf: "h2_wf lim c0" "h2_hdr_active c0"
  shows "base_ok lim (h2_finish_headers env c0) \<and>
    h2_finish_headers (env\<lparr>he_handler := h\<rparr>) c0 = h2_finish_headers env c0"
proof -
  have lim: "h2_lim c0 = lim" and dec: "dec_wf (h2_dec c0)" using wf by (auto simp: h2_wf_def num_ok_def)
  obtain dr x d where z: "zhp_decode (he_alloc env) (h2_dec c0) (ZHS_PTR (h2_hdr_block c0)) (max_header_bytes lim)
     (h2_emit (he_alloc env) lim) (hdrctx_zero (h2_hdr_trailer c0)) = (dr, x, d)" using prod_cases3 by blast
  note x = decode_sink [OF z dec]
  define c where "c = h2_clear_block (c0\<lparr>h2_dec := d\<rparr>)"
  have c: "base_ok lim c" unfolding c_def using clear_block_base [OF wf(1)] x by blast
  have str: "h2_streams c = h2_streams c0" by (simp add: c_def h2_clear_block_def)
  have take: "base_ok lim (h2_take_request env c s x fin) \<and> h2_take_request (env\<lparr>he_handler := h\<rparr>) c s x fin = h2_take_request env c s x fin"
    if "h2_hdr_stream c0 = Some s" for s fin
    using block_stream(1) [OF wf that] x str by (intro take_request_ok [OF ag c]) auto
  let ?D = "\<lambda>s. upd_stream c s (\<lambda>q. q\<lparr>s2_end_stream_recv := True\<rparr>)"
  have disp: "base_ok lim (h2_dispatch env (?D s) s) \<and> h2_dispatch (env\<lparr>he_handler := h\<rparr>) (?D s) s = h2_dispatch env (?D s) s"
    if "h2_hdr_stream c0 = Some s" "h2_hdr_trailer c0" for s
    using block_stream(2) [OF wf that(1)] that(2) str by (intro end_dispatch_ok [OF ag c]) auto
  show ?thesis
  proof (cases "hx_herr x = HERR_OK \<and> dr = 0 \<and> h2_hdr_refuse c0 = 0 \<and> h2_hdr_stream c0 \<noteq> None")
    case False
    then show ?thesis using c z lim unfolding h2_finish_headers_def
      by (cases "hx_herr x") (auto simp: Let_def base_queue base_ok_oom rst_stream_base simp flip: c_def split: option.splits)
  next
    case True
    then obtain s where s: "hx_herr x = HERR_OK" "dr = 0" "h2_hdr_refuse c0 = 0" "h2_hdr_stream c0 = Some s" by blast
    have run: "h2_finish_headers env' c0 = (if h2_hdr_trailer c0 then
          (if \<not> h2_hdr_end_stream c0 then rst_stream env' c s 1 else h2_dispatch env' (?D s) s)
        else h2_take_request env' c s x (h2_hdr_end_stream c0))" if "he_alloc env' = he_alloc env" for env'
      using s z lim that unfolding h2_finish_headers_def by (simp add: Let_def c_def)
    show ?thesis unfolding run [OF refl] run [OF env_handler(1)] using take [OF s(4)] disp [OF s(4)] c
      by (simp add: rst_stream_base)
  qed
qed

lemma append_data_cap:
  assumes "zb_wf b" "zb_off b = 0" "zhs_buf_append alloc b s = (r, b')"
  shows "zb_wf b'" "zb_off b' = 0" "zb_data b' = (if r = ZCIO_OK then zb_data b @ s else zb_data b)"
  using append_data [OF assms(1,3)] assms(2) by simp_all

lemma num_ok_block:
  "num_ok c \<Longrightarrow> zb_wf b \<Longrightarrow> zb_off b = 0 \<Longrightarrow> length (zb_data b) \<le> block_cap (h2_lim c) \<Longrightarrow> num_ok (c\<lparr>h2_hdr_block := b\<rparr>)"
  by (simp add: num_ok_def)

lemma accumulate_ok:
  assumes "h2_wf lim c" "hdr_accumulate env c frag = (ok, c')"
  shows "h2_wf lim c' \<and> h2_hdr_active c' = h2_hdr_active c"
proof -
  obtain r b where a: "zhs_buf_append (he_alloc env) (h2_hdr_block c) frag = (r, b)" by fastforce
  have n: "zb_wf (h2_hdr_block c)" "zb_off (h2_hdr_block c) = 0" "length (zb_data (h2_hdr_block c)) \<le> block_cap lim"
    "h2_lim c = lim" "num_ok c" "tab_ok c" "blk_ok c"
    using assms(1) by (auto simp: h2_wf_def num_ok_def)
  note b = append_data_cap [OF n(1,2) a]
  have wf: "h2_wf lim (c\<lparr>h2_hdr_block := b\<rparr>)" if "length frag \<le> block_cap lim - length (zb_data (h2_hdr_block c))"
    using n b that by (auto simp: h2_wf_def h2_upd blk_ok_def intro!: num_ok_block)
  have wf2: "h2_wf lim (c\<lparr>h2_hdr_block := b, h2_oom := True\<rparr>)" if "length frag \<le> block_cap lim - length (zb_data (h2_hdr_block c))"
    using wf [OF that] by (simp add: h2_wf_def h2_upd blk_ok_def)
  have err: "h2_wf lim (conn_error env c 11)" "h2_hdr_active (conn_error env c 11) = h2_hdr_active c"
    using conn_error_wf [OF wf_error [OF assms(1)]] conn_error_shape [of env c 11] by auto
  show ?thesis using assms(2) a n(3,4) wf wf2 err unfolding hdr_accumulate_def Let_def block_cap_def [symmetric]
    by (auto simp: not_less split: if_splits)
qed

lemma begin_block_ok:
  assumes ag: "agree lim env h" and c: "base_ok lim c"
    and st: "\<And>s. st = Some s \<Longrightarrow> s = sid \<and> (\<exists>q \<in> set (h2_streams c). s2_id q = sid \<and> \<not> s2_end_stream_recv q \<and> s2_got_headers q = trailer)"
  shows "h2_wf lim (h2_begin_block env c fl sid st refuse trailer frag) \<and>
    h2_begin_block (env\<lparr>he_handler := h\<rparr>) c fl sid st refuse trailer frag = h2_begin_block env c fl sid st refuse trailer frag"
proof -
  define c1 where "c1 = c\<lparr>h2_hdr_active := True, h2_hdr_id := sid, h2_hdr_stream := st, h2_hdr_refuse := refuse,
    h2_hdr_trailer := trailer, h2_hdr_end_stream := (fl AND 1 \<noteq> 0), h2_cont_count := 0, h2_hdr_block := zhs_buf_reset (h2_hdr_block c)\<rparr>"
  have "num_ok c1" "tab_ok c1" "blk_ok c1" "h2_lim c1 = lim"
    using c st by (auto simp: c1_def base_ok_def h2_upd num_ok_def zhs_buf_reset_def zb_wf_def blk_ok_def)
  then have c1: "h2_wf lim c1" "h2_hdr_active c1" by (simp_all add: h2_wf_def) (simp add: c1_def)
  obtain ok c2 where a: "hdr_accumulate env c1 frag = (ok, c2)" by fastforce
  note c2 = accumulate_ok [OF c1(1) a]
  then have "base_ok lim (h2_finish_headers env c2) \<and> h2_finish_headers (env\<lparr>he_handler := h\<rparr>) c2 = h2_finish_headers env c2"
    using c1(2) by (intro finish_headers_ok [OF ag]) auto
  with c2 base_wf show ?thesis unfolding h2_begin_block_def Let_def c1_def [symmetric] conn_handler2 a by auto
qed

lemma on_continuation_ok:
  assumes ag: "agree lim env h" and c: "h2_wf lim c0" "\<not> h2_got_error c0" "h2_hdr_active c0"
  shows "h2_wf lim (h2_on_continuation env c0 fl payload) \<and>
    h2_on_continuation (env\<lparr>he_handler := h\<rparr>) c0 fl payload = h2_on_continuation env c0 fl payload"
proof -
  define c where "c = c0\<lparr>h2_cont_count := h2_cont_count c0 + 1\<rparr>"
  have f: "h2_lim c = lim" "tab_ok c" "blk_ok c" "num_ok c0" using c(1) by (auto simp: c_def h2_wf_def h2_upd blk_ok_def)
  have "unat (h2_cont_count c0) \<le> 64" using f(4) c(2) by (simp add: num_ok_def)
  then have cc: "unat (h2_cont_count c) \<le> 65" using unat_succ [of "h2_cont_count c0"] by (simp add: c_def)
  have "num_ok (c\<lparr>h2_got_error := True\<rparr>)" using f(4) cc by (auto simp: num_ok_def c_def)
  then have err: "h2_wf lim (conn_error env c 11)"
    using f tab_ok_error [OF f(2)] by (intro conn_error_wf) (simp add: h2_wf_def blk_ok_def)
  have wf: "h2_wf lim c" "h2_hdr_active c" if "unat (h2_cont_count c) \<le> 64"
    using f that c(2,3) by (auto simp: h2_wf_def num_ok_def c_def)
  obtain ok c2 where a: "hdr_accumulate env c payload = (ok, c2)" by fastforce
  have c2: "h2_wf lim c2" "h2_hdr_active c2" if "unat (h2_cont_count c) \<le> 64"
    using accumulate_ok [OF wf(1) a] wf(2) that by simp_all
  have "base_ok lim (h2_finish_headers env c2) \<and> h2_finish_headers (env\<lparr>he_handler := h\<rparr>) c2 = h2_finish_headers env c2"
    if "unat (h2_cont_count c) \<le> 64" using c2 [OF that] by (rule finish_headers_ok [OF ag])
  with c2 err base_wf show ?thesis
    unfolding h2_on_continuation_def Let_def c_def [symmetric] conn_handler2 conn_handler a
    by (cases "unat (h2_cont_count c) \<le> 64") auto
qed
text \<open>Admission: the id is new, odd and below \<open>2\<^sup>31\<close>.\<close>

lemma even_and_1: "sid AND 1 = 0 \<longleftrightarrow> even (unat (sid :: u32))"
proof -
  have "bit (unat sid) 0 = bit sid 0" unfolding bit_unsigned_iff by simp
  then have "even (unat sid) = even sid" by (simp add: bit_0)
  then show ?thesis by (simp add: and_one_eq even_iff_mod_2_eq_zero)
qed

lemma admit_tab:
  assumes "tab_ok c" "odd (unat sid)" "h2_last_client_id c < sid" "unat sid < 2 ^ 31"
  defines "c1 \<equiv> c\<lparr>h2_last_client_id := sid, h2_total_streams := h2_total_streams c + 1\<rparr>"
  shows "tab_ok c1" "unat (h2_rapid_reset c) + length (h2_streams c) < unat (h2_total_streams c + 1)"
proof -
  have cnt: "count_ok c" using assms(1) by (simp add: tab_ok_def)
  have lt: "unat (h2_last_client_id c) < unat sid" using assms(3) by (simp add: word_less_nat_alt)
  have two: "2 * unat (h2_total_streams c) + 2 \<le> unat sid + 1"
    using cnt lt assms(2) unfolding count_ok_def by (cases "h2_last_client_id c = 0") (auto elim!: oddE)
  then have suc: "unat (h2_total_streams c + 1) = unat (h2_total_streams c) + 1"
    using assms(4) by (intro unat_succ) auto
  have "entry_ok c1 s" if "entry_ok c s" for s
    using that assms(3) by (auto simp: entry_ok_def c1_def)
  moreover have "count_ok c1" using cnt two suc assms(2,4) by (auto simp: count_ok_def c1_def)
  ultimately show "tab_ok c1" using assms(1) by (auto simp: tab_ok_def c1_def)
  show "unat (h2_rapid_reset c) + length (h2_streams c) < unat (h2_total_streams c + 1)"
    using cnt suc by (simp add: count_ok_def)
qed

lemma admit_ok:
  assumes c: "base_ok lim c" and sid: "odd (unat sid)" "h2_last_client_id c < sid" "unat sid < 2 ^ 31"
    and a: "h2_admit env c sid = (refuse, c1)"
  shows "base_ok lim c1 \<and> (refuse = 0 \<longrightarrow> h2_streams c1 = h2_streams c \<and> h2_last_client_id c1 = sid \<and>
    length (h2_streams c1) < max_streams lim \<and> unat (h2_rapid_reset c1) + length (h2_streams c1) < unat (h2_total_streams c1))"
proof -
  define d where "d = c\<lparr>h2_last_client_id := sid, h2_total_streams := h2_total_streams c + 1\<rparr>"
  have f: "tab_ok c" "num_ok c" "h2_lim c = lim" "\<not> h2_hdr_active c" using c by (auto simp: base_ok_def)
  note t = admit_tab [OF f(1) sid]
  have d: "base_ok lim d" using t(1) f by (simp add: d_def base_ok_def h2_upd)
  have g: "base_ok lim ((q_goaway env d 0)\<lparr>h2_closing := True\<rparr>)"
    using q_goaway_base [OF d] by (simp add: base_ok_def h2_upd)
  have cnt: "unat (h2_open_count d) = length (h2_streams d)" using d by (simp add: base_ok_def tab_ok_def count_ok_def)
  have lim: "h2_lim d = lim" using d by (simp add: base_ok_def)
  consider "refuse = 7" "c1 = d" | "refuse = 7" "c1 = (q_goaway env d 0)\<lparr>h2_closing := True\<rparr>"
    | "refuse = 0" "c1 = d" "unat (h2_open_count d) < max_streams lim"
    using a lim unfolding h2_admit_def Let_def d_def [symmetric] by (auto simp: not_le split: if_splits)
  then show ?thesis
  proof cases
    case 3
    with d cnt t(2) show ?thesis by (simp add: d_def)
  qed (use d g in simp_all)
qed

lemma stream_new_cases:
  assumes "h2_stream_new env c sid = (ok, c')"
  shows "\<exists>k. ok \<and> c' = c\<lparr>h2_streams_cap := k, h2_streams := h2_streams c @ [stream_zero sid (h2_peer_initial_window c)],
      h2_open_count := h2_open_count c + 1\<rparr> \<or> \<not> ok \<and> c' = c\<lparr>h2_streams_cap := k\<rparr>"
proof -
  define n where "n = (if h2_streams_cap c \<noteq> 0 then h2_streams_cap c * 2 else 8)"
  define full where "full = (length (h2_streams c) = h2_streams_cap c)"
  define k where "k = (if full then n else h2_streams_cap c)"
  have c: "(if full then c\<lparr>h2_streams_cap := n\<rparr> else c) = c\<lparr>h2_streams_cap := k\<rparr>" by (simp add: k_def)
  have same: "c = c\<lparr>h2_streams_cap := h2_streams_cap c\<rparr>" by simp
  show ?thesis
  proof (cases "full \<and> \<not> he_alloc env (n * pointer_size)")
    case True
    with assms have "\<not> ok" "c' = c" unfolding h2_stream_new_def Let_def n_def [symmetric] full_def [symmetric] by simp_all
    with same show ?thesis by metis
  next
    case False
    then show ?thesis using assms unfolding h2_stream_new_def Let_def n_def [symmetric] full_def [symmetric] c
      by (intro exI [of _ k]) (auto split: if_splits)
  qed
qed

lemma stream_new_ok:
  assumes c: "base_ok lim c" and sid: "odd (unat sid)" "h2_last_client_id c = sid" "sid \<notin> s2_id ` set (h2_streams c)"
    and room: "length (h2_streams c) < max_streams lim" "unat (h2_rapid_reset c) + length (h2_streams c) < unat (h2_total_streams c)"
    and n: "h2_stream_new env c sid = (ok, c')"
  shows "base_ok lim c' \<and> (ok \<longrightarrow> (\<exists>q \<in> set (h2_streams c'). s2_id q = sid \<and> \<not> s2_end_stream_recv q \<and> \<not> s2_got_headers q))"
proof -
  have f: "tab_ok c" "num_ok c" "h2_lim c = lim" "\<not> h2_hdr_active c" using c by (auto simp: base_ok_def)
  let ?new = "stream_zero sid (h2_peer_initial_window c)"
  have cnt: "count_ok c" using f(1) by (simp add: tab_ok_def)
  then have "unat (h2_open_count c) < 2 ^ 31" using room(2) unfolding count_ok_def by linarith
  note suc = unat_succ [OF this]
  define d where "d = c\<lparr>h2_streams := h2_streams c @ [?new], h2_open_count := h2_open_count c + 1\<rparr>"
  have "entry_ok c ?new"
    using sid f(2) by (auto simp: entry_ok_def stream_zero_def stream_wf_def req_zero_wf win_ok_def num_ok_def
        zb_wf_def zhs_buf_zero_def abs_le_iff)
  moreover have "s2_id ?new = sid" by (simp add: stream_zero_def)
  moreover have "count_ok d" using cnt suc room f(3) by (simp add: count_ok_def d_def)
  ultimately have "tab_ok d" using f(1) sid(3) by (auto simp: tab_ok_def d_def h2_upd)
  then have d: "base_ok lim d" using f by (simp add: base_ok_def d_def h2_upd)
  have d': "base_ok lim (d\<lparr>h2_streams_cap := k\<rparr>)" "base_ok lim (c\<lparr>h2_streams_cap := k\<rparr>)"
    "d\<lparr>h2_streams_cap := k\<rparr> = c\<lparr>h2_streams_cap := k, h2_streams := h2_streams c @ [?new], h2_open_count := h2_open_count c + 1\<rparr>" for k
    using d c by (simp_all add: base_ok_def h2_upd d_def)
  have mem: "\<exists>q \<in> set (h2_streams d). s2_id q = sid \<and> \<not> s2_end_stream_recv q \<and> \<not> s2_got_headers q"
    by (auto simp: d_def stream_zero_def)
  from stream_new_cases [OF n] obtain k where
    "ok \<and> c' = d\<lparr>h2_streams_cap := k\<rparr> \<or> \<not> ok \<and> c' = c\<lparr>h2_streams_cap := k\<rparr>" unfolding d'(3) by blast
  with d'(1,2) mem show ?thesis by auto
qed

lemma on_headers_ok:
  assumes ag: "agree lim env h" and c: "base_ok lim c" and sid: "unat sid < 2 ^ 31"
  shows "h2_wf lim (h2_on_headers env c fl sid payload) \<and>
    h2_on_headers (env\<lparr>he_handler := h\<rparr>) c fl sid payload = h2_on_headers env c fl sid payload"
proof -
  have err: "h2_wf lim (conn_error env c code)" for code using c by (intro base_wf base_queue)
  show ?thesis
  proof (cases "sid = 0")
    case True
    with err show ?thesis by (simp add: h2_on_headers_def)
  next
    case False
    show ?thesis
    proof (cases "\<exists>p pad. strip_padded fl (fl AND 0x20 \<noteq> 0) payload = Some (p, pad) \<and> pad \<le> length p")
      case bad: False
      then have "h2_on_headers e c fl sid payload = conn_error e c 1" for e
        using False by (auto simp: h2_on_headers_def not_le split: option.splits)
      with err show ?thesis by simp
    next
      case True
      then obtain p pad where p: "strip_padded fl (fl AND 0x20 \<noteq> 0) payload = Some (p, pad)" "\<not> pad > length p" by auto
      define frag where "frag = take (length p - pad) p"
      show ?thesis
      proof (cases "find_stream c sid")
        case (Some st)
        note st = find_stream_Some [OF Some]
        have "h2_wf lim (h2_begin_block env c fl sid (Some sid) 0 True frag) \<and>
            h2_begin_block (env\<lparr>he_handler := h\<rparr>) c fl sid (Some sid) 0 True frag = h2_begin_block env c fl sid (Some sid) 0 True frag"
          if "\<not> s2_end_stream_recv st" "s2_got_headers st"
          using st that by (intro begin_block_ok [OF ag c]) auto
        with err Some p False show ?thesis
          by (cases "s2_end_stream_recv st"; cases "s2_got_headers st") (simp_all add: h2_on_headers_def frag_def)
      next
        case None
        have new: "sid \<notin> s2_id ` set (h2_streams c)" using None by (simp add: find_stream_None)
        show ?thesis
        proof (cases "sid AND 1 = 0 \<or> sid \<le> h2_last_client_id c")
          case True
          with err None p False show ?thesis by (simp add: h2_on_headers_def)
        next
          case good: False
          then have odd_sid: "odd (unat sid)" "h2_last_client_id c < sid" by (auto simp: even_and_1)
          obtain refuse c1 where a: "h2_admit env c sid = (refuse, c1)" by fastforce
          note c1 = admit_ok [OF c odd_sid sid a]
          obtain ok c2 where n: "h2_stream_new env c1 sid = (ok, c2)" by fastforce
          have c2: "base_ok lim c2" "ok \<Longrightarrow> \<exists>q \<in> set (h2_streams c2). s2_id q = sid \<and> \<not> s2_end_stream_recv q \<and> \<not> s2_got_headers q"
            if "refuse = 0" using stream_new_ok [OF _ odd_sid(1) _ _ _ _ n] c1 new that by auto
          have run: "h2_on_headers e c fl sid payload = (if refuse \<noteq> 0 then h2_begin_block e c1 fl sid None refuse False frag
              else if \<not> ok then c2\<lparr>h2_oom := True\<rparr> else h2_begin_block e c2 fl sid (Some sid) 0 False frag)"
            if "h2_admit e = h2_admit env" "h2_stream_new e = h2_stream_new env" for e
            using good False p None a n that unfolding h2_on_headers_def frag_def by auto
          have b1: "h2_wf lim (h2_begin_block env c1 fl sid None refuse False frag) \<and>
              h2_begin_block (env\<lparr>he_handler := h\<rparr>) c1 fl sid None refuse False frag = h2_begin_block env c1 fl sid None refuse False frag"
            using c1 by (intro begin_block_ok [OF ag]) auto
          have b2: "h2_wf lim (h2_begin_block env c2 fl sid (Some sid) 0 False frag) \<and>
              h2_begin_block (env\<lparr>he_handler := h\<rparr>) c2 fl sid (Some sid) 0 False frag = h2_begin_block env c2 fl sid (Some sid) 0 False frag"
            if "refuse = 0" "ok" using c2 that by (intro begin_block_ok [OF ag]) auto
          show ?thesis
            unfolding run [OF refl refl] run [OF conn_handler2(2) conn_handler(4)]
            using b1 b2 c2(1) base_wf [OF base_ok_oom] by auto
        qed
      qed
    qed
  qed
qed
lemma wire_streams: "wire_eq c c' \<Longrightarrow> h2_streams c' = h2_streams c"
  by (auto simp: wire_eq_def)

lemma recv_consume_member:
  assumes "st \<in> set (h2_streams (recv_consume env c o1 len b))"
  shows "\<exists>s \<in> set (h2_streams c). s2_id s = s2_id st \<and> s2_got_headers s = s2_got_headers st"
proof -
  have conn: "h2_streams (recv_consume_conn env d len) = h2_streams d" for d
    by (simp add: recv_consume_conn_def Let_def wire_streams [OF q_window_update_wire])
  have upd: "\<exists>s \<in> set (h2_streams d). s2_id s = s2_id st \<and> s2_got_headers s = s2_got_headers st"
    if "st \<in> set (h2_streams (upd_stream d sid (\<lambda>s. s\<lparr>s2_recv_window := w\<rparr>)))" for d sid w
    using that by (auto simp: set_upd_stream split: if_splits)
  have str: "\<exists>s \<in> set (h2_streams d). s2_id s = s2_id st \<and> s2_got_headers s = s2_got_headers st"
    if "st \<in> set (h2_streams (recv_consume_stream env d sid len))" for d sid
    using that upd [of "q_window_update env d sid _"] upd [of d]
    by (auto simp: recv_consume_stream_def Let_def wire_streams [OF q_window_update_wire] split: option.splits if_splits)
  show ?thesis using assms conn str [of "recv_consume_conn env c len"]
    by (cases o1; cases b) (auto simp: recv_consume_def Let_def)
qed

lemma body_base:
  assumes c: "base_ok lim c" and st: "find_stream c sid = Some st"
    and a: "zhs_buf_append alloc (rq_body (s2_req st)) data = (r, b)"
    and fits: "length data \<le> max_body_bytes lim - length (zb_data (rq_body (s2_req st)))"
  shows "base_ok lim (upd_stream c sid (\<lambda>s. s\<lparr>s2_req := (s2_req s)\<lparr>rq_body := b\<rparr>\<rparr>))"
proof -
  have "stream_wf lim st" using entry_wf [OF find_entry [OF c st]] c by (simp add: base_ok_def)
  then have q: "zb_wf (rq_body (s2_req st))" "zb_off (rq_body (s2_req st)) = 0"
      "length (zb_data (rq_body (s2_req st))) \<le> max_body_bytes lim"
    by (simp_all add: stream_wf_def req_wf_def)
  note b = append_data_cap [OF q(1,2) a]
  have "zb_wf b \<and> zb_off b = 0 \<and> length (zb_data b) \<le> max_body_bytes lim" using b q fits by auto
  then show ?thesis
    using c by (intro upd_field_base) (auto simp: stream_wf_def req_wf_def head_ok_def line_ok_def)
qed

lemma h2_on_data_ok:
  assumes ag: "agree lim env h" and c: "base_ok lim c"
  shows "base_ok lim (h2_on_data env c fl sid payload) \<and>
    h2_on_data (env\<lparr>he_handler := h\<rparr>) c fl sid payload = h2_on_data env c fl sid payload"
proof -
  have err: "base_ok lim (conn_error env d code)" if "base_ok lim d" for d code using that by (rule base_queue)
  have lim: "h2_lim c = lim" using c by (simp add: base_ok_def)
  show ?thesis
  proof (cases "find_stream c sid")
    case None
    with c err show ?thesis by (simp add: h2_on_data_def Let_def recv_consume_base)
  next
    case (Some st)
    show ?thesis
    proof (cases "sid = 0 \<or> int (length payload) > h2_recv_window c \<or> s2_end_stream_recv st \<or> \<not> s2_got_headers st \<or>
        int (length payload) > s2_recv_window st")
      case True
      with c err Some show ?thesis by (auto simp: h2_on_data_def Let_def recv_consume_base rst_stream_base)
    next
      case go: False
      show ?thesis
      proof (cases "\<exists>p pad. strip_padded fl False payload = Some (p, pad) \<and> pad \<le> length p")
        case False
        then have "h2_on_data e c fl sid payload = conn_error e c 1" for e
          using go Some by (auto simp: h2_on_data_def Let_def not_le split: option.splits)
        with err [OF c] show ?thesis by simp
      next
        case True
        then obtain p pad where p: "strip_padded fl False payload = Some (p, pad)" "\<not> pad > length p" by auto
        define data where "data = take (length p - pad) p"
        have blen: "length (zb_data (rq_body (s2_req st))) \<le> max_body_bytes lim"
          using entry_wf [OF find_entry [OF c Some]] lim by (simp add: stream_wf_def req_wf_def)
        show ?thesis
        proof (cases "length data > max_body_bytes lim - length (zb_data (rq_body (s2_req st)))")
          case True
          then have "h2_on_data e c fl sid payload = recv_consume e (rst_stream e c sid 11) None (length payload) False" for e
            using go Some p lim blen by (simp add: h2_on_data_def Let_def data_def)
          with c show ?thesis by (simp add: recv_consume_base rst_stream_base)
        next
          case False
          obtain r b where a: "zhs_buf_append (he_alloc env) (rq_body (s2_req st)) data = (r, b)" by fastforce
          define c1 where "c1 = upd_stream c sid (\<lambda>s. s\<lparr>s2_req := (s2_req s)\<lparr>rq_body := b\<rparr>\<rparr>)"
          have c1: "base_ok lim c1" unfolding c1_def using body_base [OF c Some a] False by simp
          define c2 where "c2 = recv_consume env c1 (Some sid) (length payload) (\<not> (fl AND 1 \<noteq> 0))"
          have c2: "base_ok lim c2" unfolding c2_def by (rule recv_consume_base [OF c1])
          have uniq: "s = st" if "s \<in> set (h2_streams c)" "s2_id s = sid" for s
            using find_stream_eq [OF _ that] Some c by (simp add: base_ok_def tab_ok_def)
          have got: "s2_got_headers s" if s: "s \<in> set (h2_streams c2)" "s2_id s = sid" for s
          proof -
            from recv_consume_member [OF s(1) [unfolded c2_def]] obtain s1 where
              s1: "s1 \<in> set (h2_streams c1)" "s2_id s1 = sid" "s2_got_headers s1 = s2_got_headers s" using s(2) by auto
            from upd_member [OF s1(1) [unfolded c1_def] s1(2)] uniq go s1(3) show ?thesis by auto
          qed
          note disp = end_dispatch_ok [OF ag c2 got]
          have run: "h2_on_data e c fl sid payload = (if r \<noteq> ZCIO_OK then c1\<lparr>h2_oom := True\<rparr>
              else if fl AND 1 \<noteq> 0 then h2_dispatch e (upd_stream c2 sid (\<lambda>s. s\<lparr>s2_end_stream_recv := True\<rparr>)) sid else c2)"
            if "he_alloc e = he_alloc env" "recv_consume e = recv_consume env" for e
            using go Some p lim blen False a that unfolding h2_on_data_def Let_def data_def c2_def c1_def by simp
          show ?thesis unfolding run [OF refl refl] run [OF env_handler(1) conn_handler(3)]
            using disp c2 c1 by (auto simp: base_ok_oom)
        qed
      qed
    qed
  qed
qed

subsection \<open>Feed\<close>

lemma frame_order_ok:
  assumes "h2_wf lim c" "h2_frame_order c ty sid = (ok, c')"
  shows "h2_wf lim c' \<and> h2_got_error c' = h2_got_error c \<and> (ok \<and> ty \<noteq> 9 \<longrightarrow> \<not> h2_hdr_active c') \<and> (ok \<and> ty = 9 \<longrightarrow> h2_hdr_active c')"
proof -
  have "c' = c \<and> \<not> ok \<or> c' = c\<lparr>h2_need_settings := False\<rparr>" using assms(2) by (auto simp: h2_frame_order_def Let_def split: if_splits)
  moreover have "h2_wf lim (c\<lparr>h2_need_settings := False\<rparr>)" using assms(1) by (simp add: h2_wf_def h2_upd blk_ok_def)
  ultimately show ?thesis using assms by (auto simp: h2_frame_order_def Let_def split: if_splits)
qed

lemma h2_on_frame_ok:
  assumes ag: "agree lim env h" and wf: "h2_wf lim c" "\<not> h2_got_error c" "unat sid < 2 ^ 31"
    and act: "ty \<noteq> 9 \<longrightarrow> \<not> h2_hdr_active c" "ty = 9 \<longrightarrow> h2_hdr_active c"
  shows "h2_wf lim (fst (h2_on_frame env c ty fl sid p np ns)) \<and>
    h2_on_frame (env\<lparr>he_handler := h\<rparr>) c ty fl sid p np ns = h2_on_frame env c ty fl sid p np ns"
proof (cases "ty = 9")
  case True
  with on_continuation_ok [OF ag wf(1,2)] act show ?thesis by (simp add: h2_on_frame_def)
next
  case False
  then have c: "base_ok lim c" using act wf(1) by (simp add: wf_base)
  note base = h2_on_data_ok [OF ag c] on_headers_ok [OF ag c wf(3)] on_priority_base [OF c] on_rst_base [OF c wf(2)]
    on_settings_base [OF c wf(2)] on_ping_base [OF c] on_goaway_base [OF c] on_window_update_base [OF c wf(2)]
  have set: "h2_wf lim (fst (case h2_on_settings env c fl sid p ns of (c1, n) \<Rightarrow> (c1, np, n)))"
    using base_wf [OF base(5), of env fl sid p ns] by (cases "h2_on_settings env c fl sid p ns") simp
  have ping: "h2_wf lim (fst (case h2_on_ping env c fl sid p np of (c1, n) \<Rightarrow> (c1, n, ns)))"
    using base_wf [OF base(6), of env fl sid p np] by (cases "h2_on_ping env c fl sid p np") simp
  have err: "h2_wf lim (conn_error env c 1)" using c by (intro base_wf base_queue)
  show ?thesis unfolding h2_on_frame_def using False base base_wf set ping err wf(1)
    by (simp split: if_splits)
qed

lemma sid_mask: "unat (w AND 0x7fffffff :: u32) < 2 ^ 31"
proof -
  have "w AND 0x7fffffff \<le> 0x7fffffff" by (rule word_and_le1)
  then have "unat (w AND 0x7fffffff) \<le> 0x7fffffff" by (simp add: word_le_nat_alt)
  then show ?thesis by simp
qed

lemma feed_loop_ok:
  assumes ag: "agree lim env h"
  shows "h2_wf lim c \<Longrightarrow> h2_wf lim (fst (zh2_feed_loop env c inp np ns)) \<and>
    zh2_feed_loop (env\<lparr>he_handler := h\<rparr>) c inp np ns = zh2_feed_loop env c inp np ns"
  using ag
proof (induction env c inp np ns rule: zh2_feed_loop.induct)
  case (1 env c inp np ns)
  let ?p = "ZHS_PTR inp"
  let ?len = "unat (rd24 ?p)" and ?sid = "rd32 (drop 5 ?p) AND 0x7fffffff"
  have err: "h2_wf lim (conn_error env d code)" if "h2_wf lim d" for d code using that by (intro conn_error_wf wf_error)
  note unfold = zh2_feed_loop.simps [of env c inp np ns] zh2_feed_loop.simps [of "env\<lparr>he_handler := h\<rparr>" c inp np ns]
  show ?case
  proof (cases "h2_got_error c \<or> h2_oom c \<or> h1_avail inp < 9 \<or> ?len > 16384 \<or> h1_avail inp < 9 + ?len")
    case True
    then show ?thesis using 1(2) err [OF 1(2)] unfold by (auto simp: Let_def)
  next
    case go: False
    obtain ok c1 where o: "h2_frame_order c (?p ! 3) ?sid = (ok, c1)" by fastforce
    note c1 = frame_order_ok [OF 1(2) o]
    show ?thesis
    proof (cases ok)
      case False
      then show ?thesis using unfold go o c1 err by (simp add: Let_def)
    next
      case True
      let ?f = "h2_on_frame env c1 (?p ! 3) (?p ! 4) ?sid (take ?len (drop 9 ?p)) np ns"
      obtain c2 np1 ns1 where f: "?f = (c2, np1, ns1)" using prod_cases3 by blast
      have fr: "h2_wf lim (fst ?f) \<and> h2_on_frame (env\<lparr>he_handler := h\<rparr>) c1 (?p ! 3) (?p ! 4) ?sid (take ?len (drop 9 ?p)) np ns = ?f"
        using c1 True go sid_mask [of "rd32 (drop 5 ?p)"] by (intro h2_on_frame_ok [OF 1(3)]) auto
      then have c2: "h2_wf lim c2" using f by simp
      have "h2_wf lim (fst (zh2_feed_loop env c2 (zhs_buf_consume inp (9 + ?len)) np1 ns1)) \<and>
        zh2_feed_loop (env\<lparr>he_handler := h\<rparr>) c2 (zhs_buf_consume inp (9 + ?len)) np1 ns1 = zh2_feed_loop env c2 (zhs_buf_consume inp (9 + ?len)) np1 ns1"
        using go True by (intro 1(1) [OF refl _ _ refl refl refl refl _ _ o [symmetric] _ f [symmetric] refl c2 1(3)]) auto
      then show ?thesis using unfold go o True f fr by (simp add: Let_def)
    qed
  qed
qed
lemma h2_wf_preface: "h2_wf lim c \<Longrightarrow> h2_wf lim (c\<lparr>h2_preface_got := n\<rparr>)" "h2_wf lim c \<Longrightarrow> h2_wf lim (c\<lparr>h2_preface_done := b\<rparr>)"
  by (simp_all add: h2_wf_def h2_upd blk_ok_def)

lemma preface_ok:
  "h2_wf lim c \<Longrightarrow> h2_wf lim (fst (snd (consume_preface env c inp))) \<and>
    consume_preface (env\<lparr>he_handler := h\<rparr>) c inp = consume_preface env c inp"
proof (induction env c inp rule: consume_preface.induct)
  case (1 env c inp)
  note unfold = consume_preface.simps [of env c inp] consume_preface.simps [of "env\<lparr>he_handler := h\<rparr>" c inp]
  have err: "h2_wf lim (conn_error env c 1)" using 1(2) by (intro conn_error_wf wf_error)
  show ?case using 1(1) [OF _ _ h2_wf_preface(1) [OF 1(2)]] 1(2) err unfold by (auto simp: h2_wf_preface)
qed

lemma feed_ok:
  assumes ag: "agree lim env h" and wf: "h2_wf lim c"
  shows "zh2_feed (env\<lparr>he_handler := h\<rparr>) c inp = zh2_feed env c inp \<and>
    (case zh2_feed env c inp of (r, c', inp') \<Rightarrow> h2_wf lim c')"
proof -
  define start where "start e = (if h2_preface_done c then (True, c, inp) else consume_preface e c inp)" for e
  obtain ok c1 inp1 where s: "start env = (ok, c1, inp1)" using prod_cases3 by blast
  have s2: "start (env\<lparr>he_handler := h\<rparr>) = start env" and c1: "h2_wf lim c1"
    using preface_ok [OF wf, of env inp h] s wf by (auto simp: start_def split: if_splits)
  obtain c2 inp2 where l: "zh2_feed_loop env c1 inp1 0 0 = (c2, inp2)" by fastforce
  note lp = feed_loop_ok [OF ag c1, of inp1 0 0]
  show ?thesis using s s2 c1 l lp wf unfolding zh2_feed_def start_def [symmetric] by simp
qed

subsection \<open>Pump\<close>

lemma pump_chunk_le:
  assumes "pump_chunk c st \<noteq> 0"
  shows "int (pump_chunk c st) \<le> s2_send_window st" "int (pump_chunk c st) \<le> h2_send_window c"
    "pump_chunk c st \<le> length (zb_data (s2_resp_body st)) - s2_body_off st"
    "pump_chunk c st \<le> unat (h2_peer_max_frame c)"
    "ZHS_AVAIL (h2_out c) + 9 + pump_chunk c st \<le> max_out_bytes (h2_lim c)"
proof -
  define win where "win = min (if s2_send_window st < 0 then 0 else s2_send_window st) (if h2_send_window c < 0 then 0 else h2_send_window c)"
  define left where "left = length (zb_data (s2_resp_body st)) - s2_body_off st"
  define room where "room = max_out_bytes (h2_lim c) - ZHS_AVAIL (h2_out c)"
  have ch: "\<not> win \<le> 0 \<and> \<not> room \<le> 9 \<and> pump_chunk c st = min (min (min left (nat win)) (unat (h2_peer_max_frame c))) (room - 9)"
    using assms unfolding pump_chunk_def Let_def win_def [symmetric] left_def [symmetric] room_def [symmetric]
    by (simp split: if_splits)
  then have le: "pump_chunk c st \<le> left" "pump_chunk c st \<le> nat win" "pump_chunk c st \<le> unat (h2_peer_max_frame c)" "pump_chunk c st \<le> room - 9"
    by linarith+
  have w: "win \<le> s2_send_window st" "win \<le> h2_send_window c"
    using ch unfolding win_def by (auto simp: min_def split: if_splits)
  show "int (pump_chunk c st) \<le> s2_send_window st" "int (pump_chunk c st) \<le> h2_send_window c" using le(2) w ch by linarith+
  show "pump_chunk c st \<le> length (zb_data (s2_resp_body st)) - s2_body_off st" using le(1) by (simp add: left_def)
  show "pump_chunk c st \<le> unat (h2_peer_max_frame c)" by (rule le)
  show "ZHS_AVAIL (h2_out c) + 9 + pump_chunk c st \<le> max_out_bytes (h2_lim c)" using le(4) ch unfolding room_def by linarith
qed

text \<open>One DATA frame: the connection and the stream after it.\<close>

definition pump_flags :: "zh2_conn \<Rightarrow> zh2_stream \<Rightarrow> byte" where
  "pump_flags c st = (if s2_body_off st + pump_chunk c st = length (zb_data (s2_resp_body st)) \<and> s2_resp_end_after_body st then 1 else 0)"

definition pump_sent :: "zh2_conn \<Rightarrow> zh2_stream \<Rightarrow> zh2_stream" where
  "pump_sent c st = st\<lparr>s2_body_off := s2_body_off st + pump_chunk c st, s2_send_window := s2_send_window st - int (pump_chunk c st),
     s2_send_done := (s2_send_done st \<or> s2_body_off st + pump_chunk c st = length (zb_data (s2_resp_body st)))\<rparr>"

lemma pump_body_induct [consumes 1, case_names stop oom step]:
  assumes "pump_body env c st = (c', st')"
    and stop: "\<And>c st. \<not> (s2_body_off st < length (zb_data (s2_resp_body st)) \<and> pump_chunk c st \<noteq> 0) \<Longrightarrow> P c st c st"
    and oom: "\<And>c st r c1. s2_body_off st < length (zb_data (s2_resp_body st)) \<Longrightarrow> pump_chunk c st \<noteq> 0 \<Longrightarrow>
      h2_frame env c (of_nat (pump_chunk c st)) 0 (pump_flags c st) (s2_id st)
        (Some (drop (s2_body_off st) (zb_data (s2_resp_body st)))) = (r, c1) \<Longrightarrow> r \<noteq> ZCIO_OK \<Longrightarrow>
      P c st (c1\<lparr>h2_oom := True\<rparr>) st"
    and step: "\<And>c st c1 c' st'. s2_body_off st < length (zb_data (s2_resp_body st)) \<Longrightarrow> pump_chunk c st \<noteq> 0 \<Longrightarrow>
      h2_frame env c (of_nat (pump_chunk c st)) 0 (pump_flags c st) (s2_id st)
        (Some (drop (s2_body_off st) (zb_data (s2_resp_body st)))) = (ZCIO_OK, c1) \<Longrightarrow>
      P (c1\<lparr>h2_send_window := h2_send_window c1 - int (pump_chunk c st)\<rparr>) (pump_sent c st) c' st' \<Longrightarrow> P c st c' st'"
  shows "P c st c' st'"
  using assms(1)
proof (induction "length (zb_data (s2_resp_body st)) - s2_body_off st" arbitrary: c st rule: less_induct)
  case less
  show ?case
  proof (cases "s2_body_off st < length (zb_data (s2_resp_body st)) \<and> pump_chunk c st \<noteq> 0")
    case False
    with less.prems have "c' = c" "st' = st" by (subst (asm) pump_body.simps; auto simp: Let_def)+
    with stop [OF False] show ?thesis by simp
  next
    case True
    obtain r c1 where f: "h2_frame env c (of_nat (pump_chunk c st)) 0 (pump_flags c st) (s2_id st)
        (Some (drop (s2_body_off st) (zb_data (s2_resp_body st)))) = (r, c1)" by fastforce
    show ?thesis
    proof (cases "r = ZCIO_OK")
      case False
      with less.prems True f have "c' = c1\<lparr>h2_oom := True\<rparr>" "st' = st"
        by (subst (asm) pump_body.simps; simp add: Let_def pump_flags_def)+
      with oom [OF _ _ f False] True show ?thesis by simp
    next
      case ok: True
      with less.prems True f have run: "pump_body env (c1\<lparr>h2_send_window := h2_send_window c1 - int (pump_chunk c st)\<rparr>) (pump_sent c st) = (c', st')"
        by (subst (asm) pump_body.simps) (simp add: Let_def pump_flags_def pump_sent_def)
      have "P (c1\<lparr>h2_send_window := h2_send_window c1 - int (pump_chunk c st)\<rparr>) (pump_sent c st) c' st'"
        using True by (intro less.hyps [OF _ run]) (auto simp: pump_sent_def)
      with step [OF _ _ f [unfolded ok]] True show ?thesis by blast
    qed
  qed
qed

definition pump_inv :: "zhs_limits \<Rightarrow> zh2_conn \<Rightarrow> zh2_stream \<Rightarrow> bool" where
  "pump_inv lim c st \<longleftrightarrow> h2_lim c = lim \<and> num_ok c \<and> stream_wf lim st \<and> win_ok (h2_got_error c) (uint (h2_peer_initial_window c)) st"

lemma pump_body_inv:
  assumes "pump_body env c st = (c', st')"
  shows "pump_inv lim c st \<longrightarrow> pump_inv lim c' st' \<and> s2_id st' = s2_id st \<and>
    s2_end_stream_recv st' = s2_end_stream_recv st \<and> s2_got_headers st' = s2_got_headers st"
  using assms
proof (induction rule: pump_body_induct)
  case (oom c st r c1)
  from h2_frame_ok [OF oom(3)] show ?case by (auto simp: pump_inv_def h2_upd num_ok_outD)
next
  case (step c st c1 c' st')
  note le = pump_chunk_le [OF step(2)]
  have "pump_inv lim (c1\<lparr>h2_send_window := h2_send_window c1 - int (pump_chunk c st)\<rparr>) (pump_sent c st)" if inv: "pump_inv lim c st"
  proof -
    from h2_frame_ok [OF step(3)] inv obtain o1 where c1: "c1 = c\<lparr>h2_out := o1\<rparr>" "zb_wf o1"
      unfolding pump_inv_def using num_ok_outD by blast
    have piw: "uint (h2_peer_initial_window c) \<le> 0x7fffffff" using inv by (simp add: pump_inv_def num_ok_def)
    have "num_ok (c1\<lparr>h2_send_window := h2_send_window c1 - int (pump_chunk c st)\<rparr>)"
      using inv c1 le(2) by (auto simp: pump_inv_def num_ok_def)
    moreover have "stream_wf lim (pump_sent c st)"
      using inv le(3) by (auto simp: pump_inv_def stream_wf_def pump_sent_def)
    moreover have "win_ok (h2_got_error c) (uint (h2_peer_initial_window c)) (pump_sent c st)"
      using inv le(1) piw by (auto simp: pump_inv_def win_ok_def pump_sent_def)
    ultimately show ?thesis using inv c1 by (simp add: pump_inv_def)
  qed
  with step(4) show ?case by (simp add: pump_sent_def)
qed simp

lemma tab_ok_replace:
  assumes "tab_ok c" "i < length (h2_streams c)" "entry_ok c s" "s2_id s = s2_id (h2_streams c ! i)"
  shows "tab_ok (c\<lparr>h2_streams := (h2_streams c)[i := s]\<rparr>)"
proof -
  have "map s2_id ((h2_streams c)[i := s]) = map s2_id (h2_streams c)"
    using assms(2,4) by (simp add: map_update list_update_same_conv)
  moreover have "\<forall>t \<in> set ((h2_streams c)[i := s]). entry_ok c t"
    using assms by (auto simp: tab_ok_def dest!: set_update_subset_insert [THEN subsetD])
  ultimately show ?thesis using assms(1) by (simp add: tab_ok_def h2_upd count_ok_def)
qed

lemma blk_ok_replace:
  assumes "blk_ok c" "i < length (h2_streams c)" "s2_id s = s2_id (h2_streams c ! i)"
    "s2_end_stream_recv s = s2_end_stream_recv (h2_streams c ! i)" "s2_got_headers s = s2_got_headers (h2_streams c ! i)"
  shows "blk_ok (c\<lparr>h2_streams := (h2_streams c)[i := s]\<rparr>)"
proof -
  have "\<exists>q \<in> set ((h2_streams c)[i := s]). P (s2_id q) (s2_end_stream_recv q) (s2_got_headers q)"
    if "\<exists>q \<in> set (h2_streams c). P (s2_id q) (s2_end_stream_recv q) (s2_got_headers q)" for P
  proof -
    from that obtain j where j: "j < length (h2_streams c)" "P (s2_id (h2_streams c ! j)) (s2_end_stream_recv (h2_streams c ! j)) (s2_got_headers (h2_streams c ! j))"
      by (auto simp: in_set_conv_nth)
    have "(h2_streams c)[i := s] ! j \<in> set ((h2_streams c)[i := s])" using j(1) by (intro nth_mem) simp
    moreover have "P (s2_id ((h2_streams c)[i := s] ! j)) (s2_end_stream_recv ((h2_streams c)[i := s] ! j)) (s2_got_headers ((h2_streams c)[i := s] ! j))"
      using j assms(2-5) by (cases "i = j") simp_all
    ultimately show ?thesis by blast
  qed
  from this [of "\<lambda>a b g. a = _ \<and> \<not> b \<and> g = h2_hdr_trailer c"] assms(1) show ?thesis by (simp add: blk_ok_def)
qed

lemma blk_ok_close:
  assumes "blk_ok c" "tab_ok c" "i < length (h2_streams c)" "s2_end_stream_recv (h2_streams c ! i)"
  shows "blk_ok (stream_close c i)"
proof -
  have dist: "distinct (map s2_id (h2_streams c))" using assms(2) by (simp add: tab_ok_def)
  have "q \<in> set (h2_streams (stream_close c i))" if "q \<in> set (h2_streams c)" "\<not> s2_end_stream_recv q" for q
  proof -
    have "s2_id q \<noteq> s2_id (h2_streams c ! i)"
      using dist assms(3,4) that by (metis find_stream_eq nth_mem option.inject)
    then show ?thesis using set_stream_close [OF dist assms(3)] that(1) by simp
  qed
  moreover have "h2_hdr_active (stream_close c i) = h2_hdr_active c" "h2_hdr_stream (stream_close c i) = h2_hdr_stream c"
    "h2_hdr_id (stream_close c i) = h2_hdr_id c" "h2_hdr_trailer (stream_close c i) = h2_hdr_trailer c"
    by (simp_all add: stream_close_def)
  ultimately show ?thesis using assms(1) unfolding blk_ok_def by metis
qed

lemma stream_close_wf:
  assumes "h2_wf lim c" "i < length (h2_streams c)" "s2_end_stream_recv (h2_streams c ! i)"
  shows "h2_wf lim (stream_close c i)"
  using assms stream_close_tab [of c i] blk_ok_close [of c i] unfolding h2_wf_def
  by (simp add: stream_close_def h2_upd)

text \<open>One turn of the pump on stream \<open>i\<close>.\<close>

definition pump_turn :: "h1_env \<Rightarrow> zh2_conn \<Rightarrow> nat \<Rightarrow> zh2_conn \<times> zh2_stream" where
  "pump_turn env c i =
     (let st = h2_streams c ! i in
      if s2_resp_headers_done st \<and> \<not> s2_send_done st then pump_body env c st else (c, st))"

lemma pump_turn_wf:
  assumes wf: "h2_wf lim c" and i: "i < length (h2_streams c)" and p: "pump_turn env c i = (c1, st1)"
  defines "c2 \<equiv> c1\<lparr>h2_streams := (h2_streams c1)[i := st1]\<rparr>"
  shows "h2_wf lim c2" "h2_streams c2 = (h2_streams c)[i := st1]" "s2_id st1 = s2_id (h2_streams c ! i)"
proof -
  let ?st = "h2_streams c ! i"
  have ent: "entry_ok c ?st" using wf i by (simp add: h2_wf_def tab_ok_def)
  then have inv: "pump_inv lim c ?st" using wf by (simp add: pump_inv_def entry_ok_def h2_wf_def)
  have same: "\<exists>o1 w b. c = c\<lparr>h2_out := o1, h2_send_window := w, h2_oom := b\<rparr>"
    by (intro exI [of _ "h2_out c"] exI [of _ "h2_send_window c"] exI [of _ "h2_oom c"]) simp
  have one: "pump_inv lim c1 st1" "s2_id st1 = s2_id ?st" "s2_end_stream_recv st1 = s2_end_stream_recv ?st"
      "s2_got_headers st1 = s2_got_headers ?st" "\<exists>o1 w b. c1 = c\<lparr>h2_out := o1, h2_send_window := w, h2_oom := b\<rparr>"
    using p inv pump_body_inv [of env c ?st c1 st1 lim] pump_body_conn [of env c ?st c1 st1] same
    by (auto simp: pump_turn_def Let_def split: if_splits)
  from one(5) obtain o1 w b where c1: "c1 = c\<lparr>h2_out := o1, h2_send_window := w, h2_oom := b\<rparr>" by blast
  have len: "i < length (h2_streams c1)" "h2_streams c1 ! i = ?st" using c1 i by simp_all
  have "tab_ok c1" "blk_ok c1" using wf by (auto simp: c1 h2_wf_def h2_upd blk_ok_def)
  moreover have "entry_ok c1 st1" using one(1,2) ent by (simp add: pump_inv_def entry_ok_def c1)
  ultimately have "tab_ok c2" "blk_ok c2"
    using one len tab_ok_replace [of c1 i st1] blk_ok_replace [of c1 i st1] by (simp_all add: c2_def)
  moreover have "num_ok c2" "h2_lim c2 = lim" using one(1) by (simp_all add: c2_def h2_upd pump_inv_def)
  ultimately show "h2_wf lim c2" by (simp add: h2_wf_def)
  show "h2_streams c2 = (h2_streams c)[i := st1]" using c1 by (simp add: c2_def)
  show "s2_id st1 = s2_id ?st" by (rule one)
qed

text \<open>The pump as an induction over its turns.\<close>

lemma pump_loop_induct [consumes 1, case_names stop oom close onward]:
  assumes wf: "h2_wf lim c"
    and stop: "\<And>c i. h2_wf lim c \<Longrightarrow> length (h2_streams c) \<le> i \<Longrightarrow> P c i c"
    and oom: "\<And>c i c1 st1. h2_wf lim c \<Longrightarrow> i < length (h2_streams c) \<Longrightarrow> pump_turn env c i = (c1, st1) \<Longrightarrow>
      h2_oom c1 \<Longrightarrow> P c i (c1\<lparr>h2_streams := (h2_streams c1)[i := st1]\<rparr>)"
    and close: "\<And>c i c1 st1 c'. h2_wf lim c \<Longrightarrow> i < length (h2_streams c) \<Longrightarrow> pump_turn env c i = (c1, st1) \<Longrightarrow>
      \<not> h2_oom c1 \<Longrightarrow> s2_send_done st1 \<Longrightarrow> s2_end_stream_recv st1 \<Longrightarrow>
      P (stream_close (c1\<lparr>h2_streams := (h2_streams c1)[i := st1]\<rparr>) i) i c' \<Longrightarrow> P c i c'"
    and onward: "\<And>c i c1 st1 c'. h2_wf lim c \<Longrightarrow> i < length (h2_streams c) \<Longrightarrow> pump_turn env c i = (c1, st1) \<Longrightarrow>
      \<not> h2_oom c1 \<Longrightarrow> P (c1\<lparr>h2_streams := (h2_streams c1)[i := st1]\<rparr>) (i + 1) c' \<Longrightarrow> P c i c'"
  shows "P c i (pump_loop env c i)"
  using wf
proof (induction "length (h2_streams c) - i" arbitrary: c i rule: less_induct)
  case less
  show ?case
  proof (cases "i < length (h2_streams c)")
    case False
    with stop [OF less.prems] show ?thesis by (simp add: pump_loop.simps)
  next
    case True
    obtain c1 st1 where p: "pump_turn env c i = (c1, st1)" by fastforce
    define c2 where "c2 = c1\<lparr>h2_streams := (h2_streams c1)[i := st1]\<rparr>"
    note t = pump_turn_wf [OF less.prems True p, folded c2_def]
    have o: "h2_oom c2 = h2_oom c1" by (simp add: c2_def)
    have run: "pump_loop env c i = (if h2_oom c1 then c2 else if s2_send_done st1 \<and> s2_end_stream_recv st1
        then pump_loop env (stream_close c2 i) i else pump_loop env c2 (i + 1))"
      using True p unfolding pump_turn_def Let_def by (subst pump_loop.simps) (simp add: Let_def c2_def)
    have i2: "i < length (h2_streams c2)" "h2_streams c2 ! i = st1" "length (h2_streams c2) = length (h2_streams c)"
      using t(2) True by simp_all
    consider "h2_oom c1" | "\<not> h2_oom c1" "s2_send_done st1 \<and> s2_end_stream_recv st1"
      | "\<not> h2_oom c1" "\<not> (s2_send_done st1 \<and> s2_end_stream_recv st1)" by blast
    then show ?thesis
    proof cases
      case 1
      with oom [OF less.prems True p] run show ?thesis by (simp add: c2_def)
    next
      case 2
      have "h2_wf lim (stream_close c2 i)" using stream_close_wf [OF t(1) i2(1)] i2(2) 2 by simp
      moreover have "length (h2_streams (stream_close c2 i)) - i < length (h2_streams c) - i"
        using i2 by (simp add: stream_close_streams)
      ultimately have "P (stream_close c2 i) i (pump_loop env (stream_close c2 i) i)" using less.hyps by blast
      with close [OF less.prems True p 2(1), of "pump_loop env (stream_close c2 i) i"] 2 run show ?thesis
        by (simp add: c2_def)
    next
      case 3
      have "P c2 (i + 1) (pump_loop env c2 (i + 1))" using i2 by (intro less.hyps [OF _ t(1)]) simp
      with onward [OF less.prems True p 3(1), of "pump_loop env c2 (i + 1)"] 3 run show ?thesis by (auto simp: c2_def)
    qed
  qed
qed

lemma pump_loop_wf: "h2_wf lim c \<Longrightarrow> h2_wf lim (pump_loop env c i)"
proof (induction rule: pump_loop_induct [where env = env])
  case (oom c i c1 st1)
  from pump_turn_wf(1) [OF oom(1-3)] show ?case .
qed

subsection \<open>Reachable connections\<close>

lemma new_wf:
  assumes "zh2_new env a b lim secure out = Some c" "zb_wf out"
  shows "h2_wf lim c"
proof -
  obtain d where d: "zhp_dec_new b ZHP_DEC_TABLE_MAX = Some d" using assms(1) by (auto simp: zh2_new_def split: if_splits option.splits)
  note dw = dec_new_wf [OF d]
  let ?c0 = "\<lparr>h2_lim = lim, h2_secure = secure, h2_out = out, h2_dec = d, h2_preface_got = 0,
     h2_preface_done = False, h2_need_settings = True, h2_closing = False, h2_goaway_sent = False,
     h2_peer_goaway = False, h2_got_error = False, h2_oom = False,
     h2_recv_window = 65535, h2_send_window = 65535, h2_peer_initial_window = 65535,
     h2_peer_max_frame = 16384, h2_streams = [], h2_streams_cap = 0, h2_last_client_id = 0,
     h2_open_count = 0, h2_total_streams = 0, h2_rapid_reset = 0, h2_hdr_active = False,
     h2_hdr_id = 0, h2_hdr_stream = None, h2_hdr_refuse = 0, h2_hdr_trailer = False,
     h2_hdr_end_stream = False, h2_hdr_block = zhs_buf_zero, h2_cont_count = 0\<rparr>"
  obtain r c1 where f: "h2_frame env ?c0 30 4 0 0 (Some (h2_settings_payload lim)) = (r, c1)" by fastforce
  have c: "c = c1" using assms(1) d f by (auto simp: zh2_new_def Let_def split: if_splits)
  from h2_frame_ok [OF f] assms(2) obtain o1 where o1: "c1 = ?c0\<lparr>h2_out := o1\<rparr>" "zb_wf o1" by auto
  have "tab_ok (?c0\<lparr>h2_out := o1\<rparr>)" "blk_ok (?c0\<lparr>h2_out := o1\<rparr>)" by (simp_all add: tab_ok_def count_ok_def blk_ok_def)
  moreover have "num_ok (?c0\<lparr>h2_out := o1\<rparr>)" using dw o1(2) by (simp add: num_ok_def zb_wf_def zhs_buf_zero_def)
  ultimately show ?thesis unfolding c o1(1) h2_wf_def by simp
qed

lemma graceful_wf:
  assumes "h2_wf lim c"
  shows "h2_wf lim (zh2_graceful env c)"
proof -
  from q_goaway_shape [of env c 0] obtain o1 b where
    q: "q_goaway env c 0 = c\<lparr>h2_out := o1, h2_oom := b, h2_goaway_sent := True\<rparr>" "zb_wf (h2_out c) \<longrightarrow> zb_wf o1" by blast
  with assms show ?thesis unfolding h2_wf_def blk_ok_def zh2_graceful_def by (simp add: h2_upd num_ok_outD)
qed

lemma drain_wf: "h2_wf lim c \<Longrightarrow> h2_wf lim (c\<lparr>h2_out := zhs_buf_consume (h2_out c) n\<rparr>)"
  using consume_ok [OF num_ok_outD] by (simp add: h2_wf_def h2_upd blk_ok_def)

lemma pump_wf: "h2_wf lim c \<Longrightarrow> h2_wf lim (zh2_pump env c)"
  by (simp add: zh2_pump_def pump_loop_wf)

text \<open>
  The states of a connection under the loop that owns it: created on a sound output buffer, fed
  received bytes, pumped, wound down, and drained of output by the socket. Each step may see its
  own allocator, clock and handler; the contract of the allocator is the length of its blocks.
\<close>

inductive h2_reach :: "zhs_limits \<Rightarrow> zh2_conn \<Rightarrow> bool" for lim where
  reach_new: "zh2_new env a b lim secure out = Some c \<Longrightarrow> zb_wf out \<Longrightarrow> h2_reach lim c"
| reach_feed: "h2_reach lim c \<Longrightarrow> (\<And>n. length (he_junk env n) = n) \<Longrightarrow> zh2_feed env c inp = (r, c', inp') \<Longrightarrow> h2_reach lim c'"
| reach_pump: "h2_reach lim c \<Longrightarrow> h2_reach lim (zh2_pump env c)"
| reach_graceful: "h2_reach lim c \<Longrightarrow> h2_reach lim (zh2_graceful env c)"
| reach_drain: "h2_reach lim c \<Longrightarrow> h2_reach lim (c\<lparr>h2_out := zhs_buf_consume (h2_out c) n\<rparr>)"

lemma reach_wf: "h2_reach lim c \<Longrightarrow> h2_wf lim c"
proof (induction rule: h2_reach.induct)
  case (reach_feed c env inp r c' inp')
  then have "agree lim env (he_handler env)" by (simp add: agree_def)
  from feed_ok [OF this reach_feed.IH, of inp] reach_feed.hyps(3) show ?case by simp
qed (auto intro: new_wf pump_wf graceful_wf drain_wf)

text \<open>
  C18. Whatever a peer sends and however its bytes are cut, what a connection holds stays bounded:
  the stream ids in the table are distinct and as many as the counter says, at most the advertised
  number of concurrent streams; the header block in progress is at most the header limit and 4096
  bytes and belongs to a live stream; CONTINUATION frames and early resets are counted up to their
  limits and one more, which ends the connection; the HPACK table is at most 4096 bytes, and every
  request has headers and body within the limits.
\<close>
theorem h2_state_bounded:
  assumes "h2_reach lim c"
  shows "distinct (map s2_id (h2_streams c)) \<and> unat (h2_open_count c) = length (h2_streams c) \<and>
    length (h2_streams c) \<le> max_streams lim \<and>
    unat (h2_rapid_reset c) \<le> max_streams lim + of_bool (h2_got_error c) \<and>
    unat (h2_cont_count c) \<le> 64 + of_bool (h2_got_error c) \<and>
    length (ZHS_PTR (h2_hdr_block c)) \<le> max_header_bytes lim + 4096 \<and>
    table_size (dec_live (h2_dec c)) \<le> 4096 \<and>
    (\<forall>sid. h2_hdr_active c \<and> h2_hdr_stream c = Some sid \<longrightarrow> sid \<in> s2_id ` set (h2_streams c)) \<and>
    list_all (\<lambda>s. length (ZHS_PTR (rq_body (s2_req s))) \<le> max_body_bytes lim \<and>
      length (hs_v (rq_headers (s2_req s))) \<le> max_headers lim) (h2_streams c)"
proof -
  have wf: "h2_lim c = lim" "tab_ok c" "num_ok c" "blk_ok c" using reach_wf [OF assms] by (simp_all add: h2_wf_def)
  have cnt: "count_ok c" "distinct (map s2_id (h2_streams c))" using wf(2) by (simp_all add: tab_ok_def)
  have "block_cap lim \<le> max_header_bytes lim + 4096" by (auto simp: block_cap_def)
  then have blk: "length (ZHS_PTR (h2_hdr_block c)) \<le> max_header_bytes lim + 4096"
    using wf(1,3) by (simp add: num_ok_def ZHS_PTR_def)
  have tbl: "table_size (dec_live (h2_dec c)) \<le> 4096"
    using wf(3) by (simp add: num_ok_def dec_wf_def dec_acc_def ZHP_DEC_TABLE_MAX_def)
  have "stream_wf lim s" if "s \<in> set (h2_streams c)" for s using wf(1,2) that by (simp add: tab_ok_def entry_ok_def)
  then have "list_all (\<lambda>s. length (ZHS_PTR (rq_body (s2_req s))) \<le> max_body_bytes lim \<and>
      length (hs_v (rq_headers (s2_req s))) \<le> max_headers lim) (h2_streams c)"
    by (auto simp: list_all_iff stream_wf_def req_wf_def ZHS_PTR_def hdrs_wf_def)
  moreover have "\<forall>sid. h2_hdr_active c \<and> h2_hdr_stream c = Some sid \<longrightarrow> sid \<in> s2_id ` set (h2_streams c)"
    using wf(4) unfolding blk_ok_def by (metis imageI)
  moreover have "unat (h2_cont_count c) \<le> 64 + of_bool (h2_got_error c)" using wf(3) by (simp add: num_ok_def)
  ultimately show ?thesis using cnt blk tbl wf(1) by (simp add: count_ok_def)
qed

definition example_h2 :: zh2_conn where
  "example_h2 = the (zh2_new example_env True True (zhs_limits_resolve None) True zhs_buf_zero)"

lemma example_h2_new: "zh2_new example_env True True (zhs_limits_resolve None) True zhs_buf_zero = Some example_h2"
  by (simp add: example_h2_def zh2_new_def zhp_dec_new_def h2_frame_def and_then_def zhs_buf_append_def
      zhs_buf_reserve_def example_env_def Let_def SIZE_MAX_def zhs_buf_zero_def frame_hdr_def)

lemma example_h2_reach: "h2_reach (zhs_limits_resolve None) example_h2"
  by (rule reach_new [OF example_h2_new]) (simp add: zb_wf_def zhs_buf_zero_def)

theorem h2_state_bounded_witness:
  "\<exists>r c inp'. zh2_feed example_env example_h2 \<lparr>zb_data = ZH2_PREFACE @ frame_hdr 0 4 0 0, zb_off = 0, zb_cap = 64\<rparr> = (r, c, inp') \<and>
    length (h2_streams c) \<le> 128 \<and> unat (h2_open_count c) = length (h2_streams c)"
proof -
  obtain r c inp' where f: "zh2_feed example_env example_h2 \<lparr>zb_data = ZH2_PREFACE @ frame_hdr 0 4 0 0, zb_off = 0, zb_cap = 64\<rparr> = (r, c, inp')"
    using prod_cases3 by blast
  have "h2_reach (zhs_limits_resolve None) c"
    by (rule reach_feed [OF example_h2_reach _ f]) (simp add: example_env_def)
  from h2_state_bounded [OF this] f show ?thesis by (auto simp: zhs_limits_resolve_def)
qed

text \<open>
  C29. Flow control never goes wrong on either side. A frame the engine accepts, at most 16384 bytes
  long, fits both receive windows, so a peer that keeps to what was advertised is never accused of
  overrunning them; and every send window stays where \<open>int64_t\<close> arithmetic on it is exact, within
  \<open>2\<^sup>31 - 1\<close> until the connection has failed.
\<close>
theorem h2_windows_sound:
  assumes "h2_reach lim c" "n \<le> 16384"
  shows "int n \<le> h2_recv_window c \<and> h2_recv_window c \<le> 65535 \<and> 0 \<le> h2_send_window c \<and> h2_send_window c \<le> 2 ^ 32 \<and>
    (\<not> h2_got_error c \<longrightarrow> h2_send_window c \<le> 2 ^ 31 - 1) \<and>
    list_all (\<lambda>s. int n \<le> s2_recv_window s \<and> s2_recv_window s \<le> 65535 \<and> \<bar>s2_send_window s\<bar> \<le> 2 ^ 32 \<and>
      (\<not> h2_got_error c \<longrightarrow> uint (h2_peer_initial_window c) - (2 ^ 31 - 1) \<le> s2_send_window s \<and>
        s2_send_window s \<le> 2 ^ 31 - 1)) (h2_streams c)"
proof -
  have wf: "h2_lim c = lim" "tab_ok c" "num_ok c" using reach_wf [OF assms(1)] by (simp_all add: h2_wf_def)
  have "stream_wf lim s" "win_ok (h2_got_error c) (uint (h2_peer_initial_window c)) s" if "s \<in> set (h2_streams c)" for s
    using wf(1,2) that by (simp_all add: tab_ok_def entry_ok_def)
  then show ?thesis using wf(3) assms(2) by (fastforce simp: num_ok_def stream_wf_def win_ok_def list_all_iff)
qed

theorem h2_windows_sound_witness:
  "\<exists>r c inp'. zh2_feed example_env example_h2
      \<lparr>zb_data = ZH2_PREFACE @ frame_hdr 0 4 0 0 @ frame_hdr 3 1 4 1 @ [0x82, 0x84, 0x86], zb_off = 0, zb_cap = 64\<rparr> = (r, c, inp') \<and>
    16384 \<le> h2_recv_window c \<and> list_all (\<lambda>s. 16384 \<le> s2_recv_window s) (h2_streams c)"
proof -
  obtain r c inp' where f: "zh2_feed example_env example_h2
      \<lparr>zb_data = ZH2_PREFACE @ frame_hdr 0 4 0 0 @ frame_hdr 3 1 4 1 @ [0x82, 0x84, 0x86], zb_off = 0, zb_cap = 64\<rparr> = (r, c, inp')"
    using prod_cases3 by blast
  have "h2_reach (zhs_limits_resolve None) c"
    by (rule reach_feed [OF example_h2_reach _ f]) (simp add: example_env_def)
  from h2_windows_sound [OF this, of 16384] f show ?thesis by (auto simp: list_all_iff)
qed

text \<open>
  C3. The engine never hands a malformed request to the application. For any reachable connection
  and any input, the whole run is the same for two handlers that agree on acceptable requests: a
  token method, a confined path, header fields with lower-case token names, none of them specific
  to a connection and \<open>te\<close> only as \<open>trailers\<close>, and headers and body within the limits.
\<close>
theorem h2_only_valid_requests:
  assumes "\<And>n. length (he_junk env n) = n" "h2_reach lim c"
    and "\<And>n q. request2_ok lim q \<Longrightarrow> h n q = he_handler env n q"
  shows "zh2_feed (env\<lparr>he_handler := h\<rparr>) c inp = zh2_feed env c inp"
proof -
  have "agree lim env h" using assms(1,3) by (simp add: agree_def)
  from feed_ok [OF this reach_wf [OF assms(2)]] show ?thesis by blast
qed

theorem h2_only_valid_requests_witness:
  "let lim = zhs_limits_resolve None;
       inp = \<lparr>zb_data = ZH2_PREFACE @ frame_hdr 0 4 0 0 @ frame_hdr 3 1 5 1 @ [0x82, 0x84, 0x86], zb_off = 0, zb_cap = 64\<rparr>;
       h = (\<lambda>n q. if request2_ok lim q then [HRespond 200 [] None 0] else [])
   in zh2_feed (example_env\<lparr>he_handler := h\<rparr>) example_h2 inp = zh2_feed example_env example_h2 inp"
  unfolding Let_def
  by (rule h2_only_valid_requests [OF _ example_h2_reach]) (simp_all add: example_env_def)
end
