(* ===== verification/Zc_H2Send.thy ===== *)
theory Zc_H2Send
  imports Zc_H2Feed
begin

unbundle bit_operations_syntax

text \<open>
  What the HTTP/2 engine writes. The pump keeps every DATA frame within the frame size and the two
  flow-control windows; the HEADERS and CONTINUATION frames of a response carry a block that a
  decoder in step with the encoder reads back as the response; and a malformed request block leaves
  the decoder's table behind the peer's.
\<close>

section \<open>What an HTTP/2 connection sends\<close>

subsection \<open>DATA frames\<close>

text \<open>A DATA frame: its stream, its flags and its payload.\<close>

type_synonym data_frame = "u32 \<times> byte \<times> bytes"

definition data_wire :: "data_frame list \<Rightarrow> bytes" where
  "data_wire fs = concat (map (\<lambda>(sid, fl, p). frame_bytes 0 fl sid p) fs)"

definition data_total :: "data_frame list \<Rightarrow> nat" where
  "data_total fs = sum_list (map (\<lambda>(sid, fl, p). length p) fs)"

text \<open>The payload bytes of one stream.\<close>

definition data_of :: "u32 \<Rightarrow> data_frame list \<Rightarrow> bytes" where
  "data_of sid fs = concat (map (\<lambda>(i, fl, p). if i = sid then p else []) fs)"

lemma data_simps [simp]:
  "data_wire [] = []" "data_wire (fs @ gs) = data_wire fs @ data_wire gs" "data_wire ((i, fl, p) # fs) = frame_bytes 0 fl i p @ data_wire fs"
  "data_total [] = 0" "data_total (fs @ gs) = data_total fs + data_total gs" "data_total ((i, fl, p) # fs) = length p + data_total fs"
  "data_of sid [] = []" "data_of sid (fs @ gs) = data_of sid fs @ data_of sid gs"
  "data_of sid ((i, fl, p) # fs) = (if i = sid then p else []) @ data_of sid fs"
  by (simp_all add: data_wire_def data_total_def data_of_def)

lemma data_of_other: "sid \<notin> fst ` set fs \<Longrightarrow> data_of sid fs = []"
  by (induction fs) auto

text \<open>
  Frames fit for a stream: they carry the next bytes of its body, no more than its window allows,
  and only the last byte of the body comes with END_STREAM.
\<close>

definition stream_sent :: "zh2_stream \<Rightarrow> data_frame list \<Rightarrow> bool" where
  "stream_sent s fs \<longleftrightarrow> (\<exists>rest. drop (s2_body_off s) (zb_data (s2_resp_body s)) = data_of (s2_id s) fs @ rest \<and>
       ((\<exists>fl p. (s2_id s, fl, p) \<in> set fs \<and> fl \<noteq> 0) \<longrightarrow> rest = [])) \<and>
     (data_of (s2_id s) fs \<noteq> [] \<longrightarrow> s2_resp_headers_done s \<and> int (length (data_of (s2_id s) fs)) \<le> s2_send_window s)"

definition frames_ok :: "zh2_conn \<Rightarrow> data_frame list \<Rightarrow> bool" where
  "frames_ok c fs \<longleftrightarrow> list_all (\<lambda>(sid, fl, p). p \<noteq> [] \<and> length p \<le> unat (h2_peer_max_frame c) \<and> fl \<in> {0, 1}) fs"

lemma frames_ok_simps [simp]: "frames_ok c []" "frames_ok c (fs @ gs) = (frames_ok c fs \<and> frames_ok c gs)"
  by (simp_all add: frames_ok_def)

lemma frame_bytes_take:
  assumes "n \<le> length p" "n < 2 ^ 32"
  shows "frame_hdr (of_nat n) ty fl sid @ take (unat (of_nat n :: u32)) p = frame_bytes ty fl sid (take n p)"
proof -
  have "unat (of_nat n :: u32) = n" using assms(2) by (simp add: unat_of_nat)
  with assms(1) show ?thesis by (simp add: frame_bytes_def)
qed

lemma length_frame_bytes: "length (frame_bytes ty fl sid p) = 9 + length p"
  by (simp add: frame_bytes_def frame_hdr_def)

text \<open>What the inner loop of the pump puts on the wire.\<close>

definition body_sent :: "zh2_conn \<Rightarrow> zh2_stream \<Rightarrow> zh2_conn \<Rightarrow> zh2_stream \<Rightarrow> data_frame list \<Rightarrow> bool" where
  "body_sent c st c' st' fs \<longleftrightarrow>
     ZHS_PTR (h2_out c') = ZHS_PTR (h2_out c) @ data_wire fs \<and> frames_ok c fs \<and> fst ` set fs \<subseteq> {s2_id st} \<and>
     h2_send_window c' = h2_send_window c - int (data_total fs) \<and>
     data_total fs = length (data_of (s2_id st) fs) \<and>
     s2_body_off st' = s2_body_off st + data_total fs \<and>
     (fs \<noteq> [] \<longrightarrow> int (data_total fs) \<le> s2_send_window st \<and> length (ZHS_PTR (h2_out c')) \<le> max_out_bytes (h2_lim c)) \<and>
     (\<exists>rest. drop (s2_body_off st) (zb_data (s2_resp_body st)) = data_of (s2_id st) fs @ rest \<and>
        ((\<exists>fl p. (s2_id st, fl, p) \<in> set fs \<and> fl \<noteq> 0) \<longrightarrow> rest = []))"

lemma body_sent_nil: "body_sent c st c st []"
  by (simp add: body_sent_def)

lemma body_sent_step:
  assumes st: "s2_body_off st < length (zb_data (s2_resp_body st))" "pump_chunk c st \<noteq> 0" and wf: "num_ok c"
    and f: "h2_frame env c (of_nat (pump_chunk c st)) 0 (pump_flags c st) (s2_id st)
      (Some (drop (s2_body_off st) (zb_data (s2_resp_body st)))) = (ZCIO_OK, c1)"
    and rest: "body_sent (c1\<lparr>h2_send_window := h2_send_window c1 - int (pump_chunk c st)\<rparr>) (pump_sent c st) c' st' fs"
  shows "body_sent c st c' st' ((s2_id st, pump_flags c st, take (pump_chunk c st) (drop (s2_body_off st) (zb_data (s2_resp_body st)))) # fs)"
proof -
  define n where "n = pump_chunk c st"
  define body where "body = drop (s2_body_off st) (zb_data (s2_resp_body st))"
  note le = pump_chunk_le [OF st(2), folded n_def]
  have n: "n \<le> length body" "n < 2 ^ 32" "n \<noteq> 0"
    using le(3,4) wf st(2) by (auto simp: body_def num_ok_def n_def)
  from h2_frame_ok [OF f, folded n_def body_def] wf obtain o1 where
    c1: "c1 = c\<lparr>h2_out := o1\<rparr>" "zb_wf o1" "ZHS_PTR o1 = ZHS_PTR (h2_out c) @ frame_bytes 0 (pump_flags c st) (s2_id st) (take n body)"
    using frame_bytes_take [OF n(1,2)] by (auto simp: num_ok_outD)
  have avail: "ZHS_AVAIL (h2_out c) = length (ZHS_PTR (h2_out c))" using wf by (simp add: num_ok_outD zb_avail_length)
  have sent: "s2_id (pump_sent c st) = s2_id st" "s2_send_window (pump_sent c st) = s2_send_window st - int n"
    "drop (s2_body_off st + n) (zb_data (s2_resp_body (pump_sent c st))) = drop n body"
    "s2_body_off (pump_sent c st) = s2_body_off st + n"
    by (simp_all add: pump_sent_def n_def body_def add.commute)
  note r = rest [unfolded body_sent_def sent n_def [symmetric]]
  have rr: "ZHS_PTR (h2_out c') = ZHS_PTR o1 @ data_wire fs" "frames_ok c fs" "fst ` set fs \<subseteq> {s2_id st}"
    "h2_send_window c' = h2_send_window c - int n - int (data_total fs)" "data_total fs = length (data_of (s2_id st) fs)"
    "s2_body_off st' = s2_body_off st + n + data_total fs"
    "fs \<noteq> [] \<Longrightarrow> int (data_total fs) \<le> s2_send_window st - int n"
    using r c1(1) by (simp_all add: frames_ok_def)
  have room: "length (ZHS_PTR (h2_out c')) \<le> max_out_bytes (h2_lim c)" if "fs \<noteq> []"
    using r c1(1) that by (elim conjE) simp
  have "\<exists>tail. drop n body = data_of (s2_id st) fs @ tail \<and> ((\<exists>fl p. (s2_id st, fl, p) \<in> set fs \<and> fl \<noteq> 0) \<longrightarrow> tail = [])"
    using r by (elim conjE) assumption
  then obtain tail where tail: "drop n body = data_of (s2_id st) fs @ tail"
    "(\<exists>fl p. (s2_id st, fl, p) \<in> set fs \<and> fl \<noteq> 0) \<longrightarrow> tail = []" by (elim exE conjE) rule
  have cat: "body = take n body @ data_of (s2_id st) fs @ tail" unfolding tail(1) [symmetric] by simp
  have lastf: "pump_flags c st \<noteq> 0 \<Longrightarrow> drop n body = []"
    by (simp add: pump_flags_def n_def body_def split: if_splits)
  have fl: "(\<exists>fl p. (s2_id st, fl, p) \<in> set ((s2_id st, pump_flags c st, take n body) # fs) \<and> fl \<noteq> 0) \<longrightarrow> tail = []"
    using tail lastf by auto
  have "frames_ok c ((s2_id st, pump_flags c st, take n body) # fs)"
    using rr(2) n le(4) by (auto simp: frames_ok_def pump_flags_def)
  moreover have "int (n + data_total fs) \<le> s2_send_window st \<and> length (ZHS_PTR (h2_out c')) \<le> max_out_bytes (h2_lim c)"
  proof (cases "fs = []")
    case True
    with rr(1) le c1(3) avail n(1) show ?thesis by (simp add: length_frame_bytes)
  next
    case False
    with rr(7) room show ?thesis by simp
  qed
  ultimately show ?thesis
    using rr c1(3) n cat fl unfolding body_sent_def n_def [symmetric] body_def [symmetric] by auto
qed

lemma pump_body_sends:
  assumes "pump_body env c st = (c', st')"
  shows "num_ok c \<longrightarrow> \<not> h2_oom c' \<longrightarrow> (\<exists>fs. body_sent c st c' st' fs)"
  using assms
proof (induction rule: pump_body_induct)
  case (stop c st)
  show ?case using body_sent_nil by blast
next
  case (step c st c1 c' st')
  show ?case
  proof (intro impI)
    assume a: "num_ok c" "\<not> h2_oom c'"
    from h2_frame_ok [OF step(3)] a(1) obtain o1 where "c1 = c\<lparr>h2_out := o1\<rparr>" "zb_wf o1" using num_ok_outD by blast
    then have "num_ok (c1\<lparr>h2_send_window := h2_send_window c1 - int (pump_chunk c st)\<rparr>)"
      using a(1) pump_chunk_le(2) [OF step(2)] by (auto simp: num_ok_def)
    with step(4) a(2) obtain fs where "body_sent (c1\<lparr>h2_send_window := h2_send_window c1 - int (pump_chunk c st)\<rparr>) (pump_sent c st) c' st' fs"
      by blast
    from body_sent_step [OF step(1,2) a(1) step(3) this] show "\<exists>fs. body_sent c st c' st' fs" by blast
  qed
qed simp
definition pump_sends :: "zh2_conn \<Rightarrow> zh2_stream set \<Rightarrow> zh2_conn \<Rightarrow> data_frame list \<Rightarrow> bool" where
  "pump_sends c S c' fs \<longleftrightarrow>
     ZHS_PTR (h2_out c') = ZHS_PTR (h2_out c) @ data_wire fs \<and> frames_ok c fs \<and> fst ` set fs \<subseteq> s2_id ` S \<and>
     h2_send_window c' = h2_send_window c - int (data_total fs) \<and>
     (fs \<noteq> [] \<longrightarrow> length (ZHS_PTR (h2_out c')) \<le> max_out_bytes (h2_lim c)) \<and> (\<forall>s \<in> S. stream_sent s fs)"

lemma stream_sent_own:
  assumes "stream_sent s fs" "s2_id s \<notin> fst ` set gs"
  shows "stream_sent s (fs @ gs)" "stream_sent s (gs @ fs)"
proof -
  have "(s2_id s, fl, p) \<notin> set gs" for fl p using assms(2) by force
  with assms data_of_other [OF assms(2)] show "stream_sent s (fs @ gs)" "stream_sent s (gs @ fs)"
    by (auto simp: stream_sent_def)
qed

lemma body_sent_stream: "body_sent c st c' st' fs \<Longrightarrow> (fs \<noteq> [] \<longrightarrow> s2_resp_headers_done st) \<Longrightarrow> stream_sent st fs"
  unfolding body_sent_def stream_sent_def by (cases "fs = []") auto

lemma stream_sent_nil: "s2_id s \<notin> fst ` set fs \<Longrightarrow> stream_sent s fs"
  using stream_sent_own(1) [of s "[]" fs] by (auto simp: stream_sent_def)

lemma turn_sends:
  assumes "h2_wf lim c" "pump_turn env c i = (c1, st1)" "\<not> h2_oom c1"
  shows "\<exists>fs. body_sent c (h2_streams c ! i) c1 st1 fs \<and> stream_sent (h2_streams c ! i) fs"
proof -
  let ?st = "h2_streams c ! i"
  show ?thesis
  proof (cases "s2_resp_headers_done ?st \<and> \<not> s2_send_done ?st")
    case False
    then have "c1 = c" "st1 = ?st" using assms(2) by (auto simp: pump_turn_def Let_def)
    then show ?thesis using body_sent_nil [of c ?st] body_sent_stream [OF body_sent_nil] by blast
  next
    case True
    then have "pump_body env c ?st = (c1, st1)" using assms(2) by (simp add: pump_turn_def Let_def)
    from pump_body_sends [OF this] assms(1,3) obtain fs where "body_sent c ?st c1 st1 fs" by (auto simp: h2_wf_def)
    with True body_sent_stream show ?thesis by blast
  qed
qed

lemma turn_conn:
  "pump_turn env c i = (c1, st1) \<Longrightarrow> h2_peer_max_frame c1 = h2_peer_max_frame c \<and> h2_lim c1 = h2_lim c \<and> h2_streams c1 = h2_streams c"
  using pump_body_conn [of env c "h2_streams c ! i" c1 st1] by (auto simp: pump_turn_def Let_def split: if_splits)

text \<open>A turn followed by the rest of the streams.\<close>

lemma pump_sends_turn:
  assumes wf: "h2_wf lim c" "i < length (h2_streams c)" and p: "pump_turn env c i = (c1, st1)"
    and b: "body_sent c (h2_streams c ! i) c1 st1 fs" "stream_sent (h2_streams c ! i) fs"
    and c2: "h2_out c2 = h2_out c1" "h2_send_window c2 = h2_send_window c1" "h2_peer_max_frame c2 = h2_peer_max_frame c1" "h2_lim c2 = h2_lim c1"
    and r: "pump_sends c2 (set (drop (Suc i) (h2_streams c))) c' gs"
  shows "pump_sends c (set (drop i (h2_streams c))) c' (fs @ gs)"
proof -
  let ?st = "h2_streams c ! i" and ?rest = "drop (Suc i) (h2_streams c)"
  have split: "drop i (h2_streams c) = ?st # ?rest" using wf(2) by (simp add: Cons_nth_drop_Suc)
  have "distinct (map s2_id (h2_streams c))" using wf(1) by (simp add: h2_wf_def tab_ok_def)
  then have "distinct (drop i (map s2_id (h2_streams c)))" by (rule distinct_drop)
  then have new: "s2_id ?st \<notin> s2_id ` set ?rest" unfolding drop_map split by simp
  note conn = turn_conn [OF p]
  have bb: "ZHS_PTR (h2_out c1) = ZHS_PTR (h2_out c) @ data_wire fs" "frames_ok c fs" "fst ` set fs \<subseteq> {s2_id ?st}"
      "h2_send_window c1 = h2_send_window c - int (data_total fs)"
      "fs \<noteq> [] \<longrightarrow> length (ZHS_PTR (h2_out c1)) \<le> max_out_bytes (h2_lim c)"
    using b(1) unfolding body_sent_def by (elim conjE; simp)+
  have rr: "ZHS_PTR (h2_out c') = ZHS_PTR (h2_out c1) @ data_wire gs" "frames_ok c gs" "fst ` set gs \<subseteq> s2_id ` set ?rest"
      "h2_send_window c' = h2_send_window c1 - int (data_total gs)"
      "gs \<noteq> [] \<longrightarrow> length (ZHS_PTR (h2_out c')) \<le> max_out_bytes (h2_lim c)" "\<forall>s \<in> set ?rest. stream_sent s gs"
    using r c2 conn unfolding pump_sends_def frames_ok_def by (elim conjE; simp)+
  have own: "stream_sent ?st (fs @ gs)" using rr(3) new by (intro stream_sent_own(1) [OF b(2)]) blast
  have others: "stream_sent s (fs @ gs)" if s: "s \<in> set ?rest" for s
  proof -
    have "s2_id s \<noteq> s2_id ?st" using new s by (metis imageI)
    then have "s2_id s \<notin> fst ` set fs" using bb(3) by blast
    with rr(6) s show ?thesis by (intro stream_sent_own(2)) blast+
  qed
  have ids: "fst ` set (fs @ gs) \<subseteq> s2_id ` set (?st # ?rest)" using bb(3) rr(3) by auto
  have room: "fs @ gs \<noteq> [] \<longrightarrow> length (ZHS_PTR (h2_out c')) \<le> max_out_bytes (h2_lim c)"
    using bb(5) rr(1,5) by (cases "gs = []") auto
  show ?thesis unfolding pump_sends_def split
    using bb rr own others ids room by simp
qed

lemma drop_swap_remove: "i < length xs \<Longrightarrow> set (drop i (swap_remove i xs)) = set (drop (Suc i) xs)"
proof (cases xs rule: rev_cases)
  case (snoc ys z)
  assume "i < length xs"
  show ?thesis
  proof (cases "i < length ys")
    case True
    then have "drop i ys = ys ! i # drop (Suc i) ys" by (simp add: Cons_nth_drop_Suc)
    with True snoc show ?thesis by (simp add: swap_remove_snoc drop_update_swap)
  qed (use \<open>i < length xs\<close> snoc in \<open>simp add: swap_remove_snoc\<close>)
qed simp

lemma pump_loop_sends:
  assumes "h2_wf lim c"
  shows "\<not> h2_oom (pump_loop env c i) \<longrightarrow> (\<exists>fs. pump_sends c (set (drop i (h2_streams c))) (pump_loop env c i) fs)"
  using assms
proof (induction rule: pump_loop_induct [where env = env])
  case (stop c i)
  then show ?case by (auto simp: pump_sends_def intro!: exI [of _ "[]"])
next
  case (oom c i c1 st1)
  then show ?case by simp
next
  case (close c i c1 st1 c')
  from turn_sends [OF close(1,3,4)] obtain fs where b: "body_sent c (h2_streams c ! i) c1 st1 fs" "stream_sent (h2_streams c ! i) fs" by blast
  let ?c2 = "stream_close (c1\<lparr>h2_streams := (h2_streams c1)[i := st1]\<rparr>) i"
  have s: "set (drop i (h2_streams ?c2)) = set (drop (Suc i) (h2_streams c))"
    using turn_conn [OF close(3)] close(2) by (simp add: stream_close_streams drop_swap_remove)
  show ?case
  proof
    assume "\<not> h2_oom c'"
    with close(7) s obtain gs where "pump_sends ?c2 (set (drop (Suc i) (h2_streams c))) c' gs" by auto
    from pump_sends_turn [OF close(1,2,3) b _ _ _ _ this] show "\<exists>fs. pump_sends c (set (drop i (h2_streams c))) c' fs"
      by (auto simp: stream_close_def)
  qed
next
  case (onward c i c1 st1 c')
  from turn_sends [OF onward(1,3,4)] obtain fs where b: "body_sent c (h2_streams c ! i) c1 st1 fs" "stream_sent (h2_streams c ! i) fs" by blast
  let ?c2 = "c1\<lparr>h2_streams := (h2_streams c1)[i := st1]\<rparr>"
  have s: "set (drop (i + 1) (h2_streams ?c2)) = set (drop (Suc i) (h2_streams c))"
    using turn_conn [OF onward(3)] by simp
  show ?case
  proof
    assume "\<not> h2_oom c'"
    with onward(5) s obtain gs where "pump_sends ?c2 (set (drop (Suc i) (h2_streams c))) c' gs" by auto
    from pump_sends_turn [OF onward(1,2,3) b _ _ _ _ this] show "\<exists>fs. pump_sends c (set (drop i (h2_streams c))) c' fs"
      by auto
  qed
qed

text \<open>Where the pump leaves a stream: nothing to send, or no room for another DATA frame.\<close>

definition blocked :: "zh2_conn \<Rightarrow> zh2_stream \<Rightarrow> bool" where
  "blocked c s \<longleftrightarrow> (s2_resp_headers_done s \<and> \<not> s2_send_done s \<and> s2_body_off s < length (zb_data (s2_resp_body s)) \<longrightarrow> pump_chunk c s = 0)"

lemma blocked_mono:
  assumes "blocked c s" "h2_send_window c' \<le> h2_send_window c" "ZHS_AVAIL (h2_out c) \<le> ZHS_AVAIL (h2_out c')"
    "h2_lim c' = h2_lim c" "h2_peer_max_frame c' = h2_peer_max_frame c"
  shows "blocked c' s"
proof -
  have "pump_chunk c' s = 0" if "pump_chunk c s = 0"
  proof (rule ccontr)
    assume "pump_chunk c' s \<noteq> 0"
    note le = pump_chunk_le [OF this] and pos = this
    have "ZHS_AVAIL (h2_out c) + 9 < max_out_bytes (h2_lim c)" using le(5) pos assms(3,4) by simp
    moreover have "0 < s2_send_window s" "0 < h2_send_window c" using le(1,2) pos assms(2) by linarith+
    moreover have "0 < length (zb_data (s2_resp_body s)) - s2_body_off s" "0 < unat (h2_peer_max_frame c)"
      using le(3,4) pos assms(5) by simp_all
    ultimately have "pump_chunk c s \<noteq> 0" unfolding pump_chunk_def Let_def by (simp add: min_def)
    with that show False by simp
  qed
  with assms(1) show ?thesis by (auto simp: blocked_def)
qed

lemma pump_body_blocked: "pump_body env c st = (c', st') \<Longrightarrow> \<not> h2_oom c' \<longrightarrow> blocked c' st'"
  by (induction rule: pump_body_induct) (auto simp: blocked_def)

lemma turn_blocked:
  assumes "h2_wf lim c" "i < length (h2_streams c)" "pump_turn env c i = (c1, st1)" "\<not> h2_oom c1"
  shows "blocked c1 st1" "blocked c s \<Longrightarrow> blocked c1 s"
proof -
  show "blocked c1 st1" using assms(3,4) pump_body_blocked by (auto simp: pump_turn_def Let_def blocked_def split: if_splits)
  from turn_sends [OF assms(1,3,4)] obtain fs where "body_sent c (h2_streams c ! i) c1 st1 fs" by blast
  then have "h2_send_window c1 \<le> h2_send_window c" "length (ZHS_PTR (h2_out c)) \<le> length (ZHS_PTR (h2_out c1))"
    unfolding body_sent_def by (elim conjE; simp)+
  moreover have "zb_wf (h2_out c)" "zb_wf (h2_out c1)"
    using assms(1) pump_turn_wf(1) [OF assms(1-3)] by (simp_all add: h2_wf_def num_ok_def)
  ultimately show "blocked c s \<Longrightarrow> blocked c1 s"
    using blocked_mono [of c s c1] turn_conn [OF assms(3)] by (simp add: zb_avail_length)
qed

lemma pump_chunk_cong:
  assumes "h2_send_window c' = h2_send_window c" "h2_out c' = h2_out c" "h2_lim c' = h2_lim c" "h2_peer_max_frame c' = h2_peer_max_frame c"
  shows "pump_chunk c' s = pump_chunk c s"
  unfolding pump_chunk_def assms ..

lemma blocked_streams [simp]: "blocked (c\<lparr>h2_streams := xs\<rparr>) s = blocked c s" "blocked (stream_close c i) s = blocked c s"
  unfolding blocked_def by (subst pump_chunk_cong [of _ c], simp_all add: stream_close_def)+

lemma take_swap_remove: "i < length xs \<Longrightarrow> take i (swap_remove i xs) = take i xs"
  by (cases xs rule: rev_cases) (auto simp: swap_remove_snoc)

lemma pump_loop_blocks:
  assumes "h2_wf lim c"
  shows "\<not> h2_oom (pump_loop env c i) \<longrightarrow> list_all (blocked c) (take i (h2_streams c)) \<longrightarrow>
    list_all (blocked (pump_loop env c i)) (h2_streams (pump_loop env c i))"
  using assms
proof (induction rule: pump_loop_induct [where env = env])
  case (close c i c1 st1 c')
  let ?c2 = "stream_close (c1\<lparr>h2_streams := (h2_streams c1)[i := st1]\<rparr>) i"
  have "take i (h2_streams ?c2) = take i (h2_streams c)"
    using turn_conn [OF close(3)] close(2) by (simp add: stream_close_streams take_swap_remove)
  with close(7) turn_blocked(2) [OF close(1-4)] show ?case by (auto simp: list_all_iff)
next
  case (onward c i c1 st1 c')
  have "take (i + 1) (h2_streams (c1\<lparr>h2_streams := (h2_streams c1)[i := st1]\<rparr>)) = take i (h2_streams c) @ [st1]"
    using turn_conn [OF onward(3)] onward(2) by (simp add: take_Suc_conv_app_nth)
  with onward(5) turn_blocked [OF onward(1-4)] show ?case by (auto simp: list_all_iff)
qed simp_all

lemma blocked_room:
  assumes "h2_wf lim c" "blocked c s" "s2_resp_headers_done s" "\<not> s2_send_done s" "s2_body_off s < length (zb_data (s2_resp_body s))"
  shows "s2_send_window s \<le> 0 \<or> h2_send_window c = 0 \<or> max_out_bytes lim \<le> length (ZHS_PTR (h2_out c)) + 9"
proof (rule ccontr)
  assume a: "\<not> ?thesis"
  have n: "num_ok c" "h2_lim c = lim" using assms(1) by (simp_all add: h2_wf_def)
  then have "0 < h2_send_window c" "0 < unat (h2_peer_max_frame c)" using a by (auto simp: num_ok_def)
  moreover have "ZHS_AVAIL (h2_out c) + 9 < max_out_bytes (h2_lim c)" using a n by (simp add: num_ok_outD zb_avail_length)
  ultimately have "pump_chunk c s \<noteq> 0" using a assms(5) unfolding pump_chunk_def Let_def by (simp add: min_def)
  with assms(2-5) show False by (simp add: blocked_def)
qed

text \<open>
  C6. The pump sends as much as the peer allows and never more. Unless memory runs out, one call
  appends DATA frames to the output whose payloads are nonempty and within the peer's frame size,
  add up to exactly what the connection window is charged, which stays nonnegative, and leave the
  output within its limit; on each stream they carry the next bytes of its response body, in order,
  no more than its own window, only after its HEADERS, and END_STREAM comes only with the end of the
  body. A stream is left with bytes to send only when its window or the connection's is used up or
  the output has no room for another frame.
\<close>
theorem h2_pump_within_windows:
  assumes "h2_reach lim c"
  shows "h2_oom (zh2_pump env c) \<or>
    (\<exists>fs. ZHS_PTR (h2_out (zh2_pump env c)) = ZHS_PTR (h2_out c) @ data_wire fs \<and>
      list_all (\<lambda>(sid, fl, p). p \<noteq> [] \<and> length p \<le> unat (h2_peer_max_frame c) \<and> fl \<in> {0, 1}) fs \<and>
      h2_send_window (zh2_pump env c) = h2_send_window c - int (data_total fs) \<and> 0 \<le> h2_send_window (zh2_pump env c) \<and>
      (fs \<noteq> [] \<longrightarrow> length (ZHS_PTR (h2_out (zh2_pump env c))) \<le> max_out_bytes lim) \<and>
      fst ` set fs \<subseteq> s2_id ` set (h2_streams c) \<and> list_all (\<lambda>s. stream_sent s fs) (h2_streams c)) \<and>
    list_all (\<lambda>s. s2_resp_headers_done s \<and> \<not> s2_send_done s \<and> s2_body_off s < length (zb_data (s2_resp_body s)) \<longrightarrow>
      s2_send_window s \<le> 0 \<or> h2_send_window (zh2_pump env c) = 0 \<or>
      max_out_bytes lim \<le> length (ZHS_PTR (h2_out (zh2_pump env c))) + 9) (h2_streams (zh2_pump env c))"
proof (cases "h2_oom (zh2_pump env c)")
  case False
  have wf: "h2_wf lim c" by (rule reach_wf [OF assms(1)])
  have wf': "h2_wf lim (zh2_pump env c)" by (rule pump_wf [OF wf])
  have p: "zh2_pump env c = pump_loop env c 0" using False by (auto simp: zh2_pump_def)
  from pump_loop_sends [OF wf, of env 0] False p obtain fs where fs: "pump_sends c (set (h2_streams c)) (zh2_pump env c) fs" by auto
  have "list_all (blocked (zh2_pump env c)) (h2_streams (zh2_pump env c))"
    using pump_loop_blocks [OF wf, of env 0] False p by simp
  then have "list_all (\<lambda>s. s2_resp_headers_done s \<and> \<not> s2_send_done s \<and> s2_body_off s < length (zb_data (s2_resp_body s)) \<longrightarrow>
      s2_send_window s \<le> 0 \<or> h2_send_window (zh2_pump env c) = 0 \<or>
      max_out_bytes lim \<le> length (ZHS_PTR (h2_out (zh2_pump env c))) + 9) (h2_streams (zh2_pump env c))"
    using blocked_room [OF wf'] by (auto simp: list_all_iff)
  moreover have "h2_lim c = lim" "0 \<le> h2_send_window (zh2_pump env c)" using wf wf' by (simp_all add: h2_wf_def num_ok_def)
  ultimately show ?thesis using fs unfolding pump_sends_def frames_ok_def by (auto simp: list_all_iff)
qed simp

definition example_body_env :: h1_env where
  "example_body_env = example_env\<lparr>he_handler := (\<lambda>n q. [HRespond 200 [] (Some (asc ''hello'')) 5])\<rparr>"

definition example_h2_request :: zhs_buf where
  "example_h2_request = \<lparr>zb_data = ZH2_PREFACE @ frame_hdr 0 4 0 0 @ frame_hdr 3 1 5 1 @ [0x82, 0x84, 0x86], zb_off = 0, zb_cap = 64\<rparr>"

theorem h2_pump_within_windows_witness:
  "case zh2_feed example_body_env example_h2 example_h2_request of (r, c, inp') \<Rightarrow>
     h2_oom (zh2_pump example_body_env c) \<or> 0 \<le> h2_send_window (zh2_pump example_body_env c)"
proof -
  obtain r c inp' where f: "zh2_feed example_body_env example_h2 example_h2_request = (r, c, inp')"
    using prod_cases3 by blast
  have "h2_reach (zhs_limits_resolve None) c"
    by (rule reach_feed [OF example_h2_reach _ f]) (simp add: example_body_env_def example_env_def)
  from h2_pump_within_windows [OF this, of example_body_env] f show ?thesis by auto
qed
subsection \<open>Response headers\<close>

fun cont_wire :: "u32 \<Rightarrow> bytes list \<Rightarrow> bytes" where
  "cont_wire sid [] = []"
| "cont_wire sid (p # ps) = frame_bytes 9 (if ps = [] then 4 else 0) sid p @ cont_wire sid ps"

text \<open>A HEADERS frame and its CONTINUATION frames; END_HEADERS is on the last one only.\<close>

fun header_wire :: "u32 \<Rightarrow> bool \<Rightarrow> bytes list \<Rightarrow> bytes" where
  "header_wire sid end_stream [] = []"
| "header_wire sid end_stream (p # ps) =
     frame_bytes 1 ((if ps = [] then 4 else 0) OR (if end_stream then 1 else 0)) sid p @ cont_wire sid ps"

lemma header_frames_wire:
  "h2_header_frames env c sid hb first block = (ZCIO_OK, c') \<Longrightarrow> num_ok c \<Longrightarrow>
     \<exists>ps. ps \<noteq> [] \<and> concat ps = block \<and> list_all (\<lambda>p. length p \<le> unat (h2_peer_max_frame c)) ps \<and>
       ZHS_PTR (h2_out c') = ZHS_PTR (h2_out c) @ (if first then header_wire sid (\<not> hb) ps else cont_wire sid ps)"
proof (induction env c sid hb first block arbitrary: c' rule: h2_header_frames.induct)
  case (1 env c sid hb first block)
  define n where "n = min (length block) (h2_maxf c)"
  define fl where "fl = (if n = length block then 4 else 0 :: byte) OR (if first \<and> \<not> hb then 1 else 0)"
  define ty where "ty = (if first then 1 else 9 :: byte)"
  obtain r1 c1 where f: "h2_frame env c (of_nat n) ty fl sid (Some block) = (r1, c1)" by fastforce
  have r1: "r1 = ZCIO_OK"
    using 1(2) f unfolding h2_header_frames.simps [of env c] Let_def n_def [symmetric] fl_def [symmetric] ty_def [symmetric]
    by (auto split: if_splits)
  have mx: "h2_maxf c = unat (h2_peer_max_frame c)" "unat (h2_peer_max_frame c) \<le> 16777215"
    using 1(3) by (auto simp: num_ok_def h2_maxf_def)
  have n: "n \<le> length block" "n < 2 ^ 32" "n \<le> unat (h2_peer_max_frame c)" using mx by (auto simp: n_def)
  from h2_frame_ok [OF f] 1(3) r1 obtain o1 where c1: "c1 = c\<lparr>h2_out := o1\<rparr>" "zb_wf o1"
      "ZHS_PTR o1 = ZHS_PTR (h2_out c) @ frame_bytes ty fl sid (take n block)"
    using frame_bytes_take [OF n(1,2), of ty fl sid] by (auto simp: num_ok_outD)
  show ?case
  proof (cases "n = length block")
    case True
    then have "c' = c1"
      using 1(2) f r1 unfolding h2_header_frames.simps [of env c] Let_def n_def [symmetric] fl_def [symmetric] ty_def [symmetric] by simp
    then show ?thesis using c1 True n(3) by (intro exI [of _ "[block]"]) (simp add: fl_def ty_def)
  next
    case False
    then have rec: "h2_header_frames env c1 sid hb False (drop n block) = (ZCIO_OK, c')"
      using 1(2) f r1 unfolding h2_header_frames.simps [of env c] Let_def n_def [symmetric] fl_def [symmetric] ty_def [symmetric] by simp
    have "num_ok c1" using 1(3) c1 by (simp add: h2_upd)
    from 1(1) [OF n_def refl ty_def fl_def f [symmetric] _ _ rec this] False r1 obtain ps where
      ps: "ps \<noteq> []" "concat ps = drop n block" "list_all (\<lambda>p. length p \<le> unat (h2_peer_max_frame c1)) ps"
        "ZHS_PTR (h2_out c') = ZHS_PTR (h2_out c1) @ cont_wire sid ps" by auto
    have "fl = (0 OR (if first \<and> \<not> hb then 1 else 0))" using False by (simp add: fl_def)
    then have "ZHS_PTR (h2_out c') = ZHS_PTR (h2_out c) @ (if first then header_wire sid (\<not> hb) (take n block # ps) else cont_wire sid (take n block # ps))"
      using ps(1,4) c1 by (simp add: ty_def)
    moreover have "concat (take n block # ps) = block" using ps(2) by simp
    ultimately show ?thesis using ps(3) n c1 by (intro exI [of _ "take n block # ps"]) simp
  qed
qed

lemma tolower_idem: "tolower (tolower b) = tolower b"
proof (cases "0x41 \<le> b \<and> b \<le> 0x5A")
  case True
  then have "unat (b + 32) = unat b + 32" by (simp add: word_le_nat_alt unat_word_ariths)
  with True show ?thesis by (simp add: tolower_def word_le_nat_alt)
qed (auto simp: tolower_def)

lemma status_index: "hpack_static_name_index (asc '':status'') = 8"
  by (simp add: hpack_static_name_index_def HPACK_STATIC_def tolower_def)

lemma encode_status_eq: "length (fmt_int status) < 16 \<Longrightarrow>
    zhp_encode_status alloc out status = zhp_encode alloc out (Some (asc '':status'')) (Some (fmt_int status))"
  by (simp only: zhp_encode_status_def zhp_encode_def Let_def status_index option.case prod.case) simp

lemma writes_fail: "writes f s \<Longrightarrow> writes (\<lambda>b. if P then (ZCIO_ERR_NOMEM, b) else f b) s"
  by (simp add: writes_def)

abbreviation lower_names :: "(bytes \<times> bytes) list \<Rightarrow> (bytes \<times> bytes) list" where
  "lower_names hs \<equiv> map (\<lambda>(k, v). (map tolower k, v)) hs"

lemma encode_headers_writes:
  "list_all encodable (lower_names hs) \<Longrightarrow>
     writes (h2_encode_headers alloc hs) (concat (map (\<lambda>(n, v). encode_bytes n v) (lower_names hs)))"
proof (induction hs)
  case (Cons h hs)
  obtain k v where h: "h = (k, v)" by fastforce
  have "writes (\<lambda>fb. h2_encode_header alloc fb k v) (encode_bytes (map tolower k) v)"
    unfolding h2_encode_header_def using Cons.prems h by (intro writes_fail zhp_encode_writes) simp
  from writes_then [OF this Cons.IH] Cons.prems h show ?case by simp
qed (simp add: writes_def)

lemma fmt_status: "0 \<le> status \<Longrightarrow> status < 1000 \<Longrightarrow> length (fmt_int status) < 16"
proof -
  assume s: "0 \<le> status" "status < 1000"
  have "length (dec_digits n) \<le> 3" if "n < 1000" for n
    using that by (simp add: dec_digits.simps [of n] dec_digits.simps [of "n div 10"] dec_digits.simps [of "n div 10 div 10"])
  from this [of "nat status"] s have "length (dec_digits (nat status)) \<le> 3" by simp
  with s show ?thesis by (simp add: fmt_int_def)
qed

text \<open>Writers append: the read offset of their buffer stays.\<close>

definition keeps_off :: "(zhs_buf \<Rightarrow> zcio_result \<times> zhs_buf) \<Rightarrow> bool" where
  "keeps_off f \<longleftrightarrow> (\<forall>b. zb_off (snd (f b)) = zb_off b)"

lemma keeps_off_append: "keeps_off (\<lambda>b. zhs_buf_append alloc b s)"
  by (auto simp: keeps_off_def zhs_buf_append_def zhs_buf_reserve_def Let_def)

lemma keeps_off_then: "keeps_off f \<Longrightarrow> keeps_off g \<Longrightarrow> keeps_off (\<lambda>b. and_then (f b) g)"
  by (simp add: keeps_off_def and_then_def split: prod.splits) (metis snd_conv)

lemma keeps_off_if: "(P \<Longrightarrow> keeps_off f) \<Longrightarrow> (\<not> P \<Longrightarrow> keeps_off g) \<Longrightarrow> keeps_off (\<lambda>b. if P then f b else g b)"
  by (simp add: keeps_off_def)

lemma keeps_off_same: "keeps_off (\<lambda>b. (r, b))"
  by (simp add: keeps_off_def)

lemmas keeps_off_intros = keeps_off_append keeps_off_then keeps_off_if keeps_off_same

lemma keeps_off_int: "keeps_off (\<lambda>b. zhp_int_encode alloc b k fl v)"
proof -
  have "keeps_off (int_enc_loop alloc v)" for v
  proof (induction "unat v" arbitrary: v rule: less_induct)
    case less
    have "keeps_off (int_enc_loop alloc (drop_bit 7 v))" if "v \<ge> 128"
    proof (rule less)
      have "128 \<le> unat v" using that by (simp add: word_le_nat_alt)
      then show "unat (drop_bit 7 v) < unat v" by (simp add: drop_bit_eq_div unat_div_distrib)
    qed
    then show ?case
      by (subst int_enc_loop.simps [abs_def]) (auto simp: zhs_buf_append_u8_def intro!: keeps_off_intros)
  qed
  then show ?thesis unfolding zhp_int_encode_def zhs_buf_append_u8_def Let_def by (intro keeps_off_intros)
qed

lemma zb_off_zero: "zb_off zhs_buf_zero = 0"
  by (simp add: zhs_buf_zero_def)

lemma keeps_off_encode: "keeps_off (\<lambda>b. zhp_encode alloc b (Some n) (Some v))"
  unfolding zhp_encode_def hpack_raw_string_def Let_def option.case prod.case by (intro keeps_off_intros keeps_off_int)

lemma keeps_off_headers: "keeps_off (h2_encode_headers alloc hs)"
proof (induction hs)
  case (Cons h hs)
  obtain k v where "h = (k, v)" by fastforce
  moreover have "keeps_off (\<lambda>b. h2_encode_header alloc b k v)"
    unfolding h2_encode_header_def by (intro keeps_off_intros keeps_off_encode)
  ultimately show ?case using keeps_off_then [OF _ Cons] by simp
qed (simp add: keeps_off_same)

text \<open>The header block of a response.\<close>

lemma respond_block:
  assumes "and_then (zhp_encode_status alloc zhs_buf_zero status) (h2_encode_headers alloc hs) = (r, fb)" "r = ZCIO_OK"
    and "0 \<le> status" "status < 1000" "list_all (\<lambda>(k, v). length k \<le> 2 ^ 24 \<and> length v \<le> 2 ^ 24) hs"
  shows "zb_data fb = concat (map (\<lambda>(n, v). encode_bytes n v) ((asc '':status'', fmt_int status) # lower_names hs)) \<and>
    list_all encodable ((asc '':status'', fmt_int status) # lower_names hs)"
proof -
  have len: "length (fmt_int status) < 16" by (rule fmt_status [OF assms(3,4)])
  have enc: "list_all encodable ((asc '':status'', fmt_int status) # lower_names hs)"
  proof -
    have "encodable (asc '':status'', fmt_int status)" using len by (simp add: encodable_def tolower_def)
    moreover have "list_all encodable (lower_names hs)" using assms(5) by (auto simp: encodable_def list_all_iff tolower_idem)
    ultimately show ?thesis by (simp only: list.pred_inject simp_thms)
  qed
  have z: "zb_wf zhs_buf_zero" "ZHS_PTR zhs_buf_zero = []" by (simp_all add: zb_wf_def zhs_buf_zero_def ZHS_PTR_def)
  have w1: "writes (\<lambda>out. zhp_encode_status alloc out status) (encode_bytes (asc '':status'') (fmt_int status))"
    unfolding encode_status_eq [OF len] using enc by (intro zhp_encode_writes) (simp only: list.pred_inject simp_thms)
  have w2: "writes (h2_encode_headers alloc hs) (concat (map (\<lambda>(n, v). encode_bytes n v) (lower_names hs)))"
    using enc by (intro encode_headers_writes) (simp only: list.pred_inject simp_thms)
  have w: "ZHS_PTR fb = concat (map (\<lambda>(n, v). encode_bytes n v) ((asc '':status'', fmt_int status) # lower_names hs))"
    using writesD [OF writes_then [OF w1 w2] z(1)] assms(1,2) z(2) by simp
  have "keeps_off (\<lambda>b. and_then (zhp_encode_status alloc b status) (h2_encode_headers alloc hs))"
    unfolding encode_status_eq [OF len] by (intro keeps_off_then keeps_off_encode keeps_off_headers)
  then have "zb_off fb = 0" using assms(1) unfolding keeps_off_def by (metis snd_conv zb_off_zero)
  with w enc show ?thesis by (simp add: ZHS_PTR_def)
qed

lemma upd_find:
  assumes "distinct (map s2_id (h2_streams c))" "find_stream c sid = Some st" "s2_id (f st) = sid" "h2_streams d = h2_streams c"
  shows "find_stream (upd_stream d sid f) sid = Some (f st)"
proof -
  let ?g = "\<lambda>s. if s2_id s = sid then f s else s"
  have one: "s = st" if "s \<in> set (h2_streams c)" "s2_id s = sid" for s
    using find_stream_eq [OF assms(1) that] assms(2) by simp
  have "map s2_id (map ?g (h2_streams c)) = map s2_id (h2_streams c)" using one assms(3) by auto
  then have dist: "distinct (map s2_id (h2_streams (upd_stream d sid f)))"
    using assms(1,4) by (simp add: upd_stream_def del: map_map)
  have "f st \<in> set (h2_streams (upd_stream d sid f))"
    using find_stream_Some [OF assms(2)] assms(4) by (force simp: set_upd_stream)
  from find_stream_eq [OF dist this assms(3)] show ?thesis .
qed

text \<open>
  C19. What the application answers is what the peer decodes. On a connection that satisfies the
  invariant, as every reachable one does, when the wire hook of an HTTP/2 stream
  succeeds, the output grows by one HEADERS frame and its CONTINUATION frames, none longer than the
  peer's frame size, with END_STREAM exactly when no body follows; their fragments together decode,
  from any state of the peer's HPACK decoder and without changing it, to the status and the header
  fields with lower-case names, in order; and the body, where there is one, is queued whole for the
  pump.
\<close>
theorem h2_response_roundtrip:
  assumes "h2_wf lim c" "find_stream c sid = Some st" "rq_stream_id req = uint sid"
    and "100 \<le> status" "status \<le> 599" "list_all (\<lambda>(k, v). length k \<le> 2 ^ 24 \<and> length v \<le> 2 ^ 24) hs"
    and "zh2_respond env c req status hs body n = (rc, c')"
  shows "rc = zcode ZCIO_OK \<longrightarrow>
    (\<exists>ps st'. ZHS_PTR (h2_out c') = ZHS_PTR (h2_out c) @ header_wire sid (\<not> h2_has_body req status body n) ps \<and>
      list_all (\<lambda>p. length p \<le> unat (h2_peer_max_frame c)) ps \<and>
      (\<forall>alloc d mx. fields_size ((asc '':status'', fmt_int status) # lower_names hs) \<le> mx \<longrightarrow>
        zhp_decode alloc d (concat ps) mx collect [] = (0, (asc '':status'', fmt_int status) # lower_names hs, d)) \<and>
      find_stream c' sid = Some st' \<and> s2_responded st' \<and>
      (if h2_has_body req status body n
       then zb_data (s2_resp_body st') = zb_data (s2_resp_body st) @ take n (the body) \<and> s2_resp_end_after_body st'
       else s2_send_done st'))"
proof
  assume ok: "rc = zcode ZCIO_OK"
  note wf = assms(1)
  then have num: "num_ok c" and dist: "distinct (map s2_id (h2_streams c))" by (simp_all add: h2_wf_def tab_ok_def)
  have sid: "word_of_int (rq_stream_id req) = sid" using assms(3) by simp
  define hb where "hb = h2_has_body req status body n"
  let ?alloc = "he_alloc env" and ?fields = "(asc '':status'', fmt_int status) # lower_names hs"
  obtain r fb where e: "and_then (zhp_encode_status ?alloc zhs_buf_zero status) (h2_encode_headers ?alloc hs) = (r, fb)" by fastforce
  obtain r1 c1 where f: "h2_header_frames env c sid hb True (zb_data fb) = (r1, c1)" by fastforce
  obtain r2 b where a: "zhs_buf_append ?alloc (s2_resp_body st) (take n (the body)) = (r2, b)" by fastforce
  let ?u = "upd_stream c1 sid (\<lambda>s. s\<lparr>s2_resp_headers_done := True, s2_responded := True\<rparr>)"
  have z: "zcode x = 0 \<longleftrightarrow> x = ZCIO_OK" for x by (cases x) simp_all
  have "r = ZCIO_OK \<and> r1 = ZCIO_OK \<and> (hb \<longrightarrow> r2 = ZCIO_OK) \<and>
      c' = (if hb then upd_stream (upd_stream ?u sid (\<lambda>s. s\<lparr>s2_resp_body := b\<rparr>)) sid (\<lambda>s. s\<lparr>s2_resp_end_after_body := True\<rparr>)
            else upd_stream ?u sid (\<lambda>s. s\<lparr>s2_send_done := True\<rparr>))"
    using assms(7) ok e f a assms(2) unfolding zh2_respond_def Let_def sid hb_def [symmetric]
    by (auto simp: z split: if_splits)
  then have run: "r = ZCIO_OK" "r1 = ZCIO_OK" "hb \<Longrightarrow> r2 = ZCIO_OK"
      "c' = (if hb then upd_stream (upd_stream ?u sid (\<lambda>s. s\<lparr>s2_resp_body := b\<rparr>)) sid (\<lambda>s. s\<lparr>s2_resp_end_after_body := True\<rparr>)
            else upd_stream ?u sid (\<lambda>s. s\<lparr>s2_send_done := True\<rparr>))" by simp_all
  note blk = respond_block [OF e run(1) _ _ assms(6)]
  have blk: "zb_data fb = concat (map (\<lambda>(n, v). encode_bytes n v) ?fields)" "list_all encodable ?fields"
    using blk assms(4,5) by simp_all
  from header_frames_wire [OF f [unfolded run(2)] num] obtain ps where
    ps: "concat ps = zb_data fb" "list_all (\<lambda>p. length p \<le> unat (h2_peer_max_frame c)) ps"
      "ZHS_PTR (h2_out c1) = ZHS_PTR (h2_out c) @ header_wire sid (\<not> hb) ps" by auto
  have dec: "zhp_decode alloc d (concat ps) mx collect [] = (0, ?fields, d)" if "fields_size ?fields \<le> mx" for alloc d mx
    using decode_loop_encoded [OF blk(2), of 0 mx] that unfolding ps(1) blk(1) zhp_decode_def by simp
  from header_frames_shape [OF f] have c1: "h2_streams c1 = h2_streams c" by auto
  let ?f = "\<lambda>s. if hb then s\<lparr>s2_resp_headers_done := True, s2_responded := True, s2_resp_body := b, s2_resp_end_after_body := True\<rparr>
    else s\<lparr>s2_resp_headers_done := True, s2_responded := True, s2_send_done := True\<rparr>"
  have c': "c' = upd_stream c1 sid ?f" using run(4) by (cases hb) (simp_all add: upd_upd)
  have "find_stream c' sid = Some (?f st)"
    unfolding c' using find_stream_Some [OF assms(2)] c1 by (intro upd_find [OF dist assms(2)]) auto
  moreover have "h2_out c' = h2_out c1" by (simp add: c' upd_stream_def)
  moreover have "zb_data b = zb_data (s2_resp_body st) @ take n (the body)" if hb
  proof -
    have "entry_ok c st" using wf find_stream_Some [OF assms(2)] by (auto simp: h2_wf_def tab_ok_def)
    then have "zb_wf (s2_resp_body st)" "zb_off (s2_resp_body st) = 0" by (simp_all add: entry_ok_def stream_wf_def)
    from append_data_cap(3) [OF this a] run(3) [OF that] show ?thesis by simp
  qed
  ultimately show "\<exists>ps st'. ZHS_PTR (h2_out c') = ZHS_PTR (h2_out c) @ header_wire sid (\<not> h2_has_body req status body n) ps \<and>
      list_all (\<lambda>p. length p \<le> unat (h2_peer_max_frame c)) ps \<and>
      (\<forall>alloc d mx. fields_size ?fields \<le> mx \<longrightarrow> zhp_decode alloc d (concat ps) mx collect [] = (0, ?fields, d)) \<and>
      find_stream c' sid = Some st' \<and> s2_responded st' \<and>
      (if h2_has_body req status body n
       then zb_data (s2_resp_body st') = zb_data (s2_resp_body st) @ take n (the body) \<and> s2_resp_end_after_body st'
       else s2_send_done st')"
    using ps dec unfolding hb_def [symmetric] by (intro exI [of _ ps] exI [of _ "?f st"]) auto
qed

text \<open>A connection with one open stream.\<close>

definition example_stream_conn :: zh2_conn where
  "example_stream_conn = example_h2\<lparr>h2_streams := [stream_zero 1 65535], h2_open_count := 1, h2_last_client_id := 1,
     h2_total_streams := 1\<rparr>"

lemma example_stream_wf: "h2_wf (zhs_limits_resolve None) example_stream_conn"
proof -
  have wf: "h2_wf (zhs_limits_resolve None) example_h2" by (rule reach_wf [OF example_h2_reach])
  have fields: "h2_rapid_reset example_h2 = 0" "h2_hdr_active example_h2 = False" "h2_got_error example_h2 = False"
      "h2_peer_initial_window example_h2 = 65535"
    by (simp_all add: example_h2_def zh2_new_def zhp_dec_new_def h2_frame_def and_then_def zhs_buf_append_def
        zhs_buf_reserve_def example_env_def Let_def SIZE_MAX_def zhs_buf_zero_def frame_hdr_def)
  have lim: "h2_lim example_h2 = zhs_limits_resolve None" using wf by (simp add: h2_wf_def)
  have "stream_wf (zhs_limits_resolve None) (stream_zero 1 65535)"
    by (simp add: stream_wf_def stream_zero_def req_zero_wf zb_wf_def zhs_buf_zero_def)
  then have "tab_ok example_stream_conn"
    using lim fields by (simp add: example_stream_conn_def tab_ok_def entry_ok_def count_ok_def win_ok_def stream_zero_def zhs_limits_resolve_def)
  moreover have "num_ok example_stream_conn" "blk_ok example_stream_conn"
    using wf fields by (simp_all add: example_stream_conn_def h2_wf_def h2_upd blk_ok_def)
  ultimately show ?thesis using lim by (simp add: h2_wf_def) (simp add: example_stream_conn_def)
qed

theorem h2_response_roundtrip_witness:
  "case zh2_respond example_env example_stream_conn (zhs_req_zero\<lparr>rq_stream_id := 1\<rparr>) 200
      [(asc ''Content-Type'', asc ''text/plain'')] (Some (asc ''hello'')) 5 of
    (rc, c') \<Rightarrow> rc = 0 \<longrightarrow> (\<exists>ps. ZHS_PTR (h2_out c') = ZHS_PTR (h2_out example_stream_conn) @ header_wire 1 False ps \<and>
      zhp_decode (\<lambda>_. True) (the (zhp_dec_new True 0)) (concat ps) 100 collect [] =
        (0, [(asc '':status'', fmt_int 200), (asc ''content-type'', asc ''text/plain'')], the (zhp_dec_new True 0)))"
proof -
  let ?req = "zhs_req_zero\<lparr>rq_stream_id := 1\<rparr>"
  obtain rc c' where r: "zh2_respond example_env example_stream_conn ?req 200
      [(asc ''Content-Type'', asc ''text/plain'')] (Some (asc ''hello'')) 5 = (rc, c')" by fastforce
  have st: "find_stream example_stream_conn 1 = Some (stream_zero 1 65535)"
    by (simp add: find_stream_def find_index_def example_stream_conn_def stream_zero_def)
  have low: "lower_names [(asc ''Content-Type'', asc ''text/plain'')] = [(asc ''content-type'', asc ''text/plain'')]"
    by (simp add: tolower_def)
  have body: "h2_has_body ?req 200 (Some (asc ''hello'')) 5" by (simp add: h2_has_body_def zhs_req_zero_def)
  have "length (fmt_int 200) = 3" by (simp add: fmt_int_def dec_digits.simps)
  then have size: "fields_size ((asc '':status'', fmt_int 200) # [(asc ''content-type'', asc ''text/plain'')]) \<le> 100" by simp
  have res: "rc = zcode ZCIO_OK \<longrightarrow> (\<exists>ps st'. ZHS_PTR (h2_out c') = ZHS_PTR (h2_out example_stream_conn) @
      header_wire 1 (\<not> h2_has_body ?req 200 (Some (asc ''hello'')) 5) ps \<and>
      list_all (\<lambda>p. length p \<le> unat (h2_peer_max_frame example_stream_conn)) ps \<and>
      (\<forall>alloc d mx. fields_size ((asc '':status'', fmt_int 200) # lower_names [(asc ''Content-Type'', asc ''text/plain'')]) \<le> mx \<longrightarrow>
        zhp_decode alloc d (concat ps) mx collect [] =
          (0, (asc '':status'', fmt_int 200) # lower_names [(asc ''Content-Type'', asc ''text/plain'')], d)) \<and>
      find_stream c' 1 = Some st' \<and> s2_responded st' \<and>
      (if h2_has_body ?req 200 (Some (asc ''hello'')) 5
       then zb_data (s2_resp_body st') = zb_data (s2_resp_body (stream_zero 1 65535)) @ take 5 (the (Some (asc ''hello''))) \<and> s2_resp_end_after_body st'
       else s2_send_done st'))"
    by (rule h2_response_roundtrip [OF example_stream_wf st _ _ _ _ r]) (simp_all add: zhs_req_zero_def)
  show ?thesis unfolding r prod.case
  proof
    assume "rc = 0"
    with res obtain ps where "ZHS_PTR (h2_out c') = ZHS_PTR (h2_out example_stream_conn) @ header_wire 1 False ps"
      "\<forall>alloc d mx. fields_size ((asc '':status'', fmt_int 200) # [(asc ''content-type'', asc ''text/plain'')]) \<le> mx \<longrightarrow>
        zhp_decode alloc d (concat ps) mx collect [] = (0, (asc '':status'', fmt_int 200) # [(asc ''content-type'', asc ''text/plain'')], d)"
      unfolding low using body by auto
    with size show "\<exists>ps. ZHS_PTR (h2_out c') = ZHS_PTR (h2_out example_stream_conn) @ header_wire 1 False ps \<and>
      zhp_decode (\<lambda>_. True) (the (zhp_dec_new True 0)) (concat ps) 100 collect [] =
        (0, [(asc '':status'', fmt_int 200), (asc ''content-type'', asc ''text/plain'')], the (zhp_dec_new True 0))" by blast
  qed
qed
subsection \<open>A malformed request loses table updates\<close>

text \<open>\<open>:method GET\<close> twice, then the literal field \<open>a: b\<close> with incremental indexing.\<close>

definition desync_block :: bytes where
  "desync_block = [0x82, 0x82, 0x40, 0x01, 0x61, 0x01, 0x62]"

abbreviation get_field :: "bytes \<times> bytes" where "get_field \<equiv> (asc '':method'', asc ''GET'')"
abbreviation ab_field :: "bytes \<times> bytes" where "ab_field \<equiv> ([0x61], [0x62])"

lemma item_get: "hpack_item alloc d 0x82 (0x82 # rest) seen mx nb vb = Inr (HpField (asc '':method'') (asc ''GET'') False, rest, nb, vb)"
  by (simp add: hpack_item_def zhp_int_decode_def Let_def hpack_resolve_def HPACK_STATIC_N_def HPACK_STATIC_def)

lemma item_ab: "2 \<le> mx \<Longrightarrow> hpack_item alloc d 0x40 [0x40, 0x01, 0x61, 0x01, 0x62] seen mx nb vb = Inr (HpField [0x61] [0x62] True, [], nb, vb)"
  by (simp add: hpack_item_def hpack_literal_def hpack_string_def zhp_int_decode_def Let_def)

lemma desync_collect:
  assumes "\<And>n. alloc n" "22 \<le> mx" "d = the (zhp_dec_new True ZHP_DEC_TABLE_MAX)"
  shows "\<exists>d1. zhp_decode alloc d desync_block mx collect [] = (0, [get_field, get_field, ab_field], d1) \<and> dec_live d1 = [ab_field]"
proof -
  have d: "dec_wf d" "dec_live d = []" "dc_max d = 4096"
    using dec_new_wf [of True ZHP_DEC_TABLE_MAX d] assms(3) by (auto simp: zhp_dec_new_def ZHP_DEC_TABLE_MAX_def)
  obtain r d1 where a: "dec_add alloc d [0x61] [0x62] = (r, d1)" by fastforce
  have r: "r = ZCIO_OK" using a assms(1) by (auto simp: dec_add_def dec_reserve_def Let_def split: if_splits prod.splits)
  have live: "dec_live d1 = [ab_field]"
    using dec_add_refines [OF d(1) a] r d by (simp add: spec_add_def ent_cost_def table_size_def)
  have "zhp_decode alloc d desync_block mx collect [] = (0, [get_field, get_field, ab_field], d1)"
    unfolding zhp_decode_def desync_block_def
    using assms(2) a r
    by (simp add: zhp_decode_loop.simps [of _ _ _ _ "0x82 # _"] zhp_decode_loop.simps [of _ _ _ _ "0x40 # _"]
        zhp_decode_loop.simps [of _ _ _ _ "[]"] item_get item_ab collect_def) linarith
  with live show ?thesis by blast
qed

lemma desync_emit:
  assumes "\<And>n. alloc n" "22 \<le> mx"
  shows "\<exists>x. zhp_decode alloc d desync_block mx (h2_emit alloc lim) (hdrctx_zero False) = (-1, x, d) \<and> hx_herr x = HERR_MALFORMED"
  unfolding zhp_decode_def desync_block_def using assms
  by (simp add: zhp_decode_loop.simps [of _ _ _ _ "0x82 # _"] item_get h2_emit_def hx_slot_def hx_malformed_def
      hdrctx_zero_def nm_eq_def) linarith

lemma rst_stream_keeps: "h2_dec (rst_stream env c sid code) = h2_dec c" "h2_got_error (rst_stream env c sid code) = h2_got_error c"
proof -
  obtain o1 b where q: "q_rst env c sid code = c\<lparr>h2_out := o1, h2_oom := b\<rparr>"
    using q_rst_wire [of c env sid code] unfolding wire_eq_def by blast
  show "h2_dec (rst_stream env c sid code) = h2_dec c" "h2_got_error (rst_stream env c sid code) = h2_got_error c"
    using close_found_cases [of "q_rst env c sid code" sid] unfolding rst_stream_def q by (auto simp: stream_close_def)
qed

lemma q_rst_keeps: "h2_dec (q_rst env c sid code) = h2_dec c" "h2_got_error (q_rst env c sid code) = h2_got_error c"
  using q_rst_wire [of c env sid code] by (auto simp: wire_eq_def)


definition example_desync_conn :: zh2_conn where
  "example_desync_conn = example_stream_conn\<lparr>h2_hdr_active := True, h2_hdr_id := 1, h2_hdr_stream := Some 1, h2_hdr_end_stream := True,
     h2_hdr_block := \<lparr>zb_data = desync_block, zb_off = 0, zb_cap = 256\<rparr>\<rparr>"

end
