(* ===== verification/Zc_Http.thy ===== *)
theory Zc_Http
  imports Zc_WsConnect Zc_H2
begin

unbundle bit_operations_syntax

text \<open>
  The HTTP client (\<open>src/http.c\<close>): URLs, requests, responses with their framing, redirects and
  keep-alive sessions. The transport is a stream of \<open>Zc_Stream\<close>; dialling, TLS contexts, the clock
  and socket time-outs are parameters.
\<close>

section \<open>The HTTP client\<close>

definition ZCIO_HTTP_MAX_REDIRECTS :: nat where "ZCIO_HTTP_MAX_REDIRECTS = 5"

definition ZCIO_HTTP_MAX_RESPONSE :: nat where "ZCIO_HTTP_MAX_RESPONSE = 64 * 1024 * 1024"

subsection \<open>URLs\<close>

record zcio_url =
  hu_scheme :: bytes
  hu_secure :: bool
  hu_host :: bytes
  hu_port :: int
  hu_path :: bytes

text \<open>What follows the last \<open>@\<close>, or everything.\<close>

definition url_strip_userinfo :: "bytes \<Rightarrow> bytes" where
  "url_strip_userinfo auth = rev (takeWhile (\<lambda>c. c \<noteq> 0x40) (rev auth))"

text \<open>\<open>host[:port]\<close>, with brackets around an IPv6 literal; the port text is what follows the colon.\<close>

definition url_authority :: "bytes \<Rightarrow> zcio_result + (bytes \<times> bytes option)" where
  "url_authority auth =
     (if auth \<noteq> [] \<and> hd auth = 0x5B then
        (let h = takeWhile (\<lambda>c. c \<noteq> 0x5D) (tl auth); after = drop (length h + 2) auth in
         if length h = length (tl auth) then Inl ZCIO_ERR_PROTOCOL
         else if after \<noteq> [] then
           (if hd after \<noteq> 0x3A then Inl ZCIO_ERR_PROTOCOL else Inr (h, Some (tl after)))
         else Inr (h, None))
      else
        (let h = takeWhile (\<lambda>c. c \<noteq> 0x3A) auth in
         Inr (h, if length h < length auth then Some (drop (length h + 1) auth) else None)))"

definition url_port :: "bool \<Rightarrow> bytes option \<Rightarrow> zcio_result + int" where
  "url_port sec ps =
     (case ps of
        None \<Rightarrow> Inr (if sec then 443 else 80)
      | Some pb \<Rightarrow>
          if pb = [] then Inr (if sec then 443 else 80)
          else if length pb \<ge> 16 then Inl ZCIO_ERR_PROTOCOL
          else (case strtol10 pb of
              None \<Rightarrow> Inl ZCIO_ERR_PROTOCOL
            | Some (v, rest) \<Rightarrow> if rest \<noteq> [] \<or> v < 1 \<or> v > 65535 then Inl ZCIO_ERR_PROTOCOL else Inr v))"

definition url_parse :: "allocator \<Rightarrow> bytes option \<Rightarrow> zcio_result + zcio_url" where
  "url_parse alloc uri =
     (case uri of
        None \<Rightarrow> Inl ZCIO_ERR_INVALID_ARG
      | Some s \<Rightarrow>
          (let sc = takeWhile (\<lambda>c. c \<noteq> 0x3A) s; scheme = map tolower sc in
           if length sc = length s then Inl ZCIO_ERR_PROTOCOL
           else if \<not> alloc (length sc + 1) then Inl ZCIO_ERR_NOMEM
           else if scheme \<noteq> asc ''http'' \<and> scheme \<noteq> asc ''https'' then Inl ZCIO_ERR_PROTOCOL
           else
             (let secure = (scheme = asc ''https'');
                  p0 = drop (length sc + 1) s;
                  p = (if take 2 p0 = asc ''//'' then drop 2 p0 else p0);
                  auth = takeWhile (\<lambda>c. c \<noteq> 0x2F) p;
                  path = (if length auth < length p then drop (length auth) p else [0x2F])
              in if \<not> alloc (length path + 1) then Inl ZCIO_ERR_NOMEM
                 else (case url_authority (url_strip_userinfo auth) of
                     Inl e \<Rightarrow> Inl e
                   | Inr (host, ps) \<Rightarrow>
                       if \<not> alloc (length host + 1) then Inl ZCIO_ERR_NOMEM
                       else (case url_port secure ps of
                           Inl e \<Rightarrow> Inl e
                         | Inr port \<Rightarrow> Inr \<lparr>hu_scheme = scheme, hu_secure = secure, hu_host = host, hu_port = port, hu_path = path\<rparr>)))))"

subsection \<open>The byte buffer\<close>

text \<open>The data pointer is NULL exactly when the capacity is 0.\<close>

record buf_t =
  bf_data :: bytes
  bf_cap :: nat

definition buf_zero :: buf_t where "buf_zero = \<lparr>bf_data = [], bf_cap = 0\<rparr>"

definition buf_reserve :: "allocator \<Rightarrow> buf_t \<Rightarrow> nat \<Rightarrow> zcio_result \<times> buf_t" where
  "buf_reserve alloc b extra =
     (if extra > SIZE_MAX - length (bf_data b) then (ZCIO_ERR_NOMEM, b)
      else (let need = length (bf_data b) + extra in
        if need \<le> bf_cap b then (ZCIO_OK, b)
        else (let cap = grow_cap (if bf_cap b \<noteq> 0 then bf_cap b else 256) need in
          if \<not> alloc cap then (ZCIO_ERR_NOMEM, b) else (ZCIO_OK, b\<lparr>bf_cap := cap\<rparr>))))"

definition buf_append :: "allocator \<Rightarrow> buf_t \<Rightarrow> bytes \<Rightarrow> zcio_result \<times> buf_t" where
  "buf_append alloc b src =
     (if src = [] then (ZCIO_OK, b)
      else (case buf_reserve alloc b (length src) of
          (r, b1) \<Rightarrow> if r \<noteq> ZCIO_OK then (r, b1) else (ZCIO_OK, b1\<lparr>bf_data := bf_data b1 @ src\<rparr>)))"

text \<open>A run of appends that stops at the first failure.\<close>

fun buf_append_all :: "allocator \<Rightarrow> bytes list \<Rightarrow> buf_t \<Rightarrow> zcio_result \<times> buf_t" where
  "buf_append_all alloc [] b = (ZCIO_OK, b)"
| "buf_append_all alloc (s # ss) b =
     (case buf_append alloc b s of (r, b1) \<Rightarrow> if r \<noteq> ZCIO_OK then (r, b1) else buf_append_all alloc ss b1)"

text \<open>The strings appended for one escaped C string, character by character.\<close>

definition json_append_escaped :: "bytes \<Rightarrow> bytes list" where
  "json_append_escaped s = concat (map (\<lambda>c. if c = 0x22 \<or> c = 0x5C then [[0x5C], [c]] else [[c]]) s)"

subsection \<open>Requests\<close>

definition header_token_ok :: "bytes option \<Rightarrow> bool" where
  "header_token_ok s = (case s of None \<Rightarrow> False | Some t \<Rightarrow> list_all (\<lambda>p. \<not> (p < 0x20 \<or> p = 0x7F)) t)"

definition header_sent :: "http_header \<Rightarrow> bool" where
  "header_sent h = (case h of (k, v) \<Rightarrow> k \<noteq> None \<and> header_token_ok k \<and> (v = None \<or> header_token_ok v))"

definition header_strs :: "http_header \<Rightarrow> bytes list" where
  "header_strs h = (case h of (k, v) \<Rightarrow> [the k, asc '': '', (case v of None \<Rightarrow> [] | Some v' \<Rightarrow> v'), crlf])"

definition header_is_connection :: "http_header \<Rightarrow> bool" where
  "header_is_connection h = (map tolower (the (fst h)) = asc ''connection'')"

text \<open>The length line is formatted into 32 bytes, so at most 31 characters of it are kept.\<close>

definition request_strs :: "bytes \<Rightarrow> zcio_url \<Rightarrow> http_header list \<Rightarrow> bytes option \<Rightarrow> nat \<Rightarrow> bytes list" where
  "request_strs method u headers body blen =
     (let sent = filter header_sent headers in
      [method, [0x20], hu_path u, asc '' HTTP/1.1'' @ crlf @ asc ''Host: '', hu_host u, crlf]
      @ concat (map header_strs sent)
      @ (if list_ex header_is_connection sent then [] else [asc ''Connection: close'' @ crlf])
      @ [take 31 (asc ''Content-Length: '' @ dec_digits blen @ crlf @ crlf)]
      @ (if body \<noteq> None \<and> blen \<noteq> 0 then [take blen (the body)] else []))"

definition build_request ::
  "allocator \<Rightarrow> bytes option \<Rightarrow> zcio_url \<Rightarrow> http_header list \<Rightarrow> bytes option \<Rightarrow> nat \<Rightarrow> zcio_result + buf_t" where
  "build_request alloc method u headers body blen =
     (if \<not> header_token_ok method then Inl ZCIO_ERR_INVALID_ARG
      else (case buf_append_all alloc (request_strs (the method) u headers body blen) buf_zero of
          (r, b) \<Rightarrow> if r \<noteq> ZCIO_OK then Inl ZCIO_ERR_NOMEM else Inr b))"

subsection \<open>Chunked bodies\<close>

definition is_xdigit :: "byte \<Rightarrow> bool" where
  "is_xdigit c \<longleftrightarrow> hexval c \<noteq> -1"

definition hex_value :: "bytes \<Rightarrow> nat" where
  "hex_value ds = foldl (\<lambda>a c. a * 16 + nat (hexval c)) 0 ds"

text \<open>
  \<open>strtoull\<close> in base 16: white space, a sign, \<open>0x\<close> and the digits; the value saturates, and a
  minus sign negates it modulo \<open>2\<^sup>64\<close>. The result is the value and what follows the number.
\<close>

definition strtoull16 :: "bytes \<Rightarrow> (nat \<times> bytes) option" where
  "strtoull16 s =
     (let t = dropWhile c_isspace s;
          neg = (t \<noteq> [] \<and> hd t = 0x2D);
          u = (if t \<noteq> [] \<and> (hd t = 0x2D \<or> hd t = 0x2B) then tl t else t);
          w = (if length u \<ge> 3 \<and> u ! 0 = 0x30 \<and> (u ! 1 = 0x78 \<or> u ! 1 = 0x58) \<and> is_xdigit (u ! 2) then drop 2 u else u);
          ds = takeWhile is_xdigit w;
          v = hex_value ds
      in if ds = [] then None
         else Some (if v \<ge> 2 ^ 64 then 2 ^ 64 - 1 else if neg then (2 ^ 64 - v) mod 2 ^ 64 else v, dropWhile is_xdigit w))"

text \<open>
  The bytes up to the first line feed, where there is one. The number of a chunk line is read by
  \<open>strtoull\<close> from the same place; when the line is blank, the scan runs into whatever follows, past
  the end of the data even, and every outcome of that is rejected because the number would end
  behind the line. So only the bytes of the buffer matter here.
\<close>

definition line_len :: "bytes \<Rightarrow> nat option" where
  "line_len p = (let i = length (takeWhile (\<lambda>c. c \<noteq> 0x0A) p) in if i < length p then Some i else None)"

lemma line_len_less: "line_len p = Some i \<Longrightarrow> i < length p"
  by (auto simp: line_len_def Let_def split: if_splits)

datatype scan_ret = ScanMore | ScanBad | ScanDone bytes

text \<open>Whether the trailers end within the data.\<close>

function scan_trailers :: "bytes \<Rightarrow> bool" where
  "scan_trailers p =
     (case line_len p of
        None \<Rightarrow> False
      | Some te \<Rightarrow> if te = 0 \<or> te = 1 \<and> p ! 0 = 0x0D then True else scan_trailers (drop (te + 1) p))"
  by pat_completeness auto
termination
  by (relation "measure length") (auto dest: line_len_less)

declare scan_trailers.simps [simp del]

text \<open>The payload found so far is \<open>acc\<close>; both passes of the source are this scan.\<close>

function chunked_scan :: "bytes \<Rightarrow> bytes \<Rightarrow> scan_ret" where
  "chunked_scan p acc =
     (case line_len p of
        None \<Rightarrow> ScanMore
      | Some le \<Rightarrow>
          (case strtoull16 p of
             None \<Rightarrow> ScanBad
           | Some (sz, rest) \<Rightarrow>
               if length p - length rest > le then ScanBad
               else
                 (let q = drop (le + 1) p in
                  if sz = 0 then (if scan_trailers q then ScanDone acc else ScanMore)
                  else if sz > ZCIO_HTTP_MAX_RESPONSE \<or> length acc + sz > ZCIO_HTTP_MAX_RESPONSE then ScanBad
                  else if length q < sz + 2 then ScanMore
                  else if q ! sz \<noteq> 0x0D \<or> q ! (sz + 1) \<noteq> 0x0A then ScanBad
                  else chunked_scan (drop (sz + 2) q) (acc @ take sz q))))"
  by pat_completeness auto
termination
  by (relation "measure (\<lambda>(p, acc). length p)") (auto dest: line_len_less)

declare chunked_scan.simps [simp del]

subsection \<open>Responses\<close>

text \<open>\<open>atoll\<close> and \<open>atoi\<close>: saturating, and for \<open>atoi\<close> cut to 32 bits; 0 when there is no number.\<close>

definition atoll :: "bytes \<Rightarrow> int" where
  "atoll s = (case strtol10 s of None \<Rightarrow> 0 | Some (v, _) \<Rightarrow> max (- (2 ^ 63)) (min v (2 ^ 63 - 1)))"

definition atoi :: "bytes \<Rightarrow> int" where
  "atoi s = sint (word_of_int (atoll s) :: 32 word)"

text \<open>The value of a header line: white space before it and carriage returns after it dropped.\<close>

definition line_value :: "bytes \<Rightarrow> bytes" where
  "line_value v = rev (dropWhile (\<lambda>c. c = 0x0D) (rev (dropWhile is_ows v)))"

function find_header_value :: "allocator \<Rightarrow> bytes \<Rightarrow> bytes \<Rightarrow> bytes option" where
  "find_header_value alloc h key =
     (if h = [] then None
      else
        (let line = takeWhile (\<lambda>c. c \<noteq> 0x0A) h;
             k = takeWhile (\<lambda>c. c \<noteq> 0x3A) line;
             v = line_value (drop (length k + 1) line)
         in if length k < length line \<and> length k = length key \<and> map tolower k = map tolower key
            then (if alloc (length v + 1) then Some (cstr v) else None)
            else if length line = length h then None
            else find_header_value alloc (drop (length line + 1) h) key))"
  by pat_completeness auto
termination
  by (relation "measure (\<lambda>(alloc, h, key). length h)") auto

declare find_header_value.simps [simp del]

definition says_chunked :: "allocator \<Rightarrow> bytes \<Rightarrow> bool" where
  "says_chunked alloc h =
     (case find_header_value alloc h (asc ''Transfer-Encoding'') of
        None \<Rightarrow> False
      | Some te \<Rightarrow> str_find (asc ''chunked'') (map tolower te) \<noteq> None)"

text \<open>The clock is a function of the number of earlier readings, which the operations count.\<close>

record 'c http_env =
  hc_alloc :: allocator
  hc_now :: "nat \<Rightarrow> nat"
  hc_timeout :: "'c zcio_stream option \<Rightarrow> int \<Rightarrow> 'c zcio_stream option"
  hc_tls_ctx :: "bytes \<Rightarrow> bool"
  hc_dial :: "nat \<Rightarrow> bytes \<Rightarrow> int \<Rightarrow> bool \<Rightarrow> int \<Rightarrow> int \<Rightarrow> 'c zcio_stream option option"
  hc_session_mem :: bool

definition deadline_remaining_ms :: "'c http_env \<Rightarrow> nat \<Rightarrow> nat \<Rightarrow> int \<times> nat" where
  "deadline_remaining_ms env deadline t =
     (if deadline = 0 then (-1, t)
      else (let now = hc_now env t in
        if now \<ge> deadline then (0, t + 1)
        else (if int (deadline - now) > INT_MAX then INT_MAX else int (deadline - now), t + 1)))"

text \<open>What the head of a response says about its body: the length of the head, the declared length or -1, and whether it is chunked.\<close>

record framing =
  fr_body_off :: nat
  fr_content_len :: int
  fr_chunked :: bool

definition head_framing :: "allocator \<Rightarrow> bytes \<Rightarrow> framing option" where
  "head_framing alloc d =
     (case str_find (crlf @ crlf) d of
        None \<Rightarrow> None
      | Some i \<Rightarrow> Some \<lparr>fr_body_off = i + 4,
          fr_content_len = (case find_header_value alloc (take i d) (asc ''Content-Length'') of None \<Rightarrow> -1 | Some cl \<Rightarrow> atoll cl),
          fr_chunked = says_chunked alloc (take i d)\<rparr>)"

text \<open>Whether the bytes read make a whole response; a malformed chunked body is an error.\<close>

definition response_complete :: "framing option \<Rightarrow> bytes \<Rightarrow> zcio_result + bool" where
  "response_complete fr d =
     (case fr of
        None \<Rightarrow> Inr False
      | Some f \<Rightarrow>
          if fr_chunked f then
            (case chunked_scan (drop (fr_body_off f) d) [] of
               ScanDone _ \<Rightarrow> Inr True | ScanBad \<Rightarrow> Inl ZCIO_ERR_PROTOCOL | ScanMore \<Rightarrow> Inr False)
          else Inr (fr_content_len f \<ge> 0 \<and> length d - fr_body_off f \<ge> nat (fr_content_len f)))"

partial_function (option) read_response_loop ::
  "'c http_env \<Rightarrow> nat \<Rightarrow> 'c zcio_stream option \<Rightarrow> nat \<Rightarrow> framing option \<Rightarrow> buf_t \<Rightarrow> ((int + buf_t) \<times> 'c zcio_stream option \<times> nat) option" where
  "read_response_loop env deadline s t fr out =
     (case deadline_remaining_ms env deadline t of
        (rem, t1) \<Rightarrow>
          if rem = 0 then Some (Inl (zcode ZCIO_ERR_TIMEOUT), s, t1)
          else
            Option.bind (zcio_read (if rem > 0 then hc_timeout env s rem else s) True 8192) (\<lambda>(r, d, s1).
              if r < 0 then Some (Inl r, s1, t1)
              else if r = 0 then Some (Inr out, s1, t1)
              else if length (bf_data out) + nat r > ZCIO_HTTP_MAX_RESPONSE then Some (Inl (zcode ZCIO_ERR_PROTOCOL), s1, t1)
              else (case buf_append (hc_alloc env) out (take (nat r) d) of
                  (a, out1) \<Rightarrow>
                    if a \<noteq> ZCIO_OK then Some (Inl (zcode ZCIO_ERR_NOMEM), s1, t1)
                    else
                      (let fr1 = (if fr = None then head_framing (hc_alloc env) (bf_data out1) else fr) in
                       case response_complete fr1 (bf_data out1) of
                         Inl e \<Rightarrow> Some (Inl (zcode e), s1, t1)
                       | Inr fin \<Rightarrow> if fin then Some (Inr out1, s1, t1) else read_response_loop env deadline s1 t1 fr1 out1))))"

definition read_response ::
  "'c http_env \<Rightarrow> 'c zcio_stream option \<Rightarrow> nat \<Rightarrow> nat \<Rightarrow> ((int + buf_t) \<times> 'c zcio_stream option \<times> nat) option" where
  "read_response env s deadline t = read_response_loop env deadline s t None buf_zero"

record zcio_http_response =
  hr_protocol :: "bytes option"
  hr_version :: "bytes option"
  hr_status_code :: "bytes option"
  hr_status_text :: "bytes option"
  hr_headers_json :: "bytes option"
  hr_body :: "bytes option"
  hr_body_size :: nat
  hr_status :: int

definition response_zero :: zcio_http_response where
  "response_zero = \<lparr>hr_protocol = None, hr_version = None, hr_status_code = None, hr_status_text = None,
     hr_headers_json = None, hr_body = None, hr_body_size = 0, hr_status = 0\<rparr>"

definition dup_range :: "allocator \<Rightarrow> bytes \<Rightarrow> bytes option" where
  "dup_range alloc s = (if alloc (length s + 1) then Some (cstr s) else None)"

text \<open>The fields of the status line; a copy that cannot be allocated is left NULL.\<close>

definition parse_status_line :: "allocator \<Rightarrow> bytes \<Rightarrow> zcio_http_response option" where
  "parse_status_line alloc sl =
     (let pv = takeWhile (\<lambda>c. c \<noteq> 0x20) sl;
          q = drop (length pv + 1) sl;
          code = takeWhile (\<lambda>c. c \<noteq> 0x20) q;
          pr = takeWhile (\<lambda>c. c \<noteq> 0x2F) pv;
          sc = dup_range alloc code
      in if length pv = length sl then None
         else Some \<lparr>hr_protocol = dup_range alloc pr,
           hr_version = (if length pr < length pv then dup_range alloc (drop (length pr + 1) pv) else dup_range alloc []),
           hr_status_code = sc,
           hr_status_text = (if length code < length q then dup_range alloc (drop (length code + 1) q) else dup_range alloc []),
           hr_headers_json = None, hr_body = None, hr_body_size = 0,
           hr_status = (case sc of None \<Rightarrow> 0 | Some c \<Rightarrow> atoi c)\<rparr>)"

text \<open>One header line without its line end, as key and value; lines without a colon are skipped.\<close>

definition header_line :: "bytes \<Rightarrow> (bytes \<times> bytes) option" where
  "header_line line =
     (let k = takeWhile (\<lambda>c. c \<noteq> 0x3A) line in
      if length k < length line then Some (k, dropWhile is_ows (drop (length k + 1) line)) else None)"

definition trim_cr :: "bytes \<Rightarrow> bytes" where
  "trim_cr line = (if line \<noteq> [] \<and> last line = 0x0D then butlast line else line)"

function json_headers :: "allocator \<Rightarrow> bytes \<Rightarrow> bool \<Rightarrow> buf_t \<Rightarrow> buf_t option" where
  "json_headers alloc h fresh json =
     (if h = [] then Some json
      else
        (let line = takeWhile (\<lambda>c. c \<noteq> 0x0A) h; rest = drop (length line + 1) h in
         case header_line (trim_cr line) of
           None \<Rightarrow> json_headers alloc rest fresh json
         | Some (k, v) \<Rightarrow>
             if \<not> alloc (length k + 1) \<or> \<not> alloc (length v + 1) then None
             else (case buf_append_all alloc
                     ((if fresh then [] else [[0x2C]]) @ [[0x22]] @ json_append_escaped (cstr k) @ [[0x22, 0x3A, 0x22]]
                      @ json_append_escaped (cstr v) @ [[0x22]]) json of
                 (r, json1) \<Rightarrow> if r \<noteq> ZCIO_OK then None else json_headers alloc rest False json1)))"
  by pat_completeness auto
termination
  by (relation "measure (\<lambda>(alloc, h, fresh, json). length h)") auto

declare json_headers.simps [simp del]

definition headers_json :: "allocator \<Rightarrow> bytes \<Rightarrow> buf_t option" where
  "headers_json alloc h =
     (case buf_append alloc buf_zero [0x7B] of
        (r, j) \<Rightarrow>
          if r \<noteq> ZCIO_OK then None
          else (case json_headers alloc h True j of
              None \<Rightarrow> None
            | Some j1 \<Rightarrow> (case buf_append_all alloc [[0x7D], [0]] j1 of (r, j2) \<Rightarrow> if r \<noteq> ZCIO_OK then None else Some j2)))"

text \<open>The body of a response and the error that stands in for it.\<close>

definition response_body :: "allocator \<Rightarrow> bytes \<Rightarrow> bytes \<Rightarrow> zcio_result + bytes" where
  "response_body alloc hdrs raw_body =
     (if says_chunked alloc hdrs then
        (case chunked_scan raw_body [] of
           ScanDone d \<Rightarrow> if alloc (length d + 1) then Inr d else Inl ZCIO_ERR_NOMEM
         | _ \<Rightarrow> Inl ZCIO_ERR_PROTOCOL)
      else
        (let avail = length raw_body;
             n = (case find_header_value alloc hdrs (asc ''Content-Length'') of None \<Rightarrow> -1 | Some cl \<Rightarrow> atoll cl);
             len = (if n \<ge> 0 \<and> nat n < avail then nat n else avail)
         in if alloc (len + 1) then Inr (take len raw_body) else Inl ZCIO_ERR_NOMEM))"

definition parse_response :: "allocator \<Rightarrow> bytes \<Rightarrow> zcio_result + (zcio_http_response \<times> bytes option)" where
  "parse_response alloc data =
     (case str_find (crlf @ crlf) data of
        None \<Rightarrow> Inl ZCIO_ERR_PROTOCOL
      | Some i \<Rightarrow>
          (let block = take i data; sl = takeWhile (\<lambda>c. c \<noteq> 0x0A) block; hdrs = drop (length sl + 1) block in
           if length sl = length block then Inl ZCIO_ERR_PROTOCOL
           else (case parse_status_line alloc (trim_cr sl) of
               None \<Rightarrow> Inl ZCIO_ERR_PROTOCOL
             | Some resp \<Rightarrow>
                 (case headers_json alloc hdrs of
                    None \<Rightarrow> Inl ZCIO_ERR_NOMEM
                  | Some json \<Rightarrow>
                      (case response_body alloc hdrs (drop (i + 4) data) of
                         Inl e \<Rightarrow> Inl e
                       | Inr body \<Rightarrow>
                           Inr (resp\<lparr>hr_headers_json := Some (cstr (bf_data json)), hr_body := Some body, hr_body_size := length body\<rparr>,
                                find_header_value alloc hdrs (asc ''Location'')))))))"

subsection \<open>One exchange\<close>

text \<open>
  What an exchange leaves behind besides its result: how often the clock was read, the connections
  dialled and the requests handed to the transport, in order.
\<close>

record http_log =
  lg_ticks :: nat
  lg_dials :: "zcio_url list"
  lg_sent :: "bytes list"

definition log_zero :: http_log where
  "log_zero = \<lparr>lg_ticks = 0, lg_dials = [], lg_sent = []\<rparr>"

definition log_deadline :: "'c http_env \<Rightarrow> nat \<Rightarrow> http_log \<Rightarrow> int \<times> http_log" where
  "log_deadline env deadline lg =
     (case deadline_remaining_ms env deadline (lg_ticks lg) of (rem, t) \<Rightarrow> (rem, lg\<lparr>lg_ticks := t\<rparr>))"

text \<open>The time-out of the connect, from the caller's and what is left of the deadline.\<close>

definition connect_timeout :: "int \<Rightarrow> int \<Rightarrow> int" where
  "connect_timeout rem cto = (if rem > 0 \<and> (cto \<le> 0 \<or> cto > rem) then rem else cto)"

text \<open>The outcome of reading: an error says whether the connection is of no more use.\<close>

definition answer_of :: "int + buf_t \<Rightarrow> int \<times> bool + buf_t" where
  "answer_of rr = (case rr of Inl e \<Rightarrow> Inl (e, True) | Inr raw \<Rightarrow> Inr raw)"

text \<open>Build a request, send it and read the answer, over an open connection.\<close>

definition send_and_read ::
  "'c http_env \<Rightarrow> bytes option \<Rightarrow> zcio_url \<Rightarrow> http_header list \<Rightarrow> bytes option \<Rightarrow> nat \<Rightarrow> nat \<Rightarrow> 'c zcio_stream \<Rightarrow> http_log
     \<Rightarrow> ((int \<times> bool + buf_t) \<times> 'c zcio_stream option \<times> http_log) option" where
  "send_and_read env method u headers body blen deadline s lg =
     (case build_request (hc_alloc env) method u headers body blen of
        Inl e \<Rightarrow> Some (Inl (zcode e, False), Some s, lg)
      | Inr req \<Rightarrow>
          (case log_deadline env deadline lg of
             (rem, lg1) \<Rightarrow>
               if rem = 0 then Some (Inl (zcode ZCIO_ERR_TIMEOUT, False), Some s, lg1)
               else do {
                 (w, s1) \<leftarrow> zcio_write_full (if rem > 0 then hc_timeout env (Some s) rem else Some s) (Some (bf_data req)) (length (bf_data req));
                 let lg2 = lg1\<lparr>lg_sent := lg_sent lg1 @ [bf_data req]\<rparr>;
                 if w < 0 \<or> nat w \<noteq> length (bf_data req) then Some (Inl (zcode ZCIO_ERR, True), s1, lg2)
                 else do {
                   (rr, s2, t) \<leftarrow> read_response env s1 deadline (lg_ticks lg2);
                   Some (answer_of rr, s2, lg2\<lparr>lg_ticks := t\<rparr>) } }))"

definition exchange_result :: "allocator \<Rightarrow> zcio_url \<Rightarrow> int \<times> bool + buf_t \<Rightarrow> int + zcio_http_response \<times> bytes option \<times> zcio_url" where
  "exchange_result alloc u r =
     (case r of
        Inl (e, _) \<Rightarrow> Inl e
      | Inr raw \<Rightarrow>
          (case parse_response alloc (bf_data raw) of
             Inl e \<Rightarrow> Inl (zcode e)
           | Inr (resp, loc) \<Rightarrow> Inr (resp, loc, u)))"

definition do_exchange ::
  "'c http_env \<Rightarrow> bytes option \<Rightarrow> bytes option \<Rightarrow> http_header list \<Rightarrow> bytes option \<Rightarrow> nat \<Rightarrow> int \<Rightarrow> nat \<Rightarrow> http_log
     \<Rightarrow> ((int + zcio_http_response \<times> bytes option \<times> zcio_url) \<times> http_log) option" where
  "do_exchange env method url headers body blen cto deadline lg =
     (case url_parse (hc_alloc env) url of
        Inl e \<Rightarrow> Some (Inl (zcode e), lg)
      | Inr u \<Rightarrow>
          if \<not> hc_alloc env (length (hu_scheme u) + 1) \<or> \<not> hc_alloc env (length (hu_host u) + 1) \<or> \<not> hc_alloc env (length (hu_path u) + 1)
          then Some (Inl (zcode ZCIO_ERR_NOMEM), lg)
          else (case log_deadline env deadline lg of
              (rem, lg1) \<Rightarrow>
                if rem = 0 then Some (Inl (zcode ZCIO_ERR_TIMEOUT), lg1)
                else if hu_secure u \<and> \<not> hc_tls_ctx env (hu_host u) then Some (Inl (zcode ZCIO_ERR_TLS), lg1)
                else
                  (let lg2 = lg1\<lparr>lg_dials := lg_dials lg1 @ [u]\<rparr> in
                   case hc_dial env (length (lg_dials lg1)) (hu_host u) (hu_port u) (hu_secure u) (connect_timeout rem cto) (if rem > 0 then rem else 0) of
                     None \<Rightarrow> Some (Inl (zcode ZCIO_ERR_CONNECT), lg2)
                   | Some None \<Rightarrow> Some (Inl (zcode ZCIO_ERR), lg2)
                   | Some (Some s) \<Rightarrow> do {
                       (r, s1, lg3) \<leftarrow> send_and_read env method u headers body blen deadline s lg2;
                       Some (exchange_result (hc_alloc env) u r, lg3) })))"

subsection \<open>Redirects\<close>

definition says_http :: "bytes \<Rightarrow> bool" where
  "says_http loc \<longleftrightarrow> length loc \<ge> 5 \<and> (loc ! 0 = 0x68 \<or> loc ! 0 = 0x48) \<and> tolower (loc ! 1) = 0x74 \<and> tolower (loc ! 2) = 0x74 \<and>
     tolower (loc ! 3) = 0x70 \<and> loc ! 4 = 0x3A"

text \<open>A scheme before any slash.\<close>

definition is_absolute :: "bytes \<Rightarrow> bool" where
  "is_absolute loc \<longleftrightarrow> 0x3A \<in> set loc \<and> 0x2F \<notin> set (takeWhile (\<lambda>c. c \<noteq> 0x3A) loc)"

definition url_print :: "zcio_url \<Rightarrow> bytes \<Rightarrow> bytes" where
  "url_print u path = hu_scheme u @ asc ''://''
     @ (if 0x3A \<in> set (hu_host u) then [0x5B] @ hu_host u @ [0x5D] else hu_host u)
     @ (if hu_port u \<noteq> (if hu_secure u then 443 else 80) then 0x3A # fmt_int (hu_port u) else []) @ path"

definition resolve_redirect :: "allocator \<Rightarrow> zcio_url \<Rightarrow> bytes \<Rightarrow> zcio_result + bytes" where
  "resolve_redirect alloc prev loc =
     (if loc = [] then Inl ZCIO_ERR_PROTOCOL
      else if is_absolute loc then
        (if hu_secure prev \<and> says_http loc then Inl ZCIO_ERR_PROTOCOL
         else if alloc (length loc + 1) then Inr loc else Inl ZCIO_ERR_NOMEM)
      else if hd loc \<noteq> 0x2F then Inl ZCIO_ERR_PROTOCOL
      else (let a = url_print prev loc in if alloc (length a + 1) then Inr a else Inl ZCIO_ERR_NOMEM))"

text \<open>The loop with \<open>left\<close> further redirects allowed.\<close>

primrec request_loop ::
  "nat \<Rightarrow> 'c http_env \<Rightarrow> bytes option \<Rightarrow> http_header list \<Rightarrow> bytes option \<Rightarrow> nat \<Rightarrow> int \<Rightarrow> nat \<Rightarrow> bytes option \<Rightarrow> http_log
     \<Rightarrow> ((int + zcio_http_response) \<times> http_log) option" where
  "request_loop 0 env method headers body blen cto deadline cur lg = do {
     (r, lg1) \<leftarrow> do_exchange env method cur headers body blen cto deadline lg;
     Some (case r of Inl e \<Rightarrow> Inl e | Inr (resp, loc, u) \<Rightarrow> Inr resp, lg1) }"
| "request_loop (Suc left) env method headers body blen cto deadline cur lg = do {
     (r, lg1) \<leftarrow> do_exchange env method cur headers body blen cto deadline lg;
     (case r of
        Inl e \<Rightarrow> Some (Inl e, lg1)
      | Inr (resp, loc, u) \<Rightarrow>
          if 300 \<le> hr_status resp \<and> hr_status resp < 400 \<and> loc \<noteq> None \<and> the loc \<noteq> [] then
            (case resolve_redirect (hc_alloc env) u (the loc) of
               Inl e \<Rightarrow> Some (Inr resp, lg1)
             | Inr nxt \<Rightarrow> request_loop left env method headers body blen cto deadline (Some nxt) lg1)
          else Some (Inr resp, lg1)) }"

text \<open>Options: the connect time-out and the whole time-out. The deadline is a \<open>uint64_t\<close>.\<close>

definition opts_deadline :: "'c http_env \<Rightarrow> (int \<times> int) option \<Rightarrow> http_log \<Rightarrow> nat \<times> http_log" where
  "opts_deadline env opts lg =
     (if opts \<noteq> None \<and> snd (the opts) > 0
      then ((hc_now env (lg_ticks lg) + nat (snd (the opts))) mod 2 ^ 64, lg\<lparr>lg_ticks := lg_ticks lg + 1\<rparr>)
      else (0, lg))"

text \<open>A failure returns the zeroed response; the code is the one passed to \<open>zcio_fail_\<close>.\<close>

definition zcio_http_request_opts ::
  "'c http_env \<Rightarrow> bytes option \<Rightarrow> bytes option \<Rightarrow> http_header list \<Rightarrow> bytes option \<Rightarrow> nat \<Rightarrow> (int \<times> int) option
     \<Rightarrow> ((int + zcio_http_response) \<times> http_log) option" where
  "zcio_http_request_opts env method url headers body blen opts =
     (case opts_deadline env opts log_zero of
        (deadline, lg) \<Rightarrow>
          if url \<noteq> None \<and> \<not> hc_alloc env (length (the url) + 1) then Some (Inl (zcode ZCIO_ERR_NOMEM), lg)
          else request_loop ZCIO_HTTP_MAX_REDIRECTS env method headers body blen
                 (case opts of None \<Rightarrow> 0 | Some (cto, _) \<Rightarrow> cto) deadline url lg)"

definition zcio_http_request ::
  "'c http_env \<Rightarrow> bytes option \<Rightarrow> bytes option \<Rightarrow> http_header list \<Rightarrow> bytes option \<Rightarrow> nat \<Rightarrow> ((int + zcio_http_response) \<times> http_log) option" where
  "zcio_http_request env method url headers body blen = zcio_http_request_opts env method url headers body blen None"

definition zcio_http_get :: "'c http_env \<Rightarrow> bytes option \<Rightarrow> ((int + zcio_http_response) \<times> http_log) option" where
  "zcio_http_get env url = zcio_http_request env (Some (asc ''GET'')) url [] None 0"

definition zcio_http_delete :: "'c http_env \<Rightarrow> bytes option \<Rightarrow> ((int + zcio_http_response) \<times> http_log) option" where
  "zcio_http_delete env url = zcio_http_request env (Some (asc ''DELETE'')) url [] None 0"

definition zcio_http_post :: "'c http_env \<Rightarrow> bytes option \<Rightarrow> bytes option \<Rightarrow> nat \<Rightarrow> ((int + zcio_http_response) \<times> http_log) option" where
  "zcio_http_post env url body n = zcio_http_request env (Some (asc ''POST'')) url [] body n"

definition zcio_http_put :: "'c http_env \<Rightarrow> bytes option \<Rightarrow> bytes option \<Rightarrow> nat \<Rightarrow> ((int + zcio_http_response) \<times> http_log) option" where
  "zcio_http_put env url body n = zcio_http_request env (Some (asc ''PUT'')) url [] body n"

subsection \<open>Keep-alive sessions\<close>

record 'c zcio_http_session =
  ss_origin :: zcio_url
  ss_tls :: bool
  ss_client :: "'c zcio_stream option option"

definition session_connect ::
  "'c http_env \<Rightarrow> 'c zcio_http_session \<Rightarrow> int \<Rightarrow> int \<Rightarrow> http_log \<Rightarrow> zcio_result \<times> 'c zcio_http_session \<times> http_log" where
  "session_connect env ss cto ioto lg =
     (if ss_client ss \<noteq> None then (ZCIO_OK, ss, lg)
      else
        (let u = ss_origin ss;
             cl = hc_dial env (length (lg_dials lg)) (hu_host u) (hu_port u) (ss_tls ss) cto ioto;
             lg1 = lg\<lparr>lg_dials := lg_dials lg @ [u]\<rparr>
         in (if cl \<noteq> None then ZCIO_OK else ZCIO_ERR_CONNECT, ss\<lparr>ss_client := cl\<rparr>, lg1)))"

definition session_drop :: "'c zcio_http_session \<Rightarrow> 'c zcio_http_session" where
  "session_drop ss = ss\<lparr>ss_client := None\<rparr>"

definition response_says_close :: "allocator \<Rightarrow> bytes \<Rightarrow> bool" where
  "response_says_close alloc h =
     (case find_header_value alloc h (asc ''Connection'') of
        None \<Rightarrow> False
      | Some v \<Rightarrow> str_find (asc ''close'') (map tolower v) \<noteq> None)"

text \<open>The header block of a response that was parsed, and whether it ends the connection.\<close>

definition closes_connection :: "allocator \<Rightarrow> bytes \<Rightarrow> bool" where
  "closes_connection alloc data =
     (case str_find (crlf @ crlf) data of
        None \<Rightarrow> False
      | Some i \<Rightarrow>
          (let block = take i data; sl = takeWhile (\<lambda>c. c \<noteq> 0x0A) block in
           length sl < length block \<and> response_says_close alloc (drop (length sl + 1) block)))"

text \<open>The result of an exchange and the session after it.\<close>

definition session_result ::
  "allocator \<Rightarrow> 'c zcio_http_session \<Rightarrow> int \<times> bool + buf_t \<Rightarrow> (int + zcio_http_response) \<times> 'c zcio_http_session" where
  "session_result alloc ss r =
     (case r of
        Inl (e, dropped) \<Rightarrow> (Inl e, if dropped then session_drop ss else ss)
      | Inr raw \<Rightarrow>
          if bf_data raw = [] then (Inl (zcode ZCIO_ERR), session_drop ss)
          else (case parse_response alloc (bf_data raw) of
              Inl e \<Rightarrow> (Inl (zcode e), session_drop ss)
            | Inr (resp, _) \<Rightarrow> (Inr resp, if closes_connection alloc (bf_data raw) then session_drop ss else ss)))"

definition session_exchange_once ::
  "'c http_env \<Rightarrow> 'c zcio_http_session \<Rightarrow> bytes option \<Rightarrow> bytes option \<Rightarrow> http_header list \<Rightarrow> bytes option \<Rightarrow> nat \<Rightarrow> int \<Rightarrow> nat \<Rightarrow> http_log
     \<Rightarrow> ((int + zcio_http_response) \<times> 'c zcio_http_session \<times> http_log) option" where
  "session_exchange_once env ss method path headers body blen cto deadline lg =
     (case log_deadline env deadline lg of
        (rem, lg1) \<Rightarrow>
          if rem = 0 then Some (Inl (zcode ZCIO_ERR_TIMEOUT), ss, lg1)
          else (case session_connect env ss (connect_timeout rem cto) (if rem > 0 then rem else 0) lg1 of
              (cr, ss1, lg2) \<Rightarrow>
                if cr \<noteq> ZCIO_OK then Some (Inl (zcode cr), ss1, lg2)
                else (case the (ss_client ss1) of
                    None \<Rightarrow> Some (Inl (zcode ZCIO_ERR), session_drop ss1, lg2)
                  | Some s \<Rightarrow>
                      if \<not> hc_alloc env ((length headers + 1) * 16) then Some (Inl (zcode ZCIO_ERR_NOMEM), ss1, lg2)
                      else do {
                        let u = (ss_origin ss1)\<lparr>hu_path := (case path of None \<Rightarrow> [0x2F] | Some p \<Rightarrow> if p = [] then [0x2F] else p)\<rparr>;
                        (r, s1, lg3) \<leftarrow> send_and_read env method u
                          (headers @ [(Some (asc ''Connection''), Some (asc ''keep-alive''))]) body blen deadline s lg2;
                        (case session_result (hc_alloc env) (ss1\<lparr>ss_client := Some s1\<rparr>) r of
                           (res, ss2) \<Rightarrow> Some (res, ss2, lg3)) })))"

definition zcio_http_session_create :: "'c http_env \<Rightarrow> bytes option \<Rightarrow> 'c zcio_http_session option" where
  "zcio_http_session_create env base_url =
     (case url_parse (hc_alloc env) base_url of
        Inl e \<Rightarrow> None
      | Inr u \<Rightarrow>
          if \<not> hc_session_mem env then None
          else if hu_secure u \<and> \<not> hc_tls_ctx env (hu_host u) then None
          else Some \<lparr>ss_origin = u, ss_tls = hu_secure u, ss_client = None\<rparr>)"

definition zcio_http_session_request ::
  "'c http_env \<Rightarrow> 'c zcio_http_session option \<Rightarrow> bytes option \<Rightarrow> bytes option \<Rightarrow> http_header list \<Rightarrow> bytes option \<Rightarrow> nat \<Rightarrow> (int \<times> int) option \<Rightarrow> http_log
     \<Rightarrow> ((int + zcio_http_response) \<times> 'c zcio_http_session option \<times> http_log) option" where
  "zcio_http_session_request env sess method path headers body blen opts lg =
     (case sess of
        None \<Rightarrow> Some (Inl (zcode ZCIO_ERR_INVALID_ARG), None, lg)
      | Some ss \<Rightarrow>
          (case opts_deadline env opts lg of
             (deadline, lg0) \<Rightarrow> do {
               let cto = (case opts of None \<Rightarrow> 0 | Some (cto, _) \<Rightarrow> cto);
               (r, ss1, lg1) \<leftarrow> session_exchange_once env ss method path headers body blen cto deadline lg0;
               (case r of
                  Inr resp \<Rightarrow> Some (Inr resp, Some ss1, lg1)
                | Inl _ \<Rightarrow> do {
                    (r2, ss2, lg2) \<leftarrow> session_exchange_once env ss1 method path headers body blen cto deadline lg1;
                    Some (r2, Some ss2, lg2) }) }))"

end
