(* ===== verification/Zc_HttpClient.thy ===== *)
theory Zc_HttpClient
  imports Zc_Http "HOL-Library.Sublist"
begin

unbundle bit_operations_syntax

text \<open>
  The HTTP client at work: redirects never leave TLS, a chunked body is decided by its bytes alone,
  and the read loop returns a whole response however the transport cuts it.
\<close>

section \<open>What the HTTP client does\<close>

subsection \<open>Redirects never leave TLS\<close>

lemma url_parse_scheme:
  assumes "url_parse alloc (Some s) = Inr u"
  shows "hu_scheme u = map tolower (takeWhile (\<lambda>c. c \<noteq> 0x3A) s)" "length (takeWhile (\<lambda>c. c \<noteq> 0x3A) s) < length s"
    "hu_secure u \<longleftrightarrow> hu_scheme u = asc ''https''" "hu_scheme u = asc ''http'' \<or> hu_scheme u = asc ''https''"
proof -
  have le: "length (takeWhile (\<lambda>c. c \<noteq> 0x3A) s) \<le> length s" by (rule length_takeWhile_le)
  show "hu_scheme u = map tolower (takeWhile (\<lambda>c. c \<noteq> 0x3A) s)" "length (takeWhile (\<lambda>c. c \<noteq> 0x3A) s) < length s"
    "hu_secure u \<longleftrightarrow> hu_scheme u = asc ''https''" "hu_scheme u = asc ''http'' \<or> hu_scheme u = asc ''https''"
    using assms le by (auto simp: url_parse_def Let_def split: if_splits sum.splits)
qed

lemma tolower_letter: "tolower c = l \<Longrightarrow> 0x61 \<le> l \<Longrightarrow> l \<le> 0x7A \<Longrightarrow> c = l \<or> c = l - 0x20"
  by (auto simp: tolower_def split: if_splits)

lemma takeWhile_split:
  assumes "length (takeWhile P xs) < length xs"
  shows "\<exists>y ys. xs = takeWhile P xs @ y # ys \<and> \<not> P y"
proof (cases "dropWhile P xs")
  case Nil
  then have "takeWhile P xs = xs" using takeWhile_dropWhile_id [of P xs] by simp
  with assms show ?thesis by simp
next
  case (Cons y ys)
  then have "xs = takeWhile P xs @ y # ys" "\<not> P y" using takeWhile_dropWhile_id [of P xs] hd_dropWhile [of P xs] by auto
  then show ?thesis by blast
qed

text \<open>An absolute location with the scheme \<open>http\<close>, in any case, is recognised.\<close>

lemma http_scheme_found:
  assumes "map tolower (takeWhile (\<lambda>c. c \<noteq> 0x3A) loc) = asc ''http''" "length (takeWhile (\<lambda>c. c \<noteq> 0x3A) loc) < length loc"
  shows "says_http loc"
proof -
  define sc where "sc = takeWhile (\<lambda>c. c \<noteq> 0x3A) loc"
  obtain y rest where y: "loc = sc @ y # rest" "y = 0x3A" using takeWhile_split [OF assms(2)] unfolding sc_def by auto
  then have loc: "loc = sc @ 0x3A # rest" by simp
  have "length (map tolower sc) = 4" unfolding sc_def assms(1) by simp
  then have "length sc = 4" by simp
  then obtain a b c d where sc: "sc = [a, b, c, d]" by (auto simp: numeral_eq_Suc length_Suc_conv)
  have "tolower a = 0x68" "tolower b = 0x74" "tolower c = 0x74" "tolower d = 0x70"
    using assms(1) unfolding sc_def [symmetric] sc by (simp_all add: numeral_eq_Suc)
  with tolower_letter [of a "0x68"] show ?thesis unfolding says_http_def loc sc by auto
qed

lemma redirect_stays_secure:
  assumes "url_parse al (Some s) = Inr u" "resolve_redirect alloc u loc = Inr nxt" "url_parse al' (Some nxt) = Inr v" "hu_secure u"
  shows "hu_secure v"
proof (cases "is_absolute loc")
  case True
  then have n: "nxt = loc" "\<not> says_http loc" using assms(2,4) by (auto simp: resolve_redirect_def split: if_splits)
  note v = url_parse_scheme [OF assms(3)]
  have "hu_scheme v \<noteq> asc ''http''" using http_scheme_found [of loc] n v(1,2) by auto
  with v(3,4) show ?thesis by blast
next
  case False
  then have n: "nxt = url_print u loc" using assms(2) by (auto simp: resolve_redirect_def Let_def split: if_splits)
  have u: "hu_scheme u = asc ''https''" using url_parse_scheme(3) [OF assms(1)] assms(4) by simp
  have "hu_scheme v = asc ''https''" using url_parse_scheme(1) [OF assms(3)] unfolding n url_print_def u by (simp add: tolower_def)
  with url_parse_scheme(3) [OF assms(3)] show ?thesis by simp
qed

lemma log_deadline_dials: "log_deadline env deadline lg = (rem, lg') \<Longrightarrow> lg_dials lg' = lg_dials lg \<and> lg_sent lg' = lg_sent lg"
  by (auto simp: log_deadline_def split: prod.splits)

lemma send_and_read_dials:
  "send_and_read env method u headers body blen deadline s lg = Some (r, s', lg') \<Longrightarrow>
   lg_dials lg' = lg_dials lg \<and> (\<exists>more. lg_sent lg' = lg_sent lg @ more \<and> length more \<le> 1)"
  by (auto simp: send_and_read_def Let_def bind_eq_Some_conv dest!: log_deadline_dials split: sum.splits prod.splits if_splits)

lemma exchange_result_url: "exchange_result alloc u r = Inr (resp, loc, v) \<Longrightarrow> v = u"
  by (auto simp: exchange_result_def split: sum.splits)

lemma do_exchange_dials:
  assumes "do_exchange env method url headers body blen cto deadline lg = Some (r, lg')"
  shows "lg_dials lg' = lg_dials lg \<or> (\<exists>u. url_parse (hc_alloc env) url = Inr u \<and> lg_dials lg' = lg_dials lg @ [u])"
    and "r = Inr (resp, loc, u) \<Longrightarrow> url_parse (hc_alloc env) url = Inr u"
  using assms
  by (auto simp: do_exchange_def Let_def bind_eq_Some_conv dest!: log_deadline_dials send_and_read_dials exchange_result_url
      split: sum.splits prod.splits if_splits option.splits)

definition never_downgrades :: "zcio_url list \<Rightarrow> bool" where
  "never_downgrades us \<longleftrightarrow> sorted_wrt (\<lambda>u v. hu_secure u \<longrightarrow> hu_secure v) us"

lemma request_loop_dials:
  assumes "request_loop left env method headers body blen cto deadline cur lg = Some (r, lg')"
    and "never_downgrades (lg_dials lg)"
    and "\<And>u d. url_parse (hc_alloc env) cur = Inr u \<Longrightarrow> d \<in> set (lg_dials lg) \<Longrightarrow> hu_secure d \<Longrightarrow> hu_secure u"
  shows "never_downgrades (lg_dials lg') \<and> length (lg_dials lg') \<le> length (lg_dials lg) + left + 1"
  using assms
proof (induction left arbitrary: cur lg)
  case 0
  then obtain r1 where "do_exchange env method cur headers body blen cto deadline lg = Some (r1, lg')"
    by (auto simp: bind_eq_Some_conv)
  from do_exchange_dials(1) [OF this] 0 show ?case by (auto simp: never_downgrades_def sorted_wrt_append)
next
  case (Suc left)
  from Suc.prems(1) obtain r1 lg1 where x: "do_exchange env method cur headers body blen cto deadline lg = Some (r1, lg1)"
    by (auto simp: bind_eq_Some_conv)
  from do_exchange_dials(1) [OF x] have d: "lg_dials lg1 = lg_dials lg \<or> (\<exists>u. url_parse (hc_alloc env) cur = Inr u \<and> lg_dials lg1 = lg_dials lg @ [u])" .
  have one: "never_downgrades (lg_dials lg1)" "length (lg_dials lg1) \<le> length (lg_dials lg) + 1"
    using d Suc.prems(2,3) by (auto simp: never_downgrades_def sorted_wrt_append)
  show ?case
  proof (cases "lg' = lg1")
    case True
    with one show ?thesis by simp
  next
    case False
    then obtain resp loc u nxt where n: "r1 = Inr (resp, loc, u)" "resolve_redirect (hc_alloc env) u (the loc) = Inr nxt"
        "request_loop left env method headers body blen cto deadline (Some nxt) lg1 = Some (r, lg')"
      using Suc.prems(1) x by (auto split: sum.splits if_splits)
    note u = do_exchange_dials(2) [OF x n(1)]
    obtain s where cur: "cur = Some s" using u by (cases cur) (simp_all add: url_parse_def)
    have sec: "hu_secure v" if "url_parse (hc_alloc env) (Some nxt) = Inr v" "e \<in> set (lg_dials lg1)" "hu_secure e" for v e
    proof -
      have "hu_secure u" using d u that(2,3) Suc.prems(3) [OF u] by auto
      from redirect_stays_secure [OF u [unfolded cur] n(2) that(1) this] show ?thesis .
    qed
    from Suc.IH [OF n(3) one(1)] sec one(2) show ?thesis by fastforce
  qed
qed

text \<open>
  C13. However the servers answer, a request makes at most six connections, and once one of them was
  made over TLS all later ones are: no redirect sends the request in clear text.
\<close>

theorem http_redirects_no_downgrade:
  assumes "zcio_http_request_opts env method url headers body blen opts = Some (r, lg)"
  shows "length (lg_dials lg) \<le> 6 \<and>
    (\<forall>i j. i < j \<and> j < length (lg_dials lg) \<and> hu_secure (lg_dials lg ! i) \<longrightarrow> hu_secure (lg_dials lg ! j))"
proof -
  obtain deadline lg0 where o: "opts_deadline env opts log_zero = (deadline, lg0)" by fastforce
  then have z: "lg_dials lg0 = []" by (auto simp: opts_deadline_def log_zero_def split: if_splits)
  have "never_downgrades (lg_dials lg) \<and> length (lg_dials lg) \<le> 6"
  proof (cases "url \<noteq> None \<and> \<not> hc_alloc env (length (the url) + 1)")
    case True
    then show ?thesis using assms o z by (auto simp: zcio_http_request_opts_def never_downgrades_def)
  next
    case False
    then have "request_loop ZCIO_HTTP_MAX_REDIRECTS env method headers body blen (case opts of None \<Rightarrow> 0 | Some (cto, _) \<Rightarrow> cto) deadline url lg0 = Some (r, lg)"
      using assms o unfolding zcio_http_request_opts_def by (auto split: if_splits)
    from request_loop_dials [OF this] z show ?thesis by (simp add: never_downgrades_def ZCIO_HTTP_MAX_REDIRECTS_def)
  qed
  then show ?thesis by (auto simp: never_downgrades_def sorted_wrt_iff_nth_less)
qed

text \<open>A network on which nothing answers.\<close>

definition quiet_env :: "bytes http_env" where
  "quiet_env = \<lparr>hc_alloc = (\<lambda>_. True), hc_now = (\<lambda>_. 0), hc_timeout = (\<lambda>s _. s), hc_tls_ctx = (\<lambda>_. True),
     hc_dial = (\<lambda>_ _ _ _ _ _. None), hc_session_mem = True\<rparr>"

lemma quiet_request:
  "\<exists>r lg. zcio_http_request_opts quiet_env (Some (asc ''GET'')) (Some (asc ''https://a:8443/'')) [] None 0 None = Some (r, lg) \<and>
    map hu_port (lg_dials lg) = [8443]"
proof -
  have u: "url_parse (\<lambda>_. True) (Some (asc ''https://a:8443/'')) =
      Inr \<lparr>hu_scheme = asc ''https'', hu_secure = True, hu_host = asc ''a'', hu_port = 8443, hu_path = asc ''/''\<rparr>"
    by (simp add: url_parse_def url_authority_def url_strip_userinfo_def url_port_def strtol10_def c_isspace_def h1_is_digit_def
        dec_value_def dec_from_def tolower_def Let_def)
  show ?thesis unfolding zcio_http_request_opts_def opts_deadline_def ZCIO_HTTP_MAX_REDIRECTS_def
    by (simp add: numeral_eq_Suc do_exchange_def quiet_env_def u [simplified] log_deadline_def deadline_remaining_ms_def log_zero_def)
qed

theorem http_redirects_no_downgrade_witness:
  "\<exists>r lg. zcio_http_request_opts quiet_env (Some (asc ''GET'')) (Some (asc ''https://a:8443/'')) [] None 0 None = Some (r, lg) \<and>
    lg_dials lg \<noteq> [] \<and> length (lg_dials lg) \<le> 6"
proof -
  obtain r lg where q: "zcio_http_request_opts quiet_env (Some (asc ''GET'')) (Some (asc ''https://a:8443/'')) [] None 0 None = Some (r, lg)"
      "map hu_port (lg_dials lg) = [8443]" using quiet_request by (elim exE conjE)
  from http_redirects_no_downgrade [OF q(1)] q show ?thesis by auto
qed

subsection \<open>Chunked bodies\<close>

lemma line_len_append: "line_len p = Some i \<Longrightarrow> line_len (p @ q) = Some i"
proof -
  assume i: "line_len p = Some i"
  then have "length (takeWhile (\<lambda>c. c \<noteq> 0x0A) p) < length p" by (auto simp: line_len_def Let_def split: if_splits)
  from takeWhile_split [OF this] have "\<exists>x \<in> set p. x = 0x0A" by (metis in_set_conv_decomp)
  with i show ?thesis by (auto simp: line_len_def Let_def takeWhile_append split: if_splits)
qed

text \<open>What a scan has decided does not change when more bytes arrive.\<close>

lemma scan_trailers_append: "scan_trailers p \<Longrightarrow> scan_trailers (p @ q)"
proof (induction p rule: scan_trailers.induct)
  case (1 p)
  from "1.prems" obtain te where te: "line_len p = Some te" by (subst (asm) scan_trailers.simps) (auto split: option.splits)
  then have lt: "te < length p" by (rule line_len_less)
  show ?case
  proof (cases "te = 0 \<or> te = 1 \<and> p ! 0 = 0x0D")
    case True
    then show ?thesis using line_len_append [OF te] lt by (subst scan_trailers.simps) (auto simp: nth_append)
  next
    case False
    then have "scan_trailers (drop (te + 1) p)" using "1.prems" te by (subst (asm) scan_trailers.simps) (auto split: if_splits)
    from "1.IH" [OF te False this] show ?thesis
      using line_len_append [OF te] lt False by (subst scan_trailers.simps) (auto simp: nth_append)
  qed
qed

lemma dropWhile_stop: "\<exists>x \<in> set xs. \<not> P x \<Longrightarrow> dropWhile P (xs @ ys) = dropWhile P xs @ ys"
  by (induction xs) auto

lemma takeWhile_stop: "\<exists>x \<in> set xs. \<not> P x \<Longrightarrow> takeWhile P (xs @ ys) = takeWhile P xs"
  by (induction xs) auto

lemma line_feed_stops: "\<not> is_xdigit 0x0A" "c_isspace 0x0A"
  by (simp_all add: is_xdigit_def hexval_def c_isspace_def)

text \<open>A number that ends within a line is read from the line alone.\<close>

lemma strtoull16_line:
  assumes "strtoull16 p = Some (sz, rest)" "line_len p = Some le" "length p - length rest \<le> le"
  shows "strtoull16 (p @ q) = Some (sz, rest @ q)"
proof -
  define t where "t = dropWhile c_isspace p"
  define u where "u = (if t \<noteq> [] \<and> (hd t = 0x2D \<or> hd t = 0x2B) then tl t else t)"
  define w where "w = (if length u \<ge> 3 \<and> u ! 0 = 0x30 \<and> (u ! 1 = 0x78 \<or> u ! 1 = 0x58) \<and> is_xdigit (u ! 2) then drop 2 u else u)"
  have r: "takeWhile is_xdigit w \<noteq> []" "rest = dropWhile is_xdigit w"
    using assms(1) unfolding strtoull16_def Let_def t_def [symmetric] u_def [symmetric] w_def [symmetric] by (auto split: if_splits)
  have "suffix rest p"
  proof -
    have "suffix rest w" "suffix u t" "suffix t p" "suffix w u"
      by (auto simp: r(2) w_def u_def t_def suffix_tl suffix_drop suffix_dropWhile)
    then show ?thesis by (meson suffix_order.trans)
  qed
  then obtain pre where pre: "p = pre @ rest" by (auto elim: suffixE)
  have le: "le < length p" "p ! le = 0x0A"
    using assms(2) nth_length_takeWhile [of "\<lambda>c. c \<noteq> 0x0A" p] by (auto simp: line_len_def Let_def split: if_splits)
  have lf: "0x0A \<in> set rest" using le assms(3) unfolding pre by (auto simp: nth_append set_conv_nth intro!: exI [of _ "le - length pre"])
  then have w: "0x0A \<in> set w" using r(2) set_dropWhileD by metis
  have stop: "\<exists>x \<in> set w. \<not> is_xdigit x" using w line_feed_stops by blast
  have long: "3 \<le> length u \<or> u ! 1 \<noteq> 0x78 \<and> u ! 1 \<noteq> 0x58 \<and> 2 \<le> length u"
  proof (cases "3 \<le> length u")
    case False
    then have wu: "w = u" by (simp add: w_def)
    show ?thesis
    proof (cases u)
      case (Cons x us)
      then have "is_xdigit x" using r(1) wu by (auto split: if_splits)
      then have "0x0A \<in> set us" using w wu Cons line_feed_stops by auto
      then obtain y where "us = [y]" "y = 0x0A" using False Cons by (cases us) (auto simp: Suc_le_eq)
      then show ?thesis using Cons by simp
    qed (use w wu in simp)
  qed simp
  have t: "t \<noteq> []" "u \<noteq> []" using w by (auto simp: u_def w_def split: if_splits)
  then have t': "dropWhile c_isspace (p @ q) = t @ q" unfolding t_def using dropWhile_stop [of p c_isspace q] by (auto simp: dropWhile_eq_Nil_conv)
  have u': "(if t @ q \<noteq> [] \<and> (hd (t @ q) = 0x2D \<or> hd (t @ q) = 0x2B) then tl (t @ q) else t @ q) = u @ q"
    using t by (simp add: u_def)
  have w': "(if length (u @ q) \<ge> 3 \<and> (u @ q) ! 0 = 0x30 \<and> ((u @ q) ! 1 = 0x78 \<or> (u @ q) ! 1 = 0x58) \<and> is_xdigit ((u @ q) ! 2) then drop 2 (u @ q) else u @ q) = w @ q"
    using long t(2) by (auto simp: w_def nth_append)
  have "strtoull16 (p @ q) = Some (sz, dropWhile is_xdigit (w @ q))"
    using assms(1) t(1) r(1) takeWhile_stop [OF stop, of q]
    unfolding strtoull16_def Let_def t' u' w' t_def [symmetric] u_def [symmetric] w_def [symmetric] by (auto split: if_splits)
  with dropWhile_stop [OF stop, of q] r(2) show ?thesis by simp
qed

lemma chunked_scan_append:
  "chunked_scan p acc = ScanDone d \<Longrightarrow> chunked_scan (p @ q) acc = ScanDone d"
proof (induction p acc rule: chunked_scan.induct)
  case (1 p acc)
  from "1.prems" obtain le where le: "line_len p = Some le" by (subst (asm) chunked_scan.simps) (auto split: option.splits)
  obtain sz rest where sz: "strtoull16 p = Some (sz, rest)" "length p - length rest \<le> le"
    using "1.prems" le by (subst (asm) chunked_scan.simps) (auto split: option.splits if_splits)
  note le' = line_len_append [OF le, of q] and sz' = strtoull16_line [OF sz(1) le sz(2), of q] and lt = line_len_less [OF le]
  have step: "chunked_scan (p @ q) acc =
      (let r = drop (le + 1) p @ q in
       if sz = 0 then (if scan_trailers r then ScanDone acc else ScanMore)
       else if sz > ZCIO_HTTP_MAX_RESPONSE \<or> length acc + sz > ZCIO_HTTP_MAX_RESPONSE then ScanBad
       else if length r < sz + 2 then ScanMore
       else if r ! sz \<noteq> 0x0D \<or> r ! (sz + 1) \<noteq> 0x0A then ScanBad
       else chunked_scan (drop (sz + 2) r) (acc @ take sz r))"
    using le' sz' sz(2) lt by (subst chunked_scan.simps) (simp add: Let_def)
  have now: "chunked_scan p acc =
      (let r = drop (le + 1) p in
       if sz = 0 then (if scan_trailers r then ScanDone acc else ScanMore)
       else if sz > ZCIO_HTTP_MAX_RESPONSE \<or> length acc + sz > ZCIO_HTTP_MAX_RESPONSE then ScanBad
       else if length r < sz + 2 then ScanMore
       else if r ! sz \<noteq> 0x0D \<or> r ! (sz + 1) \<noteq> 0x0A then ScanBad
       else chunked_scan (drop (sz + 2) r) (acc @ take sz r))"
    using le sz lt by (subst chunked_scan.simps) (simp add: Let_def)
  define r where "r = drop (le + 1) p"
  show ?case
  proof (cases "sz = 0")
    case True
    then show ?thesis using "1.prems" scan_trailers_append [of r q] unfolding step now Let_def r_def by (auto split: if_splits)
  next
    case False
    then have go: "\<not> (sz > ZCIO_HTTP_MAX_RESPONSE \<or> length acc + sz > ZCIO_HTTP_MAX_RESPONSE)" "\<not> length r < sz + 2"
      "\<not> (r ! sz \<noteq> 0x0D \<or> r ! (sz + 1) \<noteq> 0x0A)" "chunked_scan (drop (sz + 2) r) (acc @ take sz r) = ScanDone d"
      using "1.prems" unfolding now Let_def r_def by (auto split: if_splits)
    have "chunked_scan (drop (sz + 2) r @ q) (acc @ take sz r) = ScanDone d"
      using "1.IH" [OF le sz(1) refl _ r_def False go(1,2,3,4)] sz(2) by simp
    then show ?thesis using False go unfolding step r_def [symmetric] Let_def by (simp add: nth_append)
  qed
qed

lemma xdigit_hex_digit:
  assumes "d < 16"
  shows "is_xdigit (hex_digit d)" "nat (hexval (hex_digit d)) = d" "\<not> c_isspace (hex_digit d)" "hex_digit d \<noteq> 0x2D" "hex_digit d \<noteq> 0x2B"
    "hex_digit d \<noteq> 0x78" "hex_digit d \<noteq> 0x58"
proof -
  have "list_all (\<lambda>d. is_xdigit (hex_digit d) \<and> nat (hexval (hex_digit d)) = d \<and> \<not> c_isspace (hex_digit d) \<and> hex_digit d \<noteq> 0x2D \<and>
      hex_digit d \<noteq> 0x2B \<and> hex_digit d \<noteq> 0x78 \<and> hex_digit d \<noteq> 0x58) [0..<16]"
    by (simp add: upt_rec hex_digit_def is_xdigit_def hexval_def c_isspace_def)
  then have "is_xdigit (hex_digit d) \<and> nat (hexval (hex_digit d)) = d \<and> \<not> c_isspace (hex_digit d) \<and> hex_digit d \<noteq> 0x2D \<and>
      hex_digit d \<noteq> 0x2B \<and> hex_digit d \<noteq> 0x78 \<and> hex_digit d \<noteq> 0x58" using assms unfolding list_all_iff by simp
  then show "is_xdigit (hex_digit d)" "nat (hexval (hex_digit d)) = d" "\<not> c_isspace (hex_digit d)" "hex_digit d \<noteq> 0x2D" "hex_digit d \<noteq> 0x2B"
    "hex_digit d \<noteq> 0x78" "hex_digit d \<noteq> 0x58" by blast+
qed

lemma hex_value_snoc: "hex_value (ds @ [d]) = hex_value ds * 16 + nat (hexval d)"
  by (simp add: hex_value_def)

lemma hex_digits_read:
  "hex_value (hex_digits n) = n \<and> hex_digits n \<noteq> [] \<and> list_all (\<lambda>c. \<exists>d < 16. c = hex_digit d) (hex_digits n)"
proof (induction n rule: hex_digits.induct)
  case (1 n)
  show ?case
  proof (cases "n < 16")
    case True
    then show ?thesis using xdigit_hex_digit(2) [of n] by (auto simp: hex_digits.simps [of n] hex_value_def)
  next
    case False
    then have "n mod 16 < 16" "hex_digits n = hex_digits (n div 16) @ [hex_digit (n mod 16)]" by (simp_all add: hex_digits.simps [of n])
    moreover have "\<exists>d < 16. hex_digit (n mod 16) = hex_digit d" by (rule exI [of _ "n mod 16"]) simp
    ultimately show ?thesis using 1 [OF False] xdigit_hex_digit(2) [of "n mod 16"] by (auto simp: hex_value_snoc)
  qed
qed

text \<open>A number without white space, sign and prefix.\<close>

lemma strtoull16_plain:
  assumes "dropWhile c_isspace s = s" "s \<noteq> []" "hd s \<noteq> 0x2D" "hd s \<noteq> 0x2B" "s ! 1 \<noteq> 0x78" "s ! 1 \<noteq> 0x58"
    and "takeWhile is_xdigit s \<noteq> []" "hex_value (takeWhile is_xdigit s) < 2 ^ 64"
  shows "strtoull16 s = Some (hex_value (takeWhile is_xdigit s), dropWhile is_xdigit s)"
  unfolding strtoull16_def Let_def assms(1) using assms(2-8) by (simp add: not_le)

lemma strtoull16_hex_digits:
  assumes "n < 2 ^ 64"
  shows "strtoull16 (hex_digits n @ 0x0D # s) = Some (n, 0x0D # s)"
proof -
  note h = hex_digits_read [of n]
  obtain x xs where x: "hex_digits n = x # xs" using h by (cases "hex_digits n") auto
  have ok: "is_xdigit c" "\<not> c_isspace c" "c \<noteq> 0x2D" "c \<noteq> 0x2B" "c \<noteq> 0x78" "c \<noteq> 0x58" if "c \<in> set (hex_digits n)" for c
  proof -
    from h that obtain d where "d < 16" "c = hex_digit d" by (auto simp: list_all_iff)
    with xdigit_hex_digit [of d] show "is_xdigit c" "\<not> c_isspace c" "c \<noteq> 0x2D" "c \<noteq> 0x2B" "c \<noteq> 0x78" "c \<noteq> 0x58" by simp_all
  qed
  have cr: "\<not> is_xdigit 0x0D" by (simp add: is_xdigit_def hexval_def)
  let ?s = "hex_digits n @ 0x0D # s"
  have tw: "takeWhile is_xdigit ?s = hex_digits n" "dropWhile is_xdigit ?s = 0x0D # s"
    using ok(1) cr by (simp_all add: takeWhile_append2 dropWhile_append2)
  have "strtoull16 ?s = Some (hex_value (takeWhile is_xdigit ?s), dropWhile is_xdigit ?s)"
  proof (rule strtoull16_plain)
    show "dropWhile c_isspace ?s = ?s" "hd ?s \<noteq> 0x2D" "hd ?s \<noteq> 0x2B" "?s \<noteq> []" using ok(2-4) x by simp_all
    show "?s ! 1 \<noteq> 0x78" "?s ! 1 \<noteq> 0x58" using ok(5,6) x by (cases xs; simp)+
  qed (use tw h assms in simp_all)
  then show ?thesis unfolding tw using h by simp
qed

lemma line_len_simps: "0x0A \<notin> set l \<Longrightarrow> line_len (l @ 0x0A # r) = Some (length l)" "0x0A \<notin> set l \<Longrightarrow> line_len l = None"
proof -
  assume l: "0x0A \<notin> set l"
  then have w: "takeWhile (\<lambda>c. c \<noteq> 0x0A) (l @ r) = l @ takeWhile (\<lambda>c. c \<noteq> 0x0A) r" for r by (intro takeWhile_append2) auto
  show "line_len (l @ 0x0A # r) = Some (length l)" by (simp add: line_len_def w)
  show "line_len l = None" using w [of "[]"] unfolding line_len_def by (simp del: takeWhile_eq_all_conv)
qed

lemma scan_no_line: "line_len p = None \<Longrightarrow> chunked_scan p acc = ScanMore"
  by (subst chunked_scan.simps) simp

text \<open>One chunk of an encoding, of which at least the size line is there.\<close>

lemma chunk_step:
  assumes "n < 2 ^ 64"
  shows "chunked_scan (hex_digits n @ crlf @ q) acc =
    (if n = 0 then (if scan_trailers q then ScanDone acc else ScanMore)
     else if n > ZCIO_HTTP_MAX_RESPONSE \<or> length acc + n > ZCIO_HTTP_MAX_RESPONSE then ScanBad
     else if length q < n + 2 then ScanMore
     else if q ! n \<noteq> 0x0D \<or> q ! (n + 1) \<noteq> 0x0A then ScanBad
     else chunked_scan (drop (n + 2) q) (acc @ take n q))"
proof -
  have p: "hex_digits n @ crlf @ q = (hex_digits n @ [0x0D]) @ 0x0A # q" by (simp add: crlf_def)
  have "line_len (hex_digits n @ crlf @ q) = Some (length (hex_digits n) + 1)"
    unfolding p using hex_digits_no_lf [of n] by (subst line_len_simps) simp_all
  moreover have "strtoull16 (hex_digits n @ crlf @ q) = Some (n, crlf @ q)" using strtoull16_hex_digits [OF assms] by (simp add: crlf_def)
  ultimately show ?thesis by (subst chunked_scan.simps) (simp add: crlf_def Let_def)
qed

lemma zero_chunk: "asc ''0'' @ crlf = hex_digits 0 @ crlf"
  by (simp add: hex_digits.simps hex_digit_def)

lemma scan_end: "scan_trailers (crlf @ r)"
proof -
  have "line_len (crlf @ r) = Some 1" using line_len_simps(1) [of "[0x0D]" r] by (simp add: crlf_def)
  then show ?thesis by (subst scan_trailers.simps) (simp add: crlf_def)
qed

lemma chunked_scan_body:
  assumes "list_all (\<lambda>b. b \<noteq> []) bs" "length acc + length (concat bs) \<le> ZCIO_HTTP_MAX_RESPONSE"
  shows "chunked_scan (chunked_body bs @ rest) acc = ScanDone (acc @ concat bs)"
  using assms
proof (induction bs arbitrary: acc)
  case Nil
  have "chunked_body [] @ rest = hex_digits 0 @ crlf @ crlf @ rest" using zero_chunk by (simp add: chunked_body_def)
  then show ?case using chunk_step [of 0 "crlf @ rest" acc] scan_end by simp
next
  case (Cons b bs)
  have "chunked_body (b # bs) @ rest = hex_digits (length b) @ crlf @ b @ crlf @ chunked_body bs @ rest"
    by (simp add: chunked_body_def chunk_bytes_def)
  moreover have "length b < 2 ^ 64" "b \<noteq> []" using Cons.prems by (simp_all add: ZCIO_HTTP_MAX_RESPONSE_def)
  ultimately show ?case
    using chunk_step [of "length b" "b @ crlf @ chunked_body bs @ rest" acc] Cons by (simp add: crlf_def nth_append)
qed

lemma take_line: "\<not> k \<le> length l + 1 \<Longrightarrow> take k (l @ crlf @ r) = l @ crlf @ take (k - length l - 2) r"
proof -
  assume "\<not> k \<le> length l + 1"
  then have "k = length l + Suc (Suc (k - length l - 2))" by simp
  then obtain j where "k = length l + Suc (Suc j)" by blast
  then show ?thesis by (simp add: crlf_def)
qed

text \<open>A part of an encoding is never taken for a malformed one.\<close>

lemma no_line_yet: "k \<le> length l + 1 \<Longrightarrow> 0x0A \<notin> set l \<Longrightarrow> line_len (take k (l @ crlf @ r)) = None"
  by (rule line_len_simps) (auto simp: crlf_def take_Cons split: nat.splits dest: in_set_takeD)

lemma chunked_scan_part:
  assumes "list_all (\<lambda>b. b \<noteq> []) bs" "length acc + length (concat bs) \<le> ZCIO_HTTP_MAX_RESPONSE"
  shows "chunked_scan (take k (chunked_body bs @ rest)) acc \<noteq> ScanBad"
  using assms
proof (induction bs arbitrary: acc k)
  case Nil
  have e: "chunked_body [] @ rest = hex_digits 0 @ crlf @ crlf @ rest" using zero_chunk by (simp add: chunked_body_def)
  show ?case
  proof (cases "k \<le> length (hex_digits 0) + 1")
    case True
    then show ?thesis unfolding e by (subst scan_no_line [OF no_line_yet [OF True hex_digits_no_lf]]) simp
  next
    case False
    then show ?thesis unfolding e take_line [OF False] by (simp add: chunk_step)
  qed
next
  case (Cons b bs)
  let ?h = "hex_digits (length b)" and ?q = "b @ crlf @ chunked_body bs @ rest"
  have e: "chunked_body (b # bs) @ rest = ?h @ crlf @ ?q" by (simp add: chunked_body_def chunk_bytes_def)
  have b: "length b < 2 ^ 64" "b \<noteq> []" "length acc + length b \<le> ZCIO_HTTP_MAX_RESPONSE"
    using Cons.prems by (simp_all add: ZCIO_HTTP_MAX_RESPONSE_def)
  show ?case
  proof (cases "k \<le> length ?h + 1")
    case True
    then show ?thesis unfolding e by (subst scan_no_line [OF no_line_yet [OF True hex_digits_no_lf]]) simp
  next
    case False
    define j where "j = k - length ?h - 2"
    have t: "take k (?h @ crlf @ ?q) = ?h @ crlf @ take j ?q" unfolding j_def by (rule take_line [OF False])
    show ?thesis
    proof (cases "j < length b + 2")
      case True
      then have "length (take j ?q) < length b + 2" unfolding length_take by (rule min.strict_coboundedI2)
      then show ?thesis unfolding e t chunk_step [OF b(1)] using b(2,3) by (simp only: if_True) simp
    next
      case full: False
      define r where "r = take (j - length b - 2) (chunked_body bs @ rest)"
      have q: "take j ?q = b @ crlf @ r" unfolding r_def using full by (intro take_line) simp
      have "chunked_scan r (acc @ b) \<noteq> ScanBad" unfolding r_def using Cons.prems by (intro Cons.IH) simp_all
      then show ?thesis unfolding e t chunk_step [OF b(1)] q using b by (simp add: crlf_def nth_append)
    qed
  qed
qed

subsection \<open>Reading a response\<close>

definition bf_wf :: "buf_t \<Rightarrow> bool" where
  "bf_wf b \<longleftrightarrow> length (bf_data b) \<le> bf_cap b \<and> bf_cap b \<le> SIZE_MAX"

lemma bf_wf_zero [simp]: "bf_wf buf_zero" "bf_data buf_zero = []"
  by (simp_all add: bf_wf_def buf_zero_def)

lemma buf_append_cases:
  assumes "bf_wf b" "buf_append alloc b s = (r, b')"
  shows "bf_wf b'" "r = ZCIO_OK \<Longrightarrow> bf_data b' = bf_data b @ s"
    "\<forall>n. alloc n \<Longrightarrow> length (bf_data b) + length s \<le> SIZE_MAX \<Longrightarrow> r = ZCIO_OK"
proof -
  let ?need = "length (bf_data b) + length s" and ?c = "if bf_cap b \<noteq> 0 then bf_cap b else 256"
  have c: "0 < ?c" "?c \<le> SIZE_MAX" using assms(1) by (auto simp: bf_wf_def SIZE_MAX_def)
  have g: "?need \<le> grow_cap ?c ?need" "?need \<le> SIZE_MAX \<Longrightarrow> grow_cap ?c ?need \<le> SIZE_MAX"
    using grow_cap_ge [OF c(1)] grow_cap_le c(2) by blast+
  show "bf_wf b'" using assms g by (auto simp: buf_append_def buf_reserve_def bf_wf_def Let_def not_less split: if_splits)
  show "r = ZCIO_OK \<Longrightarrow> bf_data b' = bf_data b @ s"
    using assms(2) by (auto simp: buf_append_def buf_reserve_def Let_def split: if_splits)
  show "\<forall>n. alloc n \<Longrightarrow> ?need \<le> SIZE_MAX \<Longrightarrow> r = ZCIO_OK"
    using assms(2) by (auto simp: buf_append_def buf_reserve_def Let_def split: if_splits)
qed

text \<open>A transport that hands out some bytes, in whatever pieces, and then ends.\<close>

inductive delivers :: "'c zcio_stream option \<Rightarrow> bytes \<Rightarrow> bool" where
  delivers_end: "zcio_read s True 8192 = Some (0, d, s') \<Longrightarrow> delivers s []"
| delivers_more: "zcio_read s True 8192 = Some (int (length d), d, s') \<Longrightarrow> d \<noteq> [] \<Longrightarrow> delivers s' xs \<Longrightarrow> delivers s (d @ xs)"

text \<open>Every source of bytes is such a transport.\<close>

context byte_source
begin

lemma source_delivers:
  assumes "vt s = tab" "src_invar (ctx s)"
  shows "delivers (Some s) (pending (ctx s))"
  using assms
proof (induction "length (pending (ctx s))" arbitrary: s rule: less_induct)
  case less
  have pos: "0 < (8192 :: nat)" by simp
  obtain k s' where k: "zcio_read (Some s) True 8192 = Some (int k, take k (pending (ctx s)), Some s')"
    "k \<le> 8192" "k \<le> length (pending (ctx s))" "k = 0 \<longrightarrow> pending (ctx s) = []"
    "pending (ctx s') = drop k (pending (ctx s))" "src_invar (ctx s')" "vt s' = tab" "flags s' = flags s"
    by (rule read_step [OF less.prems pos])
  show ?case
  proof (cases "k = 0")
    case True
    then have "zcio_read (Some s) True 8192 = Some (0, [], Some s')" "pending (ctx s) = []" using k(1,4) by simp_all
    then show ?thesis using delivers_end by metis
  next
    case False
    then have "pending (ctx s) \<noteq> []" using k(3) by auto
    with False k(5) have "delivers (Some s') (drop k (pending (ctx s)))" using less.hyps [of s'] k(6,7) by simp
    moreover have "take k (pending (ctx s)) \<noteq> []" using False \<open>pending (ctx s) \<noteq> []\<close> by simp
    ultimately have "delivers (Some s) (take k (pending (ctx s)) @ drop k (pending (ctx s)))"
      using k(1,3) by (intro delivers_more [where s' = "Some s'"]) simp_all
    then show ?thesis by simp
  qed
qed

end

lemma str_find_append: "str_find p s = Some i \<Longrightarrow> str_find p (s @ r) = Some i"
proof (induction s arbitrary: i)
  case Nil
  then show ?case by (cases r) (auto split: if_splits)
next
  case (Cons c s)
  show ?case
  proof (cases "take (length p) (c # s) = p")
    case True
    then have "length p \<le> length (c # s)" by (metis length_take min.cobounded1)
    then have "take (length p) ((c # s) @ r) = p" using True unfolding take_append by simp
    then show ?thesis using Cons.prems True by simp
  next
    case False
    then obtain j where j: "str_find p s = Some j" "i = Suc j" using Cons.prems by auto
    have "take (length p) ((c # s) @ r) \<noteq> p"
    proof
      assume a: "take (length p) ((c # s) @ r) = p"
      have "length p + j \<le> length s" using j(1)
      proof (induction s arbitrary: j)
        case Nil
        then show ?case by (auto split: if_splits)
      next
        case (Cons x s)
        then show ?case by (auto split: if_splits) (metis length_Cons length_take min.cobounded1)
      qed
      then have "take (length p) (c # s) = p" using a unfolding take_append by simp
      with False show False by simp
    qed
    with Cons.IH [OF j(1)] j(2) show ?thesis by simp
  qed
qed

lemma str_find_bound: "str_find p s = Some i \<Longrightarrow> i + length p \<le> length s"
proof (induction s arbitrary: i)
  case Nil
  then show ?case by (auto split: if_splits)
next
  case (Cons x s)
  then show ?case by (auto split: if_splits) (metis length_Cons length_take min.cobounded1)
qed

lemma head_framing_append: "head_framing alloc d = Some f \<Longrightarrow> head_framing alloc (d @ r) = Some f"
  by (auto simp: head_framing_def str_find_append dest!: str_find_bound split: option.splits)

text \<open>
  Without a deadline the loop returns on every such transport, and what it returns is decided by
  the bytes alone: it stops at the first piece that completes the response, or at the end.
\<close>

lemma read_loop_returns:
  assumes "delivers s xs" "bf_wf out" "\<forall>n. hc_alloc env n" "length (bf_data out) + length xs \<le> ZCIO_HTTP_MAX_RESPONSE"
    and "\<And>ys e. prefix ys xs \<Longrightarrow> response_complete (head_framing (hc_alloc env) (bf_data out @ ys)) (bf_data out @ ys) \<noteq> Inl e"
  shows "\<exists>ys zs out' s'. xs = ys @ zs \<and>
    read_response_loop env 0 s t (head_framing (hc_alloc env) (bf_data out)) out = Some (Inr out', s', t) \<and> bf_data out' = bf_data out @ ys \<and>
    (zs = [] \<or> response_complete (head_framing (hc_alloc env) (bf_data out @ ys)) (bf_data out @ ys) = Inr True)"
  using assms
proof (induction arbitrary: out rule: delivers.induct)
  case (delivers_end s d s')
  then show ?case by (subst read_response_loop.simps) (simp add: deadline_remaining_ms_def)
next
  case (delivers_more s d s' xs)
  let ?fr = "\<lambda>d. head_framing (hc_alloc env) d"
  obtain a out1 where ap: "buf_append (hc_alloc env) out d = (a, out1)" by fastforce
  note b = buf_append_cases [OF delivers_more.prems(1) ap]
  have a: "a = ZCIO_OK" using b(3) delivers_more.prems(2,3) by (auto simp: ZCIO_HTTP_MAX_RESPONSE_def SIZE_MAX_def)
  have out1: "bf_wf out1" "bf_data out1 = bf_data out @ d" using b(1) b(2) [OF a] by simp_all
  have small: "\<not> length (bf_data out) + length d > ZCIO_HTTP_MAX_RESPONSE" using delivers_more.prems(3) by simp
  obtain fin where fin: "response_complete (?fr (bf_data out1)) (bf_data out1) = Inr fin"
    using delivers_more.prems(4) [of d] unfolding out1(2) by (cases "response_complete (?fr (bf_data out @ d)) (bf_data out @ d)") auto
  have same: "?fr (bf_data out1) = Some f" if "?fr (bf_data out) = Some f" for f
    unfolding out1(2) by (rule head_framing_append [OF that])
  have step: "read_response_loop env 0 s t (?fr (bf_data out)) out =
      (if fin then Some (Inr out1, s', t) else read_response_loop env 0 s' t (?fr (bf_data out1)) out1)"
    using delivers_more.hyps(1,2) small ap a fin same
    by (cases "?fr (bf_data out)"; subst read_response_loop.simps) (simp_all add: deadline_remaining_ms_def Let_def)
  show ?case
  proof (cases fin)
    case True
    then show ?thesis unfolding step using out1(2) fin
      by (intro exI [of _ d] exI [of _ xs] exI [of _ out1] exI [of _ s']) simp
  next
    case False
    have "\<exists>ys zs out' s''. xs = ys @ zs \<and>
      read_response_loop env 0 s' t (?fr (bf_data out1)) out1 = Some (Inr out', s'', t) \<and> bf_data out' = bf_data out1 @ ys \<and>
      (zs = [] \<or> response_complete (?fr (bf_data out1 @ ys)) (bf_data out1 @ ys) = Inr True)"
    proof (rule delivers_more.IH [OF out1(1) delivers_more.prems(2)])
      show "length (bf_data out1) + length xs \<le> ZCIO_HTTP_MAX_RESPONSE" using delivers_more.prems(3) out1(2) by simp
      show "response_complete (?fr (bf_data out1 @ ys)) (bf_data out1 @ ys) \<noteq> Inl e" if "prefix ys xs" for ys e
        using delivers_more.prems(4) [of "d @ ys"] that out1(2) by simp
    qed
    then show ?thesis unfolding step using False out1(2) by (metis append.assoc)
  qed
qed

end
