(* ===== verification/Zc_HttpE2E.thy ===== *)
theory Zc_HttpE2E
  imports Zc_HttpClient
begin

unbundle bit_operations_syntax

text \<open>
  The HTTP client and the HTTP/1.1 server together: what a response head says, the header fields as
  JSON against a reader of JSON objects, whole messages in every framing read in any pieces, and the
  client's view of what the server's respond path writes.
\<close>

section \<open>Client and server together\<close>

subsection \<open>Response heads\<close>

text \<open>Header fields on the wire, as the server writes them, and without the last line end.\<close>

definition hdr_lines :: "(bytes \<times> bytes) list \<Rightarrow> bytes" where
  "hdr_lines fs = concat (map (\<lambda>(k, v). k @ asc '': '' @ v @ crlf) fs)"

fun hdr_block :: "(bytes \<times> bytes) list \<Rightarrow> bytes" where
  "hdr_block [] = []"
| "hdr_block [(k, v)] = k @ asc '': '' @ v"
| "hdr_block ((k, v) # f # fs) = k @ asc '': '' @ v @ crlf @ hdr_block (f # fs)"

lemma hdr_lines_block: "fs \<noteq> [] \<Longrightarrow> hdr_lines fs = hdr_block fs @ crlf"
  by (induction fs rule: hdr_block.induct) (auto simp: hdr_lines_def)

definition field_wire :: "bytes \<times> bytes \<Rightarrow> bool" where
  "field_wire f \<longleftrightarrow> no_crlf (fst f) \<and> no_crlf (snd f) \<and> 0x3A \<notin> set (fst f) \<and> 0 \<notin> set (fst f) \<and> 0 \<notin> set (snd f)"

lemma no_crlf_lf: "no_crlf s \<Longrightarrow> 0x0A \<notin> set s"
  by (simp add: no_crlf_set)

text \<open>The end of the head is found behind any nonempty lines.\<close>

lemma head_skip_line:
  assumes "no_crlf l"
  shows "str_find (crlf @ crlf) (l @ r) = map_option ((+) (length l)) (str_find (crlf @ crlf) r)"
  using assms
proof (induction l)
  case Nil
  show ?case by (cases "str_find (crlf @ crlf) r") simp_all
next
  case (Cons c l)
  then have "take (length (crlf @ crlf)) (c # l @ r) \<noteq> crlf @ crlf" by (auto simp: crlf_def)
  with Cons show ?case by (cases "str_find (crlf @ crlf) r") simp_all
qed

lemma str_find_next_line:
  assumes "no_crlf l" "l \<noteq> []"
  shows "str_find (crlf @ crlf) (crlf @ l @ r) = map_option ((+) (length l + 2)) (str_find (crlf @ crlf) r)"
proof -
  obtain x xs where l: "l = x # xs" using assms(2) by (cases l) auto
  have "str_find (crlf @ crlf) (crlf @ l @ r) = map_option (Suc \<circ> Suc) (str_find (crlf @ crlf) (l @ r))"
    using assms(1) unfolding l by (simp add: crlf_def option.map_comp comp_def)
  then show ?thesis unfolding head_skip_line [OF assms(1)] by (cases "str_find (crlf @ crlf) r") simp_all
qed

lemma str_find_here: "str_find (crlf @ crlf) (crlf @ crlf @ r) = Some 0"
  by (simp add: crlf_def)

lemma str_find_block:
  assumes "list_all field_wire fs" "fs \<noteq> []"
  shows "str_find (crlf @ crlf) (crlf @ hdr_block fs @ crlf @ crlf @ r) = Some (length (hdr_block fs) + 2)"
  using assms
proof (induction fs rule: hdr_block.induct)
  case (2 k v)
  have "no_crlf (k @ asc '': '' @ v)" using 2 by (simp add: field_wire_def)
  from str_find_next_line [OF this, of "crlf @ crlf @ r"] show ?case by (simp add: str_find_here)
next
  case (3 k v f fs)
  have "no_crlf (k @ asc '': '' @ v)" using 3 by (simp add: field_wire_def)
  from str_find_next_line [OF this, of "crlf @ hdr_block (f # fs) @ crlf @ crlf @ r"] 3
  show ?case by (simp add: crlf_def)
qed simp

lemma str_find_head:
  assumes "no_crlf sl" "list_all field_wire fs" "fs \<noteq> []"
  shows "str_find (crlf @ crlf) (sl @ crlf @ hdr_lines fs @ crlf @ r) = Some (length (sl @ crlf @ hdr_block fs))"
proof -
  have "sl @ crlf @ hdr_lines fs @ crlf @ r = sl @ crlf @ hdr_block fs @ crlf @ crlf @ r" using hdr_lines_block [OF assms(3)] by simp
  then show ?thesis using head_skip_line [OF assms(1)] str_find_block [OF assms(2,3)] by (simp add: crlf_def)
qed

subsection \<open>Header lookups\<close>

lemma takeWhile_line: "0x0A \<notin> set l \<Longrightarrow> takeWhile (\<lambda>c. c \<noteq> 0x0A) (l @ r) = l @ takeWhile (\<lambda>c. c \<noteq> 0x0A) r"
  by (intro takeWhile_append2) auto

text \<open>The value of the first field with a name, its leading white space dropped.\<close>

definition field_lookup :: "bytes \<Rightarrow> (bytes \<times> bytes) list \<Rightarrow> bytes option" where
  "field_lookup key fs = map_option (\<lambda>(k, v). dropWhile is_ows v) (List.find (\<lambda>(k, v). map tolower k = map tolower key) fs)"

lemma cstr_id: "0 \<notin> set s \<Longrightarrow> cstr s = s"
  by (auto simp: cstr_def takeWhile_eq_all_conv)

lemma line_value_clean:
  assumes "no_crlf v" "ex = [] \<or> ex = [0x0D]"
  shows "line_value (0x20 # v @ ex) = dropWhile is_ows v"
proof -
  have v: "0x0D \<notin> set (dropWhile is_ows v)" using assms(1) by (auto simp: no_crlf_set dest: set_dropWhileD)
  have "dropWhile is_ows (v @ ex) = dropWhile is_ows v @ ex"
    using assms(2) by (induction v) (auto simp: is_ows_def)
  moreover have "dropWhile (\<lambda>c. c = 0x0D) (rev (dropWhile is_ows v @ ex)) = rev (dropWhile is_ows v)"
  proof -
    have "dropWhile (\<lambda>c. c = 0x0D) (rev w @ []) = rev w" if "0x0D \<notin> set w" for w :: bytes using that by (cases "rev w") auto
    from this [OF v] assms(2) show ?thesis by auto
  qed
  ultimately show ?thesis by (simp add: line_value_def is_ows_def)
qed

text \<open>One step of the search: a line and what follows it.\<close>

definition line_field :: "bytes \<Rightarrow> bytes \<Rightarrow> bytes option" where
  "line_field key line =
     (let k = takeWhile (\<lambda>c. c \<noteq> 0x3A) line in
      if length k < length line \<and> length k = length key \<and> map tolower k = map tolower key
      then Some (line_value (drop (length k + 1) line)) else None)"

lemma http_header_line:
  assumes "0x0A \<notin> set line"
  shows "find_header_value (\<lambda>_. True) (line @ 0x0A # r) key =
    (case line_field key line of Some v \<Rightarrow> Some (cstr v) | None \<Rightarrow> find_header_value (\<lambda>_. True) r key)"
proof -
  have tw: "takeWhile (\<lambda>c. c \<noteq> 0x0A) (line @ 0x0A # r) = line" using takeWhile_line [OF assms, of "0x0A # r"] by simp
  show ?thesis by (subst find_header_value.simps) (simp add: tw line_field_def Let_def)
qed

lemma find_header_last:
  assumes "0x0A \<notin> set line"
  shows "find_header_value (\<lambda>_. True) line key = map_option cstr (line_field key line)"
proof (cases "line = []")
  case True
  then show ?thesis by (simp add: find_header_value.simps line_field_def)
next
  case False
  have tw: "takeWhile (\<lambda>c. c \<noteq> 0x0A) line = line" using assms by (auto simp: takeWhile_eq_all_conv)
  show ?thesis using False by (subst find_header_value.simps) (simp add: tw line_field_def Let_def)
qed

lemma field_line:
  assumes "field_wire (k, v)" "ex = [] \<or> ex = [0x0D]"
  shows "line_field key (k @ asc '': '' @ v @ ex) = (if map tolower k = map tolower key then Some (dropWhile is_ows v) else None)"
    "0x0A \<notin> set (k @ asc '': '' @ v @ ex)" "cstr (dropWhile is_ows v) = dropWhile is_ows v"
proof -
  have f: "no_crlf v" "0x3A \<notin> set k" "0 \<notin> set v" "0x0A \<notin> set k" "0x0A \<notin> set v" using assms(1) by (auto simp: field_wire_def no_crlf_set)
  have tw: "takeWhile (\<lambda>c. c \<noteq> 0x3A) (k @ asc '': '' @ v @ ex) = k" using f(2) by (subst takeWhile_append2) auto
  have dr: "drop (length k + 1) (k @ asc '': '' @ v @ ex) = 0x20 # v @ ex" by simp
  have len: "length k = length key" if "map tolower k = map tolower key" using that by (metis length_map)
  show "line_field key (k @ asc '': '' @ v @ ex) = (if map tolower k = map tolower key then Some (dropWhile is_ows v) else None)"
    unfolding line_field_def tw Let_def dr line_value_clean [OF f(1) assms(2)] using len by simp
  show "0x0A \<notin> set (k @ asc '': '' @ v @ ex)" using f assms(2) by auto
  show "cstr (dropWhile is_ows v) = dropWhile is_ows v" using f(3) by (intro cstr_id) (auto dest: set_dropWhileD)
qed

lemma field_lookup_simps:
  "field_lookup key [] = None"
  "field_lookup key ((k, v) # fs) = (if map tolower k = map tolower key then Some (dropWhile is_ows v) else field_lookup key fs)"
  by (simp_all add: field_lookup_def)

lemma find_in_block:
  "list_all field_wire fs \<Longrightarrow> find_header_value (\<lambda>_. True) (hdr_block fs) key = field_lookup key fs"
proof (induction fs rule: hdr_block.induct)
  case 1
  show ?case by (simp add: field_lookup_simps find_header_value.simps)
next
  case (2 k v)
  then have w: "field_wire (k, v)" by simp
  note l = field_line [OF w, of "[]", unfolded append_Nil2]
  show ?case using find_header_last [OF l(2), of key] l(3) unfolding l(1) [OF disjI1 [OF refl]] by (simp add: field_lookup_simps)
next
  case (3 k v f fs)
  then have w: "field_wire (k, v)" and IH: "find_header_value (\<lambda>_. True) (hdr_block (f # fs)) key = field_lookup key (f # fs)" by simp_all
  note l = field_line [OF w, of "[0x0D]"]
  have e: "hdr_block ((k, v) # f # fs) = (k @ asc '': '' @ v @ [0x0D]) @ 0x0A # hdr_block (f # fs)" by (simp add: crlf_def)
  have lf: "0x0A \<notin> set (k @ asc '': '' @ v @ [0x0D])" using l(2) by simp
  show ?case unfolding e http_header_line [OF lf] l(1) [OF disjI2 [OF refl]] IH using l(3) by (simp add: field_lookup_simps)
qed

lemma find_after_status:
  assumes "no_crlf sl" "0x3A \<notin> set sl"
  shows "find_header_value (\<lambda>_. True) (sl @ crlf @ h) key = find_header_value (\<lambda>_. True) h key"
proof -
  have tw: "takeWhile (\<lambda>c. c \<noteq> 0x3A) (sl @ [0x0D]) = sl @ [0x0D]" using assms(2) by (subst takeWhile_eq_all_conv) auto
  have e: "sl @ crlf @ h = (sl @ [0x0D]) @ 0x0A # h" by (simp add: crlf_def)
  have lf: "0x0A \<notin> set (sl @ [0x0D])" using assms(1) by (auto simp: no_crlf_set)
  show ?thesis unfolding e http_header_line [OF lf] by (simp add: line_field_def tw)
qed
subsection \<open>Headers as JSON\<close>

lemma buf_append_all_data:
  assumes "bf_wf b" "buf_append_all alloc ss b = (ZCIO_OK, b')"
  shows "bf_wf b' \<and> bf_data b' = bf_data b @ concat ss"
  using assms
proof (induction ss arbitrary: b)
  case (Cons s ss)
  obtain r b1 where a: "buf_append alloc b s = (r, b1)" by fastforce
  then have "r = ZCIO_OK" "buf_append_all alloc ss b1 = (ZCIO_OK, b')" using Cons.prems(2) by (auto split: if_splits)
  with buf_append_cases [OF Cons.prems(1) a] Cons.IH [of b1] show ?case by simp
qed simp

lemma buf_append_all_total:
  assumes "bf_wf b" "length (bf_data b) + length (concat ss) \<le> SIZE_MAX"
  shows "\<exists>b'. buf_append_all (\<lambda>_. True) ss b = (ZCIO_OK, b')"
  using assms
proof (induction ss arbitrary: b)
  case (Cons s ss)
  obtain r b1 where a: "buf_append (\<lambda>_. True) b s = (r, b1)" by fastforce
  note c = buf_append_cases [OF Cons.prems(1) a]
  have "r = ZCIO_OK" using c(3) Cons.prems(2) by simp
  with c a Cons.IH [of b1] Cons.prems(2) show ?case by simp
qed simp

text \<open>The text of an object of strings, and a reader of such objects.\<close>

definition json_escape :: "bytes \<Rightarrow> bytes" where
  "json_escape s = concat (map (\<lambda>c. if c = 0x22 \<or> c = 0x5C then [0x5C, c] else [c]) s)"

definition json_pair :: "bytes \<times> bytes \<Rightarrow> bytes" where
  "json_pair f = [0x22] @ json_escape (fst f) @ [0x22, 0x3A, 0x22] @ json_escape (snd f) @ [0x22]"

definition json_more :: "(bytes \<times> bytes) list \<Rightarrow> bytes" where
  "json_more fs = concat (map (\<lambda>f. 0x2C # json_pair f) fs)"

definition json_text :: "(bytes \<times> bytes) list \<Rightarrow> bytes" where
  "json_text fs = [0x7B] @ (case fs of [] \<Rightarrow> [] | f # fs' \<Rightarrow> json_pair f @ json_more fs') @ [0x7D]"

fun json_string :: "bytes \<Rightarrow> (bytes \<times> bytes) option" where
  "json_string [] = None"
| "json_string (c # s) =
     (if c = 0x22 then Some ([], s)
      else if c = 0x5C then (case s of [] \<Rightarrow> None | d # s' \<Rightarrow> map_option (map_prod ((#) d) id) (json_string s'))
      else map_option (map_prod ((#) c) id) (json_string s))"

lemma json_string_shorter: "json_string s = Some (x, r) \<Longrightarrow> length r < length s"
  by (induction s arbitrary: x r rule: json_string.induct) (fastforce split: if_splits list.splits)+

text \<open>The pairs of an object from its first key on, up to the closing brace that ends the input.\<close>

function json_pairs :: "bytes \<Rightarrow> (bytes \<times> bytes) list option" where
  "json_pairs s =
     (if s = [] \<or> hd s \<noteq> 0x22 then None
      else (case json_string (tl s) of
          None \<Rightarrow> None
        | Some (k, r) \<Rightarrow>
            if take 2 r \<noteq> [0x3A, 0x22] then None
            else (case json_string (drop 2 r) of
                None \<Rightarrow> None
              | Some (v, r2) \<Rightarrow>
                  if r2 = [0x7D] then Some [(k, v)]
                  else if r2 \<noteq> [] \<and> hd r2 = 0x2C then map_option ((#) (k, v)) (json_pairs (tl r2))
                  else None)))"
  by pat_completeness auto
termination
proof (relation "measure length")
  fix s p k r q v r2
  assume "\<not> (s = [] \<or> hd s \<noteq> (0x22 :: byte))" "json_string (tl s) = Some p" "(k, r) = p" "json_string (drop 2 r) = Some q" "(v, r2) = q"
    "r2 \<noteq> [] \<and> hd r2 = 0x2C"
  then show "(tl r2, s) \<in> measure length" by (auto dest!: json_string_shorter)
qed simp

declare json_pairs.simps [simp del]

definition json_object :: "bytes \<Rightarrow> (bytes \<times> bytes) list option" where
  "json_object s = (if s = [0x7B, 0x7D] then Some [] else if s \<noteq> [] \<and> hd s = 0x7B then json_pairs (tl s) else None)"

lemma json_string_escape: "json_string (json_escape s @ 0x22 # r) = Some (s, r)"
  by (induction s) (auto simp: json_escape_def)

lemma json_pairs_text:
  "json_pairs (json_pair f @ json_more fs @ [0x7D]) = Some (f # fs)"
proof (induction fs arbitrary: f)
  case Nil
  show ?case by (subst json_pairs.simps) (simp add: json_pair_def json_string_escape json_more_def)
next
  case (Cons g fs)
  have "json_more (g # fs) = 0x2C # json_pair g @ json_more fs" by (simp add: json_more_def)
  then show ?case using Cons [of g] by (subst json_pairs.simps) (simp add: json_pair_def json_string_escape)
qed

lemma json_object_text: "json_object (json_text fs) = Some fs"
  using json_pairs_text by (cases fs) (auto simp: json_object_def json_text_def json_pair_def)

text \<open>The fields of a header block as the client sees them.\<close>

function block_fields :: "bytes \<Rightarrow> (bytes \<times> bytes) list" where
  "block_fields h =
     (if h = [] then []
      else
        (let line = takeWhile (\<lambda>c. c \<noteq> 0x0A) h; rest = block_fields (drop (length line + 1) h) in
         case header_line (trim_cr line) of None \<Rightarrow> rest | Some (k, v) \<Rightarrow> (cstr k, cstr v) # rest))"
  by pat_completeness auto
termination
  by (relation "measure length") auto

declare block_fields.simps [simp del]

lemma escaped_strs: "concat (json_append_escaped s) = json_escape s"
  by (induction s) (auto simp: json_append_escaped_def json_escape_def)

definition json_rest :: "bool \<Rightarrow> (bytes \<times> bytes) list \<Rightarrow> bytes" where
  "json_rest fresh fs = (if fresh then (case fs of [] \<Rightarrow> [] | f # fs' \<Rightarrow> json_pair f @ json_more fs') else json_more fs)"

lemma json_rest_simps: "json_rest fresh [] = []"
  "json_rest fresh (f # fs) = (if fresh then [] else [0x2C]) @ json_pair f @ json_rest False fs"
  by (auto simp: json_rest_def json_more_def)

text \<open>One line of the loop.\<close>

lemma json_headers_step:
  assumes "h \<noteq> []"
  defines "line \<equiv> takeWhile (\<lambda>c. c \<noteq> 0x0A) h"
  defines "rest \<equiv> drop (length line + 1) h"
  shows "json_headers alloc h fresh json =
    (case header_line (trim_cr line) of
       None \<Rightarrow> json_headers alloc rest fresh json
     | Some (k, v) \<Rightarrow>
         if \<not> alloc (length k + 1) \<or> \<not> alloc (length v + 1) then None
         else (case buf_append_all alloc
                 ((if fresh then [] else [[0x2C]]) @ [[0x22]] @ json_append_escaped (cstr k) @ [[0x22, 0x3A, 0x22]]
                  @ json_append_escaped (cstr v) @ [[0x22]]) json of
             (r, json1) \<Rightarrow> if r \<noteq> ZCIO_OK then None else json_headers alloc rest False json1))"
    and "block_fields h = (case header_line (trim_cr line) of None \<Rightarrow> block_fields rest | Some (k, v) \<Rightarrow> (cstr k, cstr v) # block_fields rest)"
  unfolding line_def rest_def
  by (subst json_headers.simps, simp only: Let_def assms(1) if_False) (subst block_fields.simps, simp only: Let_def assms(1) if_False)

lemma json_headers_text:
  assumes "json_headers alloc h fresh json = Some j" "bf_wf json"
  shows "bf_wf j \<and> bf_data j = bf_data json @ json_rest fresh (block_fields h)"
  using assms
proof (induction h arbitrary: fresh json rule: block_fields.induct)
  case (1 h)
  show ?case
  proof (cases "h = []")
    case True
    then show ?thesis using "1.prems" by (simp add: json_headers.simps block_fields.simps json_rest_simps)
  next
    case False
    define line where "line = takeWhile (\<lambda>c. c \<noteq> 0x0A) h"
    define rest where "rest = drop (length line + 1) h"
    note st = json_headers_step [OF False, folded line_def, folded rest_def]
    note IH = "1.IH" [OF False line_def, folded rest_def]
    show ?thesis
    proof (cases "header_line (trim_cr line)")
      case None
      then show ?thesis using IH "1.prems" unfolding st by simp
    next
      case (Some kv)
      obtain k v where kv: "kv = (k, v)" by fastforce
      let ?ss = "(if fresh then [] else [[0x2C]]) @ [[0x22]] @ json_append_escaped (cstr k) @ [[0x22, 0x3A, 0x22]] @ json_append_escaped (cstr v) @ [[0x22]]"
      obtain r j1 where a: "buf_append_all alloc ?ss json = (r, j1)" by fastforce
      have r: "r = ZCIO_OK" "json_headers alloc rest False j1 = Some j"
        using "1.prems"(1) a unfolding st(1) Some kv by (auto split: if_splits)
      note d = buf_append_all_data [OF "1.prems"(2) a [unfolded r(1)]]
      have "concat ?ss = (if fresh then [] else [0x2C]) @ json_pair (cstr k, cstr v)"
        by (simp add: escaped_strs json_pair_def)
      then show ?thesis using IH [OF r(2)] d unfolding st(2) Some kv by (simp add: json_rest_simps)
    qed
  qed
qed

lemma cstr_no_nul: "0 \<notin> set (cstr s)"
  by (auto simp: cstr_def dest: set_takeWhileD)

lemma block_fields_no_nul: "list_all (\<lambda>(k, v). 0 \<notin> set k \<and> 0 \<notin> set v) (block_fields h)"
proof (induction h rule: block_fields.induct)
  case (1 h)
  show ?case
  proof (cases "h = []")
    case False
    show ?thesis using "1.IH" [OF False refl] cstr_no_nul
      by (subst block_fields.simps) (auto simp: Let_def False split: option.splits)
  qed (simp add: block_fields.simps)
qed

lemma json_text_no_nul:
  assumes "list_all (\<lambda>(k, v). 0 \<notin> set k \<and> 0 \<notin> set v) fs"
  shows "0 \<notin> set (json_text fs)"
proof -
  have e: "0 \<notin> set (json_escape s)" if "0 \<notin> set s" for s using that by (auto simp: json_escape_def split: if_splits)
  have p: "0 \<notin> set (json_pair (k, v))" if "0 \<notin> set k" "0 \<notin> set v" for k v using e [OF that(1)] e [OF that(2)] by (simp add: json_pair_def)
  have "0 \<notin> set (json_more gs)" if "list_all (\<lambda>(k, v). 0 \<notin> set k \<and> 0 \<notin> set v) gs" for gs
    using that p by (induction gs) (auto simp: json_more_def)
  with assms p show ?thesis by (cases fs) (auto simp: json_text_def)
qed

lemma headers_json_text:
  assumes "headers_json alloc h = Some j"
  shows "cstr (bf_data j) = json_text (block_fields h)"
proof -
  obtain r j0 where a: "buf_append alloc buf_zero [0x7B] = (r, j0)" by fastforce
  have r: "r = ZCIO_OK" using assms a by (auto simp: headers_json_def split: if_splits)
  obtain j1 where j1: "json_headers alloc h True j0 = Some j1" "buf_append_all alloc [[0x7D], [0]] j1 = (ZCIO_OK, j)"
    using assms a r by (auto simp: headers_json_def split: option.splits prod.splits if_splits)
  have j0: "bf_wf j0" "bf_data j0 = [0x7B]" using buf_append_cases(1,2) [OF _ a] r by simp_all
  note d = json_headers_text [OF j1(1) j0(1)]
  have "bf_data j = json_text (block_fields h) @ [0]"
    using buf_append_all_data [OF conjunct1 [OF d] j1(2)] d j0(2) by (simp add: json_text_def json_rest_def)
  moreover have "cstr (json_text (block_fields h) @ [0]) = json_text (block_fields h)"
    using json_text_no_nul [OF block_fields_no_nul, of h] by (subst cstr_def, subst takeWhile_append2) auto
  ultimately show ?thesis by simp
qed

subsection \<open>Numbers and status lines\<close>

lemma dec_from_snoc: "dec_from a (ps @ [d]) = dec_from a ps * 10 + unat (d - 0x30)"
  by (simp add: dec_from_def)

lemma dec_value_digits: "dec_value (dec_digits n) = n"
proof (induction n rule: dec_digits.induct)
  case (1 n)
  have d: "unat ((0x30 + of_nat k :: byte) - 0x30) = k" if "k < 10" for k using that by (simp add: unat_of_nat)
  show ?case
  proof (cases "n < 10")
    case True
    then show ?thesis using d [of n] by (simp add: dec_digits.simps [of n] dec_value_def dec_from_def)
  next
    case False
    then have "dec_digits n = dec_digits (n div 10) @ [0x30 + of_nat (n mod 10)]" by (simp add: dec_digits.simps [of n])
    with 1 [OF False] d [of "n mod 10"] show ?thesis by (simp add: dec_value_def dec_from_snoc)
  qed
qed

lemma dec_digits_nonempty: "dec_digits n \<noteq> []"
  by (subst dec_digits.simps) simp

lemma digit_byte: "c \<in> set (dec_digits n) \<Longrightarrow> 0x30 \<le> c \<and> c \<le> 0x39"
  using dec_digits_digit [of n] by (simp add: list_all_iff)

lemma digit_not:
  assumes "0x30 \<le> c" "c \<le> (0x39 :: byte)"
  shows "h1_is_digit c" "\<not> c_isspace c" "c \<noteq> 0x2D" "c \<noteq> 0x2B" "c \<noteq> 0" "c \<noteq> 0x20" "c \<noteq> 0x3A" "c \<noteq> 0x2F" "\<not> is_ows c"
proof -
  have "unat c \<ge> 0x30" "unat c \<le> 0x39" using assms by (simp_all add: word_le_nat_alt)
  then show "h1_is_digit c" "\<not> c_isspace c" "c \<noteq> 0x2D" "c \<noteq> 0x2B" "c \<noteq> 0" "c \<noteq> 0x20" "c \<noteq> 0x3A" "c \<noteq> 0x2F" "\<not> is_ows c"
    using assms by (auto simp: c_isspace_def h1_is_digit_def is_ows_def word_le_nat_alt)
qed

lemma digits_clean: "0 \<notin> set (dec_digits n)" "0x20 \<notin> set (dec_digits n)" "0x3A \<notin> set (dec_digits n)" "0x2F \<notin> set (dec_digits n)"
  using digit_byte digit_not(5-8) by blast+

lemma digits_no_ows: "dropWhile is_ows (dec_digits n) = dec_digits n"
proof -
  obtain x xs where x: "dec_digits n = x # xs" using dec_digits_nonempty by (cases "dec_digits n") auto
  with digit_byte [of x n] digit_not(9) [of x] show ?thesis by simp
qed

lemma strtol10_digits: "strtol10 (dec_digits n) = Some (int n, [])"
proof -
  obtain x xs where x: "dec_digits n = x # xs" using dec_digits_nonempty by (cases "dec_digits n") auto
  have "0x30 \<le> x" "x \<le> 0x39" using digit_byte [of x n] x by simp_all
  note dx = digit_not [OF this]
  have "dropWhile c_isspace (dec_digits n) = dec_digits n" "hd (dec_digits n) \<noteq> 0x2D" "hd (dec_digits n) \<noteq> 0x2B"
    using dx(2-4) unfolding x by simp_all
  moreover have "takeWhile h1_is_digit (dec_digits n) = dec_digits n" "dropWhile h1_is_digit (dec_digits n) = []"
    using digit_byte digit_not(1) by (auto simp: takeWhile_eq_all_conv dropWhile_eq_Nil_conv)
  ultimately show ?thesis using dec_value_digits [of n] dec_digits_nonempty [of n]
    unfolding strtol10_def Let_def by (simp del: takeWhile_eq_all_conv)
qed

lemma atoll_digits: "n < 2 ^ 63 \<Longrightarrow> atoll (dec_digits n) = int n"
  by (simp add: atoll_def strtol10_digits)

lemma atoi_digits: "n < 2 ^ 31 \<Longrightarrow> atoi (dec_digits n) = int n"
proof -
  assume n: "n < 2 ^ 31"
  have "sint (word_of_int (int n) :: 32 word) = int n"
    unfolding sint_sbintrunc' by (rule signed_take_bit_int_eq_self) (use n in \<open>simp_all add: nat_less_iff\<close>)
  then show ?thesis using n by (simp add: atoi_def atoll_digits)
qed

text \<open>The status line of the server without its line end.\<close>

definition server_status :: "int \<Rightarrow> bytes" where
  "server_status status = asc ''HTTP/1.1 '' @ fmt_int status @ asc '' '' @ asc (zhs_status_text status)"

definition plain_text :: "string \<Rightarrow> bool" where
  "plain_text t \<longleftrightarrow> no_crlf (asc t) \<and> 0x3A \<notin> set (asc t) \<and> 0 \<notin> set (asc t) \<and> length t \<le> 40"

lemma map_of_all: "list_all (\<lambda>(k, t). P t) m \<Longrightarrow> map_of m k = Some t \<Longrightarrow> P t"
  by (induction m) (auto split: if_splits)

lemma status_text_plain: "plain_text (zhs_status_text status)"
proof -
  have e: "plain_text []" by (simp add: plain_text_def)
  show ?thesis unfolding zhs_status_text_def
    by (split option.split, intro conjI impI allI e, erule map_of_all [rotated])
      (simp add: plain_text_def)
qed

lemma digits_three: "100 \<le> n \<Longrightarrow> n \<le> 599 \<Longrightarrow> length (dec_digits n) = 3"
proof -
  assume "100 \<le> n" "n \<le> 599"
  then have "\<not> n < 10" "\<not> n div 10 < 10" "n div 10 div 10 < 10" by linarith+
  then show ?thesis by (subst dec_digits.simps, subst dec_digits.simps, subst dec_digits.simps) simp
qed

lemma status_digits: "100 \<le> status \<Longrightarrow> status \<le> 599 \<Longrightarrow> fmt_int status = dec_digits (nat status) \<and> length (fmt_int status) = 3"
  using digits_three [of "nat status"] by (simp add: fmt_int_def)

lemma server_status_clean:
  assumes "100 \<le> status" "status \<le> 599"
  shows "h1_status_line status = server_status status @ crlf" "no_crlf (server_status status)" "0x3A \<notin> set (server_status status)"
proof -
  note t = status_text_plain [of status, unfolded plain_text_def] and f = status_digits [OF assms]
  have "h1_status_line status = take 63 (server_status status @ crlf)" by (simp add: h1_status_line_def server_status_def)
  moreover have "length (server_status status @ crlf) \<le> 63" using t conjunct2 [OF f] by (simp add: server_status_def crlf_def)
  ultimately show "h1_status_line status = server_status status @ crlf" by simp
  show "no_crlf (server_status status)" using t by (simp add: server_status_def)
  show "0x3A \<notin> set (server_status status)" using t f digits_clean(3) by (simp add: server_status_def)
qed

subsection \<open>Whole messages\<close>

lemma header_line_length: "header_line l = Some (k, v) \<Longrightarrow> length k + length v < length l"
proof -
  assume a: "header_line l = Some (k, v)"
  have k: "k = takeWhile (\<lambda>c. c \<noteq> 0x3A) l" "length k < length l" "v = dropWhile is_ows (drop (length k + 1) l)"
    using a by (auto simp: header_line_def Let_def split: if_splits)
  have "length v \<le> length (drop (length k + 1) l)" unfolding k(3) by (rule length_dropWhile_le)
  with k(2) show ?thesis by simp
qed

lemma json_escape_length: "length (json_escape s) \<le> 2 * length s"
  by (induction s) (auto simp: json_escape_def)

lemma cstr_length: "length (cstr s) \<le> length s"
  unfolding cstr_def by (rule length_takeWhile_le)

lemma json_headers_total:
  assumes "bf_wf json" "length (bf_data json) + 6 * length h \<le> N" "N \<le> SIZE_MAX"
  shows "\<exists>j. json_headers (\<lambda>_. True) h fresh json = Some j \<and> bf_wf j \<and> length (bf_data j) \<le> N"
  using assms(1,2)
proof (induction h arbitrary: fresh json rule: block_fields.induct)
  case (1 h)
  show ?case
  proof (cases "h = []")
    case True
    then show ?thesis using "1.prems" by (simp add: json_headers.simps)
  next
    case False
    define line where "line = takeWhile (\<lambda>c. c \<noteq> 0x0A) h"
    define rest where "rest = drop (length line + 1) h"
    note st = json_headers_step(1) [OF False, folded line_def, folded rest_def]
    note IH = "1.IH" [OF False line_def, folded rest_def]
    have len: "length rest + length line \<le> length h"
      using length_takeWhile_le [of "\<lambda>c. c \<noteq> 0x0A" h] by (simp add: rest_def line_def)
    show ?thesis
    proof (cases "header_line (trim_cr line)")
      case None
      then show ?thesis using IH "1.prems" len unfolding st by simp
    next
      case (Some kv)
      obtain k v where kv: "kv = (k, v)" by fastforce
      let ?ss = "(if fresh then [] else [[0x2C]]) @ [[0x22]] @ json_append_escaped (cstr k) @ [[0x22, 0x3A, 0x22]] @ json_append_escaped (cstr v) @ [[0x22]]"
      have "length k + length v < length line"
        using header_line_length [OF Some [unfolded kv]] by (auto simp: trim_cr_def split: if_splits)
      then have "length (concat ?ss) \<le> 6 * length line"
        using json_escape_length [of "cstr k"] json_escape_length [of "cstr v"] cstr_length [of k] cstr_length [of v]
        by (simp add: escaped_strs)
      then have d: "length (bf_data json) + length (concat ?ss) + 6 * length rest \<le> N" using "1.prems"(2) len by linarith
      have "length (bf_data json) + length (concat ?ss) \<le> SIZE_MAX" using d assms(3) by linarith
      from buf_append_all_total [OF "1.prems"(1) this] obtain j1 where j1: "buf_append_all (\<lambda>_. True) ?ss json = (ZCIO_OK, j1)" by blast
      note w = buf_append_all_data [OF "1.prems"(1) j1]
      have "length (bf_data j1) + 6 * length rest \<le> N" using w d by (simp only: length_append)
      from IH [OF conjunct1 [OF w] this, of False] show ?thesis unfolding st Some kv using j1 by simp
    qed
  qed
qed

lemma headers_json_total:
  assumes "6 * length h + 3 \<le> SIZE_MAX"
  shows "\<exists>j. headers_json (\<lambda>_. True) h = Some j"
proof -
  obtain r j0 where a: "buf_append (\<lambda>_. True) buf_zero [0x7B] = (r, j0)" by fastforce
  note b = buf_append_cases [OF bf_wf_zero(1) a]
  have r: "r = ZCIO_OK" using b(3) assms by (simp add: SIZE_MAX_def)
  have "length (bf_data j0) + 6 * length h \<le> 6 * length h + 1" using b(2) [OF r] by simp
  from json_headers_total [OF b(1) this, of True] assms obtain j1 where
    j1: "json_headers (\<lambda>_. True) h True j0 = Some j1" "bf_wf j1" "length (bf_data j1) \<le> 6 * length h + 1" by auto
  have "length (bf_data j1) + length (concat [[0x7D], [0 :: byte]]) \<le> SIZE_MAX" using j1(3) assms by simp
  from buf_append_all_total [OF j1(2) this] obtain j2 where "buf_append_all (\<lambda>_. True) [[0x7D], [0]] j1 = (ZCIO_OK, j2)" by blast
  with a r j1(1) show ?thesis unfolding headers_json_def by simp
qed

text \<open>The fields of a block are read back in order.\<close>

lemma block_fields_line:
  assumes "field_wire (k, v)"
  shows "block_fields ((k @ asc '': '' @ v @ [0x0D]) @ 0x0A # r) = (k, dropWhile is_ows v) # block_fields r"
    "block_fields (k @ asc '': '' @ v) = [(k, dropWhile is_ows v)]"
proof -
  note l = field_line(2) [OF assms]
  have f: "no_crlf v" "0x3A \<notin> set k" "0 \<notin> set k" "0 \<notin> set v" using assms by (auto simp: field_wire_def)
  have nul: "cstr k = k" "cstr (dropWhile is_ows v) = dropWhile is_ows v"
    using f(3,4) by (auto intro!: cstr_id dest: set_dropWhileD)
  have tw: "takeWhile (\<lambda>c. c \<noteq> 0x3A) (k @ asc '': '' @ v) = k" using f(2) by (subst takeWhile_append2) auto
  have hl: "header_line (k @ asc '': '' @ v) = Some (k, dropWhile is_ows v)"
    unfolding header_line_def tw Let_def by (simp add: is_ows_def)
  have t1: "trim_cr (k @ asc '': '' @ v @ [0x0D]) = k @ asc '': '' @ v" by (simp add: trim_cr_def butlast_append)
  have "last (k @ asc '': '' @ v) \<noteq> 0x0D" using f(1) by (cases v rule: rev_cases) (simp_all add: no_crlf_set)
  then have t2: "trim_cr (k @ asc '': '' @ v) = k @ asc '': '' @ v" by (simp add: trim_cr_def)
  have w1: "takeWhile (\<lambda>c. c \<noteq> 0x0A) ((k @ asc '': '' @ v @ [0x0D]) @ 0x0A # r) = k @ asc '': '' @ v @ [0x0D]"
    using takeWhile_line [OF l [of "[0x0D]"], of "0x0A # r"] by simp
  have w2: "takeWhile (\<lambda>c. c \<noteq> 0x0A) (k @ asc '': '' @ v) = k @ asc '': '' @ v"
    using takeWhile_line [OF l [of "[]"], of "[]"] by simp
  have d: "drop (length l + 1) (l @ 0x0A # r) = r" "drop (length l + 1) l = []" for l :: bytes by simp_all
  have ne: "(k @ asc '': '' @ v @ [0x0D]) @ 0x0A # r \<noteq> []" "k @ asc '': '' @ v \<noteq> []" by simp_all
  show "block_fields ((k @ asc '': '' @ v @ [0x0D]) @ 0x0A # r) = (k, dropWhile is_ows v) # block_fields r"
    unfolding json_headers_step(2) [OF ne(1)] w1 t1 hl d by (simp add: nul)
  show "block_fields (k @ asc '': '' @ v) = [(k, dropWhile is_ows v)]"
    unfolding json_headers_step(2) [OF ne(2)] w2 t2 hl d by (simp add: nul block_fields.simps)
qed

lemma block_fields_block:
  "list_all field_wire fs \<Longrightarrow> block_fields (hdr_block fs) = map (\<lambda>(k, v). (k, dropWhile is_ows v)) fs"
proof (induction fs rule: hdr_block.induct)
  case 1
  show ?case by (simp add: block_fields.simps)
next
  case (2 k v)
  then show ?case using block_fields_line(2) [of k v] by simp
next
  case (3 k v f fs)
  have e: "hdr_block ((k, v) # f # fs) = (k @ asc '': '' @ v @ [0x0D]) @ 0x0A # hdr_block (f # fs)" by (simp add: crlf_def)
  have w: "field_wire (k, v)" using 3 by simp
  show ?case unfolding e block_fields_line(1) [OF w] using 3 by simp
qed

text \<open>A message with a status line, at least one header field and what follows the head.\<close>

definition message :: "bytes \<Rightarrow> (bytes \<times> bytes) list \<Rightarrow> bytes \<Rightarrow> bytes" where
  "message sl fs raw = sl @ crlf @ hdr_lines fs @ crlf @ raw"

definition head_ok :: "bytes \<Rightarrow> (bytes \<times> bytes) list \<Rightarrow> bool" where
  "head_ok sl fs \<longleftrightarrow> no_crlf sl \<and> 0x3A \<notin> set sl \<and> list_all field_wire fs \<and> fs \<noteq> []"

lemma message_split:
  assumes "head_ok sl fs"
  shows "str_find (crlf @ crlf) (message sl fs raw) = Some (length (sl @ crlf @ hdr_block fs))"
    "take (length (sl @ crlf @ hdr_block fs)) (message sl fs raw) = sl @ crlf @ hdr_block fs"
    "drop (length (sl @ crlf @ hdr_block fs) + 4) (message sl fs raw) = raw"
    "message sl fs raw = message sl fs [] @ raw" "length (message sl fs []) = length (sl @ crlf @ hdr_block fs) + 4"
proof -
  have h: "no_crlf sl" "list_all field_wire fs" "fs \<noteq> []" using assms by (simp_all add: head_ok_def)
  show "str_find (crlf @ crlf) (message sl fs raw) = Some (length (sl @ crlf @ hdr_block fs))"
    unfolding message_def by (rule str_find_head [OF h])
  have m: "message sl fs raw = (sl @ crlf @ hdr_block fs) @ crlf @ crlf @ raw" for raw
    unfolding message_def using hdr_lines_block [OF h(3)] by simp
  have d: "drop (length b + 4) (b @ crlf @ crlf @ raw) = raw" for b by (simp add: crlf_def)
  show "drop (length (sl @ crlf @ hdr_block fs) + 4) (message sl fs raw) = raw" unfolding m by (rule d)
  show "take (length (sl @ crlf @ hdr_block fs)) (message sl fs raw) = sl @ crlf @ hdr_block fs"
    "message sl fs raw = message sl fs [] @ raw" "length (message sl fs []) = length (sl @ crlf @ hdr_block fs) + 4"
    unfolding m by (simp_all add: crlf_def)
qed

lemma message_lookup:
  assumes "head_ok sl fs"
  shows "find_header_value (\<lambda>_. True) (sl @ crlf @ hdr_block fs) key = field_lookup key fs"
  using assms find_after_status [of sl "hdr_block fs" key] find_in_block [of fs key] by (simp add: head_ok_def)

definition fields_chunked :: "(bytes \<times> bytes) list \<Rightarrow> bool" where
  "fields_chunked fs \<longleftrightarrow>
     (case field_lookup (asc ''Transfer-Encoding'') fs of None \<Rightarrow> False | Some te \<Rightarrow> str_find (asc ''chunked'') (map tolower te) \<noteq> None)"

definition fields_length :: "(bytes \<times> bytes) list \<Rightarrow> int" where
  "fields_length fs = (case field_lookup (asc ''Content-Length'') fs of None \<Rightarrow> -1 | Some cl \<Rightarrow> atoll cl)"

lemma message_framing:
  assumes "head_ok sl fs"
  shows "head_framing (\<lambda>_. True) (message sl fs raw) =
    Some \<lparr>fr_body_off = length (message sl fs []), fr_content_len = fields_length fs, fr_chunked = fields_chunked fs\<rparr>"
  unfolding head_framing_def message_split(1,2) [OF assms] option.case
  by (simp add: message_split(5) [OF assms, simplified] message_lookup [OF assms] says_chunked_def fields_chunked_def fields_length_def)

lemma message_complete:
  assumes "head_ok sl fs"
  shows "response_complete (head_framing (\<lambda>_. True) (message sl fs raw)) (message sl fs raw) =
    (if fields_chunked fs then (case chunked_scan raw [] of ScanDone _ \<Rightarrow> Inr True | ScanBad \<Rightarrow> Inl ZCIO_ERR_PROTOCOL | ScanMore \<Rightarrow> Inr False)
     else Inr (fields_length fs \<ge> 0 \<and> length raw \<ge> nat (fields_length fs)))"
proof -
  have "drop (length (message sl fs [])) (message sl fs raw) = raw" "length (message sl fs raw) - length (message sl fs []) = length raw"
    by (simp_all add: message_split(4) [OF assms, of raw])
  then show ?thesis unfolding message_framing [OF assms] response_complete_def by simp
qed

text \<open>
  How a message carries its payload: in chunks, with a declared length, or up to the end of the
  connection. Behind the first two other bytes may follow.
\<close>

inductive carries :: "(bytes \<times> bytes) list \<Rightarrow> bytes \<Rightarrow> bytes \<Rightarrow> bool" where
  carries_chunks: "fields_chunked fs \<Longrightarrow> list_all (\<lambda>b. b \<noteq> []) bs \<Longrightarrow> carries fs (chunked_body bs @ rest) (concat bs)"
| carries_length: "\<not> fields_chunked fs \<Longrightarrow> fields_length fs = int (length payload) \<Longrightarrow> carries fs (payload @ rest) payload"
| carries_end: "\<not> fields_chunked fs \<Longrightarrow> fields_length fs < 0 \<Longrightarrow> carries fs payload payload"

lemma chunk_payload_le: "length (concat bs) \<le> length (chunked_body bs)"
proof -
  have "length (concat bs) \<le> length (concat (map chunk_bytes bs))"
    by (induction bs) (auto simp: chunk_bytes_def)
  then show ?thesis by (simp add: chunked_body_def)
qed

text \<open>A part of a payload is never an error, and what counts as complete has the whole payload.\<close>

lemma carries_part:
  assumes "carries fs raw payload" "length raw \<le> ZCIO_HTTP_MAX_RESPONSE" "head_ok sl fs" "prefix part raw"
  shows "response_complete (head_framing (\<lambda>_. True) (message sl fs part)) (message sl fs part) \<noteq> Inl e"
  using assms(1,2,4)
proof (cases rule: carries.cases)
  case (carries_chunks bs rest)
  obtain k where k: "part = take k raw" using assms(4) by (metis append_eq_conv_conj prefixE)
  have "length [] + length (concat bs) \<le> ZCIO_HTTP_MAX_RESPONSE" using chunk_payload_le [of bs] carries_chunks(1) assms(2) by simp
  from chunked_scan_part [OF carries_chunks(4) this, of k rest] show ?thesis
    unfolding message_complete [OF assms(3)] k carries_chunks(1) by (auto split: scan_ret.splits)
qed (simp_all add: message_complete [OF assms(3)])

lemma carries_complete:
  assumes "carries fs raw payload" "length raw \<le> ZCIO_HTTP_MAX_RESPONSE" "head_ok sl fs" "raw = part @ zs"
    and "zs = [] \<or> response_complete (head_framing (\<lambda>_. True) (message sl fs part)) (message sl fs part) = Inr True"
  shows "if fields_chunked fs then chunked_scan part [] = ScanDone payload
    else (if fields_length fs \<ge> 0 then fields_length fs = int (length payload) \<and> take (length payload) part = payload else part = payload)"
  using assms(1)
proof (cases rule: carries.cases)
  case (carries_chunks bs rest)
  have "length [] + length (concat bs) \<le> ZCIO_HTTP_MAX_RESPONSE" using chunk_payload_le [of bs] carries_chunks(1) assms(2) by simp
  from chunked_scan_body [OF carries_chunks(4) this, of rest] have all: "chunked_scan (part @ zs) [] = ScanDone payload"
    using assms(4) carries_chunks by simp
  have "\<exists>d. chunked_scan part [] = ScanDone d"
    using assms(5) all carries_chunks(3) unfolding message_complete [OF assms(3)] by (auto split: scan_ret.splits)
  with chunked_scan_append [of part "[]" _ zs] all carries_chunks(3) show ?thesis by auto
next
  case (carries_length rest)
  have "length payload \<le> length part"
    using assms(4,5) carries_length unfolding message_complete [OF assms(3)] by auto
  moreover have "take (length payload) (part @ zs) = payload" unfolding assms(4) [symmetric] carries_length(1) by simp
  ultimately show ?thesis using carries_length by simp
next
  case carries_end
  then show ?thesis using assms(4,5) unfolding message_complete [OF assms(3)] by auto
qed

text \<open>Parsing a message of which enough has been read.\<close>

lemma message_parse:
  assumes "head_ok sl fs" "parse_status_line (\<lambda>_. True) sl = Some resp" "6 * length (hdr_block fs) + 3 \<le> SIZE_MAX"
    and "if fields_chunked fs then chunked_scan part [] = ScanDone payload
      else (if fields_length fs \<ge> 0 then fields_length fs = int (length payload) \<and> take (length payload) part = payload else part = payload)"
  shows "\<exists>j. parse_response (\<lambda>_. True) (message sl fs part) =
      Inr (resp\<lparr>hr_headers_json := Some j, hr_body := Some payload, hr_body_size := length payload\<rparr>, field_lookup (asc ''Location'') fs) \<and>
    json_object j = Some (map (\<lambda>(k, v). (k, dropWhile is_ows v)) fs)"
proof -
  have h: "no_crlf sl" "0x3A \<notin> set sl" "list_all field_wire fs" "fs \<noteq> []" using assms(1) by (simp_all add: head_ok_def)
  obtain json where json: "headers_json (\<lambda>_. True) (hdr_block fs) = Some json" using headers_json_total [OF assms(3)] by blast
  have sl: "takeWhile (\<lambda>c. c \<noteq> 0x0A) (sl @ crlf @ hdr_block fs) = sl @ [0x0D]"
    using takeWhile_line [OF no_crlf_lf [OF h(1)]] by (simp add: crlf_def)
  have hd: "drop (length (sl @ [0x0D]) + 1) (sl @ crlf @ hdr_block fs) = hdr_block fs" by (simp add: crlf_def)
  have tr: "trim_cr (sl @ [0x0D]) = sl" by (simp add: trim_cr_def)
  have ln: "length (sl @ [0x0D]) \<noteq> length (sl @ crlf @ hdr_block fs)" by (simp add: crlf_def)
  have body: "response_body (\<lambda>_. True) (hdr_block fs) part = Inr payload"
  proof -
    have c: "says_chunked (\<lambda>_. True) (hdr_block fs) = fields_chunked fs"
      "(case find_header_value (\<lambda>_. True) (hdr_block fs) (asc ''Content-Length'') of None \<Rightarrow> - 1 | Some cl \<Rightarrow> atoll cl) = fields_length fs"
      by (simp_all add: says_chunked_def fields_chunked_def fields_length_def find_in_block [OF h(3)])
    have "take n part = payload" if "length payload = n" "take n part = payload" "length part \<le> n" "m = length part" for n m
      using that by simp
    then show ?thesis using assms(4) unfolding response_body_def c Let_def by (auto split: if_splits)
  qed
  note js = headers_json_text [OF json] and bl = block_fields_block [OF h(3)]
  have "parse_response (\<lambda>_. True) (message sl fs part) =
      Inr (resp\<lparr>hr_headers_json := Some (cstr (bf_data json)), hr_body := Some payload, hr_body_size := length payload\<rparr>, field_lookup (asc ''Location'') fs)"
    unfolding parse_response_def message_split(1) [OF assms(1)] option.case Let_def message_split(2,3) [OF assms(1)] sl hd tr
    using ln assms(2) json body find_in_block [OF h(3)] by simp
  with js json_object_text [of "map (\<lambda>(k, v). (k, dropWhile is_ows v)) fs"] bl show ?thesis by auto
qed

lemma server_status_parsed:
  assumes "100 \<le> status" "status \<le> 599"
  shows "parse_status_line (\<lambda>_. True) (server_status status) =
    Some \<lparr>hr_protocol = Some (asc ''HTTP''), hr_version = Some (asc ''1.1''), hr_status_code = Some (dec_digits (nat status)),
      hr_status_text = Some (asc (zhs_status_text status)), hr_headers_json = None, hr_body = None, hr_body_size = 0, hr_status = status\<rparr>"
proof -
  let ?d = "dec_digits (nat status)" and ?t = "asc (zhs_status_text status)"
  have sl: "server_status status = asc ''HTTP/1.1'' @ 0x20 # ?d @ 0x20 # ?t" using status_digits [OF assms] by (simp add: server_status_def)
  have code: "takeWhile (\<lambda>c. c \<noteq> 0x20) (?d @ 0x20 # ?t) = ?d" using digits_clean(2) by (subst takeWhile_append2) auto
  have c: "cstr ?d = ?d" "cstr ?t = ?t" using digits_clean(1) status_text_plain [of status] by (auto simp: plain_text_def intro!: cstr_id)
  have a: "atoi ?d = status" using atoi_digits [of "nat status"] assms by simp
  have d: "drop (length ?d + 1) (?d @ 0x20 # ?t) = ?t" by simp
  show ?thesis unfolding parse_status_line_def sl Let_def
    by (simp add: code c a dup_range_def d [simplified]) (simp add: cstr_def)
qed


subsection \<open>Reading a whole response\<close>

text \<open>A prefix of a message either has no end of the head yet or is a message with less behind its head.\<close>

lemma message_prefix:
  assumes "head_ok sl fs" "message sl fs raw = ys @ zs"
  shows "head_framing (\<lambda>_. True) ys = None \<or> (\<exists>part. ys = message sl fs part \<and> raw = part @ zs)"
proof (cases "str_find (crlf @ crlf) ys")
  case None
  then show ?thesis by (simp add: head_framing_def)
next
  case (Some i)
  have "i = length (sl @ crlf @ hdr_block fs)"
    using str_find_append [OF Some, of zs] message_split(1) [OF assms(1), of raw] unfolding assms(2) by simp
  with str_find_bound [OF Some] have le: "length (message sl fs []) \<le> length ys"
    unfolding message_split(5) [OF assms(1)] by (simp add: crlf_def)
  have e: "message sl fs [] @ raw = ys @ zs" using assms(2) message_split(4) [OF assms(1), of raw] by simp
  then obtain part where "ys = message sl fs [] @ part" "raw = part @ zs"
    using le by (auto simp: append_eq_append_conv2)
  then show ?thesis using message_split(4) [OF assms(1), of part] by auto
qed

lemma message_read:
  assumes "head_ok sl fs" "parse_status_line (\<lambda>_. True) sl = Some resp" "carries fs raw payload"
    and "delivers s (message sl fs raw)" "length (message sl fs raw) \<le> ZCIO_HTTP_MAX_RESPONSE" "hc_alloc env = (\<lambda>_. True)"
  shows "\<exists>out s' j. read_response env s 0 t = Some (Inr out, s', t) \<and>
    parse_response (\<lambda>_. True) (bf_data out) =
      Inr (resp\<lparr>hr_headers_json := Some j, hr_body := Some payload, hr_body_size := length payload\<rparr>, field_lookup (asc ''Location'') fs) \<and>
    json_object j = Some (map (\<lambda>(k, v). (k, dropWhile is_ows v)) fs)"
proof -
  let ?done = "\<lambda>d. response_complete (head_framing (\<lambda>_. True) d) d"
  have raw: "length raw \<le> ZCIO_HTTP_MAX_RESPONSE" using assms(5) by (simp add: message_def)
  have small: "6 * length (hdr_block fs) + 3 \<le> SIZE_MAX"
  proof -
    have "length (message sl fs raw) = length (sl @ crlf @ hdr_block fs) + 4 + length raw"
      using message_split(4,5) [OF assms(1)] by (metis length_append)
    with assms(5) show ?thesis by (simp add: ZCIO_HTTP_MAX_RESPONSE_def SIZE_MAX_def)
  qed
  have ok: "?done ys \<noteq> Inl e" if "prefix ys (message sl fs raw)" for ys e
  proof -
    from that obtain zs where "message sl fs raw = ys @ zs" by (auto elim: prefixE)
    from message_prefix [OF assms(1) this] show ?thesis
    proof
      assume "\<exists>part. ys = message sl fs part \<and> raw = part @ zs"
      then obtain part where p: "ys = message sl fs part" "prefix part raw" by auto
      show ?thesis unfolding p(1) by (rule carries_part [OF assms(3) raw assms(1) p(2)])
    qed (simp add: response_complete_def)
  qed
  have start: "head_framing (\<lambda>_. True) (bf_data buf_zero) = None" by (simp add: head_framing_def crlf_def)
  obtain ys zs out s' where r: "message sl fs raw = ys @ zs" "read_response env s 0 t = Some (Inr out, s', t)" "bf_data out = ys"
      "zs = [] \<or> ?done ys = Inr True"
    using read_loop_returns [OF assms(4) bf_wf_zero(1), of env t] assms(5,6) ok start
    unfolding read_response_def by auto
  have "head_framing (\<lambda>_. True) ys \<noteq> None"
  proof
    assume none: "head_framing (\<lambda>_. True) ys = None"
    then have "?done ys \<noteq> Inr True" by (simp add: response_complete_def)
    with r(4) have "ys = message sl fs raw" using r(1) by simp
    with none message_framing [OF assms(1), of raw] show False by simp
  qed
  with message_prefix [OF assms(1) r(1)] obtain part where p: "ys = message sl fs part" "raw = part @ zs" by blast
  from message_parse [OF assms(1,2) small carries_complete [OF assms(3) raw assms(1) p(2) r(4) [unfolded p(1)]]] r(2,3) p(1)
  show ?thesis by auto
qed

text \<open>
  C25. Whatever way a transport cuts a response into pieces, the client reads and parses it: a
  message with a status line, header fields and a payload in chunks, with a declared length or up to
  the end of the connection gives back its status line, its header fields and exactly the payload,
  and bytes that follow the payload on the connection do not become part of it.
\<close>

theorem http_response_read:
  assumes "head_ok sl fs" "parse_status_line (\<lambda>_. True) sl = Some resp" "carries fs raw payload"
    and "delivers s (message sl fs raw)" "length (message sl fs raw) \<le> ZCIO_HTTP_MAX_RESPONSE" "hc_alloc env = (\<lambda>_. True)"
  shows "\<exists>out s' j. read_response env s 0 t = Some (Inr out, s', t) \<and>
    parse_response (\<lambda>_. True) (bf_data out) =
      Inr (resp\<lparr>hr_headers_json := Some j, hr_body := Some payload, hr_body_size := length payload\<rparr>, field_lookup (asc ''Location'') fs) \<and>
    json_object j = Some (map (\<lambda>(k, v). (k, dropWhile is_ows v)) fs)"
  by (rule message_read [OF assms])

text \<open>The scripted transport hands out its script.\<close>

lemma script_read:
  "zcio_read (Some (script_stream xs)) True 8192 = Some (int (min 8192 (length xs)), take 8192 xs, Some (script_stream (drop 8192 xs)))"
  by (simp add: zcio_read_def script_stream_def SCRIPT_VT_def)

lemma script_delivers: "delivers (Some (script_stream xs)) xs"
proof (induction xs rule: length_induct)
  case (1 xs)
  show ?case
  proof (cases "xs = []")
    case True
    then show ?thesis using script_read [of "[]"] by (auto intro: delivers_end)
  next
    case False
    then have "delivers (Some (script_stream (drop 8192 xs))) (drop 8192 xs)" using 1 by simp
    moreover have "zcio_read (Some (script_stream xs)) True 8192 =
        Some (int (length (take 8192 xs)), take 8192 xs, Some (script_stream (drop 8192 xs)))" using script_read [of xs] by (simp add: min.commute)
    ultimately have "delivers (Some (script_stream xs)) (take 8192 xs @ drop 8192 xs)"
      using False by (intro delivers_more) simp_all
    then show ?thesis by simp
  qed
qed

theorem http_response_read_witness:
  "\<exists>out s' resp loc. read_response quiet_env (Some (script_stream
      (message (asc ''HTTP/1.1 200 OK'') [(asc ''Transfer-Encoding'', asc ''chunked'')] (chunked_body [asc ''hello '', asc ''world''] @ asc ''HTTP'')))) 0 0
      = Some (Inr out, s', 0) \<and>
    parse_response (\<lambda>_. True) (bf_data out) = Inr (resp, loc) \<and> hr_status resp = 200 \<and> hr_body resp = Some (asc ''hello world'')"
proof -
  let ?sl = "asc ''HTTP/1.1 200 OK''" and ?fs = "[(asc ''Transfer-Encoding'', asc ''chunked'')]" and ?bs = "[asc ''hello '', asc ''world'']"
  have h: "head_ok ?sl ?fs" by (simp add: head_ok_def field_wire_def)
  have st: "?sl = server_status 200" by (simp add: server_status_def fmt_int_def dec_digits.simps zhs_status_text_def)
  have c: "carries ?fs (chunked_body ?bs @ asc ''HTTP'') (concat ?bs)"
    by (rule carries_chunks) (simp_all add: fields_chunked_def field_lookup_def is_ows_def tolower_def)
  have l: "length (message ?sl ?fs (chunked_body ?bs @ asc ''HTTP'')) \<le> ZCIO_HTTP_MAX_RESPONSE"
    by (simp add: message_def hdr_lines_def chunked_body_def chunk_bytes_def hex_digits.simps crlf_def ZCIO_HTTP_MAX_RESPONSE_def)
  have a: "hc_alloc quiet_env = (\<lambda>_. True)" by (simp add: quiet_env_def)
  have p: "parse_status_line (\<lambda>_. True) ?sl = Some \<lparr>hr_protocol = Some (asc ''HTTP''), hr_version = Some (asc ''1.1''), hr_status_code = Some (dec_digits (nat 200)),
      hr_status_text = Some (asc (zhs_status_text 200)), hr_headers_json = None, hr_body = None, hr_body_size = 0, hr_status = 200\<rparr>"
    unfolding st by (rule server_status_parsed) simp_all
  from http_response_read [OF h p c script_delivers l a, of 0] show ?thesis by (fastforce simp del: asc_def)
qed

subsection \<open>Client and server\<close>

text \<open>The header fields of a response of the HTTP/1.1 engine.\<close>

definition h1_fields :: "zh1_conn \<Rightarrow> (bytes \<times> bytes) list \<Rightarrow> nat \<Rightarrow> (bytes \<times> bytes) list" where
  "h1_fields c hdrs n = hdrs @ [(asc ''content-length'', dec_digits n),
     (asc ''connection'', if h1_close_conn c then asc ''close'' else asc ''keep-alive'')]"

lemma h1_respond_bytes:
  assumes "100 \<le> status" "status \<le> 599" "\<not> h1_bodiless status"
  shows "concat (h1_respond_strs c status hdrs n) @ body = message (server_status status) (h1_fields c hdrs n) body"
proof -
  have "concat (concat (map (\<lambda>(k, v). [k, asc '': '', v, crlf]) hdrs)) = hdr_lines hdrs"
    by (induction hdrs) (auto simp: hdr_lines_def)
  then show ?thesis using assms(3) server_status_clean(1) [OF assms(1,2)]
    by (simp add: h1_respond_strs_def message_def h1_fields_def hdr_lines_def)
qed

lemma h1_respond_writes:
  assumes "h1_respond henv c req status hdrs (Some body) (length body) = (zcode ZCIO_OK, c')" "zb_wf (h1_out c)"
    and "100 \<le> status" "status \<le> 599" "\<not> h1_bodiless status" "\<not> rq_is_head req"
  shows "ZHS_PTR (h1_out c') = ZHS_PTR (h1_out c) @ message (server_status status) (h1_fields c hdrs (length body)) body"
proof -
  let ?f = "\<lambda>o0. and_then (app_all (he_alloc henv) (h1_respond_strs c status hdrs (length body)) o0)
    (\<lambda>o1. if length body \<noteq> 0 then zhs_buf_append (he_alloc henv) o1 body else (ZCIO_OK, o1))"
  have w: "writes ?f (concat (h1_respond_strs c status hdrs (length body)) @ body)"
  proof (cases "body = []")
    case True
    then show ?thesis using writes_then [OF app_all_writes, of "\<lambda>o1. (ZCIO_OK, o1)" "[]"] by (simp add: writes_def)
  next
    case False
    then show ?thesis using writes_then [OF app_all_writes writes_append] by simp
  qed
  obtain r o1 where f: "?f (h1_out c) = (r, o1)" by fastforce
  have "r = ZCIO_OK" "h1_out c' = o1"
    using assms(1,5,6) f by (auto simp: h1_respond_def Let_def cong: if_cong split: if_splits)
  with writesD [OF w assms(2) f] h1_respond_bytes [OF assms(3-5)] show ?thesis by simp
qed
lemma tchar_clean: "\<not> is_tchar 0x3A" "\<not> is_tchar 0"
  by (simp_all add: is_tchar_def)

lemma no_nul_pad: "0 \<notin> set (pad_dec w n)"
  using digits_clean(1) [of n] by (auto simp: pad_dec_def)

lemma no_nul_date:
  assumes "tm_ok t"
  shows "0 \<notin> set (zhs_http_date t)"
proof -
  have "list_all (\<lambda>s. 0 \<notin> set (asc s)) (DAYS @ MONS)" by (simp add: DAYS_def MONS_def)
  then have "0 \<notin> set (asc (DAYS ! tm_wday t))" "0 \<notin> set (asc (MONS ! tm_mon t))"
    using assms nth_mem [of "tm_wday t" DAYS] nth_mem [of "tm_mon t" MONS]
    by (auto simp: tm_ok_def list_all_iff DAYS_def MONS_def)
  then show ?thesis unfolding zhs_http_date_def using no_nul_pad by (auto dest!: in_set_takeD)
qed

lemma hdr_ok_wire:
  assumes "hdr_ok h"
  shows "field_wire (the (fst h), hdr_value h)"
proof -
  obtain k where k: "fst h = Some k" using assms by (cases "fst h") (auto simp: hdr_ok_def zhs_token_ok_def)
  have t: "zhs_token_ok (Some k)" "zhs_value_ok (Some (hdr_value h))" using assms k by (simp_all add: hdr_ok_def)
  have "list_all is_tchar k" using t(1) by (simp add: zhs_token_ok_def split: if_splits)
  then have "0x3A \<notin> set k" "0 \<notin> set k" using tchar_clean by (auto simp: list_all_iff)
  moreover have "0 \<notin> set (hdr_value h)" using t(2) by (auto simp: zhs_value_ok_def list_all_iff)
  ultimately show ?thesis using no_crlf_token [OF t(1)] no_crlf_value [OF t(2)] k by (simp add: field_wire_def)
qed

lemma respond_headers_wire:
  assumes "list_all hdr_ok hs" "tm_ok clock"
  shows "list_all field_wire (respond_headers srv clock secure hs)"
proof -
  have own: "list_all field_wire (map (\<lambda>h. (the (fst h), hdr_value h)) (filter P hs))" for P
    using assms(1) hdr_ok_wire by (auto simp: list_all_iff)
  have date: "field_wire (asc ''date'', zhs_http_date clock)" using no_crlf_date [OF assms(2)] no_nul_date [OF assms(2)] by (simp add: field_wire_def)
  have "no_crlf (take 47 (asc ''h3='' @ [0x22] @ asc '':'' @ fmt_int p @ [0x22]))" "0 \<notin> set (take 47 (asc ''h3='' @ [0x22] @ asc '':'' @ fmt_int p @ [0x22]))" for p
    using digits_clean(1) by (auto simp: fmt_int_def intro!: no_crlf_take dest!: in_set_takeD)
  then have alt: "field_wire (asc ''alt-svc'', take 47 (asc ''h3='' @ [0x22] @ asc '':'' @ fmt_int p @ [0x22]))" for p by (simp add: field_wire_def)
  have rest: "field_wire (asc ''server'', asc ''zcio'')" "field_wire (asc ''strict-transport-security'', asc ''max-age=31536000'')"
    by (simp_all add: field_wire_def)
  show ?thesis unfolding respond_headers_def using own date alt rest by (auto split: option.splits)
qed

text \<open>Among the policy's headers nothing competes with the engine's own framing.\<close>

lemma managed_absent:
  assumes "list_all hdr_ok hs" "tm_ok clock" "key \<in> set respond_drop" "key \<noteq> asc ''date''" "key \<noteq> asc ''server''"
  shows "(k, v) \<in> set (respond_headers srv clock secure hs) \<Longrightarrow> map tolower k \<noteq> key"
proof
  assume kv: "(k, v) \<in> set (respond_headers srv clock secure hs)" "map tolower k = key"
  let ?f = "filter (\<lambda>(k, v). map tolower k \<in> set respond_drop) (respond_headers srv clock secure hs)"
  have "map fst ?f = [asc ''date'', asc ''server'']"
    using respond_headers_ok [OF assms(1,2), of 200 srv secure None 0] by (simp add: response_ok_def)
  moreover have "k \<in> set (map fst ?f)" using kv assms(3) by force
  ultimately have "k \<in> {asc ''date'', asc ''server''}" by simp
  then have "map tolower k \<in> {asc ''date'', asc ''server''}" by (auto simp: tolower_def)
  with kv(2) assms(4,5) show False by blast
qed

lemma find_skip: "(\<And>x. x \<in> set xs \<Longrightarrow> \<not> P x) \<Longrightarrow> List.find P (xs @ ys) = List.find P ys"
  by (induction xs) auto

lemma h1_fields_framing:
  fixes srv :: "zhs_policy option" and c :: zh1_conn and secure :: bool
  assumes "list_all hdr_ok hs" "tm_ok clock" "n < 2 ^ 63"
  defines "fs \<equiv> h1_fields c (respond_headers srv clock secure hs) n"
  shows "list_all field_wire fs" "\<not> fields_chunked fs" "fields_length fs = int n"
proof -
  note absent = managed_absent [OF assms(1,2), of _ _ _ srv secure]
  have skip: "List.find (\<lambda>(k, v). map tolower k = key) (respond_headers srv clock secure hs @ ys) = List.find (\<lambda>(k, v). map tolower k = key) ys"
    if "key \<in> set respond_drop" "key \<noteq> asc ''date''" "key \<noteq> asc ''server''" for key ys
    using absent [OF that] by (intro find_skip) auto
  have keys: "map tolower (asc ''Content-Length'') = asc ''content-length''" "map tolower (asc ''Transfer-Encoding'') = asc ''transfer-encoding''"
    by (simp_all add: tolower_def)
  have in_drop: "asc ''content-length'' \<in> set respond_drop" "asc ''transfer-encoding'' \<in> set respond_drop" by (simp_all add: respond_drop_def)
  have lows: "map tolower (asc ''content-length'') = asc ''content-length''" "map tolower (asc ''connection'') = asc ''connection''"
    by (simp_all add: tolower_def)
  have cl: "field_lookup (asc ''Content-Length'') fs = Some (dec_digits n)"
    unfolding field_lookup_def fs_def h1_fields_def keys using skip [OF in_drop(1)] lows digits_no_ows by simp
  have te: "field_lookup (asc ''Transfer-Encoding'') fs = None"
    unfolding field_lookup_def fs_def h1_fields_def keys using skip [OF in_drop(2)] lows by simp
  show "\<not> fields_chunked fs" unfolding fields_chunked_def te by simp
  show "fields_length fs = int n" unfolding fields_length_def cl using assms(3) by (simp add: atoll_digits)
  have "field_wire (asc ''content-length'', dec_digits n)" using digits_clean(1) by (simp add: field_wire_def)
  moreover have "field_wire (asc ''connection'', if b then asc ''close'' else asc ''keep-alive'')" for b by (simp add: field_wire_def)
  ultimately show "list_all field_wire fs" unfolding fs_def h1_fields_def using respond_headers_wire [OF assms(1,2)] by simp
qed

text \<open>
  C12. What the server answers is what the client gets: a response that a handler sends through
  \<open>zcio_http_respond\<close> and the HTTP/1.1 engine, delivered in whatever pieces and followed by whatever
  else is on the connection, is returned by the client with the same status, the same body and the
  same header fields in order, with the length and the connection header added behind them.
\<close>

theorem client_reads_server_response:
  assumes "zcio_http_respond alloc srv clock (Some (h1_respond henv)) c req status headers (Some body) (length body) = (zcode ZCIO_OK, c', req')"
    and "zb_wf (h1_out c)" "ZHS_PTR (h1_out c) = []" "tm_ok clock" "\<not> rq_is_head req" "\<not> h1_bodiless status"
    and "delivers s (ZHS_PTR (h1_out c') @ rest)" "length (ZHS_PTR (h1_out c') @ rest) \<le> ZCIO_HTTP_MAX_RESPONSE" "hc_alloc env = (\<lambda>_. True)"
  shows "\<exists>out s' resp loc j. read_response env s 0 t = Some (Inr out, s', t) \<and> parse_response (\<lambda>_. True) (bf_data out) = Inr (resp, loc) \<and>
    hr_status resp = status \<and> hr_body resp = Some body \<and> hr_body_size resp = length body \<and> hr_headers_json resp = Some j \<and>
    json_object j = Some (map (\<lambda>(k, v). (k, dropWhile is_ows v))
      (h1_fields c (respond_headers srv clock (rq_secure req) headers) (length body)))"
proof -
  let ?hs = "respond_headers srv clock (rq_secure req) headers" and ?r = "req\<lparr>rq_responded := True\<rparr>"
  let ?fs = "h1_fields c ?hs (length body)"
  have st: "100 \<le> status" "status \<le> 599" "list_all hdr_ok headers"
    and h: "h1_respond henv c ?r status ?hs (Some body) (length body) = (zcode ZCIO_OK, c')"
    using assms(1) by (auto simp: zcio_http_respond_def Let_def split: if_splits prod.splits)
  have out: "ZHS_PTR (h1_out c') = message (server_status status) ?fs body"
    using h1_respond_writes [OF h assms(2) st(1,2) assms(6)] assms(3,5) by simp
  have m: "ZHS_PTR (h1_out c') @ rest = message (server_status status) ?fs (body @ rest)" unfolding out message_def by simp
  have n: "length body < 2 ^ 63" using assms(8) unfolding m message_def by (simp add: ZCIO_HTTP_MAX_RESPONSE_def)
  note f = h1_fields_framing [OF st(3) assms(4) n, of c srv "rq_secure req"]
  have hd: "head_ok (server_status status) ?fs"
    using server_status_clean(2,3) [OF st(1,2)] f(1) by (simp add: head_ok_def h1_fields_def)
  from message_read [OF hd server_status_parsed [OF st(1,2)] carries_length [OF f(2,3)] assms(7,8) [unfolded m] assms(9)]
  show ?thesis by (fastforce simp del: asc_def)
qed

text \<open>A response of a fresh connection, and the client that reads it.\<close>

definition hello_clock :: tm where
  "hello_clock = \<lparr>tm_sec = 37, tm_min = 49, tm_hour = 8, tm_mday = 6, tm_mon = 10, tm_year = 94, tm_wday = 0\<rparr>"

definition hello_answer :: "int \<times> zh1_conn \<times> zcio_http_req" where
  "hello_answer = zcio_http_respond (\<lambda>_. True) None hello_clock
     (Some (h1_respond example_env)) (the (zh1_new True (zhs_limits_resolve None) 0 zhs_buf_zero)) zhs_req_zero 200
     [(Some (asc ''x-a''), Some (asc ''b''))] (Some (asc ''hi'')) 2"

lemma hello_answer_bytes:
  obtains c' r' where "hello_answer = (zcode ZCIO_OK, c', r')" "length (ZHS_PTR (h1_out c')) \<le> 1000"
proof -
  let ?c = "the (zh1_new True (zhs_limits_resolve None) 0 zhs_buf_zero)" and ?r = "zhs_req_zero\<lparr>rq_responded := True\<rparr>"
  let ?hs = "respond_headers None hello_clock False [(Some (asc ''x-a''), Some (asc ''b''))]" and ?b = "asc ''hi''"
  have out: "h1_out ?c = zhs_buf_zero" "zb_wf zhs_buf_zero" "zb_data zhs_buf_zero = []" "ZHS_PTR zhs_buf_zero = []"
    by (simp_all add: zh1_new_def zhs_buf_zero_def zb_wf_def ZHS_PTR_def)
  have hs: "?hs = [(asc ''x-a'', asc ''b''), (asc ''date'', zhs_http_date hello_clock), (asc ''server'', asc ''zcio'')]"
    by (simp add: respond_headers_def hdr_value_def respond_filtered_iff respond_drop_def tolower_def)
  have date: "length (zhs_http_date hello_clock) \<le> 31" by (simp add: zhs_http_date_def)
  have st: "length (h1_status_line 200) \<le> 63" by (simp add: h1_status_line_def)
  have len: "length (concat (h1_respond_strs ?c 200 ?hs (length ?b)) @ ?b) \<le> 1000"
    unfolding hs h1_respond_strs_def using date st by (simp add: h1_bodiless_def crlf_def dec_digits.simps)
  obtain rc c' where h: "h1_respond example_env ?c ?r 200 ?hs (Some ?b) (length ?b) = (rc, c')" by fastforce
  obtain o1 where o1: "app_all (\<lambda>_. True) (h1_respond_strs ?c 200 ?hs (length ?b)) zhs_buf_zero = (ZCIO_OK, o1)"
      "zb_data o1 = concat (h1_respond_strs ?c 200 ?hs (length ?b))" "zb_wf o1"
    using app_all_total [of "\<lambda>_. True" zhs_buf_zero "h1_respond_strs ?c 200 ?hs (length ?b)"] writesD [OF app_all_writes out(2)] out len
    by (force simp: SIZE_MAX_def)
  obtain o2 where o2: "zhs_buf_append (\<lambda>_. True) o1 ?b = (ZCIO_OK, o2)"
    using append_total [of o1 "\<lambda>_. True" ?b] o1 len by (auto simp: SIZE_MAX_def)
  have rc: "rc = zcode ZCIO_OK" using h o1(1) o2 by (auto simp: h1_respond_def Let_def out(1) example_env_def and_then_def h1_bodiless_def zhs_req_zero_def simp del: asc_def)
  have nb: "\<not> h1_bodiless 200" "\<not> rq_is_head ?r" by (simp_all add: h1_bodiless_def zhs_req_zero_def)
  have "ZHS_PTR (h1_out c') = concat (h1_respond_strs ?c 200 ?hs (length ?b)) @ ?b"
    using h1_respond_writes [OF h [unfolded rc] _ _ _ nb] h1_respond_bytes [OF _ _ nb(1), of ?c ?hs "length ?b" ?b] out by simp
  with len have "length (ZHS_PTR (h1_out c')) \<le> 1000" by simp
  moreover have l2: "length ?b = 2" by simp
  have "list_all hdr_ok [(Some (asc ''x-a''), Some (asc ''b''))]"
    by (simp add: hdr_ok_def hdr_value_def zhs_token_ok_def zhs_value_ok_def is_tchar_def)
  then have "hello_answer = (zcode ZCIO_OK, c', ?r)"
    unfolding hello_answer_def zcio_http_respond_def Let_def using h [unfolded l2] rc
    by (simp add: zhs_req_zero_def SIZE_MAX_def)
  ultimately show ?thesis using that by blast
qed

theorem client_reads_server_response_witness:
  "\<exists>out s' resp loc. read_response quiet_env (Some (script_stream (ZHS_PTR (h1_out (fst (snd hello_answer))) @ asc ''HTTP''))) 0 0 = Some (Inr out, s', 0) \<and>
    parse_response (\<lambda>_. True) (bf_data out) = Inr (resp, loc) \<and> hr_status resp = 200 \<and> hr_body resp = Some (asc ''hi'')"
proof -
  let ?c = "the (zh1_new True (zhs_limits_resolve None) 0 zhs_buf_zero)"
  obtain c' r' where a: "hello_answer = (zcode ZCIO_OK, c', r')" and b: "length (ZHS_PTR (h1_out c')) \<le> 1000" by (rule hello_answer_bytes)
  have p: "zcio_http_respond (\<lambda>_. True) None hello_clock (Some (h1_respond example_env)) ?c zhs_req_zero 200
      [(Some (asc ''x-a''), Some (asc ''b''))] (Some (asc ''hi'')) (length (asc ''hi'')) = (zcode ZCIO_OK, c', r')"
    using a unfolding hello_answer_def by (simp add: numeral_2_eq_2)
  have c: "zb_wf (h1_out ?c)" "ZHS_PTR (h1_out ?c) = []" "tm_ok hello_clock" "\<not> rq_is_head zhs_req_zero" "\<not> h1_bodiless 200"
    "length (ZHS_PTR (h1_out c') @ asc ''HTTP'') \<le> ZCIO_HTTP_MAX_RESPONSE" "hc_alloc quiet_env = (\<lambda>_. True)"
    using b by (simp_all add: zh1_new_def zb_wf_def zhs_buf_zero_def ZHS_PTR_def tm_ok_def hello_clock_def zhs_req_zero_def h1_bodiless_def
        ZCIO_HTTP_MAX_RESPONSE_def quiet_env_def)
  from client_reads_server_response [OF p c(1-5) script_delivers c(6,7), of 0] show ?thesis unfolding a by (fastforce simp del: asc_def)
qed
end
