(* ===== verification/Zc_Server.thy ===== *)
theory Zc_Server
  imports Zc_WsConnect Zc_H2Feed
begin

unbundle bit_operations_syntax

text \<open>
  The event loop of the HTTP server (\<open>src/http_server.c\<close>): connections with their protocol
  engines, reading, feeding, flushing, deadlines, accepting, the graceful drain and the loop itself.
  Sockets, \<open>poll\<close>, the TLS handshake, the clock and the HTTP/3 engine are parameters: a turn of the
  loop is given what they answer.
\<close>

section \<open>The event loop of the HTTP server\<close>

definition READ_SCRATCH :: nat where "READ_SCRATCH = 65536"

definition H2_PREFACE :: bytes where "H2_PREFACE = asc ''PRI * HTTP/2.0''"

definition ZCIO_HTTP1_1 :: u32 where "ZCIO_HTTP1_1 = push_bit 0 1"

definition ZCIO_HTTP2 :: u32 where "ZCIO_HTTP2 = push_bit 1 1"

definition UINT64_MAX :: nat where "UINT64_MAX = 2 ^ 64 - 1"

subsection \<open>Connections and the server\<close>

datatype conn_proto = CONN_UNKNOWN | CONN_H1 | CONN_H2

text \<open>
  A connection. The engines write to the output buffer through a pointer, so \<open>cn_out\<close> is put into an
  engine before it runs and taken back after. The descriptor is only the place in the poll set.
\<close>

record 'c conn =
  cn_stream :: "'c zcio_stream option"
  cn_in :: zhs_buf
  cn_out :: zhs_buf
  cn_proto :: conn_proto
  cn_h1 :: "zh1_conn option"
  cn_h2 :: "zh2_conn option"
  cn_secure :: bool
  cn_tls_pending :: bool
  cn_redirect :: bool
  cn_peer_eof :: bool
  cn_want_close :: bool
  cn_dead :: bool
  cn_detached :: bool
  cn_created_ms :: nat
  cn_activity_ms :: nat
  cn_timing_head :: bool
  cn_head_start_ms :: nat

text \<open>The server: of a listener or a TLS context only whether there is one; \<open>'q\<close> is the HTTP/3 engine.\<close>

record ('c, 'q) http_server =
  hv_versions :: u32
  hv_lim :: zhs_limits
  hv_listen :: bool
  hv_redirect :: bool
  hv_h3 :: "'q option"
  hv_tls :: bool
  hv_conns :: "'c conn list"
  hv_cap_conns :: nat
  hv_pollset_cap :: nat
  hv_stop_flag :: bool
  hv_stopping :: bool
  hv_stopped :: bool
  hv_drain_deadline_ms :: nat
  hv_bound_port :: int

text \<open>
  What one slice of a connection meets: the engines' parameters, the clock, the allocations of the
  engine objects, the TLS handshake with the protocol it negotiated, and what upgrade attempts of the
  handler that failed leave of the stream.
\<close>

record 'c conn_env =
  ce_engine :: h1_env
  ce_now :: nat
  ce_mem :: bool
  ce_dec_mem :: bool
  ce_handshake :: "'c zcio_stream option \<Rightarrow> int \<times> 'c zcio_stream option"
  ce_alpn :: "'c zcio_stream option \<Rightarrow> bytes option"
  ce_accept :: "'c zcio_stream option \<Rightarrow> 'c zcio_stream option"

record revents =
  rv_in :: bool
  rv_out :: bool
  rv_err :: bool
  rv_nval :: bool

definition no_events :: revents where
  "no_events = \<lparr>rv_in = False, rv_out = False, rv_err = False, rv_nval = False\<rparr>"

definition out_pending :: "'c conn \<Rightarrow> bool" where
  "out_pending c \<longleftrightarrow> ZHS_AVAIL (cn_out c) > 0"

definition to_min :: "int \<Rightarrow> int \<Rightarrow> int" where
  "to_min cur cand = (if cand < 0 then cur else if cur < 0 then cand else if cand < cur then cand else cur)"

subsection \<open>One connection\<close>

definition conn_start_h1 :: "'c conn_env \<Rightarrow> ('c, 'q) http_server \<Rightarrow> 'c conn \<Rightarrow> 'c conn" where
  "conn_start_h1 ce s c =
     (if hv_versions s AND ZCIO_HTTP1_1 = 0 then c\<lparr>cn_dead := True\<rparr>
      else (case zh1_new (ce_mem ce) (hv_lim s) (if cn_secure c then ZH1_F_SECURE else 0) (cn_out c) of
          None \<Rightarrow> c\<lparr>cn_dead := True\<rparr>
        | Some h \<Rightarrow> c\<lparr>cn_h1 := Some h, cn_proto := CONN_H1\<rparr>))"

definition conn_start_h2 :: "'c conn_env \<Rightarrow> ('c, 'q) http_server \<Rightarrow> 'c conn \<Rightarrow> 'c conn" where
  "conn_start_h2 ce s c =
     (case zh2_new (ce_engine ce) (ce_mem ce) (ce_dec_mem ce) (hv_lim s) (cn_secure c) (cn_out c) of
        None \<Rightarrow> c\<lparr>cn_dead := True\<rparr>
      | Some h \<Rightarrow> c\<lparr>cn_h2 := Some h, cn_out := h2_out h, cn_proto := CONN_H2\<rparr>)"

definition conn_select_proto_tls :: "'c conn_env \<Rightarrow> ('c, 'q) http_server \<Rightarrow> 'c conn \<Rightarrow> 'c conn" where
  "conn_select_proto_tls ce s c =
     (if ce_alpn ce (cn_stream c) = Some (asc ''h2'') then
        (if hv_versions s AND ZCIO_HTTP2 = 0 then c\<lparr>cn_dead := True\<rparr> else conn_start_h2 ce s c)
      else conn_start_h1 ce s c)"

text \<open>Whether a protocol is chosen, or the connection given up.\<close>

definition conn_select_proto_plain :: "'c conn_env \<Rightarrow> ('c, 'q) http_server \<Rightarrow> 'c conn \<Rightarrow> bool \<times> 'c conn" where
  "conn_select_proto_plain ce s c =
     (let avail = ZHS_AVAIL (cn_in c); look = min avail (length H2_PREFACE) in
      if avail = 0 then (False, c)
      else if hv_versions s AND ZCIO_HTTP2 \<noteq> 0 \<and> take look (ZHS_PTR (cn_in c)) = take look H2_PREFACE then
        (if avail < length H2_PREFACE then (False, c) else (True, conn_start_h2 ce s c))
      else (True, conn_start_h1 ce s c))"

definition conn_receiving :: "'c conn \<Rightarrow> bool" where
  "conn_receiving c \<longleftrightarrow> cn_proto c = CONN_H1 \<and> (case cn_h1 c of None \<Rightarrow> False | Some h \<Rightarrow> zh1_receiving h)"

definition conn_update_head_timing :: "'c conn \<Rightarrow> nat \<Rightarrow> 'c conn" where
  "conn_update_head_timing c now =
     (if conn_receiving c then (if cn_timing_head c then c else c\<lparr>cn_timing_head := True, cn_head_start_ms := now\<rparr>)
      else c\<lparr>cn_timing_head := False\<rparr>)"

definition conn_pump :: "'c conn_env \<Rightarrow> 'c conn \<Rightarrow> 'c conn" where
  "conn_pump ce c =
     (case cn_h2 c of
        None \<Rightarrow> c
      | Some h \<Rightarrow> (let h1 = zh2_pump (ce_engine ce) (h\<lparr>h2_out := cn_out c\<rparr>) in c\<lparr>cn_h2 := Some h1, cn_out := h2_out h1\<rparr>))"

text \<open>Feeding the engine; the count is of the work done. A detached stream belongs to the WebSocket session.\<close>

definition conn_feed_h1 :: "'c conn_env \<Rightarrow> 'c conn \<Rightarrow> zh1_conn \<Rightarrow> nat \<Rightarrow> 'c conn \<times> nat" where
  "conn_feed_h1 ce c h work =
     (case zh1_feed (ce_engine ce) (h\<lparr>h1_out := cn_out c\<rparr>) (cn_in c) of
        (r, h1, inp) \<Rightarrow>
          (let c1 = c\<lparr>cn_h1 := Some h1, cn_out := h1_out h1, cn_in := inp, cn_stream := ce_accept ce (cn_stream c)\<rparr> in
           case r of
             ZH1_NEED_MORE \<Rightarrow> (c1, work)
           | ZH1_DISPATCHED \<Rightarrow> (c1, work + 1)
           | ZH1_CLOSE \<Rightarrow> (c1\<lparr>cn_want_close := True\<rparr>, work)
           | ZH1_DETACHED \<Rightarrow> (c1\<lparr>cn_stream := None, cn_detached := True, cn_dead := True\<rparr>, work)
           | ZH1_HARD _ \<Rightarrow> (c1\<lparr>cn_dead := True\<rparr>, work)))"

definition conn_feed_h2 :: "'c conn_env \<Rightarrow> 'c conn \<Rightarrow> zh2_conn \<Rightarrow> nat \<Rightarrow> 'c conn \<times> nat" where
  "conn_feed_h2 ce c h work =
     (case zh2_feed (ce_engine ce) (h\<lparr>h2_out := cn_out c\<rparr>) (cn_in c) of
        (r, h1, inp) \<Rightarrow>
          (let c1 = c\<lparr>cn_h2 := Some h1, cn_out := h2_out h1, cn_in := inp\<rparr> in
           case r of
             ZH2_HARD _ \<Rightarrow> (c1\<lparr>cn_dead := True\<rparr>, work)
           | _ \<Rightarrow> (conn_pump ce (if r = ZH2_CLOSING then c1\<lparr>cn_want_close := True\<rparr> else c1), work + 1)))"

definition conn_feed :: "'c conn_env \<Rightarrow> ('c, 'q) http_server \<Rightarrow> 'c conn \<Rightarrow> nat \<Rightarrow> 'c conn \<times> nat" where
  "conn_feed ce s c work =
     (case (if cn_proto c = CONN_UNKNOWN then conn_select_proto_plain ce s c else (True, c)) of
        (chosen, c1) \<Rightarrow>
          if \<not> chosen \<or> cn_dead c1 then (c1, work)
          else (case cn_proto c1 of
              CONN_H1 \<Rightarrow> conn_feed_h1 ce c1 (the (cn_h1 c1)) work
            | CONN_H2 \<Rightarrow> conn_feed_h2 ce c1 (the (cn_h2 c1)) work
            | CONN_UNKNOWN \<Rightarrow> (c1, work)))"

partial_function (option) conn_flush :: "nat \<Rightarrow> 'c conn \<Rightarrow> nat \<Rightarrow> ('c conn \<times> nat) option" where
  "conn_flush now c work =
     (if ZHS_AVAIL (cn_out c) = 0 then Some (c, work)
      else Option.bind (zcio_write (cn_stream c) (Some (ZHS_PTR (cn_out c)))) (\<lambda>(w, s1).
        if w > 0 then conn_flush now (c\<lparr>cn_stream := s1, cn_out := zhs_buf_consume (cn_out c) (nat w), cn_activity_ms := now\<rparr>) (work + 1)
        else if w = zcode ZCIO_ERR_WOULDBLOCK then Some (c\<lparr>cn_stream := s1\<rparr>, work)
        else Some (c\<lparr>cn_stream := s1, cn_dead := True\<rparr>, work)))"

text \<open>The slice of a connection, in the source's order: handshake or read, feed, pump, flush, close.\<close>

definition conn_handshake :: "'c conn_env \<Rightarrow> ('c, 'q) http_server \<Rightarrow> 'c conn \<Rightarrow> 'c conn" where
  "conn_handshake ce s c =
     (case ce_handshake ce (cn_stream c) of
        (hr, st) \<Rightarrow>
          (let c1 = c\<lparr>cn_stream := st\<rparr> in
           if hr = zcode ZCIO_OK then conn_select_proto_tls ce s (c1\<lparr>cn_tls_pending := False, cn_activity_ms := ce_now ce\<rparr>)
           else if hr \<noteq> zcode ZCIO_ERR_WOULDBLOCK then c1\<lparr>cn_dead := True\<rparr> else c1))"

definition conn_read :: "'c conn_env \<Rightarrow> 'c conn \<Rightarrow> nat \<Rightarrow> ('c conn \<times> nat) option" where
  "conn_read ce c work = do {
     (r, d, st) \<leftarrow> zcio_read (cn_stream c) True READ_SCRATCH;
     let c1 = c\<lparr>cn_stream := st\<rparr>;
     if r > 0 then
       (case zhs_buf_append (he_alloc (ce_engine ce)) (cn_in c1) (take (nat r) d) of
          (a, inp) \<Rightarrow>
            if a \<noteq> ZCIO_OK then Some (c1\<lparr>cn_in := inp, cn_dead := True\<rparr>, work)
            else Some (c1\<lparr>cn_in := inp, cn_activity_ms := ce_now ce\<rparr>, work + 1))
     else if r = 0 \<or> r \<noteq> zcode ZCIO_ERR_WOULDBLOCK then Some (c1\<lparr>cn_peer_eof := True\<rparr>, work)
     else Some (c1, work) }"

definition conn_input :: "'c conn_env \<Rightarrow> ('c, 'q) http_server \<Rightarrow> 'c conn \<Rightarrow> revents \<Rightarrow> nat \<Rightarrow> ('c conn \<times> nat) option" where
  "conn_input ce s c rv work =
     (if cn_tls_pending c then Some (if rv_in rv \<or> rv_out rv then conn_handshake ce s c else c, work)
      else if rv_in rv then conn_read ce c work
      else Some (c, work))"

definition conn_serve :: "'c conn_env \<Rightarrow> ('c, 'q) http_server \<Rightarrow> 'c conn \<Rightarrow> nat \<Rightarrow> 'c conn \<times> nat" where
  "conn_serve ce s c work =
     (if \<not> cn_dead c \<and> \<not> cn_tls_pending c
      then (case conn_feed ce s c work of (c1, work1) \<Rightarrow> (conn_update_head_timing c1 (ce_now ce), work1))
      else (c, work))"

definition conn_close_decision :: "'c conn \<Rightarrow> 'c conn" where
  "conn_close_decision c =
     (if cn_detached c then c
      else
        (let c1 = (if cn_want_close c \<and> \<not> out_pending c then c\<lparr>cn_dead := True\<rparr> else c) in
         if cn_peer_eof c1 then (if \<not> out_pending c1 then c1\<lparr>cn_dead := True\<rparr> else c1\<lparr>cn_want_close := True\<rparr>) else c1))"

definition conn_process ::
  "'c conn_env \<Rightarrow> ('c, 'q) http_server \<Rightarrow> 'c conn \<Rightarrow> revents \<Rightarrow> nat \<Rightarrow> ('c conn \<times> nat) option" where
  "conn_process ce s c rv work = do {
     (c1, work1) \<leftarrow> conn_input ce s (if rv_err rv \<or> rv_nval rv then c\<lparr>cn_peer_eof := True\<rparr> else c) rv work;
     let (c2, work2) = conn_serve ce s c1 work1;
     let c3 = (if \<not> cn_dead c2 \<and> cn_proto c2 = CONN_H2 \<and> rv_out rv then conn_pump ce c2 else c2);
     (c4, work4) \<leftarrow> (if \<not> cn_dead c3 \<and> out_pending c3 then conn_flush (ce_now ce) c3 work2 else Some (c3, work2));
     Some (conn_close_decision c4, work4) }"

text \<open>The deadline of a connection: sums of \<open>uint64_t\<close>, a negative time-out as its two's complement.\<close>

definition u64_ms :: "int \<Rightarrow> nat" where
  "u64_ms t = nat (t mod 2 ^ 64)"

definition conn_deadline_ms :: "zhs_limits \<Rightarrow> 'c conn \<Rightarrow> nat" where
  "conn_deadline_ms L c =
     (if cn_dead c then UINT64_MAX
      else if cn_tls_pending c \<or> cn_proto c = CONN_UNKNOWN then (cn_created_ms c + u64_ms (header_timeout_ms L)) mod 2 ^ 64
      else if out_pending c then (cn_activity_ms c + u64_ms (write_timeout_ms L)) mod 2 ^ 64
      else if conn_receiving c then
        (cn_head_start_ms c + u64_ms (if zh1_mid_headers (the (cn_h1 c)) then header_timeout_ms L else idle_timeout_ms L)) mod 2 ^ 64
      else (cn_activity_ms c + u64_ms (idle_timeout_ms L)) mod 2 ^ 64)"

definition conn_drained :: "'c conn \<Rightarrow> bool" where
  "conn_drained c =
     (if out_pending c then False
      else (case cn_proto c of
          CONN_H1 \<Rightarrow> (case cn_h1 c of None \<Rightarrow> True | Some h \<Rightarrow> zh1_idle h)
        | CONN_H2 \<Rightarrow> zh2_idle (cn_h2 c)
        | CONN_UNKNOWN \<Rightarrow> True))"

subsection \<open>Accepting\<close>

text \<open>What the system gives for an accepted descriptor: memory, the clock, the stream and its TLS overlay.\<close>

record 'c accepted =
  ac_mem :: bool
  ac_now :: nat
  ac_stream :: "'c zcio_stream option"
  ac_h1_mem :: bool
  ac_tls :: "'c zcio_stream option"
  ac_table :: allocator

definition server_add_conn :: "allocator \<Rightarrow> ('c, 'q) http_server \<Rightarrow> 'c conn \<Rightarrow> zcio_result \<times> ('c, 'q) http_server" where
  "server_add_conn alloc s c =
     (let ncap = (if hv_cap_conns s \<noteq> 0 then hv_cap_conns s * 2 else 16) in
      if length (hv_conns s) = hv_cap_conns s then
        (if \<not> alloc (ncap * 8) then (ZCIO_ERR_NOMEM, s)
         else (ZCIO_OK, s\<lparr>hv_cap_conns := ncap, hv_conns := hv_conns s @ [c]\<rparr>))
      else (ZCIO_OK, s\<lparr>hv_conns := hv_conns s @ [c]\<rparr>))"

definition conn_zero :: "nat \<Rightarrow> 'c zcio_stream option \<Rightarrow> bool \<Rightarrow> 'c conn" where
  "conn_zero now st redirect =
     \<lparr>cn_stream = st, cn_in = zhs_buf_zero, cn_out = zhs_buf_zero, cn_proto = CONN_UNKNOWN, cn_h1 = None, cn_h2 = None,
      cn_secure = False, cn_tls_pending = False, cn_redirect = redirect, cn_peer_eof = False, cn_want_close = False,
      cn_dead = False, cn_detached = False, cn_created_ms = now, cn_activity_ms = now, cn_timing_head = False,
      cn_head_start_ms = now\<rparr>"

text \<open>The connection around an accepted descriptor; \<open>None\<close> when it was closed again.\<close>

definition conn_setup :: "('c, 'q) http_server \<Rightarrow> 'c accepted \<Rightarrow> bool \<Rightarrow> 'c conn option" where
  "conn_setup s a redirect =
     (let c = conn_zero (ac_now a) (ac_stream a) redirect in
      if \<not> ac_mem a \<or> ac_stream a = None then None
      else if redirect then
        (case zh1_new (ac_h1_mem a) (hv_lim s) ZH1_F_REDIRECT zhs_buf_zero of
           None \<Rightarrow> None
         | Some h \<Rightarrow> Some (c\<lparr>cn_proto := CONN_H1, cn_h1 := Some h\<rparr>))
      else if hv_tls s then
        (case ac_tls a of None \<Rightarrow> None | Some w \<Rightarrow> Some (c\<lparr>cn_stream := Some w, cn_secure := True, cn_tls_pending := True\<rparr>))
      else Some c)"

definition conn_create :: "('c, 'q) http_server \<Rightarrow> 'c accepted \<Rightarrow> bool \<Rightarrow> bool \<times> ('c, 'q) http_server" where
  "conn_create s a redirect =
     (case conn_setup s a redirect of
        None \<Rightarrow> (False, s)
      | Some c \<Rightarrow> (case server_add_conn (ac_table a) s c of (r, s1) \<Rightarrow> (r = ZCIO_OK, s1)))"

primrec accept_loop :: "'c accepted list \<Rightarrow> bool \<Rightarrow> ('c, 'q) http_server \<Rightarrow> nat \<Rightarrow> ('c, 'q) http_server \<times> nat" where
  "accept_loop [] redirect s work = (s, work)"
| "accept_loop (a # as) redirect s work =
     (if length (hv_conns s) \<ge> max_connections (hv_lim s) then accept_loop as redirect s work
      else (case conn_create s a redirect of
          (ok, s1) \<Rightarrow> accept_loop as redirect s1 (if ok then work + 1 else work)))"

subsection \<open>The loop\<close>

text \<open>The HTTP/3 engine as the loop uses it.\<close>

record 'q h3_ops =
  q3_timeout_ms :: "'q \<Rightarrow> int"
  q3_process :: "'q \<Rightarrow> int \<times> 'q"
  q3_idle :: "'q \<Rightarrow> bool"
  q3_graceful :: "'q \<Rightarrow> 'q"

text \<open>
  What a turn of the loop meets: whether \<open>zcio_http_server_stop\<close> was called before it, the clock at its
  three readings, the memory for the poll set, the answer of \<open>poll\<close> to a time-out, the events of the
  listeners and of each connection, the descriptors to accept, and each connection's environment.
\<close>

record 'c turn =
  tn_stop :: bool
  tn_stop_now :: nat
  tn_alloc :: allocator
  tn_before :: nat
  tn_poll :: "int \<Rightarrow> int"
  tn_now :: nat
  tn_listen :: revents
  tn_redirect :: revents
  tn_accepted :: "'c accepted list"
  tn_accepted_redirect :: "'c accepted list"
  tn_revents :: "nat \<Rightarrow> revents"
  tn_conn :: "nat \<Rightarrow> 'c conn_env"

definition conn_graceful :: "h1_env \<Rightarrow> 'c conn \<Rightarrow> 'c conn" where
  "conn_graceful env c =
     (case (cn_proto c, cn_h1 c, cn_h2 c) of
        (CONN_H1, Some h, _) \<Rightarrow> c\<lparr>cn_h1 := Some (zh1_graceful h)\<rparr>
      | (CONN_H2, _, Some h) \<Rightarrow> (let h1 = zh2_graceful env (h\<lparr>h2_out := cn_out c\<rparr>) in c\<lparr>cn_h2 := Some h1, cn_out := h2_out h1\<rparr>)
      | _ \<Rightarrow> c)"

definition begin_stop :: "'q h3_ops \<Rightarrow> 'c turn \<Rightarrow> ('c, 'q) http_server \<Rightarrow> ('c, 'q) http_server" where
  "begin_stop ops tn s =
     s\<lparr>hv_listen := False, hv_redirect := False,
       hv_conns := map (\<lambda>(i, c). conn_graceful (ce_engine (tn_conn tn i)) c) (List.enumerate 0 (hv_conns s)),
       hv_h3 := map_option (q3_graceful ops) (hv_h3 s), hv_stopping := True,
       hv_drain_deadline_ms := (tn_stop_now tn + u64_ms (drain_timeout_ms (hv_lim s))) mod 2 ^ 64\<rparr>"

function pollset_grow :: "nat \<Rightarrow> nat \<Rightarrow> nat" where
  "pollset_grow cap need = (if cap \<ge> need \<or> cap = 0 then cap else pollset_grow (cap * 2) need)"
  by pat_completeness auto
termination
  by (relation "measure (\<lambda>(cap, need). need - cap)") auto

declare pollset_grow.simps [simp del]

definition ensure_pollset :: "allocator \<Rightarrow> ('c, 'q) http_server \<Rightarrow> nat \<Rightarrow> zcio_result \<times> ('c, 'q) http_server" where
  "ensure_pollset alloc s need =
     (if need \<le> hv_pollset_cap s then (ZCIO_OK, s)
      else
        (let ncap = pollset_grow (if hv_pollset_cap s \<noteq> 0 then hv_pollset_cap s else 16) need in
         if \<not> alloc (ncap * 8) then (ZCIO_ERR_NOMEM, s) else (ZCIO_OK, s\<lparr>hv_pollset_cap := ncap\<rparr>)))"

text \<open>The earliest deadline, and the time-out handed to \<open>poll\<close>; the difference is taken as an \<open>int64_t\<close>.\<close>

definition next_deadline :: "('c, 'q) http_server \<Rightarrow> nat" where
  "next_deadline s =
     (let dl = foldl (\<lambda>dl c. min dl (conn_deadline_ms (hv_lim s) c)) UINT64_MAX (hv_conns s) in
      if hv_stopping s \<and> hv_drain_deadline_ms s < dl then hv_drain_deadline_ms s else dl)"

definition poll_timeout :: "'q h3_ops \<Rightarrow> ('c, 'q) http_server \<Rightarrow> nat \<Rightarrow> int \<Rightarrow> int" where
  "poll_timeout ops s now timeout_ms =
     (let dl = next_deadline s;
          d = sint (word_of_int (int dl - int now) :: 64 word);
          d0 = (if d < 0 then 0 else d);
          to = (if dl \<noteq> UINT64_MAX then to_min timeout_ms (if d0 > INT_MAX then INT_MAX else d0) else timeout_ms)
      in case hv_h3 s of None \<Rightarrow> to | Some q \<Rightarrow> to_min to (q3_timeout_ms ops q))"

text \<open>The slices of the connections from the \<open>i\<close>-th on.\<close>

primrec conn_slices ::
  "'c turn \<Rightarrow> ('c, 'q) http_server \<Rightarrow> bool \<Rightarrow> nat \<Rightarrow> 'c conn list \<Rightarrow> nat \<Rightarrow> ('c conn list \<times> nat) option" where
  "conn_slices tn s ready i [] work = Some ([], work)"
| "conn_slices tn s ready i (c # cs) work = do {
     (c1, work1) \<leftarrow> conn_process (tn_conn tn i) s c (if ready then tn_revents tn i else no_events) work;
     (cs1, work2) \<leftarrow> conn_slices tn s ready (i + 1) cs work1;
     Some (c1 # cs1, work2) }"

definition accept_ready :: "revents \<Rightarrow> bool" where
  "accept_ready rv \<longleftrightarrow> rv_in rv \<or> rv_err rv"

definition server_accept :: "'c turn \<Rightarrow> bool \<Rightarrow> ('c, 'q) http_server \<Rightarrow> ('c, 'q) http_server \<times> nat" where
  "server_accept tn ready s =
     (let (s1, w1) = (if ready \<and> \<not> hv_stopping s \<and> hv_listen s \<and> accept_ready (tn_listen tn)
                      then accept_loop (tn_accepted tn) False s 0 else (s, 0))
      in if ready \<and> \<not> hv_stopping s \<and> hv_redirect s \<and> accept_ready (tn_redirect tn)
         then accept_loop (tn_accepted_redirect tn) True s1 w1 else (s1, w1))"

definition server_h3 :: "'q h3_ops \<Rightarrow> ('c, 'q) http_server \<Rightarrow> nat \<Rightarrow> ('c, 'q) http_server \<times> nat" where
  "server_h3 ops s work =
     (case hv_h3 s of
        None \<Rightarrow> (s, work)
      | Some q \<Rightarrow> (case q3_process ops q of (r, q1) \<Rightarrow> if r < 0 then (s\<lparr>hv_h3 := None\<rparr>, work) else (s\<lparr>hv_h3 := Some q1\<rparr>, work + 1)))"

definition sweep :: "zhs_limits \<Rightarrow> nat \<Rightarrow> 'c conn \<Rightarrow> 'c conn" where
  "sweep L now c = (if \<not> cn_dead c \<and> now \<ge> conn_deadline_ms L c then c\<lparr>cn_dead := True\<rparr> else c)"

definition drain_conn :: "bool \<Rightarrow> 'c conn \<Rightarrow> 'c conn" where
  "drain_conn late c = (if conn_drained c \<or> late then c\<lparr>cn_dead := True\<rparr> else c)"

definition server_remove_dead :: "('c, 'q) http_server \<Rightarrow> ('c, 'q) http_server" where
  "server_remove_dead s = s\<lparr>hv_conns := filter (\<lambda>c. \<not> cn_dead c) (hv_conns s)\<rparr>"

text \<open>The bookkeeping at the end of a turn: deadlines of the polled connections, the drain, the dead removed.\<close>

definition server_tidy :: "'c turn \<Rightarrow> nat \<Rightarrow> ('c, 'q) http_server \<Rightarrow> ('c, 'q) http_server" where
  "server_tidy tn nc s =
     (let cs = map (sweep (hv_lim s) (tn_now tn)) (take nc (hv_conns s)) @ drop nc (hv_conns s) in
      server_remove_dead (s\<lparr>hv_conns :=
        (if hv_stopping s then map (drain_conn (tn_now tn \<ge> hv_drain_deadline_ms s)) cs else cs)\<rparr>))"

definition server_turn :: "'q h3_ops \<Rightarrow> 'c turn \<Rightarrow> ('c, 'q) http_server \<Rightarrow> bool \<Rightarrow> (int \<times> ('c, 'q) http_server) option" where
  "server_turn ops tn s ready = do {
     let nc = length (hv_conns s);
     let (s1, w1) = server_accept tn ready s;
     let (s2, w2) = server_h3 ops s1 w1;
     (cs, w3) \<leftarrow> conn_slices tn s2 ready 0 (take nc (hv_conns s2)) w2;
     let s3 = server_tidy tn nc (s2\<lparr>hv_conns := cs @ drop nc (hv_conns s2)\<rparr>);
     Some (if hv_stopping s3 \<and> hv_conns s3 = [] \<and> (case hv_h3 s3 of None \<Rightarrow> True | Some q \<Rightarrow> q3_idle ops q)
           then (zcode ZCIO_ERR_EOF, s3\<lparr>hv_stopped := True\<rparr>)
           else (int w3, s3)) }"

text \<open>A server that has been asked to stop begins to at its next turn.\<close>

definition server_poll ::
  "'q h3_ops \<Rightarrow> 'c turn \<Rightarrow> ('c, 'q) http_server \<Rightarrow> int \<Rightarrow> (int \<times> ('c, 'q) http_server) option" where
  "server_poll ops tn s timeout_ms =
     (if hv_stopped s then Some (zcode ZCIO_ERR_EOF, s)
      else
        (let s0 = (if tn_stop tn then s\<lparr>hv_stop_flag := True\<rparr> else s);
             s1 = (if hv_stop_flag s0 \<and> \<not> hv_stopping s0 then begin_stop ops tn s0 else s0)
         in case ensure_pollset (tn_alloc tn) s1 (length (hv_conns s1) + 4) of
              (r, s2) \<Rightarrow>
                if r \<noteq> ZCIO_OK then Some (zcode ZCIO_ERR_NOMEM, s2)
                else
                  (let rc = tn_poll tn (poll_timeout ops s2 (tn_before tn) timeout_ms) in
                   if rc < 0 then Some (zcode ZCIO_ERR, s2) else server_turn ops tn s2 (rc > 0))))"

text \<open>The loop until the drain is complete; the turns come from the outside.\<close>

partial_function (option) server_run ::
  "'q h3_ops \<Rightarrow> (nat \<Rightarrow> 'c turn) \<Rightarrow> nat \<Rightarrow> ('c, 'q) http_server \<Rightarrow> (int \<times> ('c, 'q) http_server) option" where
  "server_run ops turns k s =
     Option.bind (server_poll ops (turns k) s (-1)) (\<lambda>(r, s1).
       if r = zcode ZCIO_ERR_EOF then Some (zcode ZCIO_OK, s1)
       else if r < 0 then Some (r, s1)
       else server_run ops turns (k + 1) s1)"

text \<open>The operations on a pointer that may be NULL. The wake-up of \<open>zcio_http_server_stop\<close> is the return of \<open>poll\<close>.\<close>

definition zcio_http_server_poll ::
  "'q h3_ops \<Rightarrow> 'c turn \<Rightarrow> ('c, 'q) http_server option \<Rightarrow> int \<Rightarrow> (int \<times> ('c, 'q) http_server option) option" where
  "zcio_http_server_poll ops tn so timeout_ms =
     (case so of
        None \<Rightarrow> Some (zcode ZCIO_ERR_INVALID_ARG, None)
      | Some s \<Rightarrow> map_option (map_prod id Some) (server_poll ops tn s timeout_ms))"

definition zcio_http_server_run ::
  "'q h3_ops \<Rightarrow> (nat \<Rightarrow> 'c turn) \<Rightarrow> ('c, 'q) http_server option \<Rightarrow> (int \<times> ('c, 'q) http_server option) option" where
  "zcio_http_server_run ops turns so =
     (case so of
        None \<Rightarrow> Some (zcode ZCIO_ERR_INVALID_ARG, None)
      | Some s \<Rightarrow> map_option (map_prod id Some) (server_run ops turns 0 s))"

definition zcio_http_server_stop :: "('c, 'q) http_server option \<Rightarrow> ('c, 'q) http_server option" where
  "zcio_http_server_stop so = map_option (\<lambda>s. s\<lparr>hv_stop_flag := True\<rparr>) so"

definition zcio_http_server_port :: "('c, 'q) http_server option \<Rightarrow> int" where
  "zcio_http_server_port so = (case so of None \<Rightarrow> zcode ZCIO_ERR_INVALID_ARG | Some s \<Rightarrow> hv_bound_port s)"

subsection \<open>Starting\<close>

text \<open>The configuration as the start reads it; TLS contexts and listeners are what the system gives.\<close>

record http_server_config =
  cf_versions :: u32
  cf_tls :: bool
  cf_cert_file :: "bytes option"
  cf_key_file :: "bytes option"
  cf_require_tls :: bool
  cf_redirect_port :: int
  cf_host :: "bytes option"
  cf_bind_host :: "bytes option"
  cf_limits :: zhs_limits

record 'q start_env =
  st_handler :: bool
  st_mem :: bool
  st_alloc :: allocator
  st_ctx_files :: bool
  st_ctx_self :: bool
  st_wake :: bool
  st_listen :: "int option"
  st_redirect :: bool
  st_h3 :: "'q option"

definition resolve_tls :: "'q start_env \<Rightarrow> http_server_config \<Rightarrow> u32 \<Rightarrow> zcio_result + bool" where
  "resolve_tls env cfg versions =
     (if cf_tls cfg then Inr True
      else if cf_cert_file cfg \<noteq> None \<and> cf_key_file cfg \<noteq> None then (if st_ctx_files env then Inr True else Inl ZCIO_ERR_TLS)
      else if cf_require_tls cfg \<or> versions AND ZCIO_HTTP3 \<noteq> 0 then (if st_ctx_self env then Inr True else Inl ZCIO_ERR_TLS)
      else Inr False)"

definition config_zero :: http_server_config where
  "config_zero = \<lparr>cf_versions = 0, cf_tls = False, cf_cert_file = None, cf_key_file = None, cf_require_tls = False,
     cf_redirect_port = 0, cf_host = None, cf_bind_host = None, cf_limits = zhs_limits_resolve None\<rparr>"

definition dup_ok :: "allocator \<Rightarrow> bytes option \<Rightarrow> bool" where
  "dup_ok alloc s = (case s of None \<Rightarrow> True | Some b \<Rightarrow> alloc (length b + 1))"

definition zcio_http_server_start :: "'q start_env \<Rightarrow> http_server_config option \<Rightarrow> ('c, 'q) http_server option" where
  "zcio_http_server_start env cfg0 =
     (let cfg = (case cfg0 of None \<Rightarrow> config_zero | Some c \<Rightarrow> c);
          versions = (if cf_versions cfg \<noteq> 0 then cf_versions cfg else ZCIO_HTTP1_1);
          lim = zhs_limits_resolve (map_option cf_limits cfg0)
      in if \<not> st_handler env \<or> \<not> st_mem env then None
         else if \<not> list_all (dup_ok (st_alloc env)) [cf_host cfg, cf_bind_host cfg, cf_cert_file cfg, cf_key_file cfg] then None
         else (case resolve_tls env cfg versions of
             Inl _ \<Rightarrow> None
           | Inr tls \<Rightarrow>
               if \<not> st_wake env \<or> st_listen env = None then None
               else if cf_redirect_port cfg > 0 \<and> \<not> st_redirect env then None
               else if versions AND ZCIO_HTTP3 \<noteq> 0 \<and> st_h3 env = None then None
               else Some \<lparr>hv_versions = versions, hv_lim = lim, hv_listen = True, hv_redirect = (cf_redirect_port cfg > 0),
                 hv_h3 = (if versions AND ZCIO_HTTP3 \<noteq> 0 then st_h3 env else None), hv_tls = tls, hv_conns = [], hv_cap_conns = 0,
                 hv_pollset_cap = 0, hv_stop_flag = False, hv_stopping = False, hv_stopped = False, hv_drain_deadline_ms = 0,
                 hv_bound_port = the (st_listen env)\<rparr>))"

end
