(* ===== verification/Zc_ServerLoop.thy ===== *)
theory Zc_ServerLoop
  imports Zc_Server
begin

unbundle bit_operations_syntax

text \<open>
  What the event loop of \<open>Zc_Server\<close> guarantees: the invariant of a connection and of the server
  (\<open>conn_wf\<close>, \<open>server_wf\<close>) with its preservation by every step of a turn, that only valid requests
  decide what a turn does, which connections survive a turn, and that a stop is always completed.
\<close>

section \<open>What the event loop guarantees\<close>

subsection \<open>What the HTTP/1.1 engine leaves of its output buffer\<close>

text \<open>A run of the engine keeps the mode of the connection and a sound output buffer.\<close>

definition h1_keeps :: "zh1_conn \<Rightarrow> zh1_conn \<Rightarrow> bool" where
  "h1_keeps c c' \<longleftrightarrow> h1_flags c' = h1_flags c \<and> (zb_wf (h1_out c) \<longrightarrow> zb_wf (h1_out c'))"

lemma h1_keeps_refl [simp]: "h1_keeps c c"
  by (simp add: h1_keeps_def)

lemma h1_keeps_trans: "h1_keeps a b \<Longrightarrow> h1_keeps b c \<Longrightarrow> h1_keeps a c"
  by (simp add: h1_keeps_def)

lemma app_all_keeps: "app_all alloc ss b = (r, b') \<Longrightarrow> zb_wf b \<Longrightarrow> zb_wf b'"
  using writesD [OF app_all_writes] by blast

lemma h1_keeps_upd [simp]:
  "h1_keeps c (c0\<lparr>h1_req := x1\<rparr>) = h1_keeps c c0"
  "h1_keeps c (c0\<lparr>h1_head_bytes := x2\<rparr>) = h1_keeps c c0"
  "h1_keeps c (c0\<lparr>h1_receiving := x3\<rparr>) = h1_keeps c c0"
  "h1_keeps c (c0\<lparr>h1_is_http10 := x4\<rparr>) = h1_keeps c c0"
  "h1_keeps c (c0\<lparr>h1_keep_alive := x5\<rparr>) = h1_keeps c c0"
  "h1_keeps c (c0\<lparr>h1_st := x6\<rparr>) = h1_keeps c c0"
  "h1_keeps c (c0\<lparr>h1_chunked := x7\<rparr>) = h1_keeps c c0"
  "h1_keeps c (c0\<lparr>h1_cl_remaining := x8\<rparr>) = h1_keeps c c0"
  "h1_keeps c (c0\<lparr>h1_chunk_remaining := x9\<rparr>) = h1_keeps c c0"
  "h1_keeps c (c0\<lparr>h1_req_count := x10\<rparr>) = h1_keeps c c0"
  "h1_keeps c (c0\<lparr>h1_close_after := x11\<rparr>) = h1_keeps c c0"
  "h1_keeps (c0\<lparr>h1_req := x12\<rparr>) c = h1_keeps c0 c"
  "h1_keeps (c0\<lparr>h1_head_bytes := x13\<rparr>) c = h1_keeps c0 c"
  "h1_keeps (c0\<lparr>h1_receiving := x14\<rparr>) c = h1_keeps c0 c"
  "h1_keeps (c0\<lparr>h1_is_http10 := x15\<rparr>) c = h1_keeps c0 c"
  "h1_keeps (c0\<lparr>h1_keep_alive := x16\<rparr>) c = h1_keeps c0 c"
  "h1_keeps (c0\<lparr>h1_st := x17\<rparr>) c = h1_keeps c0 c"
  "h1_keeps (c0\<lparr>h1_chunked := x18\<rparr>) c = h1_keeps c0 c"
  "h1_keeps (c0\<lparr>h1_cl_remaining := x19\<rparr>) c = h1_keeps c0 c"
  "h1_keeps (c0\<lparr>h1_chunk_remaining := x20\<rparr>) c = h1_keeps c0 c"
  "h1_keeps (c0\<lparr>h1_req_count := x21\<rparr>) c = h1_keeps c0 c"
  "h1_keeps (c0\<lparr>h1_close_after := x22\<rparr>) c = h1_keeps c0 c"
  by (simp_all add: h1_keeps_def)

lemma h1_error_keeps: "h1_error env c s = (p, c') \<Longrightarrow> h1_keeps c c'"
proof -
  assume e: "h1_error env c s = (p, c')"
  define ss where "ss = [h1_status_line s, asc ''date: '', zhs_http_date (he_clock env), crlf @ asc ''server: zcio'' @ crlf,
    asc ''content-length: 0'' @ crlf @ asc ''connection: close'' @ crlf @ crlf]"
  obtain a o1 where a: "app_all (he_alloc env) ss (h1_out c) = (a, o1)" by fastforce
  have "h1_error env c s = (if a \<noteq> ZCIO_OK then (P_HARD ZCIO_ERR_NOMEM, c\<lparr>h1_out := o1\<rparr>)
      else (P_CLOSE, c\<lparr>h1_out := o1, h1_close_after := True, h1_st := H1_DEAD\<rparr>))"
    using a unfolding h1_error_def h1_emit_simple_def Let_def option.case append_Nil append.simps ss_def by simp
  with e app_all_keeps [OF a] show ?thesis by (auto simp: h1_keeps_def split: if_splits)
qed

lemma h1_redirect_keeps: "h1_redirect env c = (p, c') \<Longrightarrow> h1_keeps c c'"
proof -
  assume r: "h1_redirect env c = (p, c')"
  define ss where "ss = [asc ''HTTP/1.1 301 Moved Permanently'' @ crlf @ asc ''date: '', zhs_http_date (he_clock env),
     crlf @ asc ''server: zcio'' @ crlf @ asc ''location: https://'', the (if zhs_redirect_host (he_srv env) = None \<or> zhs_redirect_host (he_srv env) = Some []
       then rq_authority (h1_req c) else zhs_redirect_host (he_srv env)),
     (case rq_path (h1_req c) of None \<Rightarrow> asc ''/'' | Some p \<Rightarrow> p)] @
     (case rq_query (h1_req c) of None \<Rightarrow> [] | Some q \<Rightarrow> [asc ''?'', q]) @
     [crlf @ asc ''content-length: 0'' @ crlf @ asc ''connection: close'' @ crlf @ crlf]"
  obtain a o1 where a: "app_all (he_alloc env) ss (h1_out c) = (a, o1)" by fastforce
  consider "h1_error env c 400 = (p, c')" | "h1_flags c' = h1_flags c" "h1_out c' = o1"
    using r a unfolding h1_redirect_def Let_def ss_def [symmetric] by (auto split: if_splits)
  then show ?thesis by cases (use h1_error_keeps app_all_keeps [OF a] in \<open>auto simp: h1_keeps_def\<close>)
qed

lemma error_after [simp]: "h1_keeps a b \<Longrightarrow> h1_keeps a (snd (h1_error env b s))"
  using h1_error_keeps [of env b s] by (cases "h1_error env b s") (auto intro: h1_keeps_trans)

lemma header_line_keeps: "h1_header_line env c l = (p, c') \<Longrightarrow> h1_keeps c c'"
  by (auto simp: h1_header_line_def Let_def split_beta split: if_splits)

lemma host_keeps: "h1_host env c = (p, c') \<Longrightarrow> h1_keeps c c'"
proof -
  assume h: "h1_host env c = (p, c')"
  obtain q e where e: "h1_error env c 400 = (q, e)" by fastforce
  have "c' = e \<or> c' = c \<or> (\<exists>x. c' = c\<lparr>h1_req := x\<rparr>)"
    using h unfolding h1_host_def Let_def e by (auto split: if_splits)
  with h1_error_keeps [OF e] show ?thesis by auto
qed

lemma framing_keeps: "h1_framing env c = (p, c') \<Longrightarrow> h1_keeps c c'"
  by (auto simp: h1_framing_def Let_def split_beta split: if_splits option.splits sum.splits)

lemma take_target_keeps: "h1_keeps c (snd (h1_take_target env c m t))"
  by (simp add: h1_take_target_def Let_def split_beta split: sum.splits)

lemma target_after [simp]: "h1_keeps a b \<Longrightarrow> h1_keeps a (snd (h1_take_target env b m t))"
  using take_target_keeps by (blast intro: h1_keeps_trans)

lemma request_line_after [simp]: "h1_keeps a b \<Longrightarrow> h1_keeps a (snd (h1_request_line env b l))"
  by (simp add: h1_request_line_def Let_def split_beta split: sum.splits option.splits)

lemma reqline_keeps: "h1_reqline env c inp = (p, c', inp') \<Longrightarrow> h1_keeps c c'"
  by (auto simp: h1_reqline_def Let_def split_beta split: if_splits h1_line.splits)

lemma headers_loop_keeps: "h1_headers_loop env c inp = (q, c', inp') \<Longrightarrow> h1_keeps c c'"
proof (induction env c inp rule: h1_headers_loop.induct)
  case (1 env c inp)
  note unfold = h1_headers_loop.simps [of env c inp]
  show ?case
  proof (cases "\<exists>line n c2. h1_find_line inp = Line line n \<and> \<not> n > szsub (max_header_bytes (h1_lim c)) (h1_head_bytes c) \<and> line \<noteq> [] \<and>
      h1_header_line env (c\<lparr>h1_head_bytes := h1_head_bytes c + n\<rparr>) line = (None, c2)")
    case True
    then obtain line n c2 where l: "h1_find_line inp = Line line n" "\<not> n > szsub (max_header_bytes (h1_lim c)) (h1_head_bytes c)" "line \<noteq> []"
      "h1_header_line env (c\<lparr>h1_head_bytes := h1_head_bytes c + n\<rparr>) line = (None, c2)" by blast
    have "h1_headers_loop env c2 (zhs_buf_consume inp n) = (q, c', inp')" using 1(2) l unfold by (simp add: Let_def)
    from 1(1) [OF refl refl l(1,2) refl refl l(3) l(4) [symmetric] refl this] header_line_keeps [OF l(4)]
    show ?thesis by (auto intro: h1_keeps_trans)
  next
    case stop: False
    show ?thesis
    proof (cases "h1_find_line inp")
      case (Line line n)
      let ?c1 = "c\<lparr>h1_head_bytes := h1_head_bytes c + n\<rparr>"
      obtain q1 c2 where hl: "h1_header_line env ?c1 line = (q1, c2)" by fastforce
      have k: "h1_keeps c c2" using header_line_keeps [OF hl] by simp
      show ?thesis
      proof (cases "n > szsub (max_header_bytes (h1_lim c)) (h1_head_bytes c) \<or> line = []")
        case True
        with 1(2) unfold Line show ?thesis by (auto simp: Let_def split_beta split: if_splits)
      next
        case False
        with stop Line hl obtain p where "q1 = Some p" by (cases q1) auto
        with 1(2) unfold Line hl False k show ?thesis by (simp add: Let_def)
      qed
    qed (use 1(2) unfold in \<open>auto simp: Let_def split_beta split: if_splits\<close>)
  qed
qed

lemma headers_keeps: "h1_headers env c inp = (p, c', inp') \<Longrightarrow> h1_keeps c c'"
proof -
  assume h: "h1_headers env c inp = (p, c', inp')"
  obtain q c1 inp1 where l: "h1_headers_loop env c inp = (q, c1, inp1)" using prod_cases3 by blast
  note k1 = headers_loop_keeps [OF l]
  show ?thesis
  proof (cases q)
    case None
    obtain q2 c2 where hh: "h1_host env c1 = (q2, c2)" by fastforce
    have "h1_keeps c2 c'" using h l None hh
      by (auto simp: h1_headers_def h1_keep_alive_intent_def Let_def dest: h1_redirect_keeps framing_keeps
          split: option.splits prod.splits if_splits)
    with k1 host_keeps [OF hh] show ?thesis by (blast intro: h1_keeps_trans)
  qed (use h l k1 in \<open>auto simp: h1_headers_def\<close>)
qed

lemma body_cl_keeps: "h1_body_cl env c inp = (p, c', inp') \<Longrightarrow> h1_keeps c c'"
  by (auto simp: h1_body_cl_def h1_append_body_def Let_def split: prod.splits if_splits)

lemma chunk_size_keeps: "h1_chunk_size env c l = (p, c') \<Longrightarrow> h1_keeps c c'"
  by (auto simp: h1_chunk_size_def Let_def split_beta split: if_splits option.splits)

lemma chunk_size_after [simp]: "h1_keeps c (snd (h1_chunk_size env c l))"
  using chunk_size_keeps by (cases "h1_chunk_size env c l") auto

lemma chunk_turn_keeps: "h1_chunk_turn env c inp = (p, c', inp') \<Longrightarrow> h1_keeps c c'"
  by (auto simp: h1_chunk_turn_def h1_append_body_def Let_def split_beta split: if_splits h1_line.splits)

lemma body_chunk_keeps: "h1_body_chunk env c inp = (p, c', inp') \<Longrightarrow> h1_keeps c c'"
proof (induction env c inp rule: h1_body_chunk.induct)
  case (1 env c inp)
  obtain q c1 inp1 where t: "h1_chunk_turn env c inp = (q, c1, inp1)" using prod_cases3 by blast
  show ?case
  proof (cases q)
    case None
    then have "h1_body_chunk env c1 inp1 = (p, c', inp')" using 1(2) t by (simp add: h1_body_chunk.simps [of env c inp])
    from 1(1) [OF t [symmetric] None refl this] chunk_turn_keeps [OF t] show ?thesis by (blast intro: h1_keeps_trans)
  qed (use 1(2) t chunk_turn_keeps [OF t] in \<open>simp add: h1_body_chunk.simps [of env c inp]\<close>)
qed

lemma stage_of_keeps: "h1_stage_of env c inp = Some (p, c', inp') \<Longrightarrow> h1_keeps c c'"
  by (auto simp: h1_stage_of_def intro: reqline_keeps headers_keeps body_cl_keeps body_chunk_keeps split: h1_state.splits)

lemma h1_respond_keeps: "h1_respond env c r s hs b n = (rc, c') \<Longrightarrow> h1_keeps c c'"
proof -
  assume h: "h1_respond env c r s hs b n = (rc, c')"
  obtain a o0 where a: "app_all (he_alloc env) (h1_respond_strs c s hs n) (h1_out c) = (a, o0)" by fastforce
  have ap: "zhs_buf_append alloc o1 x = (q, o2) \<Longrightarrow> zb_wf o1 \<Longrightarrow> zb_wf o2" for alloc o1 x q o2
    using writesD [OF writes_append] by blast
  from h a show ?thesis
    by (auto simp: h1_respond_def h1_keeps_def Let_def and_then_def dest!: app_all_keeps ap split: prod.splits if_splits option.splits)
qed

lemma detach_keeps: "h1_keeps c (h1_detach c)"
  using consume_ok by (auto simp: h1_keeps_def h1_detach_def)

lemma http_respond_keeps: "zcio_http_respond alloc srv clock (Some (h1_respond env)) c r s hs b n = (rc, c', r') \<Longrightarrow> h1_keeps c c'"
  by (auto simp: zcio_http_respond_def Let_def dest: h1_respond_keeps split: if_splits prod.splits)

lemma handler_steps_keeps:
  "fold (handler_step alloc srv clock (h1_respond env) h1_detach) calls (c, r, d) = (c', r', d') \<Longrightarrow> h1_keeps c c'"
proof (induction calls arbitrary: c r d)
  case (Cons call calls)
  obtain c1 r1 d1 where st: "handler_step alloc srv clock (h1_respond env) h1_detach call (c, r, d) = (c1, r1, d1)"
    using prod_cases3 by blast
  have "h1_keeps c c1" using st detach_keeps
    by (auto simp: handler_step_def dest: http_respond_keeps split: handler_call.splits prod.splits if_splits)
  moreover have "h1_keeps c1 c'" using Cons.IH [of c1 r1 d1] Cons.prems st by simp
  ultimately show ?case by (rule h1_keeps_trans)
qed simp

lemma h1_dispatch_keeps:
  assumes "zhs_dispatch alloc srv clock (h1_respond env) h1_detach calls c r = (d, c', r')"
  shows "h1_keeps c c'"
proof -
  obtain c1 r1 d1 where f: "fold (handler_step alloc srv clock (h1_respond env) h1_detach) calls (c, r, False) = (c1, r1, d1)"
    using prod_cases3 by blast
  have "h1_keeps c1 c'" using assms f
    by (auto simp: zhs_dispatch_def dest: http_respond_keeps split: if_splits prod.splits)
  with handler_steps_keeps [OF f] show ?thesis by (rule h1_keeps_trans)
qed

lemma finish_keeps: "h1_finish env c = (f, c') \<Longrightarrow> h1_keeps c c'"
proof -
  assume f: "h1_finish env c = (f, c')"
  show ?thesis
  proof (cases "h1_ready env c")
    case (Some c1)
    then have r: "h1_keeps c c1" by (auto simp: h1_ready_def h1_detect_ws_def Let_def split: prod.splits if_splits option.splits)
    obtain d c2 r2 where d: "zhs_dispatch (he_alloc env) (he_srv env) (he_clock env) (h1_respond env) h1_detach
        (he_handler env (h1_req_count c1) (h1_req c1)) c1 (h1_req c1) = (d, c2, r2)" using prod_cases3 by blast
    have "h1_keeps c2 c'" using f Some d by (auto simp: h1_finish_def Let_def split: if_splits)
    with r h1_dispatch_keeps [OF d] show ?thesis by (blast intro: h1_keeps_trans)
  qed (use f in \<open>simp add: h1_finish_def\<close>)
qed

lemma feed_keeps: "zh1_feed_loop env c inp n = (r, c', inp') \<Longrightarrow> h1_keeps c c'"
proof (induction env c inp n rule: zh1_feed_loop.induct)
  case (1 env c inp n)
  note unfold = zh1_feed_loop.simps [of env c inp n]
  show ?case
  proof (cases "h1_stage_of env c inp")
    case None
    with 1(3) unfold show ?thesis by simp
  next
    case (Some a)
    obtain p c1 inp1 where a: "a = (p, c1, inp1)" using prod_cases3 by blast
    have k: "h1_keeps c c1" using stage_of_keeps Some a by blast
    show ?thesis
    proof (cases p)
      case P_NEXT
      with 1(3) unfold Some a have "zh1_feed_loop env c1 inp1 n = (r, c', inp')" by simp
      from 1(1) [OF Some a [symmetric] refl P_NEXT this] k show ?thesis by (blast intro: h1_keeps_trans)
    next
      case P_COMPLETE
      obtain f c2 where f: "h1_finish env c1 = (f, c2)" by fastforce
      have k2: "h1_keeps c c2" using k finish_keeps [OF f] by (rule h1_keeps_trans)
      show ?thesis
      proof (cases "f = FIN_OK \<and> \<not> h1_close_after c2")
        case True
        then have fo: "f = FIN_OK" "\<not> h1_close_after c2" by auto
        then have "zh1_feed_loop env (h1_reset_next c2) inp1 (n + 1) = (r, c', inp')" using 1(3) unfold Some a P_COMPLETE f by simp
        from 1(2) [OF Some a [symmetric] refl P_COMPLETE f [symmetric] fo this] k2 show ?thesis
          by (simp add: h1_keeps_def h1_reset_next_def)
      next
        case False
        then show ?thesis using 1(3) unfold Some a P_COMPLETE f k2 by (cases f) auto
      qed
    qed (use 1(3) unfold Some a k in auto)
  qed
qed

subsection \<open>What of HTTP/2 does not depend on the handler\<close>

lemma pump_body_handler: "pump_body (env\<lparr>he_handler := h\<rparr>) c st = pump_body env c st"
proof (induction env c st rule: pump_body.induct)
  case (1 env c st)
  let ?go = "s2_body_off st < length (zb_data (s2_resp_body st)) \<and> pump_chunk c st \<noteq> 0"
  show ?case
  proof (cases ?go)
    case False
    then show ?thesis by (subst (1 2) pump_body.simps) (simp only: Let_def if_False)
  next
    case True
    obtain r c1 where f: "h2_frame env c (of_nat (pump_chunk c st)) 0
        (if s2_body_off st + pump_chunk c st = length (zb_data (s2_resp_body st)) \<and> s2_resp_end_after_body st then 1 else 0)
        (s2_id st) (Some (drop (s2_body_off st) (zb_data (s2_resp_body st)))) = (r, c1)" by fastforce
    note IH = 1 [OF refl refl refl refl True f [symmetric]]
    show ?thesis
    proof (cases "r = ZCIO_OK")
      case ok: True
      then show ?thesis using True f IH by (subst (1 2) pump_body.simps) (simp add: Let_def)
    qed (use True f in \<open>subst (1 2) pump_body.simps, simp add: Let_def\<close>)
  qed
qed

lemma pump_loop_handler: "pump_loop (env\<lparr>he_handler := h\<rparr>) c i = pump_loop env c i"
proof (induction env c i rule: pump_loop.induct)
  case (1 env c i)
  show ?case
  proof (cases "i \<ge> length (h2_streams c)")
    case False
    let ?st = "h2_streams c ! i"
    define t where "t = (if s2_resp_headers_done ?st \<and> \<not> s2_send_done ?st then pump_body env c ?st else (c, ?st))"
    obtain c1 st1 where t: "t = (c1, st1)" by fastforce
    note IH = 1 [OF False refl t [unfolded t_def, symmetric] refl]
    have l: "pump_loop env c i = (let c2 = c1\<lparr>h2_streams := (h2_streams c1)[i := st1]\<rparr> in
        if h2_oom c2 then c2 else if s2_send_done st1 \<and> s2_end_stream_recv st1 then pump_loop env (stream_close c2 i) i else pump_loop env c2 (i + 1))"
      by (subst pump_loop.simps, unfold Let_def, fold t_def) (simp add: False t)
    have r: "pump_loop (env\<lparr>he_handler := h\<rparr>) c i = (let c2 = c1\<lparr>h2_streams := (h2_streams c1)[i := st1]\<rparr> in
        if h2_oom c2 then c2 else if s2_send_done st1 \<and> s2_end_stream_recv st1 then pump_loop (env\<lparr>he_handler := h\<rparr>) (stream_close c2 i) i
        else pump_loop (env\<lparr>he_handler := h\<rparr>) c2 (i + 1))"
      by (subst pump_loop.simps, unfold Let_def pump_body_handler, fold t_def) (simp add: False t)
    show ?thesis unfolding l r Let_def using IH by (simp del: fun_upd_apply)
  qed (subst (1 2) pump_loop.simps, simp)
qed

lemma engine_handler [simp]:
  "zh2_pump (env\<lparr>he_handler := h\<rparr>) = zh2_pump env" "zh2_graceful (env\<lparr>he_handler := h\<rparr>) = zh2_graceful env"
  "zh2_new (env\<lparr>he_handler := h\<rparr>) = zh2_new env"
  by (simp_all add: zh2_pump_def zh2_graceful_def pump_loop_handler fun_eq_iff) (unfold zh2_new_def frame_handler, simp)

subsection \<open>Sound connections\<close>

text \<open>
  A connection whose protocol is not known yet has written nothing; otherwise its engine is in a
  valid state on the connection's output buffer, and the handshake is over.
\<close>

definition conn_wf :: "zhs_limits \<Rightarrow> 'c conn \<Rightarrow> bool" where
  "conn_wf lim c \<longleftrightarrow> zb_wf (cn_out c) \<and> (cn_tls_pending c \<longrightarrow> cn_proto c = CONN_UNKNOWN) \<and>
     (cn_proto c = CONN_UNKNOWN \<longrightarrow> cn_out c = zhs_buf_zero) \<and>
     (cn_proto c = CONN_H1 \<longrightarrow> (\<exists>h. cn_h1 c = Some h \<and> h1_wf h \<and> h1_lim h = lim)) \<and>
     (cn_proto c = CONN_H2 \<longrightarrow> (\<exists>h. cn_h2 c = Some h \<and> h2_wf lim (h\<lparr>h2_out := cn_out c\<rparr>)))"

lemma conn_wf_upd [simp]:
  "conn_wf lim (c\<lparr>cn_stream := x1\<rparr>) = conn_wf lim c" "conn_wf lim (c\<lparr>cn_in := x2\<rparr>) = conn_wf lim c"
  "conn_wf lim (c\<lparr>cn_peer_eof := x3\<rparr>) = conn_wf lim c" "conn_wf lim (c\<lparr>cn_want_close := x4\<rparr>) = conn_wf lim c"
  "conn_wf lim (c\<lparr>cn_dead := x5\<rparr>) = conn_wf lim c" "conn_wf lim (c\<lparr>cn_detached := x6\<rparr>) = conn_wf lim c"
  "conn_wf lim (c\<lparr>cn_activity_ms := x7\<rparr>) = conn_wf lim c" "conn_wf lim (c\<lparr>cn_timing_head := x8\<rparr>) = conn_wf lim c"
  "conn_wf lim (c\<lparr>cn_head_start_ms := x9\<rparr>) = conn_wf lim c"
  by (simp_all add: conn_wf_def)

lemma h1_out_wf [simp]: "h1_wf (h\<lparr>h1_out := x\<rparr>) = h1_wf h"
  by (simp add: h1_wf_def h1_st_ok_def body_len_def)

lemma h2_wf_out: "h2_wf lim h \<Longrightarrow> zb_wf (h2_out h)"
  by (simp add: h2_wf_def num_ok_def)

lemma start_h1_wf:
  assumes "conn_wf (hv_lim s) c" "\<not> cn_tls_pending c"
  shows "conn_wf (hv_lim s) (conn_start_h1 ce s c)"
proof (cases "zh1_new (ce_mem ce) (hv_lim s) (if cn_secure c then ZH1_F_SECURE else 0) (cn_out c)")
  case (Some h)
  have "h1_lim h = hv_lim s" using Some by (auto simp: zh1_new_def split: if_splits)
  then show ?thesis using assms h1_new_wf [OF Some] Some by (auto simp: conn_start_h1_def conn_wf_def)
qed (use assms in \<open>simp add: conn_start_h1_def\<close>)

lemma start_h2_wf:
  assumes "conn_wf (hv_lim s) c" "\<not> cn_tls_pending c"
  shows "conn_wf (hv_lim s) (conn_start_h2 ce s c)"
proof (cases "zh2_new (ce_engine ce) (ce_mem ce) (ce_dec_mem ce) (hv_lim s) (cn_secure c) (cn_out c)")
  case (Some h)
  have "h2_wf (hv_lim s) h" using new_wf [OF Some] assms(1) by (simp add: conn_wf_def)
  with h2_wf_out [OF this] show ?thesis using assms Some by (auto simp: conn_start_h2_def conn_wf_def)
qed (use assms in \<open>simp add: conn_start_h2_def\<close>)

lemma select_wf:
  assumes "conn_wf (hv_lim s) c" "\<not> cn_tls_pending c"
  shows "conn_wf (hv_lim s) (conn_select_proto_tls ce s c)" "conn_wf (hv_lim s) (snd (conn_select_proto_plain ce s c))"
  using assms start_h1_wf [OF assms] start_h2_wf [OF assms] by (simp_all add: conn_select_proto_tls_def conn_select_proto_plain_def Let_def)

lemma conn_pump_wf: "conn_wf lim c \<Longrightarrow> cn_proto c = CONN_H2 \<Longrightarrow> conn_wf lim (conn_pump ce c)"
proof -
  assume c: "conn_wf lim c" "cn_proto c = CONN_H2"
  then obtain h where h: "cn_h2 c = Some h" "h2_wf lim (h\<lparr>h2_out := cn_out c\<rparr>)" by (auto simp: conn_wf_def)
  from pump_wf [OF h(2), of "ce_engine ce"] h2_wf_out [OF pump_wf [OF h(2)]] c h(1) show ?thesis
    by (auto simp: conn_pump_def conn_wf_def Let_def)
qed

subsection \<open>The slice of a connection\<close>

text \<open>The environment of a connection with another handler.\<close>

definition with_handler :: "(nat \<Rightarrow> zcio_http_req \<Rightarrow> handler_call list) \<Rightarrow> 'c conn_env \<Rightarrow> 'c conn_env" where
  "with_handler h ce = ce\<lparr>ce_engine := (ce_engine ce)\<lparr>he_handler := h\<rparr>\<rparr>"

lemma with_handler_simps [simp]:
  "ce_engine (with_handler h ce) = (ce_engine ce)\<lparr>he_handler := h\<rparr>" "ce_now (with_handler h ce) = ce_now ce"
  "ce_mem (with_handler h ce) = ce_mem ce" "ce_dec_mem (with_handler h ce) = ce_dec_mem ce"
  "ce_handshake (with_handler h ce) = ce_handshake ce" "ce_alpn (with_handler h ce) = ce_alpn ce"
  "ce_accept (with_handler h ce) = ce_accept ce"
  by (simp_all add: with_handler_def)

text \<open>Requests an application may see: well-formed ones of either protocol, within the limits.\<close>

definition request_valid :: "zhs_limits \<Rightarrow> zcio_http_req \<Rightarrow> bool" where
  "request_valid lim q \<longleftrightarrow> request_ok lim q \<or> request2_ok lim q"

definition env_ok :: "zhs_limits \<Rightarrow> 'c conn_env \<Rightarrow> (nat \<Rightarrow> zcio_http_req \<Rightarrow> handler_call list) \<Rightarrow> bool" where
  "env_ok lim ce h \<longleftrightarrow> (\<forall>n. length (he_junk (ce_engine ce) n) = n) \<and>
     (\<forall>n q. request_valid lim q \<longrightarrow> h n q = he_handler (ce_engine ce) n q)"

lemma start_handler [simp]:
  "conn_start_h1 (with_handler h ce) s c = conn_start_h1 ce s c" "conn_start_h2 (with_handler h ce) s c = conn_start_h2 ce s c"
  "conn_pump (with_handler h ce) c = conn_pump ce c"
  unfolding conn_start_h1_def conn_start_h2_def conn_pump_def with_handler_simps engine_handler by (rule refl)+

lemma select_handler [simp]:
  "conn_select_proto_tls (with_handler h ce) s c = conn_select_proto_tls ce s c"
  "conn_select_proto_plain (with_handler h ce) s c = conn_select_proto_plain ce s c"
  unfolding conn_select_proto_tls_def conn_select_proto_plain_def with_handler_simps start_handler by (rule refl)+

lemma feed_h1_ok:
  assumes "env_ok lim ce h" "conn_wf lim c" "cn_proto c = CONN_H1"
  shows "conn_feed_h1 (with_handler h ce) c (the (cn_h1 c)) work = conn_feed_h1 ce c (the (cn_h1 c)) work"
    "conn_feed_h1 ce c (the (cn_h1 c)) work = (c', work') \<Longrightarrow> conn_wf lim c' \<and> cn_proto c' = CONN_H1"
proof -
  obtain g where g: "cn_h1 c = Some g" "h1_wf g" "h1_lim g = lim" using assms(2,3) by (auto simp: conn_wf_def)
  let ?g = "g\<lparr>h1_out := cn_out c\<rparr>"
  have ag: "\<And>n q. request_ok lim q \<Longrightarrow> h n q = he_handler (ce_engine ce) n q" "\<And>n. length (he_junk (ce_engine ce) n) = n"
    using assms(1) by (auto simp: env_ok_def request_valid_def)
  have f: "zh1_feed ((ce_engine ce)\<lparr>he_handler := h\<rparr>) ?g (cn_in c) = zh1_feed (ce_engine ce) ?g (cn_in c)"
    "case zh1_feed (ce_engine ce) ?g (cn_in c) of (r, c', inp') \<Rightarrow> h1_wf c' \<and> h1_lim c' = lim"
    using feed_handler [OF ag(2,1), where c = ?g and inp = "cn_in c" and n = 0] g(2,3) by (simp_all add: zh1_feed_def)
  show "conn_feed_h1 (with_handler h ce) c (the (cn_h1 c)) work = conn_feed_h1 ce c (the (cn_h1 c)) work"
    by (simp add: conn_feed_h1_def g(1) f(1))
  obtain r g' inp where r: "zh1_feed (ce_engine ce) ?g (cn_in c) = (r, g', inp)" using prod_cases3 by blast
  have "zb_wf (h1_out g')" using feed_keeps [OF r [unfolded zh1_feed_def]] assms(2) by (simp add: h1_keeps_def conn_wf_def)
  then show "conn_feed_h1 ce c (the (cn_h1 c)) work = (c', work') \<Longrightarrow> conn_wf lim c' \<and> cn_proto c' = CONN_H1"
    using f(2) r g assms(2,3) by (auto simp: conn_feed_h1_def conn_wf_def Let_def split: zh1_ret.splits)
qed

lemma feed_h2_ok:
  assumes "env_ok lim ce h" "conn_wf lim c" "cn_proto c = CONN_H2"
  shows "conn_feed_h2 (with_handler h ce) c (the (cn_h2 c)) work = conn_feed_h2 ce c (the (cn_h2 c)) work"
    "conn_feed_h2 ce c (the (cn_h2 c)) work = (c', work') \<Longrightarrow> conn_wf lim c'"
proof -
  obtain g where g: "cn_h2 c = Some g" "h2_wf lim (g\<lparr>h2_out := cn_out c\<rparr>)" using assms(2,3) by (auto simp: conn_wf_def)
  let ?g = "g\<lparr>h2_out := cn_out c\<rparr>"
  have "agree lim (ce_engine ce) h" using assms(1) by (auto simp: env_ok_def agree_def request_valid_def)
  note f = feed_ok [OF this g(2), of "cn_in c"]
  show "conn_feed_h2 (with_handler h ce) c (the (cn_h2 c)) work = conn_feed_h2 ce c (the (cn_h2 c)) work"
    unfolding conn_feed_h2_def g(1) option.sel with_handler_simps start_handler conjunct1 [OF f] by (rule refl)
  obtain r g' inp where r: "zh2_feed (ce_engine ce) ?g (cn_in c) = (r, g', inp)" using prod_cases3 by blast
  define c1 where "c1 = c\<lparr>cn_h2 := Some g', cn_out := h2_out g', cn_in := inp\<rparr>"
  have w: "h2_wf lim g'" using f r by simp
  have c1: "conn_wf lim c1" "cn_proto c1 = CONN_H2" using assms(2,3) w h2_wf_out [OF w] by (auto simp: c1_def conn_wf_def)
  have "conn_wf lim (conn_pump ce c1)" "conn_wf lim (conn_pump ce (c1\<lparr>cn_want_close := True\<rparr>))"
    using conn_pump_wf [of lim c1] conn_pump_wf [of lim "c1\<lparr>cn_want_close := True\<rparr>"] c1 by simp_all
  then show "conn_feed_h2 ce c (the (cn_h2 c)) work = (c', work') \<Longrightarrow> conn_wf lim c'"
    using r c1(1) unfolding conn_feed_h2_def g(1) option.sel r prod.case Let_def c1_def [symmetric]
    by (auto split: zh2_ret.splits if_splits)
qed

lemma conn_feed_ok:
  assumes "env_ok (hv_lim s) ce h" "conn_wf (hv_lim s) c" "\<not> cn_tls_pending c"
  shows "conn_feed (with_handler h ce) s c work = conn_feed ce s c work"
    "conn_feed ce s c work = (c', work') \<Longrightarrow> conn_wf (hv_lim s) c'"
proof -
  define sel where "sel = (if cn_proto c = CONN_UNKNOWN then conn_select_proto_plain ce s c else (True, c))"
  obtain ok c1 where c1: "sel = (ok, c1)" by fastforce
  have w: "conn_wf (hv_lim s) c1" using c1 select_wf(2) [OF assms(2,3), of ce] assms(2) by (auto simp: sel_def split: if_splits)
  show "conn_feed (with_handler h ce) s c work = conn_feed ce s c work"
    unfolding conn_feed_def select_handler sel_def [symmetric] c1 prod.case
    using feed_h1_ok(1) [OF assms(1) w] feed_h2_ok(1) [OF assms(1) w] by (auto split: conn_proto.splits)
  show "conn_feed ce s c work = (c', work') \<Longrightarrow> conn_wf (hv_lim s) c'"
    unfolding conn_feed_def sel_def [symmetric] c1 prod.case
    using w feed_h1_ok(2) [OF assms(1) w] feed_h2_ok(2) [OF assms(1) w] by (auto split: conn_proto.splits if_splits)
qed

lemma conn_wf_consume:
  assumes "conn_wf lim c"
  shows "conn_wf lim (c\<lparr>cn_out := zhs_buf_consume (cn_out c) n\<rparr>)"
proof -
  have z: "zhs_buf_consume zhs_buf_zero n = zhs_buf_zero" by (simp add: zhs_buf_consume_def zhs_buf_zero_def ZHS_AVAIL_def szsub_def)
  have "h2_wf lim (h\<lparr>h2_out := zhs_buf_consume (cn_out c) n\<rparr>)" if "h2_wf lim (h\<lparr>h2_out := cn_out c\<rparr>)" for h
    using drain_wf [OF that, of n] by simp
  then show ?thesis using assms consume_ok [of "cn_out c" n] z by (auto simp: conn_wf_def)
qed

lemma conn_flush_wf:
  "conn_wf lim c \<Longrightarrow> conn_flush now c work = Some (c', work') \<Longrightarrow> conn_wf lim c'"
proof (induction "length (ZHS_PTR (cn_out c))" arbitrary: c work rule: less_induct)
  case less
  show ?case
  proof (cases "ZHS_AVAIL (cn_out c) = 0")
    case True
    then show ?thesis using less.prems by (subst (asm) conn_flush.simps) simp
  next
    case False
    then obtain w s1 where w: "zcio_write (cn_stream c) (Some (ZHS_PTR (cn_out c))) = Some (w, s1)"
      using less.prems(2) by (subst (asm) conn_flush.simps) (auto simp: bind_eq_Some_conv)
    let ?c1 = "c\<lparr>cn_stream := s1, cn_out := zhs_buf_consume (cn_out c) (nat w), cn_activity_ms := now\<rparr>"
    have ne: "ZHS_PTR (cn_out c) \<noteq> []" using False less.prems(1) zb_avail_length [of "cn_out c"] by (simp add: conn_wf_def)
    show ?thesis
    proof (cases "w > 0")
      case True
      then have "conn_flush now ?c1 (work + 1) = Some (c', work')" using less.prems(2) False w by (subst (asm) conn_flush.simps) simp
      moreover have "conn_wf lim ?c1" using conn_wf_consume [of lim "c\<lparr>cn_stream := s1\<rparr>" "nat w"] less.prems(1) by simp
      moreover have "length (ZHS_PTR (cn_out ?c1)) < length (ZHS_PTR (cn_out c))" using consume_shorter [OF ne, of "nat w"] True by simp
      ultimately show ?thesis using less.hyps by blast
    next
      case wb: False
      then show ?thesis using less.prems False w by (subst (asm) conn_flush.simps) (auto split: if_splits)
    qed
  qed
qed

lemma conn_input_wf:
  assumes "conn_wf (hv_lim s) c" "conn_input ce s c rv work = Some (c', work')"
  shows "conn_wf (hv_lim s) c'"
proof (cases "cn_tls_pending c")
  case True
  let ?c = "\<lambda>st. c\<lparr>cn_stream := st, cn_tls_pending := False, cn_activity_ms := ce_now ce\<rparr>"
  have "conn_wf (hv_lim s) (?c st)" for st using assms(1) by (simp add: conn_wf_def)
  then have "conn_wf (hv_lim s) (conn_handshake ce s c)"
    using select_wf(1) [of s "?c st" ce for st] assms(1) by (simp add: conn_handshake_def Let_def split: prod.splits)
  then show ?thesis using assms True by (auto simp: conn_input_def split: if_splits)
next
  case False
  then show ?thesis using assms
    by (auto simp: conn_input_def conn_read_def Let_def bind_eq_Some_conv split: if_splits prod.splits)
qed

lemma input_handler [simp]: "conn_input (with_handler h ce) s c rv work = conn_input ce s c rv work"
  unfolding conn_input_def conn_handshake_def conn_read_def with_handler_simps select_handler env_handler by (rule refl)

lemma head_timing_wf [simp]: "conn_wf lim (conn_update_head_timing c now) = conn_wf lim c"
  by (simp add: conn_update_head_timing_def)

lemma conn_serve_ok:
  assumes "env_ok (hv_lim s) ce h" "conn_wf (hv_lim s) c"
  shows "conn_serve (with_handler h ce) s c work = conn_serve ce s c work"
    "conn_serve ce s c work = (c', work') \<Longrightarrow> conn_wf (hv_lim s) c'"
  using conn_feed_ok [OF assms] assms(2) by (auto simp: conn_serve_def split: prod.splits if_splits)

lemma close_decision_wf [simp]: "conn_wf lim (conn_close_decision c) = conn_wf lim c"
  by (simp add: conn_close_decision_def Let_def)

lemma conn_process_ok:
  assumes "env_ok (hv_lim s) ce h" "conn_wf (hv_lim s) c"
  shows "conn_process (with_handler h ce) s c rv work = conn_process ce s c rv work"
    "conn_process ce s c rv work = Some (c', work') \<Longrightarrow> conn_wf (hv_lim s) c'"
proof -
  define c0 where "c0 = (if rv_err rv \<or> rv_nval rv then c\<lparr>cn_peer_eof := True\<rparr> else c)"
  have c0: "conn_wf (hv_lim s) c0" using assms(2) by (simp add: c0_def)
  have "conn_process (with_handler h ce) s c rv work = conn_process ce s c rv work \<and>
    (conn_process ce s c rv work = Some (c', work') \<longrightarrow> conn_wf (hv_lim s) c')"
  proof (cases "conn_input ce s c0 rv work")
    case None
    then show ?thesis unfolding conn_process_def c0_def [symmetric] by simp
  next
    case (Some a)
    obtain c1 w1 where a: "a = (c1, w1)" by fastforce
    have c1: "conn_wf (hv_lim s) c1" using conn_input_wf [OF c0] Some a by blast
    obtain c2 w2 where sv: "conn_serve ce s c1 w1 = (c2, w2)" by fastforce
    note ok = conn_serve_ok [OF assms(1) c1]
    define c3 where "c3 = (if \<not> cn_dead c2 \<and> cn_proto c2 = CONN_H2 \<and> rv_out rv then conn_pump ce c2 else c2)"
    have c3: "conn_wf (hv_lim s) c3" using ok(2) [OF sv] conn_pump_wf by (auto simp: c3_def)
    have step: "conn_process e s c rv work = do {
        (c4, work4) \<leftarrow> (if \<not> cn_dead c3 \<and> out_pending c3 then conn_flush (ce_now ce) c3 w2 else Some (c3, w2));
        Some (conn_close_decision c4, work4) }" if "e = ce \<or> e = with_handler h ce" for e
      using that Some a sv ok(1) unfolding conn_process_def c0_def [symmetric] by (auto simp: c3_def)
    show ?thesis using step [of ce] step [of "with_handler h ce"] conn_flush_wf [OF c3] c3
      by (auto simp: bind_eq_Some_conv split: if_splits)
  qed
  then show "conn_process (with_handler h ce) s c rv work = conn_process ce s c rv work"
    "conn_process ce s c rv work = Some (c', work') \<Longrightarrow> conn_wf (hv_lim s) c'" by blast+
qed

subsection \<open>Sound servers\<close>

definition server_wf :: "('c, 'q) http_server \<Rightarrow> bool" where
  "server_wf s \<longleftrightarrow> list_all (conn_wf (hv_lim s)) (hv_conns s) \<and> length (hv_conns s) \<le> max_connections (hv_lim s) \<and>
     (hv_stopped s \<longrightarrow> hv_conns s = [] \<and> hv_stopping s) \<and> (hv_stopping s \<longrightarrow> hv_stop_flag s)"

lemma conn_setup_wf: "conn_setup s a redirect = Some c \<Longrightarrow> conn_wf (hv_lim s) c"
proof -
  assume c: "conn_setup s a redirect = Some c"
  have z: "zh1_new m (hv_lim s) f out = Some h \<Longrightarrow> h1_wf h \<and> h1_lim h = hv_lim s" for m f out h
    using h1_new_wf [of m "hv_lim s" f out h] by (auto simp: zh1_new_def split: if_splits)
  show ?thesis using c by (auto simp: conn_setup_def conn_zero_def conn_wf_def Let_def dest: z split: if_splits option.splits)
qed

lemma accept_loop_wf:
  assumes "server_wf s" "\<not> hv_stopped s" "accept_loop as redirect s work = (s', work')"
  shows "server_wf s'" "hv_lim s' = hv_lim s" "hv_stopped s' = hv_stopped s" "\<exists>more. hv_conns s' = hv_conns s @ more"
    "hv_stopping s' = hv_stopping s" "hv_h3 s' = hv_h3 s" "hv_drain_deadline_ms s' = hv_drain_deadline_ms s" "hv_stop_flag s' = hv_stop_flag s"
proof -
  have "server_wf s' \<and> hv_lim s' = hv_lim s \<and> hv_stopped s' = hv_stopped s \<and> (\<exists>more. hv_conns s' = hv_conns s @ more) \<and>
      hv_stopping s' = hv_stopping s \<and> hv_h3 s' = hv_h3 s \<and> hv_drain_deadline_ms s' = hv_drain_deadline_ms s \<and> hv_stop_flag s' = hv_stop_flag s"
    using assms
  proof (induction as arbitrary: s work)
    case (Cons a as)
    show ?case
    proof (cases "length (hv_conns s) \<ge> max_connections (hv_lim s)")
      case True
      then show ?thesis using Cons by simp
    next
      case False
      obtain ok s1 where c: "conn_create s a redirect = (ok, s1)" by fastforce
      have s1: "server_wf s1 \<and> hv_lim s1 = hv_lim s \<and> hv_stopped s1 = hv_stopped s \<and> (\<exists>more. hv_conns s1 = hv_conns s @ more) \<and>
          hv_stopping s1 = hv_stopping s \<and> hv_h3 s1 = hv_h3 s \<and> hv_drain_deadline_ms s1 = hv_drain_deadline_ms s \<and> hv_stop_flag s1 = hv_stop_flag s"
        using c False Cons.prems(1,2) by (auto simp: conn_create_def server_add_conn_def server_wf_def Let_def
            dest: conn_setup_wf split: option.splits prod.splits if_splits)
      with Cons.IH [of s1] Cons.prems(2,3) False c show ?thesis by fastforce
    qed
  qed simp
  then show "server_wf s'" "hv_lim s' = hv_lim s" "hv_stopped s' = hv_stopped s" "\<exists>more. hv_conns s' = hv_conns s @ more"
    "hv_stopping s' = hv_stopping s" "hv_h3 s' = hv_h3 s" "hv_drain_deadline_ms s' = hv_drain_deadline_ms s" "hv_stop_flag s' = hv_stop_flag s"
    by blast+
qed

text \<open>What a step of a turn leaves as it is.\<close>

definition same_phase :: "('c, 'q) http_server \<Rightarrow> ('c, 'q) http_server \<Rightarrow> bool" where
  "same_phase s s' \<longleftrightarrow> hv_lim s' = hv_lim s \<and> hv_stopped s' = hv_stopped s \<and> hv_stopping s' = hv_stopping s \<and>
     hv_drain_deadline_ms s' = hv_drain_deadline_ms s \<and> hv_stop_flag s' = hv_stop_flag s"

lemma same_phase_refl [simp]: "same_phase s s"
  by (simp add: same_phase_def)

lemma same_phase_trans: "same_phase a b \<Longrightarrow> same_phase b c \<Longrightarrow> same_phase a c"
  by (simp add: same_phase_def)

definition grown :: "('c, 'q) http_server \<Rightarrow> ('c, 'q) http_server \<Rightarrow> bool" where
  "grown s s' \<longleftrightarrow> server_wf s' \<and> same_phase s s' \<and> hv_h3 s' = hv_h3 s \<and> (\<exists>more. hv_conns s' = hv_conns s @ more)"

lemma grown_refl: "server_wf s \<Longrightarrow> grown s s"
  by (simp add: grown_def)

lemma grown_trans: "grown a b \<Longrightarrow> grown b c \<Longrightarrow> grown a c"
  by (auto simp: grown_def same_phase_def)

lemma accept_loop_grown:
  "server_wf s \<Longrightarrow> \<not> hv_stopped s \<Longrightarrow> accept_loop as redirect s work = (s', work') \<Longrightarrow> grown s s'"
  unfolding grown_def same_phase_def using accept_loop_wf [of s as redirect work s' work'] by blast

lemma server_accept_ok:
  assumes "server_wf s" "\<not> hv_stopped s" "server_accept tn ready s = (s', w)"
  shows "grown s s'"
proof -
  obtain s1 w1 where s1: "(if ready \<and> \<not> hv_stopping s \<and> hv_listen s \<and> accept_ready (tn_listen tn)
      then accept_loop (tn_accepted tn) False s 0 else (s, 0)) = (s1, w1)" by fastforce
  have a: "grown s s1"
    using s1 accept_loop_grown [OF assms(1,2)] grown_refl [OF assms(1)] by (metis (no_types, lifting) prod.inject)
  then have ns: "\<not> hv_stopped s1" "server_wf s1" using assms(2) by (simp_all add: grown_def same_phase_def)
  have "(if ready \<and> \<not> hv_stopping s \<and> hv_redirect s \<and> accept_ready (tn_redirect tn)
      then accept_loop (tn_accepted_redirect tn) True s1 w1 else (s1, w1)) = (s', w)"
    using assms(3) unfolding server_accept_def s1 Let_def prod.case .
  then have "grown s1 s'"
    using accept_loop_grown [OF ns(2,1)] grown_refl [OF ns(2)] by (metis (no_types, lifting) prod.inject)
  with a show ?thesis by (rule grown_trans)
qed

lemma server_h3_ok: "server_h3 ops s w = (s', w') \<Longrightarrow> server_wf s \<Longrightarrow>
  server_wf s' \<and> same_phase s s' \<and> hv_conns s' = hv_conns s \<and> (hv_h3 s = None \<longrightarrow> hv_h3 s' = None)"
  by (auto simp: server_h3_def server_wf_def same_phase_def split: option.splits prod.splits if_splits)

definition turn_handlers :: "(nat \<Rightarrow> nat \<Rightarrow> zcio_http_req \<Rightarrow> handler_call list) \<Rightarrow> 'c turn \<Rightarrow> 'c turn" where
  "turn_handlers h tn = tn\<lparr>tn_conn := (\<lambda>i. with_handler (h i) (tn_conn tn i))\<rparr>"

lemma turn_handlers_simps:
  "tn_stop (turn_handlers h tn) = tn_stop tn" "tn_stop_now (turn_handlers h tn) = tn_stop_now tn" "tn_alloc (turn_handlers h tn) = tn_alloc tn"
  "tn_before (turn_handlers h tn) = tn_before tn" "tn_poll (turn_handlers h tn) = tn_poll tn" "tn_now (turn_handlers h tn) = tn_now tn"
  "tn_listen (turn_handlers h tn) = tn_listen tn" "tn_redirect (turn_handlers h tn) = tn_redirect tn"
  "tn_accepted (turn_handlers h tn) = tn_accepted tn" "tn_accepted_redirect (turn_handlers h tn) = tn_accepted_redirect tn"
  "tn_revents (turn_handlers h tn) = tn_revents tn" "tn_conn (turn_handlers h tn) i = with_handler (h i) (tn_conn tn i)"
  by (simp_all add: turn_handlers_def)

lemma conn_slices_ok:
  assumes "\<And>i. env_ok (hv_lim s) (tn_conn tn i) (h i)" "list_all (conn_wf (hv_lim s)) cs"
  shows "conn_slices (turn_handlers h tn) s ready i cs w = conn_slices tn s ready i cs w \<and>
    (conn_slices tn s ready i cs w = Some (cs', w') \<longrightarrow> list_all (conn_wf (hv_lim s)) cs' \<and> length cs' = length cs)"
  using assms(2)
proof (induction cs arbitrary: i w cs')
  case (Cons c cs)
  define rv where "rv = (if ready then tn_revents tn i else no_events)"
  have c: "conn_wf (hv_lim s) c" "list_all (conn_wf (hv_lim s)) cs" using Cons.prems by simp_all
  note p = conn_process_ok [OF assms(1) c(1)]
  have e: "tn_conn (turn_handlers h tn) i = with_handler (h i) (tn_conn tn i)" "tn_revents (turn_handlers h tn) = tn_revents tn"
    by (simp_all add: turn_handlers_def)
  have r: "conn_slices t s ready i (c # cs) w = do {
     (c1, work1) \<leftarrow> conn_process (tn_conn t i) s c rv w;
     (cs1, work2) \<leftarrow> conn_slices t s ready (i + 1) cs work1;
     Some (c1 # cs1, work2) }" if "t = tn \<or> t = turn_handlers h tn" for t using that e(2) by (auto simp: rv_def simp del: if_split)
  show ?case
  proof (cases "conn_process (tn_conn tn i) s c rv w")
    case None
    then show ?thesis using p(1) [of i rv w] by (simp add: r e del: conn_slices.simps)
  next
    case (Some a)
    obtain c1 w1 where a: "a = (c1, w1)" by fastforce
    note IH = Cons.IH [OF c(2), of "i + 1" w1]
    have "conn_wf (hv_lim s) c1" using p(2) [of i rv w] Some a by simp
    then show ?thesis using IH Some a p(1) [of i rv w] by (auto simp: r e bind_eq_Some_conv simp del: conn_slices.simps)
  qed
qed simp

lemma graceful_conn_wf: "conn_wf lim c \<Longrightarrow> conn_wf lim (conn_graceful env c)"
proof -
  assume c: "conn_wf lim c"
  have h1: "h1_wf (zh1_graceful h) = h1_wf h" "h1_lim (zh1_graceful h) = h1_lim h" for h
    by (simp_all add: zh1_graceful_def h1_wf_def h1_st_ok_def body_len_def)
  show ?thesis
  proof (cases "cn_proto c")
    case CONN_H2
    then obtain h where h: "cn_h2 c = Some h" "h2_wf lim (h\<lparr>h2_out := cn_out c\<rparr>)" using c by (auto simp: conn_wf_def)
    note g = graceful_wf [OF h(2), of env]
    from g h2_wf_out [OF g] CONN_H2 h(1) c show ?thesis by (auto simp: conn_graceful_def conn_wf_def Let_def)
  next
    case CONN_H1
    then obtain h where "cn_h1 c = Some h" "h1_wf h \<and> h1_lim h = lim" using c by (auto simp: conn_wf_def)
    then show ?thesis using c h1 CONN_H1 by (simp add: conn_graceful_def conn_wf_def)
  qed (use c in \<open>simp add: conn_graceful_def\<close>)
qed

lemma begin_stop_ok:
  assumes "server_wf s" "hv_stop_flag s"
  shows "server_wf (begin_stop ops tn s)" "begin_stop ops (turn_handlers h tn) s = begin_stop ops tn s"
proof -
  have "conn_wf lim (conn_graceful env c)" if "(i, c) \<in> set (List.enumerate 0 (hv_conns s))" "list_all (conn_wf lim) (hv_conns s)" for lim env i c
    using that graceful_conn_wf [of lim c env] by (auto simp: in_set_enumerate_eq list_all_iff)
  then show "server_wf (begin_stop ops tn s)" using assms by (auto simp: server_wf_def begin_stop_def list_all_iff)
  have g: "(\<lambda>(i, c). conn_graceful (ce_engine (tn_conn (turn_handlers h tn) i)) c) = (\<lambda>(i, c). conn_graceful (ce_engine (tn_conn tn i)) c)"
    by (simp add: fun_eq_iff conn_graceful_def turn_handlers_simps Let_def split: option.splits conn_proto.splits)
  show "begin_stop ops (turn_handlers h tn) s = begin_stop ops tn s" unfolding begin_stop_def turn_handlers_simps(2) g by (rule refl)
qed

lemma server_tidy_ok:
  assumes "server_wf s" "\<not> hv_stopped s"
  shows "server_wf (server_tidy tn nc s)" "same_phase s (server_tidy tn nc s)" "hv_h3 (server_tidy tn nc s) = hv_h3 s"
proof -
  define cs where "cs = map (sweep (hv_lim s) (tn_now tn)) (take nc (hv_conns s)) @ drop nc (hv_conns s)"
  define ds where "ds = (if hv_stopping s then map (drain_conn (tn_now tn \<ge> hv_drain_deadline_ms s)) cs else cs)"
  have e: "server_tidy tn nc s = s\<lparr>hv_conns := filter (\<lambda>c. \<not> cn_dead c) ds\<rparr>"
    by (simp add: server_tidy_def server_remove_dead_def cs_def [symmetric] ds_def [symmetric])
  have w: "list_all (conn_wf (hv_lim s)) (hv_conns s)" "length (hv_conns s) \<le> max_connections (hv_lim s)"
    using assms(1) by (simp_all add: server_wf_def)
  have "length cs = length (hv_conns s)" unfolding cs_def length_append length_map by (simp add: min_def)
  moreover have "list_all (conn_wf (hv_lim s)) cs" using w(1)
    unfolding cs_def by (auto simp: list_all_iff sweep_def dest: in_set_takeD in_set_dropD)
  ultimately have d: "length ds \<le> max_connections (hv_lim s)" "list_all (conn_wf (hv_lim s)) ds"
    using w(2) by (auto simp: ds_def list_all_iff drain_conn_def)
  then show "server_wf (server_tidy tn nc s)" unfolding e using assms(1,2) le_trans [OF length_filter_le d(1)]
    by (auto simp: server_wf_def list_all_iff)
  show "same_phase s (server_tidy tn nc s)" "hv_h3 (server_tidy tn nc s) = hv_h3 s" unfolding e by (simp_all add: same_phase_def)
qed

text \<open>A turn: the same for handlers that agree on valid requests, and the server stays sound.\<close>

lemma server_turn_ok:
  assumes "server_wf s" "\<not> hv_stopped s" "\<And>i. env_ok (hv_lim s) (tn_conn tn i) (h i)"
  shows "server_turn ops (turn_handlers h tn) s ready = server_turn ops tn s ready"
    and "server_turn ops tn s ready = Some (r, s') \<Longrightarrow> server_wf s' \<and> hv_lim s' = hv_lim s \<and> hv_stopping s' = hv_stopping s \<and>
      hv_stop_flag s' = hv_stop_flag s \<and> hv_drain_deadline_ms s' = hv_drain_deadline_ms s \<and> (hv_h3 s = None \<longrightarrow> hv_h3 s' = None) \<and>
      (r = zcode ZCIO_ERR_EOF \<and> hv_stopping s \<and> hv_stopped s' \<and> hv_conns s' = [] \<or> r \<ge> 0 \<and> \<not> hv_stopped s')"
proof -
  obtain s1 w1 where a: "server_accept tn ready s = (s1, w1)" by fastforce
  note s1 = server_accept_ok [OF assms(1,2) a]
  obtain s2 w2 where q: "server_h3 ops s1 w1 = (s2, w2)" by fastforce
  note s2 = server_h3_ok [OF q conjunct1 [OF s1 [unfolded grown_def]]]
  let ?nc = "length (hv_conns s)"
  have ph: "same_phase s s2" using s1 s2 by (auto simp: grown_def intro: same_phase_trans)
  then have lim: "hv_lim s2 = hv_lim s" "\<not> hv_stopped s2" using assms(2) by (simp_all add: same_phase_def)
  obtain more where more: "hv_conns s2 = hv_conns s @ more" using s1 s2 by (auto simp: grown_def)
  have w: "list_all (conn_wf (hv_lim s2)) (take ?nc (hv_conns s2))" "list_all (conn_wf (hv_lim s2)) (drop ?nc (hv_conns s2))"
    using s2 by (auto simp: server_wf_def list_all_iff dest: in_set_takeD in_set_dropD)
  have env: "\<And>i. env_ok (hv_lim s2) (tn_conn tn i) (h i)" using assms(3) lim(1) by simp
  note sl = conn_slices_ok [where s = s2 and tn = tn, OF env w(1), of ready 0 w2]
  have a': "server_accept (turn_handlers h tn) ready s = (s1, w1)" using a by (simp only: server_accept_def turn_handlers_simps)
  have t': "server_tidy (turn_handlers h tn) = server_tidy tn" by (simp only: fun_eq_iff server_tidy_def turn_handlers_simps simp_thms)
  show "server_turn ops (turn_handlers h tn) s ready = server_turn ops tn s ready"
    unfolding server_turn_def a a' Let_def prod.case q t' conjunct1 [OF sl] by (rule refl)
  assume t: "server_turn ops tn s ready = Some (r, s')"
  then obtain cs w3 where cs: "conn_slices tn s2 ready 0 (take ?nc (hv_conns s2)) w2 = Some (cs, w3)"
    unfolding server_turn_def a Let_def prod.case q by (auto simp: bind_eq_Some_conv)
  define s3 where "s3 = server_tidy tn ?nc (s2\<lparr>hv_conns := cs @ drop ?nc (hv_conns s2)\<rparr>)"
  have c: "list_all (conn_wf (hv_lim s2)) cs" "length cs = ?nc" using sl cs more by auto
  have "length (cs @ drop ?nc (hv_conns s2)) = length (hv_conns s2)" using c(2) more by simp
  then have "server_wf (s2\<lparr>hv_conns := cs @ drop ?nc (hv_conns s2)\<rparr>)"
    using conjunct1 [OF s2] c(1) w(2) lim(2) unfolding server_wf_def by simp
  note s3 = server_tidy_ok [OF this, of tn ?nc, folded s3_def]
  have r: "(r, s') = (if hv_stopping s3 \<and> hv_conns s3 = [] \<and> (case hv_h3 s3 of None \<Rightarrow> True | Some q \<Rightarrow> q3_idle ops q)
      then (zcode ZCIO_ERR_EOF, s3\<lparr>hv_stopped := True\<rparr>) else (int w3, s3))"
    using t [symmetric] unfolding server_turn_def a Let_def prod.case q cs Option.bind_lunit s3_def [symmetric] by (rule option.inject [THEN iffD1])
  have f: "server_wf s3" "same_phase s s3" "hv_h3 s = None \<longrightarrow> hv_h3 s3 = None"
    using s3 lim ph s1 s2 by (auto simp: same_phase_def grown_def)
  show "server_wf s' \<and> hv_lim s' = hv_lim s \<and> hv_stopping s' = hv_stopping s \<and>
      hv_stop_flag s' = hv_stop_flag s \<and> hv_drain_deadline_ms s' = hv_drain_deadline_ms s \<and> (hv_h3 s = None \<longrightarrow> hv_h3 s' = None) \<and>
      (r = zcode ZCIO_ERR_EOF \<and> hv_stopping s \<and> hv_stopped s' \<and> hv_conns s' = [] \<or> r \<ge> 0 \<and> \<not> hv_stopped s')"
    using r f assms(2) by (auto simp: same_phase_def server_wf_def split: if_splits)
qed

subsection \<open>A turn of the public loop\<close>

text \<open>What is done before \<open>poll\<close>: the stop flag is taken up.\<close>

definition stop_prologue :: "'q h3_ops \<Rightarrow> 'c turn \<Rightarrow> ('c, 'q) http_server \<Rightarrow> ('c, 'q) http_server" where
  "stop_prologue ops tn s =
     (let s0 = (if tn_stop tn then s\<lparr>hv_stop_flag := True\<rparr> else s) in
      if hv_stop_flag s0 \<and> \<not> hv_stopping s0 then begin_stop ops tn s0 else s0)"

lemma poll_prologue:
  "server_poll ops tn s t =
     (if hv_stopped s then Some (zcode ZCIO_ERR_EOF, s)
      else (case ensure_pollset (tn_alloc tn) (stop_prologue ops tn s) (length (hv_conns (stop_prologue ops tn s)) + 4) of
          (r, s2) \<Rightarrow>
            if r \<noteq> ZCIO_OK then Some (zcode ZCIO_ERR_NOMEM, s2)
            else if tn_poll tn (poll_timeout ops s2 (tn_before tn) t) < 0 then Some (zcode ZCIO_ERR, s2)
            else server_turn ops tn s2 (tn_poll tn (poll_timeout ops s2 (tn_before tn) t) > 0)))"
  unfolding server_poll_def stop_prologue_def Let_def by (rule refl)

lemma prologue_ok:
  assumes "server_wf s" "\<not> hv_stopped s"
  shows "server_wf (stop_prologue ops tn s)" "stop_prologue ops (turn_handlers h tn) s = stop_prologue ops tn s"
    "hv_lim (stop_prologue ops tn s) = hv_lim s" "hv_tls (stop_prologue ops tn s) = hv_tls s" "hv_stopped (stop_prologue ops tn s) = hv_stopped s"
    "hv_h3 s = None \<Longrightarrow> hv_h3 (stop_prologue ops tn s) = None"
proof -
  define s0 where "s0 = (if tn_stop tn then s\<lparr>hv_stop_flag := True\<rparr> else s)"
  have s0: "server_wf s0" "hv_lim s0 = hv_lim s" "hv_stopped s0 = hv_stopped s" "hv_h3 s0 = hv_h3 s" "hv_tls s0 = hv_tls s"
    using assms by (auto simp: s0_def server_wf_def)
  have e: "stop_prologue ops t s = (if hv_stop_flag s0 \<and> \<not> hv_stopping s0 then begin_stop ops t s0 else s0)" if "t = tn \<or> t = turn_handlers h tn" for t
    using that by (auto simp: stop_prologue_def s0_def turn_handlers_simps)
  have b: "hv_lim (begin_stop ops t s0) = hv_lim s0" "hv_stopped (begin_stop ops t s0) = hv_stopped s0" "hv_tls (begin_stop ops t s0) = hv_tls s0"
    "hv_h3 s0 = None \<Longrightarrow> hv_h3 (begin_stop ops t s0) = None" for t by (simp_all add: begin_stop_def)
  show "server_wf (stop_prologue ops tn s)" "stop_prologue ops (turn_handlers h tn) s = stop_prologue ops tn s"
    "hv_lim (stop_prologue ops tn s) = hv_lim s" "hv_stopped (stop_prologue ops tn s) = hv_stopped s" "hv_tls (stop_prologue ops tn s) = hv_tls s"
    "hv_h3 s = None \<Longrightarrow> hv_h3 (stop_prologue ops tn s) = None"
    using s0 b begin_stop_ok [OF s0(1)] by (auto simp: e)
qed

lemma ensure_pollset_keeps:
  "ensure_pollset alloc s need = (r, s') \<Longrightarrow> \<exists>n. s' = s\<lparr>hv_pollset_cap := n\<rparr>"
  "(\<And>n. alloc n) \<Longrightarrow> fst (ensure_pollset alloc s need) = ZCIO_OK"
proof -
  have "s = s\<lparr>hv_pollset_cap := hv_pollset_cap s\<rparr>" by simp
  then show "ensure_pollset alloc s need = (r, s') \<Longrightarrow> \<exists>n. s' = s\<lparr>hv_pollset_cap := n\<rparr>"
    unfolding ensure_pollset_def Let_def by (metis prod.inject)
qed (simp add: ensure_pollset_def Let_def)

lemma pollset_wf [simp]: "server_wf (s\<lparr>hv_pollset_cap := n\<rparr>) = server_wf s"
  by (simp add: server_wf_def)

lemma poll_ok:
  assumes "server_wf s" "\<And>i. env_ok (hv_lim s) (tn_conn tn i) (h i)"
  shows "server_poll ops (turn_handlers h tn) s t = server_poll ops tn s t"
    "server_poll ops tn s t = Some (r, s') \<Longrightarrow> server_wf s' \<and> hv_lim s' = hv_lim s"
proof -
  have "server_poll ops (turn_handlers h tn) s t = server_poll ops tn s t \<and>
    (server_poll ops tn s t = Some (r, s') \<longrightarrow> server_wf s' \<and> hv_lim s' = hv_lim s)"
  proof (cases "hv_stopped s")
    case True
    then show ?thesis using assms(1) by (auto simp: server_poll_def)
  next
    case False
    note p = prologue_ok [OF assms(1) False]
    obtain q s2 where q: "ensure_pollset (tn_alloc tn) (stop_prologue ops tn s) (length (hv_conns (stop_prologue ops tn s)) + 4) = (q, s2)" by fastforce
    from ensure_pollset_keeps(1) [OF q] p False
    have s2: "server_wf s2" "hv_lim s2 = hv_lim s" "\<not> hv_stopped s2" by auto
    have env: "\<And>i. env_ok (hv_lim s2) (tn_conn tn i) (h i)" using assms(2) s2(2) by simp
    note tu = server_turn_ok [OF s2(1,3) env]
    show ?thesis
      unfolding poll_prologue turn_handlers_simps p(2) q prod.case tu(1)
      using s2 tu(2) [of ops _ r s'] False by (auto split: if_splits)
  qed
  then show "server_poll ops (turn_handlers h tn) s t = server_poll ops tn s t"
    "server_poll ops tn s t = Some (r, s') \<Longrightarrow> server_wf s' \<and> hv_lim s' = hv_lim s" by blast+
qed

subsection \<open>Reachable servers\<close>

text \<open>The environment hands out uninitialised memory of the size asked for.\<close>

definition turn_ok :: "'c turn \<Rightarrow> bool" where
  "turn_ok tn \<longleftrightarrow> (\<forall>i n. length (he_junk (ce_engine (tn_conn tn i)) n) = n)"

inductive server_reach :: "'q h3_ops \<Rightarrow> ('c, 'q) http_server \<Rightarrow> bool" for ops where
  reach_start: "zcio_http_server_start env cfg = Some s \<Longrightarrow> server_reach ops s"
| reach_poll: "server_reach ops s \<Longrightarrow> turn_ok tn \<Longrightarrow> zcio_http_server_poll ops tn (Some s) t = Some (r, Some s') \<Longrightarrow> server_reach ops s'"
| reach_stop: "server_reach ops s \<Longrightarrow> zcio_http_server_stop (Some s) = Some s' \<Longrightarrow> server_reach ops s'"

inductive_cases server_reach_cases: "server_reach ops s"

lemma start_wf: "zcio_http_server_start env cfg = Some s \<Longrightarrow> server_wf s"
  by (auto simp: zcio_http_server_start_def server_wf_def Let_def split: if_splits sum.splits)

lemma server_reach_wf: "server_reach ops s \<Longrightarrow> server_wf s"
proof (induction rule: server_reach.induct)
  case (reach_poll s tn t r s')
  have "\<And>i. env_ok (hv_lim s) (tn_conn tn i) (he_handler (ce_engine (tn_conn tn i)))"
    using reach_poll.hyps(2) by (simp add: turn_ok_def env_ok_def)
  from poll_ok(2) [OF reach_poll.IH this] reach_poll.hyps(3) show ?case by (auto simp: zcio_http_server_poll_def)
qed (auto simp: zcio_http_server_stop_def server_wf_def dest: start_wf)

subsection \<open>Which connections survive a turn\<close>

definition just_accepted :: "('c, 'q) http_server \<Rightarrow> 'c turn \<Rightarrow> 'c conn \<Rightarrow> bool" where
  "just_accepted s tn c \<longleftrightarrow> (\<exists>a\<in>set (tn_accepted tn). conn_setup s a False = Some c) \<or>
     (\<exists>a\<in>set (tn_accepted_redirect tn). conn_setup s a True = Some c)"

lemma conn_setup_same:
  assumes "hv_lim s' = hv_lim s" "hv_tls s' = hv_tls s"
  shows "conn_setup s' = conn_setup s"
  by (intro ext, unfold conn_setup_def assms) (rule refl)

definition accepted_from :: "'c accepted list \<Rightarrow> bool \<Rightarrow> ('c, 'q) http_server \<Rightarrow> ('c, 'q) http_server \<Rightarrow> bool" where
  "accepted_from as redirect s s' \<longleftrightarrow> hv_lim s' = hv_lim s \<and> hv_tls s' = hv_tls s \<and>
     (\<exists>more. hv_conns s' = hv_conns s @ more \<and> (\<forall>c\<in>set more. \<exists>a\<in>set as. conn_setup s a redirect = Some c))"

lemma conn_create_from: "conn_create s a redirect = (ok, s') \<Longrightarrow> accepted_from [a] redirect s s'"
  by (auto simp: conn_create_def server_add_conn_def accepted_from_def Let_def split: option.splits if_splits)

lemma accepted_from_trans:
  assumes "accepted_from as redirect s s1" "accepted_from bs redirect s1 s2"
  shows "accepted_from (as @ bs) redirect s s2"
proof -
  have "conn_setup s1 = conn_setup s" using assms(1) by (intro conn_setup_same) (simp_all add: accepted_from_def)
  with assms show ?thesis unfolding accepted_from_def by (fastforce simp: ball_Un)
qed

lemma accept_loop_from: "accept_loop as redirect s w = (s', w') \<Longrightarrow> accepted_from as redirect s s'"
proof (induction as arbitrary: s w)
  case (Cons a as)
  show ?case
  proof (cases "length (hv_conns s) \<ge> max_connections (hv_lim s)")
    case True
    then show ?thesis using Cons by (fastforce simp: accepted_from_def)
  next
    case False
    obtain ok s1 where c: "conn_create s a redirect = (ok, s1)" by fastforce
    from accepted_from_trans [OF conn_create_from [OF c], of as s'] Cons.IH [of s1] Cons.prems False c show ?thesis by simp
  qed
qed (simp add: accepted_from_def)

lemma accept_skip: "accepted_from as redirect s s"
  by (simp add: accepted_from_def)

lemma server_accept_from:
  assumes "server_accept tn ready s = (s', w)"
  shows "\<exists>more. hv_conns s' = hv_conns s @ more \<and> (\<forall>c\<in>set more. just_accepted s tn c)"
proof -
  obtain s1 w1 where s1: "(if ready \<and> \<not> hv_stopping s \<and> hv_listen s \<and> accept_ready (tn_listen tn)
      then accept_loop (tn_accepted tn) False s 0 else (s, 0)) = (s1, w1)" by fastforce
  have a: "accepted_from (tn_accepted tn) False s s1"
    using s1 accept_loop_from accept_skip by (metis (no_types, lifting) prod.inject)
  have "(if ready \<and> \<not> hv_stopping s \<and> hv_redirect s \<and> accept_ready (tn_redirect tn)
      then accept_loop (tn_accepted_redirect tn) True s1 w1 else (s1, w1)) = (s', w)"
    using assms unfolding server_accept_def s1 Let_def prod.case .
  then have b: "accepted_from (tn_accepted_redirect tn) True s1 s'"
    using accept_loop_from accept_skip by (metis (no_types, lifting) prod.inject)
  have "conn_setup s1 = conn_setup s" using a by (intro conn_setup_same) (simp_all add: accepted_from_def)
  with a b show ?thesis unfolding accepted_from_def just_accepted_def by (fastforce simp: ball_Un)
qed

lemma tidy_survivors:
  assumes "c \<in> set (hv_conns (server_tidy tn nc s))"
  shows "\<not> cn_dead c" "tn_now tn < conn_deadline_ms (hv_lim s) c \<or> c \<in> set (drop nc (hv_conns s))"
    "hv_stopping s \<Longrightarrow> \<not> conn_drained c \<and> tn_now tn < hv_drain_deadline_ms s"
proof -
  define cs where "cs = map (sweep (hv_lim s) (tn_now tn)) (take nc (hv_conns s)) @ drop nc (hv_conns s)"
  have c: "\<not> cn_dead c" "c \<in> set (if hv_stopping s then map (drain_conn (tn_now tn \<ge> hv_drain_deadline_ms s)) cs else cs)"
    using assms unfolding server_tidy_def server_remove_dead_def cs_def [symmetric] Let_def by simp_all
  then have d: "c \<in> set cs" "hv_stopping s \<Longrightarrow> \<not> conn_drained c \<and> tn_now tn < hv_drain_deadline_ms s"
    by (auto simp: drain_conn_def split: if_splits)
  then have "c \<in> set (drop nc (hv_conns s)) \<or> (\<exists>b. c = sweep (hv_lim s) (tn_now tn) b)" by (auto simp: cs_def)
  moreover have "cn_dead (sweep L n b) \<or> n < conn_deadline_ms L (sweep L n b)" for L n and b :: "'a conn" by (simp add: sweep_def)
  ultimately show "\<not> cn_dead c" "tn_now tn < conn_deadline_ms (hv_lim s) c \<or> c \<in> set (drop nc (hv_conns s))"
    "hv_stopping s \<Longrightarrow> \<not> conn_drained c \<and> tn_now tn < hv_drain_deadline_ms s" using c(1) d by metis+
qed

definition survives :: "('c, 'q) http_server \<Rightarrow> 'c turn \<Rightarrow> ('c, 'q) http_server \<Rightarrow> 'c conn \<Rightarrow> bool" where
  "survives s tn s' c \<longleftrightarrow> \<not> cn_dead c \<and> (tn_now tn < conn_deadline_ms (hv_lim s') c \<or> just_accepted s tn c) \<and>
     (hv_stopping s' \<longrightarrow> \<not> conn_drained c \<and> tn_now tn < hv_drain_deadline_ms s')"

lemma turn_survivors:
  assumes "server_wf s" "\<not> hv_stopped s" "turn_ok tn" "server_turn ops tn s ready = Some (r, s')" "c \<in> set (hv_conns s')"
  shows "survives s tn s' c"
proof -
  obtain s1 w1 where a: "server_accept tn ready s = (s1, w1)" by fastforce
  obtain s2 w2 where q: "server_h3 ops s1 w1 = (s2, w2)" by fastforce
  note s1 = server_accept_ok [OF assms(1,2) a]
  have s2: "server_wf s2" "hv_conns s2 = hv_conns s1" "hv_lim s2 = hv_lim s1"
    using server_h3_ok [OF q] s1 by (auto simp: grown_def same_phase_def)
  let ?nc = "length (hv_conns s)"
  obtain cs w3 where cs: "conn_slices tn s2 ready 0 (take ?nc (hv_conns s2)) w2 = Some (cs, w3)"
    using assms(4) unfolding server_turn_def a Let_def prod.case q by (auto simp: bind_eq_Some_conv)
  define b where "b = s2\<lparr>hv_conns := cs @ drop ?nc (hv_conns s2)\<rparr>"
  define s3 where "s3 = server_tidy tn ?nc b"
  have "(r, s') = (if hv_stopping s3 \<and> hv_conns s3 = [] \<and> (case hv_h3 s3 of None \<Rightarrow> True | Some q \<Rightarrow> q3_idle ops q)
      then (zcode ZCIO_ERR_EOF, s3\<lparr>hv_stopped := True\<rparr>) else (int w3, s3))"
    using assms(4) [symmetric] unfolding server_turn_def a Let_def prod.case q cs Option.bind_lunit b_def [symmetric] s3_def [symmetric]
    by (rule option.inject [THEN iffD1])
  with assms(5) have s': "s' = s3" by (auto split: if_splits)
  have env: "\<And>i. env_ok (hv_lim s2) (tn_conn tn i) (he_handler (ce_engine (tn_conn tn i)))"
    using assms(3) by (simp add: turn_ok_def env_ok_def)
  have w: "list_all (conn_wf (hv_lim s2)) (take ?nc (hv_conns s2))"
    using s2(1) by (auto simp: server_wf_def list_all_iff dest: in_set_takeD)
  obtain more where more: "hv_conns s1 = hv_conns s @ more" "\<forall>c\<in>set more. just_accepted s tn c" using server_accept_from [OF a] by blast
  have "length cs = ?nc" using conn_slices_ok [where s = s2 and tn = tn, OF env w, of ready 0 w2] cs s2(2) more(1) by auto
  then have "set (drop ?nc (hv_conns b)) = set more" using s2(2) more(1) by (simp add: b_def)
  moreover have "same_phase b s3" by (auto simp: same_phase_def s3_def server_tidy_def server_remove_dead_def Let_def)
  ultimately show ?thesis using tidy_survivors [of c tn ?nc b, folded s3_def] assms(5) more(2)
    by (auto simp: survives_def s' same_phase_def)
qed

lemma prologue_accepted: "hv_lim s' = hv_lim s \<Longrightarrow> hv_tls s' = hv_tls s \<Longrightarrow> just_accepted s' tn c = just_accepted s tn c"
  using conn_setup_same [of s' s] by (simp add: just_accepted_def)

lemma poll_survivors:
  assumes "server_wf s" "turn_ok tn" "server_poll ops tn s t = Some (r, s')" "r \<ge> 0" "c \<in> set (hv_conns s')"
  shows "survives s tn s' c"
proof -
  have ns: "\<not> hv_stopped s" using assms(3,4) by (auto simp: server_poll_def)
  note p = prologue_ok [OF assms(1) ns]
  obtain q s2 where q: "ensure_pollset (tn_alloc tn) (stop_prologue ops tn s) (length (hv_conns (stop_prologue ops tn s)) + 4) = (q, s2)" by fastforce
  from ensure_pollset_keeps(1) [OF q] p ns
  have s2: "server_wf s2" "\<not> hv_stopped s2" "hv_lim s2 = hv_lim s" "hv_tls s2 = hv_tls s" by auto
  from assms(3) obtain ready where "server_turn ops tn s2 ready = Some (r, s')"
    unfolding poll_prologue q prod.case using assms(4) ns by (auto split: if_splits)
  from turn_survivors [OF s2(1,2) assms(2) this assms(5)] show ?thesis
    using prologue_accepted [OF s2(3,4)] by (simp add: survives_def)
qed

subsection \<open>The loop comes to its end\<close>

text \<open>Streams whose callbacks always return, as those of non-blocking sockets do.\<close>

definition answers :: "'c zcio_stream option \<Rightarrow> bool" where
  "answers st \<longleftrightarrow> (case st of
       None \<Rightarrow> True
     | Some s \<Rightarrow> (\<forall>f c n. vt_read (vt s) = Some f \<longrightarrow> f c n \<noteq> None) \<and> (\<forall>f c p. vt_write (vt s) = Some f \<longrightarrow> f c p \<noteq> None))"

lemma answers_None [simp]: "answers None"
  by (simp add: answers_def)

lemma answers_ctx: "answers (Some (s\<lparr>ctx := c\<rparr>)) = answers (Some s)"
  by (simp add: answers_def)

lemma answers_read:
  assumes "answers st"
  shows "\<exists>r d st'. zcio_read st dst n = Some (r, d, st') \<and> answers st'"
proof (cases st)
  case (Some s)
  have "\<exists>r d c. f (ctx s) n = Some (r, d, c)" if "vt_read (vt s) = Some f" for f
    using assms that unfolding Some answers_def option.case by (metis not_Some_eq prod_cases3)
  then show ?thesis using assms by (cases "vt_read (vt s)") (fastforce simp: Some zcio_read_def answers_ctx)+
qed (simp add: zcio_read_def)

lemma answers_write:
  assumes "answers st"
  shows "\<exists>r st'. zcio_write st (Some p) = Some (r, st') \<and> answers st'"
proof (cases st)
  case (Some s)
  have "\<exists>r c. f (ctx s) p = Some (r, c)" if "vt_write (vt s) = Some f" for f
    using assms that unfolding Some answers_def option.case by (metis not_Some_eq surj_pair)
  then show ?thesis using assms by (cases "vt_write (vt s)") (fastforce simp: Some zcio_write_def answers_ctx)+
qed (simp add: zcio_write_def)

text \<open>An environment of a connection that keeps the streams so, and a turn in which the system grants everything.\<close>

definition env_answers :: "'c conn_env \<Rightarrow> bool" where
  "env_answers ce \<longleftrightarrow> (\<forall>st. answers st \<longrightarrow> answers (snd (ce_handshake ce st)) \<and> answers (ce_accept ce st))"

definition turn_answers :: "'c turn \<Rightarrow> bool" where
  "turn_answers tn \<longleftrightarrow> turn_ok tn \<and> (\<forall>i. env_answers (tn_conn tn i)) \<and> (\<forall>t. tn_poll tn t \<ge> 0) \<and> (\<forall>n. tn_alloc tn n) \<and>
     (\<forall>a\<in>set (tn_accepted tn @ tn_accepted_redirect tn). answers (ac_stream a) \<and> answers (ac_tls a))"

lemma flush_answers:
  "zb_wf (cn_out c) \<Longrightarrow> answers (cn_stream c) \<Longrightarrow> \<exists>c' w'. conn_flush now c w = Some (c', w') \<and> answers (cn_stream c')"
proof (induction "length (ZHS_PTR (cn_out c))" arbitrary: c w rule: less_induct)
  case less
  show ?case
  proof (cases "ZHS_AVAIL (cn_out c) = 0")
    case True
    then show ?thesis using less.prems by (subst conn_flush.simps) simp
  next
    case False
    obtain r s1 where w: "zcio_write (cn_stream c) (Some (ZHS_PTR (cn_out c))) = Some (r, s1)" "answers s1"
      using answers_write [OF less.prems(2)] by blast
    let ?c1 = "c\<lparr>cn_stream := s1, cn_out := zhs_buf_consume (cn_out c) (nat r), cn_activity_ms := now\<rparr>"
    have ne: "ZHS_PTR (cn_out c) \<noteq> []" using False less.prems(1) zb_avail_length [of "cn_out c"] by simp
    show ?thesis
    proof (cases "r > 0")
      case True
      have "length (ZHS_PTR (cn_out ?c1)) < length (ZHS_PTR (cn_out c))" using consume_shorter [OF ne, of "nat r"] True by simp
      moreover have "zb_wf (cn_out ?c1)" using consume_ok [OF less.prems(1), of "nat r"] by simp
      ultimately show ?thesis using less.hyps [of ?c1 "w + 1"] w True False by (subst conn_flush.simps) simp
    qed (use False w in \<open>subst conn_flush.simps, auto\<close>)
  qed
qed

lemma select_stream:
  "cn_stream (conn_start_h1 ce s c) = cn_stream c" "cn_stream (conn_start_h2 ce s c) = cn_stream c"
  "cn_stream (conn_select_proto_tls ce s c) = cn_stream c" "cn_stream (snd (conn_select_proto_plain ce s c)) = cn_stream c"
  "cn_stream (conn_pump ce c) = cn_stream c" "cn_stream (conn_update_head_timing c now) = cn_stream c" "cn_stream (conn_close_decision c) = cn_stream c"
  by (simp_all add: conn_start_h1_def conn_start_h2_def conn_select_proto_tls_def conn_select_proto_plain_def conn_pump_def
      conn_update_head_timing_def conn_close_decision_def Let_def split: option.splits)

lemma input_answers:
  assumes "env_answers ce" "answers (cn_stream c)"
  shows "\<exists>c' w'. conn_input ce s c rv w = Some (c', w') \<and> answers (cn_stream c')"
proof -
  obtain hr st where st: "ce_handshake ce (cn_stream c) = (hr, st)" by fastforce
  have "cn_stream (conn_handshake ce s c) = st" by (simp add: conn_handshake_def st Let_def select_stream)
  moreover have "answers st" using assms st by (metis env_answers_def snd_conv)
  ultimately have h: "answers (cn_stream (conn_handshake ce s c))" by simp
  obtain r d st where "zcio_read (cn_stream c) True READ_SCRATCH = Some (r, d, st)" "answers st"
    using answers_read [OF assms(2)] by blast
  then have "\<exists>c' w'. conn_read ce c w = Some (c', w') \<and> answers (cn_stream c')"
    by (auto simp: conn_read_def Let_def split: prod.splits)
  then show ?thesis using h assms(2) by (auto simp: conn_input_def)
qed

lemma serve_answers:
  assumes "env_answers ce" "answers (cn_stream c)" "conn_serve ce s c w = (c', w')"
  shows "answers (cn_stream c')"
proof -
  have f1: "cn_stream (fst (conn_feed_h1 ce b h w)) \<in> {None, ce_accept ce (cn_stream b)}" for b h w
  proof -
    obtain r h1 inp where "zh1_feed (ce_engine ce) (h\<lparr>h1_out := cn_out b\<rparr>) (cn_in b) = (r, h1, inp)" using prod_cases3 by blast
    then show ?thesis by (cases r) (simp_all add: conn_feed_h1_def)
  qed
  have f2: "cn_stream (fst (conn_feed_h2 ce b h w)) = cn_stream b" for b h w
  proof -
    obtain r h1 inp where "zh2_feed (ce_engine ce) (h\<lparr>h2_out := cn_out b\<rparr>) (cn_in b) = (r, h1, inp)" using prod_cases3 by blast
    then show ?thesis by (cases r) (simp_all add: conn_feed_h2_def select_stream)
  qed
  have "conn_feed ce s c w = (b', w') \<Longrightarrow> answers (cn_stream b')" for b' w'
  proof -
    assume f: "conn_feed ce s c w = (b', w')"
    obtain ok c1 where c1: "(if cn_proto c = CONN_UNKNOWN then conn_select_proto_plain ce s c else (True, c)) = (ok, c1)" by fastforce
    then have "cn_stream c1 = cn_stream c" using select_stream(4) [of ce s c] by (auto split: if_splits)
    then have a: "answers (cn_stream c1)" "answers (ce_accept ce (cn_stream c1))" using assms(1,2) by (simp_all add: env_answers_def)
    have e: "conn_feed ce s c w = (if \<not> ok \<or> cn_dead c1 then (c1, w)
          else (case cn_proto c1 of
              CONN_H1 \<Rightarrow> conn_feed_h1 ce c1 (the (cn_h1 c1)) w
            | CONN_H2 \<Rightarrow> conn_feed_h2 ce c1 (the (cn_h2 c1)) w
            | CONN_UNKNOWN \<Rightarrow> (c1, w)))" unfolding conn_feed_def c1 prod.case by (rule refl)
    have "answers (cn_stream (fst (conn_feed ce s c w)))"
      using a f1 [of c1 "the (cn_h1 c1)" w] f2 [of c1 "the (cn_h2 c1)" w] unfolding e by (cases "cn_proto c1") auto
    then show ?thesis by (simp add: f)
  qed
  then show ?thesis using assms(2,3) by (auto simp: conn_serve_def select_stream split: if_splits prod.splits)
qed

lemma process_answers:
  assumes "env_ok (hv_lim s) ce h" "conn_wf (hv_lim s) c" "env_answers ce" "answers (cn_stream c)"
  shows "\<exists>c' w'. conn_process ce s c rv w = Some (c', w') \<and> answers (cn_stream c')"
proof -
  define c0 where "c0 = (if rv_err rv \<or> rv_nval rv then c\<lparr>cn_peer_eof := True\<rparr> else c)"
  have c0: "conn_wf (hv_lim s) c0" "answers (cn_stream c0)" using assms by (simp_all add: c0_def)
  obtain c1 w1 where i: "conn_input ce s c0 rv w = Some (c1, w1)" "answers (cn_stream c1)" using input_answers [OF assms(3) c0(2)] by blast
  have c1: "conn_wf (hv_lim s) c1" using conn_input_wf [OF c0(1) i(1)] .
  obtain c2 w2 where sv: "conn_serve ce s c1 w1 = (c2, w2)" by fastforce
  define c3 where "c3 = (if \<not> cn_dead c2 \<and> cn_proto c2 = CONN_H2 \<and> rv_out rv then conn_pump ce c2 else c2)"
  have c2: "conn_wf (hv_lim s) c2" using conn_serve_ok(2) [OF assms(1) c1 sv] .
  have c3: "zb_wf (cn_out c3)" "answers (cn_stream c3)"
    using conn_pump_wf [OF c2, of ce] c2 serve_answers [OF assms(3) i(2) sv] by (auto simp: c3_def conn_wf_def select_stream)
  obtain c4 w4 where f: "(if \<not> cn_dead c3 \<and> out_pending c3 then conn_flush (ce_now ce) c3 w2 else Some (c3, w2)) = Some (c4, w4)"
      "answers (cn_stream c4)"
    using flush_answers [OF c3, of "ce_now ce" w2] c3(2) by (metis (no_types, lifting))
  show ?thesis unfolding conn_process_def c0_def [symmetric] i(1) sv Option.bind_lunit prod.case Let_def c3_def [symmetric] f(1)
    using f(2) by (simp add: select_stream)
qed

definition conns_answer :: "'c conn list \<Rightarrow> bool" where
  "conns_answer cs \<longleftrightarrow> (\<forall>c\<in>set cs. answers (cn_stream c))"

lemma slices_answer:
  assumes "turn_answers tn" "list_all (conn_wf (hv_lim s)) cs" "conns_answer cs"
  shows "\<exists>cs' w'. conn_slices tn s ready i cs w = Some (cs', w') \<and> conns_answer cs'"
  using assms(2,3)
proof (induction cs arbitrary: i w)
  case (Cons c cs)
  have e: "env_ok (hv_lim s) (tn_conn tn i) (he_handler (ce_engine (tn_conn tn i)))" "env_answers (tn_conn tn i)"
    using assms(1) by (simp_all add: turn_answers_def turn_ok_def env_ok_def)
  obtain c1 w1 where p: "conn_process (tn_conn tn i) s c (if ready then tn_revents tn i else no_events) w = Some (c1, w1)"
      "answers (cn_stream c1)"
    using process_answers [OF e(1) _ e(2), of c "if ready then tn_revents tn i else no_events" w] Cons.prems unfolding conns_answer_def by auto
  obtain cs1 w2 where "conn_slices tn s ready (i + 1) cs w1 = Some (cs1, w2)" "conns_answer cs1"
    using Cons.IH [of "i + 1" w1] Cons.prems by (auto simp: conns_answer_def)
  with p show ?case unfolding conn_slices.simps by (simp add: conns_answer_def)
qed (simp add: conns_answer_def)

lemma graceful_stream: "cn_stream (conn_graceful env c) = cn_stream c"
  by (simp add: conn_graceful_def Let_def split: conn_proto.splits option.splits)

lemma prologue_answer: "conns_answer (hv_conns s) \<Longrightarrow> conns_answer (hv_conns (stop_prologue ops tn s))"
  by (auto simp: stop_prologue_def begin_stop_def conns_answer_def graceful_stream in_set_enumerate_eq Let_def)

lemma tidy_answer: "conns_answer (hv_conns s) \<Longrightarrow> conns_answer (hv_conns (server_tidy tn nc s))"
  by (auto simp: conns_answer_def server_tidy_def server_remove_dead_def drain_conn_def sweep_def Let_def dest: in_set_takeD in_set_dropD)

lemma accept_answer:
  assumes "turn_answers tn" "server_accept tn ready s = (s', w)" "conns_answer (hv_conns s)"
  shows "conns_answer (hv_conns s')"
proof -
  have "answers (cn_stream c)" if "conn_setup s a redirect = Some c" "answers (ac_stream a)" "answers (ac_tls a)" for c a redirect
    using that by (auto simp: conn_setup_def conn_zero_def Let_def split: if_splits option.splits)
  then have "just_accepted s tn c \<Longrightarrow> answers (cn_stream c)" for c
    using assms(1) unfolding just_accepted_def turn_answers_def by auto
  then show ?thesis using server_accept_from [OF assms(2)] assms(3) by (auto simp: conns_answer_def)
qed

lemma turn_total:
  assumes "server_wf s" "\<not> hv_stopped s" "turn_answers tn" "conns_answer (hv_conns s)"
  shows "\<exists>r s'. server_turn ops tn s ready = Some (r, s') \<and> conns_answer (hv_conns s') \<and>
    (hv_stopping s \<longrightarrow> hv_h3 s = None \<longrightarrow> hv_drain_deadline_ms s \<le> tn_now tn \<longrightarrow> r = zcode ZCIO_ERR_EOF)"
proof -
  let ?nc = "length (hv_conns s)"
  obtain s1 w1 where a: "server_accept tn ready s = (s1, w1)" by fastforce
  note s1 = server_accept_ok [OF assms(1,2) a]
  obtain s2 w2 where q: "server_h3 ops s1 w1 = (s2, w2)" by fastforce
  have s2: "server_wf s2" "hv_conns s2 = hv_conns s1" "hv_h3 s = None \<longrightarrow> hv_h3 s2 = None" "same_phase s s2"
    using server_h3_ok [OF q] s1 by (auto simp: grown_def same_phase_def)
  have ca: "conns_answer (hv_conns s2)" using accept_answer [OF assms(3) a assms(4)] s2(2) by simp
  then have t: "conns_answer (take ?nc (hv_conns s2))" "list_all (conn_wf (hv_lim s2)) (take ?nc (hv_conns s2))"
    using s2(1) by (auto simp: conns_answer_def server_wf_def list_all_iff dest: in_set_takeD)
  obtain cs w3 where cs: "conn_slices tn s2 ready 0 (take ?nc (hv_conns s2)) w2 = Some (cs, w3)" "conns_answer cs"
    using slices_answer [OF assms(3) t(2,1)] by blast
  define b where "b = s2\<lparr>hv_conns := cs @ drop ?nc (hv_conns s2)\<rparr>"
  define s3 where "s3 = server_tidy tn ?nc b"
  have e: "server_turn ops tn s ready = Some (if hv_stopping s3 \<and> hv_conns s3 = [] \<and> (case hv_h3 s3 of None \<Rightarrow> True | Some q \<Rightarrow> q3_idle ops q)
      then (zcode ZCIO_ERR_EOF, s3\<lparr>hv_stopped := True\<rparr>) else (int w3, s3))"
    unfolding server_turn_def a Let_def prod.case q cs Option.bind_lunit b_def [symmetric] s3_def [symmetric] by (rule refl)
  have "conns_answer (hv_conns b)" using cs(2) ca by (auto simp: b_def conns_answer_def dest: in_set_dropD)
  then have c3: "conns_answer (hv_conns s3)" unfolding s3_def by (rule tidy_answer)
  have b: "hv_stopping b = hv_stopping s" "hv_drain_deadline_ms b = hv_drain_deadline_ms s" "hv_h3 b = hv_h3 s2"
    using s2(4) by (simp_all add: b_def same_phase_def)
  have p3: "hv_stopping s3 = hv_stopping b" "hv_h3 s3 = hv_h3 b" by (simp_all add: s3_def server_tidy_def server_remove_dead_def Let_def)
  have "hv_conns s3 = []" if "hv_stopping s" "hv_drain_deadline_ms s \<le> tn_now tn"
  proof (rule ccontr)
    assume "hv_conns s3 \<noteq> []"
    then obtain c where "c \<in> set (hv_conns s3)" by (meson list.set_sel(1))
    from tidy_survivors(3) [OF this [unfolded s3_def]] that b show False by simp
  qed
  with c3 s2(3) b p3 show ?thesis unfolding e by auto
qed

text \<open>One turn in which the system grants everything: it returns, and says whether the server has stopped.\<close>

lemma poll_total:
  assumes "server_wf s" "\<not> hv_stopped s" "turn_answers tn" "conns_answer (hv_conns s)" "hv_h3 s = None"
  shows "\<exists>r s'. server_poll ops tn s t = Some (r, s') \<and> server_wf s' \<and> conns_answer (hv_conns s') \<and> hv_h3 s' = None \<and>
    hv_lim s' = hv_lim s \<and> hv_stop_flag s' = hv_stop_flag (stop_prologue ops tn s) \<and> hv_stopping s' = hv_stopping (stop_prologue ops tn s) \<and>
    hv_drain_deadline_ms s' = hv_drain_deadline_ms (stop_prologue ops tn s) \<and>
    (r = zcode ZCIO_ERR_EOF \<and> hv_stopped s' \<and> hv_conns s' = [] \<or> r \<ge> 0 \<and> \<not> hv_stopped s') \<and>
    (hv_stopping s' \<longrightarrow> hv_drain_deadline_ms s' \<le> tn_now tn \<longrightarrow> r = zcode ZCIO_ERR_EOF)"
proof -
  note p = prologue_ok [OF assms(1,2)]
  obtain q s2 where q: "ensure_pollset (tn_alloc tn) (stop_prologue ops tn s) (length (hv_conns (stop_prologue ops tn s)) + 4) = (q, s2)" by fastforce
  have ok: "q = ZCIO_OK" using q ensure_pollset_keeps(2) [of "tn_alloc tn"] assms(3) by (metis fst_conv turn_answers_def)
  obtain n where s2: "s2 = (stop_prologue ops tn s)\<lparr>hv_pollset_cap := n\<rparr>" using ensure_pollset_keeps(1) [OF q] by blast
  have w: "server_wf s2" "\<not> hv_stopped s2" "conns_answer (hv_conns s2)" "hv_h3 s2 = None" "hv_lim s2 = hv_lim s"
    "hv_stop_flag s2 = hv_stop_flag (stop_prologue ops tn s)" "hv_stopping s2 = hv_stopping (stop_prologue ops tn s)"
    "hv_drain_deadline_ms s2 = hv_drain_deadline_ms (stop_prologue ops tn s)"
    using p assms prologue_answer [OF assms(4)] by (simp_all add: s2)
  define ready where "ready = (tn_poll tn (poll_timeout ops s2 (tn_before tn) t) > 0)"
  have rc: "\<not> tn_poll tn (poll_timeout ops s2 (tn_before tn) t) < 0" using assms(3) by (auto simp: turn_answers_def not_less)
  have e: "server_poll ops tn s t = server_turn ops tn s2 ready"
    unfolding poll_prologue q prod.case using ok rc assms(2) by (simp add: ready_def)
  obtain r s' where r: "server_turn ops tn s2 ready = Some (r, s')" "conns_answer (hv_conns s')"
      "hv_stopping s2 \<Longrightarrow> hv_drain_deadline_ms s2 \<le> tn_now tn \<Longrightarrow> r = zcode ZCIO_ERR_EOF"
    using turn_total [OF w(1,2) assms(3) w(3)] w(4) by blast
  have env: "\<And>i. env_ok (hv_lim s2) (tn_conn tn i) (he_handler (ce_engine (tn_conn tn i)))"
    using assms(3) by (simp add: turn_answers_def turn_ok_def env_ok_def)
  note f = server_turn_ok(2) [OF w(1,2) env r(1)]
  show ?thesis unfolding e r(1)
    using f r(2,3) w(4-8) by (intro exI [of _ r] exI [of _ s']) auto
qed

lemma run_step:
  assumes "server_poll ops (turns k) s (-1) = Some (r, s1)"
  shows "server_run ops turns k s = (if r = zcode ZCIO_ERR_EOF then Some (zcode ZCIO_OK, s1) else if r < 0 then Some (r, s1)
    else server_run ops turns (k + 1) s1)"
  using assms by (subst server_run.simps) simp

definition stopped_clean :: "(int \<times> ('c, 'q) http_server) option \<Rightarrow> bool" where
  "stopped_clean res \<longleftrightarrow> (\<exists>s. res = Some (zcode ZCIO_OK, s) \<and> hv_stopped s \<and> hv_conns s = [])"

lemma run_drains:
  assumes "server_wf s" "\<not> hv_stopped s" "\<And>i. turn_answers (turns i)" "conns_answer (hv_conns s)" "hv_h3 s = None"
    "hv_stopping s" "hv_drain_deadline_ms s \<le> tn_now (turns (k + d))"
  shows "stopped_clean (server_run ops turns k s)"
  using assms
proof (induction d arbitrary: k s)
  case 0
  have pr: "hv_stopping (stop_prologue ops (turns k) s)" "hv_drain_deadline_ms (stop_prologue ops (turns k) s) = hv_drain_deadline_ms s"
    using 0 by (simp_all add: stop_prologue_def Let_def)
  obtain r s' where "server_poll ops (turns k) s (-1) = Some (r, s')" "r = zcode ZCIO_ERR_EOF" "hv_stopped s'" "hv_conns s' = []"
    using poll_total [OF 0(1,2) 0(3) [of k] 0(4,5), of ops "-1"] 0(7) pr by auto
  then show ?case using run_step [of ops turns k s r s'] by (simp add: stopped_clean_def)
next
  case (Suc d)
  have pr: "hv_stopping (stop_prologue ops (turns k) s)" "hv_drain_deadline_ms (stop_prologue ops (turns k) s) = hv_drain_deadline_ms s"
    using Suc.prems by (simp_all add: stop_prologue_def Let_def)
  obtain r s' where p: "server_poll ops (turns k) s (-1) = Some (r, s')" and s': "server_wf s'" "conns_answer (hv_conns s')" "hv_h3 s' = None"
      "hv_stopping s'" "hv_drain_deadline_ms s' = hv_drain_deadline_ms s"
      "r = zcode ZCIO_ERR_EOF \<and> hv_stopped s' \<and> hv_conns s' = [] \<or> r \<ge> 0 \<and> \<not> hv_stopped s'"
    using poll_total [OF Suc.prems(1,2) Suc.prems(3) [of k] Suc.prems(4,5), of ops "-1"] pr by auto
  show ?case
  proof (cases "r \<ge> 0")
    case True
    then have "\<not> hv_stopped s'" "r \<noteq> zcode ZCIO_ERR_EOF" using s'(6) by auto
    with Suc.IH [of s' "k + 1"] s' Suc.prems(3,7) True show ?thesis by (simp add: run_step [where turns = turns, OF p])
  qed (use s'(6) in \<open>simp add: run_step [where turns = turns, OF p] stopped_clean_def\<close>)
qed

lemma run_until_stop:
  assumes "server_wf s" "\<not> hv_stopped s" "\<And>i. turn_answers (turns i)" "conns_answer (hv_conns s)" "hv_h3 s = None" "\<not> hv_stop_flag s"
    "tn_stop (turns (k + j))" "\<And>i. i < j \<Longrightarrow> \<not> tn_stop (turns (k + i))"
    "(tn_stop_now (turns (k + j)) + u64_ms (drain_timeout_ms (hv_lim s))) mod 2 ^ 64 \<le> tn_now (turns (k + j + d))"
  shows "stopped_clean (server_run ops turns k s)"
  using assms
proof (induction j arbitrary: k s)
  case 0
  have ns: "\<not> hv_stopping s" using 0(1,6) by (auto simp: server_wf_def)
  have pr: "hv_stopping (stop_prologue ops (turns k) s)"
    "hv_drain_deadline_ms (stop_prologue ops (turns k) s) = (tn_stop_now (turns k) + u64_ms (drain_timeout_ms (hv_lim s))) mod 2 ^ 64"
    using 0(7) ns by (simp_all add: stop_prologue_def begin_stop_def Let_def)
  obtain r s' where p: "server_poll ops (turns k) s (-1) = Some (r, s')" and s': "server_wf s'" "conns_answer (hv_conns s')" "hv_h3 s' = None"
      "hv_stopping s'" "hv_drain_deadline_ms s' = (tn_stop_now (turns k) + u64_ms (drain_timeout_ms (hv_lim s))) mod 2 ^ 64"
      "r = zcode ZCIO_ERR_EOF \<and> hv_stopped s' \<and> hv_conns s' = [] \<or> r \<ge> 0 \<and> \<not> hv_stopped s'"
      "hv_drain_deadline_ms s' \<le> tn_now (turns k) \<longrightarrow> r = zcode ZCIO_ERR_EOF"
    using poll_total [OF 0(1,2) 0(3) [of k] 0(4,5), of ops "-1"] pr by auto
  show ?case
  proof (cases "r \<ge> 0")
    case True
    then have n: "\<not> hv_stopped s'" "r \<noteq> zcode ZCIO_ERR_EOF" using s'(6) by auto
    then obtain e where e: "d = Suc e" using s'(5,7) 0(9) by (cases d) auto
    from run_drains [where turns = turns and k = "k + 1" and d = e, OF s'(1) n(1) 0(3) s'(2,3,4)] 0(9) s'(5) e
    have "stopped_clean (server_run ops turns (k + 1) s')" by simp
    then show ?thesis using True n(2) by (simp add: run_step [where turns = turns, OF p])
  qed (use s'(6) in \<open>simp add: run_step [where turns = turns, OF p] stopped_clean_def\<close>)
next
  case (Suc j)
  have pr: "stop_prologue ops (turns k) s = s" using Suc.prems(6) Suc.prems(8) [of 0] by (simp add: stop_prologue_def)
  have ns: "\<not> hv_stopping s" using Suc.prems(1,6) by (auto simp: server_wf_def)
  obtain r s' where p: "server_poll ops (turns k) s (-1) = Some (r, s')" and s': "server_wf s'" "conns_answer (hv_conns s')" "hv_h3 s' = None"
      "\<not> hv_stop_flag s'" "hv_lim s' = hv_lim s" "\<not> hv_stopping s'"
      "r = zcode ZCIO_ERR_EOF \<and> hv_stopped s' \<and> hv_conns s' = [] \<or> r \<ge> 0 \<and> \<not> hv_stopped s'"
    using poll_total [OF Suc.prems(1,2) Suc.prems(3) [of k] Suc.prems(4,5), of ops "-1"] Suc.prems(6) ns unfolding pr by auto
  then have r: "r \<ge> 0" "\<not> hv_stopped s'" "r \<noteq> zcode ZCIO_ERR_EOF" by (auto simp: server_wf_def)
  have st: "tn_stop (turns (k + 1 + j))" "\<And>i. i < j \<Longrightarrow> \<not> tn_stop (turns (k + 1 + i))"
    "(tn_stop_now (turns (k + 1 + j)) + u64_ms (drain_timeout_ms (hv_lim s'))) mod 2 ^ 64 \<le> tn_now (turns (k + 1 + j + d))"
    using Suc.prems(7,9) Suc.prems(8) [of "Suc _"] s'(5) by simp_all
  from Suc.IH [where k = "k + 1", OF s'(1) r(2) Suc.prems(3) s'(2,3,4) st] show ?case using r by (simp add: run_step [where turns = turns, OF p])
qed

subsection \<open>The guarantees\<close>

text \<open>
  C1. Only valid requests reach the application, whatever the clients send: on a server reached from
  its start by any turns of the loop (any input on any number of connections, either protocol, a TLS
  handshake or a detected preface, resets, time-outs, a stop), two sets of handlers that agree on
  well-formed requests within the configured limits make the next turn end in the same state with
  the same result.
\<close>

theorem server_only_valid_requests:
  assumes "server_reach ops s" "turn_ok tn"
    and "\<And>i n q. request_valid (hv_lim s) q \<Longrightarrow> h i n q = he_handler (ce_engine (tn_conn tn i)) n q"
  shows "zcio_http_server_poll ops (turn_handlers h tn) (Some s) t = zcio_http_server_poll ops tn (Some s) t"
proof -
  have "\<And>i. env_ok (hv_lim s) (tn_conn tn i) (h i)" using assms(2,3) by (simp add: turn_ok_def env_ok_def)
  from poll_ok(1) [OF server_reach_wf [OF assms(1)] this] show ?thesis by (simp add: zcio_http_server_poll_def)
qed

text \<open>
  C5. What a turn leaves behind: never more connections than the limit, none of them dead, every one
  still before its own deadline (handshake, header, idle or write time-out) unless the turn has just
  accepted it, and while stopping only connections with work left, before the drain deadline.
\<close>

theorem server_connections_bounded:
  assumes "server_reach ops s" "turn_ok tn" "zcio_http_server_poll ops tn (Some s) t = Some (r, Some s')" "r \<ge> 0"
  shows "length (hv_conns s') \<le> max_connections (hv_lim s') \<and>
    (\<forall>c\<in>set (hv_conns s'). \<not> cn_dead c \<and> (tn_now tn < conn_deadline_ms (hv_lim s') c \<or> just_accepted s tn c) \<and>
       (hv_stopping s' \<longrightarrow> \<not> conn_drained c \<and> tn_now tn < hv_drain_deadline_ms s'))"
proof
  have p: "server_poll ops tn s t = Some (r, s')" using assms(3) by (auto simp: zcio_http_server_poll_def)
  show "length (hv_conns s') \<le> max_connections (hv_lim s')"
    using server_reach_wf [OF reach_poll [OF assms(1-3)]] by (simp add: server_wf_def)
  show "\<forall>c\<in>set (hv_conns s'). \<not> cn_dead c \<and> (tn_now tn < conn_deadline_ms (hv_lim s') c \<or> just_accepted s tn c) \<and>
       (hv_stopping s' \<longrightarrow> \<not> conn_drained c \<and> tn_now tn < hv_drain_deadline_ms s')"
    using poll_survivors [OF server_reach_wf [OF assms(1)] assms(2) p assms(4)] by (simp add: survives_def)
qed


subsection \<open>A server on memory streams\<close>

definition example_conn_env :: "membuf conn_env" where
  "example_conn_env = \<lparr>ce_engine = example_env, ce_now = 0, ce_mem = True, ce_dec_mem = True,
     ce_handshake = (\<lambda>st. (0, st)), ce_alpn = (\<lambda>_. None), ce_accept = (\<lambda>st. st)\<rparr>"

definition example_accepted :: "membuf accepted" where
  "example_accepted = \<lparr>ac_mem = True, ac_now = 0, ac_stream = zcio_memory_stream True True (Some (asc ''GET /'')) 5,
     ac_h1_mem = True, ac_tls = None, ac_table = (\<lambda>_. True)\<rparr>"

text \<open>Turn 0 accepts a connection, a stop comes before turn 1, and a turn takes ten seconds.\<close>

definition example_turn :: "nat \<Rightarrow> membuf turn" where
  "example_turn i = \<lparr>tn_stop = (i = 1), tn_stop_now = 10000 * i, tn_alloc = (\<lambda>_. True), tn_before = 10000 * i, tn_poll = (\<lambda>_. 1),
     tn_now = 10000 * i, tn_listen = \<lparr>rv_in = True, rv_out = False, rv_err = False, rv_nval = False\<rparr>, tn_redirect = no_events,
     tn_accepted = [example_accepted], tn_accepted_redirect = [], tn_revents = (\<lambda>_. no_events), tn_conn = (\<lambda>_. example_conn_env)\<rparr>"

definition example_ops :: "unit h3_ops" where
  "example_ops = \<lparr>q3_timeout_ms = (\<lambda>_. -1), q3_process = (\<lambda>q. (0, q)), q3_idle = (\<lambda>_. True), q3_graceful = (\<lambda>q. q)\<rparr>"

definition example_server :: "(membuf, unit) http_server" where
  "example_server = the (zcio_http_server_start \<lparr>st_handler = True, st_mem = True, st_alloc = (\<lambda>_. True), st_ctx_files = False,
     st_ctx_self = False, st_wake = True, st_listen = Some 8080, st_redirect = False, st_h3 = None\<rparr> None)"

lemma example_server_fields:
  "zcio_http_server_start \<lparr>st_handler = True, st_mem = True, st_alloc = (\<lambda>_. True), st_ctx_files = False,
     st_ctx_self = False, st_wake = True, st_listen = Some 8080, st_redirect = False, st_h3 = None\<rparr> None = Some example_server"
  "example_server = \<lparr>hv_versions = 1, hv_lim = zhs_limits_resolve None, hv_listen = True, hv_redirect = False, hv_h3 = None, hv_tls = False,
     hv_conns = [], hv_cap_conns = 0, hv_pollset_cap = 0, hv_stop_flag = False, hv_stopping = False, hv_stopped = False,
     hv_drain_deadline_ms = 0, hv_bound_port = 8080\<rparr>"
  by (simp_all add: example_server_def zcio_http_server_start_def config_zero_def resolve_tls_def dup_ok_def ZCIO_HTTP1_1_def ZCIO_HTTP3_def)

lemma example_server_reach: "server_reach example_ops example_server"
  by (rule reach_start [OF example_server_fields(1)])

lemma example_turn_answers: "turn_answers (example_turn i)"
  by (simp_all add: turn_answers_def turn_ok_def example_turn_def example_conn_env_def example_env_def env_answers_def example_accepted_def
      answers_def zcio_memory_stream_def mb_new_def zcio_stream_new_def MEM_VT_def)
    (metis prod_cases3 surj_pair)+

lemma example_turn_ok: "turn_ok (example_turn i)"
  using example_turn_answers [of i] by (simp add: turn_answers_def)

theorem server_only_valid_requests_witness:
  "let h = (\<lambda>i n q. if request_valid (zhs_limits_resolve None) q then [HRespond 200 [] None 0] else [])
   in zcio_http_server_poll example_ops (turn_handlers h (example_turn 0)) (Some example_server) (-1) =
      zcio_http_server_poll example_ops (example_turn 0) (Some example_server) (-1)"
  unfolding Let_def
  by (rule server_only_valid_requests [OF example_server_reach example_turn_ok])
    (simp add: example_server_fields(2) example_turn_def example_conn_env_def example_env_def)

lemma example_first_turn:
  "\<exists>s'. zcio_http_server_poll example_ops (example_turn 0) (Some example_server) (-1) = Some (1, Some s') \<and>
     hv_conns s' = [conn_zero 0 (zcio_memory_stream True True (Some (asc ''GET /'')) 5) False] \<and> hv_lim s' = zhs_limits_resolve None"
  by (simp add: zcio_http_server_poll_def server_poll_def example_server_fields(2) ensure_pollset_def pollset_grow.simps
      example_turn_def server_turn_def server_accept_def accept_ready_def accept_loop.simps example_accepted_def conn_create_def conn_setup_def
      server_add_conn_def server_h3_def server_tidy_def server_remove_dead_def zcio_memory_stream_def mb_new_def zcio_stream_new_def
      conn_zero_def zhs_limits_resolve_def)

theorem server_connections_bounded_witness:
  "\<exists>s'. zcio_http_server_poll example_ops (example_turn 0) (Some example_server) (-1) = Some (1, Some s') \<and>
     length (hv_conns s') = 1 \<and> (\<forall>c\<in>set (hv_conns s'). \<not> cn_dead c)"
proof -
  obtain s' where s': "zcio_http_server_poll example_ops (example_turn 0) (Some example_server) (-1) = Some (1, Some s')"
    "length (hv_conns s') = 1" using example_first_turn by auto
  from server_connections_bounded [OF example_server_reach example_turn_ok s'(1)] s' show ?thesis by auto
qed

end
