(* ===== verification/Spec2Isabelle.thy ===== *)
theory Spec2Isabelle
  imports Zc_Prelude Zc_Stream Zc_Membuf Zc_Ring Zc_Serial Zc_HttpUtil Zc_Hpack Zc_Qpack Zc_Respond Zc_H1
    Zc_WsKey Zc_Ws Zc_WsFrames Zc_WsSession Zc_WsConnect Zc_H2 Zc_H2Inv Zc_H2Feed Zc_H2Send Zc_Http Zc_HttpClient Zc_HttpE2E
    Zc_Server Zc_ServerLoop
begin

text \<open>
  A model of zcio, a C library for streams, serialization, HTTP and WebSocket, and the theorems
  that make it correct.

  \<^bold>\<open>The program.\<close> A stream (\<open>src/stream.c\<close>) is a table of operations over an opaque context;
  memory views (\<open>src/membuf.c\<close>) and a shared-memory ring (\<open>src/ring.c\<close>) are streams, and the
  transfer loops (\<open>zcio_read_full\<close>, \<open>zcio_write_full\<close>, \<open>zcio_copy\<close>) work over any of them. The
  serializer (\<open>src/serial.c\<close>) writes bits, bytes, scalars and strings to a caller-owned buffer, a
  stream or a counter. The HTTP side rests on shared utilities (\<open>src/http_util.c\<close>: growable
  buffers, header lists, validators, request targets); the header codecs HPACK and QPACK
  (\<open>src/hpack.c\<close>, \<open>src/qpack.c\<close>) and the engines of HTTP/1.1 (\<open>src/h1.c\<close>) and HTTP/2 (\<open>src/h2.c\<close>) work on
  those buffers only, without I/O. An engine hands each request to \<open>zhs_dispatch_\<close> (\<open>src/http_server.c\<close>), which runs
  the user's handler and guarantees one response. A request that asks for an upgrade is taken out
  of the event loop by \<open>zcio_ws_accept\<close>; WebSocket sessions (\<open>src/ws.c\<close>), server and client side,
  drive a blocking stream. The event loop of \<open>src/http_server.c\<close> accepts connections, chooses an engine for
  each, reads, feeds, flushes, enforces the deadlines and drains on a stop. The HTTP client (\<open>src/http.c\<close>) sends requests over streams too, one-shot
  with redirects or in keep-alive sessions.

  \<^bold>\<open>Theories.\<close>
  \<^item> \<open>Zc_Prelude\<close>: words, \<open>size_t\<close> arithmetic, result codes, block copies.
  \<^item> \<open>Zc_Stream\<close>: operation tables, dispatch and the transfer loops. A backend call that never
    returns is \<open>None\<close>. The interfaces \<open>byte_source\<close>, \<open>byte_sink\<close> and \<open>stream_copy\<close> carry the loop
    theorems.
  \<^item> \<open>Zc_Membuf\<close>: memory and counting streams; provides these interfaces.
  \<^item> \<open>Zc_Ring\<close>: the ring as a queue, and its two threads as an interleaving of cursor loads, byte
    copies and cursor stores (\<open>spsc_step\<close>), with delivery in order and progress.
  \<^item> \<open>Zc_Serial\<close>: the three modes of the serializer; memory safety, round trips, exact counting.
  \<^item> \<open>Zc_HttpUtil\<close>: buffers as byte queues (interface \<open>byte_fifo\<close>), limits, headers, UTF-8,
    percent-decoding and dot segments.
  \<^item> \<open>Zc_Hpack\<close>, \<open>Zc_Qpack\<close>: integers, Huffman code, tables, block codecs; round trips, bounds,
    refinement of the dynamic table to a queue.
  \<^item> \<open>Zc_Respond\<close>: the request object, response policy and dispatch; the user's handler is the list
    of calls it makes.
  \<^item> \<open>Zc_H1\<close>: the HTTP/1.1 engine, stage by stage, and its feed loop; what it lets through.
  \<^item> \<open>Zc_WsKey\<close>: SHA-1, Base64 and the accept value.
  \<^item> \<open>Zc_Ws\<close>: WebSocket frames and sessions; \<open>Zc_WsFrames\<close> the invariant, the wire format and the
    parser as its inverse; \<open>Zc_WsSession\<close> reachable sessions and the properties of whole exchanges;
    \<open>Zc_WsConnect\<close> the opening handshakes of server and client.
  \<^item> \<open>Zc_H2\<close>: the HTTP/2 engine: frames, the stream table, header blocks, flow control, flood guards,
    responses and the pump; \<open>Zc_H2Inv\<close> its invariant, kept by each handler (the response hook behind
    the interface \<open>respond_owner\<close>); \<open>Zc_H2Feed\<close> the feed loop, the pump and the reachable
    connections; \<open>Zc_H2Send\<close> what a connection writes.
  \<^item> \<open>Zc_Http\<close>: the HTTP client: URLs, requests, reading and parsing of responses, redirects,
    sessions; \<open>Zc_HttpClient\<close> redirects, chunked bodies and the read loop; \<open>Zc_HttpE2E\<close> whole responses
    in any pieces, the headers as JSON, and the client together with the server's respond path.
  \<^item> \<open>Zc_Server\<close>: the event loop of the HTTP server. What the system answers in a turn (poll, accepted
    streams, TLS handshakes, the clock, memory) is the record \<open>turn\<close>; \<open>Zc_ServerLoop\<close> the invariant of
    the server, kept by every turn, and the guarantees of the loop.

  \<^bold>\<open>Conventions.\<close> A pointer that may be NULL is an \<open>option\<close>; a function that returns a count or a
  negative code returns an \<open>int\<close> (\<open>zcode\<close> gives the numbers); parsers return
  \<open>zcio_result + 'a\<close>. Sizes are natural numbers with the wrap-around of \<open>size_t\<close> written out where
  it can occur (\<open>szsub\<close>, \<open>SIZE_MAX\<close>), wire integers are words. Whether an allocation succeeds is a
  parameter, as are the clock, entropy, socket time-outs, dialling and TLS contexts. A C string is
  the list of its bytes before the NUL. Private functions of the source end in an underscore, which
  is dropped here.

  \<^bold>\<open>Loops.\<close> Every loop of the modelled code that always ends is a function with a termination proof
  (bytes left in a buffer, bytes left to transfer, digits left). Seven loops may wait forever
  (\<open>zcio_copy\<close> without a limit, a blocking ring, receiving and closing a WebSocket, reading a
  handshake answer, reading a response, flushing a connection, running the server): they are partial functions whose value is \<open>None\<close> when they do not return, and
  returning is proved where the transport guarantees it. The redirect loops run
  at most four times in \<open>zcio_ws_connect\<close> and six times in \<open>zcio_http_request_opts\<close>, as in the source.

  \<^bold>\<open>What is proved.\<close> Memory safety and invariants (serializer, memory views, buffers, header lists,
  HPACK table, WebSocket sessions, HTTP/2 connections with their stream tables and flow-control
  windows); exactness against reference definitions (UTF-8, dot segments,
  Huffman code, Content-Length, SHA-1, counting, headers as JSON); round trips (serializer, strings, memory views,
  HPACK, QPACK, HTTP/2 responses, chunked bodies, Base64, WebSocket messages, HTTP responses from the
  server's handler to the client's caller); protocol safety (only well-formed
  requests reach the handler, at most one response, bare line feeds refused, WebSocket violations
  closed with 1002, peers verified, no downgrade by redirects); ordering and progress of the
  concurrent ring; termination of receiving; the server's limits on connections and deadlines, and
  the completion of a graceful stop. Some theorems show where the code does not do what it
  means to: a write position past the buffer, a huge copy limit, a closing connection that is fed
  again, an HTTP/2 header table that falls behind the peer's.

  \<^bold>\<open>Not modelled.\<close> Listeners and the wake pipe of \<open>src/http_server.c\<close>, TCP, UDP, multicast and DNS are
  operating-system I/O. HTTP/3
  (\<open>src/h3.c\<close>), TLS and the archive codec bind libraries that are not part of the repository.
  The language bindings are glue, and the vendored ed25519 code is third-party.
\<close>

end
